(* ===== verification/Prelude.thy ===== *)
theory Prelude
  imports Main "HOL-Library.Word"
begin

text \<open>
  Shared vocabulary of the development: machine integers at the kernel's widths, the outcome of an
  operation that may stop in \<open>panic\<close>, an \<open>assert\<close> or a wild dereference, single-bit
  updates of bitmaps, the \<open>clz\<close> instruction, and circular doubly linked chains in a heap of
  \<open>prev\<close>/\<open>next\<close> pointers. Nothing here models one particular source file except
  \<open>clz32\<close>, the inline assembly of \<^verbatim>\<open>kernel/sched.c\<close>.
\<close>

unbundle bit_operations_syntax

named_theorems result_simps \<open>sequencing of operations that may fault\<close>
named_theorems bitmap_simps \<open>reading a bitmap after single-bit updates\<close>

subsection \<open>Machine integers and pointers\<close>

type_synonym u8 = "8 word"
type_synonym u16 = "16 word"
type_synonym u32 = "32 word"
type_synonym u64 = "64 word"

text \<open>Pointers are 32-bit addresses; \<open>NULL\<close> is address 0, as in \<^verbatim>\<open>include/types.h\<close>.\<close>

type_synonym ptr = u32

abbreviation (input) NULL :: ptr where "NULL \<equiv> 0"

subsection \<open>Operations that may stop the kernel\<close>

text \<open>
  \<open>Panic\<close> is \<^verbatim>\<open>panic(...)\<close>, \<open>Assertion\<close> a failed \<^verbatim>\<open>assert\<close> (both end in the
  endless loop of \<^verbatim>\<open>panic_impl\<close>), \<open>Null_deref\<close> an access through a null pointer the
  source does not guard, \<open>Out_of_bounds\<close> an access past the end of a local array, and \<open>Diverges\<close> a loop of the source that does not stop within the
  bound of its model.
\<close>

datatype fault =
    Panic string
  | Assertion string
  | Null_deref string
  | Out_of_bounds string
  | Diverges string

datatype 'a result = Ok 'a | Fault fault

primrec rbind :: "'a result \<Rightarrow> ('a \<Rightarrow> 'b result) \<Rightarrow> 'b result" where
  "rbind (Ok x) f = f x"
| "rbind (Fault e) f = Fault e"

primrec is_ok :: "'a result \<Rightarrow> bool" where
  "is_ok (Ok x) = True"
| "is_ok (Fault e) = False"

lemma rbind_eq_Ok [result_simps]: "rbind m f = Ok y \<longleftrightarrow> (\<exists>x. m = Ok x \<and> f x = Ok y)"
  by (cases m) auto

lemma rbind_eq_Fault [result_simps]:
  "rbind m f = Fault e \<longleftrightarrow> m = Fault e \<or> (\<exists>x. m = Ok x \<and> f x = Fault e)"
  by (cases m) auto

lemma rbind_assoc: "rbind (rbind m f) g = rbind m (\<lambda>x. rbind (f x) g)"
  by (cases m) auto

lemma is_ok_iff: "is_ok m \<longleftrightarrow> (\<exists>x. m = Ok x)"
  by (cases m) auto

text \<open>A loop over a fixed list of indices whose body may fault.\<close>

primrec rfold :: "('a \<Rightarrow> 's \<Rightarrow> 's result) \<Rightarrow> 'a list \<Rightarrow> 's \<Rightarrow> 's result" where
  "rfold f [] s = Ok s"
| "rfold f (x # xs) s = rbind (f x s) (rfold f xs)"

lemma rfold_invariant:
  assumes "rfold f xs s = Ok s'" "I s" "\<And>x s s'. x \<in> set xs \<Longrightarrow> I s \<Longrightarrow> f x s = Ok s' \<Longrightarrow> I s'"
  shows "I s'"
  using assms by (induction xs arbitrary: s) (auto simp: rbind_eq_Ok)

lemma rfold_total:
  assumes "I s" "\<And>x s. x \<in> set xs \<Longrightarrow> I s \<Longrightarrow> \<exists>s'. f x s = Ok s' \<and> I s'"
  shows "\<exists>s'. rfold f xs s = Ok s' \<and> I s'"
  using assms
proof (induction xs arbitrary: s)
  case (Cons x xs)
  then obtain s1 where "f x s = Ok s1" "I s1" by (meson list.set_intros(1))
  moreover have "\<exists>s'. rfold f xs s1 = Ok s' \<and> I s'" using Cons \<open>I s1\<close> by (meson list.set_intros(2))
  ultimately show ?case by simp
qed simp

subsection \<open>Single bits of a 32-bit bitmap\<close>

definition bit_on :: "u32 \<Rightarrow> nat \<Rightarrow> u32" where
  "bit_on w n = w OR push_bit n 1"

definition bit_off :: "u32 \<Rightarrow> nat \<Rightarrow> u32" where
  "bit_off w n = w AND NOT (push_bit n 1)"

lemma bit_bit_on [bitmap_simps]:
  "n < 32 \<Longrightarrow> bit (bit_on w n) m \<longleftrightarrow> m = n \<or> bit w m"
  by (auto simp: bit_on_def bit_or_iff bit_exp_iff)

lemma bit_bit_off [bitmap_simps]:
  "n < 32 \<Longrightarrow> bit (bit_off w n) m \<longleftrightarrow> m \<noteq> n \<and> bit w m"
  by (auto simp: bit_off_def bit_and_iff bit_not_iff bit_exp_iff dest: bit_imp_le_length)

lemma u32_bit_bound: "bit (w :: u32) n \<Longrightarrow> n < 32"
  using bit_imp_le_length by fastforce

lemma u32_eq_zero_iff: "(w :: u32) = 0 \<longleftrightarrow> (\<forall>n < 32. \<not> bit w n)"
  by (auto simp: bit_eq_iff dest: u32_bit_bound)

lemma u32_unat_bound: "unat (w :: u32) < 2 ^ 32"
  using unsigned_less [of w] by simp

lemma u32_unat_of_nat: "n < 2 ^ 32 \<Longrightarrow> unat (of_nat n :: u32) = n"
  by (simp add: unat_of_nat take_bit_nat_eq_self)

lemma unat_u32_minus_one: "unat (-1 :: u32) = 4294967295"
proof -
  have "(-1 :: u32) = 0xFFFFFFFF" by simp
  then show ?thesis by (simp only:) simp
qed

lemma u32_of_nat_eq: "n < 2 ^ 32 \<Longrightarrow> unat (w :: u32) = n \<Longrightarrow> w = of_nat n"
  by auto

lemma u32_sint_of_nat_nonneg: "n < 2 ^ 31 \<Longrightarrow> \<not> sint (of_nat n :: u32) < 0"
proof -
  assume n: "n < 2 ^ 31"
  then have u: "unat (of_nat n :: u32) = n" by (intro u32_unat_of_nat) simp
  have "\<not> bit (int n) 31" using n by (simp add: bit_iff_odd)
  then show ?thesis by (simp add: sint_uint uint_nat u not_less signed_take_bit_nonnegative_iff)
qed

subsection \<open>Counting leading zeros\<close>

fun clz_from :: "nat \<Rightarrow> u32 \<Rightarrow> nat" where
  "clz_from 0 x = 0"
| "clz_from (Suc n) x = (if bit x n then 0 else Suc (clz_from n x))"

definition clz32 :: "u32 \<Rightarrow> nat" where
  "clz32 x = clz_from 32 x"

lemma clz_from_le: "clz_from n x \<le> n"
  by (induction n) auto

lemma clz_from_bit: "clz_from n x < n \<Longrightarrow> bit x (n - Suc (clz_from n x))"
  by (induction n) (auto split: if_splits)

lemma clz_from_above: "n - clz_from n x \<le> m \<Longrightarrow> m < n \<Longrightarrow> \<not> bit x m"
  by (induction n) (auto split: if_splits simp: less_Suc_eq)

lemma clz32_le: "clz32 x \<le> 32"
  by (simp add: clz32_def clz_from_le)

lemma clz32_bit: "clz32 x < 32 \<Longrightarrow> bit x (31 - clz32 x)"
  using clz_from_bit [of 32 x] by (simp add: clz32_def)

lemma clz32_above:
  assumes "p < clz32 x"
  shows "\<not> bit x (31 - p)"
proof (rule clz_from_above [of 32])
  have "clz_from 32 x \<le> 32" by (rule clz_from_le)
  with assms show "32 - clz_from 32 x \<le> 31 - p" by (simp add: clz32_def)
qed simp

lemma clz32_zero_iff: "clz32 x < 32 \<longleftrightarrow> x \<noteq> 0"
proof
  assume "clz32 x < 32"
  then have "bit x (31 - clz32 x)" by (rule clz32_bit)
  then show "x \<noteq> 0" by auto
next
  assume "x \<noteq> 0"
  then obtain n where n: "n < 32" "bit x n" by (auto simp: u32_eq_zero_iff)
  show "clz32 x < 32"
  proof (rule ccontr)
    assume "\<not> clz32 x < 32"
    then have "31 - n < clz32 x" by simp
    then have "\<not> bit x (31 - (31 - n))" by (rule clz32_above)
    with n show False by simp
  qed
qed

text \<open>The count is the least priority level whose bit is set.\<close>

lemma clz32_eqI:
  assumes "p < 32" and "bit x (31 - p)" and "\<And>q. q < p \<Longrightarrow> \<not> bit x (31 - q)"
  shows "clz32 x = p"
proof (rule antisym)
  show "clz32 x \<le> p" using assms(2) clz32_above [of p x] by (meson not_le)
  then have "clz32 x < 32" using assms(1) by simp
  then show "p \<le> clz32 x" using assms(3) clz32_bit [of x] by (meson not_le)
qed

subsection \<open>Circular doubly linked lists\<close>

text \<open>
  \<open>chain nx pv a xs b\<close>: following \<open>nx\<close> from \<open>a\<close> visits \<open>xs\<close> and then reaches
  \<open>b\<close>, and every \<open>pv\<close> pointer on the way is the inverse. A ring is a chain from an
  element back to itself.
\<close>

fun chain :: "('a \<Rightarrow> 'a) \<Rightarrow> ('a \<Rightarrow> 'a) \<Rightarrow> 'a \<Rightarrow> 'a list \<Rightarrow> 'a \<Rightarrow> bool" where
  "chain nx pv a [] b \<longleftrightarrow> nx a = b \<and> pv b = a"
| "chain nx pv a (x # xs) b \<longleftrightarrow> nx a = x \<and> pv x = a \<and> chain nx pv x xs b"

fun ring :: "('a \<Rightarrow> 'a) \<Rightarrow> ('a \<Rightarrow> 'a) \<Rightarrow> 'a list \<Rightarrow> bool" where
  "ring nx pv [] \<longleftrightarrow> True"
| "ring nx pv (x # xs) \<longleftrightarrow> chain nx pv x xs x"

lemma chain_append [simp]:
  "chain nx pv a (xs @ y # ys) b \<longleftrightarrow> chain nx pv a xs y \<and> chain nx pv y ys b"
  by (induction xs arbitrary: a) auto

lemma chain_cong:
  assumes "\<And>x. x \<in> insert a (set xs) \<Longrightarrow> nx' x = nx x"
    and "\<And>x. x \<in> insert b (set xs) \<Longrightarrow> pv' x = pv x"
  shows "chain nx' pv' a xs b \<longleftrightarrow> chain nx pv a xs b"
  using assms by (induction xs arbitrary: a) auto

lemma ring_cong:
  assumes "\<And>x. x \<in> set xs \<Longrightarrow> nx' x = nx x" and "\<And>x. x \<in> set xs \<Longrightarrow> pv' x = pv x"
  shows "ring nx' pv' xs \<longleftrightarrow> ring nx pv xs"
  using assms by (cases xs) (auto intro!: chain_cong)

lemma ring_rotate: "ring nx pv (xs @ ys) \<longleftrightarrow> ring nx pv (ys @ xs)"
  by (cases xs; cases ys) auto

lemma chain_last_prev: "chain nx pv a xs b \<Longrightarrow> pv b = last (a # xs)"
  by (induction xs arbitrary: a) auto

lemma ring_prev_hd: "ring nx pv (x # xs) \<Longrightarrow> pv x = last (x # xs)"
  by (auto dest: chain_last_prev)

lemma ring_next_hd: "ring nx pv (x # xs) \<Longrightarrow> nx x = hd (xs @ [x])"
  by (cases xs) auto

lemma ring_closed: "ring nx pv q \<Longrightarrow> x \<in> set q \<Longrightarrow> nx x \<in> set q \<and> pv x \<in> set q"
proof -
  assume r: "ring nx pv q" and x: "x \<in> set q"
  then obtain ys zs where q: "q = ys @ x # zs" by (meson split_list)
  with r have "ring nx pv (x # zs @ ys)" using ring_rotate [of nx pv ys "x # zs"] by simp
  then have "nx x = hd ((zs @ ys) @ [x])" and "pv x = last (x # zs @ ys)"
    by (rule ring_next_hd, rule ring_prev_hd)
  moreover have "hd ((zs @ ys) @ [x]) \<in> set ((zs @ ys) @ [x])" by (rule hd_in_set) simp
  moreover have "last (x # zs @ ys) \<in> set (x # zs @ ys)" by (rule last_in_set) simp
  ultimately show ?thesis using q by (auto simp del: last.simps)
qed

lemma ring_singleton_iff:
  assumes "ring nx pv q" and "distinct q" and "x \<in> set q"
  shows "nx x = x \<longleftrightarrow> q = [x]"
proof -
  obtain ys zs where q: "q = ys @ x # zs" using assms(3) by (meson split_list)
  with assms have r: "ring nx pv (x # zs @ ys)" and d: "x \<notin> set (zs @ ys)"
    using ring_rotate [of nx pv ys "x # zs"] by auto
  from ring_next_hd [OF r] d have "nx x = x \<longleftrightarrow> zs @ ys = []" by (cases "zs @ ys") auto
  moreover have "q = [x] \<longleftrightarrow> zs @ ys = []" using q d by (cases ys) auto
  ultimately show ?thesis by simp
qed

text \<open>Linking a new element before the head, as the tail of the circular list.\<close>

lemma ring_insert_tail:
  assumes r: "ring nx pv (h # xs)" and d: "distinct (h # xs)" and t: "t \<notin> set (h # xs)"
  shows "ring (nx(t := h, pv h := t)) (pv(t := pv h, h := t)) (h # xs @ [t])"
proof (cases xs rule: rev_cases)
  case Nil
  with r t show ?thesis by auto
next
  case (snoc ys z)
  let ?nx = "nx(t := h, z := t)" and ?pv = "pv(t := z, h := t)"
  from r snoc have c: "chain nx pv h ys z" and z: "nx z = h" "pv h = z" by auto
  have "chain ?nx ?pv h ys z \<longleftrightarrow> chain nx pv h ys z"
    by (rule chain_cong) (use d t snoc in auto)
  with c z d t snoc show ?thesis by auto
qed

text \<open>Unlinking the head of a ring with at least two elements.\<close>

lemma ring_unlink_hd:
  assumes r: "ring nx pv (t # y # ys)" and d: "distinct (t # y # ys)"
  shows "ring (nx(pv t := nx t)) (pv(nx t := pv t)) (y # ys)"
proof (cases ys rule: rev_cases)
  case Nil
  with r show ?thesis by auto
next
  case (snoc zs z)
  from r snoc have c: "chain nx pv y zs z" and z: "nx t = y" "pv t = z" by auto
  have "chain (nx(z := y)) (pv(y := z)) y zs z \<longleftrightarrow> chain nx pv y zs z"
    by (rule chain_cong) (use d snoc in auto)
  with c z snoc show ?thesis by auto
qed

lemma ring_unlink:
  assumes r: "ring nx pv (xs @ t # ys)" and d: "distinct (xs @ t # ys)" and ne: "xs @ ys \<noteq> []"
  shows "ring (nx(pv t := nx t)) (pv(nx t := pv t)) (xs @ ys)"
proof -
  have r': "ring nx pv (t # ys @ xs)" using r ring_rotate [of nx pv xs "t # ys"] by simp
  from ne obtain z zs where z: "ys @ xs = z # zs" by (cases "ys @ xs") auto
  from d have "distinct (t # ys @ xs)" by auto
  with r' z have "ring (nx(pv t := nx t)) (pv(nx t := pv t)) (ys @ xs)"
    using ring_unlink_hd [of nx pv t z zs] by simp
  then show ?thesis using ring_rotate by blast
qed

end
