(* ===== verification/Lib_Mem.thy ===== *)
theory Lib_Mem
  imports Prelude
begin

text \<open>
  The memory functions of the kernel library: \<^verbatim>\<open>kernel/lib/memset.c\<close>, \<^verbatim>\<open>kernel/lib/memcpy.c\<close> and \<^verbatim>\<open>kernel/lib/strcmp.c\<close> as
  they are compiled with gcc for the little-endian target. Memory is a function from addresses to bytes; the
  areas do not wrap around the end of the address space, so addresses and sizes are natural numbers.
\<close>

type_synonym memory = "nat \<Rightarrow> u8"

subsection \<open>Words in memory\<close>

definition load32 :: "memory \<Rightarrow> nat \<Rightarrow> u32" where
  "load32 m a = ucast (m a) OR push_bit 8 (ucast (m (a + 1))) OR push_bit 16 (ucast (m (a + 2))) OR push_bit 24 (ucast (m (a + 3)))"

definition store32 :: "nat \<Rightarrow> u32 \<Rightarrow> memory \<Rightarrow> memory" where
  "store32 a w m = m(a := ucast w, a + 1 := ucast (drop_bit 8 w), a + 2 := ucast (drop_bit 16 w), a + 3 := ucast (drop_bit 24 w))"

definition store64 :: "nat \<Rightarrow> u64 \<Rightarrow> memory \<Rightarrow> memory" where
  "store64 a w m = store32 (a + 4) (ucast (drop_bit 32 w)) (store32 a (ucast w) m)"

lemma load32_bytes:
  "ucast (load32 m a) = m a" "ucast (drop_bit 8 (load32 m a)) = m (a + 1)"
  "ucast (drop_bit 16 (load32 m a)) = m (a + 2)" "ucast (drop_bit 24 (load32 m a)) = m (a + 3)"
  by (rule bit_word_eqI; auto simp: load32_def bit_simps dest: bit_imp_le_length)+

text \<open>The shifted words of \<open>memcpy\<close>.\<close>

lemma bit_load32: "bit (load32 m a) i \<longleftrightarrow> i < 32 \<and> bit (m (a + i div 8)) (i mod 8)"
proof -
  have b: "bit (m k) j \<Longrightarrow> j < 8" for k j using bit_imp_le_length [of "m k" j] by simp
  have e: "bit (load32 m a) i \<longleftrightarrow> i < 32 \<and> (bit (m a) i \<or> 8 \<le> i \<and> bit (m (a + 1)) (i - 8) \<or>
      16 \<le> i \<and> bit (m (a + 2)) (i - 16) \<or> 24 \<le> i \<and> bit (m (a + 3)) (i - 24))"
    by (auto simp: load32_def bit_simps)
  consider "i < 8" | "8 \<le> i" "i < 16" | "16 \<le> i" "i < 24" | "24 \<le> i" "i < 32" | "32 \<le> i" by linarith
  then show ?thesis
  proof cases
    case 1 then show ?thesis unfolding e by auto
  next
    case 2
    then have "i div 8 = 1" "i mod 8 = i - 8" by (simp_all add: div_nat_eqI mod_nat_eqI)
    then show ?thesis using 2 b [of a i] unfolding e by auto
  next
    case 3
    then have "i div 8 = 2" "i mod 8 = i - 16" by (simp_all add: div_nat_eqI mod_nat_eqI)
    then show ?thesis using 3 b [of a i] b [of "a + 1" "i - 8"] unfolding e by auto
  next
    case 4
    then have "i div 8 = 3" "i mod 8 = i - 24" by (simp_all add: div_nat_eqI mod_nat_eqI)
    then show ?thesis using 4 b [of a i] b [of "a + 1" "i - 8"] b [of "a + 2" "i - 16"] unfolding e by auto
  qed (simp add: e)
qed

lemma load32_merge_bits:
  assumes "q < 4"
  shows "drop_bit (8 * (4 - q)) (load32 m a) OR push_bit (8 * q) (load32 m (a + 4)) = load32 m (a + (4 - q))"
proof (rule bit_word_eqI)
  fix i :: nat assume i: "i < LENGTH(32)"
  show "bit (drop_bit (8 * (4 - q)) (load32 m a) OR push_bit (8 * q) (load32 m (a + 4))) i = bit (load32 m (a + (4 - q))) i"
  proof (cases "i < 8 * q")
    case True
    have "(8 * (4 - q) + i) div 8 = 4 - q + i div 8" "(8 * (4 - q) + i) mod 8 = i mod 8" by simp_all
    moreover have "8 * (4 - q) + i < 32" using True assms by linarith
    ultimately show ?thesis using True i by (simp add: bit_simps bit_load32 add.assoc)
  next
    case False
    then obtain k where k: "i = 8 * q + k" using le_Suc_ex by (metis not_less)
    then have "4 + (i - 8 * q) div 8 = 4 - q + i div 8" "(i - 8 * q) mod 8 = i mod 8" using assms by simp_all
    moreover have "\<not> 8 * (4 - q) + i < 32" "i - 8 * q < 32" using False assms i by auto
    ultimately show ?thesis using False i by (simp add: bit_simps bit_load32 add.assoc)
  qed
qed

subsection \<open>memset\<close>

text \<open>The loop at the end of \<open>memset\<close>, 32 bytes at a time.\<close>

function fill_loop :: "u64 \<Rightarrow> nat \<Rightarrow> nat \<Rightarrow> memory \<Rightarrow> memory" where
  "fill_loop c64 n s m =
     (if n \<ge> 32
      then fill_loop c64 (n - 32) (s + 32) (store64 (s + 24) c64 (store64 (s + 16) c64 (store64 (s + 8) c64 (store64 s c64 m))))
      else m)"
  by auto
termination by (relation "measure (\<lambda>(c64, n, s, m). n)") auto

declare fill_loop.simps [simp del]

definition memset_words :: "u8 \<Rightarrow> nat \<Rightarrow> nat \<Rightarrow> memory \<Rightarrow> memory" where
  "memset_words c s n m =
     (let c32 = (-1 div 255) * ucast c :: u32;
          m = store32 s c32 m;
          m = store32 (s + n - 4) c32 m
      in if n \<le> 8 then m
      else
        let m = store32 (s + 4) c32 m; m = store32 (s + 8) c32 m;
            m = store32 (s + n - 12) c32 m; m = store32 (s + n - 8) c32 m
        in if n \<le> 24 then m
        else
          let m = store32 (s + 12) c32 m; m = store32 (s + 16) c32 m; m = store32 (s + 20) c32 m; m = store32 (s + 24) c32 m;
              m = store32 (s + n - 28) c32 m; m = store32 (s + n - 24) c32 m;
              m = store32 (s + n - 20) c32 m; m = store32 (s + n - 16) c32 m;
              k = 24 + (if bit s 2 then 4 else 0)
          in fill_loop (ucast c32 OR push_bit 32 (ucast c32)) (n - k) (s + k) m)"

definition memset :: "nat \<Rightarrow> u8 \<Rightarrow> nat \<Rightarrow> memory \<Rightarrow> memory" where
  "memset dest c n m =
     (if n = 0 then m
      else
        let s = dest; m = m(s + n - 1 := c, s := c)
        in if n \<le> 2 then m
        else
          let m = m(s + n - 2 := c, s + 1 := c); m = m(s + n - 3 := c, s + 2 := c)
          in if n \<le> 6 then m
          else
            let m = m(s + n - 4 := c, s + 3 := c)
            in if n \<le> 8 then m
            else
              let k = (4 - s mod 4) mod 4
              in memset_words c (s + k) ((n - k) div 4 * 4) m)"

text \<open>The reference: the addresses of a set filled with one value.\<close>

definition filled :: "u8 \<Rightarrow> nat set \<Rightarrow> memory \<Rightarrow> memory" where
  "filled c S m = (\<lambda>x. if x \<in> S then c else m x)"

lemma unat_byte: "unat (ucast (drop_bit k (w :: 'a :: len word)) :: u8) = unat w div 2 ^ k mod 256"
  unfolding unsigned_ucast_eq take_bit_eq_mod unat_drop_bit_eq by (simp add: drop_bit_eq_div)

lemma c32_bytes:
  defines "c32 \<equiv> \<lambda>c :: u8. (-1 div 255) * ucast c :: u32"
  shows "ucast (c32 c) = c" "ucast (drop_bit 8 (c32 c)) = c" "ucast (drop_bit 16 (c32 c)) = c" "ucast (drop_bit 24 (c32 c)) = c"
proof -
  have c: "unat c < 256" using unsigned_less [of c] by simp
  have "unat (ucast c :: u32) = unat c" by (simp add: unsigned_ucast_eq take_bit_nat_eq_self c less_trans [OF c])
  then have u: "unat (c32 c) = 16843009 * unat c" using c unfolding c32_def by (simp add: unat_word_ariths)
  have "unat (ucast (drop_bit k (c32 c)) :: u8) = unat c" if "k \<in> {0, 8, 16, 24}" for k
  proof -
    let ?x = "unat c"
    have e: "16843009 * ?x = ?x + 256 * (?x + 256 * (?x + 256 * ?x))" by simp
    have d: "(?x + 256 * y) div 256 = y" "(?x + 256 * y) mod 256 = ?x" for y using c by simp_all
    have p: "n div 65536 = n div 256 div 256" "n div 16777216 = n div 256 div 256 div 256" for n :: nat by (simp_all add: div_mult2_eq [symmetric])
    have "16843009 * ?x mod 256 = ?x" "16843009 * ?x div 256 mod 256 = ?x" "16843009 * ?x div 65536 mod 256 = ?x"
        "16843009 * ?x div 16777216 mod 256 = ?x"
      unfolding e p d using c by simp_all
    then show ?thesis unfolding unat_byte u using that by auto
  qed
  then have "ucast (drop_bit k (c32 c)) = c" if "k \<in> {0, 8, 16, 24}" for k using that word_unat_eq_iff by blast
  from this [of 0] this [of 8] this [of 16] this [of 24]
  show "ucast (c32 c) = c" "ucast (drop_bit 8 (c32 c)) = c" "ucast (drop_bit 16 (c32 c)) = c" "ucast (drop_bit 24 (c32 c)) = c" by simp_all
qed

lemma filled_filled [simp]: "filled c S (filled c T m) = filled c (T \<union> S) m"
  by (auto simp: filled_def fun_eq_iff)

lemma filled_byte: "m(a := c) = filled c {a..<a + 1} m"
  by (auto simp: filled_def fun_eq_iff)

lemma filled_word: "store32 a ((-1 div 255) * ucast c) m = filled c {a..<a + 4} m"
proof -
  have "{a..<a + 4} = {a, a + 1, a + 2, a + 3}" by auto
  then show ?thesis unfolding store32_def c32_bytes by (auto simp: filled_def fun_eq_iff)
qed

lemma c64_halves:
  fixes w :: u32
  shows "ucast (ucast w OR push_bit 32 (ucast w) :: u64) = w" "ucast (drop_bit 32 (ucast w OR push_bit 32 (ucast w) :: u64)) = w"
  by (rule bit_word_eqI; auto simp: bit_simps dest: bit_imp_le_length)+

lemma filled_double:
  "store64 a (ucast ((-1 div 255) * ucast c :: u32) OR push_bit 32 (ucast ((-1 div 255) * ucast c :: u32))) m = filled c {a..<a + 8} m"
proof -
  have "{a..<a + 8} = {a..<a + 4} \<union> {a + 4..<a + 4 + 4}" by auto
  then show ?thesis unfolding store64_def c64_halves filled_word filled_filled by simp
qed

lemma fill_loop_filled:
  "fill_loop (ucast ((-1 div 255) * ucast c :: u32) OR push_bit 32 (ucast ((-1 div 255) * ucast c :: u32))) n s m =
   filled c {s..<s + n div 32 * 32} m"
proof (induction n arbitrary: s m rule: less_induct)
  case (less n)
  show ?case
  proof (cases "32 \<le> n")
    case True
    have "n div 32 * 32 = 32 + (n - 32) div 32 * 32" using True by (simp add: le_div_geq)
    then have "{s..<s + n div 32 * 32} = {s..<s + 8} \<union> {s + 8..<s + 8 + 8} \<union> {s + 16..<s + 16 + 8} \<union> {s + 24..<s + 24 + 8} \<union>
        {s + 32..<s + 32 + (n - 32) div 32 * 32}" by auto
    then show ?thesis using True less.IH [of "n - 32"]
      unfolding fill_loop.simps [of _ n] filled_double by (simp add: Un_assoc)
  qed (simp add: fill_loop.simps filled_def)
qed

lemma union_order:
  "a1 \<union> b7 \<union> a2 \<union> a3 \<union> b5 \<union> b6 \<union> a4 \<union> a5 \<union> a6 \<union> a7 \<union> b1 \<union> b2 \<union> b3 \<union> b4 \<union> l =
   (a1 \<union> a2 \<union> a3 \<union> a4 \<union> a5 \<union> a6 \<union> a7) \<union> (b1 \<union> b2 \<union> b3 \<union> b4 \<union> b5 \<union> b6 \<union> b7) \<union> l"
  by blast

lemma memset_words_filled:
  assumes "4 \<le> n" "4 dvd n"
  shows "memset_words c s n m = filled c {s..<s + n} m"
proof -
  obtain r where r: "n = 4 * r" using assms(2) by auto
  consider "n \<le> 8" | "8 < n" "n \<le> 24" | "24 < n" by linarith
  then show ?thesis
  proof cases
    case 1
    have "memset_words c s n m = filled c ({s..<s + 4} \<union> {s + n - 4..<s + n - 4 + 4}) m"
      using 1 unfolding memset_words_def Let_def filled_word filled_filled by simp
    also have "{s..<s + 4} \<union> {s + n - 4..<s + n - 4 + 4} = {s..<s + n}" using assms(1) 1 by auto
    finally show ?thesis .
  next
    case 2
    then have n: "12 \<le> n" using r by presburger
    have "memset_words c s n m = filled c ({s..<s + 4} \<union> {s + n - 4..<s + n - 4 + 4} \<union> {s + 4..<s + 4 + 4} \<union> {s + 8..<s + 8 + 4} \<union>
        {s + n - 12..<s + n - 12 + 4} \<union> {s + n - 8..<s + n - 8 + 4}) m"
      using 2 unfolding memset_words_def Let_def filled_word filled_filled by simp
    also have "{s..<s + 4} \<union> {s + n - 4..<s + n - 4 + 4} \<union> {s + 4..<s + 4 + 4} \<union> {s + 8..<s + 8 + 4} \<union>
        {s + n - 12..<s + n - 12 + 4} \<union> {s + n - 8..<s + n - 8 + 4} = {s..<s + n}" using n 2 by auto
    finally show ?thesis .
  next
    case 3
    then have n: "28 \<le> n" using r by presburger
    define k where "k = (24 + (if bit s 2 then 4 else 0) :: nat)"
    have k: "24 \<le> k" "k \<le> 28" "4 dvd k" by (auto simp: k_def)
    let ?H = "{s..<s + 28}" and ?T = "{s + n - 28..<s + n}" and ?L = "{s + k..<s + k + (n - k) div 32 * 32}"
    have H: "?H = {s..<s + 4} \<union> {s + 4..<s + 4 + 4} \<union> {s + 8..<s + 8 + 4} \<union> {s + 12..<s + 12 + 4} \<union> {s + 16..<s + 16 + 4} \<union>
        {s + 20..<s + 20 + 4} \<union> {s + 24..<s + 24 + 4}" by auto
    obtain t where t: "s + n = t + 28" "28 \<le> n" using n by (metis add.commute le_add2 le_Suc_ex le_trans)
    have T: "?T = {s + n - 28..<s + n - 28 + 4} \<union> {s + n - 24..<s + n - 24 + 4} \<union> {s + n - 20..<s + n - 20 + 4} \<union>
        {s + n - 16..<s + n - 16 + 4} \<union> {s + n - 12..<s + n - 12 + 4} \<union> {s + n - 8..<s + n - 8 + 4} \<union> {s + n - 4..<s + n - 4 + 4}"
      unfolding t(1) by auto
    have "memset_words c s n m = filled c ({s..<s + 4} \<union> {s + n - 4..<s + n - 4 + 4} \<union> {s + 4..<s + 4 + 4} \<union> {s + 8..<s + 8 + 4} \<union>
        {s + n - 12..<s + n - 12 + 4} \<union> {s + n - 8..<s + n - 8 + 4} \<union> {s + 12..<s + 12 + 4} \<union> {s + 16..<s + 16 + 4} \<union>
        {s + 20..<s + 20 + 4} \<union> {s + 24..<s + 24 + 4} \<union> {s + n - 28..<s + n - 28 + 4} \<union> {s + n - 24..<s + n - 24 + 4} \<union>
        {s + n - 20..<s + n - 20 + 4} \<union> {s + n - 16..<s + n - 16 + 4} \<union> ?L) m"
      using 3 unfolding memset_words_def Let_def filled_word fill_loop_filled filled_filled k_def by simp
    also have "({s..<s + 4} \<union> {s + n - 4..<s + n - 4 + 4} \<union> {s + 4..<s + 4 + 4} \<union> {s + 8..<s + 8 + 4} \<union>
        {s + n - 12..<s + n - 12 + 4} \<union> {s + n - 8..<s + n - 8 + 4} \<union> {s + 12..<s + 12 + 4} \<union> {s + 16..<s + 16 + 4} \<union>
        {s + 20..<s + 20 + 4} \<union> {s + 24..<s + 24 + 4} \<union> {s + n - 28..<s + n - 28 + 4} \<union> {s + n - 24..<s + n - 24 + 4} \<union>
        {s + n - 20..<s + n - 20 + 4} \<union> {s + n - 16..<s + n - 16 + 4} \<union> ?L) = ?H \<union> ?T \<union> ?L"
      unfolding H T by (rule union_order)
    also have "?H \<union> ?T \<union> ?L = {s..<s + n}"
    proof -
      have "(n - k) mod 32 \<le> 28"
      proof -
        have "4 dvd n - k" using assms(2) k(3) by (simp add: dvd_diff_nat)
        then obtain z where "n - k = 4 * z" by auto
        then have "(n - k) mod 32 = 4 * (z mod 8)" using mod_mult_mult1 [of 4 z 8] by simp
        moreover have "z mod 8 < 8" by simp
        ultimately show ?thesis by linarith
      qed
      moreover have "(n - k) div 32 * 32 + (n - k) mod 32 = n - k" by simp
      ultimately have "(n - k) div 32 * 32 \<le> n - k" "n - k \<le> (n - k) div 32 * 32 + 28" by linarith+
      then show ?thesis using n k by auto
    qed
    finally show ?thesis .
  qed
qed

text \<open>The optimised routine does what a byte loop does, for every alignment and every length.\<close>

theorem memset_fills_area:
  "memset dest c n m = (\<lambda>x. if dest \<le> x \<and> x < dest + n then c else m x)"
proof -
  have f: "(\<lambda>x. if dest \<le> x \<and> x < dest + n then c else m x) = filled c {dest..<dest + n} m" by (simp add: filled_def)
  let ?A = "{dest + n - 1..<dest + n - 1 + 1} \<union> {dest..<dest + 1}"
  let ?B = "?A \<union> {dest + n - 2..<dest + n - 2 + 1} \<union> {dest + 1..<dest + 1 + 1} \<union> {dest + n - 3..<dest + n - 3 + 1} \<union> {dest + 2..<dest + 2 + 1}"
  let ?C = "?B \<union> {dest + n - 4..<dest + n - 4 + 1} \<union> {dest + 3..<dest + 3 + 1}"
  consider "n = 0" | "0 < n" "n \<le> 2" | "2 < n" "n \<le> 6" | "6 < n" "n \<le> 8" | "8 < n" by linarith
  then show ?thesis unfolding f
  proof cases
    case 1
    then show "memset dest c n m = filled c {dest..<dest + n} m" by (simp add: memset_def filled_def)
  next
    case 2
    then have "memset dest c n m = filled c ?A m" unfolding memset_def Let_def filled_byte filled_filled by simp
    also have "?A = {dest..<dest + n}" using 2 by auto
    finally show "memset dest c n m = filled c {dest..<dest + n} m" .
  next
    case 3
    then have "memset dest c n m = filled c ?B m" unfolding memset_def Let_def filled_byte filled_filled by simp
    also have "?B = {dest..<dest + n}" using 3 by auto
    finally show "memset dest c n m = filled c {dest..<dest + n} m" .
  next
    case 4
    then have "memset dest c n m = filled c ?C m" unfolding memset_def Let_def filled_byte filled_filled by simp
    also have "?C = {dest..<dest + n}" using 4 by auto
    finally show "memset dest c n m = filled c {dest..<dest + n} m" .
  next
    case 5
    define k where "k = (4 - dest mod 4) mod 4"
    have k: "k < 4" by (simp add: k_def)
    let ?n = "(n - k) div 4 * 4"
    have b: "4 \<le> ?n" "4 dvd ?n" "k + ?n \<le> n" "n < k + ?n + 4" using 5 k by presburger+
    have "memset dest c n m = memset_words c (dest + k) ?n (filled c ?C m)"
      using 5 unfolding memset_def Let_def filled_byte filled_filled k_def [symmetric] by simp
    also have "\<dots> = filled c (?C \<union> {dest + k..<dest + k + ?n}) m" by (simp add: memset_words_filled [OF b(1,2)])
    also have "?C \<union> {dest + k..<dest + k + ?n} = {dest..<dest + n}" using 5 k b(3,4) by auto
    finally show "memset dest c n m = filled c {dest..<dest + n} m" .
  qed
qed

subsection \<open>memcpy\<close>

text \<open>The running copy: destination, source and memory. \<open>byte_step\<close> is \<^verbatim>\<open>*d++ = *s++\<close>; \<open>word_step\<close> copies a word at an
  offset without moving.\<close>

type_synonym copying = "nat \<times> nat \<times> memory"

fun byte_step :: "copying \<Rightarrow> copying" where "byte_step (d, s, m) = (d + 1, s + 1, m(d := m s))"
fun word_step :: "nat \<Rightarrow> copying \<Rightarrow> copying" where "word_step i (d, s, m) = (d, s, store32 (d + i) (load32 m (s + i)) m)"
fun advance :: "nat \<Rightarrow> copying \<Rightarrow> copying" where "advance k (d, s, m) = (d + k, s + k, m)"

primrec copy_head :: "nat \<Rightarrow> copying \<Rightarrow> nat \<times> copying" where
  "copy_head 0 st = (0, st)"
| "copy_head (Suc n) st = (if fst (snd st) mod 4 \<noteq> 0 then copy_head n (byte_step st) else (Suc n, st))"

function copy_blocks :: "nat \<Rightarrow> copying \<Rightarrow> nat \<times> copying" where
  "copy_blocks n st =
     (if n \<ge> 16 then copy_blocks (n - 16) (advance 16 (word_step 12 (word_step 8 (word_step 4 (word_step 0 st))))) else (n, st))"
  by auto
termination by (relation "measure (\<lambda>(n, st). n)") auto

declare copy_blocks.simps [simp del]

text \<open>The word-wise copy to a destination that is off by \<open>q\<close>: every word is put together from two aligned ones. The three
  branches of the source differ only in the constants that depend on \<open>q\<close>.\<close>

definition merge :: "nat \<Rightarrow> u32 \<Rightarrow> u32 \<Rightarrow> u32" where
  "merge q w x = drop_bit (8 * (4 - q)) w OR push_bit (8 * q) x"

function copy_shifted :: "nat \<Rightarrow> u32 \<Rightarrow> nat \<Rightarrow> copying \<Rightarrow> nat \<times> copying" where
  "copy_shifted q w n (d, s, m) =
     (if n \<ge> 16 + q then
        let x = load32 m (s + q); m = store32 d (merge q w x) m;
            w = load32 m (s + q + 4); m = store32 (d + 4) (merge q x w) m;
            x = load32 m (s + q + 8); m = store32 (d + 8) (merge q w x) m;
            w = load32 m (s + q + 12); m = store32 (d + 12) (merge q x w) m
        in copy_shifted q w (n - 16) (d + 16, s + 16, m)
      else (n, d, s, m))"
  by (pat_completeness, auto)
termination by (relation "measure (\<lambda>(q, w, n, st). n)") auto

declare copy_shifted.simps [simp del]

definition memcpy :: "nat \<Rightarrow> nat \<Rightarrow> nat \<Rightarrow> memory \<Rightarrow> memory" where
  "memcpy dest src n m =
     (case copy_head n (dest, src, m) of (n, st) \<Rightarrow>
      if fst st mod 4 = 0 then
        case copy_blocks n st of (n, st) \<Rightarrow>
        let st = (if bit n 3 then advance 8 (word_step 4 (word_step 0 st)) else st);
            st = (if bit n 2 then advance 4 (word_step 0 st) else st);
            st = (if bit n 1 then (byte_step ^^ 2) st else st);
            st = (if bit n 0 then byte_step st else st)
        in snd (snd st)
      else
        case (if n \<ge> 32
              then let q = fst st mod 4; w = load32 (snd (snd st)) (fst (snd st)); st = (byte_step ^^ (4 - q)) st
                   in copy_shifted q w (n - (4 - q)) st
              else (n, st)) of (n, st) \<Rightarrow>
        let st = (if bit n 4 then (byte_step ^^ 16) st else st);
            st = (if bit n 3 then (byte_step ^^ 8) st else st);
            st = (if bit n 2 then (byte_step ^^ 4) st else st);
            st = (if bit n 1 then (byte_step ^^ 2) st else st);
            st = (if bit n 0 then byte_step st else st)
        in snd (snd st))"

text \<open>The state after \<open>k\<close> bytes of a copy of \<open>n\<close> bytes between areas that do not overlap.\<close>

definition copied :: "nat \<Rightarrow> nat \<Rightarrow> memory \<Rightarrow> nat \<Rightarrow> copying" where
  "copied d s m k = (d + k, s + k, \<lambda>a. if d \<le> a \<and> a < d + k then m (s + (a - d)) else m a)"

definition apart_areas :: "nat \<Rightarrow> nat \<Rightarrow> nat \<Rightarrow> bool" where
  "apart_areas d s n \<longleftrightarrow> d + n \<le> s \<or> s + n \<le> d"

lemma copied_0: "copied d s m 0 = (d, s, m)"
  by (auto simp: copied_def fun_eq_iff)

lemma byte_step_copied: "apart_areas d s n \<Longrightarrow> k < n \<Longrightarrow> byte_step (copied d s m k) = copied d s m (Suc k)"
  by (auto simp: copied_def apart_areas_def fun_eq_iff)

lemma byte_steps_copied: "apart_areas d s n \<Longrightarrow> k + j \<le> n \<Longrightarrow> (byte_step ^^ j) (copied d s m k) = copied d s m (k + j)"
  by (induction j) (simp_all add: byte_step_copied)

lemma load32_copied:
  assumes "apart_areas d s n" "k \<le> n" "i + 4 \<le> n"
  shows "load32 (snd (snd (copied d s m k))) (s + i) = load32 m (s + i)"
  using assms by (auto simp: copied_def apart_areas_def load32_def)

lemma store32_copied:
  assumes "apart_areas d s n" "k + 4 \<le> n"
  shows "store32 (d + k) (load32 m (s + k)) (snd (snd (copied d s m k))) = snd (snd (copied d s m (k + 4)))"
proof
  fix a
  consider "a = d + k" | "a = d + k + 1" | "a = d + k + 2" | "a = d + k + 3" | "a < d + k \<or> d + k + 4 \<le> a" by linarith
  then show "store32 (d + k) (load32 m (s + k)) (snd (snd (copied d s m k))) a = snd (snd (copied d s m (k + 4))) a"
    by cases (auto simp: store32_def copied_def load32_bytes add.assoc)
qed

lemma word_step_copied:
  assumes "apart_areas d s n" "k + i + 4 \<le> n"
  shows "word_step i (d + k, s + k, snd (snd (copied d s m (k + i)))) = (d + k, s + k, snd (snd (copied d s m (k + (i + 4)))))"
  using store32_copied [OF assms(1), of "k + i" m] load32_copied [OF assms(1), of "k + i" "k + i" m] assms(2) by (simp add: add.assoc)

lemma copied_eta: "copied d s m k = (d + k, s + k, snd (snd (copied d s m k)))"
  by (simp add: copied_def)

lemma words_copied:
  assumes "apart_areas d s n"
  shows "k + 4 \<le> n \<Longrightarrow> advance 4 (word_step 0 (copied d s m k)) = copied d s m (k + 4)"
    "k + 8 \<le> n \<Longrightarrow> advance 8 (word_step 4 (word_step 0 (copied d s m k))) = copied d s m (k + 8)"
    "k + 16 \<le> n \<Longrightarrow> advance 16 (word_step 12 (word_step 8 (word_step 4 (word_step 0 (copied d s m k))))) = copied d s m (k + 16)"
proof -
  note w = word_step_copied [OF assms, of k _ m]
  show "k + 4 \<le> n \<Longrightarrow> advance 4 (word_step 0 (copied d s m k)) = copied d s m (k + 4)"
    using w [of 0]
    by (subst copied_eta [of d s m k], subst copied_eta [of d s m "k + 4"]) (simp add: add.assoc)
  show "k + 8 \<le> n \<Longrightarrow> advance 8 (word_step 4 (word_step 0 (copied d s m k))) = copied d s m (k + 8)"
    using w [of 0] w [of 4]
    by (subst copied_eta [of d s m k], subst copied_eta [of d s m "k + 8"]) (simp add: add.assoc)
  show "k + 16 \<le> n \<Longrightarrow> advance 16 (word_step 12 (word_step 8 (word_step 4 (word_step 0 (copied d s m k))))) = copied d s m (k + 16)"
    using w [of 0] w [of 4] w [of 8] w [of 12]
    by (subst copied_eta [of d s m k], subst copied_eta [of d s m "k + 16"]) (simp add: add.assoc)
qed

text \<open>A loop that has brought the copy from \<open>k\<close> bytes to some later point, with the rest still to do.\<close>

definition so_far :: "nat \<Rightarrow> nat \<Rightarrow> memory \<Rightarrow> nat \<Rightarrow> nat \<times> copying \<Rightarrow> bool" where
  "so_far d s m n r \<longleftrightarrow> fst r \<le> n \<and> snd r = copied d s m (n - fst r)"

lemma copy_head_so_far: "apart_areas d s n \<Longrightarrow> j \<le> n \<Longrightarrow> so_far d s m n (copy_head j (copied d s m (n - j)))"
proof (induction j)
  case (Suc j)
  then have "byte_step (copied d s m (n - Suc j)) = copied d s m (n - j)" by (simp add: byte_step_copied Suc_diff_Suc)
  then show ?case using Suc by (auto simp: so_far_def)
qed (simp add: so_far_def)

lemma copy_blocks_so_far:
  "apart_areas d s n \<Longrightarrow> j \<le> n \<Longrightarrow> so_far d s m n (copy_blocks j (copied d s m (n - j))) \<and> fst (copy_blocks j (copied d s m (n - j))) < 16"
proof (induction j rule: less_induct)
  case (less j)
  show ?case
  proof (cases "16 \<le> j")
    case True
    have "n - j + 16 = n - (j - 16)" using True less.prems(2) by simp
    then have "copy_blocks j (copied d s m (n - j)) = copy_blocks (j - 16) (copied d s m (n - (j - 16)))"
      using True words_copied(3) [OF less.prems(1), of "n - j" m] less.prems(2) by (simp add: copy_blocks.simps [of j])
    then show ?thesis using less.IH [of "j - 16"] True less.prems by simp
  qed (use less.prems in \<open>simp add: copy_blocks.simps so_far_def\<close>)
qed

lemma merge_words:
  assumes "q < 4" "4 - q \<le> k"
  shows "merge q (load32 m (s + k - (4 - q))) (load32 m (s + k + q)) = load32 m (s + k)"
proof -
  have "s + k - (4 - q) + 4 = s + k + q" "s + k - (4 - q) + (4 - q) = s + k" using assms by auto
  then show ?thesis using load32_merge_bits [OF assms(1), of m "s + k - (4 - q)"] by (simp add: merge_def)
qed

lemma shifted_word:
  assumes ap: "apart_areas d s n" and q: "q < 4" and k: "4 - q \<le> k" "k + q + 4 \<le> n" and w: "w = load32 m (s + k - (4 - q))"
  defines "mem \<equiv> \<lambda>k. snd (snd (copied d s m k))"
  shows "load32 (mem k) (s + k + q) = load32 m (s + k + q)"
    "store32 (d + k) (merge q w (load32 m (s + k + q))) (mem k) = mem (k + 4)"
proof -
  show "load32 (mem k) (s + k + q) = load32 m (s + k + q)"
    using load32_copied [OF ap, of k "k + q" m] k by (simp add: mem_def add.assoc)
  show "store32 (d + k) (merge q w (load32 m (s + k + q))) (mem k) = mem (k + 4)"
    using store32_copied [OF ap, of k m] k by (simp add: w merge_words [OF q k(1)] mem_def)
qed

lemma copy_shifted_block:
  assumes ap: "apart_areas d s n" and q: "q < 4" and k: "4 - q \<le> k" "k + q + 16 \<le> n" and w: "w = load32 m (s + k - (4 - q))"
    and j: "16 + q \<le> j"
  shows "copy_shifted q w j (copied d s m k) = copy_shifted q (load32 m (s + (k + 16) - (4 - q))) (j - 16) (copied d s m (k + 16))"
proof -
  define mem where "mem = (\<lambda>k. snd (snd (copied d s m k)))"
  have e: "s + (k + 4) - (4 - q) = s + k + q" "s + (k + 8) - (4 - q) = s + k + q + 4" "s + (k + 12) - (4 - q) = s + k + q + 8"
      "s + (k + 16) - (4 - q) = s + k + q + 12" using q by auto
  have 1: "load32 (mem k) (s + k + q) = load32 m (s + k + q)" "store32 (d + k) (merge q w (load32 m (s + k + q))) (mem k) = mem (k + 4)"
    using shifted_word [OF ap q k(1) _ w] k(2) by (simp_all add: mem_def)
  have 2: "load32 (mem (k + 4)) (s + k + q + 4) = load32 m (s + k + q + 4)"
      "store32 (d + k + 4) (merge q (load32 m (s + k + q)) (load32 m (s + k + q + 4))) (mem (k + 4)) = mem (k + 8)"
    using shifted_word [OF ap q, of "k + 4" _ m] k e(1) by (simp_all add: mem_def ac_simps)
  have 3: "load32 (mem (k + 8)) (s + k + q + 8) = load32 m (s + k + q + 8)"
      "store32 (d + k + 8) (merge q (load32 m (s + k + q + 4)) (load32 m (s + k + q + 8))) (mem (k + 8)) = mem (k + 12)"
    using shifted_word [OF ap q, of "k + 8" _ m] k e(2) by (simp_all add: mem_def ac_simps)
  have 4: "load32 (mem (k + 12)) (s + k + q + 12) = load32 m (s + k + q + 12)"
      "store32 (d + k + 12) (merge q (load32 m (s + k + q + 8)) (load32 m (s + k + q + 12))) (mem (k + 12)) = mem (k + 16)"
    using shifted_word [OF ap q, of "k + 12" _ m] k e(3) by (simp_all add: mem_def ac_simps)
  have c: "copied d s m k = (d + k, s + k, mem k)" "copied d s m (k + 16) = (d + k + 16, s + k + 16, mem (k + 16))"
    by (simp_all add: mem_def copied_def)
  show ?thesis unfolding c copy_shifted.simps [of q w j] e(4) using j by (simp add: Let_def 1 2 3 4)
qed

lemma copy_shifted_so_far:
  assumes ap: "apart_areas d s n" and q: "q < 4"
  shows "j \<le> n \<Longrightarrow> 4 - q \<le> n - j \<Longrightarrow> w = load32 m (s + (n - j) - (4 - q)) \<Longrightarrow>
    so_far d s m n (copy_shifted q w j (copied d s m (n - j))) \<and> fst (copy_shifted q w j (copied d s m (n - j))) < 32"
proof (induction j arbitrary: w rule: less_induct)
  case (less j)
  show ?case
  proof (cases "16 + q \<le> j")
    case True
    have e: "n - j + 16 = n - (j - 16)" using True less.prems(1) by simp
    have "copy_shifted q w j (copied d s m (n - j)) =
        copy_shifted q (load32 m (s + (n - (j - 16)) - (4 - q))) (j - 16) (copied d s m (n - (j - 16)))"
      using copy_shifted_block [OF ap q less.prems(2) _ less.prems(3) True, unfolded e] True less.prems(1) by simp
    then show ?thesis using less.IH [of "j - 16"] True less.prems(1,2) by simp
  next
    case False
    then have "copy_shifted q w j (copied d s m (n - j)) = (j, copied d s m (n - j))"
      by (subst (1 2) copied_eta) (simp add: copy_shifted.simps)
    then show ?thesis using False less.prems(1) q by (simp add: so_far_def)
  qed
qed

text \<open>The rest of at most 31 bytes is copied along the bits of its length.\<close>

lemma rest_bit:
  assumes "j \<le> n" "i' = Suc i" "p = 2 ^ i"
    and "n - take_bit i' j + p \<le> n \<Longrightarrow> f (copied d s m (n - take_bit i' j)) = copied d s m (n - take_bit i' j + p)"
  shows "(if bit j i then f (copied d s m (n - take_bit i' j)) else copied d s m (n - take_bit i' j)) = copied d s m (n - take_bit i j)"
proof -
  have "take_bit (Suc i) j = 2 ^ i * of_bool (bit j i) + take_bit i j" by (rule take_bit_Suc_from_most)
  moreover have "take_bit (Suc i) j \<le> n" using assms(1) take_bit_nat_less_eq_self order_trans by blast
  ultimately show ?thesis using assms(2-4) by auto
qed

lemma bytes_tail:
  assumes ap: "apart_areas d s n" and j: "j \<le> n" "j < 32"
  shows "(let st = copied d s m (n - j);
      st = (if bit j 4 then (byte_step ^^ 16) st else st); st = (if bit j 3 then (byte_step ^^ 8) st else st);
      st = (if bit j 2 then (byte_step ^^ 4) st else st); st = (if bit j 1 then (byte_step ^^ 2) st else st);
      st = (if bit j 0 then byte_step st else st) in st) = copied d s m n"
proof -
  have t: "copied d s m (n - j) = copied d s m (n - take_bit 5 j)" using j(2) by (simp add: take_bit_nat_eq_self)
  note b = byte_steps_copied [OF ap] and b1 = byte_step_copied [OF ap]
  have 4: "(if bit j 4 then (byte_step ^^ 16) (copied d s m (n - take_bit 5 j)) else copied d s m (n - take_bit 5 j)) = copied d s m (n - take_bit 4 j)"
    by (rule rest_bit [OF j(1)], simp, simp) (rule b)
  have 3: "(if bit j 3 then (byte_step ^^ 8) (copied d s m (n - take_bit 4 j)) else copied d s m (n - take_bit 4 j)) = copied d s m (n - take_bit 3 j)"
    by (rule rest_bit [OF j(1)], simp, simp) (rule b)
  have 2: "(if bit j 2 then (byte_step ^^ 4) (copied d s m (n - take_bit 3 j)) else copied d s m (n - take_bit 3 j)) = copied d s m (n - take_bit 2 j)"
    by (rule rest_bit [OF j(1)], simp, simp) (rule b)
  have 1: "(if bit j 1 then (byte_step ^^ 2) (copied d s m (n - take_bit 2 j)) else copied d s m (n - take_bit 2 j)) = copied d s m (n - take_bit 1 j)"
    by (rule rest_bit [OF j(1)], simp, simp) (rule b)
  have "(if bit j 0 then byte_step (copied d s m (n - take_bit 1 j)) else copied d s m (n - take_bit 1 j)) = copied d s m (n - take_bit 0 j)"
    by (rule rest_bit [OF j(1), where p = 1], simp, simp) (simp add: b1)
  then have 0: "(if bit j 0 then byte_step (copied d s m (n - take_bit 1 j)) else copied d s m (n - take_bit 1 j)) = copied d s m n" by simp
  show ?thesis unfolding Let_def t 4 3 2 1 0 ..
qed

lemma words_tail:
  assumes ap: "apart_areas d s n" and j: "j \<le> n" "j < 16"
  shows "(let st = copied d s m (n - j);
      st = (if bit j 3 then advance 8 (word_step 4 (word_step 0 st)) else st); st = (if bit j 2 then advance 4 (word_step 0 st) else st);
      st = (if bit j 1 then (byte_step ^^ 2) st else st); st = (if bit j 0 then byte_step st else st) in st) = copied d s m n"
proof -
  have t: "copied d s m (n - j) = copied d s m (n - take_bit 4 j)" using j(2) by (simp add: take_bit_nat_eq_self)
  note b = byte_steps_copied [OF ap] and b1 = byte_step_copied [OF ap] and w = words_copied [OF ap]
  have 3: "(if bit j 3 then advance 8 (word_step 4 (word_step 0 (copied d s m (n - take_bit 4 j)))) else copied d s m (n - take_bit 4 j)) = copied d s m (n - take_bit 3 j)"
    by (rule rest_bit [OF j(1), where f = "\<lambda>st. advance 8 (word_step 4 (word_step 0 st))"], simp, simp) (rule w(2))
  have 2: "(if bit j 2 then advance 4 (word_step 0 (copied d s m (n - take_bit 3 j))) else copied d s m (n - take_bit 3 j)) = copied d s m (n - take_bit 2 j)"
    by (rule rest_bit [OF j(1), where f = "\<lambda>st. advance 4 (word_step 0 st)"], simp, simp) (rule w(1))
  have 1: "(if bit j 1 then (byte_step ^^ 2) (copied d s m (n - take_bit 2 j)) else copied d s m (n - take_bit 2 j)) = copied d s m (n - take_bit 1 j)"
    by (rule rest_bit [OF j(1)], simp, simp) (rule b)
  have "(if bit j 0 then byte_step (copied d s m (n - take_bit 1 j)) else copied d s m (n - take_bit 1 j)) = copied d s m (n - take_bit 0 j)"
    by (rule rest_bit [OF j(1), where p = 1], simp, simp) (simp add: b1)
  then have 0: "(if bit j 0 then byte_step (copied d s m (n - take_bit 1 j)) else copied d s m (n - take_bit 1 j)) = copied d s m n" by simp
  show ?thesis unfolding Let_def t 3 2 1 0 ..
qed

lemma unaligned_so_far:
  assumes ap: "apart_areas d s n" and j: "j \<le> n" "32 \<le> j" and st: "st = copied d s m (n - j)" and q: "q < 4"
  defines "r \<equiv> copy_shifted q (load32 (snd (snd st)) (fst (snd st))) (j - (4 - q)) ((byte_step ^^ (4 - q)) st)"
  shows "so_far d s m n r \<and> fst r < 32"
proof -
  let ?j = "j - (4 - q)"
  have e: "n - j + (4 - q) = n - ?j" using j by auto
  have "(byte_step ^^ (4 - q)) st = copied d s m (n - ?j)" using byte_steps_copied [OF ap, of "n - j" "4 - q" m] j st e by simp
  moreover have "load32 (snd (snd st)) (fst (snd st)) = load32 m (s + (n - ?j) - (4 - q))"
  proof -
    have "fst (snd st) = s + (n - j)" "s + (n - ?j) - (4 - q) = s + (n - j)" using st e j by (auto simp: copied_def)
    then show ?thesis using load32_copied [OF ap, of "n - j" "n - j" m] j st by simp
  qed
  moreover have "?j \<le> n" "4 - q \<le> n - ?j" using j e by auto
  ultimately show ?thesis using copy_shifted_so_far [OF ap q, of ?j _ m] unfolding r_def by simp
qed

lemma memcpy_copies:
  assumes ap: "apart_areas dest src n"
  shows "memcpy dest src n m = (\<lambda>a. if dest \<le> a \<and> a < dest + n then m (src + (a - dest)) else m a)"
proof -
  obtain j where j: "copy_head n (dest, src, m) = (j, copied dest src m (n - j))" "j \<le> n"
    using copy_head_so_far [OF ap le_refl, of m] by (cases "copy_head n (dest, src, m)") (auto simp: so_far_def copied_0)
  have "memcpy dest src n m = snd (snd (copied dest src m n))"
  proof (cases "fst (copied dest src m (n - j)) mod 4 = 0")
    case True
    obtain j' where j': "copy_blocks j (copied dest src m (n - j)) = (j', copied dest src m (n - j'))" "j' \<le> n" "j' < 16"
      using copy_blocks_so_far [OF ap j(2), of m] by (cases "copy_blocks j (copied dest src m (n - j))") (auto simp: so_far_def)
    show ?thesis
      using words_tail [OF ap j'(2,3), of m, THEN arg_cong [of _ _ "\<lambda>st. snd (snd st)"]] True
      by (simp only: memcpy_def j(1) j'(1) prod.case Let_def if_True simp_thms)
  next
    case False
    define q where "q = fst (copied dest src m (n - j)) mod 4"
    obtain j' where j': "(if 32 \<le> j then copy_shifted q (load32 (snd (snd (copied dest src m (n - j)))) (fst (snd (copied dest src m (n - j)))))
          (j - (4 - q)) ((byte_step ^^ (4 - q)) (copied dest src m (n - j))) else (j, copied dest src m (n - j))) =
        (j', copied dest src m (n - j'))" "j' \<le> n" "j' < 32"
    proof (cases "32 \<le> j")
      case True
      have "q < 4" by (simp add: q_def)
      from unaligned_so_far [OF ap j(2) True refl this, of m] that True show thesis
        by (cases "copy_shifted q (load32 (snd (snd (copied dest src m (n - j)))) (fst (snd (copied dest src m (n - j)))))
          (j - (4 - q)) ((byte_step ^^ (4 - q)) (copied dest src m (n - j)))") (auto simp: so_far_def)
    qed (use that j in auto)
    show ?thesis
      using bytes_tail [OF ap j'(2,3), of m, THEN arg_cong [of _ _ "\<lambda>st. snd (snd st)"]] False
      by (simp only: memcpy_def j(1) q_def [symmetric] j'(1) prod.case Let_def if_False)
  qed
  then show ?thesis by (simp add: copied_def)
qed

text \<open>C34. Between areas that do not overlap, the optimised routine copies exactly the bytes asked for, for every alignment
  of source and destination and every length.\<close>

theorem memcpy_copies_area:
  assumes "apart_areas dest src n"
  shows "memcpy dest src n m = (\<lambda>a. if dest \<le> a \<and> a < dest + n then m (src + (a - dest)) else m a)"
  using assms by (rule memcpy_copies)

theorem memcpy_copies_area_witness:
  "memcpy 101 7 40 (\<lambda>a. of_nat a) = (\<lambda>a. if 101 \<le> a \<and> a < 141 then of_nat (7 + (a - 101)) else of_nat a)"
  using memcpy_copies_area [of 101 7 40 "\<lambda>a. of_nat a"] by (simp add: apart_areas_def)

subsection \<open>strcmp\<close>

text \<open>The string functions stop at the first zero byte; a string is the list of its bytes with that zero.\<close>

fun strcmp :: "u8 list \<Rightarrow> u8 list \<Rightarrow> int" where
  "strcmp (x # l) (y # r) = (if x = y \<and> x \<noteq> 0 \<and> y \<noteq> 0 then strcmp l r else uint x - uint y)"
| "strcmp l r = 0"

lemma strcmp_eq_iff:
  assumes "0 \<notin> set l" "0 \<notin> set r"
  shows "strcmp (l @ [0]) (r @ [0]) = 0 \<longleftrightarrow> l = r"
  using assms
proof (induction l arbitrary: r)
  case Nil
  then show ?case by (cases r) (auto simp: uint_0_iff)
next
  case (Cons x l)
  then show ?case by (cases r) (auto simp: uint_0_iff dest: word_uint_eqI)
qed

end
