(* ===== verification/Boot.thy ===== *)
theory Boot
  imports Lib_Mem "HOL-Library.Multiset" "HOL-Library.Sublist"
begin

text \<open>
  The start of the kernel, \<^verbatim>\<open>kernel/start.c\<close>, and the table of initialisation hooks, \<^verbatim>\<open>kernel/init.c\<close>. The addresses of the sections come
  from the linker script and are a record; the hooks are names, and \<open>eff\<close> is what each does to memory. The counter of the levels that
  have run, \<^verbatim>\<open>last_level\<close>, is a word in memory, because the start code clears the section it is in.
  The floating point unit is off.
\<close>

subsection \<open>Hooks\<close>

record init_struct =
  hook_level :: u32
  hook_name :: nat

abbreviation (input) INIT_LEVEL_EARLIEST :: u32 where "INIT_LEVEL_EARLIEST \<equiv> 1"
abbreviation (input) INIT_LEVEL_PLATFORM_EARLY :: u32 where "INIT_LEVEL_PLATFORM_EARLY \<equiv> 0x1000"
abbreviation (input) INIT_LEVEL_PLATFORM :: u32 where "INIT_LEVEL_PLATFORM \<equiv> 0x2000"
abbreviation (input) INIT_LEVEL_KERNEL_EARLY :: u32 where "INIT_LEVEL_KERNEL_EARLY \<equiv> 0x3000"
abbreviation (input) INIT_LEVEL_KERNEL :: u32 where "INIT_LEVEL_KERNEL \<equiv> 0x4000"
abbreviation (input) INIT_LEVEL_LAST :: u32 where "INIT_LEVEL_LAST \<equiv> 0xFFFFFFFF"

text \<open>The loop over the table, for a value \<open>lastl\<close> of \<^verbatim>\<open>last_level\<close>: the highest level called and the hooks in the order of the calls.\<close>

fun hook_loop :: "u32 \<Rightarrow> u32 \<Rightarrow> init_struct list \<Rightarrow> u32 \<Rightarrow> u32 \<times> nat list" where
  "hook_loop lastl level [] called = (called, [])"
| "hook_loop lastl level (h # hs) called =
     (if hook_level h > lastl \<and> hook_level h \<le> level
      then case hook_loop lastl level hs (if called > hook_level h then called else hook_level h) of (called, ns) \<Rightarrow> (called, hook_name h # ns)
      else hook_loop lastl level hs called)"

subsection \<open>Start\<close>

datatype boot_act =
    Hook nat | Sys_clock_init | Irq_init | Irq_disable | Set_ccr | Print_banner | Create_idle_thread | Create_root_thread
  | Create_ipc_event | Mpu_enable | Switch_to_kernel

record boot_map =
  last_level_addr :: nat
  kernel_data_start :: nat
  kernel_data_end :: nat
  kernel_text_end :: nat
  user_text_start :: nat
  user_text_end :: nat
  user_text_flash_start :: nat
  user_text_flash_end :: nat
  user_data_start :: nat
  user_data_end :: nat
  bss_start :: nat
  bss_end :: nat
  kernel_ahb_start :: nat
  kernel_ahb_end :: nat
  user_bss_start :: nat
  user_bss_end :: nat

type_synonym boot_state = "boot_act list \<times> memory"

definition run_init_hook :: "boot_map \<Rightarrow> (nat \<Rightarrow> memory \<Rightarrow> memory) \<Rightarrow> init_struct list \<Rightarrow> u32 \<Rightarrow> boot_state \<Rightarrow> boot_state" where
  "run_init_hook bm eff hooks level = (\<lambda>(acts, m).
     let lastl = load32 m (last_level_addr bm) in
     case hook_loop lastl level hooks lastl of (called, ns) \<Rightarrow> (acts @ map Hook ns, store32 (last_level_addr bm) called (fold eff ns m)))"

definition boot_do :: "boot_act list \<Rightarrow> boot_state \<Rightarrow> boot_state" where
  "boot_do as = (\<lambda>(acts, m). (acts @ as, m))"

definition main :: "boot_map \<Rightarrow> (nat \<Rightarrow> memory \<Rightarrow> memory) \<Rightarrow> init_struct list \<Rightarrow> boot_state \<Rightarrow> boot_state" where
  "main bm eff hooks s =
     (let s = run_init_hook bm eff hooks INIT_LEVEL_PLATFORM_EARLY s;
          s = boot_do [Irq_init, Irq_disable, Set_ccr] s;
          s = run_init_hook bm eff hooks INIT_LEVEL_PLATFORM s;
          s = boot_do [Print_banner] s;
          s = run_init_hook bm eff hooks INIT_LEVEL_KERNEL_EARLY s;
          s = run_init_hook bm eff hooks INIT_LEVEL_KERNEL s;
          s = boot_do [Create_idle_thread, Create_root_thread, Create_ipc_event, Mpu_enable] s;
          s = run_init_hook bm eff hooks INIT_LEVEL_LAST s
      in boot_do [Switch_to_kernel] s)"

definition words_between :: "nat \<Rightarrow> nat \<Rightarrow> nat" where
  "words_between a b = (b - a) div 4 * 4"

definition init_sections :: "boot_map \<Rightarrow> memory \<Rightarrow> memory" where
  "init_sections bm m =
     (let m = memcpy (kernel_data_start bm) (kernel_text_end bm) (words_between (kernel_data_start bm) (kernel_data_end bm)) m;
          m = memcpy (user_text_start bm) (user_text_flash_start bm) (words_between (user_text_start bm) (user_text_end bm)) m;
          m = memcpy (user_data_start bm) (user_text_flash_end bm) (words_between (user_data_start bm) (user_data_end bm)) m;
          m = memset (bss_start bm) 0 (words_between (bss_start bm) (bss_end bm)) m;
          m = memset (kernel_ahb_start bm) 0 (words_between (kernel_ahb_start bm) (kernel_ahb_end bm)) m
      in memset (user_bss_start bm) 0 (words_between (user_bss_start bm) (user_bss_end bm)) m)"

definition l4_start :: "boot_map \<Rightarrow> (nat \<Rightarrow> memory \<Rightarrow> memory) \<Rightarrow> init_struct list \<Rightarrow> boot_state \<Rightarrow> boot_state" where
  "l4_start bm eff hooks s =
     (let s = run_init_hook bm eff hooks INIT_LEVEL_EARLIEST s;
          s = (case s of (acts, m) \<Rightarrow> (acts, init_sections bm m))
      in main bm eff hooks (boot_do [Sys_clock_init] s))"

subsection \<open>Hooks run once, in the order of their levels\<close>

lemma hook_loop_spec:
  "hook_loop lastl level hs c =
     (fold max (map hook_level (filter (\<lambda>h. lastl < hook_level h \<and> hook_level h \<le> level) hs)) c,
      map hook_name (filter (\<lambda>h. lastl < hook_level h \<and> hook_level h \<le> level) hs))"
  by (induction hs arbitrary: c) (auto simp: max_def not_le split: prod.splits)

text \<open>The hooks of a phase.\<close>

definition phase :: "init_struct list \<Rightarrow> u32 \<Rightarrow> u32 \<Rightarrow> init_struct list" where
  "phase hooks lo hi = filter (\<lambda>h. lo < hook_level h \<and> hook_level h \<le> hi) hooks"

text \<open>After the phases up to \<open>l\<close> the counter is between the levels that were called and \<open>l\<close>.\<close>

definition up_to :: "init_struct list \<Rightarrow> u32 \<Rightarrow> u32 \<Rightarrow> bool" where
  "up_to hooks l lastl \<longleftrightarrow> lastl \<le> l \<and> (\<forall>h \<in> set hooks. hook_level h \<le> l \<longrightarrow> hook_level h \<le> lastl)"

lemma fold_max_bounds: "c \<le> fold max xs c \<and> (\<forall>x \<in> set xs. x \<le> fold max xs c) \<and> (fold max xs c = c \<or> fold max xs c \<in> set xs)"
  for c :: "'a :: linorder"
proof (induction xs arbitrary: c)
  case (Cons x xs)
  have "max x c \<in> {x, c}" by (simp add: max_def)
  then show ?case using Cons.IH [of "max x c"] by auto
qed simp

lemma load_store32 [simp]: "load32 (store32 a w m) a = w"
proof (rule bit_word_eqI)
  fix n assume "n < LENGTH(32)"
  then have n: "n < 32" by simp
  have e: "8 * (n div 8) + n mod 8 = n" by simp
  consider "n div 8 = 0" | "n div 8 = 1" | "n div 8 = 2" | "n div 8 = 3" using n by linarith
  then show "bit (load32 (store32 a w m) a) n \<longleftrightarrow> bit w n" using e n
    by cases (auto simp: bit_load32 store32_def bit_simps)
qed

lemma run_init_hook_phase:
  assumes u: "up_to hooks l (load32 m (last_level_addr bm))" and l: "l \<le> level"
    and eff: "\<And>n m. load32 (eff n m) (last_level_addr bm) = load32 m (last_level_addr bm)"
  shows "\<exists>m'. (\<forall>acts. run_init_hook bm eff hooks level (acts, m) = (acts @ map (Hook \<circ> hook_name) (phase hooks l level), m')) \<and>
    up_to hooks level (load32 m' (last_level_addr bm))"
proof -
  let ?lastl = "load32 m (last_level_addr bm)"
  let ?p = "filter (\<lambda>h. ?lastl < hook_level h \<and> hook_level h \<le> level) hooks"
  have p: "?p = phase hooks l level" unfolding phase_def
    using u l by (intro filter_cong) (auto simp: up_to_def not_le intro: leI)
  have f: "?lastl \<le> fold max (map hook_level ?p) ?lastl" "\<forall>h \<in> set ?p. hook_level h \<le> fold max (map hook_level ?p) ?lastl"
    "fold max (map hook_level ?p) ?lastl = ?lastl \<or> fold max (map hook_level ?p) ?lastl \<in> set (map hook_level ?p)"
    using fold_max_bounds [of ?lastl "map hook_level ?p"] by auto
  have "fold max (map hook_level ?p) ?lastl \<le> level" using f(3) u l by (auto simp: up_to_def)
  moreover have "hook_level h \<le> fold max (map hook_level ?p) ?lastl" if "h \<in> set hooks" "hook_level h \<le> level" for h
    using f(1,2) that by (cases "?lastl < hook_level h") (auto simp: not_less)
  ultimately show ?thesis by (simp add: run_init_hook_def Let_def hook_loop_spec p [symmetric] up_to_def)
qed

text \<open>From a cleared counter, \<^verbatim>\<open>main\<close> runs the hooks of each phase in the order of the table and the phases in the order of their levels: platform
  hooks before the banner is printed, kernel hooks before the first threads are created. Every hook runs exactly once.\<close>

theorem main_runs_hooks_in_order:
  assumes z: "load32 m (last_level_addr bm) = 0" and lev: "\<And>h. h \<in> set hooks \<Longrightarrow> hook_level h \<noteq> 0"
    and eff: "\<And>n m. load32 (eff n m) (last_level_addr bm) = load32 m (last_level_addr bm)"
  shows "fst (main bm eff hooks (acts, m)) =
      acts @ map (Hook \<circ> hook_name) (phase hooks 0 0x1000) @ [Irq_init, Irq_disable, Set_ccr] @ map (Hook \<circ> hook_name) (phase hooks 0x1000 0x2000) @
      [Print_banner] @ map (Hook \<circ> hook_name) (phase hooks 0x2000 0x3000) @ map (Hook \<circ> hook_name) (phase hooks 0x3000 0x4000) @
      [Create_idle_thread, Create_root_thread, Create_ipc_event, Mpu_enable] @ map (Hook \<circ> hook_name) (phase hooks 0x4000 0xFFFFFFFF) @ [Switch_to_kernel]"
    and "mset (phase hooks 0 0x1000 @ phase hooks 0x1000 0x2000 @ phase hooks 0x2000 0x3000 @ phase hooks 0x3000 0x4000 @ phase hooks 0x4000 0xFFFFFFFF) =
      mset hooks"
proof -
  have u0: "up_to hooks 0 (load32 m (last_level_addr bm))" using z lev by (simp add: up_to_def)
  note step = run_init_hook_phase [where eff = eff and bm = bm and hooks = hooks, OF _ _ eff]
  obtain m1 where m1: "run_init_hook bm eff hooks 0x1000 (acts, m) = (acts @ map (Hook \<circ> hook_name) (phase hooks 0 0x1000), m1)"
    "up_to hooks 0x1000 (load32 m1 (last_level_addr bm))" using step [OF u0, where level = "0x1000"] by auto
  obtain m2 where m2: "\<And>a. run_init_hook bm eff hooks 0x2000 (a, m1) = (a @ map (Hook \<circ> hook_name) (phase hooks 0x1000 0x2000), m2)"
    "up_to hooks 0x2000 (load32 m2 (last_level_addr bm))" using step [OF m1(2), where level = "0x2000"] by auto
  obtain m3 where m3: "\<And>a. run_init_hook bm eff hooks 0x3000 (a, m2) = (a @ map (Hook \<circ> hook_name) (phase hooks 0x2000 0x3000), m3)"
    "up_to hooks 0x3000 (load32 m3 (last_level_addr bm))" using step [OF m2(2), where level = "0x3000"] by auto
  obtain m4 where m4: "\<And>a. run_init_hook bm eff hooks 0x4000 (a, m3) = (a @ map (Hook \<circ> hook_name) (phase hooks 0x3000 0x4000), m4)"
    "up_to hooks 0x4000 (load32 m4 (last_level_addr bm))" using step [OF m3(2), where level = "0x4000"] by auto
  obtain m5 where m5: "\<And>a. run_init_hook bm eff hooks 0xFFFFFFFF (a, m4) = (a @ map (Hook \<circ> hook_name) (phase hooks 0x4000 0xFFFFFFFF), m5)"
    using step [OF m4(2), where level = "0xFFFFFFFF"] by auto
  show "fst (main bm eff hooks (acts, m)) =
      acts @ map (Hook \<circ> hook_name) (phase hooks 0 0x1000) @ [Irq_init, Irq_disable, Set_ccr] @ map (Hook \<circ> hook_name) (phase hooks 0x1000 0x2000) @
      [Print_banner] @ map (Hook \<circ> hook_name) (phase hooks 0x2000 0x3000) @ map (Hook \<circ> hook_name) (phase hooks 0x3000 0x4000) @
      [Create_idle_thread, Create_root_thread, Create_ipc_event, Mpu_enable] @ map (Hook \<circ> hook_name) (phase hooks 0x4000 0xFFFFFFFF) @ [Switch_to_kernel]"
    by (simp add: main_def Let_def boot_do_def m1 m2 m3 m4 m5)
  have split: "mset (phase hs a b) + mset (phase hs b c) = mset (phase hs a c)" if "a \<le> b" "b \<le> c" for hs a b c
    using that by (induction hs) (auto simp: phase_def not_le)
  have "w \<le> 0xFFFFFFFF" for w :: u32 using u32_unat_bound [of w] by (simp add: word_le_nat_alt)
  then have "phase hooks 0 0xFFFFFFFF = hooks" unfolding phase_def using lev by (intro filter_True) (auto simp: word_gt_0)
  then show "mset (phase hooks 0 0x1000 @ phase hooks 0x1000 0x2000 @ phase hooks 0x2000 0x3000 @ phase hooks 0x3000 0x4000 @ phase hooks 0x4000 0xFFFFFFFF) =
      mset hooks" by (simp add: split flip: add.assoc)
qed

subsection \<open>The sections\<close>

definition in_section :: "nat \<Rightarrow> nat \<Rightarrow> nat \<Rightarrow> bool" where
  "in_section a b x \<longleftrightarrow> a \<le> x \<and> x < a + words_between a b"

text \<open>What the linker script has to give: the six sections in RAM and the three images in flash are apart from each other.\<close>

definition areas_apart :: "nat \<times> nat \<Rightarrow> nat \<times> nat \<Rightarrow> bool" where
  "areas_apart = (\<lambda>(a, n) (b, k). a + n \<le> b \<or> b + k \<le> a)"

definition sections_apart :: "boot_map \<Rightarrow> bool" where
  "sections_apart bm \<longleftrightarrow> sorted_wrt areas_apart
     [(kernel_data_start bm, words_between (kernel_data_start bm) (kernel_data_end bm)),
      (user_text_start bm, words_between (user_text_start bm) (user_text_end bm)),
      (user_data_start bm, words_between (user_data_start bm) (user_data_end bm)),
      (bss_start bm, words_between (bss_start bm) (bss_end bm)),
      (kernel_ahb_start bm, words_between (kernel_ahb_start bm) (kernel_ahb_end bm)),
      (user_bss_start bm, words_between (user_bss_start bm) (user_bss_end bm)),
      (kernel_text_end bm, words_between (kernel_data_start bm) (kernel_data_end bm)),
      (user_text_flash_start bm, words_between (user_text_start bm) (user_text_end bm)),
      (user_text_flash_end bm, words_between (user_data_start bm) (user_data_end bm))]"

text \<open>The start code copies the three images and clears the other sections; nothing else changes.\<close>

theorem init_sections_correct:
  assumes "sections_apart bm"
  shows "in_section (kernel_data_start bm) (kernel_data_end bm) x \<longrightarrow> init_sections bm m x = m (kernel_text_end bm + (x - kernel_data_start bm))"
    and "in_section (user_text_start bm) (user_text_end bm) x \<longrightarrow> init_sections bm m x = m (user_text_flash_start bm + (x - user_text_start bm))"
    and "in_section (user_data_start bm) (user_data_end bm) x \<longrightarrow> init_sections bm m x = m (user_text_flash_end bm + (x - user_data_start bm))"
    and "in_section (bss_start bm) (bss_end bm) x \<or> in_section (kernel_ahb_start bm) (kernel_ahb_end bm) x \<or>
      in_section (user_bss_start bm) (user_bss_end bm) x \<longrightarrow> init_sections bm m x = 0"
proof -
  obtain d1 n1 s1 d2 n2 s2 d3 n3 s3 b1 k1 b2 k2 b3 k3 where n:
    "kernel_data_start bm = d1" "words_between (kernel_data_start bm) (kernel_data_end bm) = n1" "kernel_text_end bm = s1"
    "user_text_start bm = d2" "words_between (user_text_start bm) (user_text_end bm) = n2" "user_text_flash_start bm = s2"
    "user_data_start bm = d3" "words_between (user_data_start bm) (user_data_end bm) = n3" "user_text_flash_end bm = s3"
    "bss_start bm = b1" "words_between (bss_start bm) (bss_end bm) = k1" "kernel_ahb_start bm = b2"
    "words_between (kernel_ahb_start bm) (kernel_ahb_end bm) = k2" "user_bss_start bm = b3" "words_between (user_bss_start bm) (user_bss_end bm) = k3"
    by blast
  note w = n(2,5,8,11,13,15) [unfolded n(1,4,7,10,12,14)]
  have a: "d1 + n1 \<le> d2 \<or> d2 + n2 \<le> d1" "d1 + n1 \<le> d3 \<or> d3 + n3 \<le> d1" "d2 + n2 \<le> d3 \<or> d3 + n3 \<le> d2"
    "d1 + n1 \<le> b1 \<or> b1 + k1 \<le> d1" "d1 + n1 \<le> b2 \<or> b2 + k2 \<le> d1" "d1 + n1 \<le> b3 \<or> b3 + k3 \<le> d1"
    "d2 + n2 \<le> b1 \<or> b1 + k1 \<le> d2" "d2 + n2 \<le> b2 \<or> b2 + k2 \<le> d2" "d2 + n2 \<le> b3 \<or> b3 + k3 \<le> d2"
    "d3 + n3 \<le> b1 \<or> b1 + k1 \<le> d3" "d3 + n3 \<le> b2 \<or> b2 + k2 \<le> d3" "d3 + n3 \<le> b3 \<or> b3 + k3 \<le> d3"
    "d1 + n1 \<le> s1 \<or> s1 + n1 \<le> d1" "d1 + n1 \<le> s2 \<or> s2 + n2 \<le> d1" "d1 + n1 \<le> s3 \<or> s3 + n3 \<le> d1"
    "d2 + n2 \<le> s2 \<or> s2 + n2 \<le> d2" "d2 + n2 \<le> s3 \<or> s3 + n3 \<le> d2" "d3 + n3 \<le> s3 \<or> s3 + n3 \<le> d3"
    using assms unfolding sections_apart_def n by (simp_all add: areas_apart_def w)
  have c: "memcpy d1 s1 n1 m = (\<lambda>a. if d1 \<le> a \<and> a < d1 + n1 then m (s1 + (a - d1)) else m a)"
    "memcpy d2 s2 n2 m = (\<lambda>a. if d2 \<le> a \<and> a < d2 + n2 then m (s2 + (a - d2)) else m a)"
    "memcpy d3 s3 n3 m = (\<lambda>a. if d3 \<le> a \<and> a < d3 + n3 then m (s3 + (a - d3)) else m a)" for m
    using a(13,16,18) by (simp_all add: memcpy_copies apart_areas_def)
  note e = init_sections_def [of bm m, unfolded n w Let_def]
  note i = in_section_def n w
  have far: "\<not> (p \<le> y \<and> y < p + l)" if "q + l' \<le> p \<or> p + l \<le> q" "q \<le> y" "y < q + l'" for p l q l' y :: nat using that by linarith
  show "in_section (kernel_data_start bm) (kernel_data_end bm) x \<longrightarrow> init_sections bm m x = m (kernel_text_end bm + (x - kernel_data_start bm))"
  proof
    assume "in_section (kernel_data_start bm) (kernel_data_end bm) x"
    then have x: "d1 \<le> x" "x < d1 + n1" by (simp_all add: i)
    have "\<not> (d2 \<le> x \<and> x < d2 + n2)" "\<not> (d3 \<le> x \<and> x < d3 + n3)" "\<not> (b1 \<le> x \<and> x < b1 + k1)" "\<not> (b2 \<le> x \<and> x < b2 + k2)" "\<not> (b3 \<le> x \<and> x < b3 + k3)"
      using a(1,2,4,5,6) x by (auto dest: far)
    then show "init_sections bm m x = m (kernel_text_end bm + (x - kernel_data_start bm))"
      unfolding e n using x by (simp only: memset_fills_area c if_False if_True simp_thms)
  qed
  show "in_section (user_text_start bm) (user_text_end bm) x \<longrightarrow> init_sections bm m x = m (user_text_flash_start bm + (x - user_text_start bm))"
  proof
    assume "in_section (user_text_start bm) (user_text_end bm) x"
    then have x: "d2 \<le> x" "x < d2 + n2" by (simp_all add: i)
    have "\<not> (d3 \<le> x \<and> x < d3 + n3)" "\<not> (b1 \<le> x \<and> x < b1 + k1)" "\<not> (b2 \<le> x \<and> x < b2 + k2)" "\<not> (b3 \<le> x \<and> x < b3 + k3)"
      using a(3,7,8,9) x by (auto dest: far)
    moreover have "\<not> (d1 \<le> s2 + (x - d2) \<and> s2 + (x - d2) < d1 + n1)" using a(14) x by linarith
    ultimately show "init_sections bm m x = m (user_text_flash_start bm + (x - user_text_start bm))"
      unfolding e n using x by (simp only: memset_fills_area c if_False if_True simp_thms)
  qed
  show "in_section (user_data_start bm) (user_data_end bm) x \<longrightarrow> init_sections bm m x = m (user_text_flash_end bm + (x - user_data_start bm))"
  proof
    assume "in_section (user_data_start bm) (user_data_end bm) x"
    then have x: "d3 \<le> x" "x < d3 + n3" by (simp_all add: i)
    have "\<not> (b1 \<le> x \<and> x < b1 + k1)" "\<not> (b2 \<le> x \<and> x < b2 + k2)" "\<not> (b3 \<le> x \<and> x < b3 + k3)"
      using a(10,11,12) x by (auto dest: far)
    moreover have "\<not> (d1 \<le> s3 + (x - d3) \<and> s3 + (x - d3) < d1 + n1)" using a(15) x by linarith
    moreover have "\<not> (d2 \<le> s3 + (x - d3) \<and> s3 + (x - d3) < d2 + n2)" using a(17) x by linarith
    ultimately show "init_sections bm m x = m (user_text_flash_end bm + (x - user_data_start bm))"
      unfolding e n using x by (simp only: memset_fills_area c if_False if_True simp_thms)
  qed
  show "in_section (bss_start bm) (bss_end bm) x \<or> in_section (kernel_ahb_start bm) (kernel_ahb_end bm) x \<or>
      in_section (user_bss_start bm) (user_bss_end bm) x \<longrightarrow> init_sections bm m x = 0"
    unfolding e i by (auto simp: memset_fills_area)
qed

lemma boot_extends:
  "prefix as (fst s) \<Longrightarrow> prefix as (fst (run_init_hook bm eff hooks l s))" "prefix as (fst s) \<Longrightarrow> prefix as (fst (boot_do bs s))"
  by (cases s; simp add: run_init_hook_def boot_do_def Let_def split: prod.splits)+

text \<open>The counter of the levels is cleared with its section after the first phase: a hook of the first level runs again in the next one.\<close>

theorem earliest_hooks_run_twice:
  assumes h: "h \<in> set hooks" "hook_level h = INIT_LEVEL_EARLIEST" and z: "load32 m (last_level_addr bm) = 0"
    and b: "\<forall>i < 4. in_section (bss_start bm) (bss_end bm) (last_level_addr bm + i)" and a: "sections_apart bm"
  shows "\<exists>as bs cs. fst (l4_start bm eff hooks ([], m)) = as @ [Hook (hook_name h)] @ bs @ [Hook (hook_name h)] @ cs"
proof -
  let ?p = "\<lambda>l. map hook_name (filter (\<lambda>h. 0 < hook_level h \<and> hook_level h \<le> l) hooks)"
  obtain m1 where m1: "run_init_hook bm eff hooks 1 ([], m) = (map Hook (?p 1), m1)"
    by (simp add: run_init_hook_def Let_def z hook_loop_spec)
  have "init_sections bm m1 (last_level_addr bm + i) = 0" if "i < 4" for i using init_sections_correct(4) [OF a] b that by blast
  from this [of 0] this [of 1] this [of 2] this [of 3] have z2: "load32 (init_sections bm m1) (last_level_addr bm) = 0" by (simp add: load32_def)
  obtain m2 where m2: "run_init_hook bm eff hooks 0x1000 (map Hook (?p 1) @ [Sys_clock_init], init_sections bm m1) =
      (map Hook (?p 1) @ [Sys_clock_init] @ map Hook (?p 0x1000), m2)"
    by (simp add: run_init_hook_def Let_def z2 hook_loop_spec)
  have "prefix (map Hook (?p 1) @ [Sys_clock_init] @ map Hook (?p 0x1000)) (fst (l4_start bm eff hooks ([], m)))"
    unfolding l4_start_def main_def Let_def m1 prod.case by (simp only: boot_do_def [of "[Sys_clock_init]"] prod.case m2) (intro boot_extends, simp)
  then obtain cs where "fst (l4_start bm eff hooks ([], m)) = (map Hook (?p 1) @ [Sys_clock_init] @ map Hook (?p 0x1000)) @ cs" by (auto elim: prefixE)
  moreover have "hook_name h \<in> set (?p 1)" "hook_name h \<in> set (?p 0x1000)" using h by auto
  then obtain a1 a2 c1 c2 where "?p 1 = a1 @ hook_name h # a2" "?p 0x1000 = c1 @ hook_name h # c2" by (meson split_list)
  ultimately have "fst (l4_start bm eff hooks ([], m)) =
      map Hook a1 @ [Hook (hook_name h)] @ (map Hook a2 @ [Sys_clock_init] @ map Hook c1) @ [Hook (hook_name h)] @ (map Hook c2 @ cs)" by simp
  then show ?thesis by blast
qed

end
