(* ===== verification/Gpio.thy ===== *)
theory Gpio
  imports Prelude
begin

text \<open>
  The pins of the STM32F4, \<^verbatim>\<open>platform/stm32-common/gpio-f4.c\<close>, and the priorities of exceptions, \<^verbatim>\<open>platform/stm32-common/nvic.c\<close>. A port is a
  record of its registers; a pin has a field in each. Configuring a pin sets its fields and leaves those of all other pins as they are.
\<close>

subsection \<open>Registers\<close>

record gpio_regs =
  GPIO_MODER :: u32
  GPIO_OTYPER :: u32
  GPIO_OSPEEDR :: u32
  GPIO_PUPDR :: u32
  GPIO_IDR :: u32
  GPIO_ODR :: u32
  GPIO_AFRL :: u32
  GPIO_AFRH :: u32

record gpio_state =
  RCC_AHB1ENR :: u32
  gpio_ports :: "nat \<Rightarrow> gpio_regs"

record gpio_cfg =
  cfg_port :: u8
  cfg_pin :: u8
  cfg_pupd :: u8
  cfg_speed :: u8
  cfg_type :: u8
  cfg_func :: u8
  cfg_o_type :: u8

text \<open>The field of \<open>n\<close> bits at \<open>sh\<close>: masked out, then the value is added.\<close>

definition set_field :: "nat \<Rightarrow> nat \<Rightarrow> u8 \<Rightarrow> u32 \<Rightarrow> u32" where
  "set_field sh n v reg = (reg AND NOT (push_bit sh (mask n))) OR push_bit sh (ucast v)"

definition port_upd :: "u8 \<Rightarrow> (gpio_regs \<Rightarrow> gpio_regs) \<Rightarrow> gpio_state \<Rightarrow> gpio_state" where
  "port_upd port f s = s\<lparr>gpio_ports := (gpio_ports s)(unat port := f (gpio_ports s (unat port)))\<rparr>"

definition gpio_moder :: "u8 \<Rightarrow> u8 \<Rightarrow> u8 \<Rightarrow> gpio_state \<Rightarrow> gpio_state" where
  "gpio_moder port pin type = port_upd port (GPIO_MODER_update (set_field (2 * unat pin) 2 type))"
definition gpio_otyper :: "u8 \<Rightarrow> u8 \<Rightarrow> u8 \<Rightarrow> gpio_state \<Rightarrow> gpio_state" where
  "gpio_otyper port pin type = port_upd port (GPIO_OTYPER_update (set_field (unat pin) 1 type))"
definition gpio_ospeedr :: "u8 \<Rightarrow> u8 \<Rightarrow> u8 \<Rightarrow> gpio_state \<Rightarrow> gpio_state" where
  "gpio_ospeedr port pin speed = port_upd port (GPIO_OSPEEDR_update (set_field (2 * unat pin) 2 speed))"
definition gpio_pupdr :: "u8 \<Rightarrow> u8 \<Rightarrow> u8 \<Rightarrow> gpio_state \<Rightarrow> gpio_state" where
  "gpio_pupdr port pin mode = port_upd port (GPIO_PUPDR_update (set_field (2 * unat pin) 2 mode))"
definition gpio_afr :: "u8 \<Rightarrow> u8 \<Rightarrow> u8 \<Rightarrow> gpio_state \<Rightarrow> gpio_state" where
  "gpio_afr port pin func =
     (if pin < 8 then port_upd port (GPIO_AFRL_update (set_field (4 * unat pin) 4 func))
      else port_upd port (GPIO_AFRH_update (set_field (4 * (unat pin - 8)) 4 func)))"

subsection \<open>Configuration\<close>

abbreviation (input) GPIO_MODER_IN :: u8 where "GPIO_MODER_IN \<equiv> 0"
abbreviation (input) GPIO_MODER_OUT :: u8 where "GPIO_MODER_OUT \<equiv> 1"
abbreviation (input) GPIO_MODER_ALT :: u8 where "GPIO_MODER_ALT \<equiv> 2"
abbreviation (input) GPIO_OTYPER_PP :: u8 where "GPIO_OTYPER_PP \<equiv> 0"

definition gpio_clock :: "u8 \<Rightarrow> gpio_state \<Rightarrow> gpio_state" where
  "gpio_clock port s = s\<lparr>RCC_AHB1ENR := RCC_AHB1ENR s OR push_bit (unat port) 1\<rparr>"

definition gpio_config :: "gpio_cfg \<Rightarrow> gpio_state \<Rightarrow> gpio_state" where
  "gpio_config cfg s =
     (let port = cfg_port cfg; pin = cfg_pin cfg;
          s = gpio_clock port s;
          s = gpio_pupdr port pin (cfg_pupd cfg) s;
          s = gpio_moder port pin (cfg_type cfg) s
      in if cfg_type cfg = GPIO_MODER_IN then s
         else let s = (if cfg_type cfg = GPIO_MODER_ALT then gpio_afr port pin (cfg_func cfg) s else s);
                  s = gpio_otyper port pin (cfg_o_type cfg) s
              in gpio_ospeedr port pin (cfg_speed cfg) s)"

definition gpio_config_output :: "u8 \<Rightarrow> u8 \<Rightarrow> u8 \<Rightarrow> u8 \<Rightarrow> gpio_state \<Rightarrow> gpio_state" where
  "gpio_config_output port pin pupd speed s =
     gpio_config \<lparr>cfg_port = port, cfg_pin = pin, cfg_pupd = pupd, cfg_speed = speed, cfg_type = GPIO_MODER_OUT, cfg_func = 0,
       cfg_o_type = GPIO_OTYPER_PP\<rparr> (gpio_clock port s)"

definition gpio_config_input :: "u8 \<Rightarrow> u8 \<Rightarrow> u8 \<Rightarrow> gpio_state \<Rightarrow> gpio_state" where
  "gpio_config_input port pin pupd s =
     gpio_config \<lparr>cfg_port = port, cfg_pin = pin, cfg_pupd = pupd, cfg_speed = 0, cfg_type = GPIO_MODER_IN, cfg_func = 0, cfg_o_type = 0\<rparr>
       (gpio_clock port s)"

definition gpio_out_high :: "u8 \<Rightarrow> u8 \<Rightarrow> gpio_state \<Rightarrow> gpio_state" where
  "gpio_out_high port pin = port_upd port (GPIO_ODR_update (\<lambda>w. w OR push_bit (unat pin) 1))"

definition gpio_out_low :: "u8 \<Rightarrow> u8 \<Rightarrow> gpio_state \<Rightarrow> gpio_state" where
  "gpio_out_low port pin = port_upd port (GPIO_ODR_update (\<lambda>w. w AND NOT (push_bit (unat pin) 1)))"

definition gpio_input_bit :: "u8 \<Rightarrow> u8 \<Rightarrow> gpio_state \<Rightarrow> u8" where
  "gpio_input_bit port pin s = (if GPIO_IDR (gpio_ports s (unat port)) AND push_bit (unat pin) 1 \<noteq> 0 then 1 else 0)"

text \<open>The bit set and reset register acts on the output register: its low half sets bits, its high half clears them.\<close>

definition write_bsrr :: "u32 \<Rightarrow> u32 \<Rightarrow> u32" where
  "write_bsrr w odr = (odr AND NOT (drop_bit 16 w)) OR (w AND mask 16)"

definition gpio_writebit :: "u8 \<Rightarrow> u8 \<Rightarrow> u8 \<Rightarrow> gpio_state \<Rightarrow> gpio_state" where
  "gpio_writebit port pin bitval =
     (if bitval \<noteq> 0 then port_upd port (GPIO_ODR_update (write_bsrr (push_bit (unat pin) 1)))
      else port_upd port (GPIO_ODR_update (write_bsrr (push_bit (unat pin + 16) 1))))"

subsection \<open>Priorities\<close>

record nvic_state =
  SCB_AIRCR :: u32
  SCB_SHPR :: "nat \<Rightarrow> u8"
  NVIC_IP :: "nat \<Rightarrow> u8"

definition NVIC_PriorityGroupConfig :: "u32 \<Rightarrow> nvic_state \<Rightarrow> nvic_state" where
  "NVIC_PriorityGroupConfig grp s =
     (if grp \<noteq> 0x700 \<and> grp \<noteq> 0x600 \<and> grp \<noteq> 0x500 \<and> grp \<noteq> 0x400 \<and> grp \<noteq> 0x300 then s else s\<lparr>SCB_AIRCR := 0x05FA0000 OR grp\<rparr>)"

text \<open>The shifts are of \<^verbatim>\<open>int\<close> values and the results are cut to eight bits. \<open>irqn\<close> is the number, negative for the exceptions of the core.\<close>

definition NVIC_SetPriority :: "int \<Rightarrow> u8 \<Rightarrow> u8 \<Rightarrow> nvic_state \<Rightarrow> nvic_state" where
  "NVIC_SetPriority irqn group_priority sub_priority s =
     (let sub_shifts = ucast (drop_bit 8 (0x700 - (SCB_AIRCR s AND 0x700))) :: u8;
          group_shifts = 4 - sub_shifts;
          prio = ucast (push_bit (unat group_shifts) (ucast group_priority :: u32)) OR
                 (sub_priority AND drop_bit (unat sub_shifts) 0xF) :: u8;
          v = push_bit 4 prio
      in if irqn < 0 then s\<lparr>SCB_SHPR := (SCB_SHPR s)(unat ((word_of_int irqn :: u32) AND 0xF) - 4 := v)\<rparr>
         else s\<lparr>NVIC_IP := (NVIC_IP s)(nat irqn := v)\<rparr>)"

definition irq_init :: "nvic_state \<Rightarrow> nvic_state" where
  "irq_init s = fold (\<lambda>(irqn, p). NVIC_SetPriority irqn p 0)
     [(-4, 0), (-12, 1), (-11, 1), (-10, 1), (-1, 3), (-5, 0xF), (-2, 0xF)] (NVIC_PriorityGroupConfig 0x300 s)"

subsection \<open>Correctness\<close>

lemma high_bits:
  fixes v :: u8
  assumes "unat v < 2 ^ n" and "bit v k"
  shows "k < n"
proof -
  have "take_bit n (unat v) = unat v" using assms(1) by (rule take_bit_nat_eq_self)
  moreover have "bit (unat v) k" using assms(2) bit_imp_le_length [OF assms(2)] by (simp add: bit_unsigned_iff)
  ultimately have "bit (take_bit n (unat v)) k" by simp
  then show ?thesis by (simp only: bit_take_bit_iff)
qed

lemma bit_set_field:
  assumes "unat v < 2 ^ n" and "sh + n \<le> 32"
  shows "bit (set_field sh n v reg) i \<longleftrightarrow> (if sh \<le> i \<and> i < sh + n then bit v (i - sh) else bit reg i)"
proof (cases "i < 32")
  case True
  have "bit (ucast v :: u32) k \<longleftrightarrow> bit v k" for k
    using high_bits [OF assms(1), of k] assms(2) by (auto simp: bit_ucast_iff)
  then have "bit (set_field sh n v reg) i \<longleftrightarrow> bit reg i \<and> \<not> (sh \<le> i \<and> i < sh + n) \<or> sh \<le> i \<and> bit v (i - sh)"
    using True assms(2) by (auto simp: set_field_def bit_or_iff bit_and_iff bit_not_iff bit_push_bit_iff bit_mask_iff)
  then show ?thesis using high_bits [OF assms(1), of "i - sh"] by auto
next
  case False
  then show ?thesis using assms(2) u32_bit_bound by (metis less_le_trans)
qed

text \<open>The field of a pin.\<close>

definition field :: "nat \<Rightarrow> nat \<Rightarrow> u32 \<Rightarrow> u32" where
  "field sh n reg = drop_bit sh reg AND mask n"

lemma bit_field: "bit (field sh n reg) i \<longleftrightarrow> i < n \<and> bit reg (sh + i)"
  by (auto simp: field_def bit_simps dest: u32_bit_bound)

lemma field_set_same:
  assumes "unat v < 2 ^ n" and "sh + n \<le> 32"
  shows "field sh n (set_field sh n v reg) = ucast v"
proof (rule bit_word_eqI)
  fix i assume "i < LENGTH(32)"
  then show "bit (field sh n (set_field sh n v reg)) i \<longleftrightarrow> bit (ucast v :: u32) i"
    using high_bits [OF assms(1), of i] by (auto simp: bit_field bit_set_field [OF assms] bit_ucast_iff)
qed

lemma field_set_other:
  assumes "unat v < 2 ^ n" and "sh + n \<le> 32" and "sh' + k \<le> sh \<or> sh + n \<le> sh'"
  shows "field sh' k (set_field sh n v reg) = field sh' k reg"
  using assms(3) by (intro bit_word_eqI) (auto simp: bit_field bit_set_field [OF assms(1,2)])

text \<open>The configuration of a pin of a port, as the registers have it.\<close>

definition pin_of :: "nat \<Rightarrow> nat \<Rightarrow> gpio_state \<Rightarrow> u32 \<times> u32 \<times> u32 \<times> u32 \<times> u32" where
  "pin_of port pin s = (let r = gpio_ports s port in
     (field (2 * pin) 2 (GPIO_PUPDR r), field (2 * pin) 2 (GPIO_MODER r),
      (if pin < 8 then field (4 * pin) 4 (GPIO_AFRL r) else field (4 * (pin - 8)) 4 (GPIO_AFRH r)),
      field pin 1 (GPIO_OTYPER r), field (2 * pin) 2 (GPIO_OSPEEDR r)))"

definition cfg_ok :: "gpio_cfg \<Rightarrow> bool" where
  "cfg_ok cfg \<longleftrightarrow> unat (cfg_pin cfg) < 16 \<and> unat (cfg_pupd cfg) < 4 \<and> unat (cfg_speed cfg) < 4 \<and> unat (cfg_type cfg) < 4 \<and>
     unat (cfg_func cfg) < 16 \<and> unat (cfg_o_type cfg) < 2"

lemmas gpio_defs = gpio_config_def gpio_clock_def gpio_pupdr_def gpio_moder_def gpio_afr_def gpio_otyper_def gpio_ospeedr_def port_upd_def Let_def pin_of_def

text \<open>Configuring a pin with values that fit sets its pull-up, mode, function, output type and speed, and changes no other pin of any port.\<close>

theorem gpio_config_sets_one_pin:
  assumes "cfg_ok cfg"
  shows "pin_of (unat (cfg_port cfg)) (unat (cfg_pin cfg)) (gpio_config cfg s) =
      (case pin_of (unat (cfg_port cfg)) (unat (cfg_pin cfg)) s of (_, _, af, ot, sp) \<Rightarrow>
         (ucast (cfg_pupd cfg), ucast (cfg_type cfg),
          (if cfg_type cfg = GPIO_MODER_ALT then ucast (cfg_func cfg) else af),
          (if cfg_type cfg = GPIO_MODER_IN then ot else ucast (cfg_o_type cfg)),
          (if cfg_type cfg = GPIO_MODER_IN then sp else ucast (cfg_speed cfg))))"
    and "p \<noteq> unat (cfg_port cfg) \<or> k \<noteq> unat (cfg_pin cfg) \<Longrightarrow> k < 16 \<Longrightarrow> pin_of p k (gpio_config cfg s) = pin_of p k s"
proof -
  let ?n = "unat (cfg_pin cfg)"
  have c: "?n < 16" "unat (cfg_pupd cfg) < 2 ^ 2" "unat (cfg_speed cfg) < 2 ^ 2" "unat (cfg_type cfg) < 2 ^ 2" "unat (cfg_func cfg) < 2 ^ 4"
    "unat (cfg_o_type cfg) < 2 ^ 1" using assms by (simp_all add: cfg_ok_def)
  have l: "cfg_pin cfg < 8 \<longleftrightarrow> ?n < 8" by (simp add: word_less_nat_alt)
  have b: "2 * ?n + 2 \<le> 32" "?n + 1 \<le> 32" "?n < 8 \<Longrightarrow> 4 * ?n + 4 \<le> 32" "4 * (?n - 8) + 4 \<le> 32" using c(1) by auto
  show "pin_of (unat (cfg_port cfg)) ?n (gpio_config cfg s) =
      (case pin_of (unat (cfg_port cfg)) ?n s of (_, _, af, ot, sp) \<Rightarrow>
         (ucast (cfg_pupd cfg), ucast (cfg_type cfg), (if cfg_type cfg = GPIO_MODER_ALT then ucast (cfg_func cfg) else af),
          (if cfg_type cfg = GPIO_MODER_IN then ot else ucast (cfg_o_type cfg)), (if cfg_type cfg = GPIO_MODER_IN then sp else ucast (cfg_speed cfg))))"
    using c b by (simp add: gpio_defs l field_set_same del: One_nat_def)
  assume k: "p \<noteq> unat (cfg_port cfg) \<or> k \<noteq> ?n" "k < 16"
  show "pin_of p k (gpio_config cfg s) = pin_of p k s"
  proof (cases "p = unat (cfg_port cfg)")
    case True
    then have "k < ?n \<or> ?n < k" using k(1) by auto
    then have o: "2 * k + 2 \<le> 2 * ?n \<or> 2 * ?n + 2 \<le> 2 * k" "k + 1 \<le> ?n \<or> ?n + 1 \<le> k" "4 * k + 4 \<le> 4 * ?n \<or> 4 * ?n + 4 \<le> 4 * k"
      "8 \<le> k \<Longrightarrow> 8 \<le> ?n \<Longrightarrow> 4 * (k - 8) + 4 \<le> 4 * (?n - 8) \<or> 4 * (?n - 8) + 4 \<le> 4 * (k - 8)" by auto
    show ?thesis using c b o by (simp add: gpio_defs l field_set_other True del: One_nat_def)
  qed (simp add: gpio_defs)
qed

text \<open>After the initialisation the supervisor call and the context switch have the lowest priority of all core exceptions.\<close>

theorem irq_init_priorities:
  "map (SCB_SHPR (irq_init s)) [0, 1, 2, 7, 8, 10, 11] = [0x10, 0x10, 0x10, 0xF0, 0, 0xF0, 0x30]"
  by (simp add: irq_init_def NVIC_PriorityGroupConfig_def NVIC_SetPriority_def Let_def)

end
