(* ===== verification/Ktable.thy ===== *)
theory Ktable
  imports Prelude
begin

text \<open>
  Kernel tables: \<^verbatim>\<open>platform/bitops.c\<close> (test-and-set), \<^verbatim>\<open>include/lib/bitmap.h\<close> (the
  classic, not bit-banded, bitmaps) and \<^verbatim>\<open>kernel/lib/ktable.c\<close>. A table is a static array of
  \<open>knum\<close> elements of \<open>ksize\<close> bytes at address \<open>kdata\<close> with one bitmap bit per element.
  The locale \<open>slot_pool\<close> is the contract every client of a table relies on (fresh elements,
  no double hand-out, NULL exactly when full); \<open>ktable_alloc\<close> and \<open>ktable_free\<close> are
  proved to meet it.
\<close>

subsection \<open>Bitmaps\<close>

text \<open>
  \<open>test_and_set_bit\<close>: the LDREX/TST/STREX sequence, run without interference (the store
  exclusive succeeds). First component: 1 if the bit was clear and is now set, else 0.
\<close>

definition test_and_set_bit :: "u32 \<Rightarrow> u32 \<Rightarrow> u32 \<times> u32" where
  "test_and_set_bit word bitmask =
     (if word AND bitmask = 0 then (1, word OR bitmask) else (0, word))"

definition BITOFF :: "nat \<Rightarrow> nat" where "BITOFF b = b mod 32"
definition BITMASK :: "nat \<Rightarrow> u32" where "BITMASK b = push_bit (BITOFF b) 1"
definition BITINDEX :: "nat \<Rightarrow> nat" where "BITINDEX b = b div 32"

definition bitmap_set_bit :: "u32 list \<Rightarrow> nat \<Rightarrow> u32 list" where
  "bitmap_set_bit bm b = bm[BITINDEX b := bm ! BITINDEX b OR BITMASK b]"

definition bitmap_clear_bit :: "u32 list \<Rightarrow> nat \<Rightarrow> u32 list" where
  "bitmap_clear_bit bm b = bm[BITINDEX b := bm ! BITINDEX b AND NOT (BITMASK b)]"

definition bitmap_get_bit :: "u32 list \<Rightarrow> nat \<Rightarrow> u32" where
  "bitmap_get_bit bm b = drop_bit (BITOFF b) (bm ! BITINDEX b) AND 1"

definition bitmap_test_and_set_bit :: "u32 list \<Rightarrow> nat \<Rightarrow> u32 \<times> u32 list" where
  "bitmap_test_and_set_bit bm b =
     (case test_and_set_bit (bm ! BITINDEX b) (BITMASK b) of
        (r, w) \<Rightarrow> (r, bm[BITINDEX b := w]))"

text \<open>The bit a cursor denotes, as a truth value.\<close>

definition bm_bit :: "u32 list \<Rightarrow> nat \<Rightarrow> bool" where
  "bm_bit bm b = bit (bm ! (b div 32)) (b mod 32)"

lemma and_push_bit_1_eq_0: "n < 32 \<Longrightarrow> (w :: u32) AND push_bit n 1 = 0 \<longleftrightarrow> \<not> bit w n"
proof -
  assume n: "n < 32"
  have "w AND push_bit n 1 = 0 \<longleftrightarrow> (\<forall>m < 32. \<not> bit (w AND push_bit n 1) m)"
    by (rule u32_eq_zero_iff)
  also have "\<dots> \<longleftrightarrow> \<not> bit w n" using n by (auto simp: bit_and_iff bit_exp_iff)
  finally show ?thesis .
qed

lemma drop_bit_and_1: "drop_bit n (w :: u32) AND 1 = (if bit w n then 1 else 0)"
  by (auto simp: bit_iff_odd_drop_bit and_one_eq odd_iff_mod_2_eq_one)

lemma bitmap_get_bit_eq: "bitmap_get_bit bm b = (if bm_bit bm b then 1 else 0)"
  by (simp add: bitmap_get_bit_def bm_bit_def BITOFF_def BITINDEX_def drop_bit_and_1)

lemma bm_bit_update:
  assumes "b < 32 * length bm"
  shows "bm_bit (bm[b div 32 := w]) c =
           (if c div 32 = b div 32 then bit w (c mod 32) else bm_bit bm c)"
  using assms by (auto simp: bm_bit_def less_mult_imp_div_less mult.commute nth_list_update)

lemma div_mod_32_eq: "c div 32 = b div 32 \<Longrightarrow> c mod 32 = b mod 32 \<Longrightarrow> c = (b :: nat)"
  by (metis div_mult_mod_eq)

lemma bm_bit_set [bitmap_simps]:
  "b < 32 * length bm \<Longrightarrow> bm_bit (bitmap_set_bit bm b) c \<longleftrightarrow> c = b \<or> bm_bit bm c"
  by (auto simp: bitmap_set_bit_def BITINDEX_def BITMASK_def BITOFF_def bm_bit_update
        bit_or_iff bit_exp_iff dest: div_mod_32_eq) (simp_all add: bm_bit_def)

lemma bm_bit_clear [bitmap_simps]:
  "b < 32 * length bm \<Longrightarrow> bm_bit (bitmap_clear_bit bm b) c \<longleftrightarrow> c \<noteq> b \<and> bm_bit bm c"
  by (auto simp: bitmap_clear_bit_def BITINDEX_def BITMASK_def BITOFF_def bm_bit_update
        bit_and_iff bit_not_iff bit_exp_iff dest: div_mod_32_eq) (simp_all add: bm_bit_def)

lemma length_bitmap_clear_bit [simp]: "length (bitmap_clear_bit bm b) = length bm"
  by (simp add: bitmap_clear_bit_def)

lemma length_bitmap_set_bit [simp]: "length (bitmap_set_bit bm b) = length bm"
  by (simp add: bitmap_set_bit_def)

text \<open>Test-and-set is a read followed by a set, and leaves a set bit alone.\<close>

lemma bitmap_test_and_set_bit_eq:
  "bitmap_test_and_set_bit bm b =
     (if bm_bit bm b then (0, bm) else (1, bitmap_set_bit bm b))"
  by (simp add: bitmap_test_and_set_bit_def test_and_set_bit_def bitmap_set_bit_def bm_bit_def
        BITINDEX_def BITMASK_def BITOFF_def and_push_bit_1_eq_0 del: push_bit_of_1)

subsection \<open>Tables\<close>

record ktable =
  tname :: string
  kbitmap :: "u32 list"
  kdata :: ptr
  knum :: nat
  ksize :: nat

text \<open>
  \<open>ktable_init\<close> walks the bitmap byte by byte and clears \<open>num / 8\<close> bytes (byte \<open>k\<close> of
  the little-endian array is bits \<open>8 k .. 8 k + 7\<close>).
\<close>

definition bitmap_clear_byte :: "nat \<Rightarrow> u32 list \<Rightarrow> u32 list" where
  "bitmap_clear_byte k bm = bm[k div 4 := bm ! (k div 4) AND NOT (push_bit (8 * (k mod 4)) 0xFF)]"

definition ktable_init :: "ktable \<Rightarrow> ktable" where
  "ktable_init kt = kt\<lparr>kbitmap := fold bitmap_clear_byte [0..<knum kt div 8] (kbitmap kt)\<rparr>"

text \<open>Result -1 is the index error; the guard is the source's \<open>i > kt->num\<close>.\<close>

definition ktable_is_allocated :: "ktable \<Rightarrow> nat \<Rightarrow> int" where
  "ktable_is_allocated kt i =
     (if i > knum kt then -1 else uint (bitmap_get_bit (kbitmap kt) i))"

definition kt_elem :: "ktable \<Rightarrow> nat \<Rightarrow> ptr" where
  "kt_elem kt i = kdata kt + of_nat i * of_nat (ksize kt)"

definition ktable_alloc_id :: "ktable \<Rightarrow> nat \<Rightarrow> ptr \<times> ktable" where
  "ktable_alloc_id kt i =
     (if i > knum kt then (NULL, kt)
      else case bitmap_test_and_set_bit (kbitmap kt) i of
        (r, bm) \<Rightarrow> if r \<noteq> 0 then (kt_elem kt i, kt\<lparr>kbitmap := bm\<rparr>)
                   else (NULL, kt\<lparr>kbitmap := bm\<rparr>))"

function ktable_alloc_from :: "nat \<Rightarrow> ktable \<Rightarrow> ptr \<times> ktable" where
  "ktable_alloc_from i kt =
     (if i < knum kt then
        (case bitmap_test_and_set_bit (kbitmap kt) i of
           (r, bm) \<Rightarrow> if r \<noteq> 0 then (kt_elem kt i, kt\<lparr>kbitmap := bm\<rparr>)
                      else ktable_alloc_from (Suc i) (kt\<lparr>kbitmap := bm\<rparr>))
      else (NULL, kt))"
  by pat_completeness auto
termination
  by (relation "measure (\<lambda>(i, kt). knum kt - i)") auto

declare ktable_alloc_from.simps [simp del]

definition ktable_alloc :: "ktable \<Rightarrow> ptr \<times> ktable" where
  "ktable_alloc kt =
     (if kdata kt = NULL \<or> knum kt = 0 \<or> ksize kt = 0 then (NULL, kt)
      else ktable_alloc_from 0 kt)"

text \<open>
  The index is computed in unsigned arithmetic, read back as an \<open>int\<close> and compared with the
  unsigned \<open>num\<close>.
\<close>

definition ktable_getid :: "ktable \<Rightarrow> ptr \<Rightarrow> u32" where
  "ktable_getid kt element =
     (let i = (element - kdata kt) div of_nat (ksize kt)
      in if unat i > knum kt \<or> sint i < 0 then -1 else i)"

definition ktable_free :: "ktable \<Rightarrow> ptr \<Rightarrow> ktable" where
  "ktable_free kt element =
     (let i = ktable_getid kt element
      in if i \<noteq> -1 then kt\<lparr>kbitmap := bitmap_clear_bit (kbitmap kt) (unat i)\<rparr> else kt)"

subsection \<open>Well-formed tables, their elements and their allocation state\<close>

text \<open>What \<^verbatim>\<open>DECLARE_KTABLE\<close> sets up: a non-empty array inside the address space, below the
  sign bit in its number of elements, with enough bitmap words.\<close>

definition kt_wf :: "ktable \<Rightarrow> bool" where
  "kt_wf kt \<longleftrightarrow>
     kdata kt \<noteq> NULL \<and> 0 < knum kt \<and> knum kt < 2 ^ 31 \<and> 0 < ksize kt \<and>
     unat (kdata kt) + knum kt * ksize kt \<le> 2 ^ 32 \<and>
     length (kbitmap kt) = knum kt div 32 + (if knum kt mod 32 = 0 then 0 else 1)"

definition kt_slots :: "ktable \<Rightarrow> ptr set" where
  "kt_slots kt = kt_elem kt ` {..<knum kt}"

definition kt_used :: "ktable \<Rightarrow> ptr set" where
  "kt_used kt = kt_elem kt ` {i. i < knum kt \<and> bm_bit (kbitmap kt) i}"

lemma kt_wf_bitmap: "kt_wf kt \<Longrightarrow> i < knum kt \<Longrightarrow> i < 32 * length (kbitmap kt)"
proof -
  assume "kt_wf kt" "i < knum kt"
  moreover have "knum kt \<le> 32 * (knum kt div 32 + (if knum kt mod 32 = 0 then 0 else 1))"
    by (simp, presburger)
  ultimately show ?thesis by (simp add: kt_wf_def)
qed

lemma kt_wf_cong [simp]:
  "length bm = length (kbitmap kt) \<Longrightarrow> kt_wf (kt\<lparr>kbitmap := bm\<rparr>) = kt_wf kt"
  by (simp add: kt_wf_def)

lemma kt_elem_cong [simp]: "kt_elem (kt\<lparr>kbitmap := bm\<rparr>) = kt_elem kt"
  by (simp add: kt_elem_def fun_eq_iff)

lemma kt_slots_cong [simp]: "kt_slots (kt\<lparr>kbitmap := bm\<rparr>) = kt_slots kt"
  by (simp add: kt_slots_def)

lemma kt_elem_bound: "i < knum kt \<Longrightarrow> i * ksize kt + ksize kt \<le> knum kt * ksize kt"
  by (metis Suc_leI add.commute mult_Suc mult_le_mono1)

lemma unat_kt_elem:
  assumes "kt_wf kt" "i < knum kt"
  shows "unat (kt_elem kt i) = unat (kdata kt) + i * ksize kt"
proof -
  have "i * ksize kt + ksize kt \<le> knum kt * ksize kt" using assms(2) by (rule kt_elem_bound)
  with assms(1) have b: "unat (kdata kt) + i * ksize kt < 2 ^ 32" by (simp add: kt_wf_def)
  have "kt_elem kt i = of_nat (unat (kdata kt) + i * ksize kt)" by (simp add: kt_elem_def)
  then show ?thesis using b by (simp only: u32_unat_of_nat)
qed

lemma kt_elem_inj:
  assumes "kt_wf kt" "i < knum kt" "j < knum kt"
  shows "kt_elem kt i = kt_elem kt j \<longleftrightarrow> i = j"
proof
  assume "kt_elem kt i = kt_elem kt j"
  then have "i * ksize kt = j * ksize kt"
    using assms unat_kt_elem by (metis add_left_cancel)
  then show "i = j" using assms(1) by (simp add: kt_wf_def)
qed simp

lemma kt_elem_not_null: "kt_wf kt \<Longrightarrow> i < knum kt \<Longrightarrow> kt_elem kt i \<noteq> NULL"
  using unat_kt_elem [of kt i] by (auto simp: kt_wf_def unat_eq_zero)

lemma kt_elem_used_iff:
  "kt_wf kt \<Longrightarrow> i < knum kt \<Longrightarrow> kt_elem kt i \<in> kt_used kt \<longleftrightarrow> bm_bit (kbitmap kt) i"
  by (auto simp: kt_used_def kt_elem_inj)

lemma ktable_getid_elem:
  assumes "kt_wf kt" "i < knum kt"
  shows "ktable_getid kt (kt_elem kt i) = of_nat i" and "unat (of_nat i :: u32) = i"
proof -
  have i: "i < 2 ^ 31" using assms by (simp add: kt_wf_def)
  then show u: "unat (of_nat i :: u32) = i" by (intro u32_unat_of_nat) simp
  have "i * ksize kt + ksize kt \<le> knum kt * ksize kt" using assms(2) by (rule kt_elem_bound)
  moreover have "0 < unat (kdata kt)" using assms(1) by (simp add: kt_wf_def unat_gt_0)
  ultimately have lt: "i * ksize kt < 2 ^ 32" and s: "ksize kt < 2 ^ 32" and pos: "0 < ksize kt"
    using assms(1) by (auto simp: kt_wf_def)
  have "kt_elem kt i - kdata kt = of_nat (i * ksize kt)" by (simp add: kt_elem_def)
  then have "unat ((kt_elem kt i - kdata kt) div of_nat (ksize kt)) = i"
    using lt s pos by (simp only: unat_div u32_unat_of_nat) simp
  then have q: "(kt_elem kt i - kdata kt) div of_nat (ksize kt) = of_nat i"
    using i by (intro u32_of_nat_eq) auto
  then show "ktable_getid kt (kt_elem kt i) = of_nat i"
    using u assms(2) u32_sint_of_nat_nonneg [OF i] by (simp add: ktable_getid_def Let_def)
qed

subsection \<open>The contract of an element pool\<close>

fun alloc_many :: "('p \<Rightarrow> 'a \<times> 'p) \<Rightarrow> nat \<Rightarrow> 'p \<Rightarrow> 'a list \<times> 'p" where
  "alloc_many al 0 p = ([], p)"
| "alloc_many al (Suc n) p =
     (case al p of (x, p1) \<Rightarrow> case alloc_many al n p1 of (xs, p2) \<Rightarrow> (x # xs, p2))"

locale slot_pool =
  fixes pinv :: "'p \<Rightarrow> bool"
    and slots :: "'p \<Rightarrow> 'a set"
    and used :: "'p \<Rightarrow> 'a set"
    and alloc :: "'p \<Rightarrow> 'a \<times> 'p"
    and free :: "'p \<Rightarrow> 'a \<Rightarrow> 'p"
    and nil :: 'a
  assumes finite_slots: "pinv p \<Longrightarrow> finite (slots p)"
    and used_slots: "pinv p \<Longrightarrow> used p \<subseteq> slots p"
    and nil_no_slot: "pinv p \<Longrightarrow> nil \<notin> slots p"
    and alloc_fresh: "pinv p \<Longrightarrow> alloc p = (x, p') \<Longrightarrow> x \<noteq> nil \<Longrightarrow>
      x \<in> slots p \<and> x \<notin> used p \<and> used p' = insert x (used p)"
    and alloc_full: "pinv p \<Longrightarrow> alloc p = (nil, p') \<Longrightarrow> used p = slots p \<and> p' = p"
    and alloc_inv: "pinv p \<Longrightarrow> alloc p = (x, p') \<Longrightarrow> pinv p' \<and> slots p' = slots p"
    and free_used: "pinv p \<Longrightarrow> x \<in> slots p \<Longrightarrow> used (free p x) = used p - {x}"
    and free_inv: "pinv p \<Longrightarrow> x \<in> slots p \<Longrightarrow> pinv (free p x) \<and> slots (free p x) = slots p"
begin

lemma alloc_nil_iff: "pinv p \<Longrightarrow> fst (alloc p) = nil \<longleftrightarrow> used p = slots p"
  using alloc_full [of p] alloc_fresh [of p] by (cases "alloc p") force

lemma free_then_alloc: "pinv p \<Longrightarrow> x \<in> slots p \<Longrightarrow> fst (alloc (free p x)) \<noteq> nil"
  using alloc_nil_iff free_inv free_used by (metis DiffE singletonI)

lemma alloc_many_spec:
  assumes "pinv p" and "n \<le> card (slots p - used p)" and "alloc_many alloc n p = (xs, p')"
  shows "length xs = n \<and> distinct xs \<and> set xs \<subseteq> slots p - used p \<and>
         used p' = used p \<union> set xs \<and> pinv p' \<and> slots p' = slots p"
  using assms
proof (induction n arbitrary: p xs)
  case 0
  then show ?case by simp
next
  case (Suc n)
  obtain x p1 where a: "alloc p = (x, p1)" by (cases "alloc p")
  obtain ys where ys: "alloc_many alloc n p1 = (ys, p')" and xs: "xs = x # ys"
    using Suc.prems(3) a by (auto split: prod.splits)
  have "used p \<noteq> slots p" using Suc.prems(2) by auto
  then have "x \<noteq> nil" using alloc_nil_iff [OF Suc.prems(1)] a by simp
  with alloc_fresh [OF Suc.prems(1) a] have x: "x \<in> slots p" "x \<notin> used p" "used p1 = insert x (used p)"
    by auto
  have inv1: "pinv p1" "slots p1 = slots p" using alloc_inv [OF Suc.prems(1) a] by auto
  have "slots p1 - used p1 = (slots p - used p) - {x}" using x inv1 by auto
  then have "card (slots p1 - used p1) = card (slots p - used p) - 1"
    using x finite_slots [OF Suc.prems(1)] by simp
  then have "n \<le> card (slots p1 - used p1)" using Suc.prems(2) by simp
  from Suc.IH [OF inv1(1) this ys] show ?case using x inv1 xs by auto
qed

text \<open>A pool with \<open>k\<close> free elements hands out exactly \<open>k\<close> distinct ones, then \<open>nil\<close>.\<close>

lemma alloc_many_exhausts:
  assumes "pinv p" and "alloc_many alloc (card (slots p - used p)) p = (xs, p')"
  shows "distinct xs \<and> set xs = slots p - used p \<and> fst (alloc p') = nil"
proof -
  have s: "length xs = card (slots p - used p)" "distinct xs" "set xs \<subseteq> slots p - used p"
    "used p' = used p \<union> set xs" "pinv p'" "slots p' = slots p"
    using alloc_many_spec [OF assms(1) order.refl assms(2)] by auto
  have "card (set xs) = card (slots p - used p)" using s by (simp add: distinct_card)
  then have eq: "set xs = slots p - used p"
    using s finite_slots [OF assms(1)] by (intro card_subset_eq) auto
  then have "used p' = slots p'" using s used_slots [OF assms(1)] by auto
  then show ?thesis using alloc_nil_iff [OF s(5)] s eq by simp
qed

end

subsection \<open>Kernel tables meet the contract\<close>

lemma ktable_alloc_from_full:
  assumes "\<And>j. i \<le> j \<Longrightarrow> j < knum kt \<Longrightarrow> bm_bit (kbitmap kt) j"
  shows "ktable_alloc_from i kt = (NULL, kt)"
  using assms
proof (induction "knum kt - i" arbitrary: i)
  case 0
  then show ?case by (subst ktable_alloc_from.simps) simp
next
  case (Suc n)
  then have "ktable_alloc_from (Suc i) kt = (NULL, kt)" by (intro Suc.hyps) auto
  with Suc show ?case
    by (subst ktable_alloc_from.simps) (simp add: bitmap_test_and_set_bit_eq)
qed

lemma ktable_alloc_from_first:
  assumes "i \<le> k" "k < knum kt" "\<not> bm_bit (kbitmap kt) k"
    "\<And>j. i \<le> j \<Longrightarrow> j < k \<Longrightarrow> bm_bit (kbitmap kt) j"
  shows "ktable_alloc_from i kt =
    (kt_elem kt k, kt\<lparr>kbitmap := bitmap_set_bit (kbitmap kt) k\<rparr>)"
  using assms
proof (induction "k - i" arbitrary: i)
  case 0
  then have "i = k" by simp
  with 0 show ?case
    by (subst ktable_alloc_from.simps) (simp add: bitmap_test_and_set_bit_eq)
next
  case (Suc n)
  then have "bm_bit (kbitmap kt) i" and "i < knum kt" and "Suc i \<le> k" by auto
  moreover have "ktable_alloc_from (Suc i) kt =
      (kt_elem kt k, kt\<lparr>kbitmap := bitmap_set_bit (kbitmap kt) k\<rparr>)"
    using Suc by (intro Suc.hyps) auto
  ultimately show ?case
    by (subst ktable_alloc_from.simps) (simp add: bitmap_test_and_set_bit_eq)
qed

lemma ktable_alloc_from_cases:
  assumes "kt_wf kt"
  obtains "\<And>j. j < knum kt \<Longrightarrow> bm_bit (kbitmap kt) j" "ktable_alloc kt = (NULL, kt)"
  | k where "k < knum kt" "\<not> bm_bit (kbitmap kt) k" "\<And>j. j < k \<Longrightarrow> bm_bit (kbitmap kt) j"
      "ktable_alloc kt = (kt_elem kt k, kt\<lparr>kbitmap := bitmap_set_bit (kbitmap kt) k\<rparr>)"
proof (cases "\<exists>k < knum kt. \<not> bm_bit (kbitmap kt) k")
  case True
  define k where "k = (LEAST k. k < knum kt \<and> \<not> bm_bit (kbitmap kt) k)"
  have k: "k < knum kt \<and> \<not> bm_bit (kbitmap kt) k"
    unfolding k_def using True by (metis (mono_tags, lifting) LeastI_ex)
  have m: "bm_bit (kbitmap kt) j" if "j < k" for j
    using not_less_Least [of j "\<lambda>k. k < knum kt \<and> \<not> bm_bit (kbitmap kt) k"] that k
    by (auto simp: k_def)
  have "ktable_alloc kt = (kt_elem kt k, kt\<lparr>kbitmap := bitmap_set_bit (kbitmap kt) k\<rparr>)"
    using assms k m by (simp add: ktable_alloc_def kt_wf_def ktable_alloc_from_first)
  with k m that(2) show thesis by blast
next
  case False
  then have "ktable_alloc kt = (NULL, kt)"
    by (auto simp: ktable_alloc_def intro: ktable_alloc_from_full)
  with False that(1) show thesis by blast
qed

lemma kt_used_set_bit:
  assumes "kt_wf kt" "k < knum kt"
  shows "kt_used (kt\<lparr>kbitmap := bitmap_set_bit (kbitmap kt) k\<rparr>) = insert (kt_elem kt k) (kt_used kt)"
  using assms by (auto simp: kt_used_def bm_bit_set kt_wf_bitmap)

lemma kt_used_clear_bit:
  assumes "kt_wf kt" "k < knum kt"
  shows "kt_used (kt\<lparr>kbitmap := bitmap_clear_bit (kbitmap kt) k\<rparr>) = kt_used kt - {kt_elem kt k}"
  using assms by (auto simp: kt_used_def bm_bit_clear kt_wf_bitmap kt_elem_inj)

lemma ktable_free_elem:
  assumes "kt_wf kt" "k < knum kt"
  shows "ktable_free kt (kt_elem kt k) = kt\<lparr>kbitmap := bitmap_clear_bit (kbitmap kt) k\<rparr>"
proof -
  have "(of_nat k :: u32) \<noteq> -1"
  proof
    assume "(of_nat k :: u32) = -1"
    then have "k = unat (-1 :: u32)" using ktable_getid_elem(2) [OF assms] by simp
    then show False using assms by (simp add: kt_wf_def unat_u32_minus_one)
  qed
  then show ?thesis
    using ktable_getid_elem [OF assms] by (simp add: ktable_free_def Let_def)
qed

interpretation kt: slot_pool kt_wf kt_slots kt_used ktable_alloc ktable_free NULL
proof
  fix p x p' assume wf: "kt_wf p"
  show "finite (kt_slots p)" and "kt_used p \<subseteq> kt_slots p" by (auto simp: kt_slots_def kt_used_def)
  show "NULL \<notin> kt_slots p" using wf kt_elem_not_null [of p] by (auto simp: kt_slots_def)
  { assume a: "ktable_alloc p = (x, p')"
    show "kt_wf p' \<and> kt_slots p' = kt_slots p"
      using wf by (rule ktable_alloc_from_cases) (use a wf in auto)
    assume "x \<noteq> NULL"
    show "x \<in> kt_slots p \<and> x \<notin> kt_used p \<and> kt_used p' = insert x (kt_used p)"
      using wf
    proof (rule ktable_alloc_from_cases)
      fix k assume k: "k < knum p" "\<not> bm_bit (kbitmap p) k"
        "ktable_alloc p = (kt_elem p k, p\<lparr>kbitmap := bitmap_set_bit (kbitmap p) k\<rparr>)"
      then show ?thesis
        using a wf by (auto simp: kt_slots_def kt_elem_used_iff kt_used_set_bit)
    qed (use a \<open>x \<noteq> NULL\<close> in simp) }
  { assume a: "ktable_alloc p = (NULL, p')"
    show "kt_used p = kt_slots p \<and> p' = p"
      using wf by (rule ktable_alloc_from_cases)
        (use a wf kt_elem_not_null [OF wf] in \<open>auto simp: kt_used_def kt_slots_def\<close>) }
  { assume "x \<in> kt_slots p"
    then obtain k where "k < knum p" "x = kt_elem p k" by (auto simp: kt_slots_def)
    then show "kt_used (ktable_free p x) = kt_used p - {x}"
      and "kt_wf (ktable_free p x) \<and> kt_slots (ktable_free p x) = kt_slots p"
      using wf by (auto simp: ktable_free_elem kt_used_clear_bit) }
qed

subsection \<open>Initialisation\<close>

lemma bm_bit_clear_byte:
  assumes "k < 4 * length bm"
  shows "bm_bit (bitmap_clear_byte k bm) i \<longleftrightarrow> bm_bit bm i \<and> i div 8 \<noteq> k"
proof -
  have m: "(0xFF :: u32) = mask 8" by (simp add: mask_eq_exp_minus_1)
  have k: "k div 4 < length bm" using assms by (simp add: less_mult_imp_div_less mult.commute)
  have d: "i div 8 = k \<longleftrightarrow> i div 32 = k div 4 \<and> i mod 32 - 8 * (k mod 4) < 8 \<and> 8 * (k mod 4) \<le> i mod 32"
  proof -
    have i: "i div 32 = i div 8 div 4" "i mod 32 = 8 * (i div 8 mod 4) + i mod 8"
      using div_mult2_eq [of i 8 4] mod_mult2_eq [of i 8 4] by simp_all
    have "i div 8 = k \<longleftrightarrow> i div 8 div 4 = k div 4 \<and> i div 8 mod 4 = k mod 4"
      by (metis div_mult_mod_eq)
    moreover have "x = y \<longleftrightarrow> 8 * x + r - 8 * y < 8 \<and> 8 * y \<le> 8 * x + r"
      if "r < 8" for x y r :: nat using that by arith
    ultimately show ?thesis unfolding i by (metis mod_less_divisor zero_less_numeral)
  qed
  show ?thesis
    unfolding bitmap_clear_byte_def bm_bit_def m d using k
    by (auto simp: nth_list_update bit_and_iff bit_not_iff bit_push_bit_iff bit_mask_iff)
qed

lemma fold_bitmap_clear_byte:
  assumes "n \<le> 4 * length bm"
  shows "length (fold bitmap_clear_byte [0..<n] bm) = length bm \<and>
    (\<forall>i. bm_bit (fold bitmap_clear_byte [0..<n] bm) i \<longleftrightarrow> bm_bit bm i \<and> n \<le> i div 8)"
  using assms
proof (induction n)
  case 0
  then show ?case by simp
next
  case (Suc n)
  then have IH: "length (fold bitmap_clear_byte [0..<n] bm) = length bm"
    "\<And>i. bm_bit (fold bitmap_clear_byte [0..<n] bm) i \<longleftrightarrow> bm_bit bm i \<and> n \<le> i div 8" by auto
  have "length (bitmap_clear_byte n b) = length b" for b by (simp add: bitmap_clear_byte_def)
  then show ?case using Suc.prems IH by (auto simp: bm_bit_clear_byte)
qed

lemma ktable_init_spec:
  assumes "kt_wf kt" "8 dvd knum kt"
  shows "kt_wf (ktable_init kt) \<and> kt_slots (ktable_init kt) = kt_slots kt \<and> kt_used (ktable_init kt) = {}"
proof -
  let ?n = "knum kt div 8"
  have "?n \<le> 4 * length (kbitmap kt)"
    using kt_wf_bitmap [OF assms(1), of "knum kt - 1"] assms(1) by (simp add: kt_wf_def)
  from fold_bitmap_clear_byte [OF this]
  have f: "length (fold bitmap_clear_byte [0..<?n] (kbitmap kt)) = length (kbitmap kt)"
    "\<And>i. i < knum kt \<Longrightarrow> \<not> bm_bit (fold bitmap_clear_byte [0..<?n] (kbitmap kt)) i"
    using assms(2) by (auto simp: less_mult_imp_div_less not_le)
  then show ?thesis using assms(1) by (auto simp: ktable_init_def kt_used_def)
qed

lemma card_kt_slots: "kt_wf kt \<Longrightarrow> card (kt_slots kt) = knum kt"
  unfolding kt_slots_def by (subst card_image) (auto simp: inj_on_def kt_elem_inj)

subsection \<open>Properties\<close>

text \<open>C10. From a freshly initialised table of \<open>num\<close> elements, \<open>num\<close> successive
  \<open>ktable_alloc\<close> calls return exactly the \<open>num\<close> distinct elements of the table, none of
  them NULL, and the call after that returns NULL: no element is handed out twice and none is lost.
\<close>

theorem ktable_hands_out_each_element_once:
  assumes "kt_wf kt" and "8 dvd knum kt"
    and "alloc_many ktable_alloc (knum kt) (ktable_init kt) = (xs, kt')"
  shows "distinct xs \<and> set xs = kt_elem kt ` {..<knum kt} \<and> NULL \<notin> set xs \<and>
         fst (ktable_alloc kt') = NULL"
proof -
  have i: "kt_wf (ktable_init kt)" "kt_slots (ktable_init kt) = kt_slots kt" "kt_used (ktable_init kt) = {}"
    using ktable_init_spec [OF assms(1,2)] by auto
  have "alloc_many ktable_alloc (card (kt_slots (ktable_init kt) - kt_used (ktable_init kt))) (ktable_init kt)
    = (xs, kt')" using assms i by (simp add: card_kt_slots)
  from kt.alloc_many_exhausts [OF i(1) this] kt.nil_no_slot [OF assms(1)] i
  show ?thesis by (auto simp: kt_slots_def)
qed

definition kt_example :: ktable where
  "kt_example = \<lparr>tname = ''example'', kbitmap = [0xFF], kdata = 0x20000000, knum = 8, ksize = 12\<rparr>"

theorem ktable_hands_out_each_element_once_witness:
  "distinct (fst (alloc_many ktable_alloc 8 (ktable_init kt_example)))"
proof -
  have "kt_wf kt_example" by (simp add: kt_wf_def kt_example_def)
  moreover have "8 dvd knum kt_example" by (simp add: kt_example_def)
  moreover have "alloc_many ktable_alloc (knum kt_example) (ktable_init kt_example) =
    (fst (alloc_many ktable_alloc 8 (ktable_init kt_example)),
     snd (alloc_many ktable_alloc 8 (ktable_init kt_example)))" by (simp add: kt_example_def)
  ultimately show ?thesis using ktable_hands_out_each_element_once by blast
qed

text \<open>Freeing an element of the table releases exactly that element: every other element keeps its
  allocation state, and the table has room again, so the next \<open>ktable_alloc\<close> does not fail.
\<close>

theorem ktable_free_releases_one:
  assumes "kt_wf kt" and "i < knum kt"
  shows "kt_used (ktable_free kt (kt_elem kt i)) = kt_used kt - {kt_elem kt i} \<and>
         fst (ktable_alloc (ktable_free kt (kt_elem kt i))) \<noteq> NULL"
proof -
  have "kt_elem kt i \<in> kt_slots kt" using assms(2) by (simp add: kt_slots_def)
  then show ?thesis using kt.free_used [OF assms(1)] kt.free_then_alloc [OF assms(1)] by blast
qed

theorem ktable_free_releases_one_witness:
  "kt_used (ktable_free kt_example (kt_elem kt_example 3)) = kt_used kt_example - {0x20000024}"
  using ktable_free_releases_one [of kt_example 3]
  by (simp add: kt_wf_def kt_example_def kt_elem_def)

end
