(* ===== verification/Mempool.thy ===== *)
theory Mempool
  imports Ktable
begin

text \<open>
  Memory pools, the first part of \<^verbatim>\<open>kernel/memory.c\<close> and \<^verbatim>\<open>include/memory.h\<close>: the hard-wired
  map of the physical address space with its permissions, the alignment helpers, the search for the pool
  of an area and the memory descriptors of the KIP. The addresses the linker script fixes are the fields
  of \<open>link_syms\<close>.
\<close>

subsection \<open>Pools\<close>

datatype mempool_tag_t =
    MPT_KERNEL_TEXT
  | MPT_KERNEL_DATA
  | MPT_USER_TEXT
  | MPT_USER_DATA
  | MPT_AVAILABLE
  | MPT_DEVICES
  | MPT_UNKNOWN

record mempool_t =
  mp_start :: u32
  mp_end :: u32
  mp_flags :: u32
  mp_tag :: mempool_tag_t

abbreviation (input) MP_KR :: u32 where "MP_KR \<equiv> 0x0001"
abbreviation (input) MP_KW :: u32 where "MP_KW \<equiv> 0x0002"
abbreviation (input) MP_KX :: u32 where "MP_KX \<equiv> 0x0004"
abbreviation (input) MP_UR :: u32 where "MP_UR \<equiv> 0x0010"
abbreviation (input) MP_UW :: u32 where "MP_UW \<equiv> 0x0020"
abbreviation (input) MP_UX :: u32 where "MP_UX \<equiv> 0x0040"
abbreviation (input) MP_NO_FPAGE :: u32 where "MP_NO_FPAGE \<equiv> 0x0000"
abbreviation (input) MP_SRAM :: u32 where "MP_SRAM \<equiv> 0x0100"
abbreviation (input) MP_AHB_RAM :: u32 where "MP_AHB_RAM \<equiv> 0x0200"
abbreviation (input) MP_DEVICES :: u32 where "MP_DEVICES \<equiv> 0x0400"
abbreviation (input) MP_MEMPOOL :: u32 where "MP_MEMPOOL \<equiv> 0x0800"
abbreviation (input) MP_MAP_ALWAYS :: u32 where "MP_MAP_ALWAYS \<equiv> 0x1000"
abbreviation (input) MP_FPAGE_MASK :: u32 where "MP_FPAGE_MASK \<equiv> 0x0F00"
abbreviation (input) INVALID_FPAGE_REGION :: u32 where "INVALID_FPAGE_REGION \<equiv> 0xffffffff"

definition MP_USER_PERM :: "u32 \<Rightarrow> u32" where
  "MP_USER_PERM mpflags = drop_bit 4 (mpflags AND 0xF0)"

definition DECLARE_MEMPOOL :: "u32 \<Rightarrow> u32 \<Rightarrow> u32 \<Rightarrow> mempool_tag_t \<Rightarrow> mempool_t" where
  "DECLARE_MEMPOOL st en fl tg = \<lparr>mp_start = st, mp_end = en, mp_flags = fl, mp_tag = tg\<rparr>"

record link_syms =
  kernel_text_start :: u32
  kernel_text_end :: u32
  user_text_start :: u32
  user_text_end :: u32
  kip_start :: u32
  kip_end :: u32
  kernel_data_end :: u32
  kernel_bss_start :: u32
  kernel_bss_end :: u32
  user_data_start :: u32
  user_data_end :: u32
  user_bss_start :: u32
  user_bss_end :: u32
  mem0_start :: u32
  bitmap_start :: u32
  bitmap_end :: u32
  mem1_start :: u32

datatype board_t = BOARD_OTHER | BOARD_STM32F429DISCOVERY | BOARD_STM32F429NUCLEO

text \<open>The static table \<open>memmap\<close>, in its order (the search returns the first match).\<close>

definition memmap_common :: "link_syms \<Rightarrow> mempool_t list" where
  "memmap_common L =
    [DECLARE_MEMPOOL (kernel_text_start L) (kernel_text_end L) (MP_KR OR MP_KX OR MP_NO_FPAGE) MPT_KERNEL_TEXT,
     DECLARE_MEMPOOL (user_text_start L) (user_text_end L) (MP_UR OR MP_UX OR MP_MEMPOOL OR MP_MAP_ALWAYS) MPT_USER_TEXT,
     DECLARE_MEMPOOL (kip_start L) (kip_end L) (MP_KR OR MP_KW OR MP_UR OR MP_UW OR MP_SRAM) MPT_KERNEL_DATA,
     DECLARE_MEMPOOL (kip_end L) (kernel_data_end L) (MP_KR OR MP_KW OR MP_NO_FPAGE) MPT_KERNEL_DATA,
     DECLARE_MEMPOOL (kernel_bss_start L) (kernel_bss_end L) (MP_KR OR MP_KW OR MP_NO_FPAGE) MPT_KERNEL_DATA,
     DECLARE_MEMPOOL (user_data_start L) (user_data_end L) (MP_UR OR MP_UW OR MP_MEMPOOL OR MP_MAP_ALWAYS) MPT_USER_DATA,
     DECLARE_MEMPOOL (user_bss_start L) (user_bss_end L) (MP_UR OR MP_UW OR MP_MEMPOOL OR MP_MAP_ALWAYS) MPT_USER_DATA,
     DECLARE_MEMPOOL (mem0_start L) 0x20018000 (MP_UR OR MP_UW OR MP_SRAM) MPT_AVAILABLE,
     DECLARE_MEMPOOL (bitmap_start L) (bitmap_end L) (MP_KR OR MP_KW OR MP_NO_FPAGE) MPT_KERNEL_DATA,
     DECLARE_MEMPOOL (mem1_start L) 0x10010000 (MP_UR OR MP_UW OR MP_AHB_RAM) MPT_AVAILABLE,
     DECLARE_MEMPOOL 0x40000000 0x40007800 (MP_UR OR MP_UW OR MP_DEVICES) MPT_DEVICES,
     DECLARE_MEMPOOL 0x40010000 0x40014c00 (MP_UR OR MP_UW OR MP_DEVICES) MPT_DEVICES,
     DECLARE_MEMPOOL 0x40014000 0x40014c00 (MP_UR OR MP_UW OR MP_DEVICES) MPT_DEVICES,
     DECLARE_MEMPOOL 0x40020000 0x40023c00 (MP_UR OR MP_UW OR MP_DEVICES) MPT_DEVICES,
     DECLARE_MEMPOOL 0x40023c00 0x40040000 (MP_UR OR MP_UW OR MP_DEVICES) MPT_DEVICES,
     DECLARE_MEMPOOL 0x50000000 0x50061000 (MP_UR OR MP_UW OR MP_DEVICES) MPT_DEVICES,
     DECLARE_MEMPOOL 0x60000000 0xA0001000 (MP_UR OR MP_UW OR MP_DEVICES) MPT_DEVICES]"

definition memmap_f429 :: "mempool_t list" where
  "memmap_f429 =
    [DECLARE_MEMPOOL 0x40015000 0x40015c00 (MP_UR OR MP_UW OR MP_DEVICES) MPT_DEVICES,
     DECLARE_MEMPOOL 0x40016800 0x40017900 (MP_UR OR MP_UW OR MP_DEVICES) MPT_DEVICES,
     DECLARE_MEMPOOL 0x42470000 0x42470c00 (MP_UR OR MP_UW OR MP_DEVICES) MPT_DEVICES]"

definition memmap_lcd :: "mempool_t list" where
  "memmap_lcd =
    [DECLARE_MEMPOOL 0xD0000000 0xD00A0000 (MP_UR OR MP_UW OR MP_DEVICES) MPT_DEVICES,
     DECLARE_MEMPOOL 0xD00A0000 0xD0140000 (MP_UR OR MP_UW OR MP_DEVICES) MPT_DEVICES]"

definition memmap_of :: "board_t \<Rightarrow> link_syms \<Rightarrow> mempool_t list" where
  "memmap_of b L = memmap_common L @
     (case b of BOARD_OTHER \<Rightarrow> [] | BOARD_STM32F429DISCOVERY \<Rightarrow> memmap_f429 @ memmap_lcd
      | BOARD_STM32F429NUCLEO \<Rightarrow> memmap_f429)"

subsection \<open>Alignment\<close>

definition addr_align_up :: "u32 \<Rightarrow> u32 \<Rightarrow> u32" where
  "addr_align_up addr sz =
     (let mask = NOT (sz - 1);
          aligned = (addr + (sz - 1)) AND mask
      in if aligned < addr then mask else aligned)"

definition addr_align_down :: "u32 \<Rightarrow> u32 \<Rightarrow> u32" where
  "addr_align_down addr sz = addr AND NOT (sz - 1)"

abbreviation (input) CONFIG_SMALLEST_FPAGE_SHIFT :: nat where "CONFIG_SMALLEST_FPAGE_SHIFT \<equiv> 8"

definition CONFIG_SMALLEST_FPAGE_SIZE :: u32 where
  "CONFIG_SMALLEST_FPAGE_SIZE = push_bit CONFIG_SMALLEST_FPAGE_SHIFT 1"

text \<open>\<open>memmap[mpid]\<close>; callers pass an index of the table.\<close>

definition mempool_getbyid :: "mempool_t list \<Rightarrow> int \<Rightarrow> mempool_t option" where
  "mempool_getbyid mm mpid = (if mpid = -1 then None else Some (mm ! nat mpid))"

definition mempool_align :: "mempool_t list \<Rightarrow> int \<Rightarrow> u32 \<Rightarrow> u32" where
  "mempool_align mm mpid addr =
     (if mp_flags (mm ! nat mpid) AND MP_FPAGE_MASK \<noteq> 0
      then addr_align_up addr CONFIG_SMALLEST_FPAGE_SIZE else INVALID_FPAGE_REGION)"

definition mempool_align_base :: "mempool_t list \<Rightarrow> int \<Rightarrow> u32 \<Rightarrow> u32" where
  "mempool_align_base mm mpid addr =
     (if mp_flags (mm ! nat mpid) AND MP_FPAGE_MASK \<noteq> 0
      then addr_align_down addr CONFIG_SMALLEST_FPAGE_SIZE else INVALID_FPAGE_REGION)"

definition addr_is_fpage_aligned :: "u32 \<Rightarrow> bool" where
  "addr_is_fpage_aligned addr \<longleftrightarrow> addr AND (CONFIG_SMALLEST_FPAGE_SIZE - 1) = 0"

text \<open>The index of the first pool that holds the whole area, -1 if there is none or the area wraps.\<close>

fun mempool_scan :: "int \<Rightarrow> u32 \<Rightarrow> u32 \<Rightarrow> mempool_t list \<Rightarrow> int" where
  "mempool_scan i base fin [] = -1"
| "mempool_scan i base fin (m # ms) =
     (if mp_start m \<le> base \<and> fin \<le> mp_end m then i else mempool_scan (i + 1) base fin ms)"

definition mempool_search :: "mempool_t list \<Rightarrow> u32 \<Rightarrow> u32 \<Rightarrow> int" where
  "mempool_search mm base sz =
     (if 0 < sz \<and> - 1 - sz + 1 < base then -1 else mempool_scan 0 base (base + sz) mm)"

text \<open>The memory descriptors \<open>memory_init\<close> writes to the KIP: base with the pool id, size with the
  tag, for every pool user space may see. Their number is \<open>kip.memory_info.s.n\<close>.\<close>

definition tag_code :: "mempool_tag_t \<Rightarrow> u32" where
  "tag_code t = (case t of MPT_KERNEL_TEXT \<Rightarrow> 0 | MPT_KERNEL_DATA \<Rightarrow> 1 | MPT_USER_TEXT \<Rightarrow> 2
     | MPT_USER_DATA \<Rightarrow> 3 | MPT_AVAILABLE \<Rightarrow> 4 | MPT_DEVICES \<Rightarrow> 5 | MPT_UNKNOWN \<Rightarrow> -1)"

record kip_mem_desc_t =
  desc_base :: u32
  desc_size :: u32

fun mem_descs_from :: "nat \<Rightarrow> mempool_t list \<Rightarrow> kip_mem_desc_t list" where
  "mem_descs_from i [] = []"
| "mem_descs_from i (m # ms) =
     (if mp_tag m \<in> {MPT_USER_DATA, MPT_USER_TEXT, MPT_DEVICES, MPT_AVAILABLE}
      then \<lparr>desc_base = addr_align_up (mp_start m) CONFIG_SMALLEST_FPAGE_SIZE OR of_nat i,
            desc_size = addr_align_up (mp_end m - mp_start m) CONFIG_SMALLEST_FPAGE_SIZE OR tag_code (mp_tag m)\<rparr>
           # mem_descs_from (Suc i) ms
      else mem_descs_from (Suc i) ms)"

subsection \<open>Alignment is what its callers rely on\<close>

lemma unat_pow2: "k < 32 \<Longrightarrow> unat (2 ^ k :: u32) = 2 ^ k"
  using u32_unat_of_nat [of "2 ^ k"] power_strict_increasing [of k 32 "2 :: nat"] by simp

lemma and_not_low_eq: "(x :: u32) AND NOT (2 ^ k - 1) = push_bit k (drop_bit k x)"
  by (rule bit_word_eqI)
    (auto simp: mask_eq_exp_minus_1 [symmetric] bit_and_iff bit_not_iff bit_mask_iff bit_push_bit_iff bit_drop_bit_eq)

lemma unat_and_not_low:
  assumes "k < 32"
  shows "unat ((x :: u32) AND NOT (2 ^ k - 1)) = unat x div 2 ^ k * 2 ^ k"
proof -
  have e: "x AND NOT (2 ^ k - 1) = x div 2 ^ k * 2 ^ k"
    by (simp add: and_not_low_eq push_bit_eq_mult drop_bit_eq_div)
  have d: "unat (x div 2 ^ k) = unat x div 2 ^ k" using assms by (simp add: unat_div unat_pow2)
  have "unat x div 2 ^ k * 2 ^ k \<le> unat x" by simp
  also have "\<dots> < 2 ^ LENGTH(32)" by (rule unsigned_less)
  finally have "unat (x div 2 ^ k) * unat (2 ^ k :: u32) < 2 ^ LENGTH(32)"
    using assms by (simp add: d unat_pow2)
  then have "unat (x div 2 ^ k * 2 ^ k) = unat (x div 2 ^ k) * unat (2 ^ k :: u32)"
    by (simp only: unat_mult_lem [symmetric])
  then show ?thesis using assms by (simp only: e d unat_pow2)
qed

lemma div_mult_ceiling:
  fixes a m :: nat
  assumes "0 < m"
  shows "a \<le> (a + (m - 1)) div m * m" and "(a + (m - 1)) div m * m < a + m"
proof -
  have "(a + (m - 1)) div m * m + (a + (m - 1)) mod m = a + (m - 1)" by (rule div_mult_mod_eq)
  moreover have "(a + (m - 1)) mod m < m" using assms by simp
  ultimately show "a \<le> (a + (m - 1)) div m * m" "(a + (m - 1)) div m * m < a + m" using assms by linarith+
qed

lemma pred_div: "0 < (m :: nat) \<Longrightarrow> 0 < c \<Longrightarrow> (c * m - 1) div m = c - 1"
proof -
  assume m: "0 < m" and "0 < c"
  then obtain d where c: "c = Suc d" by (cases c) auto
  have "c * m - 1 = (m - 1) + d * m" using m by (simp add: c)
  then have "(c * m - 1) div m = d + (m - 1) div m" using div_mult_self1 [of m "m - 1" d] m by simp
  then show ?thesis using m by (simp add: c)
qed

text \<open>Rounding up to a power of two \<open>2 ^ k\<close> gives a multiple of it, at most
  \<open>2 ^ k - 1\<close> above the address, or, for an address beyond the last multiple, that last multiple;
  rounding down gives the multiple at most \<open>2 ^ k - 1\<close> below.\<close>

theorem addr_align_correct:
  assumes k: "k < 32"
  shows "unat (addr_align_up a (2 ^ k)) mod 2 ^ k = 0 \<and>
     (if unat a \<le> 2 ^ 32 - 2 ^ k
      then unat a \<le> unat (addr_align_up a (2 ^ k)) \<and> unat (addr_align_up a (2 ^ k)) < unat a + 2 ^ k
      else unat (addr_align_up a (2 ^ k)) = 2 ^ 32 - 2 ^ k) \<and>
     unat (addr_align_down a (2 ^ k)) mod 2 ^ k = 0 \<and>
     unat (addr_align_down a (2 ^ k)) \<le> unat a \<and> unat a < unat (addr_align_down a (2 ^ k)) + 2 ^ k"
proof -
  define m :: nat where "m = 2 ^ k"
  have m: "0 < m" "m \<le> 2 ^ 31" using k by (auto simp: m_def intro: power_increasing [of k 31 "2 :: nat", simplified])
  have m32: "2 ^ 32 = 2 ^ (32 - k) * m" using k by (simp add: m_def power_add [symmetric])
  have s1: "unat (2 ^ k - 1 :: u32) = m - 1"
    using unat_pow2 [OF k] m(1) by (simp add: m_def unat_sub_if' word_le_nat_alt)
  have down: "unat (addr_align_down a (2 ^ k)) = unat a div m * m"
    using unat_and_not_low [OF k] by (simp add: addr_align_down_def m_def)
  let ?al = "(a + (2 ^ k - 1)) AND NOT (2 ^ k - 1)"
  have ual: "unat ?al = unat (a + (2 ^ k - 1)) div m * m" using unat_and_not_low [OF k] by (simp add: m_def)
  have a32: "unat a < 2 ^ 32" using unsigned_less [of a] by simp
  have nm: "unat (NOT (2 ^ k - 1) :: u32) = 2 ^ 32 - m"
  proof -
    have "NOT (2 ^ k - 1 :: u32) = - 1 AND NOT (2 ^ k - 1)" by simp
    then have "unat (NOT (2 ^ k - 1) :: u32) = (2 ^ 32 - 1) div m * m"
      using unat_and_not_low [OF k, of "- 1"] unat_u32_minus_one by (simp add: m_def)
    also have "\<dots> = (2 ^ (32 - k) - 1) * m" unfolding m32 using pred_div [OF m(1), of "2 ^ (32 - k)"] by simp
    also have "\<dots> = 2 ^ 32 - m" unfolding m32 by (simp add: diff_mult_distrib)
    finally show ?thesis .
  qed
  have up: "unat (addr_align_up a (2 ^ k)) =
      (if unat a \<le> 2 ^ 32 - m then (unat a + (m - 1)) div m * m else 2 ^ 32 - m)"
  proof (cases "unat a \<le> 2 ^ 32 - m")
    case True
    then have "unat (a + (2 ^ k - 1)) = unat a + (m - 1)"
      using m s1 by (subst unat_add_lem [THEN iffD1]) auto
    then have e: "unat ?al = (unat a + (m - 1)) div m * m" using ual by simp
    then have "\<not> ?al < a" using div_mult_ceiling(1) [OF m(1), of "unat a"] by (simp add: word_less_nat_alt)
    then show ?thesis using True e by (simp add: addr_align_up_def Let_def)
  next
    case False
    then have "unat (a + (2 ^ k - 1)) = unat a + (m - 1) - 2 ^ 32"
      using a32 m s1 by (simp add: unat_plus_if')
    then have "unat (a + (2 ^ k - 1)) < m" using a32 m by simp
    then have "unat ?al = 0" using ual by simp
    moreover have "0 < unat a" using False m by linarith
    ultimately have "?al < a" by (simp add: word_less_nat_alt)
    then show ?thesis using False nm by (simp add: addr_align_up_def Let_def)
  qed
  define c d where "c = (unat a + (m - 1)) div m * m" and "d = unat a div m * m"
  have "(2 ^ 32 - m) mod m = 0" unfolding m32 by (metis diff_mult_distrib mod_mult_self2_is_0 mult_1)
  moreover have "c mod m = 0" "d mod m = 0" by (simp_all add: c_def d_def)
  moreover have "d + unat a mod m = unat a" "unat a mod m < m" using m by (simp_all add: d_def)
  then have "d \<le> unat a" "unat a < d + m" by linarith+
  moreover have "unat a \<le> c" "c < unat a + m"
    unfolding c_def by (fact div_mult_ceiling [OF m(1), of "unat a"])+
  ultimately show ?thesis
    unfolding up down m_def [symmetric] c_def [symmetric] d_def [symmetric] by simp
qed

theorem addr_align_correct_witness:
  "unat (addr_align_up 0x20000101 (2 ^ 8)) mod 2 ^ 8 = 0 \<and> unat (addr_align_up 0xFFFFFF01 (2 ^ 8)) = 2 ^ 32 - 2 ^ 8"
  using addr_align_correct [of 8 "0x20000101"] addr_align_correct [of 8 "0xFFFFFF01"] by simp

subsection \<open>Finding the pool of an area\<close>

lemma mempool_scan_spec:
  "mempool_scan i b e ms = -1 - 0 \<and> (\<forall>m \<in> set ms. \<not> (mp_start m \<le> b \<and> e \<le> mp_end m)) \<or>
   (\<exists>n < length ms. mempool_scan i b e ms = i + int n \<and> mp_start (ms ! n) \<le> b \<and> e \<le> mp_end (ms ! n) \<and>
      (\<forall>j < n. \<not> (mp_start (ms ! j) \<le> b \<and> e \<le> mp_end (ms ! j))))"
proof (induction ms arbitrary: i)
  case (Cons m ms)
  show ?case
  proof (cases "mp_start m \<le> b \<and> e \<le> mp_end m")
    case True
    then show ?thesis by (intro disjI2 exI [of _ 0]) simp
  next
    case False
    from Cons.IH [of "i + 1"] show ?thesis
    proof
      assume "mempool_scan (i + 1) b e ms = -1 - 0 \<and> (\<forall>m \<in> set ms. \<not> (mp_start m \<le> b \<and> e \<le> mp_end m))"
      then show ?thesis using False by auto
    next
      assume "\<exists>n < length ms. mempool_scan (i + 1) b e ms = i + 1 + int n \<and> mp_start (ms ! n) \<le> b \<and>
        e \<le> mp_end (ms ! n) \<and> (\<forall>j < n. \<not> (mp_start (ms ! j) \<le> b \<and> e \<le> mp_end (ms ! j)))"
      then obtain n where n: "n < length ms" "mempool_scan (i + 1) b e ms = i + 1 + int n"
        "mp_start (ms ! n) \<le> b \<and> e \<le> mp_end (ms ! n)"
        "\<forall>j < n. \<not> (mp_start (ms ! j) \<le> b \<and> e \<le> mp_end (ms ! j))" by blast
      then have "\<forall>j < Suc n. \<not> (mp_start ((m # ms) ! j) \<le> b \<and> e \<le> mp_end ((m # ms) ! j))"
        using False by (auto simp: less_Suc_eq_0_disj)
      then show ?thesis using False n by (intro disjI2 exI [of _ "Suc n"]) simp
    qed
  qed
qed simp

lemma area_wraps_iff: "0 < sz \<and> - 1 - sz + 1 < base \<longleftrightarrow> 2 ^ 32 < unat (base :: u32) + unat (sz :: u32)"
proof -
  have b: "unat sz < 2 ^ 32" "unat base < 2 ^ 32"
    using unsigned_less [of sz] unsigned_less [of base] by simp_all
  have e: "- 1 - sz + 1 = 0 - sz" by simp
  show ?thesis
  proof (cases "sz = 0")
    case True
    then show ?thesis using b by simp
  next
    case False
    then have "unat (0 - sz) = 2 ^ 32 - unat sz" and "0 < sz"
      using unat_sub_if' [of 0 sz] by (simp_all add: word_le_nat_alt unat_gt_0 word_neq_0_conv)
    then show ?thesis using b unfolding e word_less_nat_alt [of "0 - sz"] by linarith
  qed
qed

lemma mempool_search_facts:
  "case mempool_search mm base sz of
     n \<Rightarrow> (n = -1 \<longleftrightarrow> 2 ^ 32 < unat base + unat sz \<or>
            (\<forall>m \<in> set mm. \<not> (mp_start m \<le> base \<and> base + sz \<le> mp_end m))) \<and>
          (n \<noteq> -1 \<longrightarrow> 0 \<le> n \<and> nat n < length mm \<and> mp_start (mm ! nat n) \<le> base \<and>
             base + sz \<le> mp_end (mm ! nat n) \<and>
             (\<forall>j < nat n. \<not> (mp_start (mm ! j) \<le> base \<and> base + sz \<le> mp_end (mm ! j))))"
proof (cases "2 ^ 32 < unat base + unat sz")
  case True
  then have "mempool_search mm base sz = -1"
    using area_wraps_iff [of sz base] by (auto simp: mempool_search_def)
  then show ?thesis using True by simp
next
  case False
  then have e: "mempool_search mm base sz = mempool_scan 0 base (base + sz) mm"
    using area_wraps_iff [of sz base] by (auto simp: mempool_search_def)
  from mempool_scan_spec [of 0 base "base + sz" mm] show ?thesis
  proof
    assume "mempool_scan 0 base (base + sz) mm = -1 - 0 \<and>
      (\<forall>m \<in> set mm. \<not> (mp_start m \<le> base \<and> base + sz \<le> mp_end m))"
    then show ?thesis using e by simp
  next
    assume "\<exists>n < length mm. mempool_scan 0 base (base + sz) mm = 0 + int n \<and> mp_start (mm ! n) \<le> base \<and>
      base + sz \<le> mp_end (mm ! n) \<and> (\<forall>j < n. \<not> (mp_start (mm ! j) \<le> base \<and> base + sz \<le> mp_end (mm ! j)))"
    then obtain n where n: "n < length mm" "mempool_search mm base sz = int n"
      "mp_start (mm ! n) \<le> base" "base + sz \<le> mp_end (mm ! n)"
      "\<forall>j < n. \<not> (mp_start (mm ! j) \<le> base \<and> base + sz \<le> mp_end (mm ! j))" using e by auto
    then show ?thesis using False nth_mem [OF n(1)] by auto
  qed
qed

text \<open>The pool search returns the first pool that contains the whole area, never a pool the area
  leaves, and -1 exactly when the area runs past the end of the address space or no pool contains it.\<close>

theorem mempool_search_correct:
  "case mempool_search mm base sz of
     n \<Rightarrow> (n = -1 \<longleftrightarrow> 2 ^ 32 < unat base + unat sz \<or>
            (\<forall>m \<in> set mm. \<not> (mp_start m \<le> base \<and> base + sz \<le> mp_end m))) \<and>
          (n \<noteq> -1 \<longrightarrow> 0 \<le> n \<and> nat n < length mm \<and> mp_start (mm ! nat n) \<le> base \<and>
             base + sz \<le> mp_end (mm ! nat n) \<and>
             (\<forall>j < nat n. \<not> (mp_start (mm ! j) \<le> base \<and> base + sz \<le> mp_end (mm ! j))))"
  by (rule mempool_search_facts)

definition link_example :: link_syms where
  "link_example = \<lparr>kernel_text_start = 0x08000000, kernel_text_end = 0x08008000,
     user_text_start = 0x08008000, user_text_end = 0x08010000, kip_start = 0x20000000,
     kip_end = 0x20000400, kernel_data_end = 0x20000800, kernel_bss_start = 0x20000800,
     kernel_bss_end = 0x20004000, user_data_start = 0x20004000, user_data_end = 0x20004400,
     user_bss_start = 0x20004400, user_bss_end = 0x20008000, mem0_start = 0x20008000,
     bitmap_start = 0x10000000, bitmap_end = 0x10000100, mem1_start = 0x10000100\<rparr>"

theorem mempool_search_correct_witness:
  "mempool_search (memmap_of BOARD_OTHER link_example) 0x20008100 0x200 = 7 \<and>
   mempool_search (memmap_of BOARD_OTHER link_example) 0xFFFFFF00 0x200 = -1"
  using mempool_search_correct [of "memmap_of BOARD_OTHER link_example" "0xFFFFFF00" "0x200"]
  by (simp add: mempool_search_def memmap_of_def memmap_common_def link_example_def DECLARE_MEMPOOL_def)

text \<open>The kernel's own pools other than the KIP are never mappable.\<close>

lemma memmap_kernel_not_mappable:
  assumes "m \<in> set (memmap_of b L)" and "mp_tag m \<in> {MPT_KERNEL_TEXT, MPT_KERNEL_DATA}"
    and "mp_flags m AND MP_FPAGE_MASK \<noteq> 0"
  shows "mp_start m = kip_start L \<and> mp_end m = kip_end L"
  using assms
  by (auto simp: memmap_of_def memmap_common_def memmap_f429_def memmap_lcd_def DECLARE_MEMPOOL_def
      split: board_t.splits)

end
