(* ===== verification/Fpage.thy ===== *)
theory Fpage
  imports Mempool
begin

text \<open>
  Flexible pages: \<^verbatim>\<open>include/fpage.h\<close> and \<^verbatim>\<open>kernel/fpage.c\<close>. An fpage is a region of
  \<open>2 ^ shift\<close> bytes the MPU can hold; an address space is a list of them through
  \<open>as_next\<close>, the mappings of one region form a circular list through \<open>map_next\<close>. Fpages and
  address spaces live in kernel tables and are addressed by pointers, so the state is two stores and two
  tables. Bit fields are words of their width. A walk along a list is bounded by \<open>WALK_FUEL\<close>, one
  more than the \<open>CONFIG_MAX_FPAGES\<close> elements of the table: a walk along an acyclic list of table
  elements never uses it up, and a cyclic list, on which the C code does not stop, gives
  \<open>Fault (Diverges _)\<close>.
\<close>

subsection \<open>Data\<close>

datatype map_action_t = MAP | GRANT | UNMAP

record as_t =
  as_spaceid :: u32
  first :: ptr
  mpu_first :: ptr
  mpu_stack_first :: ptr
  shared :: u32

record fpage_t =
  as_next :: ptr
  map_next :: ptr
  mpu_next :: ptr
  fp_base :: u32
  fp_mpid :: "6 word"
  fp_flags :: "6 word"
  fp_shift :: u16
  fp_rwx :: "4 word"

abbreviation (input) FPAGE_ALWAYS :: "6 word" where "FPAGE_ALWAYS \<equiv> 1"
abbreviation (input) FPAGE_CLONE :: "6 word" where "FPAGE_CLONE \<equiv> 2"
abbreviation (input) FPAGE_MAPPED :: "6 word" where "FPAGE_MAPPED \<equiv> 4"

abbreviation (input) CONFIG_MAX_FPAGES :: nat where "CONFIG_MAX_FPAGES \<equiv> 256"
abbreviation (input) CONFIG_LARGEST_FPAGE_SHIFT :: nat where "CONFIG_LARGEST_FPAGE_SHIFT \<equiv> 16"

text \<open>Static variables of the memory subsystem, with the eight regions of the MPU.\<close>

record mstate =
  fpages :: "ptr \<Rightarrow> fpage_t"
  ases :: "ptr \<Rightarrow> as_t"
  fpage_table :: ktable
  as_table :: ktable
  memmap :: "mempool_t list"
  mpu_rbar :: "nat \<Rightarrow> u32"
  mpu_rasr :: "nat \<Rightarrow> u32"
  mpu_ctrl :: u32

definition fp_upd :: "ptr \<Rightarrow> (fpage_t \<Rightarrow> fpage_t) \<Rightarrow> mstate \<Rightarrow> mstate" where
  "fp_upd p f m = m\<lparr>fpages := (fpages m)(p := f (fpages m p))\<rparr>"

definition as_upd :: "ptr \<Rightarrow> (as_t \<Rightarrow> as_t) \<Rightarrow> mstate \<Rightarrow> mstate" where
  "as_upd p f m = m\<lparr>ases := (ases m)(p := f (ases m p))\<rparr>"

definition FPAGE_SIZE :: "fpage_t \<Rightarrow> u32" where
  "FPAGE_SIZE fp = push_bit (unat (fp_shift fp)) 1"

definition FPAGE_END :: "fpage_t \<Rightarrow> u32" where
  "FPAGE_END fp = fp_base fp + FPAGE_SIZE fp"

definition addr_in_fpage :: "u32 \<Rightarrow> fpage_t \<Rightarrow> bool \<Rightarrow> bool" where
  "addr_in_fpage addr fp incl_end \<longleftrightarrow>
     fp_base fp \<le> addr \<and> addr < FPAGE_END fp \<or> incl_end \<and> addr = FPAGE_END fp"

subsection \<open>List slots\<close>

text \<open>
  The code walks with a pointer to a pointer: the head field of an address space or the link field of an
  fpage, on the \<open>as_next\<close> or the \<open>mpu_next\<close> chain.
\<close>

datatype chain_kind = AS_CHAIN | MPU_CHAIN
datatype slot = Head ptr | Link ptr

fun chain_next :: "chain_kind \<Rightarrow> fpage_t \<Rightarrow> ptr" where
  "chain_next AS_CHAIN fp = as_next fp"
| "chain_next MPU_CHAIN fp = mpu_next fp"

fun slot_get :: "chain_kind \<Rightarrow> slot \<Rightarrow> mstate \<Rightarrow> ptr" where
  "slot_get AS_CHAIN (Head a) m = first (ases m a)"
| "slot_get MPU_CHAIN (Head a) m = mpu_first (ases m a)"
| "slot_get k (Link p) m = chain_next k (fpages m p)"

fun slot_set :: "chain_kind \<Rightarrow> slot \<Rightarrow> ptr \<Rightarrow> mstate \<Rightarrow> mstate" where
  "slot_set AS_CHAIN (Head a) v m = as_upd a (first_update (\<lambda>_. v)) m"
| "slot_set MPU_CHAIN (Head a) v m = as_upd a (mpu_first_update (\<lambda>_. v)) m"
| "slot_set AS_CHAIN (Link p) v m = fp_upd p (as_next_update (\<lambda>_. v)) m"
| "slot_set MPU_CHAIN (Link p) v m = fp_upd p (mpu_next_update (\<lambda>_. v)) m"

definition WALK_FUEL :: nat where "WALK_FUEL = 257"

fun remove_from :: "nat \<Rightarrow> chain_kind \<Rightarrow> slot \<Rightarrow> ptr \<Rightarrow> mstate \<Rightarrow> mstate result" where
  "remove_from 0 k cur fpage m = Fault (Diverges ''remove_fpage_from_list'')"
| "remove_from (Suc n) k cur fpage m =
     (let c = slot_get k cur m
      in if c \<noteq> NULL \<and> c \<noteq> fpage then remove_from n k (Link c) fpage m
         else if c \<noteq> NULL then Ok (slot_set k cur (chain_next k (fpages m c)) m)
         else Ok m)"

definition remove_fpage_from_list :: "chain_kind \<Rightarrow> ptr \<Rightarrow> ptr \<Rightarrow> mstate \<Rightarrow> mstate result" where
  "remove_fpage_from_list k as fpage m = remove_from WALK_FUEL k (Head as) fpage m"

subsection \<open>Helpers of \<^verbatim>\<open>kernel/fpage.c\<close>\<close>

text \<open>Trailing zeros; the loop runs on a non-zero address.\<close>

function addr_log2_loop :: "nat \<Rightarrow> u32 \<Rightarrow> nat" where
  "addr_log2_loop sh addr =
     (if addr \<noteq> 0 \<and> addr AND 1 = 0 then addr_log2_loop (Suc sh) (drop_bit 1 addr) else sh)"
  by pat_completeness auto
termination
proof (relation "measure (\<lambda>(sh, addr). unat addr)")
  fix sh and addr :: u32 assume "addr \<noteq> 0 \<and> addr AND 1 = 0"
  then have "0 < unat addr" by (simp add: unat_gt_0)
  then have "unat addr div 2 < unat addr" by simp
  then show "((Suc sh, drop_bit 1 addr), sh, addr) \<in> measure (\<lambda>(sh, addr). unat addr)"
    by (simp add: drop_bit_eq_div unat_div)
qed simp

definition fp_addr_log2 :: "u32 \<Rightarrow> nat" where
  "fp_addr_log2 addr = (if addr = 0 then CONFIG_LARGEST_FPAGE_SHIFT else addr_log2_loop 0 addr)"

function size_log2_loop :: "nat \<Rightarrow> u32 \<Rightarrow> nat" where
  "size_log2_loop sh sz = (if 1 < sz then size_log2_loop (Suc sh) (drop_bit 1 sz) else sh)"
  by pat_completeness auto
termination
proof (relation "measure (\<lambda>(sh, sz). unat sz)")
  fix sh and sz :: u32 assume "1 < sz"
  then have "0 < unat sz" by (simp add: word_less_nat_alt)
  then have "unat sz div 2 < unat sz" by simp
  then show "((Suc sh, drop_bit 1 sz), sh, sz) \<in> measure (\<lambda>(sh, sz). unat sz)"
    by (simp add: drop_bit_eq_div unat_div)
qed simp

definition fp_size_log2 :: "u32 \<Rightarrow> nat" where
  "fp_size_log2 sz = (if sz = 0 then 0 else size_log2_loop 0 sz)"

declare addr_log2_loop.simps [simp del] size_log2_loop.simps [simp del]

definition fpages_init :: "mstate \<Rightarrow> mstate" where
  "fpages_init m = m\<lparr>fpage_table := ktable_init (fpage_table m)\<rparr>"

fun insert_walk :: "nat \<Rightarrow> ptr \<Rightarrow> ptr \<Rightarrow> ptr \<Rightarrow> mstate \<Rightarrow> mstate result" where
  "insert_walk 0 fp fs lst m = Fault (Diverges ''insert_fpage_chain_to_as'')"
| "insert_walk (Suc n) fp fs lst m =
     (let nxt = as_next (fpages m fp)
      in if nxt \<noteq> NULL then
           if fp_base (fpages m lst) < fp_base (fpages m nxt) then
             let m = fp_upd lst (as_next_update (\<lambda>_. nxt)) m
             in Ok (fp_upd fp (as_next_update (\<lambda>_. fs)) m)
           else insert_walk n nxt fs lst m
         else Ok (fp_upd fp (as_next_update (\<lambda>_. fs)) m))"

definition insert_fpage_chain_to_as :: "ptr \<Rightarrow> ptr \<Rightarrow> ptr \<Rightarrow> mstate \<Rightarrow> mstate result" where
  "insert_fpage_chain_to_as as fs lst m =
     (if fs = NULL \<or> lst = NULL then Ok m
      else
        let fp = first (ases m as) in
        if fp = NULL then Ok (as_upd as (first_update (\<lambda>_. fs)) m)
        else if fp_base (fpages m lst) < fp_base (fpages m fp) then
          let m = fp_upd lst (as_next_update (\<lambda>_. first (ases m as))) m
          in Ok (as_upd as (first_update (\<lambda>_. fs)) m)
        else insert_walk WALK_FUEL fp fs lst m)"

definition insert_fpage_to_as :: "ptr \<Rightarrow> ptr \<Rightarrow> mstate \<Rightarrow> mstate result" where
  "insert_fpage_to_as as fpage m = insert_fpage_chain_to_as as fpage fpage m"

definition remove_fpage_from_as :: "ptr \<Rightarrow> ptr \<Rightarrow> mstate \<Rightarrow> mstate result" where
  "remove_fpage_from_as as fp m =
     rbind (remove_fpage_from_list AS_CHAIN as fp m) (remove_fpage_from_list MPU_CHAIN as fp)"

definition create_fpage :: "u32 \<Rightarrow> nat \<Rightarrow> int \<Rightarrow> mstate \<Rightarrow> ptr \<times> mstate" where
  "create_fpage base shift mpid m =
     (case ktable_alloc (fpage_table m) of (fpage, kt) \<Rightarrow>
        let m = m\<lparr>fpage_table := kt\<rparr> in
        if fpage = NULL then (NULL, m)
        else
          let flags = mp_flags (memmap m ! nat mpid);
              m = fp_upd fpage (\<lambda>_. \<lparr>as_next = NULL, map_next = fpage, mpu_next = NULL,
                    fp_base = base, fp_mpid = of_int mpid, fp_flags = 0, fp_shift = of_nat shift,
                    fp_rwx = ucast (MP_USER_PERM flags)\<rparr>) m;
              m = (if flags AND MP_MAP_ALWAYS \<noteq> 0
                   then fp_upd fpage (\<lambda>f. f\<lparr>fp_flags := fp_flags f OR FPAGE_ALWAYS\<rparr>) m else m)
          in (fpage, m))"

definition fpage_table_free :: "ptr \<Rightarrow> mstate \<Rightarrow> mstate" where
  "fpage_table_free p m = m\<lparr>fpage_table := ktable_free (fpage_table m) p\<rparr>"

definition destroy_fpage :: "ptr \<Rightarrow> mstate \<Rightarrow> mstate" where
  "destroy_fpage fpage m = fpage_table_free fpage m"

fun free_chain_walk :: "nat \<Rightarrow> ptr \<Rightarrow> mstate \<Rightarrow> mstate result" where
  "free_chain_walk 0 fp m = Fault (Diverges ''free_fpage_chain'')"
| "free_chain_walk (Suc n) fp m =
     (if fp = NULL then Ok m
      else free_chain_walk n (as_next (fpages m fp)) (fpage_table_free fp m))"

definition free_fpage_chain :: "ptr \<Rightarrow> mstate \<Rightarrow> mstate result" where
  "free_fpage_chain fs m = free_chain_walk WALK_FUEL fs m"

text \<open>The chain of power-of-two regions that tiles an area. The loop carries the local \<open>fpage\<close> and the
  two result pointers; it stops early when the table is full and then leaves the chain incomplete.
\<close>

lemma size_log2_loop_le: "0 < sz \<Longrightarrow> 2 ^ (size_log2_loop sh sz - sh) \<le> unat sz \<and> sh \<le> size_log2_loop sh sz"
proof (induction sh sz rule: size_log2_loop.induct)
  case (1 sh sz)
  show ?case
  proof (cases "1 < sz")
    case False
    then have "size_log2_loop sh sz = sh" by (simp add: size_log2_loop.simps)
    then show ?thesis using "1.prems" by (simp add: unat_gt_0 Suc_le_eq)
  next
    case True
    have u: "unat (drop_bit 1 sz) = unat sz div 2" by (simp add: drop_bit_eq_div unat_div)
    have "2 \<le> unat sz" using True by (simp add: word_less_nat_alt)
    then have "0 < unat (drop_bit 1 sz)" unfolding u by simp
    then have "0 < drop_bit 1 sz" by (simp only: unat_gt_0 word_neq_0_conv)
    from "1.IH" [OF True this]
    have IH: "2 ^ (size_log2_loop (Suc sh) (drop_bit 1 sz) - Suc sh) \<le> unat sz div 2"
      "Suc sh \<le> size_log2_loop (Suc sh) (drop_bit 1 sz)" unfolding u by auto
    have e: "size_log2_loop sh sz = size_log2_loop (Suc sh) (drop_bit 1 sz)"
      using True by (subst size_log2_loop.simps) simp
    then have "size_log2_loop sh sz - sh = Suc (size_log2_loop (Suc sh) (drop_bit 1 sz) - Suc sh)"
      using IH(2) by simp
    then show ?thesis using IH e by simp
  qed
qed

lemma fp_size_log2_le: "sz \<noteq> 0 \<Longrightarrow> 2 ^ fp_size_log2 sz \<le> unat sz"
  using size_log2_loop_le [of sz 0] by (simp add: fp_size_log2_def word_neq_0_conv)

lemma fp_size_log2_less: "fp_size_log2 sz < 32"
proof (cases "sz = 0")
  case False
  have "2 ^ fp_size_log2 sz \<le> unat sz" using False by (rule fp_size_log2_le)
  also have "\<dots> < 2 ^ 32" using unsigned_less [of sz] by simp
  finally show ?thesis by (simp only: power_strict_increasing_iff)
qed (simp add: fp_size_log2_def)

definition chain_shift :: "u32 \<Rightarrow> u32 \<Rightarrow> nat" where
  "chain_shift base sz =
     (let bshift = fp_addr_log2 base; sshift = fp_size_log2 sz
      in if bshift < sshift then bshift else sshift)"

lemma chain_shift_bound: "chain_shift base sz < 32" "sz \<noteq> 0 \<Longrightarrow> 2 ^ chain_shift base sz \<le> unat sz"
proof -
  have le: "chain_shift base sz \<le> fp_size_log2 sz" by (simp add: chain_shift_def Let_def)
  then show "chain_shift base sz < 32" using fp_size_log2_less [of sz] by simp
  assume "sz \<noteq> 0"
  have "(2 :: nat) ^ chain_shift base sz \<le> 2 ^ fp_size_log2 sz" using le by (simp add: power_increasing)
  then show "2 ^ chain_shift base sz \<le> unat sz" using fp_size_log2_le [OF \<open>sz \<noteq> 0\<close>] by (rule order_trans)
qed

lemma unat_push_bit_1: "k < 32 \<Longrightarrow> unat (push_bit k 1 :: u32) = 2 ^ k"
  by (simp add: push_bit_eq_mult unat_pow2)

lemma unat_sub_chunk:
  "sz \<noteq> 0 \<Longrightarrow> unat (sz - push_bit (chain_shift base sz) 1) = unat sz - 2 ^ chain_shift base sz"
  using chain_shift_bound(1) [of base sz] chain_shift_bound(2) [of sz base]
  by (simp add: unat_sub unat_pow2 word_le_nat_alt)

function create_chain_loop ::
  "u32 \<Rightarrow> u32 \<Rightarrow> int \<Rightarrow> ptr \<Rightarrow> ptr \<Rightarrow> ptr \<Rightarrow> mstate \<Rightarrow> (ptr \<times> ptr \<times> mstate) result" where
  "create_chain_loop base sz mpid fpage pfirst plast m =
     (if sz = 0 then Ok (pfirst, plast, m)
      else
        let shift = chain_shift base sz in
        case create_fpage base shift mpid m of (newfp, m) \<Rightarrow>
          if newfp = NULL then Ok (pfirst, plast, m)
          else if pfirst = NULL then
            create_chain_loop (base + push_bit shift 1) (sz - push_bit shift 1) mpid newfp newfp newfp m
          else if fpage = NULL then Fault (Null_deref ''create_fpage_chain'')
          else
            create_chain_loop (base + push_bit shift 1) (sz - push_bit shift 1) mpid newfp pfirst newfp
              (fp_upd fpage (as_next_update (\<lambda>_. newfp)) m))"
  by pat_completeness auto
termination
proof (relation "measure (\<lambda>(base, sz, _). unat sz)")
  have dec: "unat (sz - push_bit (chain_shift base sz) 1) < unat sz" if "sz \<noteq> 0" for base sz
    unfolding unat_sub_chunk [OF that] using that by (simp add: unat_gt_0)
  fix base sz :: u32 and mpid and fpage pfirst plast :: ptr and m x xa y
  assume "sz \<noteq> 0" "x = chain_shift base sz"
  then show "((base + push_bit x 1, sz - push_bit x 1, mpid, xa, xa, xa, y), base, sz, mpid, fpage, pfirst, plast, m)
      \<in> measure (\<lambda>(base, sz, _). unat sz)"
    and "((base + push_bit x 1, sz - push_bit x 1, mpid, xa, pfirst, xa, fp_upd fpage (as_next_update (\<lambda>_. xa)) y),
       base, sz, mpid, fpage, pfirst, plast, m) \<in> measure (\<lambda>(base, sz, _). unat sz)"
    using dec by auto
qed simp

declare create_chain_loop.simps [simp del]

definition create_fpage_chain ::
  "u32 \<Rightarrow> u32 \<Rightarrow> int \<Rightarrow> ptr \<Rightarrow> ptr \<Rightarrow> mstate \<Rightarrow> (ptr \<times> ptr \<times> mstate) result" where
  "create_fpage_chain base sz mpid pfirst plast m = create_chain_loop base sz mpid NULL pfirst plast m"

text \<open>
  \<open>split_fpage\<close> returns the fpage that ends (\<open>rl = 0\<close>) or starts (\<open>rl = 1\<close>) at the
  split point, the fpage itself when there is nothing to split, NULL on failure.
\<close>

definition split_fpage :: "ptr \<Rightarrow> ptr \<Rightarrow> u32 \<Rightarrow> bool \<Rightarrow> mstate \<Rightarrow> (ptr \<times> mstate) result" where
  "split_fpage as fpage split rl m =
     (let f = fpages m fpage;
          base = fp_base f;
          fin = fp_base f + push_bit (unat (fp_shift f)) 1;
          mpid = uint (fp_mpid f)
      in if as = NULL \<or> fpage = NULL then Ok (NULL, m)
         else
           let split = (if rl then mempool_align_base (memmap m) mpid split
                        else mempool_align (memmap m) mpid split)
           in if split \<le> base \<or> fin \<le> split then Ok (fpage, m)
              else if map_next f \<noteq> fpage then Ok (NULL, m)
              else
                rbind (create_fpage_chain base (split - base) mpid NULL NULL m) (\<lambda>(lfirst, llast, m).
                rbind (create_fpage_chain split (fin - split) mpid NULL NULL m) (\<lambda>(rfirst, rlast, m).
                if lfirst = NULL \<or> llast = NULL \<or> rfirst = NULL \<or> rlast = NULL then
                  rbind (free_fpage_chain lfirst m) (\<lambda>m.
                  rbind (free_fpage_chain rfirst m) (\<lambda>m. Ok (NULL, m)))
                else
                  rbind (remove_fpage_from_as as fpage m) (\<lambda>m.
                  let m = fpage_table_free fpage m in
                  rbind (insert_fpage_chain_to_as as lfirst llast m) (\<lambda>m.
                  rbind (insert_fpage_chain_to_as as rfirst rlast m) (\<lambda>m.
                  Ok (if rl then rfirst else llast, m)))))))"

text \<open>
  \<open>assign_fpages_ext\<close> fills the holes of an address space in an area with new fpages. Its loop
  returns \<open>Inl\<close> on the early error return and \<open>Inr\<close> when it ends; the results
  \<open>*pfirst\<close> and \<open>*plast\<close> are threaded through.
\<close>

fun assign_walk :: "nat \<Rightarrow> int \<Rightarrow> u32 \<Rightarrow> u32 \<Rightarrow> slot \<Rightarrow> ptr \<Rightarrow> ptr \<Rightarrow> mstate \<Rightarrow>
    ((ptr \<times> ptr \<times> mstate) + (u32 \<times> slot \<times> ptr \<times> ptr \<times> mstate)) result" where
  "assign_walk 0 mpid base fin fp pfirst plast m = Fault (Diverges ''assign_fpages_ext'')"
| "assign_walk (Suc n) mpid base fin fp pfirst plast m =
     (let c = slot_get AS_CHAIN fp m in
      if \<not> (base < fin \<and> c \<noteq> NULL) then Ok (Inr (base, fp, pfirst, plast, m))
      else if base < fp_base (fpages m c) then
        let sz = (if fin < fp_base (fpages m c) then fin else fp_base (fpages m c)) - base;
            abase = mempool_align (memmap m) mpid base;
            aend = mempool_align (memmap m) mpid (base + sz)
        in if aend \<le> abase then
             assign_walk n mpid (fp_base (fpages m c)) fin (Link c) pfirst plast m
           else
             rbind (create_fpage_chain abase (aend - abase) mpid NULL NULL m) (\<lambda>(fs, lst, m).
             if fs = NULL \<or> lst = NULL then
               rbind (free_fpage_chain fs m) (\<lambda>m. Ok (Inl (pfirst, plast, m)))
             else
               let m = fp_upd lst (as_next_update (\<lambda>_. slot_get AS_CHAIN fp m)) m;
                   m = slot_set AS_CHAIN fp fs m;
                   pfirst = (if pfirst = NULL then fs else pfirst);
                   c = slot_get AS_CHAIN (Link lst) m
               in assign_walk n mpid (FPAGE_END (fpages m c)) fin (Link c) pfirst lst m)
      else if base < FPAGE_END (fpages m c) then
        assign_walk n mpid (FPAGE_END (fpages m c)) fin (Link c) (if pfirst = NULL then c else pfirst) c m
      else assign_walk n mpid base fin (Link c) pfirst plast m)"

definition assign_fpages_ext ::
  "int \<Rightarrow> ptr \<Rightarrow> u32 \<Rightarrow> u32 \<Rightarrow> ptr \<Rightarrow> ptr \<Rightarrow> mstate \<Rightarrow> (int \<times> ptr \<times> ptr \<times> mstate) result" where
  "assign_fpages_ext mpid as base sz pfirst plast m =
     (if sz = 0 then Ok (-1, pfirst, plast, m)
      else
        let mpid = (if mpid = -1 then mempool_search (memmap m) base sz else mpid) in
        if mpid = -1 then Ok (-1, pfirst, plast, m)
        else if mp_flags (memmap m ! nat mpid) AND MP_FPAGE_MASK = 0 then Ok (-1, pfirst, plast, m)
        else
          let fin = base + sz in
          if fin < base then Ok (-1, pfirst, plast, m)
          else if as \<noteq> NULL then
            rbind (assign_walk WALK_FUEL mpid base fin (Head as) pfirst plast m) (\<lambda>r. case r of
              Inl (pfirst, plast, m) \<Rightarrow> Ok (-1, pfirst, plast, m)
            | Inr (base, fp, pfirst, plast, m) \<Rightarrow>
                if base < fin then
                  let sz = fin - base;
                      abase = mempool_align (memmap m) mpid base;
                      aend = mempool_align (memmap m) mpid (base + sz)
                  in rbind (if abase < aend then create_fpage_chain abase (aend - abase) mpid NULL NULL m
                            else Ok (NULL, NULL, m)) (\<lambda>(fs, lst, m).
                     if fs \<noteq> NULL \<and> lst \<noteq> NULL then
                       Ok (0, if pfirst = NULL then fs else pfirst, lst, slot_set AS_CHAIN fp fs m)
                     else Ok (0, pfirst, plast, m))
                else Ok (0, pfirst, plast, m))
          else
            let abase = mempool_align (memmap m) mpid base;
                aend = mempool_align (memmap m) mpid (base + sz)
            in if aend \<le> abase then Ok (-1, pfirst, plast, m)
               else
                 rbind (create_fpage_chain abase (aend - abase) mpid pfirst plast m) (\<lambda>(pfirst, plast, m).
                 if pfirst = NULL \<or> plast = NULL then
                   rbind (free_fpage_chain pfirst m) (\<lambda>m. Ok (-1, NULL, NULL, m))
                 else Ok (0, pfirst, plast, m)))"

definition assign_fpages :: "ptr \<Rightarrow> u32 \<Rightarrow> u32 \<Rightarrow> mstate \<Rightarrow> (int \<times> mstate) result" where
  "assign_fpages as base sz m =
     rbind (assign_fpages_ext (-1) as base sz NULL NULL m) (\<lambda>(r, _, _, m). Ok (r, m))"

definition map_fpage :: "ptr \<Rightarrow> ptr \<Rightarrow> ptr \<Rightarrow> map_action_t \<Rightarrow> mstate \<Rightarrow> (int \<times> mstate) result" where
  "map_fpage src dst fpage action m =
     (if fpage = NULL \<or> dst = NULL then Ok (-1, m)
      else case ktable_alloc (fpage_table m) of (fpmap, kt) \<Rightarrow>
        let m = m\<lparr>fpage_table := kt\<rparr> in
        if fpmap = NULL then Ok (-1, m)
        else
          let f = fpages m fpage;
              m = fp_upd fpmap (\<lambda>g. g\<lparr>as_next := NULL, mpu_next := NULL, fp_base := fp_base f,
                    fp_mpid := fp_mpid f, fp_flags := fp_flags f, fp_shift := fp_shift f, fp_rwx := fp_rwx f\<rparr>) m;
              m = (if action = MAP then fp_upd fpage (\<lambda>f. f\<lparr>fp_flags := fp_flags f OR FPAGE_MAPPED\<rparr>) m else m);
              m = fp_upd fpmap (\<lambda>g. g\<lparr>fp_flags := FPAGE_CLONE OR (fp_flags (fpages m fpage) AND FPAGE_ALWAYS)\<rparr>) m;
              m = fp_upd fpmap (\<lambda>g. g\<lparr>map_next := map_next (fpages m fpage)\<rparr>) m;
              m = fp_upd fpage (map_next_update (\<lambda>_. fpmap)) m
          in rbind (insert_fpage_to_as dst fpmap m) (\<lambda>m. Ok (0, m)))"

text \<open>The search for the predecessor in the circular mapping list; the guard counts down from
  \<open>CONFIG_MAX_FPAGES\<close> and reaching 0 means that no predecessor was found.\<close>

fun unmap_find :: "nat \<Rightarrow> ptr \<Rightarrow> ptr \<Rightarrow> mstate \<Rightarrow> ptr \<times> nat" where
  "unmap_find 0 fpage prev m = (prev, 0)"
| "unmap_find (Suc g) fpage prev m =
     (if map_next (fpages m prev) \<noteq> fpage then
        (if 0 < g then unmap_find g fpage (map_next (fpages m prev)) m else (prev, 0))
      else (prev, Suc g))"

definition unmap_fpage :: "ptr \<Rightarrow> ptr \<Rightarrow> mstate \<Rightarrow> (int \<times> mstate) result" where
  "unmap_fpage as fpage m =
     (if fp_flags (fpages m fpage) AND FPAGE_CLONE = 0 then Ok (-1, m)
      else case unmap_find CONFIG_MAX_FPAGES fpage fpage m of (fpprev, guard) \<Rightarrow>
        if guard = 0 then Ok (-1, m)
        else
          let m = fp_upd fpprev (\<lambda>f. f\<lparr>fp_flags := fp_flags f AND NOT FPAGE_MAPPED\<rparr>) m;
              m = fp_upd fpprev (\<lambda>f. f\<lparr>map_next := map_next (fpages m fpage)\<rparr>) m
          in rbind (remove_fpage_from_as as fpage m) (\<lambda>m. Ok (0, fpage_table_free fpage m)))"

end
