(* ===== verification/Fpage_Chain.thy ===== *)
theory Fpage_Chain
  imports Fpage
begin

text \<open>
  What the fpage operations of \<open>Fpage\<close> do to the lists: \<open>create_fpage_chain\<close> tiles an area
  with aligned power-of-two regions taken fresh from the table, insertion keeps an address space sorted,
  removal deletes one element, and a mapping added to the circular mapping list can be taken out again.
\<close>

subsection \<open>Null-terminated lists\<close>

fun lseg :: "(ptr \<Rightarrow> ptr) \<Rightarrow> ptr \<Rightarrow> ptr list \<Rightarrow> ptr \<Rightarrow> bool" where
  "lseg nxt p [] q \<longleftrightarrow> p = q"
| "lseg nxt p (x # xs) q \<longleftrightarrow> p = x \<and> x \<noteq> NULL \<and> lseg nxt (nxt x) xs q"

abbreviation slist :: "(ptr \<Rightarrow> ptr) \<Rightarrow> ptr \<Rightarrow> ptr list \<Rightarrow> bool" where
  "slist nxt p xs \<equiv> lseg nxt p xs NULL"

lemma lseg_cong: "(\<And>x. x \<in> set xs \<Longrightarrow> nxt' x = nxt x) \<Longrightarrow> lseg nxt' p xs q = lseg nxt p xs q"
  by (induction xs arbitrary: p) auto

lemma lseg_upd [simp]: "x \<notin> set xs \<Longrightarrow> lseg (nxt(x := v)) p xs q = lseg nxt p xs q"
  by (rule lseg_cong) auto

lemma lseg_append: "lseg nxt p (xs @ ys) q \<longleftrightarrow> (\<exists>r. lseg nxt p xs r \<and> lseg nxt r ys q)"
  by (induction xs arbitrary: p) auto

lemma slist_hd: "slist nxt p xs \<Longrightarrow> p = (if xs = [] then NULL else hd xs)"
  by (cases xs) auto

lemma slist_not_null: "slist nxt p xs \<Longrightarrow> NULL \<notin> set xs"
  by (induction xs arbitrary: p) auto

lemma slist_unique: "slist nxt p xs \<Longrightarrow> slist nxt p ys \<Longrightarrow> xs = ys"
proof (induction xs arbitrary: p ys)
  case Nil
  then show ?case by (cases ys) auto
next
  case (Cons x xs)
  then show ?case by (cases ys) auto
qed

lemma slist_suffix: "slist nxt p (xs @ y # ys) \<Longrightarrow> slist nxt y (y # ys)"
  by (induction xs arbitrary: p) auto

lemma slist_distinct: "slist nxt p xs \<Longrightarrow> distinct xs"
proof (induction xs arbitrary: p)
  case (Cons x xs)
  then have "distinct xs" by auto
  moreover have "x \<notin> set xs"
  proof
    assume "x \<in> set xs"
    then obtain ys zs where s: "xs = ys @ x # zs" by (meson split_list)
    have "slist nxt x (x # zs)" using Cons.prems s slist_suffix [of nxt p "x # ys" x zs] by simp
    moreover have "slist nxt x (x # xs)" using Cons.prems by auto
    ultimately have "x # zs = x # xs" by (rule slist_unique)
    then show False using s by simp
  qed
  ultimately show ?case by simp
qed simp

subsection \<open>Shifts\<close>

lemma addr_log2_loop_dvd:
  "a \<noteq> 0 \<Longrightarrow> sh \<le> addr_log2_loop sh a \<and> 2 ^ (addr_log2_loop sh a - sh) dvd unat a \<and>
     (\<forall>k. 2 ^ k dvd unat a \<longrightarrow> k \<le> addr_log2_loop sh a - sh)"
proof (induction sh a rule: addr_log2_loop.induct)
  case (1 sh a)
  have odd: "a AND 1 = 0 \<longleftrightarrow> even (unat a)"
    using and_push_bit_1_eq_0 [of 0 a] bit_unsigned_iff [where 'a = nat and w = a and n = 0] by (simp add: bit_0)
  show ?case
  proof (cases "a AND 1 = 0")
    case True
    then have ev: "even (unat a)" using odd by simp
    have u: "unat (drop_bit 1 a) = unat a div 2" by (simp add: drop_bit_eq_div unat_div)
    have ne: "drop_bit 1 a \<noteq> 0"
    proof
      assume "drop_bit 1 a = 0"
      then have "unat a div 2 = 0" using u by simp
      then show False using ev "1.prems" by (auto simp: div_eq_0_iff less_2_cases_iff unat_eq_zero)
    qed
    have IH: "Suc sh \<le> addr_log2_loop (Suc sh) (drop_bit 1 a)"
      "2 ^ (addr_log2_loop (Suc sh) (drop_bit 1 a) - Suc sh) dvd unat a div 2"
      "\<And>k. 2 ^ k dvd unat a div 2 \<Longrightarrow> k \<le> addr_log2_loop (Suc sh) (drop_bit 1 a) - Suc sh"
      using "1.IH" [OF _ ne] True "1.prems" unfolding u by auto
    have e: "addr_log2_loop sh a = addr_log2_loop (Suc sh) (drop_bit 1 a)"
      using True "1.prems" by (subst addr_log2_loop.simps) simp
    have s: "addr_log2_loop sh a - sh = Suc (addr_log2_loop (Suc sh) (drop_bit 1 a) - Suc sh)"
      using IH(1) e by simp
    have a2: "unat a = 2 * (unat a div 2)" using ev by simp
    have "2 ^ (addr_log2_loop sh a - sh) dvd unat a"
      unfolding s power_Suc by (subst a2) (rule mult_dvd_mono [OF dvd_refl IH(2)])
    moreover have "k \<le> addr_log2_loop sh a - sh" if "2 ^ k dvd unat a" for k
    proof (cases k)
      case (Suc j)
      then have "2 * 2 ^ j dvd 2 * (unat a div 2)" using that a2 by simp
      then show ?thesis using IH(3) [of j] Suc s by simp
    qed simp
    ultimately show ?thesis using IH(1) e by auto
  next
    case False
    then have e: "addr_log2_loop sh a = sh" by (simp add: addr_log2_loop.simps)
    have "k = 0" if "2 ^ k dvd unat a" for k
      using that False odd by (cases k) (auto dest: dvd_mult_left)
    then show ?thesis using e by auto
  qed
qed

lemma size_log2_loop_ge: "2 ^ k \<le> unat sz \<Longrightarrow> k + sh \<le> size_log2_loop sh sz"
proof (induction sh sz arbitrary: k rule: size_log2_loop.induct)
  case (1 sh sz)
  show ?case
  proof (cases "1 < sz")
    case True
    have u: "unat (drop_bit 1 sz) = unat sz div 2" by (simp add: drop_bit_eq_div unat_div)
    have e: "size_log2_loop sh sz = size_log2_loop (Suc sh) (drop_bit 1 sz)"
      using True by (subst size_log2_loop.simps) simp
    have "2 \<le> unat sz" using True by (simp add: word_less_nat_alt)
    then have "2 ^ (k - 1) \<le> unat (drop_bit 1 sz)" using "1.prems" unfolding u by (cases k) auto
    from "1.IH" [OF True this] show ?thesis unfolding e by simp
  next
    case False
    then have "unat sz \<le> 1" by (simp add: word_less_nat_alt)
    then have "2 ^ k \<le> (1 :: nat)" using "1.prems" by simp
    then have "k = 0" by (metis less_exp less_one less_le_trans)
    moreover have "size_log2_loop sh sz = sh" using False by (simp add: size_log2_loop.simps)
    ultimately show ?thesis by simp
  qed
qed

lemma chain_shift_dvd: "2 ^ chain_shift base sz dvd unat base"
proof (cases "base = 0")
  case False
  have "chain_shift base sz \<le> addr_log2_loop 0 base"
    using False by (simp add: chain_shift_def fp_addr_log2_def Let_def)
  then have "(2 :: nat) ^ chain_shift base sz dvd 2 ^ addr_log2_loop 0 base" by (rule le_imp_power_dvd)
  then show ?thesis using addr_log2_loop_dvd [OF False, of 0] by (auto intro: dvd_trans)
qed simp

lemma chain_shift_ge:
  assumes "2 ^ k dvd unat base" "2 ^ k dvd unat sz" "sz \<noteq> 0" "k \<le> 16"
  shows "k \<le> chain_shift base sz"
proof -
  have "2 ^ k \<le> unat sz" using assms(2,3) by (simp add: dvd_imp_le unat_gt_0)
  then have "k \<le> fp_size_log2 sz" using size_log2_loop_ge [of k sz 0] assms(3) by (simp add: fp_size_log2_def)
  moreover have "k \<le> fp_addr_log2 base"
    using addr_log2_loop_dvd [of base 0] assms(1,4) by (auto simp: fp_addr_log2_def)
  ultimately show ?thesis by (simp add: chain_shift_def Let_def)
qed

subsection \<open>Creating a chain\<close>

abbreviation nextf :: "mstate \<Rightarrow> ptr \<Rightarrow> ptr" where "nextf m \<equiv> \<lambda>p. as_next (fpages m p)"
abbreviation fused :: "mstate \<Rightarrow> ptr set" where "fused m \<equiv> kt_used (fpage_table m)"
abbreviation fslots :: "mstate \<Rightarrow> ptr set" where "fslots m \<equiv> kt_slots (fpage_table m)"

text \<open>Consecutive regions from \<open>a\<close> to \<open>b\<close>, each aligned to its size.\<close>

fun tiles :: "nat \<Rightarrow> fpage_t list \<Rightarrow> nat \<Rightarrow> bool" where
  "tiles a [] b \<longleftrightarrow> a = b"
| "tiles a (f # fs) b \<longleftrightarrow> unat (fp_base f) = a \<and> unat (fp_shift f) < 32 \<and> 2 ^ unat (fp_shift f) dvd a \<and>
     tiles (a + 2 ^ unat (fp_shift f)) fs b"

text \<open>\<open>ps\<close> were free in \<open>m\<close> and are exactly what \<open>m'\<close> has allocated on top; nothing but
  fpages and their table changed.\<close>

definition took :: "mstate \<Rightarrow> mstate \<Rightarrow> ptr list \<Rightarrow> bool" where
  "took m m' ps \<longleftrightarrow> distinct ps \<and> set ps \<subseteq> fslots m - fused m \<and> fused m' = fused m \<union> set ps \<and>
     kt_wf (fpage_table m') \<and> fslots m' = fslots m \<and>
     ases m' = ases m \<and> as_table m' = as_table m \<and> memmap m' = memmap m \<and>
     mpu_rbar m' = mpu_rbar m \<and> mpu_rasr m' = mpu_rasr m \<and> mpu_ctrl m' = mpu_ctrl m"

lemma took_refl [simp]: "kt_wf (fpage_table m) \<Longrightarrow> took m m []"
  by (simp add: took_def)

lemma took_step: "took m m1 [p] \<Longrightarrow> took m1 m2 ps \<Longrightarrow> took m m2 (p # ps)"
  by (auto simp: took_def)

lemma took_fp_upd [simp]: "took m (fp_upd p f m') ps = took m m' ps"
  by (simp add: took_def) (simp add: fp_upd_def)

lemma took_upd_base: "took (fp_upd p f m) m' ps = took m m' ps"
  by (simp add: took_def) (simp add: fp_upd_def)

lemma create_fpage_cases:
  assumes wf: "kt_wf (fpage_table m)" and sh: "sh < 32"
  obtains "create_fpage base sh mpid m = (NULL, m)" "fused m = fslots m"
  | p m' where "create_fpage base sh mpid m = (p, m')" "p \<noteq> NULL" "took m m' [p]"
      "\<And>x. x \<noteq> p \<Longrightarrow> fpages m' x = fpages m x" "fp_base (fpages m' p) = base"
      "unat (fp_shift (fpages m' p)) = sh" "as_next (fpages m' p) = NULL" "map_next (fpages m' p) = p"
proof -
  obtain p kt where a: "ktable_alloc (fpage_table m) = (p, kt)" by (cases "ktable_alloc (fpage_table m)")
  have s: "unat (of_nat sh :: u16) = sh" using sh by (simp add: unat_of_nat take_bit_nat_eq_self)
  show thesis
  proof (cases "p = NULL")
    case True
    then have "kt = fpage_table m" "fused m = fslots m" using kt.alloc_full [OF wf] a by auto
    then show thesis using that(1) a True by (simp add: create_fpage_def)
  next
    case False
    note n = kt.alloc_fresh [OF wf a False] kt.alloc_inv [OF wf a]
    let ?r = "create_fpage base sh mpid m"
    have r: "fst ?r = p" using a False by (simp add: create_fpage_def Let_def fp_upd_def)
    have t: "took m (snd ?r) [p]"
      using n a False by (auto simp: took_def create_fpage_def Let_def fp_upd_def)
    show thesis
    proof (rule that(2) [of p "snd ?r"])
      show "?r = (p, snd ?r)" using r by (metis prod.collapse)
    qed (use a False t s in \<open>auto simp: create_fpage_def Let_def fp_upd_def\<close>)
  qed
qed

lemma unat_add_chunk:
  assumes "sz \<noteq> 0" "unat base + unat sz \<le> 2 ^ 32"
  shows "unat (sz - push_bit (chain_shift base sz) 1) = unat sz - 2 ^ chain_shift base sz"
    and "sz - push_bit (chain_shift base sz) 1 \<noteq> 0 \<Longrightarrow>
      unat (base + push_bit (chain_shift base sz) 1) = unat base + 2 ^ chain_shift base sz"
    and "2 ^ chain_shift base sz \<le> unat sz"
    and "unat (base + push_bit (chain_shift base sz) 1) + unat (sz - push_bit (chain_shift base sz) 1) \<le> 2 ^ 32"
proof -
  show u: "unat (sz - push_bit (chain_shift base sz) 1) = unat sz - 2 ^ chain_shift base sz"
    using assms(1) by (rule unat_sub_chunk)
  show le: "2 ^ chain_shift base sz \<le> unat sz" using assms(1) by (rule chain_shift_bound(2))
  have n: "unat (base + push_bit (chain_shift base sz) 1) = unat base + 2 ^ chain_shift base sz"
    if "sz - push_bit (chain_shift base sz) 1 \<noteq> 0"
  proof -
  have "0 < unat (sz - push_bit (chain_shift base sz) 1)" using that by (simp only: unat_gt_0 simp_thms)
  then have "unat base + 2 ^ chain_shift base sz < 2 ^ 32" using u assms(2) by linarith
  then show ?thesis
    using unat_push_bit_1 [OF chain_shift_bound(1), of base sz]
    by (subst unat_add_lem [THEN iffD1]) auto
  qed
  then show "sz - push_bit (chain_shift base sz) 1 \<noteq> 0 \<Longrightarrow>
      unat (base + push_bit (chain_shift base sz) 1) = unat base + 2 ^ chain_shift base sz" .
  show "unat (base + push_bit (chain_shift base sz) 1) + unat (sz - push_bit (chain_shift base sz) 1) \<le> 2 ^ 32"
  proof (cases "sz - push_bit (chain_shift base sz) 1 = 0")
    case True
    then show ?thesis
      using u32_unat_bound [of "base + push_bit (chain_shift base sz) 1"] by (simp only: True unsigned_0)
  next
    case False
    then show ?thesis using n u le assms(2) by linarith
  qed
qed

text \<open>\<open>ps\<close>, taken fresh from the table, tile the area, unless the table ran full; an alignment shared by
  base and size is kept by every region.\<close>

definition chained :: "mstate \<Rightarrow> mstate \<Rightarrow> ptr list \<Rightarrow> u32 \<Rightarrow> u32 \<Rightarrow> bool" where
  "chained m m' ps base sz \<longleftrightarrow> took m m' ps \<and>
     (\<exists>b. tiles (unat base) (map (fpages m') ps) b \<and> (b = unat base + unat sz \<or> fused m' = fslots m')) \<and>
     (\<forall>k \<le> 16. 2 ^ k dvd unat base \<longrightarrow> 2 ^ k dvd unat sz \<longrightarrow> (\<forall>p \<in> set ps. k \<le> unat (fp_shift (fpages m' p))))"

lemma chained_Nil: "kt_wf (fpage_table m) \<Longrightarrow> sz = 0 \<or> fused m = fslots m \<Longrightarrow> chained m m [] base sz"
  by (auto simp: chained_def)

lemma chained_Cons:
  assumes t: "took m m1 [p]" and c: "sz' \<noteq> 0 \<Longrightarrow> chained m1 m' ps base' sz'"
    and z: "sz' = 0 \<Longrightarrow> ps = [] \<and> m' = m1"
    and sz: "sz \<noteq> 0" "unat base + unat sz \<le> 2 ^ 32"
    and n: "base' = base + push_bit (chain_shift base sz) 1" "sz' = sz - push_bit (chain_shift base sz) 1"
    and f: "fp_base (fpages m' p) = base" "unat (fp_shift (fpages m' p)) = chain_shift base sz"
  shows "chained m m' (p # ps) base sz"
proof -
  let ?h = "2 ^ chain_shift base sz :: nat"
  note u = unat_add_chunk [OF sz, folded n]
  have hd: "tiles (unat base) (map (fpages m') (p # ps)) b \<longleftrightarrow> tiles (unat base + ?h) (map (fpages m') ps) b" for b
    using f chain_shift_bound(1) [of base sz] chain_shift_dvd [of base sz] by simp
  have low: "k \<le> chain_shift base sz" if "k \<le> 16" "2 ^ k dvd unat base" "2 ^ k dvd unat sz" for k
    using that chain_shift_ge sz(1) by blast
  show ?thesis
  proof (cases "sz' = 0")
    case True
    then have "unat sz = ?h" using u(1,3) by simp
    then have "tiles (unat base + ?h) (map (fpages m') ps) (unat base + unat sz)" using z True by simp
    then have "tiles (unat base) (map (fpages m') (p # ps)) (unat base + unat sz)" by (simp only: hd)
    then show ?thesis using t z True low f(2) unfolding chained_def by fastforce
  next
    case False
    note c = c [OF False]
    have tk: "took m m' (p # ps)" using t c by (auto simp: chained_def intro: took_step)
    obtain b where b: "tiles (unat base') (map (fpages m') ps) b" "b = unat base' + unat sz' \<or> fused m' = fslots m'"
      using c by (auto simp: chained_def)
    have "tiles (unat base) (map (fpages m') (p # ps)) b" using b(1) u(2) False hd by simp
    moreover have "b = unat base + unat sz \<or> fused m' = fslots m'" using b(2) u False by auto
    moreover have "k \<le> unat (fp_shift (fpages m' x))"
      if k: "k \<le> 16" "2 ^ k dvd unat base" "2 ^ k dvd unat sz" and x: "x \<in> set (p # ps)" for k x
    proof -
      have "2 ^ k dvd ?h" using low [OF k] by (rule le_imp_power_dvd)
      then have "2 ^ k dvd unat base'" "2 ^ k dvd unat sz'" using u False k by (auto intro: dvd_diff_nat)
      then show ?thesis using c k x low [OF k] f(2) by (auto simp: chained_def)
    qed
    ultimately show ?thesis using tk unfolding chained_def by blast
  qed
qed

lemma chained_upd_base: "chained (fp_upd p f m) m' ps base sz = chained m m' ps base sz"
  by (simp add: chained_def took_upd_base)

lemma fpages_fp_upd [simp]: "fpages (fp_upd p f m) = (fpages m)(p := f (fpages m p))"
  and fpage_table_fp_upd [simp]: "fpage_table (fp_upd p f m) = fpage_table m"
  and ases_fp_upd [simp]: "ases (fp_upd p f m) = ases m"
  and memmap_fp_upd [simp]: "memmap (fp_upd p f m) = memmap m"
  by (simp_all add: fp_upd_def)

lemma as_upd_sel [simp]:
  "ases (as_upd p f' m) = (ases m)(p := f' (ases m p))" "fpages (as_upd p f' m) = fpages m"
  "fpage_table (as_upd p f' m) = fpage_table m" "memmap (as_upd p f' m) = memmap m"
  "as_table (as_upd p f' m) = as_table m"
  by (simp_all add: as_upd_def)

text \<open>The loop once it has a first element: it appends to \<open>fpage\<close>.\<close>

lemma create_chain_loop_appends:
  assumes "kt_wf (fpage_table m)" and "pfirst \<noteq> NULL" "fpage \<noteq> NULL" "fpage \<in> fused m"
    and "as_next (fpages m fpage) = NULL" and "unat base + unat sz \<le> 2 ^ 32"
  shows "\<exists>ps m'. create_chain_loop base sz mpid fpage pfirst fpage m = Ok (pfirst, last (fpage # ps), m') \<and>
    slist (nextf m') (nextf m' fpage) ps \<and> chained m m' ps base sz \<and>
    (\<forall>x. x \<notin> set ps \<longrightarrow> x \<noteq> fpage \<longrightarrow> fpages m' x = fpages m x) \<and>
    fpages m' fpage = (fpages m fpage)\<lparr>as_next := nextf m' fpage\<rparr>"
  using assms
proof (induction "unat sz" arbitrary: base sz fpage m rule: less_induct)
  case less
  note wf = less.prems(1)
  have stop: ?case if "create_chain_loop base sz mpid fpage pfirst fpage m = Ok (pfirst, fpage, m)"
      "sz = 0 \<or> fused m = fslots m"
    using that less.prems by (intro exI [of _ "[]"] exI [of _ m]) (simp add: chained_Nil)
  show ?case
  proof (cases "sz = 0")
    case True
    then show ?thesis by (intro stop) (simp_all add: create_chain_loop.simps)
  next
    case sz: False
    let ?sh = "chain_shift base sz"
    show ?thesis
    proof (rule create_fpage_cases [OF wf chain_shift_bound(1) [of base sz], where base = base and mpid = mpid])
      assume "create_fpage base ?sh mpid m = (NULL, m)" "fused m = fslots m"
      then show ?thesis using sz by (intro stop) (simp_all add: create_chain_loop.simps [of base])
    next
      fix p m1 assume c: "create_fpage base ?sh mpid m = (p, m1)" "p \<noteq> NULL" "took m m1 [p]"
        "\<And>x. x \<noteq> p \<Longrightarrow> fpages m1 x = fpages m x" "fp_base (fpages m1 p) = base"
        "unat (fp_shift (fpages m1 p)) = ?sh" "as_next (fpages m1 p) = NULL" "map_next (fpages m1 p) = p"
      let ?m2 = "fp_upd fpage (as_next_update (\<lambda>_. p)) m1"
      let ?b = "base + push_bit ?sh 1" and ?z = "sz - push_bit ?sh 1"
      note u = unat_add_chunk [OF sz less.prems(6)]
      have pf: "p \<noteq> fpage" "p \<in> fused m1" "kt_wf (fpage_table m1)"
        using c(3) less.prems(4) by (auto simp: took_def)
      have step: "create_chain_loop base sz mpid fpage pfirst fpage m = create_chain_loop ?b ?z mpid p pfirst p ?m2"
        using sz c(1,2) less.prems(2,3) by (simp add: create_chain_loop.simps [of base] Let_def)
      have lt: "unat ?z < unat sz" using u(1,3) sz by (simp only: u(1)) (simp add: unat_gt_0)
      note le = u(4)
      obtain ps m' where r: "create_chain_loop ?b ?z mpid p pfirst p ?m2 = Ok (pfirst, last (p # ps), m')"
          "slist (nextf m') (nextf m' p) ps" "chained ?m2 m' ps ?b ?z"
          "\<And>x. x \<notin> set ps \<Longrightarrow> x \<noteq> p \<Longrightarrow> fpages m' x = fpages ?m2 x"
          "fpages m' p = (fpages ?m2 p)\<lparr>as_next := nextf m' p\<rparr>"
        using less.hyps [OF lt, of ?m2 p ?b] pf c(2,7) less.prems(2) le by auto
      have fr: "fpage \<notin> set (p # ps)"
        using r(3) c(3) less.prems(4) pf by (auto simp: chained_def took_def)
      then have nf: "nextf m' fpage = p" and f': "fpages m' fpage = (fpages m1 fpage)\<lparr>as_next := p\<rparr>"
        using r(4) by simp_all
      have pn: "p \<notin> set ps" using r(3) pf by (auto simp: chained_def took_def)
      have ch: "chained m m' (p # ps) base sz"
      proof (rule chained_Cons [of m ?m2])
        show "took m ?m2 [p]" using c(3) by simp
        show "fp_base (fpages m' p) = base" "unat (fp_shift (fpages m' p)) = ?sh"
          using arg_cong [OF r(5), of fp_base] arg_cong [OF r(5), of fp_shift] c(5,6) pf by simp_all
        show "ps = [] \<and> m' = ?m2" if "?z = 0"
          using r(1) pn unfolding that by (auto simp: create_chain_loop.simps split: if_splits dest: last_in_set)
      qed (use r(3) sz less.prems(6) in simp_all)
      show ?thesis
        using step r(1,2) ch nf f' c(2,4) fr r(4)
        by (intro exI [of _ "p # ps"] exI [of _ m']) auto
    qed
  qed
qed


definition mem_example :: mstate where
  "mem_example = \<lparr>fpages = (\<lambda>_. \<lparr>as_next = 0, map_next = 0, mpu_next = 0, fp_base = 0, fp_mpid = 0,
      fp_flags = 0, fp_shift = 0, fp_rwx = 0\<rparr>),
     ases = (\<lambda>_. \<lparr>as_spaceid = 0, first = 0, mpu_first = 0, mpu_stack_first = 0, shared = 1\<rparr>),
     fpage_table = \<lparr>tname = ''fpage_table'', kbitmap = replicate 8 0, kdata = 0x20001000, knum = 256, ksize = 20\<rparr>,
     as_table = \<lparr>tname = ''as_table'', kbitmap = [0], kdata = 0x20003000, knum = 16, ksize = 20\<rparr>,
     memmap = memmap_of BOARD_OTHER link_example, mpu_rbar = (\<lambda>_. 0), mpu_rasr = (\<lambda>_. 0), mpu_ctrl = 0\<rparr>"


subsection \<open>Removing from a list\<close>

abbreviation nextk :: "chain_kind \<Rightarrow> mstate \<Rightarrow> ptr \<Rightarrow> ptr" where
  "nextk k m \<equiv> \<lambda>p. chain_next k (fpages m p)"

lemma slot_get_set [simp]: "slot_get k sl (slot_set k sl v m) = v"
  by (cases k; cases sl) (simp_all add: as_upd_def fp_upd_def)

lemma slot_set_frame:
  "sl \<noteq> Link p \<Longrightarrow> fpages (slot_set k sl v m) p = fpages m p"
  "sl \<noteq> Head a \<Longrightarrow> ases (slot_set k sl v m) a = ases m a"
  "fpage_table (slot_set k sl v m) = fpage_table m"
  by (cases k; cases sl; simp add: as_upd_def fp_upd_def)+

lemma slot_get_Link [simp]: "slot_get k (Link p) m = chain_next k (fpages m p)"
  by (cases k) simp_all

lemma slot_get_cong:
  "(\<And>p. sl = Link p \<Longrightarrow> fpages m' p = fpages m p) \<Longrightarrow> (\<And>a. sl = Head a \<Longrightarrow> ases m' a = ases m a) \<Longrightarrow>
   slot_get k sl m' = slot_get k sl m"
  by (cases k; cases sl) simp_all

lemma remove_from_spec:
  assumes "slist (nextk k m) (slot_get k sl m) xs" and "length xs < n" and "\<And>p. sl = Link p \<Longrightarrow> p \<notin> set xs"
  shows "\<exists>m'. remove_from n k sl fp m = Ok m' \<and> slist (nextk k m') (slot_get k sl m') (remove1 fp xs) \<and>
    (\<forall>p. p \<notin> set xs \<longrightarrow> sl \<noteq> Link p \<longrightarrow> fpages m' p = fpages m p) \<and>
    (\<forall>a. sl \<noteq> Head a \<longrightarrow> ases m' a = ases m a) \<and> fpage_table m' = fpage_table m"
  using assms
proof (induction xs arbitrary: n sl)
  case Nil
  then obtain n' where "n = Suc n'" by (cases n) auto
  then show ?case using Nil.prems by simp
next
  case (Cons x xs)
  obtain n' where n: "n = Suc n'" using Cons.prems(2) by (cases n) auto
  have x: "slot_get k sl m = x" "x \<noteq> NULL" "slist (nextk k m) (nextk k m x) xs" using Cons.prems(1) by auto
  have dx: "x \<notin> set xs" using slist_distinct [OF Cons.prems(1)] by simp
  show ?case
  proof (cases "x = fp")
    case True
    let ?m = "slot_set k sl (nextk k m x) m"
    have "slist (nextk k ?m) (nextk k m x) xs \<longleftrightarrow> slist (nextk k m) (nextk k m x) xs"
    proof (rule lseg_cong)
      fix y assume "y \<in> set xs"
      then have "sl \<noteq> Link y" using Cons.prems(3) by auto
      then show "nextk k ?m y = nextk k m y" by (simp add: slot_set_frame(1))
    qed
    then show ?thesis using x True n by (auto simp: slot_set_frame)
  next
    case False
    have step: "remove_from n k sl fp m = remove_from n' k (Link x) fp m" using x False n by simp
    obtain m' where m': "remove_from n' k (Link x) fp m = Ok m'"
        "slist (nextk k m') (slot_get k (Link x) m') (remove1 fp xs)"
        "\<And>p. p \<notin> set xs \<Longrightarrow> p \<noteq> x \<Longrightarrow> fpages m' p = fpages m p" "\<And>a. ases m' a = ases m a"
        "fpage_table m' = fpage_table m"
      using Cons.IH [of "Link x" n'] x(3) Cons.prems(2) n dx by auto
    have "slot_get k sl m' = x"
      using x(1) slot_get_cong [of sl m' m k] m'(3,4) Cons.prems(3) by auto
    then show ?thesis using step m' x(2) False by auto
  qed
qed

text \<open>Removing an fpage from a list of an address space (the list of its fpages or its MPU list),
  of at most 256 elements, always ends and deletes exactly that fpage, wherever it stands; a page that is
  not in the list leaves it as it is.\<close>

theorem remove_fpage_from_list_deletes:
  assumes "slist (nextk k m) (slot_get k (Head as) m) xs" and "length xs \<le> 256"
  shows "\<exists>m'. remove_fpage_from_list k as fp m = Ok m' \<and>
    slist (nextk k m') (slot_get k (Head as) m') (remove1 fp xs) \<and>
    (\<forall>p. p \<notin> set xs \<longrightarrow> fpages m' p = fpages m p) \<and> (\<forall>a. a \<noteq> as \<longrightarrow> ases m' a = ases m a)"
  using remove_from_spec [OF assms(1), of WALK_FUEL fp] assms(2)
  by (auto simp: remove_fpage_from_list_def WALK_FUEL_def)

definition two_pages :: mstate where
  "two_pages = mem_example\<lparr>
     fpages := (fpages mem_example)(0x20001000 := (fpages mem_example 0)\<lparr>as_next := 0x20001014, fp_base := 0x20008000, fp_shift := 8\<rparr>,
       0x20001014 := (fpages mem_example 0)\<lparr>fp_base := 0x20008400, fp_shift := 8\<rparr>),
     ases := (ases mem_example)(0x20003000 := (ases mem_example 0)\<lparr>first := 0x20001000\<rparr>)\<rparr>"

theorem remove_fpage_from_list_deletes_witness:
  "\<exists>m'. remove_fpage_from_list AS_CHAIN 0x20003000 0x20001014 two_pages = Ok m' \<and>
     slist (nextk AS_CHAIN m') (slot_get AS_CHAIN (Head 0x20003000) m') [0x20001000]"
proof -
  have "slist (nextk AS_CHAIN two_pages) (slot_get AS_CHAIN (Head 0x20003000) two_pages) [0x20001000, 0x20001014]"
    by (simp add: two_pages_def mem_example_def)
  from remove_fpage_from_list_deletes [OF this, of "0x20001014"] show ?thesis by auto
qed

subsection \<open>Inserting into an address space\<close>

abbreviation base_of :: "mstate \<Rightarrow> ptr \<Rightarrow> u32" where "base_of m \<equiv> \<lambda>p. fp_base (fpages m p)"

text \<open>The position the code chooses: before the first fpage whose base is above the inserted one's.\<close>

definition insert_at :: "(ptr \<Rightarrow> u32) \<Rightarrow> u32 \<Rightarrow> ptr list \<Rightarrow> ptr list \<Rightarrow> ptr list" where
  "insert_at b v cs xs = takeWhile (\<lambda>x. b x \<le> v) xs @ cs @ dropWhile (\<lambda>x. b x \<le> v) xs"

text \<open>Only links change.\<close>

definition relinked :: "mstate \<Rightarrow> mstate \<Rightarrow> bool" where
  "relinked m m' \<longleftrightarrow> (\<forall>p. \<exists>v. fpages m' p = (fpages m p)\<lparr>as_next := v\<rparr>) \<and> fpage_table m' = fpage_table m \<and>
     memmap m' = memmap m"

lemma relinked_upd [simp]: "relinked m m' \<Longrightarrow> relinked m (fp_upd p (as_next_update (\<lambda>_. w)) m')"
  unfolding relinked_def
proof (elim conjE, intro conjI allI)
  fix q assume a: "\<forall>p. \<exists>v. fpages m' p = (fpages m p)\<lparr>as_next := v\<rparr>"
  then obtain v where "fpages m' q = (fpages m q)\<lparr>as_next := v\<rparr>" by blast
  then show "\<exists>v. fpages (fp_upd p (as_next_update (\<lambda>_. w)) m') q = (fpages m q)\<lparr>as_next := v\<rparr>"
    by (cases "q = p") auto
qed (simp_all add: fp_upd_def)

lemma relinked_refl [simp]: "relinked m m"
proof -
  have "fpages m p = (fpages m p)\<lparr>as_next := as_next (fpages m p)\<rparr>" for p by simp
  then show ?thesis unfolding relinked_def by blast
qed

lemma relinked_base: "relinked m m' \<Longrightarrow> fp_base (fpages m' p) = fp_base (fpages m p)"
proof -
  assume "relinked m m'"
  then obtain v where "fpages m' p = (fpages m p)\<lparr>as_next := v\<rparr>" by (auto simp: relinked_def)
  then show ?thesis by simp
qed

lemma slist_join:
  assumes "slist nxt fs cs" "cs \<noteq> []" "slist nxt p ys" "set cs \<inter> set ys = {}"
  shows "slist (nxt(last cs := p)) fs (cs @ ys)"
  using assms
proof (induction cs arbitrary: fs)
  case (Cons c cs)
  show ?case
  proof (cases cs)
    case Nil
    then show ?thesis using Cons.prems by (auto simp del: fun_upd_apply) simp
  next
    case (Cons d ds)
    have "c \<noteq> last cs" using slist_distinct [OF Cons.prems(1)] Cons by auto
    then show ?thesis using Cons.IH [of "nxt c"] Cons.prems Cons by auto
  qed
qed simp

lemma nextf_fp_upd: "nextf (fp_upd p (as_next_update (\<lambda>_. v)) m) = (nextf m)(p := v)"
  by (simp add: fun_eq_iff)

lemma insert_walk_spec:
  assumes "slist (nextf m) x (x # xs)" "slist (nextf m) fs cs" "cs \<noteq> []" "set cs \<inter> set (x # xs) = {}"
    and "length xs < n"
  shows "\<exists>m'. insert_walk n x fs (last cs) m = Ok m' \<and>
    slist (nextf m') x (x # insert_at (base_of m) (base_of m (last cs)) cs xs) \<and>
    relinked m m' \<and> ases m' = ases m \<and> (\<forall>p. p \<notin> set (x # xs) \<union> set cs \<longrightarrow> fpages m' p = fpages m p)"
  using assms
proof (induction xs arbitrary: x n)
  case Nil
  obtain n' where n: "n = Suc n'" using Nil.prems(5) by (cases n) auto
  let ?m = "fp_upd x (as_next_update (\<lambda>_. fs)) m"
  have "insert_walk n x fs (last cs) m = Ok ?m" using Nil.prems n by simp
  moreover have "slist (nextf ?m) x (x # cs)"
    unfolding nextf_fp_upd using Nil.prems by (simp del: fun_upd_apply) simp
  ultimately show ?case by (intro exI [of _ ?m]) (auto simp: insert_at_def)
next
  case (Cons y ys)
  obtain n' where n: "n = Suc n'" using Cons.prems(5) by (cases n) auto
  have y: "nextf m x = y" "y \<noteq> NULL" "x \<noteq> NULL" using Cons.prems(1) by auto
  have sl: "slist (nextf m) y (y # ys)" using Cons.prems(1) by auto
  have xn: "x \<notin> set (y # ys)" "x \<notin> set cs"
    using slist_distinct [OF Cons.prems(1)] Cons.prems(4) by auto
  show ?case
  proof (cases "base_of m (last cs) < base_of m y")
    case True
    let ?m = "fp_upd x (as_next_update (\<lambda>_. fs)) (fp_upd (last cs) (as_next_update (\<lambda>_. y)) m)"
    have "insert_walk n x fs (last cs) m = Ok ?m" using y True n by (simp add: Let_def)
    moreover have "slist ((nextf m)(last cs := y)) fs (cs @ y # ys)"
      using Cons.prems sl by (intro slist_join) auto
    then have "slist (nextf ?m) x (x # cs @ y # ys)"
      unfolding nextf_fp_upd using xn y(3) by (simp del: fun_upd_apply) simp
    moreover have "insert_at (base_of m) (base_of m (last cs)) cs (y # ys) = cs @ y # ys"
      using True [folded not_le] by (simp add: insert_at_def)
    ultimately show ?thesis using Cons.prems(3) by (intro exI [of _ ?m]) auto
  next
    case False
    have "insert_walk n x fs (last cs) m = insert_walk n' y fs (last cs) m" using y False n by (simp add: Let_def)
    moreover have at: "insert_at (base_of m) (base_of m (last cs)) cs (y # ys) =
        y # insert_at (base_of m) (base_of m (last cs)) cs ys"
      using False by (simp add: insert_at_def not_less)
    moreover obtain m' where m': "insert_walk n' y fs (last cs) m = Ok m'"
        "slist (nextf m') y (y # insert_at (base_of m) (base_of m (last cs)) cs ys)" "relinked m m'" "ases m' = ases m"
        "\<And>p. p \<notin> set (y # ys) \<union> set cs \<Longrightarrow> fpages m' p = fpages m p"
      using Cons.IH [OF sl Cons.prems(2,3), of n'] Cons.prems(4,5) n by auto
    moreover have "nextf m' x = y" using m'(5) xn y(1) by simp
    ultimately show ?thesis using y(3) by (intro exI [of _ m']) auto
  qed
qed

lemma insert_fpage_chain_spec:
  assumes xs: "slist (nextf m) (first (ases m as)) xs" and cs: "slist (nextf m) fs cs" "cs \<noteq> []"
    and dj: "set cs \<inter> set xs = {}" and len: "length xs \<le> 256"
  shows "\<exists>m'. insert_fpage_chain_to_as as fs (last cs) m = Ok m' \<and>
    slist (nextf m') (first (ases m' as)) (insert_at (base_of m) (base_of m (last cs)) cs xs) \<and>
    relinked m m' \<and> (\<forall>a. a \<noteq> as \<longrightarrow> ases m' a = ases m a) \<and>
    (\<forall>p. p \<notin> set xs \<union> set cs \<longrightarrow> fpages m' p = fpages m p)"
proof -
  have nn: "fs \<noteq> NULL" "last cs \<noteq> NULL"
    using cs slist_not_null [OF cs(1)] slist_hd [OF cs(1)] by (metis hd_in_set, metis last_in_set)
  have as_fp: "fpages (as_upd a g m') = fpages m'" "relinked m (as_upd a g m') = relinked m m'" for a g m'
    by (simp_all add: as_upd_def relinked_def)
  show ?thesis
  proof (cases xs)
    case Nil
    then have "insert_fpage_chain_to_as as fs (last cs) m = Ok (as_upd as (first_update (\<lambda>_. fs)) m)"
      using xs nn by (simp add: insert_fpage_chain_to_as_def)
    then show ?thesis using Nil cs by (auto simp: as_fp insert_at_def)
  next
    case (Cons x ys)
    have x: "first (ases m as) = x" "x \<noteq> NULL" "slist (nextf m) x (x # ys)" using xs Cons by auto
    show ?thesis
    proof (cases "base_of m (last cs) < base_of m x")
      case True
      let ?m = "as_upd as (first_update (\<lambda>_. fs)) (fp_upd (last cs) (as_next_update (\<lambda>_. x)) m)"
      have "insert_fpage_chain_to_as as fs (last cs) m = Ok ?m"
        using nn x True by (simp add: insert_fpage_chain_to_as_def Let_def)
      moreover have "slist ((nextf m)(last cs := x)) fs (cs @ x # ys)"
        using cs x(3) dj Cons by (intro slist_join) auto
      then have "slist (nextf ?m) fs (cs @ x # ys)" unfolding as_fp nextf_fp_upd .
      moreover have "insert_at (base_of m) (base_of m (last cs)) cs xs = cs @ x # ys"
        using True [folded not_le] Cons by (simp add: insert_at_def)
      ultimately show ?thesis using cs(2) by (intro exI [of _ ?m]) (auto simp: as_fp)
    next
      case False
      have "insert_fpage_chain_to_as as fs (last cs) m = insert_walk WALK_FUEL x fs (last cs) m"
        using nn x False by (simp add: insert_fpage_chain_to_as_def Let_def)
      moreover have "insert_at (base_of m) (base_of m (last cs)) cs xs =
          x # insert_at (base_of m) (base_of m (last cs)) cs ys"
        using False Cons by (simp add: insert_at_def not_less)
      ultimately show ?thesis
        using insert_walk_spec [OF x(3) cs, of WALK_FUEL] dj len Cons x(1) by (auto simp: WALK_FUEL_def)
    qed
  qed
qed

lemma insert_at_Cons: "insert_at b v cs (x # xs) = (if b x \<le> v then x # insert_at b v cs xs else cs @ x # xs)"
  by (simp add: insert_at_def)

lemma insert_at_set_length:
  "set (insert_at b v cs xs) = set cs \<union> set xs \<and> length (insert_at b v cs xs) = length cs + length xs"
proof (induction xs)
  case Nil
  then show ?case by (simp add: insert_at_def)
next
  case (Cons x xs)
  then show ?case by (auto simp: insert_at_Cons)
qed

lemma insert_at_sorted: "sorted (map b xs) \<Longrightarrow> sorted (map b (insert_at b (b f) [f] xs))"
proof (induction xs)
  case Nil
  then show ?case by (simp add: insert_at_def)
next
  case (Cons x xs)
  show ?case
  proof (cases "b x \<le> b f")
    case True
    then show ?thesis using Cons insert_at_set_length [of b "b f" "[f]" xs] by (simp add: insert_at_Cons)
  next
    case False
    then have "b f \<le> b x" using linear [of "b f" "b x"] by blast
    then have "\<forall>y \<in> set xs. b f \<le> b y" using Cons.prems by (auto intro: order_trans)
    then show ?thesis using False \<open>b f \<le> b x\<close> Cons.prems by (simp add: insert_at_Cons)
  qed
qed

text \<open>Inserting an fpage into an address space whose fpages are in address order puts it before the
  first page with a higher base, so the list stays in address order and gains exactly this page; the walk
  ends, no other address space and no field but the links changes.\<close>

theorem insert_fpage_to_as_keeps_order:
  assumes "slist (nextf m) (first (ases m as)) xs" and "sorted (map (base_of m) xs)" and "length xs \<le> 256"
    and "fp \<noteq> NULL" "as_next (fpages m fp) = NULL" "fp \<notin> set xs"
  shows "\<exists>m' ys. insert_fpage_to_as as fp m = Ok m' \<and> slist (nextf m') (first (ases m' as)) ys \<and>
    sorted (map (base_of m') ys) \<and> set ys = insert fp (set xs) \<and> length ys = Suc (length xs) \<and>
    (\<forall>p. fp_base (fpages m' p) = fp_base (fpages m p) \<and> fp_shift (fpages m' p) = fp_shift (fpages m p)) \<and>
    (\<forall>a. a \<noteq> as \<longrightarrow> ases m' a = ases m a)"
proof -
  let ?ys = "insert_at (base_of m) (base_of m fp) [fp] xs"
  have "slist (nextf m) fp [fp]" using assms by simp
  from insert_fpage_chain_spec [OF assms(1) this] obtain m' where m': "insert_fpage_to_as as fp m = Ok m'"
      "slist (nextf m') (first (ases m' as)) ?ys" "relinked m m'" "\<forall>a. a \<noteq> as \<longrightarrow> ases m' a = ases m a"
    using assms by (auto simp: insert_fpage_to_as_def)
  have b: "fp_base (fpages m' p) = fp_base (fpages m p)" "fp_shift (fpages m' p) = fp_shift (fpages m p)" for p
  proof -
    obtain v where "fpages m' p = (fpages m p)\<lparr>as_next := v\<rparr>" using m'(3) by (auto simp: relinked_def)
    then show "fp_base (fpages m' p) = fp_base (fpages m p)" "fp_shift (fpages m' p) = fp_shift (fpages m p)" by simp_all
  qed
  have "set ?ys = insert fp (set xs)" "length ?ys = Suc (length xs)"
    using insert_at_set_length [of "base_of m" "base_of m fp" "[fp]" xs] by simp_all
  then show ?thesis using m' b insert_at_sorted [OF assms(2), of fp]
    by (intro exI [of _ m'] exI [of _ ?ys]) simp
qed

theorem insert_fpage_to_as_keeps_order_witness:
  "\<exists>m' ys. insert_fpage_to_as 0x20003000 0x20001028 (fp_upd 0x20001028 (\<lambda>f. f\<lparr>fp_base := 0x20008200, fp_shift := 8\<rparr>) two_pages) = Ok m' \<and>
     set ys = {0x20001000, 0x20001014, 0x20001028} \<and> sorted (map (base_of m') ys)"
proof -
  let ?m = "fp_upd 0x20001028 (\<lambda>f. f\<lparr>fp_base := 0x20008200, fp_shift := 8\<rparr>) two_pages"
  have "slist (nextf ?m) (first (ases ?m 0x20003000)) [0x20001000, 0x20001014]"
    "sorted (map (base_of ?m) [0x20001000, 0x20001014])"
    "as_next (fpages ?m 0x20001028) = NULL"
    by (simp_all add: two_pages_def mem_example_def)
  from insert_fpage_to_as_keeps_order [OF this(1,2) _ _ this(3)]
  obtain m' ys where "insert_fpage_to_as 0x20003000 0x20001028 ?m = Ok m'"
    "set ys = insert 0x20001028 (set [0x20001000, 0x20001014])" "sorted (map (base_of m') ys)" by auto
  then show ?thesis by (intro exI [of _ m'] exI [of _ ys]) auto
qed

end
