(* ===== verification/Kprobes.thy ===== *)
theory Kprobes
  imports Fpage_Chain
begin

text \<open>
  Kernel probes, \<^verbatim>\<open>kernel/kprobes.c\<close> and \<^verbatim>\<open>platform/kprobes-arch.c\<close>, over the breakpoints of \<^verbatim>\<open>platform/breakpoint.c\<close>:
  comparators of the breakpoint unit for addresses in flash (\<^verbatim>\<open>platform/breakpoint-hard.c\<close>) and patched instructions for
  addresses in RAM (\<^verbatim>\<open>platform/breakpoint-soft.c\<close>). The arrays are functions of their index; every scan is bounded as in the code.
  A breakpoint is named by its index in the pool, its three functions by the kind that installed them.
\<close>

subsection \<open>State\<close>

datatype bkpt_type = BKPT_NONE | BKPT_HARD | BKPT_SOFT

record breakpoint =
  bk_type :: bkpt_type
  bk_raw :: u16
  bk_addr :: u32
  bk_ops :: bkpt_type

datatype kp_handler = No_handler | User_handler nat | Kretprobe_pre | Kretprobe_post

record kprobe =
  kp_addr :: u32
  kp_pre :: kp_handler
  kp_post :: kp_handler
  kp_bkpt :: nat
  kp_step :: u32
  kp_next :: ptr
  rp_handler :: kp_handler
  rp_backup :: u32

record kp_state =
  kp_list :: ptr
  kps :: "ptr \<Rightarrow> kprobe"
  breakpoints :: "nat \<Rightarrow> breakpoint"
  hard_breakpoints :: "nat \<Rightarrow> int"
  fpb_comp :: "nat \<Rightarrow> u32"
  fpb_num_comp :: nat
  code :: "u32 \<Rightarrow> u16"
  kp_calls :: "(nat \<times> ptr) list"       \<comment> \<open>handlers of the user called so far\<close>

abbreviation (input) BKPT_MAX_NUM :: nat where "BKPT_MAX_NUM \<equiv> 10"
abbreviation (input) FPB_MAX_COMP :: nat where "FPB_MAX_COMP \<equiv> 6"

definition FPB_COMP_ADDR_MASK :: u32 where "FPB_COMP_ADDR_MASK = 0x1FFFFFFC"
definition FPB_COMP_ENABLE :: u32 where "FPB_COMP_ENABLE = push_bit 0 1"
definition FPB_COMP_REPLACE_LOWER :: u32 where "FPB_COMP_REPLACE_LOWER = push_bit 30 1"
definition FPB_COMP_REPLACE_UPPER :: u32 where "FPB_COMP_REPLACE_UPPER = push_bit 31 1"

definition kp_upd :: "ptr \<Rightarrow> (kprobe \<Rightarrow> kprobe) \<Rightarrow> kp_state \<Rightarrow> kp_state" where
  "kp_upd p f s = s\<lparr>kps := (kps s)(p := f (kps s p))\<rparr>"

definition bk_upd :: "nat \<Rightarrow> (breakpoint \<Rightarrow> breakpoint) \<Rightarrow> kp_state \<Rightarrow> kp_state" where
  "bk_upd j f s = s\<lparr>breakpoints := (breakpoints s)(j := f (breakpoints s j))\<rparr>"

subsection \<open>Breakpoints\<close>

definition breakpoint_type_by_addr :: "u32 \<Rightarrow> bkpt_type" where
  "breakpoint_type_by_addr addr = (if addr < 0x20000000 then BKPT_HARD else BKPT_SOFT)"

definition get_avail_hard_breakpoint :: "kp_state \<Rightarrow> nat option" where
  "get_avail_hard_breakpoint s = find (\<lambda>i. hard_breakpoints s i = -1) [0..<fpb_num_comp s]"

text \<open>\<open>ctrl\<close> is what the control register reads after the enable bit was written.\<close>

definition detect_fpb_hardware :: "u32 \<Rightarrow> nat" where
  "detect_fpb_hardware ctrl =
     (if ctrl AND 1 = 0 then 0
      else min (unat ((drop_bit 4 ctrl AND 0xF) OR push_bit 4 (drop_bit 12 ctrl AND 0x7))) FPB_MAX_COMP)"

definition hard_breakpoint_pool_init :: "u32 \<Rightarrow> kp_state \<Rightarrow> kp_state" where
  "hard_breakpoint_pool_init ctrl s =
     (let n = detect_fpb_hardware ctrl in
      s\<lparr>fpb_num_comp := n, hard_breakpoints := (\<lambda>i. if i < n then -1 else hard_breakpoints s i),
        fpb_comp := (\<lambda>i. if i < n then 0 else fpb_comp s i)\<rparr>)"

definition breakpoint_pool_init :: "u32 \<Rightarrow> kp_state \<Rightarrow> kp_state" where
  "breakpoint_pool_init ctrl s =
     hard_breakpoint_pool_init ctrl
       (s\<lparr>breakpoints := (\<lambda>i. if i < FPB_MAX_COMP then (breakpoints s i)\<lparr>bk_type := BKPT_NONE, bk_addr := 0, bk_raw := 0\<rparr> else breakpoints s i)\<rparr>)"

definition hard_breakpoint_config :: "u32 \<Rightarrow> nat \<Rightarrow> kp_state \<Rightarrow> nat option \<times> kp_state" where
  "hard_breakpoint_config addr b s =
     (if fpb_num_comp s = 0 then (None, s)
      else if breakpoint_type_by_addr addr = BKPT_HARD then
        (case get_avail_hard_breakpoint s of
           None \<Rightarrow> (None, s)
         | Some h \<Rightarrow> (Some b, bk_upd b (\<lambda>k. k\<lparr>bk_type := BKPT_HARD, bk_addr := addr, bk_raw := of_nat h, bk_ops := BKPT_HARD\<rparr>)
                        (s\<lparr>hard_breakpoints := (hard_breakpoints s)(h := int b)\<rparr>)))
      else (None, s))"

definition soft_breakpoint_config :: "u32 \<Rightarrow> nat \<Rightarrow> kp_state \<Rightarrow> nat option \<times> kp_state" where
  "soft_breakpoint_config addr b s =
     (if breakpoint_type_by_addr addr = BKPT_SOFT
      then (Some b, bk_upd b (\<lambda>k. k\<lparr>bk_type := BKPT_SOFT, bk_addr := addr, bk_raw := code s addr, bk_ops := BKPT_SOFT\<rparr>) s)
      else (None, s))"

definition breakpoint_config :: "nat \<Rightarrow> u32 \<Rightarrow> kp_state \<Rightarrow> nat option \<times> kp_state" where
  "breakpoint_config b addr s = (case breakpoint_type_by_addr addr of
     BKPT_HARD \<Rightarrow> hard_breakpoint_config addr b s
   | BKPT_SOFT \<Rightarrow> soft_breakpoint_config addr b s
   | BKPT_NONE \<Rightarrow> (None, s))"

definition breakpoint_install :: "u32 \<Rightarrow> kp_state \<Rightarrow> nat option \<times> kp_state" where
  "breakpoint_install addr s = (case find (\<lambda>i. bk_type (breakpoints s i) = BKPT_NONE) [0..<BKPT_MAX_NUM] of
     None \<Rightarrow> (None, s)
   | Some i \<Rightarrow> breakpoint_config i addr s)"

definition hard_comp :: "u32 \<Rightarrow> u32" where
  "hard_comp addr = (if addr AND 2 \<noteq> 0 then FPB_COMP_REPLACE_UPPER else FPB_COMP_REPLACE_LOWER) OR (addr AND FPB_COMP_ADDR_MASK) OR FPB_COMP_ENABLE"

definition comp_upd :: "nat \<Rightarrow> u32 \<Rightarrow> kp_state \<Rightarrow> kp_state" where
  "comp_upd h w s = s\<lparr>fpb_comp := (fpb_comp s)(h := w)\<rparr>"

definition hard_id :: "nat \<Rightarrow> kp_state \<Rightarrow> nat" where
  "hard_id b s = unat (bk_raw (breakpoints s b))"

definition hard_breakpoint_enable :: "nat \<Rightarrow> kp_state \<Rightarrow> kp_state" where
  "hard_breakpoint_enable b s = comp_upd (hard_id b s) (hard_comp (bk_addr (breakpoints s b))) s"

definition hard_breakpoint_disable :: "nat \<Rightarrow> kp_state \<Rightarrow> kp_state" where
  "hard_breakpoint_disable b s = comp_upd (hard_id b s) (fpb_comp s (hard_id b s) AND NOT FPB_COMP_ENABLE) s"

definition hard_breakpoint_release :: "nat \<Rightarrow> kp_state \<Rightarrow> kp_state" where
  "hard_breakpoint_release b s =
     (let h = hard_id b s;
          s = comp_upd h (fpb_comp s h AND NOT FPB_COMP_ENABLE) s
      in bk_upd b (bk_type_update (\<lambda>_. BKPT_NONE)) (s\<lparr>hard_breakpoints := (hard_breakpoints s)(h := -1)\<rparr>))"

definition soft_breakpoint_enable :: "nat \<Rightarrow> kp_state \<Rightarrow> kp_state" where
  "soft_breakpoint_enable b s = s\<lparr>code := (code s)(bk_addr (breakpoints s b) := 0xBE11)\<rparr>"

definition soft_breakpoint_disable :: "nat \<Rightarrow> kp_state \<Rightarrow> kp_state" where
  "soft_breakpoint_disable b s = s\<lparr>code := (code s)(bk_addr (breakpoints s b) := bk_raw (breakpoints s b))\<rparr>"

definition soft_breakpoint_release :: "nat \<Rightarrow> kp_state \<Rightarrow> kp_state" where
  "soft_breakpoint_release b s = bk_upd b (bk_type_update (\<lambda>_. BKPT_NONE)) s"

definition bk_call :: "(nat \<Rightarrow> kp_state \<Rightarrow> kp_state) \<Rightarrow> (nat \<Rightarrow> kp_state \<Rightarrow> kp_state) \<Rightarrow> nat \<Rightarrow> kp_state \<Rightarrow> kp_state result" where
  "bk_call hard soft b s = (case bk_ops (breakpoints s b) of
     BKPT_HARD \<Rightarrow> Ok (hard b s) | BKPT_SOFT \<Rightarrow> Ok (soft b s) | BKPT_NONE \<Rightarrow> Fault (Null_deref ''breakpoint''))"

definition enable_breakpoint :: "nat \<Rightarrow> kp_state \<Rightarrow> kp_state result" where
  "enable_breakpoint = bk_call hard_breakpoint_enable soft_breakpoint_enable"
definition disable_breakpoint :: "nat \<Rightarrow> kp_state \<Rightarrow> kp_state result" where
  "disable_breakpoint = bk_call hard_breakpoint_disable soft_breakpoint_disable"
definition breakpoint_uninstall :: "nat \<Rightarrow> kp_state \<Rightarrow> kp_state result" where
  "breakpoint_uninstall = bk_call hard_breakpoint_release soft_breakpoint_release"

subsection \<open>The list of probes\<close>

text \<open>The walks over the list are bounded by \<open>KP_FUEL\<close>: enough for the lists of at most 256 probes the theorems speak of.\<close>

definition KP_FUEL :: nat where "KP_FUEL = 257"

fun kp_chain :: "nat \<Rightarrow> ptr \<Rightarrow> kp_state \<Rightarrow> ptr list result" where
  "kp_chain 0 p s = Fault (Diverges ''kp_list'')"
| "kp_chain (Suc n) p s = (if p = NULL then Ok [] else rbind (kp_chain n (kp_next (kps s p)) s) (\<lambda>ps. Ok (p # ps)))"

definition kplist_search :: "u32 \<Rightarrow> kp_state \<Rightarrow> ptr result" where
  "kplist_search addr s = rbind (kp_chain KP_FUEL (kp_list s) s) (\<lambda>ps.
     Ok (case find (\<lambda>p. kp_addr (kps s p) = addr) ps of None \<Rightarrow> NULL | Some p \<Rightarrow> p))"

definition kplist_add :: "ptr \<Rightarrow> kp_state \<Rightarrow> kp_state" where
  "kplist_add kp s = (kp_upd kp (kp_next_update (\<lambda>_. kp_list s)) s)\<lparr>kp_list := kp\<rparr>"

definition kplist_del :: "ptr \<Rightarrow> kp_state \<Rightarrow> kp_state result" where
  "kplist_del kp s =
     (if kp_list s = kp then Ok (s\<lparr>kp_list := kp_next (kps s kp)\<rparr>)
      else rbind (kp_chain KP_FUEL (kp_list s) s) (\<lambda>ps.
        Ok (case find (\<lambda>p. kp_next (kps s p) = kp) ps of
              None \<Rightarrow> s
            | Some cur \<Rightarrow> kp_upd cur (kp_next_update (\<lambda>_. kp_next (kps s kp))) s)))"

definition kprobe_arch_add :: "ptr \<Rightarrow> kp_state \<Rightarrow> (int \<times> kp_state) result" where
  "kprobe_arch_add kp s = rbind (kplist_search (kp_addr (kps s kp)) s) (\<lambda>found.
     if found = NULL then
       (case breakpoint_install (kp_addr (kps s kp)) s of
          (None, s) \<Rightarrow> Ok (-1, s)
        | (Some b, s) \<Rightarrow> rbind (enable_breakpoint b (kp_upd kp (kp_bkpt_update (\<lambda>_. b)) s)) (\<lambda>s. Ok (0, s)))
     else Ok (0, kp_upd kp (kp_bkpt_update (\<lambda>_. kp_bkpt (kps s found))) s))"

definition kprobe_arch_del :: "ptr \<Rightarrow> kp_state \<Rightarrow> kp_state result" where
  "kprobe_arch_del kp s = rbind (kplist_search (kp_addr (kps s kp)) s) (\<lambda>found.
     if found = NULL then breakpoint_uninstall (kp_bkpt (kps s kp)) s else Ok s)"

definition kprobe_init :: "u32 \<Rightarrow> kp_state \<Rightarrow> kp_state" where
  "kprobe_init ctrl s = breakpoint_pool_init ctrl (s\<lparr>kp_list := NULL\<rparr>)"

definition is_thumb32 :: "u16 \<Rightarrow> bool" where "is_thumb32 inst \<longleftrightarrow> inst \<ge> 0xE800"

definition kprobe_register :: "ptr \<Rightarrow> kp_state \<Rightarrow> (int \<times> kp_state) result" where
  "kprobe_register kp s =
     (let addr = kp_addr (kps s kp) AND NOT 1;
          s = kp_upd kp (\<lambda>k. k\<lparr>kp_addr := addr, kp_step := addr + (if is_thumb32 (code s addr) then 4 else 2)\<rparr>) s
      in rbind (kprobe_arch_add kp s) (\<lambda>(rc, s). if rc < 0 then Ok (-1, s) else Ok (0, kplist_add kp s)))"

definition kprobe_unregister :: "ptr \<Rightarrow> kp_state \<Rightarrow> kp_state result" where
  "kprobe_unregister kp s = rbind (kplist_del kp s) (kprobe_arch_del kp)"

subsection \<open>Return probes and the exception\<close>

definition kretprobe_register :: "ptr \<Rightarrow> kp_state \<Rightarrow> (int \<times> kp_state) result" where
  "kretprobe_register rp s = kprobe_register rp (kp_upd rp (\<lambda>k. k\<lparr>kp_pre := Kretprobe_pre, kp_post := No_handler\<rparr>) s)"

definition kretprobe_unregister :: "ptr \<Rightarrow> kp_state \<Rightarrow> kp_state result" where
  "kretprobe_unregister rp s = kprobe_unregister rp s"

definition kretprobe_pre_handler :: "ptr \<Rightarrow> u32 \<Rightarrow> kp_state \<Rightarrow> kp_state result" where
  "kretprobe_pre_handler kp lr s = rbind (kprobe_unregister kp s) (\<lambda>s.
     rbind (kprobe_register kp (kp_upd kp (\<lambda>k. k\<lparr>rp_backup := kp_addr k, kp_addr := lr, kp_pre := rp_handler k, kp_post := Kretprobe_post\<rparr>) s))
       (\<lambda>(rc, s). Ok s))"

definition kretprobe_post_handler :: "ptr \<Rightarrow> kp_state \<Rightarrow> kp_state result" where
  "kretprobe_post_handler kp s = rbind (kprobe_unregister kp s) (\<lambda>s.
     rbind (kretprobe_register kp (kp_upd kp (\<lambda>k. k\<lparr>kp_addr := rp_backup k\<rparr>) s)) (\<lambda>(rc, s). Ok s))"

definition kp_run :: "kp_handler \<Rightarrow> ptr \<Rightarrow> u32 \<Rightarrow> kp_state \<Rightarrow> kp_state result" where
  "kp_run h kp lr s = (case h of
     No_handler \<Rightarrow> Ok s
   | User_handler n \<Rightarrow> Ok (s\<lparr>kp_calls := kp_calls s @ [(n, kp)]\<rparr>)
   | Kretprobe_pre \<Rightarrow> kretprobe_pre_handler kp lr s
   | Kretprobe_post \<Rightarrow> kretprobe_post_handler kp s)"

text \<open>The handlers may change the list under the walk, which goes on with the pointer that is then in the probe.\<close>

fun kprobe_prebreak :: "nat \<Rightarrow> ptr \<Rightarrow> u32 \<Rightarrow> u32 \<Rightarrow> kp_state \<Rightarrow> kp_state result" where
  "kprobe_prebreak 0 kp pc lr s = Fault (Diverges ''kprobe_prebreak'')"
| "kprobe_prebreak (Suc n) kp pc lr s =
     (if kp = NULL then Ok s
      else rbind (if kp_addr (kps s kp) = pc then kp_run (kp_pre (kps s kp)) kp lr s else Ok s)
        (\<lambda>s. kprobe_prebreak n (kp_next (kps s kp)) pc lr s))"

fun kprobe_postbreak :: "nat \<Rightarrow> ptr \<Rightarrow> u32 \<Rightarrow> u32 \<Rightarrow> kp_state \<Rightarrow> kp_state result" where
  "kprobe_postbreak 0 kp pc lr s = Fault (Diverges ''kprobe_postbreak'')"
| "kprobe_postbreak (Suc n) kp pc lr s =
     (if kp = NULL then Ok s
      else rbind (if kp_step (kps s kp) = pc then kp_run (kp_post (kps s kp)) kp lr s else Ok s)
        (\<lambda>s. kprobe_postbreak n (kp_next (kps s kp)) pc lr s))"

definition kprobe_breakpoint_enable :: "u32 \<Rightarrow> kp_state \<Rightarrow> kp_state result" where
  "kprobe_breakpoint_enable pc s = rbind (kp_chain KP_FUEL (kp_list s) s)
     (\<lambda>ps. rfold (\<lambda>p s. if kp_step (kps s p) = pc then enable_breakpoint (kp_bkpt (kps s p)) s else Ok s) ps s)"

definition kprobe_breakpoint_disable :: "u32 \<Rightarrow> kp_state \<Rightarrow> kp_state result" where
  "kprobe_breakpoint_disable pc s = rbind (kp_chain KP_FUEL (kp_list s) s)
     (\<lambda>ps. rfold (\<lambda>p s. if kp_addr (kps s p) = pc then disable_breakpoint (kp_bkpt (kps s p)) s else Ok s) ps s)"

text \<open>The debug exception: \<open>dfsr\<close> is the fault status register, the first component of the result whether single stepping is on
  afterwards (if the handler says so).\<close>

definition arch_kprobe_handler :: "u32 \<Rightarrow> u32 \<Rightarrow> u32 \<Rightarrow> kp_state \<Rightarrow> (bool option \<times> kp_state) result" where
  "arch_kprobe_handler dfsr pc lr s =
     (if dfsr AND 4 \<noteq> 0 then Fault (Panic ''DWT Watchpoint hit'')
      else if dfsr AND 2 \<noteq> 0 then
        rbind (kprobe_prebreak KP_FUEL (kp_list s) pc lr s) (\<lambda>s. rbind (kprobe_breakpoint_disable pc s) (\<lambda>s. Ok (Some True, s)))
      else if dfsr AND 1 \<noteq> 0 then
        rbind (kprobe_postbreak KP_FUEL (kp_list s) pc lr s) (\<lambda>s. rbind (kprobe_breakpoint_enable pc s) (\<lambda>s. Ok (Some False, s)))
      else Ok (None, s))"

subsection \<open>Probes and comparators agree\<close>

text \<open>When an instruction fetch at \<open>a\<close> breaks: an enabled comparator with the word of \<open>a\<close> replaces the half of it.\<close>

definition comp_matches :: "u32 \<Rightarrow> u32 \<Rightarrow> bool" where
  "comp_matches w a \<longleftrightarrow> bit w 0 \<and> w AND FPB_COMP_ADDR_MASK = a AND FPB_COMP_ADDR_MASK \<and>
     (if bit a 1 then bit w 31 else bit w 30)"

definition fpb_breaks :: "kp_state \<Rightarrow> u32 \<Rightarrow> bool" where
  "fpb_breaks s a \<longleftrightarrow> (\<exists>h < fpb_num_comp s. comp_matches (fpb_comp s h) a)"

definition flash_addr :: "u32 \<Rightarrow> bool" where
  "flash_addr a \<longleftrightarrow> a < 0x20000000 \<and> \<not> bit a 0"

abbreviation (input) hard_at :: "kp_state \<Rightarrow> nat \<Rightarrow> bool" where
  "hard_at s j \<equiv> j < BKPT_MAX_NUM \<and> bk_type (breakpoints s j) = BKPT_HARD"

text \<open>The pool: every used breakpoint has a comparator of its own, set up for its address; the other comparators are free and
  disabled; no two breakpoints have the same address.\<close>

definition bk_pool_inv :: "kp_state \<Rightarrow> bool" where
  "bk_pool_inv s \<longleftrightarrow> fpb_num_comp s \<le> FPB_MAX_COMP \<and>
     (\<forall>j. hard_at s j \<longrightarrow> hard_id j s < fpb_num_comp s \<and> bk_ops (breakpoints s j) = BKPT_HARD \<and> hard_breakpoints s (hard_id j s) = int j \<and>
        fpb_comp s (hard_id j s) = hard_comp (bk_addr (breakpoints s j)) \<and> flash_addr (bk_addr (breakpoints s j))) \<and>
     (\<forall>h < fpb_num_comp s. hard_breakpoints s h = -1 \<and> \<not> bit (fpb_comp s h) 0 \<or> (\<exists>j. hard_at s j \<and> hard_id j s = h)) \<and>
     (\<forall>i j. hard_at s i \<and> hard_at s j \<and> bk_addr (breakpoints s i) = bk_addr (breakpoints s j) \<longrightarrow> i = j)"

text \<open>The probes: the list of them, each with the breakpoint of its address, and no breakpoint without a probe.\<close>

definition kp_inv :: "kp_state \<Rightarrow> ptr list \<Rightarrow> bool" where
  "kp_inv s ps \<longleftrightarrow> bk_pool_inv s \<and> slist (\<lambda>p. kp_next (kps s p)) (kp_list s) ps \<and> length ps \<le> 256 \<and>
     (\<forall>p \<in> set ps. hard_at s (kp_bkpt (kps s p)) \<and> bk_addr (breakpoints s (kp_bkpt (kps s p))) = kp_addr (kps s p)) \<and>
     (\<forall>j. hard_at s j \<longrightarrow> (\<exists>p \<in> set ps. kp_bkpt (kps s p) = j))"

lemma kp_chain_spec: "slist (\<lambda>p. kp_next (kps s p)) p ps \<Longrightarrow> length ps < n \<Longrightarrow> kp_chain n p s = Ok ps"
proof (induction ps arbitrary: p n)
  case Nil
  then show ?case by (cases n) auto
next
  case (Cons x xs)
  then show ?case by (cases n) auto
qed

lemma and_2_bit: "(a :: u32) AND 2 \<noteq> 0 \<longleftrightarrow> bit a 1"
  using and_exp_eq_0_iff_not_bit [of a 1] by simp

lemma comp_bits:
  "bit FPB_COMP_ADDR_MASK n \<longleftrightarrow> 2 \<le> n \<and> n \<le> 28" "bit FPB_COMP_ENABLE n \<longleftrightarrow> n = 0"
  "bit FPB_COMP_REPLACE_LOWER n \<longleftrightarrow> n = 30" "bit FPB_COMP_REPLACE_UPPER n \<longleftrightarrow> n = 31"
proof -
  have m: "FPB_COMP_ADDR_MASK = push_bit 2 (mask 27)" by (simp add: FPB_COMP_ADDR_MASK_def mask_eq_exp_minus_1 push_bit_eq_mult)
  show "bit FPB_COMP_ADDR_MASK n \<longleftrightarrow> 2 \<le> n \<and> n \<le> 28"
    unfolding m bit_push_bit_iff bit_mask_iff by (auto simp: min_def)
  show "bit FPB_COMP_ENABLE n \<longleftrightarrow> n = 0" unfolding FPB_COMP_ENABLE_def bit_push_bit_iff bit_1_iff by auto
  show "bit FPB_COMP_REPLACE_LOWER n \<longleftrightarrow> n = 30" unfolding FPB_COMP_REPLACE_LOWER_def bit_push_bit_iff bit_1_iff by auto
  show "bit FPB_COMP_REPLACE_UPPER n \<longleftrightarrow> n = 31" unfolding FPB_COMP_REPLACE_UPPER_def bit_push_bit_iff bit_1_iff by auto
qed

lemma flash_addr_bits: "flash_addr a \<longleftrightarrow> (\<forall>n. bit a n \<longrightarrow> 1 \<le> n \<and> n \<le> 28)"
proof -
  have "a < 0x20000000 \<longleftrightarrow> unat a < 2 ^ 29" by (simp add: word_less_nat_alt)
  also have "\<dots> \<longleftrightarrow> take_bit 29 (unat a) = unat a" by (simp add: take_bit_nat_eq_self_iff)
  also have "\<dots> \<longleftrightarrow> (\<forall>n. bit a n \<longrightarrow> n < 29)" by (auto simp: bit_eq_iff bit_take_bit_iff bit_unsigned_iff)
  finally have "a < 0x20000000 \<longleftrightarrow> (\<forall>n. bit a n \<longrightarrow> n \<le> 28)" by (simp add: less_Suc_eq_le [of _ 28, simplified])
  then show ?thesis by (auto simp: flash_addr_def Suc_le_eq intro: gr0I)
qed

lemma hard_comp_bits: "bit (hard_comp a) n \<longleftrightarrow> n = 0 \<or> 2 \<le> n \<and> n \<le> 28 \<and> bit a n \<or> n = 31 \<and> bit a 1 \<or> n = 30 \<and> \<not> bit a 1"
  unfolding hard_comp_def and_2_bit by (auto simp: bit_or_iff bit_and_iff comp_bits)

lemma comp_matches_hard: "flash_addr a \<Longrightarrow> flash_addr b \<Longrightarrow> comp_matches (hard_comp a) b \<longleftrightarrow> a = b"
proof
  assume ab: "flash_addr a" "flash_addr b" and m: "comp_matches (hard_comp a) b"
  have "bit a n = bit b n" for n
  proof -
    have e: "bit (hard_comp a AND FPB_COMP_ADDR_MASK) n \<longleftrightarrow> bit (b AND FPB_COMP_ADDR_MASK) n" using m by (simp add: comp_matches_def)
    have o: "bit a 1 = bit b 1" using m by (auto simp: comp_matches_def hard_comp_bits split: if_splits)
    consider "n = 0" | "n = 1" | "2 \<le> n" "n \<le> 28" | "28 < n" by linarith
    then show ?thesis using ab e o by cases (auto simp: flash_addr_bits bit_and_iff comp_bits hard_comp_bits)
  qed
  then show "a = b" by (rule bit_word_eqI)
next
  assume b: "a = b"
  have "hard_comp a AND FPB_COMP_ADDR_MASK = a AND FPB_COMP_ADDR_MASK"
    by (rule bit_word_eqI) (auto simp: bit_and_iff comp_bits hard_comp_bits)
  then show "comp_matches (hard_comp a) b" unfolding b by (auto simp: comp_matches_def hard_comp_bits)
qed

text \<open>Under the invariant, an address in flash breaks exactly if a probe is registered there.\<close>

lemma kp_inv_breaks:
  assumes inv: "kp_inv s ps" and a: "flash_addr a"
  shows "fpb_breaks s a \<longleftrightarrow> (\<exists>p \<in> set ps. kp_addr (kps s p) = a)"
proof
  assume "fpb_breaks s a"
  then obtain h where h: "h < fpb_num_comp s" "comp_matches (fpb_comp s h) a" by (auto simp: fpb_breaks_def)
  then obtain j where j: "hard_at s j" "hard_id j s = h" using inv by (auto simp: kp_inv_def bk_pool_inv_def comp_matches_def)
  then have "bk_addr (breakpoints s j) = a"
    using h(2) inv comp_matches_hard [of "bk_addr (breakpoints s j)" a] a by (auto simp: kp_inv_def bk_pool_inv_def)
  then show "\<exists>p \<in> set ps. kp_addr (kps s p) = a" using inv j(1) unfolding kp_inv_def by metis
next
  assume "\<exists>p \<in> set ps. kp_addr (kps s p) = a"
  then obtain p where p: "p \<in> set ps" "kp_addr (kps s p) = a" by blast
  let ?j = "kp_bkpt (kps s p)"
  have j: "hard_at s ?j" "bk_addr (breakpoints s ?j) = a" using inv p unfolding kp_inv_def by auto
  then have "hard_id ?j s < fpb_num_comp s" "fpb_comp s (hard_id ?j s) = hard_comp a" using inv unfolding kp_inv_def bk_pool_inv_def by metis+
  then show "fpb_breaks s a" using comp_matches_hard [OF a a] by (auto simp: fpb_breaks_def)
qed

subsection \<open>Registering and unregistering keep the invariant\<close>

lemma find_index: "find P [0..<n] = Some i \<Longrightarrow> P i \<and> i < n"
  by (auto simp: find_Some_iff)

lemma bk_pool_invD:
  assumes "bk_pool_inv s" and "hard_at s j"
  shows "hard_id j s < fpb_num_comp s" "bk_ops (breakpoints s j) = BKPT_HARD" "hard_breakpoints s (hard_id j s) = int j"
    "fpb_comp s (hard_id j s) = hard_comp (bk_addr (breakpoints s j))" "flash_addr (bk_addr (breakpoints s j))"
  using assms unfolding bk_pool_inv_def by blast+

lemma bk_pool_inv_free: "bk_pool_inv s \<Longrightarrow> h < fpb_num_comp s \<Longrightarrow> hard_breakpoints s h = -1 \<and> \<not> bit (fpb_comp s h) 0 \<or> (\<exists>j. hard_at s j \<and> hard_id j s = h)"
  by (simp add: bk_pool_inv_def)

lemma install_pool:
  assumes inv: "bk_pool_inv s" and a: "flash_addr a" and new: "\<And>j. hard_at s j \<Longrightarrow> bk_addr (breakpoints s j) \<noteq> a"
    and b: "breakpoint_install a s = (Some b, s1)"
  defines "s2 \<equiv> hard_breakpoint_enable b s1"
  shows "bk_pool_inv s2 \<and> b < BKPT_MAX_NUM \<and> \<not> hard_at s b \<and> bk_type (breakpoints s2 b) = BKPT_HARD \<and> bk_addr (breakpoints s2 b) = a \<and>
    bk_ops (breakpoints s1 b) = BKPT_HARD \<and> (\<forall>j. j \<noteq> b \<longrightarrow> breakpoints s2 j = breakpoints s j) \<and> kps s1 = kps s \<and> kp_list s1 = kp_list s"
proof -
  have t: "breakpoint_type_by_addr a = BKPT_HARD" using a by (simp add: flash_addr_def breakpoint_type_by_addr_def)
  from b t obtain h where f: "find (\<lambda>i. bk_type (breakpoints s i) = BKPT_NONE) [0..<BKPT_MAX_NUM] = Some b" "get_avail_hard_breakpoint s = Some h"
    "s1 = bk_upd b (\<lambda>k. k\<lparr>bk_type := BKPT_HARD, bk_addr := a, bk_raw := of_nat h, bk_ops := BKPT_HARD\<rparr>) (s\<lparr>hard_breakpoints := (hard_breakpoints s)(h := int b)\<rparr>)"
    by (auto simp: breakpoint_install_def breakpoint_config_def hard_breakpoint_config_def split: option.splits if_splits)
  have bn: "bk_type (breakpoints s b) = BKPT_NONE" "b < BKPT_MAX_NUM" using find_index [OF f(1)] by auto
  have h: "hard_breakpoints s h = -1" "h < fpb_num_comp s" using f(2) find_index [of "\<lambda>i. hard_breakpoints s i = -1"] by (auto simp: get_avail_hard_breakpoint_def)
  have n: "fpb_num_comp s \<le> 6" using inv by (simp add: bk_pool_inv_def)
  have "unat (of_nat h :: u16) = h" using h(2) n unfolding unsigned_of_nat of_nat_id by (intro take_bit_nat_eq_self) simp
  then have s2: "s2 = s\<lparr>hard_breakpoints := (hard_breakpoints s)(h := int b), fpb_comp := (fpb_comp s)(h := hard_comp a),
      breakpoints := (breakpoints s)(b := (breakpoints s b)\<lparr>bk_type := BKPT_HARD, bk_addr := a, bk_raw := of_nat h, bk_ops := BKPT_HARD\<rparr>)\<rparr>"
    and hb: "hard_id b s2 = h"
    by (simp_all add: s2_def f(3) hard_breakpoint_enable_def comp_upd_def hard_id_def bk_upd_def)
  have id: "hard_id j s2 = hard_id j s" if "j \<noteq> b" for j using that by (simp add: s2 hard_id_def)
  have at: "hard_at s2 j \<longleftrightarrow> j = b \<or> hard_at s j" for j using bn by (auto simp: s2)
  have ne: "hard_id j s \<noteq> h" if "hard_at s j" for j using bk_pool_invD(3) [OF inv that] h(1) by auto
  have old: "j \<noteq> b" if "hard_at s j" for j using that bn by auto
  have "bk_pool_inv s2" unfolding bk_pool_inv_def
  proof (intro conjI allI impI; (elim conjE)?)
    show "fpb_num_comp s2 \<le> FPB_MAX_COMP" using n by (simp add: s2)
  next
    fix j assume "j < BKPT_MAX_NUM" "bk_type (breakpoints s2 j) = BKPT_HARD"
    then have j: "hard_at s2 j" by simp
    have "hard_id j s2 < fpb_num_comp s2 \<and> bk_ops (breakpoints s2 j) = BKPT_HARD \<and> hard_breakpoints s2 (hard_id j s2) = int j \<and>
        fpb_comp s2 (hard_id j s2) = hard_comp (bk_addr (breakpoints s2 j)) \<and> flash_addr (bk_addr (breakpoints s2 j))"
    proof (cases "j = b")
      case True
      then show ?thesis using hb h a by (simp add: s2)
    next
      case False
      then have o: "hard_at s j" using j at by simp
      show ?thesis unfolding id [OF False] using bk_pool_invD [OF inv o] ne [OF o] False by (simp add: s2)
    qed
    then show "hard_id j s2 < fpb_num_comp s2" "bk_ops (breakpoints s2 j) = BKPT_HARD" "hard_breakpoints s2 (hard_id j s2) = int j"
      "fpb_comp s2 (hard_id j s2) = hard_comp (bk_addr (breakpoints s2 j))" "flash_addr (bk_addr (breakpoints s2 j))" by simp_all
  next
    fix k assume k: "k < fpb_num_comp s2"
    show "hard_breakpoints s2 k = -1 \<and> \<not> bit (fpb_comp s2 k) 0 \<or> (\<exists>j. hard_at s2 j \<and> hard_id j s2 = k)"
    proof (cases "k = h")
      case True
      then show ?thesis using at hb by auto
    next
      case False
      have "k < fpb_num_comp s" using k by (simp add: s2)
      then consider "hard_breakpoints s k = -1" "\<not> bit (fpb_comp s k) 0" | j where "hard_at s j" "hard_id j s = k"
        using bk_pool_inv_free [OF inv] by blast
      then show ?thesis
      proof cases
        case 1
        then show ?thesis using False by (simp add: s2)
      next
        case (2 j)
        then show ?thesis using at id [OF old [OF 2(1)]] by blast
      qed
    qed
  next
    fix i j assume "i < BKPT_MAX_NUM" "bk_type (breakpoints s2 i) = BKPT_HARD" "j < BKPT_MAX_NUM" "bk_type (breakpoints s2 j) = BKPT_HARD"
      and e: "bk_addr (breakpoints s2 i) = bk_addr (breakpoints s2 j)"
    then have "i = b \<or> hard_at s i" "j = b \<or> hard_at s j" using at [of i] at [of j] by auto
    moreover have "bk_addr (breakpoints s2 k) = (if k = b then a else bk_addr (breakpoints s k))" for k by (simp add: s2)
    moreover have "\<And>i j. hard_at s i \<and> hard_at s j \<and> bk_addr (breakpoints s i) = bk_addr (breakpoints s j) \<longrightarrow> i = j"
      using inv by (simp add: bk_pool_inv_def)
    ultimately show "i = j" using e new by (metis (full_types))
  qed
  then show ?thesis using bn by (simp add: s2 f(3) bk_upd_def)
qed

lemma release_pool:
  assumes inv: "bk_pool_inv s" and b: "hard_at s b"
  defines "s2 \<equiv> hard_breakpoint_release b s"
  shows "bk_pool_inv s2 \<and> \<not> hard_at s2 b \<and> (\<forall>j. j \<noteq> b \<longrightarrow> breakpoints s2 j = breakpoints s j) \<and> kps s2 = kps s \<and> kp_list s2 = kp_list s"
proof -
  define h where "h = hard_id b s"
  have s2: "s2 = s\<lparr>hard_breakpoints := (hard_breakpoints s)(h := -1), fpb_comp := (fpb_comp s)(h := fpb_comp s h AND NOT FPB_COMP_ENABLE),
      breakpoints := (breakpoints s)(b := (breakpoints s b)\<lparr>bk_type := BKPT_NONE\<rparr>)\<rparr>"
    by (simp add: s2_def hard_breakpoint_release_def Let_def comp_upd_def bk_upd_def h_def)
  have id: "hard_id j s2 = hard_id j s" for j by (simp add: s2 hard_id_def)
  have at: "hard_at s2 j \<longleftrightarrow> j \<noteq> b \<and> hard_at s j" for j by (auto simp: s2)
  have ne: "hard_id j s \<noteq> h" if "hard_at s j" "j \<noteq> b" for j
    using bk_pool_invD(3) [OF inv that(1)] bk_pool_invD(3) [OF inv b] that(2) by (auto simp: h_def)
  have "bk_pool_inv s2" unfolding bk_pool_inv_def
  proof (intro conjI allI impI; (elim conjE)?)
    show "fpb_num_comp s2 \<le> FPB_MAX_COMP" using inv by (simp add: s2 bk_pool_inv_def)
  next
    fix j assume "j < BKPT_MAX_NUM" "bk_type (breakpoints s2 j) = BKPT_HARD"
    then have j: "hard_at s j" "j \<noteq> b" using at by auto
    show "hard_id j s2 < fpb_num_comp s2" "bk_ops (breakpoints s2 j) = BKPT_HARD" "hard_breakpoints s2 (hard_id j s2) = int j"
      "fpb_comp s2 (hard_id j s2) = hard_comp (bk_addr (breakpoints s2 j))" "flash_addr (bk_addr (breakpoints s2 j))"
      unfolding id using bk_pool_invD [OF inv j(1)] ne [OF j] j(2) by (simp_all add: s2)
  next
    fix k assume k: "k < fpb_num_comp s2"
    show "hard_breakpoints s2 k = -1 \<and> \<not> bit (fpb_comp s2 k) 0 \<or> (\<exists>j. hard_at s2 j \<and> hard_id j s2 = k)"
    proof (cases "k = h")
      case True
      then show ?thesis by (simp add: s2 bit_and_iff bit_not_iff comp_bits)
    next
      case False
      have "k < fpb_num_comp s" using k by (simp add: s2)
      then consider "hard_breakpoints s k = -1" "\<not> bit (fpb_comp s k) 0" | j where "hard_at s j" "hard_id j s = k"
        using bk_pool_inv_free [OF inv] by blast
      then show ?thesis
      proof cases
        case 1
        then show ?thesis using False by (simp add: s2)
      next
        case (2 j)
        then have "j \<noteq> b" using False by (auto simp: h_def)
        then show ?thesis using at id 2 by blast
      qed
    qed
  next
    fix i j assume "i < BKPT_MAX_NUM" "bk_type (breakpoints s2 i) = BKPT_HARD" "j < BKPT_MAX_NUM" "bk_type (breakpoints s2 j) = BKPT_HARD"
      and e: "bk_addr (breakpoints s2 i) = bk_addr (breakpoints s2 j)"
    then have "hard_at s i" "hard_at s j" "i \<noteq> b" "j \<noteq> b" using at by auto
    moreover from this have "bk_addr (breakpoints s i) = bk_addr (breakpoints s j)" using e by (simp add: s2)
    ultimately show "i = j" using inv by (simp add: bk_pool_inv_def)
  qed
  then show ?thesis by (simp add: s2)
qed

lemma install_none: "breakpoint_install a s = (None, s1) \<Longrightarrow> s1 = s"
  by (auto simp: breakpoint_install_def breakpoint_config_def hard_breakpoint_config_def soft_breakpoint_config_def
      split: option.splits if_splits bkpt_type.splits)

lemma search_spec:
  assumes "slist (\<lambda>p. kp_next (kps s p)) (kp_list s) ps" and "length ps \<le> 256"
  shows "\<exists>p. kplist_search a s = Ok p \<and> (if p = NULL then \<forall>q \<in> set ps. kp_addr (kps s q) \<noteq> a else p \<in> set ps \<and> kp_addr (kps s p) = a)"
proof -
  have c: "kp_chain KP_FUEL (kp_list s) s = Ok ps" using assms by (intro kp_chain_spec) (simp_all add: KP_FUEL_def)
  show ?thesis
  proof (cases "find (\<lambda>p. kp_addr (kps s p) = a) ps")
    case None
    then have "\<forall>q \<in> set ps. kp_addr (kps s q) \<noteq> a" by (auto simp: find_None_iff)
    then show ?thesis using None by (simp add: kplist_search_def c)
  next
    case (Some q)
    then have "q \<in> set ps" "kp_addr (kps s q) = a" by (auto simp: find_Some_iff)
    then show ?thesis using slist_not_null [OF assms(1)] Some by (auto simp: kplist_search_def c)
  qed
qed

lemma kp_upd_fields [simp]:
  "breakpoints (kp_upd p f s) = breakpoints s" "hard_breakpoints (kp_upd p f s) = hard_breakpoints s" "fpb_comp (kp_upd p f s) = fpb_comp s"
  "fpb_num_comp (kp_upd p f s) = fpb_num_comp s" "kp_list (kp_upd p f s) = kp_list s" "code (kp_upd p f s) = code s"
  "kps (kp_upd p f s) q = (if q = p then f (kps s p) else kps s q)" "hard_id j (kp_upd p f s) = hard_id j s"
  by (simp_all add: kp_upd_def hard_id_def)

lemma bk_pool_inv_cong:
  "breakpoints s' = breakpoints s \<Longrightarrow> hard_breakpoints s' = hard_breakpoints s \<Longrightarrow> fpb_comp s' = fpb_comp s \<Longrightarrow>
   fpb_num_comp s' = fpb_num_comp s \<Longrightarrow> bk_pool_inv s' = bk_pool_inv s"
  by (simp add: bk_pool_inv_def hard_id_def)

lemma kp_inv_unlisted:
  assumes "kp_inv s ps" and "p \<notin> set ps"
  shows "kp_inv (kp_upd p f s) ps"
proof -
  have "slist (\<lambda>q. kp_next (kps (kp_upd p f s) q)) (kp_list s) ps"
    using assms unfolding kp_inv_def by (subst lseg_cong [of ps _ "\<lambda>q. kp_next (kps s q)"]) auto
  moreover have "bk_pool_inv (kp_upd p f s)" using assms(1) bk_pool_inv_cong [of "kp_upd p f s" s] by (simp add: kp_inv_def)
  moreover have "\<forall>q \<in> set ps. q \<noteq> p" using assms(2) by blast
  ultimately show ?thesis using assms(1) unfolding kp_inv_def by auto
qed

lemma kplist_add_inv:
  assumes "bk_pool_inv s" and "slist (\<lambda>p. kp_next (kps s p)) (kp_list s) ps" and "length ps < 256" and "p \<notin> set ps" and "p \<noteq> NULL"
    and "\<forall>q \<in> set (p # ps). hard_at s (kp_bkpt (kps s q)) \<and> bk_addr (breakpoints s (kp_bkpt (kps s q))) = kp_addr (kps s q)"
    and "\<forall>j. hard_at s j \<longrightarrow> (\<exists>q \<in> set (p # ps). kp_bkpt (kps s q) = j)"
  shows "kp_inv (kplist_add p s) (p # ps)"
proof -
  let ?s = "kplist_add p s"
  have f: "breakpoints ?s = breakpoints s" "kp_bkpt (kps ?s q) = kp_bkpt (kps s q)" "kp_addr (kps ?s q) = kp_addr (kps s q)" for q
    by (simp_all add: kplist_add_def kp_upd_def)
  have "bk_pool_inv ?s" using assms(1) by (subst bk_pool_inv_cong [of _ s]) (simp_all add: kplist_add_def kp_upd_def)
  moreover have "slist (\<lambda>q. kp_next (kps ?s q)) (kp_list s) ps"
    using assms(2,4) by (subst lseg_cong [of ps _ "\<lambda>q. kp_next (kps s q)"]) (auto simp: kplist_add_def kp_upd_def)
  then have "slist (\<lambda>q. kp_next (kps ?s q)) (kp_list ?s) (p # ps)" using assms(5) by (simp add: kplist_add_def kp_upd_def)
  ultimately show ?thesis using assms(3,6,7) unfolding kp_inv_def f by simp
qed

lemma register_keeps:
  assumes inv: "kp_inv s ps" and p: "p \<notin> set ps" "p \<noteq> NULL" "length ps < 256" and a: "flash_addr (kp_addr (kps s p) AND NOT 1)"
  shows "\<exists>rc s'. kprobe_register p s = Ok (rc, s') \<and> (rc = 0 \<and> kp_inv s' (p # ps) \<or> rc = -1 \<and> kp_inv s' ps) \<and>
    kp_addr (kps s' p) = kp_addr (kps s p) AND NOT 1 \<and> (\<forall>q. q \<noteq> p \<longrightarrow> kp_addr (kps s' q) = kp_addr (kps s q))"
proof -
  let ?a = "kp_addr (kps s p) AND NOT 1"
  define s0 where "s0 = kp_upd p (\<lambda>k. k\<lparr>kp_addr := ?a, kp_step := ?a + (if is_thumb32 (code s ?a) then 4 else 2)\<rparr>) s"
  have i0: "kp_inv s0 ps" unfolding s0_def by (rule kp_inv_unlisted [OF inv p(1)])
  have a0: "kp_addr (kps s0 p) = ?a" "\<And>q. q \<noteq> p \<Longrightarrow> kp_addr (kps s0 q) = kp_addr (kps s q)" by (simp_all add: s0_def)
  have l0: "bk_pool_inv s0" "slist (\<lambda>p. kp_next (kps s0 p)) (kp_list s0) ps" "length ps \<le> 256"
    and b0: "\<forall>q \<in> set ps. hard_at s0 (kp_bkpt (kps s0 q)) \<and> bk_addr (breakpoints s0 (kp_bkpt (kps s0 q))) = kp_addr (kps s0 q)"
    and c0: "\<forall>j. hard_at s0 j \<longrightarrow> (\<exists>q \<in> set ps. kp_bkpt (kps s0 q) = j)"
    using i0 by (simp_all add: kp_inv_def)
  obtain f where f: "kplist_search ?a s0 = Ok f" "if f = NULL then \<forall>q \<in> set ps. kp_addr (kps s0 q) \<noteq> ?a else f \<in> set ps \<and> kp_addr (kps s0 f) = ?a"
    using search_spec [OF l0(2,3)] by blast
  have reg: "kprobe_register p s = rbind (kprobe_arch_add p s0) (\<lambda>(rc, s). if rc < 0 then Ok (-1, s) else Ok (0, kplist_add p s))"
    by (simp add: kprobe_register_def Let_def s0_def)
  have addr: "kp_addr (kps (kplist_add p t) q) = kp_addr (kps t q)" for t q by (simp add: kplist_add_def kp_upd_def)
  have np: "q \<noteq> p" if "q \<in> set ps" for q using that p(1) by auto
  consider "f \<noteq> NULL" | s1 where "f = NULL" "breakpoint_install ?a s0 = (None, s1)" | b s1 where "f = NULL" "breakpoint_install ?a s0 = (Some b, s1)"
    by (metis surj_pair option.exhaust)
  then show ?thesis
  proof cases
    case 1
    then have fp: "f \<in> set ps" "kp_addr (kps s0 f) = ?a" using f(2) by auto
    let ?s = "kp_upd p (kp_bkpt_update (\<lambda>_. kp_bkpt (kps s0 f))) s0"
    have "kprobe_register p s = Ok (0, kplist_add p ?s)" unfolding reg using 1 f(1) a0(1) by (simp add: kprobe_arch_add_def)
    moreover have u: "kp_inv ?s ps" by (rule kp_inv_unlisted [OF i0 p(1)])
    have "kp_inv (kplist_add p ?s) (p # ps)"
    proof (rule kplist_add_inv [OF _ _ p(3,1,2)])
      show "bk_pool_inv ?s" "slist (\<lambda>p. kp_next (kps ?s p)) (kp_list ?s) ps" using u by (simp_all add: kp_inv_def)
      show "\<forall>q \<in> set (p # ps). hard_at ?s (kp_bkpt (kps ?s q)) \<and> bk_addr (breakpoints ?s (kp_bkpt (kps ?s q))) = kp_addr (kps ?s q)"
        using b0 fp a0(1) np by auto
      show "\<forall>j. hard_at ?s j \<longrightarrow> (\<exists>q \<in> set (p # ps). kp_bkpt (kps ?s q) = j)" using c0 np by auto
    qed
    ultimately show ?thesis using a0 by (auto simp: addr)
  next
    case (2 s1)
    then have "kprobe_register p s = Ok (-1, s0)"
      unfolding reg using f(1) a0(1) install_none [OF 2(2)] by (simp add: kprobe_arch_add_def)
    then show ?thesis using i0 a0 by auto
  next
    case (3 b s1)
    have new: "bk_addr (breakpoints s0 j) \<noteq> ?a" if j: "hard_at s0 j" for j
    proof -
      obtain q where "q \<in> set ps" "kp_bkpt (kps s0 q) = j" using c0 j by auto
      then show ?thesis using f(2) 3(1) b0 by auto
    qed
    let ?s2 = "hard_breakpoint_enable b s1"
    have i: "bk_pool_inv ?s2" "b < 10" "\<not> hard_at s0 b" "bk_type (breakpoints ?s2 b) = BKPT_HARD" "bk_addr (breakpoints ?s2 b) = ?a"
      "bk_ops (breakpoints s1 b) = BKPT_HARD" "\<And>j. j \<noteq> b \<Longrightarrow> breakpoints ?s2 j = breakpoints s0 j" "kps s1 = kps s0" "kp_list s1 = kp_list s0"
      using install_pool [OF l0(1) a new 3(2)] by auto
    let ?s = "kp_upd p (kp_bkpt_update (\<lambda>_. b)) ?s2"
    have k: "kps ?s2 = kps s0" "kp_list ?s2 = kp_list s0" using i(8,9) by (simp_all add: hard_breakpoint_enable_def comp_upd_def)
    have "enable_breakpoint b (kp_upd p (kp_bkpt_update (\<lambda>_. b)) s1) = Ok ?s"
      using i(6) by (simp add: enable_breakpoint_def bk_call_def hard_breakpoint_enable_def comp_upd_def kp_upd_def hard_id_def)
    then have "kprobe_register p s = Ok (0, kplist_add p ?s)" unfolding reg using 3 f(1) a0(1) by (simp add: kprobe_arch_add_def)
    moreover have "kp_inv (kplist_add p ?s) (p # ps)"
    proof (rule kplist_add_inv [OF _ _ p(3,1,2)])
      show "bk_pool_inv ?s" using i(1) by (subst bk_pool_inv_cong [of _ ?s2]) simp_all
      show "slist (\<lambda>p. kp_next (kps ?s p)) (kp_list ?s) ps"
        using l0(2) by (subst lseg_cong [of ps _ "\<lambda>q. kp_next (kps s0 q)"]) (auto simp: k dest: np)
      have "kp_bkpt (kps s0 q) \<noteq> b" if "q \<in> set ps" for q using b0 that i(3) by auto
      then show "\<forall>q \<in> set (p # ps). hard_at ?s (kp_bkpt (kps ?s q)) \<and> bk_addr (breakpoints ?s (kp_bkpt (kps ?s q))) = kp_addr (kps ?s q)"
        using b0 i(2,4,5,7) a0(1) np by (auto simp: k)
      show "\<forall>j. hard_at ?s j \<longrightarrow> (\<exists>q \<in> set (p # ps). kp_bkpt (kps ?s q) = j)" using c0 i(7) np by (auto simp: k)
    qed
    ultimately show ?thesis using a0 by (auto simp: addr k)
  qed
qed

lemma find_pred:
  "lseg nxt h xs p \<Longrightarrow> xs \<noteq> [] \<Longrightarrow> p \<notin> set xs \<Longrightarrow> find (\<lambda>q. nxt q = p) (xs @ ys) = Some (last xs)"
proof (induction xs arbitrary: h)
  case (Cons x xs)
  then show ?case by (cases xs) auto
qed simp

lemma slist_remove:
  assumes "slist nxt h (xs @ [c] @ p # ys)"
  shows "slist (nxt(c := nxt p)) h (xs @ [c] @ ys)"
proof -
  have "distinct (xs @ [c] @ p # ys)" using assms by (rule slist_distinct)
  then have n: "c \<notin> set xs" "c \<notin> set ys" by auto
  have "lseg nxt h xs c" "c \<noteq> NULL" "slist nxt (nxt p) ys" using assms by (auto simp: lseg_append)
  then show ?thesis using n by (auto simp: lseg_append)
qed

lemma kplist_del_spec:
  assumes l: "slist (\<lambda>q. kp_next (kps s q)) (kp_list s) (xs @ p # ys)" and n: "length (xs @ p # ys) \<le> 256"
  shows "\<exists>s'. kplist_del p s = Ok s' \<and> slist (\<lambda>q. kp_next (kps s' q)) (kp_list s') (xs @ ys) \<and>
    (\<exists>ks h. s' = s\<lparr>kps := ks, kp_list := h\<rparr> \<and> (\<forall>q. kp_bkpt (ks q) = kp_bkpt (kps s q) \<and> kp_addr (ks q) = kp_addr (kps s q)))"
proof (cases xs rule: rev_cases)
  case Nil
  then have h: "kp_list s = p" "slist (\<lambda>q. kp_next (kps s q)) (kp_next (kps s p)) ys" using l by auto
  let ?s = "s\<lparr>kp_list := kp_next (kps s p)\<rparr>"
  have e: "?s = s\<lparr>kps := kps s, kp_list := kp_next (kps s p)\<rparr>" by simp
  have "kplist_del p s = Ok ?s" "slist (\<lambda>q. kp_next (kps ?s q)) (kp_list ?s) (xs @ ys)" using h Nil by (simp_all add: kplist_del_def)
  then show ?thesis using e by metis
next
  case (snoc zs c)
  let ?n = "\<lambda>q. kp_next (kps s q)" and ?s = "kp_upd c (kp_next_update (\<lambda>_. kp_next (kps s p))) s"
  have d: "distinct (xs @ p # ys)" using l by (rule slist_distinct)
  have "kp_list s \<noteq> p" using slist_hd [OF l] d snoc by (cases zs) auto
  moreover have "kp_chain KP_FUEL (kp_list s) s = Ok (xs @ p # ys)" using l n by (intro kp_chain_spec) (simp_all add: KP_FUEL_def)
  moreover have "lseg ?n (kp_list s) xs p" using l by (auto simp: lseg_append)
  then have "find (\<lambda>q. ?n q = p) (xs @ p # ys) = Some c" using find_pred [of ?n "kp_list s" xs p "p # ys"] d snoc by auto
  ultimately have del: "kplist_del p s = Ok ?s" by (simp add: kplist_del_def)
  have "(\<lambda>q. kp_next (kps ?s q)) = ?n(c := ?n p)" by (auto simp: fun_eq_iff)
  then have sl: "slist (\<lambda>q. kp_next (kps ?s q)) (kp_list ?s) (xs @ ys)" using slist_remove [of ?n "kp_list s" zs c p ys] l snoc by simp
  have e: "?s = s\<lparr>kps := kps ?s, kp_list := kp_list s\<rparr>" by (simp add: kp_upd_def)
  have f: "\<forall>q. kp_bkpt (kps ?s q) = kp_bkpt (kps s q) \<and> kp_addr (kps ?s q) = kp_addr (kps s q)" by simp
  show ?thesis by (intro exI [of _ ?s] conjI del sl exI [of _ "kps ?s"] exI [of _ "kp_list s"] e f)
qed

lemma unregister_keeps:
  assumes inv: "kp_inv s (xs @ p # ys)"
  shows "\<exists>s'. kprobe_unregister p s = Ok s' \<and> kp_inv s' (xs @ ys) \<and> (\<forall>q. kp_addr (kps s' q) = kp_addr (kps s q))"
proof -
  let ?ps = "xs @ p # ys" and ?qs = "xs @ ys"
  have l: "bk_pool_inv s" "slist (\<lambda>q. kp_next (kps s q)) (kp_list s) ?ps" "length ?ps \<le> 256"
    and b: "\<forall>q \<in> set ?ps. hard_at s (kp_bkpt (kps s q)) \<and> bk_addr (breakpoints s (kp_bkpt (kps s q))) = kp_addr (kps s q)"
    and c: "\<forall>j. hard_at s j \<longrightarrow> (\<exists>q \<in> set ?ps. kp_bkpt (kps s q) = j)"
    using inv by (simp_all add: kp_inv_def)
  obtain s1 ks h where d: "kplist_del p s = Ok s1" "slist (\<lambda>q. kp_next (kps s1 q)) (kp_list s1) ?qs" "s1 = s\<lparr>kps := ks, kp_list := h\<rparr>"
    and k: "\<And>q. kp_bkpt (ks q) = kp_bkpt (kps s q)" "\<And>q. kp_addr (ks q) = kp_addr (kps s q)"
    using kplist_del_spec [OF l(2,3)] by blast
  have n: "length ?qs \<le> 256" using l(3) by simp
  obtain f where f: "kplist_search (kp_addr (kps s p)) s1 = Ok f"
    "if f = NULL then \<forall>q \<in> set ?qs. kp_addr (kps s1 q) \<noteq> kp_addr (kps s p) else f \<in> set ?qs \<and> kp_addr (kps s1 f) = kp_addr (kps s p)"
    using search_spec [OF d(2) n] by blast
  have p1: "bk_pool_inv s1" using l(1) by (subst bk_pool_inv_cong [of _ s]) (simp_all add: d(3))
  let ?b = "kp_bkpt (kps s p)"
  have bp: "hard_at s ?b" "bk_addr (breakpoints s ?b) = kp_addr (kps s p)" using b by simp_all
  have unreg: "kprobe_unregister p s = kprobe_arch_del p s1" by (simp add: kprobe_unregister_def d(1))
  have uniq: "\<And>i j. hard_at s i \<and> hard_at s j \<and> bk_addr (breakpoints s i) = bk_addr (breakpoints s j) \<longrightarrow> i = j"
    using l(1) by (simp add: bk_pool_inv_def)
  show ?thesis
  proof (cases "f = NULL")
    case False
    then have fq: "f \<in> set ?qs" "kp_addr (kps s f) = kp_addr (kps s p)" using f(2) by (simp_all add: d(3) k)
    then have "kp_bkpt (kps s f) = ?b" using uniq [of "kp_bkpt (kps s f)" ?b] b bp by auto
    then have "\<forall>j. hard_at s j \<longrightarrow> (\<exists>q \<in> set ?qs. kp_bkpt (kps s q) = j)" using c fq(1) by fastforce
    then have "kp_inv s1 ?qs" unfolding kp_inv_def using p1 d(2) n b by (simp add: d(3) k)
    moreover have "kprobe_unregister p s = Ok s1" unfolding unreg using False f(1) by (simp add: kprobe_arch_del_def d(3) k)
    ultimately show ?thesis by (simp add: d(3) k)
  next
    case True
    then have fr: "kp_addr (kps s q) \<noteq> kp_addr (kps s p)" if "q \<in> set ?qs" for q using f(2) that by (simp add: d(3) k)
    let ?s = "hard_breakpoint_release ?b s1"
    have "hard_at s1 ?b" using bp by (simp add: d(3))
    then have r: "bk_pool_inv ?s" "\<not> hard_at ?s ?b" "\<And>j. j \<noteq> ?b \<Longrightarrow> breakpoints ?s j = breakpoints s j" "kps ?s = ks" "kp_list ?s = kp_list s1"
      using release_pool [OF p1] by (simp_all add: d(3))
    have "bk_ops (breakpoints s1 ?b) = BKPT_HARD" using bk_pool_invD(2) [OF l(1) bp(1)] by (simp add: d(3))
    then have "kprobe_unregister p s = Ok ?s"
      unfolding unreg using True f(1) by (simp add: kprobe_arch_del_def breakpoint_uninstall_def bk_call_def d(3) k)
    moreover have ne: "kp_bkpt (kps s q) \<noteq> ?b" if q: "q \<in> set ?qs" for q
    proof -
      have "bk_addr (breakpoints s (kp_bkpt (kps s q))) = kp_addr (kps s q)" using b q by auto
      then show ?thesis using bp(2) fr [OF q] by metis
    qed
    have "kp_inv ?s ?qs" unfolding kp_inv_def
    proof (intro conjI)
      show "\<forall>q \<in> set ?qs. hard_at ?s (kp_bkpt (kps ?s q)) \<and> bk_addr (breakpoints ?s (kp_bkpt (kps ?s q))) = kp_addr (kps ?s q)"
        using b ne by (auto simp: r k)
      show "\<forall>j. hard_at ?s j \<longrightarrow> (\<exists>q \<in> set ?qs. kp_bkpt (kps ?s q) = j)"
      proof (intro allI impI)
        fix j assume j: "hard_at ?s j"
        then have "j \<noteq> ?b" using r(2) by auto
        then show "\<exists>q \<in> set ?qs. kp_bkpt (kps ?s q) = j" using c j r(3) by (auto simp: r(4) k)
      qed
    qed (use r d(2) n in \<open>simp_all add: d(3)\<close>)
    ultimately show ?thesis by (auto simp: r k)
  qed
qed

subsection \<open>Every history of probes\<close>

text \<open>What callers do with probes on code in flash: fill in a probe that is not registered, register it, unregister it.
  The pool starts zeroed.\<close>

inductive kp_reach :: "kp_state \<Rightarrow> ptr list \<Rightarrow> bool" where
  kp_start: "(\<And>j. j < BKPT_MAX_NUM \<Longrightarrow> bk_type (breakpoints s j) = BKPT_NONE) \<Longrightarrow> kp_reach (kprobe_init ctrl s) []"
| kp_fill: "kp_reach s ps \<Longrightarrow> p \<notin> set ps \<Longrightarrow> kp_reach (kp_upd p f s) ps"
| kp_reg: "kp_reach s ps \<Longrightarrow> p \<notin> set ps \<Longrightarrow> p \<noteq> NULL \<Longrightarrow> length ps < 256 \<Longrightarrow> flash_addr (kp_addr (kps s p) AND NOT 1) \<Longrightarrow>
    kprobe_register p s = Ok (rc, s') \<Longrightarrow> kp_reach s' (if rc = 0 then p # ps else ps)"
| kp_unreg: "kp_reach s ps \<Longrightarrow> p \<in> set ps \<Longrightarrow> kprobe_unregister p s = Ok s' \<Longrightarrow> kp_reach s' (remove1 p ps)"

lemma kprobe_init_inv:
  assumes "\<And>j. j < BKPT_MAX_NUM \<Longrightarrow> bk_type (breakpoints s j) = BKPT_NONE"
  shows "kp_inv (kprobe_init ctrl s) []"
proof -
  let ?s = "kprobe_init ctrl s"
  have "\<not> hard_at ?s j" for j
    using assms [of j] by (simp add: kprobe_init_def breakpoint_pool_init_def hard_breakpoint_pool_init_def Let_def)
  moreover have "fpb_num_comp ?s \<le> 6" "kp_list ?s = NULL"
    by (simp_all add: kprobe_init_def breakpoint_pool_init_def hard_breakpoint_pool_init_def Let_def detect_fpb_hardware_def)
  moreover have "hard_breakpoints ?s h = -1 \<and> \<not> bit (fpb_comp ?s h) 0" if "h < fpb_num_comp ?s" for h
    using that by (simp add: kprobe_init_def breakpoint_pool_init_def hard_breakpoint_pool_init_def Let_def)
  ultimately show ?thesis by (auto simp: kp_inv_def bk_pool_inv_def)
qed

lemma kp_reach_inv: "kp_reach s ps \<Longrightarrow> kp_inv s ps"
proof (induction rule: kp_reach.induct)
  case (kp_start s ctrl)
  then show ?case by (rule kprobe_init_inv)
next
  case (kp_fill s ps p f)
  then show ?case by (intro kp_inv_unlisted)
next
  case (kp_reg s ps p rc s')
  then show ?case using register_keeps [of s ps p] by auto
next
  case (kp_unreg s ps p s')
  then obtain xs ys where "ps = xs @ p # ys" "p \<notin> set xs" by (meson split_list_first)
  then show ?case using kp_unreg unregister_keeps [of s xs p ys] by (auto simp: remove1_append)
qed

text \<open>C35. However probes were registered and unregistered before, an instruction in flash breaks exactly if a probe is registered at its
  address, and both operations return. Probes may share an address: its comparator is set up with the first of them and freed with the last.\<close>

theorem probes_break_where_registered:
  assumes "kp_reach s ps"
  shows "(\<forall>a. flash_addr a \<longrightarrow> fpb_breaks s a = (\<exists>p \<in> set ps. kp_addr (kps s p) = a)) \<and>
    (\<forall>p \<in> set ps. \<exists>s'. kprobe_unregister p s = Ok s') \<and>
    (\<forall>p. p \<notin> set ps \<and> p \<noteq> NULL \<and> length ps < 256 \<and> flash_addr (kp_addr (kps s p) AND NOT 1) \<longrightarrow>
      (\<exists>rc s'. kprobe_register p s = Ok (rc, s')))"
proof (intro conjI)
  note inv = kp_reach_inv [OF assms]
  show "\<forall>a. flash_addr a \<longrightarrow> fpb_breaks s a = (\<exists>p \<in> set ps. kp_addr (kps s p) = a)" using kp_inv_breaks [OF inv] by blast
  show "\<forall>p \<in> set ps. \<exists>s'. kprobe_unregister p s = Ok s'" using inv unregister_keeps by (metis split_list)
  show "\<forall>p. p \<notin> set ps \<and> p \<noteq> NULL \<and> length ps < 256 \<and> flash_addr (kp_addr (kps s p) AND NOT 1) \<longrightarrow>
      (\<exists>rc s'. kprobe_register p s = Ok (rc, s'))" using register_keeps [OF inv] by blast
qed

definition kp_boot :: kp_state where
  "kp_boot = \<lparr>kp_list = NULL,
     kps = (\<lambda>p. \<lparr>kp_addr = 0x101, kp_pre = (if p = 2 then User_handler 7 else No_handler), kp_post = No_handler, kp_bkpt = 0, kp_step = 0,
                kp_next = NULL, rp_handler = User_handler 8, rp_backup = 0\<rparr>),
     breakpoints = (\<lambda>_. \<lparr>bk_type = BKPT_NONE, bk_raw = 0, bk_addr = 0, bk_ops = BKPT_NONE\<rparr>),
     hard_breakpoints = (\<lambda>_. 0), fpb_comp = (\<lambda>_. 0), fpb_num_comp = 0, code = (\<lambda>_. 0), kp_calls = []\<rparr>"

theorem probes_break_where_registered_witness:
  "\<exists>s. kprobe_register 1 (kprobe_init 0x61 kp_boot) = Ok (0, s) \<and> fpb_breaks s 0x100 \<and> \<not> fpb_breaks s 0x102"
proof -
  let ?i = "kprobe_init 0x61 kp_boot"
  have i: "kp_reach ?i []" by (rule kp_start) (simp add: kp_boot_def)
  have a: "kp_addr (kps ?i 1) = 0x101" by (simp add: kprobe_init_def breakpoint_pool_init_def hard_breakpoint_pool_init_def Let_def kp_boot_def)
  have "case kprobe_register 1 ?i of Ok (rc, s) \<Rightarrow> rc = 0 \<and> kp_addr (kps s 1) = 0x100 | _ \<Rightarrow> False" by code_simp
  then obtain s where s: "kprobe_register 1 ?i = Ok (0, s)" "kp_addr (kps s 1) = 0x100" by (auto split: result.splits)
  have f: "flash_addr 0x100" "flash_addr 0x102" by (simp_all add: flash_addr_def bit_iff_odd)
  have "kp_reach s [1]" using kp_reg [OF i _ _ _ _ s(1)] f(1) by (simp add: a)
  from probes_break_where_registered [OF this] show ?thesis using s f by auto
qed

text \<open>A probe in RAM that is unregistered leaves the break instruction in the code: the release of a soft breakpoint frees its entry
  and does not put the instruction back.\<close>

theorem soft_probe_stays_in_code:
  assumes "kp_list s = NULL" and "p \<noteq> NULL" and "0x20000000 \<le> kp_addr (kps s p) AND NOT 1" and "bk_type (breakpoints s 0) = BKPT_NONE"
  shows "\<exists>s1 s2. kprobe_register p s = Ok (0, s1) \<and> kprobe_unregister p s1 = Ok s2 \<and> kp_list s2 = NULL \<and>
    code s2 = (code s)(kp_addr (kps s p) AND NOT 1 := 0xBE11)"
proof -
  let ?a = "kp_addr (kps s p) AND NOT 1"
  have t: "breakpoint_type_by_addr ?a = BKPT_SOFT" using assms(3) by (simp add: breakpoint_type_by_addr_def linorder_not_less)
  have u: "[0..<10] = 0 # [1..<10]" by (simp add: upt_conv_Cons)
  have n: "kplist_search x t = Ok NULL" if "kp_list t = NULL" for x t using that by (simp add: kplist_search_def KP_FUEL_def numeral_eq_Suc)
  show ?thesis
    using assms(1,2,4) t by (simp add: kprobe_register_def Let_def kprobe_arch_add_def n kp_upd_def breakpoint_install_def u breakpoint_config_def
      soft_breakpoint_config_def enable_breakpoint_def bk_call_def bk_upd_def soft_breakpoint_enable_def kplist_add_def kprobe_unregister_def
      kplist_del_def kprobe_arch_del_def breakpoint_uninstall_def soft_breakpoint_release_def)
qed

text \<open>A return probe that is hit moves to the front of the list, and the walk of the handler goes on with the pointer that is then in it:
  at the head of the list it was taken from, so that the probes before it are visited once more.\<close>

lemma arch_add_list: "kprobe_arch_add p s = Ok (rc, s') \<Longrightarrow> kp_list s' = kp_list s"
  by (auto simp: kprobe_arch_add_def rbind_eq_Ok breakpoint_install_def breakpoint_config_def hard_breakpoint_config_def soft_breakpoint_config_def
      enable_breakpoint_def bk_call_def bk_upd_def hard_breakpoint_enable_def soft_breakpoint_enable_def comp_upd_def
      split: result.splits if_splits option.splits prod.splits bkpt_type.splits)

theorem return_probe_restarts_walk:
  assumes "kprobe_unregister p s = Ok s1" and "kprobe_register p (kp_upd p f s1) = Ok (0, s2)"
  shows "kp_next (kps s2 p) = kp_list s1"
  using assms(2) by (auto simp: kprobe_register_def Let_def rbind_eq_Ok kplist_add_def dest!: arch_add_list split: result.splits if_splits)

end
