(* ===== verification/Latency.thy ===== *)
theory Latency
  imports Prelude
begin

text \<open>
  The interrupt latency statistics of \<^verbatim>\<open>platform/irq-latency.c\<close> and the table the debugger shows of them
  (\<^verbatim>\<open>kernel/kdb-latency.c\<close>). Handlers of different priorities preempt each other inside \<^verbatim>\<open>latency_record\<close>, which updates the
  statistics with atomic instructions: one step per atomic access, interleaved in any order. At the end every sample has been counted.
\<close>

subsection \<open>Operations\<close>

record latency_stats_t =
  ls_count :: u32
  ls_min :: u32
  ls_max :: u32
  ls_sum :: u32
  ls_avg :: u32

type_synonym latency_stats = "nat \<Rightarrow> latency_stats_t"

definition no_samples :: latency_stats_t where
  "no_samples = \<lparr>ls_count = 0, ls_min = 0, ls_max = 0, ls_sum = 0, ls_avg = 0\<rparr>"

definition latency_init :: "latency_stats \<Rightarrow> latency_stats" where
  "latency_init stats = (\<lambda>i. if i < 16 then no_samples else stats i)"

definition latency_reset :: "latency_stats \<Rightarrow> latency_stats" where
  "latency_reset stats = (\<lambda>i. if i < 16 then no_samples else stats i)"

definition latency_valid :: "u8 \<Rightarrow> u32 \<Rightarrow> bool" where
  "latency_valid priority cycles \<longleftrightarrow> \<not> priority \<ge> 16 \<and> \<not> (cycles = 0 \<or> cycles > 1000000)"

text \<open>The atomic accesses of \<^verbatim>\<open>latency_record\<close>; the arguments are the values read before.\<close>

datatype lr_pc = LR_count | LR_sum | LR_load_min | LR_min u32 | LR_load_max | LR_max u32 | LR_done

fun lr_step :: "u32 \<Rightarrow> lr_pc \<Rightarrow> latency_stats_t \<Rightarrow> lr_pc \<times> latency_stats_t" where
  "lr_step cycles LR_count st = (LR_sum, st\<lparr>ls_count := ls_count st + 1\<rparr>)"
| "lr_step cycles LR_sum st = (LR_load_min, st\<lparr>ls_sum := ls_sum st + cycles\<rparr>)"
| "lr_step cycles LR_load_min st = (LR_min (ls_min st), st)"
| "lr_step cycles (LR_min old_min) st =
     (if old_min = 0 \<or> cycles < old_min then
        if ls_min st = old_min then (LR_load_max, st\<lparr>ls_min := cycles\<rparr>) else (LR_min (ls_min st), st)
      else (LR_load_max, st))"
| "lr_step cycles LR_load_max st = (LR_max (ls_max st), st)"
| "lr_step cycles (LR_max old_max) st =
     (if cycles > old_max then
        if ls_max st = old_max then (LR_done, st\<lparr>ls_max := cycles\<rparr>) else (LR_max (ls_max st), st)
      else (LR_done, st))"
| "lr_step cycles LR_done st = (LR_done, st)"

text \<open>A call that is not interrupted takes six accesses.\<close>

definition lr_run :: "u32 \<Rightarrow> lr_pc \<times> latency_stats_t \<Rightarrow> lr_pc \<times> latency_stats_t" where
  "lr_run cycles = ((\<lambda>(pc, st). lr_step cycles pc st) ^^ 6)"

definition latency_record :: "u8 \<Rightarrow> u32 \<Rightarrow> latency_stats \<Rightarrow> latency_stats" where
  "latency_record priority cycles stats =
     (if latency_valid priority cycles
      then stats(unat priority := snd (lr_run cycles (LR_count, stats (unat priority)))) else stats)"

definition latency_sample_end :: "u32 \<Rightarrow> u32 \<Rightarrow> u8 \<Rightarrow> latency_stats \<Rightarrow> latency_stats" where
  "latency_sample_end end_cycles start_cycles priority = latency_record priority (end_cycles - start_cycles)"

definition latency_get_stats :: "u8 \<Rightarrow> latency_stats \<Rightarrow> latency_stats_t option" where
  "latency_get_stats priority stats = (if priority \<ge> 16 then None else Some (stats (unat priority)))"

text \<open>The snapshot reads the fields one after the other: \<open>seen k\<close> is what is in memory at the \<open>k\<close>-th read. It starts over as long as
  the count has changed.\<close>

fun latency_get_stats_snapshot :: "nat \<Rightarrow> u8 \<Rightarrow> (nat \<Rightarrow> latency_stats) \<Rightarrow> nat \<Rightarrow> latency_stats_t option result" where
  "latency_get_stats_snapshot 0 priority seen k = Fault (Diverges ''latency_get_stats_snapshot'')"
| "latency_get_stats_snapshot (Suc n) priority seen k =
     (if priority \<ge> 16 then Ok None
      else let at = (\<lambda>j. seen (k + j) (unat priority)) in
        if ls_count (at 0) = ls_count (at 4)
        then Ok (Some \<lparr>ls_count = ls_count (at 4), ls_min = ls_min (at 2), ls_max = ls_max (at 3), ls_sum = ls_sum (at 1), ls_avg = 0\<rparr>)
        else latency_get_stats_snapshot n priority seen (k + 5))"

definition latency_type :: "nat \<Rightarrow> string" where
  "latency_type i = (if i \<le> 2 then ''Zero-latency ISR'' else if i = 3 then ''SysTick'' else if i \<le> 0xE then ''User IRQ'' else ''SVCall/PendSV'')"

text \<open>The table of the debugger, which no interrupt changes meanwhile: one row for each priority with samples.\<close>

definition kdb_show_latency :: "latency_stats \<Rightarrow> (nat \<times> string \<times> u32 \<times> u32 \<times> u32 \<times> u32) list" where
  "kdb_show_latency stats = concat (map (\<lambda>i.
     case latency_get_stats_snapshot 1 (of_nat i) (\<lambda>_. stats) 0 of
       Ok (Some st) \<Rightarrow> if ls_count st = 0 then []
         else [(i, latency_type i, ls_count st, ls_min st, (if ls_count st > 0 then ls_sum st div ls_count st else 0), ls_max st)]
     | _ \<Rightarrow> []) [0..<16])"

subsection \<open>Interleaved records\<close>

record lr_sys =
  lr_stats :: latency_stats_t
  lr_pcs :: "lr_pc list"

text \<open>Handlers with the samples \<open>cs\<close>; a step is one access of one of them.\<close>

definition lr_act :: "u32 list \<Rightarrow> nat \<Rightarrow> lr_sys \<Rightarrow> lr_sys" where
  "lr_act cs i s = (let (pc, st) = lr_step (cs ! i) (lr_pcs s ! i) (lr_stats s) in \<lparr>lr_stats = st, lr_pcs = (lr_pcs s)[i := pc]\<rparr>)"

inductive lr_reach :: "u32 list \<Rightarrow> lr_sys \<Rightarrow> bool" for cs where
  lr_start: "lr_reach cs \<lparr>lr_stats = no_samples, lr_pcs = replicate (length cs) LR_count\<rparr>"
| lr_move: "lr_reach cs s \<Longrightarrow> i < length cs \<Longrightarrow> lr_reach cs (lr_act cs i s)"

text \<open>What a handler relies on (the minimum only falls once it is set, the maximum only rises), and what it knows at each point.\<close>

definition lr_rely :: "latency_stats_t \<Rightarrow> latency_stats_t \<Rightarrow> bool" where
  "lr_rely st st' \<longleftrightarrow> (ls_min st \<noteq> 0 \<longrightarrow> ls_min st' \<noteq> 0 \<and> ls_min st' \<le> ls_min st) \<and> ls_max st \<le> ls_max st'"

definition min_le :: "latency_stats_t \<Rightarrow> u32 \<Rightarrow> bool" where
  "min_le st c \<longleftrightarrow> ls_min st \<noteq> 0 \<and> ls_min st \<le> c"

fun lr_knows :: "u32 \<Rightarrow> lr_pc \<Rightarrow> latency_stats_t \<Rightarrow> bool" where
  "lr_knows c (LR_min old) st \<longleftrightarrow> old = 0 \<or> min_le st old"
| "lr_knows c LR_load_max st \<longleftrightarrow> min_le st c"
| "lr_knows c (LR_max old) st \<longleftrightarrow> min_le st c \<and> old \<le> ls_max st"
| "lr_knows c LR_done st \<longleftrightarrow> min_le st c \<and> c \<le> ls_max st"
| "lr_knows c _ st \<longleftrightarrow> True"

definition lr_counted :: "lr_pc \<Rightarrow> u32" where
  "lr_counted pc = (if pc = LR_count then 0 else 1)"

definition lr_summed :: "u32 \<Rightarrow> lr_pc \<Rightarrow> u32" where
  "lr_summed c pc = (if pc = LR_count \<or> pc = LR_sum then 0 else c)"

definition lr_inv :: "u32 list \<Rightarrow> lr_sys \<Rightarrow> bool" where
  "lr_inv cs s \<longleftrightarrow> length (lr_pcs s) = length cs \<and>
     (\<forall>i < length cs. lr_knows (cs ! i) (lr_pcs s ! i) (lr_stats s)) \<and>
     ls_count (lr_stats s) = (\<Sum>i < length cs. lr_counted (lr_pcs s ! i)) \<and>
     ls_sum (lr_stats s) = (\<Sum>i < length cs. lr_summed (cs ! i) (lr_pcs s ! i)) \<and>
     ls_min (lr_stats s) \<in> insert 0 (set cs) \<and> ls_max (lr_stats s) \<in> insert 0 (set cs)"

lemma lr_knows_stable: "lr_knows c pc st \<Longrightarrow> lr_rely st st' \<Longrightarrow> lr_knows c pc st'"
  by (cases pc) (auto simp: lr_rely_def min_le_def)

lemma lr_step_guarantee:
  assumes "lr_step c pc st = (pc', st')" and "c \<noteq> 0"
  shows "lr_rely st st'" and "lr_knows c pc st \<Longrightarrow> lr_knows c pc' st'"
    and "ls_count st' + lr_counted pc = ls_count st + lr_counted pc'" and "ls_sum st' + lr_summed c pc = ls_sum st + lr_summed c pc'"
    and "ls_min st' \<in> {ls_min st, c}" and "ls_max st' \<in> {ls_max st, c}"
proof -
  show "lr_rely st st'" using assms by (cases pc) (auto simp: lr_rely_def split: if_splits)
  show "lr_knows c pc st \<Longrightarrow> lr_knows c pc' st'" using assms by (cases pc) (auto simp: min_le_def split: if_splits)
  show "ls_count st' + lr_counted pc = ls_count st + lr_counted pc'" using assms by (cases pc) (auto simp: lr_counted_def split: if_splits)
  show "ls_sum st' + lr_summed c pc = ls_sum st + lr_summed c pc'" using assms by (cases pc) (auto simp: lr_summed_def split: if_splits)
  show "ls_min st' \<in> {ls_min st, c}" "ls_max st' \<in> {ls_max st, c}" using assms by (cases pc; auto split: if_splits)+
qed

lemma sum_changed:
  fixes f g :: "nat \<Rightarrow> u32"
  assumes "i < n" and "\<And>j. j < n \<Longrightarrow> j \<noteq> i \<Longrightarrow> g j = f j"
  shows "(\<Sum>j < n. g j) + f i = (\<Sum>j < n. f j) + g i"
proof -
  have "(\<Sum>j \<in> {..<n} - {i}. g j) = (\<Sum>j \<in> {..<n} - {i}. f j)" using assms(2) by (intro sum.cong) auto
  then show ?thesis using assms(1) by (simp add: sum.remove [of "{..<n}" i])
qed

lemma lr_inv_act:
  assumes inv: "lr_inv cs s" and i: "i < length cs" and c: "0 \<notin> set cs"
  shows "lr_inv cs (lr_act cs i s)"
proof -
  obtain pc st where p: "lr_step (cs ! i) (lr_pcs s ! i) (lr_stats s) = (pc, st)" by fastforce
  have "cs ! i \<noteq> 0" using c i nth_mem [OF i] by metis
  note g = lr_step_guarantee [OF p this]
  let ?p = "(lr_pcs s)[i := pc]"
  have l: "length (lr_pcs s) = length cs" "\<forall>j < length cs. lr_knows (cs ! j) (lr_pcs s ! j) (lr_stats s)" using inv by (simp_all add: lr_inv_def)
  have pi: "?p ! i = pc" using i l(1) by simp
  have "ls_count st + lr_counted (lr_pcs s ! i) = (\<Sum>j < length cs. lr_counted (lr_pcs s ! j)) + lr_counted (?p ! i)"
    unfolding g(3) pi using inv by (simp add: lr_inv_def)
  also have "\<dots> = (\<Sum>j < length cs. lr_counted (?p ! j)) + lr_counted (lr_pcs s ! i)"
    using i by (intro sum_changed [symmetric]) simp_all
  finally have "ls_count st = (\<Sum>j < length cs. lr_counted (?p ! j))" by (rule add_right_imp_eq)
  moreover have "ls_sum st + lr_summed (cs ! i) (lr_pcs s ! i) = (\<Sum>j < length cs. lr_summed (cs ! j) (lr_pcs s ! j)) + lr_summed (cs ! i) (?p ! i)"
    unfolding g(4) pi using inv by (simp add: lr_inv_def)
  then have "ls_sum st + lr_summed (cs ! i) (lr_pcs s ! i) = (\<Sum>j < length cs. lr_summed (cs ! j) (?p ! j)) + lr_summed (cs ! i) (lr_pcs s ! i)"
    using i by (subst sum_changed [where f = "\<lambda>j. lr_summed (cs ! j) (lr_pcs s ! j)" and g = "\<lambda>j. lr_summed (cs ! j) (?p ! j)" and i = i]) simp_all
  then have "ls_sum st = (\<Sum>j < length cs. lr_summed (cs ! j) (?p ! j))" by (rule add_right_imp_eq)
  moreover have "lr_knows (cs ! j) (?p ! j) st" if "j < length cs" for j
    using g(1,2) l that i lr_knows_stable by (cases "j = i") auto
  moreover have "ls_min st \<in> insert 0 (set cs)" "ls_max st \<in> insert 0 (set cs)" using g(5,6) inv nth_mem [OF i] by (auto simp: lr_inv_def)
  ultimately show ?thesis using l(1) by (simp add: lr_inv_def lr_act_def p)
qed

lemma lr_reach_inv: "lr_reach cs s \<Longrightarrow> 0 \<notin> set cs \<Longrightarrow> lr_inv cs s"
proof (induction rule: lr_reach.induct)
  case lr_start
  then show ?case by (simp add: lr_inv_def no_samples_def lr_counted_def lr_summed_def)
next
  case (lr_move s i)
  then show ?case by (intro lr_inv_act)
qed

text \<open>Whatever the order in which handlers preempt each other, once all of them are done the statistics are those of their samples.\<close>

theorem latency_stats_exact:
  assumes "lr_reach cs s" and "cs \<noteq> []" and "\<forall>c \<in> set cs. latency_valid p c" and "\<forall>i < length cs. lr_pcs s ! i = LR_done"
  shows "ls_count (lr_stats s) = of_nat (length cs)" and "ls_sum (lr_stats s) = sum_list cs"
    and "ls_min (lr_stats s) = Min (set cs)" and "ls_max (lr_stats s) = Max (set cs)"
proof -
  have z: "0 \<notin> set cs" using assms(3) by (auto simp: latency_valid_def)
  note inv = lr_reach_inv [OF assms(1) z, unfolded lr_inv_def]
  show "ls_count (lr_stats s) = of_nat (length cs)" using inv assms(4) by (simp add: lr_counted_def)
  show "ls_sum (lr_stats s) = sum_list cs" using inv assms(4) by (simp add: lr_summed_def sum_list_sum_nth atLeast0LessThan)
  have k: "min_le (lr_stats s) c \<and> c \<le> ls_max (lr_stats s)" if "c \<in> set cs" for c
    using that inv assms(4) by (metis in_set_conv_nth lr_knows.simps(4))
  obtain c where "c \<in> set cs" using assms(2) by (cases cs) auto
  then have "ls_min (lr_stats s) \<noteq> 0" "ls_max (lr_stats s) \<noteq> 0" using k z by (auto simp: min_le_def) (metis k word_le_0_iff)
  then have m: "ls_min (lr_stats s) \<in> set cs" "ls_max (lr_stats s) \<in> set cs" using inv by auto
  show "ls_min (lr_stats s) = Min (set cs)" using m(1) k by (intro Min_eqI [symmetric]) (auto simp: min_le_def)
  show "ls_max (lr_stats s) = Max (set cs)" using m(2) k by (intro Max_eqI [symmetric]) auto
qed

lemma latency_stats_exact_witness:
  "ls_min (lr_stats (fold (lr_act [9, 4]) [0, 0, 0, 1, 1, 1, 1, 0, 0, 0, 0, 1, 1, 1, 1] \<lparr>lr_stats = no_samples, lr_pcs = [LR_count, LR_count]\<rparr>)) = 4"
proof -
  let ?s = "fold (lr_act [9, 4]) [0, 0, 0, 1, 1, 1, 1, 0, 0, 0, 0, 1, 1, 1, 1] \<lparr>lr_stats = no_samples, lr_pcs = [LR_count, LR_count]\<rparr>"
  have fold_reach: "lr_reach cs (fold (lr_act cs) is s)" if "lr_reach cs s" "\<forall>i \<in> set is. i < length cs" for cs "is" s
    using that by (induction "is" arbitrary: s) (auto intro: lr_move)
  have r: "lr_reach [9, 4] ?s" using lr_start [of "[9, 4]"] by (intro fold_reach) (simp_all add: eval_nat_numeral)
  have d: "\<forall>i < length [9, 4 :: u32]. lr_pcs ?s ! i = LR_done" by code_simp
  have "Min (set [9, 4 :: u32]) = 4" by code_simp
  then show ?thesis using latency_stats_exact(3) [OF r _ _ d, of 0] by (simp add: latency_valid_def)
qed

subsection \<open>Calls without preemption\<close>

lemma lr_run_done: "lr_run c (LR_count, st) =
  (LR_done, st\<lparr>ls_count := ls_count st + 1, ls_sum := ls_sum st + c,
     ls_min := (if ls_min st = 0 \<or> c < ls_min st then c else ls_min st), ls_max := max (ls_max st) c\<rparr>)"
  by (auto simp: lr_run_def numeral_eq_Suc max_def)

text \<open>Invalid samples change nothing, others are counted in the statistics of their priority only.\<close>

theorem latency_record_counts:
  "latency_record priority c stats =
     (if latency_valid priority c then stats(unat priority := (stats (unat priority))
        \<lparr>ls_count := ls_count (stats (unat priority)) + 1, ls_sum := ls_sum (stats (unat priority)) + c,
         ls_min := (if ls_min (stats (unat priority)) = 0 \<or> c < ls_min (stats (unat priority)) then c else ls_min (stats (unat priority))),
         ls_max := max (ls_max (stats (unat priority))) c\<rparr>) else stats)"
  by (simp add: latency_record_def lr_run_done)

text \<open>A snapshot that returns is the state after some number of samples, when interrupts come in between its reads: the count tells
  them all, as long as fewer than \<open>2 ^ 32\<close> of them come within one round. It returns if in one round there is none.\<close>

lemma same_count: "a \<le> b \<Longrightarrow> b - a < 2 ^ 32 \<Longrightarrow> (of_nat a :: u32) = of_nat b \<Longrightarrow> a = b"
proof -
  assume le: "a \<le> b" and d: "b - a < 2 ^ 32" and e: "(of_nat a :: u32) = of_nat b"
  have "(of_nat (b - a) :: u32) = 0" using le e by (simp add: of_nat_diff)
  then have "unat (of_nat (b - a) :: u32) = 0" by simp
  then have "b - a = 0" using u32_unat_of_nat [OF d] by simp
  then show "a = b" using le by simp
qed

theorem snapshot_is_consistent:
  assumes "\<And>k. seen k (unat priority) = hist (r k)" and "\<And>m. ls_count (hist m) = of_nat m" and "mono r"
    and "\<And>k. r (k + 4) - r k < 2 ^ 32" and "latency_get_stats_snapshot n priority seen k = Ok (Some st)"
  shows "\<exists>m. st = (hist m)\<lparr>ls_avg := 0\<rparr>"
  using assms(5)
proof (induction n arbitrary: k)
  case (Suc n)
  have le: "r k \<le> r (k + 1)" "r (k + 1) \<le> r (k + 2)" "r (k + 2) \<le> r (k + 3)" "r (k + 3) \<le> r (k + 4)" using assms(3) by (simp_all add: mono_def)
  show ?case
  proof (cases "ls_count (hist (r k)) = ls_count (hist (r (k + 4)))")
    case True
    then have "r k = r (k + 4)" using le assms(2,4) by (intro same_count) auto
    then have "r (k + 1) = r k" "r (k + 2) = r k" "r (k + 3) = r k" "r (k + 4) = r k" using le by linarith+
    then have "st = (hist (r k))\<lparr>ls_avg := 0\<rparr>" using Suc.prems assms(1) by (auto simp: Let_def split: if_splits)
    then show ?thesis by blast
  next
    case False
    then show ?thesis using Suc assms(1) by (simp add: Let_def split: if_splits)
  qed
qed simp

theorem snapshot_returns:
  assumes "seen (k + 5 * j) = seen (k + 5 * j + 4)" and "j < n" and "priority < 16"
  shows "\<exists>st. latency_get_stats_snapshot n priority seen k = Ok (Some st)"
  using assms(1,2)
proof (induction n arbitrary: j k)
  case (Suc n)
  then show ?case using assms(3) Suc.IH [of "k + 5" "j - 1"] by (cases j) (auto simp: Let_def ac_simps)
qed simp

end
