(* ===== verification/Tcb.thy ===== *)
theory Tcb
  imports Prelude
begin

text \<open>
  The thread control block of \<^verbatim>\<open>include/thread.h\<close>, the user-level block of
  \<^verbatim>\<open>include/l4/utcb.h\<close>, and the part of the kernel's static state that every other component
  works on: the TCBs (a store indexed by address), the running thread and the scheduler's variables.
  Later theories extend \<open>kstate\<close> by the static variables of their own source file, so that an
  operation of this level runs unchanged on every later state.
\<close>

subsection \<open>Thread control blocks\<close>

datatype thread_state_t =
    T_INACTIVE
  | T_RUNNABLE
  | T_SVC_BLOCKED
  | T_RECV_BLOCKED
  | T_SEND_BLOCKED
  | T_NOTIFY_BLOCKED

record context_t =
  sp :: u32
  ret :: u32
  ctl :: u32
  regs :: "u32 list"

record tcb =
  sched_prev :: ptr
  sched_next :: ptr
  state :: thread_state_t
  priority :: u8
  base_priority :: u8
  preempt_threshold :: u8
  user_priority :: u8
  t_globalid :: u32
  t_localid :: u32
  t_pager :: u32
  stack_base :: u32
  stack_size :: u32
  ctx :: context_t
  user_preempt_threshold :: u8
  inherit_priority :: u8
  t_as :: ptr
  utcb :: ptr
  ipc_from :: u32
  t_sibling :: ptr
  t_parent :: ptr
  t_child :: ptr
  timeout_event :: u32
  ipc_notify :: ptr
  notify_bits :: u32
  notify_mask :: u32
  notify_data :: u32
  notify_depth :: u8
  notify_generation :: u8
  notify_pending :: u8
  utcb_needs_sync :: u8
  stack_canary_needs_init :: u8
  msg_buffer :: "u32 list"

record utcb_t =
  utcb_globalid :: u32
  processor_no :: u32
  user_defined_handle :: u32
  utcb_pager :: u32
  exception_handler :: u32
  utcb_flags :: u32
  xfer_timeouts :: u32
  error_code :: u32
  intended_receiver :: u32
  sender :: u32
  thread_word_1 :: u32
  thread_word_2 :: u32
  mr_low :: "u32 list"
  mr :: "u32 list"
  br :: "u32 list"

text \<open>Thread identifiers: the upper 18 bits are the thread number.\<close>

definition GLOBALID_TO_TID :: "u32 \<Rightarrow> u32" where
  "GLOBALID_TO_TID gid = drop_bit 14 gid"

definition TID_TO_GLOBALID :: "u32 \<Rightarrow> u32" where
  "TID_TO_GLOBALID tid = push_bit 14 tid"

abbreviation (input) L4_NILTHREAD :: u32 where "L4_NILTHREAD \<equiv> 0"
abbreviation (input) L4_ANYLOCALTHREAD :: u32 where "L4_ANYLOCALTHREAD \<equiv> 0xFFFFFFC0"
abbreviation (input) L4_ANYTHREAD :: u32 where "L4_ANYTHREAD \<equiv> 0xFFFFFFFF"

abbreviation (input) THREAD_IDLE :: u32 where "THREAD_IDLE \<equiv> 0"
abbreviation (input) THREAD_KERNEL :: u32 where "THREAD_KERNEL \<equiv> 1"
abbreviation (input) THREAD_ROOT :: u32 where "THREAD_ROOT \<equiv> 2"
abbreviation (input) THREAD_INTERRUPT :: u32 where "THREAD_INTERRUPT \<equiv> 3"
abbreviation (input) THREAD_IRQ_REQUEST :: u32 where "THREAD_IRQ_REQUEST \<equiv> 4"
abbreviation (input) THREAD_LOG :: u32 where "THREAD_LOG \<equiv> 5"
abbreviation (input) THREAD_SYS :: u32 where "THREAD_SYS \<equiv> 16"

lemma tid_roundtrip: "unat tid < 2 ^ 18 \<Longrightarrow> GLOBALID_TO_TID (TID_TO_GLOBALID tid) = tid"
proof -
  assume "unat tid < 2 ^ 18"
  then have "take_bit 18 tid = tid"
    by (simp add: word_unat_eq_iff unsigned_take_bit_eq take_bit_nat_eq_self)
  then have "n < 18" if "bit tid n" for n using that by (metis bit_take_bit_iff)
  then show ?thesis
    unfolding GLOBALID_TO_TID_def TID_TO_GLOBALID_def
    by (intro bit_word_eqI) (auto simp: bit_drop_bit_eq bit_push_bit_iff not_less)
qed

subsection \<open>The kernel's static variables, first level\<close>

text \<open>
  \<open>tcbs\<close> is the store of TCBs by address, \<open>current\<close> the running thread,
  \<open>ready_bitmap\<close>, \<open>preempted_bitmap\<close> and \<open>ready_queue\<close> the static variables of
  \<^verbatim>\<open>kernel/sched.c\<close> (\<open>ready_queue\<close> is only indexed below 32), \<open>pendsv\<close> the pending
  bit of the context-switch exception in \<open>SCB_ICSR\<close>.
\<close>

record kstate =
  tcbs :: "ptr \<Rightarrow> tcb"
  current :: ptr
  ready_bitmap :: u32
  preempted_bitmap :: u32
  ready_queue :: "nat \<Rightarrow> ptr"
  pendsv :: bool

definition tcb_upd :: "ptr \<Rightarrow> (tcb \<Rightarrow> tcb) \<Rightarrow> 'z kstate_scheme \<Rightarrow> 'z kstate_scheme" where
  "tcb_upd p f s = s\<lparr>tcbs := (tcbs s)(p := f (tcbs s p))\<rparr>"

lemma tcb_upd_sel [simp]:
  "tcbs (tcb_upd p f s) = (tcbs s)(p := f (tcbs s p))"
  "current (tcb_upd p f s) = current s"
  "ready_bitmap (tcb_upd p f s) = ready_bitmap s"
  "preempted_bitmap (tcb_upd p f s) = preempted_bitmap s"
  "ready_queue (tcb_upd p f s) = ready_queue s"
  "pendsv (tcb_upd p f s) = pendsv s"
  "kstate.more (tcb_upd p f s) = kstate.more s"
  by (simp_all add: tcb_upd_def)

end
