(* ===== verification/Sched.thy ===== *)
theory Sched
  imports Tcb
begin

text \<open>
  The priority bitmap scheduler of \<^verbatim>\<open>kernel/sched.c\<close>, and the priority inheritance protocol of
  \<^verbatim>\<open>kernel/thread.c\<close> that works on the same queues. The ready queues are circular doubly linked
  lists through the TCBs; \<open>rq_rep s q\<close> says that the pointers, the queue heads and the bitmap of
  \<open>s\<close> represent the thirty-two lists \<open>q\<close>. The operations are shown to refine the list
  operations append, remove, rotate and head of the first non-empty list. The critical sections
  (\<open>irq_kernel_critical_enter\<close>/\<open>exit\<close>, \<open>irq_save_flags\<close>/\<open>irq_restore_flags\<close>) make
  each operation atomic and are the identity here; \<open>dbg_printf\<close> is dropped.
\<close>

subsection \<open>Operations\<close>

abbreviation (input) SCHED_PRIORITY_LEVELS :: nat where "SCHED_PRIORITY_LEVELS \<equiv> 32"
abbreviation (input) SCHED_PRIO_SOFTIRQ :: u8 where "SCHED_PRIO_SOFTIRQ \<equiv> 0"
abbreviation (input) SCHED_PRIO_INTR :: u8 where "SCHED_PRIO_INTR \<equiv> 1"
abbreviation (input) SCHED_PRIO_ROOT :: u8 where "SCHED_PRIO_ROOT \<equiv> 2"
abbreviation (input) SCHED_PRIO_IPC :: u8 where "SCHED_PRIO_IPC \<equiv> 3"
abbreviation (input) SCHED_PRIO_IDLE :: u8 where "SCHED_PRIO_IDLE \<equiv> 31"
abbreviation (input) SCHED_PRIO_DEFAULT :: u8 where "SCHED_PRIO_DEFAULT \<equiv> 16"

text \<open>The queue index: out-of-range priorities are clamped to the idle level.\<close>

definition sched_level :: "u8 \<Rightarrow> nat" where
  "sched_level prio = (if unat prio \<ge> SCHED_PRIORITY_LEVELS then 31 else unat prio)"

definition sched_init :: "'z kstate_scheme \<Rightarrow> 'z kstate_scheme" where
  "sched_init s = s\<lparr>ready_bitmap := 0, preempted_bitmap := 0,
     ready_queue := fold (\<lambda>i rq. rq(i := NULL)) [0..<SCHED_PRIORITY_LEVELS] (ready_queue s)\<rparr>"

definition sched_is_queued :: "ptr \<Rightarrow> 'z kstate_scheme \<Rightarrow> bool" where
  "sched_is_queued thread s \<longleftrightarrow> sched_prev (tcbs s thread) \<noteq> NULL"

definition set_next :: "ptr \<Rightarrow> ptr \<Rightarrow> 'z kstate_scheme \<Rightarrow> 'z kstate_scheme" where
  "set_next p q s = tcb_upd p (sched_next_update (\<lambda>_. q)) s"

definition set_prev :: "ptr \<Rightarrow> ptr \<Rightarrow> 'z kstate_scheme \<Rightarrow> 'z kstate_scheme" where
  "set_prev p q s = tcb_upd p (sched_prev_update (\<lambda>_. q)) s"

definition set_state :: "ptr \<Rightarrow> thread_state_t \<Rightarrow> 'z kstate_scheme \<Rightarrow> 'z kstate_scheme" where
  "set_state p st s = tcb_upd p (state_update (\<lambda>_. st)) s"

definition set_prio :: "ptr \<Rightarrow> u8 \<Rightarrow> 'z kstate_scheme \<Rightarrow> 'z kstate_scheme" where
  "set_prio p v s = tcb_upd p (priority_update (\<lambda>_. v)) s"

definition sched_link_init :: "ptr \<Rightarrow> 'z kstate_scheme \<Rightarrow> 'z kstate_scheme" where
  "sched_link_init thread s = set_next thread NULL (set_prev thread NULL s)"

definition sched_enqueue :: "ptr \<Rightarrow> 'z kstate_scheme \<Rightarrow> 'z kstate_scheme result" where
  "sched_enqueue thread s =
     (if thread = NULL then Ok s
      else if state (tcbs s thread) \<noteq> T_RUNNABLE
        then Fault (Panic ''SCHED: Enqueueing non-runnable thread'')
      else if sched_is_queued thread s then Ok s
      else
        let prio = sched_level (priority (tcbs s thread));
            head = ready_queue s prio
        in if head = NULL then
             let s = s\<lparr>ready_queue := (ready_queue s)(prio := thread)\<rparr>;
                 s = set_prev thread thread s;
                 s = set_next thread thread s
             in Ok (s\<lparr>ready_bitmap := bit_on (ready_bitmap s) (31 - prio)\<rparr>)
           else
             let tail = sched_prev (tcbs s head);
                 s = set_next thread head s;
                 s = set_prev thread tail s;
                 s = set_next tail thread s;
                 s = set_prev head thread s
             in Ok s)"

definition sched_dequeue :: "ptr \<Rightarrow> 'z kstate_scheme \<Rightarrow> 'z kstate_scheme" where
  "sched_dequeue thread s =
     (if thread = NULL then s
      else if \<not> sched_is_queued thread s then s
      else
        let prio = sched_level (priority (tcbs s thread));
            prev = sched_prev (tcbs s thread);
            nxt = sched_next (tcbs s thread);
            s = (if thread = nxt then
                   s\<lparr>ready_queue := (ready_queue s)(prio := NULL),
                     ready_bitmap := bit_off (ready_bitmap s) (31 - prio)\<rparr>
                 else
                   let s = set_next prev nxt s;
                       s = set_prev nxt prev s
                   in if ready_queue s prio = thread
                      then s\<lparr>ready_queue := (ready_queue s)(prio := nxt)\<rparr> else s)
        in sched_link_init thread s)"

definition sched_yield :: "'z kstate_scheme \<Rightarrow> 'z kstate_scheme" where
  "sched_yield s =
     (let curr = current s in
      if curr = NULL then s
      else if \<not> sched_is_queued curr s then s
      else
        let prio = sched_level (priority (tcbs s curr));
            head = ready_queue s prio
        in if head \<noteq> NULL \<and> sched_next (tcbs s head) \<noteq> head
           then s\<lparr>ready_queue := (ready_queue s)(prio := sched_next (tcbs s head))\<rparr>
           else s)"

text \<open>
  Preemption-threshold scheduling: a runnable current thread keeps the processor unless the best
  ready priority is numerically below its threshold.
\<close>

definition schedule_select :: "'z kstate_scheme \<Rightarrow> (ptr \<times> 'z kstate_scheme) result" where
  "schedule_select s =
     (let prio = clz32 (ready_bitmap s) in
      if prio \<ge> SCHED_PRIORITY_LEVELS
        then Fault (Panic ''SCHED: Empty ready_bitmap (idle missing)'')
      else
        let thread = ready_queue s prio in
        if thread = NULL then Fault (Panic ''SCHED: Inconsistent bitmap/queue'')
        else
          let curr = current s in
          if curr \<noteq> NULL \<and> state (tcbs s curr) = T_RUNNABLE \<and> curr \<noteq> thread \<and>
             prio \<ge> unat (preempt_threshold (tcbs s curr))
          then Ok (curr,
                 if preempt_threshold (tcbs s curr) \<noteq> priority (tcbs s curr)
                 then s\<lparr>preempted_bitmap :=
                          preempted_bitmap s OR push_bit (31 - unat (priority (tcbs s curr))) 1\<rparr>
                 else s)
          else Ok (thread, s\<lparr>preempted_bitmap := bit_off (preempted_bitmap s) (31 - prio)\<rparr>))"

definition sched_set_priority :: "ptr \<Rightarrow> u8 \<Rightarrow> 'z kstate_scheme \<Rightarrow> 'z kstate_scheme result" where
  "sched_set_priority thread new_prio s =
     (if thread = NULL then Ok s
      else
        let new_prio = (if unat new_prio \<ge> SCHED_PRIORITY_LEVELS then SCHED_PRIO_IDLE else new_prio) in
        if priority (tcbs s thread) = new_prio then Ok s
        else
          let was_queued = sched_is_queued thread s;
              s = (if was_queued then sched_dequeue thread s else s);
              s = set_prio thread new_prio s
          in if was_queued then sched_enqueue thread s else Ok s)"

text \<open>
  \<open>sched_preemption_change\<close> returns the error code, the old threshold (what
  \<open>*old_threshold\<close> receives, if it is written) and the new state.
\<close>

definition sched_preemption_change ::
  "ptr \<Rightarrow> u8 \<Rightarrow> 'z kstate_scheme \<Rightarrow> int \<times> u8 option \<times> 'z kstate_scheme" where
  "sched_preemption_change thread new_threshold s =
     (if thread = NULL then (-1, None, s)
      else if new_threshold > user_priority (tcbs s thread) then (-1, None, s)
      else
        let old_thresh = user_preempt_threshold (tcbs s thread);
            s = (if new_threshold < inherit_priority (tcbs s thread)
                 then tcb_upd thread (preempt_threshold_update (\<lambda>_. new_threshold)) s
                 else tcb_upd thread (\<lambda>t. t\<lparr>preempt_threshold := inherit_priority t\<rparr>) s);
            s = tcb_upd thread (user_preempt_threshold_update (\<lambda>_. new_threshold)) s;
            t = tcbs s thread
        in if thread = current s \<and> preempt_threshold t > old_thresh then
             (if clz32 (ready_bitmap s) < unat (preempt_threshold t) then
                (0, Some old_thresh,
                 s\<lparr>preempted_bitmap := preempted_bitmap s AND NOT (push_bit (31 - unat (priority t)) 1),
                   pendsv := True\<rparr>)
              else if preempt_threshold t = priority t then
                (0, Some old_thresh,
                 s\<lparr>preempted_bitmap := preempted_bitmap s AND NOT (push_bit (31 - unat (priority t)) 1)\<rparr>)
              else (0, Some old_thresh, s))
           else (0, Some old_thresh, s))"

subsection \<open>Priority inheritance (\<^verbatim>\<open>kernel/thread.c\<close>)\<close>

text \<open>The tighter of the user threshold and the inherited priority.\<close>

definition recalc_threshold :: "tcb \<Rightarrow> tcb" where
  "recalc_threshold t =
     t\<lparr>preempt_threshold :=
         (if user_preempt_threshold t < inherit_priority t then user_preempt_threshold t
          else inherit_priority t)\<rparr>"

definition thread_priority_inherit :: "ptr \<Rightarrow> ptr \<Rightarrow> 'z kstate_scheme \<Rightarrow> 'z kstate_scheme result" where
  "thread_priority_inherit waiter holder s =
     (if waiter = NULL \<or> holder = NULL then Ok s
      else if priority (tcbs s waiter) < priority (tcbs s holder) then
        let wp = priority (tcbs s waiter);
            s = tcb_upd holder (inherit_priority_update (\<lambda>_. wp)) s;
            s = set_prio holder (priority (tcbs s waiter)) s;
            s = tcb_upd holder recalc_threshold s
        in if sched_is_queued holder s then sched_enqueue holder (sched_dequeue holder s) else Ok s
      else Ok s)"

definition thread_priority_disinherit :: "ptr \<Rightarrow> 'z kstate_scheme \<Rightarrow> 'z kstate_scheme result" where
  "thread_priority_disinherit holder s =
     (if holder = NULL then Ok s
      else
        let s = tcb_upd holder (\<lambda>t. t\<lparr>priority := user_priority t\<rparr>) s;
            s = tcb_upd holder (\<lambda>t. t\<lparr>inherit_priority := user_priority t\<rparr>) s;
            s = tcb_upd holder recalc_threshold s
        in if sched_is_queued holder s then sched_enqueue holder (sched_dequeue holder s) else Ok s)"

subsection \<open>What the pointers represent\<close>

definition nx :: "'z kstate_scheme \<Rightarrow> ptr \<Rightarrow> ptr" where "nx s = (\<lambda>p. sched_next (tcbs s p))"
definition pv :: "'z kstate_scheme \<Rightarrow> ptr \<Rightarrow> ptr" where "pv s = (\<lambda>p. sched_prev (tcbs s p))"
definition runnable :: "'z kstate_scheme \<Rightarrow> ptr \<Rightarrow> bool" where
  "runnable s p \<longleftrightarrow> state (tcbs s p) = T_RUNNABLE"
definition level :: "'z kstate_scheme \<Rightarrow> ptr \<Rightarrow> nat" where
  "level s p = sched_level (priority (tcbs s p))"

definition head_of :: "ptr list \<Rightarrow> ptr" where
  "head_of q = (case q of [] \<Rightarrow> NULL | h # _ \<Rightarrow> h)"

text \<open>
  The queue invariant: heads, rings and bitmap agree with the lists; queued threads are runnable and
  stand in the list of their priority; a thread is linked exactly when it is in some list.
\<close>

definition rq_rep :: "'z kstate_scheme \<Rightarrow> (nat \<Rightarrow> ptr list) \<Rightarrow> bool" where
  "rq_rep s q \<longleftrightarrow>
     (\<forall>p < 32. ready_queue s p = head_of (q p) \<and> ring (nx s) (pv s) (q p) \<and> distinct (q p) \<and>
        (bit (ready_bitmap s) (31 - p) \<longleftrightarrow> q p \<noteq> []) \<and>
        (\<forall>t \<in> set (q p). t \<noteq> NULL \<and> runnable s t \<and> level s t = p)) \<and>
     (\<forall>t. t \<noteq> NULL \<longrightarrow> pv s t \<noteq> NULL \<longrightarrow> t \<in> set (q (level s t)))"

lemma sched_level_less [simp]: "sched_level p < 32"
  by (simp add: sched_level_def)

lemma level_less [simp]: "level s t < 32"
  by (simp add: level_def)

lemma sched_is_queued_pv: "sched_is_queued t s \<longleftrightarrow> pv s t \<noteq> NULL"
  by (simp add: sched_is_queued_def pv_def)

lemmas link_defs = set_next_def set_prev_def set_state_def set_prio_def sched_link_init_def

lemma set_links [simp]:
  "nx (set_next p v s) = (nx s)(p := v)"  "pv (set_next p v s) = pv s"
  "nx (set_prev p v s) = nx s"  "pv (set_prev p v s) = (pv s)(p := v)"
  "runnable (set_next p v s) = runnable s"  "runnable (set_prev p v s) = runnable s"
  "level (set_next p v s) = level s"  "level (set_prev p v s) = level s"
  "ready_queue (set_next p v s) = ready_queue s"  "ready_queue (set_prev p v s) = ready_queue s"
  "ready_bitmap (set_next p v s) = ready_bitmap s"  "ready_bitmap (set_prev p v s) = ready_bitmap s"
  by (auto simp: link_defs nx_def pv_def runnable_def level_def fun_eq_iff)

lemma globals_links [simp]:
  "nx (s\<lparr>ready_queue := f\<rparr>) = nx s"  "nx (s\<lparr>ready_bitmap := b\<rparr>) = nx s"
  "pv (s\<lparr>ready_queue := f\<rparr>) = pv s"  "pv (s\<lparr>ready_bitmap := b\<rparr>) = pv s"
  "runnable (s\<lparr>ready_queue := f\<rparr>) = runnable s"  "runnable (s\<lparr>ready_bitmap := b\<rparr>) = runnable s"
  "level (s\<lparr>ready_queue := f\<rparr>) = level s"  "level (s\<lparr>ready_bitmap := b\<rparr>) = level s"
  by (simp_all add: nx_def pv_def runnable_def level_def fun_eq_iff)

lemma level_31 [simp]: "p < 32 \<Longrightarrow> r < 32 \<Longrightarrow> (31 - p = 31 - r) = (p = (r :: nat))"
  by arith

lemma bit_on_level [simp]:
  "p < 32 \<Longrightarrow> r < 32 \<Longrightarrow> bit (bit_on w (31 - p)) (31 - r) \<longleftrightarrow> r = p \<or> bit w (31 - r)"
  by (auto simp: bit_bit_on)

lemma bit_off_level [simp]:
  "p < 32 \<Longrightarrow> r < 32 \<Longrightarrow> bit (bit_off w (31 - p)) (31 - r) \<longleftrightarrow> r \<noteq> p \<and> bit w (31 - r)"
  by (auto simp: bit_bit_off)

text \<open>Rules to use and to establish the invariant.\<close>

lemma rq_repD:
  assumes "rq_rep s q" "p < 32"
  shows "ready_queue s p = head_of (q p)" "ring (nx s) (pv s) (q p)" "distinct (q p)"
    "bit (ready_bitmap s) (31 - p) \<longleftrightarrow> q p \<noteq> []"
  using assms by (auto simp: rq_rep_def)

lemma rq_rep_member:
  assumes "rq_rep s q" "p < 32" "t \<in> set (q p)"
  shows "t \<noteq> NULL" "runnable s t" "level s t = p"
  using assms by (auto simp: rq_rep_def)

lemma rq_rep_queued_iff:
  assumes "rq_rep s q" "t \<noteq> NULL"
  shows "pv s t \<noteq> NULL \<longleftrightarrow> t \<in> set (q (level s t))"
proof
  assume m: "t \<in> set (q (level s t))"
  have "ring (nx s) (pv s) (q (level s t))" using assms(1) by (rule rq_repD(2)) simp
  then have "pv s t \<in> set (q (level s t))" using ring_closed [OF _ m] by simp
  then show "pv s t \<noteq> NULL" using rq_rep_member(1) [OF assms(1), of "level s t"] by auto
qed (use assms in \<open>auto simp: rq_rep_def\<close>)

lemma rq_rep_in_level: "rq_rep s q \<Longrightarrow> p < 32 \<Longrightarrow> t \<in> set (q p) \<Longrightarrow> t \<in> set (q (level s t))"
  using rq_rep_member(3) [of s q p t] by simp

lemma rq_repI:
  assumes "\<And>p. p < 32 \<Longrightarrow> ready_queue s p = head_of (q p)"
    and "\<And>p. p < 32 \<Longrightarrow> ring (nx s) (pv s) (q p)" and "\<And>p. p < 32 \<Longrightarrow> distinct (q p)"
    and "\<And>p. p < 32 \<Longrightarrow> bit (ready_bitmap s) (31 - p) \<longleftrightarrow> q p \<noteq> []"
    and "\<And>p t. p < 32 \<Longrightarrow> t \<in> set (q p) \<Longrightarrow> t \<noteq> NULL \<and> runnable s t \<and> level s t = p"
    and "\<And>t. t \<noteq> NULL \<Longrightarrow> pv s t \<noteq> NULL \<Longrightarrow> t \<in> set (q (level s t))"
  shows "rq_rep s q"
  using assms by (simp add: rq_rep_def)

lemma head_of_simps [simp]: "head_of [] = NULL" "head_of (x # xs) = x"
  by (simp_all add: head_of_def)

lemma rq_rep_head_null:
  assumes "rq_rep s q" "p < 32"
  shows "ready_queue s p = NULL \<longleftrightarrow> q p = []"
  using rq_repD(1) [OF assms] rq_rep_member(1) [OF assms] by (cases "q p") auto

subsection \<open>Refinement of the list operations\<close>

lemma sched_init_rep:
  assumes "\<And>t. t \<noteq> NULL \<Longrightarrow> pv s t = NULL"
  shows "rq_rep (sched_init s) (\<lambda>_. [])"
proof -
  have "fold (\<lambda>i rq. rq(i := NULL)) [0..<n] f p = (if p < n then NULL else f p)" for n p and f :: "nat \<Rightarrow> ptr"
    by (induction n) auto
  then show ?thesis using assms by (intro rq_repI) (auto simp: sched_init_def pv_def)
qed

lemma sched_enqueue_rep:
  assumes rep: "rq_rep s q" and t: "t \<noteq> NULL" and run: "state (tcbs s t) = T_RUNNABLE"
    and nq: "\<not> sched_is_queued t s"
  shows "\<exists>s'. sched_enqueue t s = Ok s' \<and> rq_rep s' (q(level s t := q (level s t) @ [t]))"
proof -
  let ?p = "level s t"
  have pl: "?p < 32" by simp
  have np: "t \<notin> set (q r)" if "r < 32" for r
    using nq rq_rep_queued_iff [OF rep t] rq_rep_in_level [OF rep that] sched_is_queued_pv by blast
  have rt: "runnable s t" using run by (simp add: runnable_def)
  show ?thesis
  proof (cases "q ?p")
    case Nil
    define s' where "s' = (let s = s\<lparr>ready_queue := (ready_queue s)(?p := t)\<rparr>;
      s = set_prev t t s; s = set_next t t s in s\<lparr>ready_bitmap := bit_on (ready_bitmap s) (31 - ?p)\<rparr>)"
    have e: "sched_enqueue t s = Ok s'"
      using t run nq rq_rep_head_null [OF rep pl] Nil
      by (simp add: sched_enqueue_def s'_def Let_def level_def)
    have o: "ring ((nx s)(t := t)) ((pv s)(t := t)) (q r)" if "r < 32" for r
      using rq_repD(2) [OF rep that] np [OF that] by (subst ring_cong) auto
    have "rq_rep s' (q(?p := q ?p @ [t]))"
    proof (rule rq_repI)
      fix p :: nat assume p: "p < 32"
      show "ready_queue s' p = head_of ((q(?p := q ?p @ [t])) p)"
        using rq_repD(1) [OF rep p] Nil by (auto simp: s'_def Let_def)
      show "ring (nx s') (pv s') ((q(?p := q ?p @ [t])) p)"
        using o [OF p] Nil by (auto simp: s'_def Let_def)
      show "distinct ((q(?p := q ?p @ [t])) p)" using rq_repD(3) [OF rep p] Nil by auto
      show "bit (ready_bitmap s') (31 - p) \<longleftrightarrow> (q(?p := q ?p @ [t])) p \<noteq> []"
        using rq_repD(4) [OF rep p] p by (auto simp: s'_def Let_def)
      fix x assume "x \<in> set ((q(?p := q ?p @ [t])) p)"
      then show "x \<noteq> NULL \<and> runnable s' x \<and> level s' x = p"
        using rq_rep_member [OF rep p] Nil t rt by (auto simp: s'_def Let_def split: if_splits)
    next
      fix x assume "x \<noteq> NULL" "pv s' x \<noteq> NULL"
      then show "x \<in> set ((q(?p := q ?p @ [t])) (level s' x))"
        using rep by (auto simp: s'_def Let_def rq_rep_def split: if_splits)
    qed
    with e show ?thesis by blast
  next
    case (Cons h xs)
    define s' where "s' = (let tl = pv s h; s = set_next t h s; s = set_prev t tl s; s = set_next tl t s
      in set_prev h t s)"
    have h: "ready_queue s ?p = h" "h \<noteq> NULL"
      using rq_repD(1) [OF rep pl] rq_rep_member(1) [OF rep pl] Cons by auto
    have e: "sched_enqueue t s = Ok s'"
      using t run nq h by (simp add: sched_enqueue_def s'_def Let_def level_def pv_def)
    have d: "distinct (h # xs)" and r: "ring (nx s) (pv s) (h # xs)"
      using rq_repD(2,3) [OF rep pl] Cons by simp_all
    have tn: "t \<notin> set (h # xs)" using np [OF pl] Cons by simp
    have tl: "pv s h \<in> set (h # xs)" using ring_closed [OF r, of h] by simp
    have ring': "ring (nx s') (pv s') (h # xs @ [t])"
      using ring_insert_tail [OF r d tn] by (simp add: s'_def Let_def del: ring.simps)
    have o: "ring (nx s') (pv s') (q r)" if "r < 32" "r \<noteq> ?p" for r
    proof -
      have "x \<noteq> t \<and> x \<noteq> h \<and> x \<noteq> pv s h" if x: "x \<in> set (q r)" for x
        using x rq_rep_member(3) [OF rep \<open>r < 32\<close> x] rq_rep_member(3) [OF rep pl] tl Cons
          np \<open>r < 32\<close> \<open>r \<noteq> ?p\<close> by (metis list.set_intros(1))
      then show ?thesis
        using rq_repD(2) [OF rep \<open>r < 32\<close>] by (subst ring_cong) (auto simp: s'_def Let_def)
    qed
    have "rq_rep s' (q(?p := q ?p @ [t]))"
    proof (rule rq_repI)
      fix p :: nat assume p: "p < 32"
      show "ready_queue s' p = head_of ((q(?p := q ?p @ [t])) p)"
        using rq_repD(1) [OF rep p] Cons by (auto simp: s'_def Let_def)
      show "ring (nx s') (pv s') ((q(?p := q ?p @ [t])) p)"
        using o [OF p] ring' Cons by (auto simp del: ring.simps)
      show "distinct ((q(?p := q ?p @ [t])) p)"
        using rq_repD(3) [OF rep p] np [OF p] by auto
      show "bit (ready_bitmap s') (31 - p) \<longleftrightarrow> (q(?p := q ?p @ [t])) p \<noteq> []"
        using rq_repD(4) [OF rep p] Cons by (auto simp: s'_def Let_def)
      fix x assume "x \<in> set ((q(?p := q ?p @ [t])) p)"
      then show "x \<noteq> NULL \<and> runnable s' x \<and> level s' x = p"
        using rq_rep_member [OF rep p] t rt by (auto simp: s'_def Let_def split: if_splits)
    next
      fix x assume x: "x \<noteq> NULL" "pv s' x \<noteq> NULL"
      show "x \<in> set ((q(?p := q ?p @ [t])) (level s' x))"
      proof (cases "x = h \<or> x = t")
        case True
        then show ?thesis
          using Cons rq_rep_member(3) [OF rep pl, of h] by (auto simp: s'_def Let_def)
      next
        case False
        then have "x \<in> set (q (level s x))"
          using x rep by (simp add: s'_def Let_def rq_rep_def)
        then show ?thesis by (auto simp: s'_def Let_def)
      qed
    qed
    with e show ?thesis by blast
  qed
qed

text \<open>Removing a thread: the whole list operation, whether the thread is queued or not.\<close>

lemma sched_link_init_links [simp]:
  "nx (sched_link_init t s) = (nx s)(t := NULL)"  "pv (sched_link_init t s) = (pv s)(t := NULL)"
  "runnable (sched_link_init t s) = runnable s"  "level (sched_link_init t s) = level s"
  "ready_queue (sched_link_init t s) = ready_queue s"
  "ready_bitmap (sched_link_init t s) = ready_bitmap s"
  by (simp_all add: sched_link_init_def)

lemma removeAll_split: "distinct (xs @ t # ys) \<Longrightarrow> removeAll t (xs @ t # ys) = xs @ ys"
  by simp

lemma sched_dequeue_unlink:
  assumes rep: "rq_rep s q" and t: "t \<noteq> NULL" and q: "pv s t \<noteq> NULL" and p: "p = level s t"
  shows "nx (sched_dequeue t s) = (if q p = [t] then nx s else (nx s)(pv s t := nx s t))(t := NULL)"
    and "pv (sched_dequeue t s) = (if q p = [t] then pv s else (pv s)(nx s t := pv s t))(t := NULL)"
    and "runnable (sched_dequeue t s) = runnable s" and "level (sched_dequeue t s) = level s"
    and "ready_queue (sched_dequeue t s) = (ready_queue s)(p := head_of (removeAll t (q p)))"
    and "ready_bitmap (sched_dequeue t s) =
           (if q p = [t] then bit_off (ready_bitmap s) (31 - p) else ready_bitmap s)"
proof -
  have pl: "p < 32" using p by simp
  have m: "t \<in> set (q p)" using rq_rep_queued_iff [OF rep t] q p by simp
  note r = rq_repD [OF rep pl]
  have sing: "t = nx s t \<longleftrightarrow> q p = [t]" using ring_singleton_iff [OF r(2,3) m] by auto
  have ul: "sched_level (priority (tcbs s t)) = p" using p by (simp add: level_def)
  have hd: "head_of (removeAll t (q p)) = (if q p = [t] then NULL
      else if ready_queue s p = t then nx s t else ready_queue s p)"
  proof (cases "q p")
    case (Cons h xs)
    show ?thesis
    proof (cases "h = t")
      case True
      then have "t \<notin> set xs" "nx s t = hd (xs @ [t])"
        using r(3) Cons ring_next_hd [of "nx s" "pv s" t xs] r(2) by (simp_all del: ring.simps)
      then show ?thesis using True Cons r(1) by (cases xs) auto
    next
      case False
      then show ?thesis using Cons r(1) by auto
    qed
  qed (use m in simp)
  have nt: "sched_next (tcbs s t) = nx s t" "sched_prev (tcbs s t) = pv s t" by (simp_all add: nx_def pv_def)
  note d = sched_dequeue_def [of t s, unfolded sched_is_queued_pv ul Let_def nt]
  show "nx (sched_dequeue t s) = (if q p = [t] then nx s else (nx s)(pv s t := nx s t))(t := NULL)"
    and "pv (sched_dequeue t s) = (if q p = [t] then pv s else (pv s)(nx s t := pv s t))(t := NULL)"
    and "runnable (sched_dequeue t s) = runnable s" and "level (sched_dequeue t s) = level s"
    and "ready_bitmap (sched_dequeue t s) =
           (if q p = [t] then bit_off (ready_bitmap s) (31 - p) else ready_bitmap s)"
    unfolding d using t q sing by simp_all
  show "ready_queue (sched_dequeue t s) = (ready_queue s)(p := head_of (removeAll t (q p)))"
    unfolding d hd using t q sing by (auto simp: fun_eq_iff)
qed

lemma sched_dequeue_rep:
  assumes rep: "rq_rep s q" and t: "t \<noteq> NULL"
  shows "rq_rep (sched_dequeue t s) (\<lambda>p. removeAll t (q p))"
proof (cases "pv s t = NULL")
  case True
  then have "removeAll t (q p) = q p" if "p < 32" for p
    using rq_rep_queued_iff [OF rep t] rq_rep_in_level [OF rep that] by (intro removeAll_id) blast
  moreover have "sched_dequeue t s = s" using True by (simp add: sched_dequeue_def sched_is_queued_pv)
  ultimately show ?thesis using rep by (simp add: rq_rep_def)
next
  case False
  let ?p = "level s t" and ?s = "sched_dequeue t s"
  have m: "t \<in> set (q ?p)" using rq_rep_queued_iff [OF rep t] False by simp
  note u = sched_dequeue_unlink [OF rep t False refl]
  have other: "removeAll t (q p) = q p" if "p < 32" "p \<noteq> ?p" for p
    using rq_rep_member(3) [OF rep that(1)] that(2) by (intro removeAll_id) blast
  have at: "ring (nx ?s) (pv ?s) (removeAll t (q ?p))"
  proof (cases "q ?p = [t]")
    case True
    then show ?thesis by simp
  next
    case ne: False
    obtain xs ys where sp: "q ?p = xs @ t # ys" using m by (meson split_list)
    have d: "distinct (xs @ t # ys)" and r: "ring (nx s) (pv s) (xs @ t # ys)"
      using rq_repD(2,3) [OF rep level_less, of s t] sp by (simp_all add: sp)
    have "xs @ ys \<noteq> []" using ne sp by auto
    then have "ring ((nx s)(pv s t := nx s t)) ((pv s)(nx s t := pv s t)) (xs @ ys)"
      by (rule ring_unlink [OF r d])
    then have "ring (nx ?s) (pv ?s) (xs @ ys)" using d ne by (subst ring_cong) (auto simp: u)
    then show ?thesis using sp d by simp
  qed
  have cl: "nx s t \<in> set (q ?p) \<and> pv s t \<in> set (q ?p)"
    using ring_closed [OF rq_repD(2) [OF rep level_less] m] .
  have elsewhere: "ring (nx ?s) (pv ?s) (q p)" if "p < 32" "p \<noteq> ?p" for p
  proof -
    have "x \<noteq> t \<and> x \<noteq> nx s t \<and> x \<noteq> pv s t" if "x \<in> set (q p)" for x
      using rq_rep_member(3) [OF rep \<open>p < 32\<close> that] rq_rep_member(3) [OF rep level_less] cl m \<open>p \<noteq> ?p\<close>
      by metis
    then show ?thesis using rq_repD(2) [OF rep \<open>p < 32\<close>] by (subst ring_cong) (auto simp: u)
  qed
  show ?thesis
  proof (rule rq_repI)
    fix p :: nat assume p: "p < 32"
    show "ready_queue ?s p = head_of (removeAll t (q p))"
      using rq_repD(1) [OF rep p] other [OF p] by (auto simp: u)
    show "ring (nx ?s) (pv ?s) (removeAll t (q p))"
      using at elsewhere [OF p] other [OF p] by (cases "p = ?p") auto
    show "distinct (removeAll t (q p))" using rq_repD(3) [OF rep p] by (simp add: distinct_removeAll)
    have "removeAll t (q ?p) = [] \<longleftrightarrow> q ?p = [t]"
    proof
      assume e: "removeAll t (q ?p) = []"
      obtain xs ys where sp: "q ?p = xs @ t # ys" using m by (meson split_list)
      have "distinct (xs @ t # ys)" using rq_repD(3) [OF rep level_less, of s t] sp by simp
      then show "q ?p = [t]" using e sp by simp
    qed simp
    then show "bit (ready_bitmap ?s) (31 - p) \<longleftrightarrow> removeAll t (q p) \<noteq> []"
      using rq_repD(4) [OF rep p] other [OF p] p m by (cases "p = ?p") (auto simp: u)
    fix x assume "x \<in> set (removeAll t (q p))"
    then show "x \<noteq> NULL \<and> runnable ?s x \<and> level ?s x = p"
      using rq_rep_member [OF rep p] by (auto simp: u)
  next
    fix x assume x: "x \<noteq> NULL" "pv ?s x \<noteq> NULL"
    then have "x \<noteq> t" by (auto simp: u split: if_splits)
    moreover have "x \<in> set (q (level s x))"
    proof (cases "x = nx s t")
      case True
      then show ?thesis using cl rq_rep_member(3) [OF rep level_less] by metis
    next
      case nt: False
      then have "pv s x \<noteq> NULL" using x by (auto simp: u split: if_splits)
      then show ?thesis using x rep by (simp add: rq_rep_def)
    qed
    ultimately show "x \<in> set (removeAll t (q (level ?s x)))" by (auto simp: u)
  qed
qed

text \<open>Updates of TCB fields that do not matter to the queues.\<close>

lemma rq_rep_tcb_upd_unqueued:
  assumes rep: "rq_rep s q" and u: "pv s t = NULL \<or> t = NULL"
    and f: "\<And>x. sched_prev (f x) = sched_prev x" "\<And>x. sched_next (f x) = sched_next x"
  shows "rq_rep (tcb_upd t f s) q"
proof -
  have l: "nx (tcb_upd t f s) = nx s" "pv (tcb_upd t f s) = pv s"
    using f by (auto simp: nx_def pv_def)
  have o: "runnable (tcb_upd t f s) x = runnable s x" "level (tcb_upd t f s) x = level s x" if "x \<noteq> t" for x
    using that by (auto simp: runnable_def level_def)
  have nm: "t \<notin> set (q p)" if "p < 32" for p
    using u rq_rep_queued_iff [OF rep] rq_rep_in_level [OF rep that] rq_rep_member(1) [OF rep that] by blast
  show ?thesis
  proof (rule rq_repI)
    fix p x assume p: "p < 32" "x \<in> set (q p)"
    then have "x \<noteq> t" using nm by blast
    then show "x \<noteq> NULL \<and> runnable (tcb_upd t f s) x \<and> level (tcb_upd t f s) x = p"
      using o rq_rep_member [OF rep p] by simp
  next
    fix x assume x: "x \<noteq> NULL" "pv (tcb_upd t f s) x \<noteq> NULL"
    then have "x \<noteq> t" using u by (auto simp: l)
    moreover have "x \<in> set (q (level s x))" using rep x by (simp add: l rq_rep_def)
    ultimately show "x \<in> set (q (level (tcb_upd t f s) x))" by (simp add: o)
  qed (use rep in \<open>auto simp: l rq_rep_def\<close>)
qed

lemma rq_rep_tcb_upd_frame:
  assumes rep: "rq_rep s q"
    and f: "\<And>x. sched_prev (f x) = sched_prev x" "\<And>x. sched_next (f x) = sched_next x"
      "\<And>x. state (f x) = state x" "\<And>x. priority (f x) = priority x"
  shows "rq_rep (tcb_upd t f s) q"
proof -
  have "nx (tcb_upd t f s) = nx s" "pv (tcb_upd t f s) = pv s"
    "runnable (tcb_upd t f s) = runnable s" "level (tcb_upd t f s) = level s"
    using f by (auto simp: nx_def pv_def runnable_def level_def fun_eq_iff)
  then show ?thesis using rep by (simp add: rq_rep_def)
qed

lemma rq_rep_globals:
  assumes "rq_rep s q" and "tcbs s' = tcbs s" "ready_queue s' = ready_queue s" "ready_bitmap s' = ready_bitmap s"
  shows "rq_rep s' q"
proof -
  have "nx s' = nx s" "pv s' = pv s" "runnable s' = runnable s" "level s' = level s"
    using assms by (auto simp: nx_def pv_def runnable_def level_def fun_eq_iff)
  then show ?thesis using assms by (simp add: rq_rep_def)
qed

subsection \<open>The contract between the queues and their clients\<close>

text \<open>
  A client that re-prioritises, blocks or wakes a thread relies on these laws only. \<open>move\<close> is the
  order every such client has to follow: take the thread out of its queue, change it, put it back.
\<close>

locale ready_queues =
  fixes rep :: "'s \<Rightarrow> (nat \<Rightarrow> 't list) \<Rightarrow> bool"
    and lvl :: "'s \<Rightarrow> 't \<Rightarrow> nat"
    and ready :: "'s \<Rightarrow> 't \<Rightarrow> bool"
    and queued :: "'s \<Rightarrow> 't \<Rightarrow> bool"
    and enq :: "'t \<Rightarrow> 's \<Rightarrow> 's result"
    and deq :: "'t \<Rightarrow> 's \<Rightarrow> 's"
    and nlevels :: nat
  assumes lvl_bound: "lvl s t < nlevels"
    and rep_distinct: "rep s q \<Longrightarrow> p < nlevels \<Longrightarrow> distinct (q p)"
    and queued_iff: "rep s q \<Longrightarrow> ready s t \<Longrightarrow> queued s t \<longleftrightarrow> t \<in> set (q (lvl s t))"
    and in_own_level: "rep s q \<Longrightarrow> p < nlevels \<Longrightarrow> t \<in> set (q p) \<Longrightarrow> lvl s t = p \<and> ready s t"
    and enq_append: "rep s q \<Longrightarrow> ready s t \<Longrightarrow> \<not> queued s t \<Longrightarrow>
      \<exists>s'. enq t s = Ok s' \<and> rep s' (q(lvl s t := q (lvl s t) @ [t]))"
    and deq_remove: "rep s q \<Longrightarrow> ready s t \<Longrightarrow> rep (deq t s) (\<lambda>p. removeAll t (q p))"
    and deq_keeps: "ready (deq t s) = ready s" "lvl (deq t s) = lvl s"
    and deq_unqueued: "rep s q \<Longrightarrow> ready s t \<Longrightarrow> \<not> queued (deq t s) t"
begin

definition move :: "('s \<Rightarrow> 's) \<Rightarrow> 't \<Rightarrow> 's \<Rightarrow> 's result" where
  "move change t s = enq t (change (deq t s))"

text \<open>Whatever the change does to the level, the thread ends as the tail of its new level and every
  other thread stays where it was.\<close>

lemma move_rep:
  assumes rep: "rep s q" and t: "ready s t"
    and change: "\<And>s q. rep s q \<Longrightarrow> \<not> queued s t \<Longrightarrow> rep (change s) q"
      "\<And>s. ready (change s) t = ready s t" "\<And>s. queued (change s) t = queued s t"
  shows "\<exists>s'. move change t s = Ok s' \<and>
    rep s' ((\<lambda>p. removeAll t (q p)) (lvl (change (deq t s)) t :=
              removeAll t (q (lvl (change (deq t s)) t)) @ [t]))"
proof -
  have "rep (deq t s) (\<lambda>p. removeAll t (q p))" using rep t by (rule deq_remove)
  moreover have nq: "\<not> queued (deq t s) t" using rep t by (rule deq_unqueued)
  ultimately have "rep (change (deq t s)) (\<lambda>p. removeAll t (q p))" by (rule change(1))
  moreover have "ready (change (deq t s)) t" "\<not> queued (change (deq t s)) t"
    using t nq by (simp_all add: change deq_keeps)
  ultimately show ?thesis unfolding move_def by (rule enq_append)
qed

lemma requeue_same_level_is_rotation:
  assumes rep: "rep s q" and q: "q p = t # ts" and p: "p < nlevels"
  shows "\<exists>s'. move (\<lambda>s. s) t s = Ok s' \<and> rep s' ((\<lambda>r. removeAll t (q r))(p := ts @ [t]))"
proof -
  have m: "t \<in> set (q p)" using q by simp
  then have l: "lvl s t = p" and r: "ready s t" using in_own_level [OF rep p] by auto
  have "removeAll t (q p) = ts" using rep_distinct [OF rep p] q by simp
  then show ?thesis using move_rep [OF rep r, of "\<lambda>s. s"] l by (simp add: deq_keeps)
qed

end

lemma sched_dequeue_keeps:
  "state (tcbs (sched_dequeue t s) x) = state (tcbs s x)"
  "priority (tcbs (sched_dequeue t s) x) = priority (tcbs s x)"
  "sched_prev (tcbs (sched_dequeue t s) t) = (if t = NULL then sched_prev (tcbs s t) else NULL)"
  by (auto simp: sched_dequeue_def Let_def link_defs sched_is_queued_def)

definition live_runnable :: "'z kstate_scheme \<Rightarrow> ptr \<Rightarrow> bool" where
  "live_runnable s t \<longleftrightarrow> t \<noteq> NULL \<and> state (tcbs s t) = T_RUNNABLE"

interpretation rq: ready_queues rq_rep level live_runnable "\<lambda>s t. sched_is_queued t s"
  sched_enqueue sched_dequeue 32
proof
  fix s :: "'z kstate_scheme" and q :: "nat \<Rightarrow> ptr list" and p :: nat and t :: ptr
  assume rep: "rq_rep s q"
  { assume p: "p < 32"
    show "distinct (q p)" using rep p by (rule rq_repD(3))
    assume "t \<in> set (q p)"
    then show "level s t = p \<and> live_runnable s t"
      using rq_rep_member [OF rep p] by (auto simp: live_runnable_def runnable_def) }
  assume r: "live_runnable s t"
  then have t: "t \<noteq> NULL" "state (tcbs s t) = T_RUNNABLE" by (auto simp: live_runnable_def)
  show "sched_is_queued t s \<longleftrightarrow> t \<in> set (q (level s t))"
    using rq_rep_queued_iff [OF rep t(1)] by (simp add: sched_is_queued_pv)
  show "rq_rep (sched_dequeue t s) (\<lambda>p. removeAll t (q p))" using rep t(1) by (rule sched_dequeue_rep)
  show "\<not> sched_is_queued t (sched_dequeue t s)"
    using t by (simp add: sched_is_queued_def sched_dequeue_keeps)
  assume "\<not> sched_is_queued t s"
  then show "\<exists>s'. sched_enqueue t s = Ok s' \<and> rq_rep s' (q(level s t := q (level s t) @ [t]))"
    by (rule sched_enqueue_rep [OF rep t])
qed (auto simp: live_runnable_def level_def sched_dequeue_keeps fun_eq_iff)

subsection \<open>Properties of the scheduler\<close>

lemma sched_yield_rotate:
  assumes rep: "rq_rep s q" and p: "p < 32" and h: "q p = h # n # ts"
  shows "rq_rep (s\<lparr>ready_queue := (ready_queue s)(p := nx s h)\<rparr>) (q(p := rotate1 (q p)))"
proof -
  let ?s = "s\<lparr>ready_queue := (ready_queue s)(p := nx s h)\<rparr>"
  have n: "nx s h = n" using rq_repD(2) [OF rep p] h by simp
  have r: "ring (nx s) (pv s) (rotate1 (q p))"
    using rq_repD(2) [OF rep p] h ring_rotate [of "nx s" "pv s" "[h]" "n # ts"] by simp
  have d: "distinct (rotate1 (q p))" using rq_repD(3) [OF rep p] by simp
  show ?thesis
  proof (rule rq_repI)
    fix r assume r32: "r < (32 :: nat)"
    note o = rq_repD [OF rep r32]
    show "ready_queue ?s r = head_of ((q(p := rotate1 (q p))) r)" using o(1) h n by (auto simp: head_of_def)
    show "ring (nx ?s) (pv ?s) ((q(p := rotate1 (q p))) r)" using o(2) r by simp
    show "distinct ((q(p := rotate1 (q p))) r)" using o(3) d by simp
    show "bit (ready_bitmap ?s) (31 - r) \<longleftrightarrow> (q(p := rotate1 (q p))) r \<noteq> []" using o(4) h by simp
    fix x assume "x \<in> set ((q(p := rotate1 (q p))) r)"
    then show "x \<noteq> NULL \<and> runnable ?s x \<and> level ?s x = r"
      using rq_rep_member [OF rep r32, of x] by (auto split: if_splits)
  next
    fix x assume "x \<noteq> NULL" "pv ?s x \<noteq> NULL"
    then show "x \<in> set ((q(p := rotate1 (q p))) (level ?s x))" using rep by (auto simp: rq_rep_def)
  qed
qed

lemma clz32_ready:
  assumes rep: "rq_rep s q" and p: "p < 32" "q p \<noteq> []" "\<And>r. r < p \<Longrightarrow> q r = []"
  shows "clz32 (ready_bitmap s) = p"
proof (rule clz32_eqI [OF p(1)])
  show "bit (ready_bitmap s) (31 - p)" using rq_repD(4) [OF rep p(1)] p(2) by simp
  fix r assume "r < p"
  then show "\<not> bit (ready_bitmap s) (31 - r)" using rq_repD(4) [OF rep, of r] p by simp
qed

lemma ready_bitmap_empty: "rq_rep s q \<Longrightarrow> \<forall>r < 32. q r = [] \<Longrightarrow> clz32 (ready_bitmap s) = 32"
proof -
  assume rep: "rq_rep s q" and e: "\<forall>r < 32. q r = []"
  have "\<not> bit (ready_bitmap s) n" if "n < 32" for n
    using rq_repD(4) [OF rep, of "31 - n"] e that by simp
  then have "ready_bitmap s = 0" by (simp add: u32_eq_zero_iff)
  then show ?thesis using clz32_zero_iff [of "ready_bitmap s"] clz32_le [of "ready_bitmap s"] by simp
qed

text \<open>A concrete ready state: thread 4096 alone at priority 2, threads 8192 and 12288 at priority 16.\<close>

definition tcb0 :: tcb where
  "tcb0 = \<lparr>sched_prev = 0, sched_next = 0, state = T_RUNNABLE, priority = 16, base_priority = 16,
     preempt_threshold = 16, user_priority = 16, t_globalid = 0, t_localid = 0, t_pager = 0,
     stack_base = 0, stack_size = 0, ctx = \<lparr>sp = 0, ret = 0, ctl = 0, regs = replicate 8 0\<rparr>,
     user_preempt_threshold = 16, inherit_priority = 16, t_as = 0, utcb = 0, ipc_from = 0,
     t_sibling = 0, t_parent = 0, t_child = 0, timeout_event = 0, ipc_notify = 0, notify_bits = 0,
     notify_mask = 0, notify_data = 0, notify_depth = 0, notify_generation = 0, notify_pending = 0,
     utcb_needs_sync = 0, stack_canary_needs_init = 0, msg_buffer = replicate 32 0\<rparr>"

definition idle_kstate :: kstate where
  "idle_kstate = \<lparr>tcbs = (\<lambda>_. tcb0), current = 8192, ready_bitmap = 0, preempted_bitmap = 0,
     ready_queue = (\<lambda>_. NULL), pendsv = False\<rparr>"

definition ready_example :: kstate where
  "ready_example = idle_kstate\<lparr>
     tcbs := (\<lambda>_. tcb0)(4096 := tcb0\<lparr>priority := 2, sched_prev := 4096, sched_next := 4096\<rparr>,
                        8192 := tcb0\<lparr>sched_prev := 12288, sched_next := 12288\<rparr>,
                        12288 := tcb0\<lparr>sched_prev := 8192, sched_next := 8192\<rparr>),
     ready_bitmap := bit_on (bit_on 0 29) 15,
     ready_queue := (\<lambda>_. NULL)(2 := 4096, 16 := 8192)\<rparr>"

definition ready_lists :: "nat \<Rightarrow> ptr list" where
  "ready_lists = (\<lambda>_. [])(2 := [4096], 16 := [8192, 12288])"

lemma ready_example_rep: "rq_rep ready_example ready_lists"
proof (rule rq_repI)
  fix p assume p: "p < (32 :: nat)"
  have "bit (bit_on (bit_on 0 29) 15 :: u32) (31 - p) \<longleftrightarrow> p = 2 \<or> p = 16"
    using p by (auto simp: bit_bit_on)
  then show "bit (ready_bitmap ready_example) (31 - p) \<longleftrightarrow> ready_lists p \<noteq> []"
    by (auto simp: ready_example_def ready_lists_def)
  show "ready_queue ready_example p = head_of (ready_lists p)"
    by (auto simp: ready_example_def ready_lists_def head_of_def)
  show "ring (nx ready_example) (pv ready_example) (ready_lists p)"
    by (auto simp: ready_example_def ready_lists_def nx_def pv_def)
  show "distinct (ready_lists p)" by (auto simp: ready_lists_def)
  fix t assume "t \<in> set (ready_lists p)"
  then show "t \<noteq> NULL \<and> runnable ready_example t \<and> level ready_example t = p"
    by (auto simp: ready_example_def ready_lists_def runnable_def level_def sched_level_def tcb0_def
        split: if_splits)
next
  fix t assume "t \<noteq> NULL" "pv ready_example t \<noteq> NULL"
  then show "t \<in> set (ready_lists (level ready_example t))"
    by (auto simp: ready_example_def idle_kstate_def ready_lists_def pv_def level_def sched_level_def tcb0_def
        split: if_splits)
qed

text \<open>C1. Enqueueing: a runnable thread that is in no queue becomes the tail of the list of its
  (clamped) priority; a thread already queued is left alone; enqueueing a thread that is not runnable
  panics. Nothing else of the queues changes.\<close>

theorem sched_enqueue_refines_append:
  assumes "rq_rep s q" and "t \<noteq> NULL"
  shows "case sched_enqueue t s of
           Ok s' \<Rightarrow> state (tcbs s t) = T_RUNNABLE \<and>
             rq_rep s' (if t \<in> set (q (level s t)) then q else q(level s t := q (level s t) @ [t]))
         | Fault e \<Rightarrow> state (tcbs s t) \<noteq> T_RUNNABLE \<and>
             e = Panic ''SCHED: Enqueueing non-runnable thread''"
proof (cases "state (tcbs s t) = T_RUNNABLE")
  case False
  then show ?thesis using assms(2) by (simp add: sched_enqueue_def)
next
  case r: True
  have qi: "sched_is_queued t s \<longleftrightarrow> t \<in> set (q (level s t))"
    using rq_rep_queued_iff [OF assms] by (simp add: sched_is_queued_pv)
  show ?thesis
  proof (cases "sched_is_queued t s")
    case True
    then have "sched_enqueue t s = Ok s" using r assms(2) by (simp add: sched_enqueue_def)
    then show ?thesis using r True qi assms(1) by simp
  next
    case False
    from sched_enqueue_rep [OF assms(1,2) r False]
    obtain s' where "sched_enqueue t s = Ok s'" "rq_rep s' (q(level s t := q (level s t) @ [t]))" by blast
    then show ?thesis using r False qi by simp
  qed
qed

theorem sched_enqueue_refines_append_witness:
  "case sched_enqueue 20480 ready_example of
     Ok s' \<Rightarrow> rq_rep s' (ready_lists(16 := [8192, 12288, 20480])) | Fault e \<Rightarrow> False"
  using sched_enqueue_refines_append [OF ready_example_rep, of 20480]
  by (auto simp: ready_example_def ready_lists_def level_def sched_level_def tcb0_def idle_kstate_def
      split: result.splits)

text \<open>C2. Dequeueing removes exactly the given thread from whatever queue holds it (the head pointer
  and the priority bitmap follow), is a no-op on a thread that is not queued, and always leaves the
  thread unlinked.\<close>

theorem sched_dequeue_refines_remove:
  assumes "rq_rep s q" and "t \<noteq> NULL"
  shows "rq_rep (sched_dequeue t s) (\<lambda>p. removeAll t (q p)) \<and> \<not> sched_is_queued t (sched_dequeue t s)
    \<and> (\<not> sched_is_queued t s \<longrightarrow> sched_dequeue t s = s)"
  using sched_dequeue_rep [OF assms] assms(2)
  by (auto simp: sched_is_queued_def sched_dequeue_keeps) (simp add: sched_dequeue_def sched_is_queued_def)

theorem sched_dequeue_refines_remove_witness:
  "rq_rep (sched_dequeue 8192 ready_example) (\<lambda>p. removeAll 8192 (ready_lists p))
   \<and> removeAll 8192 (ready_lists 16) = [12288]"
  using sched_dequeue_refines_remove [OF ready_example_rep, of 8192] by (simp add: ready_lists_def)

text \<open>C4. Yielding gives round robin inside one priority level: when the running thread is queued, the
  list of its level is rotated by one and every other level is untouched; otherwise nothing changes.\<close>

theorem sched_yield_is_round_robin:
  assumes rep: "rq_rep s q"
  shows "rq_rep (sched_yield s)
    (let c = current s; p = level s c in
     if c \<noteq> NULL \<and> sched_is_queued c s then q(p := rotate1 (q p)) else q)"
proof (cases "current s \<noteq> NULL \<and> sched_is_queued (current s) s")
  case True
  let ?c = "current s" and ?p = "level s (current s)"
  have m: "?c \<in> set (q ?p)" using True rq_rep_queued_iff [OF rep, of ?c] by (simp add: sched_is_queued_pv)
  then obtain h xs where h: "q ?p = h # xs" by (cases "q ?p") auto
  have hd: "ready_queue s ?p = h" using rq_repD(1) [OF rep, of ?p] h by (simp add: head_of_def)
  have hn: "h \<noteq> NULL" using rq_rep_member(1) [OF rep, of ?p h] h by simp
  have y: "sched_yield s = (if nx s h \<noteq> h then s\<lparr>ready_queue := (ready_queue s)(?p := nx s h)\<rparr> else s)"
    using True hd hn by (simp add: sched_yield_def Let_def level_def nx_def)
  have si: "nx s h = h \<longleftrightarrow> xs = []"
    using ring_singleton_iff [OF rq_repD(2,3) [OF rep, of ?p], of h] h by simp
  show ?thesis
  proof (cases xs)
    case Nil
    then have "q(?p := rotate1 (q ?p)) = q" using h by (simp add: fun_eq_iff)
    then show ?thesis using True Nil y si rep by (simp add: Let_def)
  next
    case (Cons n ts)
    then have "nx s h \<noteq> h" using si by simp
    moreover have "rq_rep (s\<lparr>ready_queue := (ready_queue s)(?p := nx s h)\<rparr>) (q(?p := rotate1 (q ?p)))"
      using h Cons by (intro sched_yield_rotate [OF rep]) auto
    ultimately show ?thesis using True y by (simp add: Let_def)
  qed
next
  case False
  then have "sched_yield s = s" by (auto simp: sched_yield_def Let_def)
  then show ?thesis using False rep by auto
qed

theorem sched_yield_is_round_robin_witness:
  "rq_rep (sched_yield ready_example) (ready_lists(16 := [12288, 8192]))"
  using sched_yield_is_round_robin [OF ready_example_rep]
  by (simp add: ready_example_def ready_lists_def level_def sched_level_def tcb0_def idle_kstate_def
      sched_is_queued_def Let_def)

lemma schedule_select_rep:
  assumes rep: "rq_rep s q" and p: "p < 32" and h: "q p = h # ts" and first: "\<And>r. r < p \<Longrightarrow> q r = []"
  shows "\<exists>s'. schedule_select s =
      Ok (if current s \<noteq> NULL \<and> runnable s (current s) \<and>
             unat (preempt_threshold (tcbs s (current s))) \<le> p then current s else h, s')
    \<and> s' = s\<lparr>preempted_bitmap := preempted_bitmap s'\<rparr> \<and> rq_rep s' q"
proof -
  have c: "clz32 (ready_bitmap s) = p" using clz32_ready [OF rep p _ first] h by simp
  have hd: "ready_queue s p = h" using rq_repD(1) [OF rep p] h by (simp add: head_of_def)
  have hn: "h \<noteq> NULL" using rq_rep_member(1) [OF rep p, of h] h by simp
  have rep': "rq_rep (s\<lparr>preempted_bitmap := b\<rparr>) q" for b by (rule rq_rep_globals [OF rep]) simp_all
  have fr: "s\<lparr>preempted_bitmap := b\<rparr> = s\<lparr>preempted_bitmap := preempted_bitmap (s\<lparr>preempted_bitmap := b\<rparr>)\<rparr>"
    "s = s\<lparr>preempted_bitmap := preempted_bitmap s\<rparr>" for b by simp_all
  show ?thesis
    unfolding schedule_select_def Let_def c hd
    using p hn rep rep' fr by (auto simp: runnable_def)
qed

text \<open>C3. Selection: with \<open>p\<close> the first non-empty level and \<open>h\<close> its head, the scheduler runs
  \<open>h\<close>, unless the current thread is still runnable and \<open>p\<close> is not numerically below its
  preemption threshold, in which case the current thread keeps the processor. It never panics then, and
  only \<open>preempted_bitmap\<close> changes.\<close>

theorem schedule_select_picks_highest_priority:
  assumes rep: "rq_rep s q" and p: "p < 32" and h: "q p = h # ts" and first: "\<And>r. r < p \<Longrightarrow> q r = []"
  shows "\<exists>s'. schedule_select s =
      Ok (if current s \<noteq> NULL \<and> runnable s (current s) \<and>
             unat (preempt_threshold (tcbs s (current s))) \<le> p then current s else h, s')
    \<and> s' = s\<lparr>preempted_bitmap := preempted_bitmap s'\<rparr> \<and> rq_rep s' q"
  by (rule schedule_select_rep [OF assms])

theorem schedule_select_picks_highest_priority_witness:
  "\<exists>s'. schedule_select ready_example = Ok (4096, s') \<and> rq_rep s' ready_lists"
proof -
  have "ready_lists 2 = 4096 # []" "\<And>r. r < 2 \<Longrightarrow> ready_lists r = []" by (auto simp: ready_lists_def)
  from schedule_select_picks_highest_priority [OF ready_example_rep _ this]
  show ?thesis by (auto simp: ready_example_def idle_kstate_def tcb0_def)
qed

text \<open>With every queue empty the selection panics instead of returning a thread; together with the
  previous property this is exactly when it panics.\<close>

theorem schedule_select_panics_iff_all_empty:
  assumes rep: "rq_rep s q"
  shows "(\<exists>r. schedule_select s = Ok r) \<longleftrightarrow> (\<exists>p < 32. q p \<noteq> [])"
proof
  assume "\<exists>r. schedule_select s = Ok r"
  then have "clz32 (ready_bitmap s) < 32" by (auto simp: schedule_select_def Let_def split: if_splits)
  then show "\<exists>p < 32. q p \<noteq> []" using ready_bitmap_empty [OF rep] by auto
next
  assume "\<exists>p < 32. q p \<noteq> []"
  define p where "p = clz32 (ready_bitmap s)"
  have p: "p < 32" using \<open>\<exists>p < 32. q p \<noteq> []\<close> rq_repD(4) [OF rep]
    unfolding p_def clz32_zero_iff by fastforce
  then have "q p \<noteq> []" using clz32_bit [of "ready_bitmap s"] rq_repD(4) [OF rep, of p] by (simp add: p_def)
  then obtain h ts where "q p = h # ts" by (cases "q p") auto
  then have "ready_queue s p \<noteq> NULL"
    using rq_repD(1) [OF rep p] rq_rep_member(1) [OF rep p, of h] by (simp add: head_of_def)
  then show "\<exists>r. schedule_select s = Ok r"
    using p unfolding schedule_select_def Let_def p_def [symmetric] by auto
qed

theorem schedule_select_panics_iff_all_empty_witness: "\<exists>r. schedule_select ready_example = Ok r"
proof -
  have "2 < (32 :: nat) \<and> ready_lists 2 \<noteq> []" by (simp add: ready_lists_def)
  then show ?thesis using schedule_select_panics_iff_all_empty [OF ready_example_rep] by blast
qed

definition clamp_prio :: "u8 \<Rightarrow> u8" where
  "clamp_prio v = (if unat v \<ge> 32 then 31 else v)"

lemma sched_level_clamp: "sched_level (clamp_prio v) = unat (clamp_prio v)"
  by (auto simp: sched_level_def clamp_prio_def)

lemma live_runnable_set_prio [simp]: "live_runnable (set_prio t v s) x = live_runnable s x"
  by (simp add: live_runnable_def set_prio_def)

lemma queued_set_prio [simp]: "sched_is_queued x (set_prio t v s) = sched_is_queued x s"
  by (simp add: sched_is_queued_def set_prio_def)

lemma level_set_prio: "level (set_prio t v s) t = sched_level v"
  by (simp add: level_def set_prio_def)

lemma rq_rep_set_prio: "rq_rep s q \<Longrightarrow> \<not> sched_is_queued t s \<Longrightarrow> rq_rep (set_prio t v s) q"
  unfolding set_prio_def by (rule rq_rep_tcb_upd_unqueued) (simp_all add: sched_is_queued_pv)

lemma sched_enqueue_keeps:
  "sched_enqueue t s = Ok s' \<Longrightarrow> state (tcbs s' x) = state (tcbs s x)"
  "sched_enqueue t s = Ok s' \<Longrightarrow> priority (tcbs s' x) = priority (tcbs s x)"
  by (auto simp: sched_enqueue_def Let_def link_defs split: if_splits)

lemma sched_set_priority_rep:
  assumes rep: "rq_rep s q" and t: "t \<noteq> NULL"
  shows "\<exists>s'. sched_set_priority t v s = Ok s' \<and> priority (tcbs s' t) = clamp_prio v \<and>
    rq_rep s' (if priority (tcbs s t) \<noteq> clamp_prio v \<and> t \<in> set (q (level s t))
               then (\<lambda>p. removeAll t (q p))(unat (clamp_prio v) := removeAll t (q (unat (clamp_prio v))) @ [t])
               else q)"
proof -
  let ?w = "clamp_prio v"
  have e: "sched_set_priority t v s =
      (if priority (tcbs s t) = ?w then Ok s
       else if sched_is_queued t s then rq.move (set_prio t ?w) t s else Ok (set_prio t ?w s))"
    using t by (simp add: sched_set_priority_def Let_def clamp_prio_def rq.move_def)
  have qi: "sched_is_queued t s \<longleftrightarrow> t \<in> set (q (level s t))"
    using rq_rep_queued_iff [OF rep t] by (simp add: sched_is_queued_pv)
  show ?thesis
  proof (cases "priority (tcbs s t) = ?w \<or> \<not> sched_is_queued t s")
    case True
    then show ?thesis using e qi rep rq_rep_set_prio [OF rep] by (auto simp: set_prio_def)
  next
    case False
    then have m: "t \<in> set (q (level s t))" using qi by simp
    then have r: "live_runnable s t"
      using rq_rep_member [OF rep level_less m] t by (simp add: live_runnable_def runnable_def)
    obtain s' where s': "rq.move (set_prio t ?w) t s = Ok s'"
        "rq_rep s' ((\<lambda>p. removeAll t (q p))(unat ?w := removeAll t (q (unat ?w)) @ [t]))"
      using rq.move_rep [OF rep r, of "set_prio t ?w", OF rq_rep_set_prio]
      by (auto simp: level_set_prio sched_level_clamp)
    moreover have "priority (tcbs s' t) = ?w"
      using sched_enqueue_keeps(2) [of t _ s' t] s'(1) by (simp add: rq.move_def set_prio_def)
    ultimately show ?thesis using e False m by auto
  qed
qed

text \<open>Changing a priority moves a queued thread to the tail of its new level and keeps every other
  thread where it was; a thread that is not queued is only re-labelled. The new priority is the given
  one, clamped to the idle level.\<close>

theorem sched_set_priority_moves_thread:
  assumes rep: "rq_rep s q" and t: "t \<noteq> NULL"
  shows "\<exists>s'. sched_set_priority t v s = Ok s' \<and> priority (tcbs s' t) = clamp_prio v \<and>
    rq_rep s' (if priority (tcbs s t) \<noteq> clamp_prio v \<and> t \<in> set (q (level s t))
               then (\<lambda>p. removeAll t (q p))(unat (clamp_prio v) := removeAll t (q (unat (clamp_prio v))) @ [t])
               else q)"
  by (rule sched_set_priority_rep [OF assms])

theorem sched_set_priority_moves_thread_witness:
  "\<exists>s'. sched_set_priority 8192 200 ready_example = Ok s' \<and> priority (tcbs s' 8192) = 31 \<and>
     rq_rep s' ((\<lambda>p. removeAll 8192 (ready_lists p))(31 := [8192]))"
  using sched_set_priority_moves_thread [OF ready_example_rep, of 8192 200]
  by (simp add: ready_example_def ready_lists_def level_def sched_level_def tcb0_def idle_kstate_def
      clamp_prio_def)

subsection \<open>Priority inheritance\<close>

lemma rq_rep_recalc: "rq_rep s q \<Longrightarrow> rq_rep (tcb_upd t recalc_threshold s) q"
  by (rule rq_rep_tcb_upd_frame) (simp_all add: recalc_threshold_def)

lemma rq_rep_inherit_field: "rq_rep s q \<Longrightarrow> rq_rep (tcb_upd t (inherit_priority_update f) s) q"
  by (rule rq_rep_tcb_upd_frame) simp_all

text \<open>Boosting a holder that is in no ready queue (the situation of a blocked holder): its
  effective priority becomes the smaller of the two numbers, its preemption threshold the tighter of the
  user threshold and the inherited priority, and the queues are untouched.\<close>

theorem thread_priority_inherit_blocked_holder:
  assumes rep: "rq_rep s q" and w: "w \<noteq> NULL" and h: "h \<noteq> NULL" "\<not> sched_is_queued h s"
  shows "\<exists>s'. thread_priority_inherit w h s = Ok s' \<and> rq_rep s' q \<and>
    priority (tcbs s' h) = min (priority (tcbs s w)) (priority (tcbs s h)) \<and>
    (priority (tcbs s w) < priority (tcbs s h) \<longrightarrow>
       preempt_threshold (tcbs s' h) = min (user_preempt_threshold (tcbs s h)) (priority (tcbs s w)))"
proof (cases "priority (tcbs s w) < priority (tcbs s h)")
  case True
  let ?p = "priority (tcbs s w)"
  let ?s1 = "tcb_upd h (inherit_priority_update (\<lambda>_. ?p)) s"
  have nh: "w \<noteq> h" using True by auto
  have q1: "\<not> sched_is_queued h ?s1" using h(2) by (simp add: sched_is_queued_def)
  have r1: "rq_rep (tcb_upd h recalc_threshold (set_prio h ?p ?s1)) q"
    by (intro rq_rep_recalc rq_rep_set_prio rq_rep_inherit_field rep q1)
  have "\<not> sched_is_queued h (tcb_upd h recalc_threshold (set_prio h ?p ?s1))"
    using q1 by (simp add: sched_is_queued_def set_prio_def recalc_threshold_def)
  then have "thread_priority_inherit w h s = Ok (tcb_upd h recalc_threshold (set_prio h ?p ?s1))"
    using True w h nh by (simp add: thread_priority_inherit_def Let_def)
  then show ?thesis using r1 True by (auto simp: set_prio_def recalc_threshold_def)
next
  case False
  then show ?thesis using w h rep by (simp add: thread_priority_inherit_def min_def)
qed

theorem thread_priority_inherit_blocked_holder_witness:
  "\<exists>s'. thread_priority_inherit 4096 20480 ready_example = Ok s' \<and> rq_rep s' ready_lists \<and>
     priority (tcbs s' 20480) = 2"
proof -
  have "\<not> sched_is_queued 20480 ready_example"
    by (simp add: sched_is_queued_def ready_example_def tcb0_def)
  moreover have "priority (tcbs ready_example 4096) = 2" "priority (tcbs ready_example 20480) = 16"
    by (simp_all add: ready_example_def tcb0_def)
  ultimately show ?thesis
    using thread_priority_inherit_blocked_holder [OF ready_example_rep, of 4096 20480] by auto
qed


text \<open>A holder alone at priority 16 and a waiter of priority 3.\<close>

definition inherit_example :: kstate where
  "inherit_example = idle_kstate\<lparr>
     tcbs := (\<lambda>_. tcb0)(4096 := tcb0\<lparr>sched_prev := 4096, sched_next := 4096\<rparr>, 8192 := tcb0\<lparr>priority := 3\<rparr>),
     ready_bitmap := bit_on 0 15, ready_queue := (\<lambda>_. NULL)(16 := 4096)\<rparr>"

lemma inherit_example_rep: "rq_rep inherit_example ((\<lambda>_. [])(16 := [4096]))"
proof (rule rq_repI)
  fix p assume p: "p < (32 :: nat)"
  have "bit (bit_on 0 15 :: u32) (31 - p) \<longleftrightarrow> p = 16" using p by (auto simp: bit_bit_on)
  then show "bit (ready_bitmap inherit_example) (31 - p) \<longleftrightarrow> ((\<lambda>_. [])(16 := [4096])) p \<noteq> []"
    by (auto simp: inherit_example_def)
qed (auto simp: inherit_example_def idle_kstate_def head_of_def nx_def pv_def runnable_def level_def
    sched_level_def tcb0_def split: if_splits)


text \<open>Changing the preemption threshold: a threshold numerically above the thread's user priority
  is refused and nothing changes; otherwise the old user threshold is returned, the effective threshold
  is the tighter of the new one and the inherited priority, and it never exceeds either.\<close>

theorem sched_preemption_change_bounds:
  "case sched_preemption_change t v s of (r, old, s') \<Rightarrow>
     (r = -1 \<longleftrightarrow> t = NULL \<or> user_priority (tcbs s t) < v) \<and>
     (r = -1 \<longrightarrow> old = None \<and> s' = s) \<and>
     (r \<noteq> -1 \<longrightarrow> r = 0 \<and> old = Some (user_preempt_threshold (tcbs s t)) \<and>
        user_preempt_threshold (tcbs s' t) = v \<and>
        preempt_threshold (tcbs s' t) = min v (inherit_priority (tcbs s t)) \<and>
        (\<forall>q. rq_rep s q \<longrightarrow> rq_rep s' q))"
proof (cases "t = NULL \<or> user_priority (tcbs s t) < v")
  case True
  then show ?thesis by (auto simp: sched_preemption_change_def)
next
  case False
  define s1 where "s1 = tcb_upd t (\<lambda>x. x\<lparr>preempt_threshold := min v (inherit_priority x),
                                       user_preempt_threshold := v\<rparr>) s"
  have upd: "tcb_upd t (user_preempt_threshold_update (\<lambda>_. v))
      (if v < inherit_priority (tcbs s t) then tcb_upd t (preempt_threshold_update (\<lambda>_. v)) s
       else tcb_upd t (\<lambda>t. t\<lparr>preempt_threshold := inherit_priority t\<rparr>) s) = s1"
    by (simp add: s1_def tcb_upd_def min_def not_less)
  define r where "r = snd (snd (sched_preemption_change t v s))"
  define b where "b = preempted_bitmap r"
  define d where "d = pendsv r"
  have e: "sched_preemption_change t v s =
      (0, Some (user_preempt_threshold (tcbs s t)), s1\<lparr>preempted_bitmap := b, pendsv := d\<rparr>)"
    unfolding b_def d_def r_def sched_preemption_change_def Let_def upd using False by simp
  have "rq_rep (s1\<lparr>preempted_bitmap := b, pendsv := d\<rparr>) q" if "rq_rep s q" for q
  proof -
    have "rq_rep s1 q" unfolding s1_def by (rule rq_rep_tcb_upd_frame [OF that]) simp_all
    then show ?thesis by (rule rq_rep_globals) simp_all
  qed
  then show ?thesis using False unfolding e by (auto simp: s1_def)
qed

theorem sched_preemption_change_bounds_witness:
  "case sched_preemption_change 8192 7 ready_example of (r, old, s') \<Rightarrow>
     r = 0 \<and> old = Some 16 \<and> preempt_threshold (tcbs s' 8192) = 7"
  using sched_preemption_change_bounds [where t = 8192 and v = 7 and s = ready_example]
  by (auto simp: ready_example_def tcb0_def)

subsection \<open>Frame\<close>

text \<open>Operations of this level leave the later extensions of the state alone.\<close>

lemma more_set [simp]:
  "kstate.more (set_next t v s) = kstate.more s" "kstate.more (set_prev t v s) = kstate.more s"
  "kstate.more (set_state t st s) = kstate.more s" "kstate.more (set_prio t pr s) = kstate.more s"
  "kstate.more (sched_link_init t s) = kstate.more s"
  by (simp_all add: link_defs set_state_def set_prio_def)

lemma more_sched_dequeue [simp]: "kstate.more (sched_dequeue t s) = kstate.more s"
  by (simp add: sched_dequeue_def Let_def)

lemma more_sched_enqueue: "sched_enqueue t s = Ok s' \<Longrightarrow> kstate.more s' = kstate.more s"
  by (auto simp: sched_enqueue_def Let_def split: if_splits)

lemma more_sched_set_priority: "sched_set_priority t v s = Ok s' \<Longrightarrow> kstate.more s' = kstate.more s"
  using more_sched_enqueue [of t "set_prio t (if unat v \<ge> 32 then 31 else v) (sched_dequeue t s)" s']
  by (auto simp: sched_set_priority_def Let_def split: if_splits)

lemma sched_enqueue_total: "t = NULL \<or> state (tcbs s t) = T_RUNNABLE \<Longrightarrow> \<exists>s'. sched_enqueue t s = Ok s'"
  by (auto simp: sched_enqueue_def Let_def)

text \<open>A TCB up to its queue links.\<close>

definition unlinked :: "tcb \<Rightarrow> tcb" where
  "unlinked t = t\<lparr>sched_prev := 0, sched_next := 0\<rparr>"

lemma unlinked_fields:
  assumes "unlinked t = unlinked t'"
  shows "state t = state t'" "priority t = priority t'" "base_priority t = base_priority t'"
    "preempt_threshold t = preempt_threshold t'" "user_priority t = user_priority t'" "t_globalid t = t_globalid t'"
    "t_localid t = t_localid t'" "t_pager t = t_pager t'" "stack_base t = stack_base t'"
    "stack_size t = stack_size t'" "ctx t = ctx t'" "t_as t = t_as t'"
    "utcb t = utcb t'" "ipc_from t = ipc_from t'" "t_sibling t = t_sibling t'"
    "t_parent t = t_parent t'" "t_child t = t_child t'" "timeout_event t = timeout_event t'"
    "ipc_notify t = ipc_notify t'" "notify_bits t = notify_bits t'" "notify_mask t = notify_mask t'"
    "notify_data t = notify_data t'" "notify_depth t = notify_depth t'" "notify_generation t = notify_generation t'"
    "notify_pending t = notify_pending t'" "utcb_needs_sync t = utcb_needs_sync t'" "stack_canary_needs_init t = stack_canary_needs_init t'"
    "msg_buffer t = msg_buffer t'" "inherit_priority t = inherit_priority t'" "user_preempt_threshold t = user_preempt_threshold t'"
  using assms by (cases t; cases t'; simp add: unlinked_def)+

lemma sched_enqueue_tcb:
  assumes "sched_enqueue t s = Ok s'"
  shows "unlinked (tcbs s' p) = unlinked (tcbs s p)"
    "current s' = current s" "preempted_bitmap s' = preempted_bitmap s" "pendsv s' = pendsv s"
  using assms by (auto simp: sched_enqueue_def Let_def link_defs unlinked_def split: if_splits)

lemma sched_dequeue_tcb:
  "unlinked (tcbs (sched_dequeue t s) p) = unlinked (tcbs s p)"
  "current (sched_dequeue t s) = current s" "preempted_bitmap (sched_dequeue t s) = preempted_bitmap s"
  by (auto simp: sched_dequeue_def Let_def link_defs unlinked_def)

lemmas enqueue_fields = unlinked_fields [OF sched_enqueue_tcb(1)]
lemmas dequeue_fields [simp] = unlinked_fields [OF sched_dequeue_tcb(1)] sched_dequeue_tcb(2,3)

subsection \<open>Waking and blocking a thread\<close>

text \<open>What the rest of the kernel does to the queues: a thread is marked runnable and enqueued, or dequeued
  and given a blocked state.\<close>

definition with_ready :: "ptr \<Rightarrow> 'z kstate_scheme \<Rightarrow> (nat \<Rightarrow> ptr list) \<Rightarrow> nat \<Rightarrow> ptr list" where
  "with_ready t s q = (if t \<in> set (q (level s t)) then q else q(level s t := q (level s t) @ [t]))"

lemma wake_rep:
  assumes rep: "rq_rep s q" and t: "t \<noteq> NULL"
    and f: "\<And>x. sched_prev (f x) = sched_prev x" "\<And>x. sched_next (f x) = sched_next x"
      "\<And>x. state (f x) = T_RUNNABLE" "\<And>x. priority (f x) = priority x"
  shows "\<exists>s'. sched_enqueue t (tcb_upd t f s) = Ok s' \<and> rq_rep s' (with_ready t s q)"
proof (cases "pv s t = NULL")
  case True
  let ?s = "tcb_upd t f s"
  have r: "rq_rep ?s q" by (rule rq_rep_tcb_upd_unqueued [OF rep _ f(1,2)]) (simp add: True)
  have l: "level ?s t = level s t" by (simp add: level_def f)
  have "\<not> sched_is_queued t ?s" using True by (simp add: sched_is_queued_def pv_def f)
  then have "\<exists>s'. sched_enqueue t ?s = Ok s' \<and> rq_rep s' (q(level s t := q (level s t) @ [t]))"
    using sched_enqueue_rep [OF r t] by (simp add: f l)
  moreover have "t \<notin> set (q (level s t))" using True rq_rep_queued_iff [OF rep t] by simp
  ultimately show ?thesis by (simp add: with_ready_def)
next
  case False
  then have m: "t \<in> set (q (level s t))" using rq_rep_queued_iff [OF rep t] by simp
  then have "state (tcbs s t) = T_RUNNABLE" using rq_rep_member(2) [OF rep _ m] by (simp add: runnable_def)
  then have e: "tcb_upd t f s = tcb_upd t (\<lambda>x. if state x = T_RUNNABLE then f x else x) s"
    by (simp add: tcb_upd_def)
  have "rq_rep (tcb_upd t f s) q"
    unfolding e by (rule rq_rep_tcb_upd_frame [OF rep]) (simp_all add: f)
  then show ?thesis using m t False by (simp add: sched_enqueue_def sched_is_queued_def pv_def f with_ready_def)
qed

lemma block_rep:
  assumes "rq_rep s q" and "t \<noteq> NULL"
    and "\<And>x. sched_prev (f x) = sched_prev x" "\<And>x. sched_next (f x) = sched_next x"
  shows "rq_rep (tcb_upd t f (sched_dequeue t s)) (\<lambda>p. removeAll t (q p))"
  by (rule rq_rep_tcb_upd_unqueued [OF sched_dequeue_rep [OF assms(1,2)] _ assms(3,4)])
    (use assms(2) in \<open>simp add: pv_def sched_dequeue_keeps\<close>)

end
