(* ===== verification/Memory.thy ===== *)
theory Memory
  imports Fpage_Chain
begin

text \<open>
  Address spaces (the second part of \<^verbatim>\<open>kernel/memory.c\<close>) and the memory protection unit
  (\<^verbatim>\<open>platform/stm32-common/mpu.c\<close>). The eight MPU regions are the register pairs
  \<open>mpu_rbar\<close>/\<open>mpu_rasr\<close>; a write to RBAR with the VALID bit selects the region by its
  low four bits, which is how \<open>mpu_setup_region\<close> uses it. Barriers are the identity.
\<close>

subsection \<open>The MPU\<close>

abbreviation (input) MPU_REGION_MASK :: u32 where "MPU_REGION_MASK \<equiv> 0xFFFFFFE0"
abbreviation (input) MPU_PRIVDEFENA :: u32 where "MPU_PRIVDEFENA \<equiv> 4"
abbreviation (input) MPU_RASR_AP_PRIV_RW_UN_NO :: u32 where "MPU_RASR_AP_PRIV_RW_UN_NO \<equiv> push_bit 24 1"
abbreviation (input) MPU_RASR_AP_PRIV_RW_UN_RO :: u32 where "MPU_RASR_AP_PRIV_RW_UN_RO \<equiv> push_bit 24 2"
abbreviation (input) MPU_RASR_AP_PRIV_RW_UN_RW :: u32 where "MPU_RASR_AP_PRIV_RW_UN_RW \<equiv> push_bit 24 3"

definition mpu_access_bits :: "mempool_t \<Rightarrow> u32" where
  "mpu_access_bits mp =
     (let user_rw = mp_flags mp AND (MP_UR OR MP_UW) in
      if user_rw = MP_UR OR MP_UW then MPU_RASR_AP_PRIV_RW_UN_RW
      else if user_rw = MP_UR then MPU_RASR_AP_PRIV_RW_UN_RO
      else MPU_RASR_AP_PRIV_RW_UN_NO)"

definition mpu_setup_region :: "nat \<Rightarrow> ptr \<Rightarrow> mstate \<Rightarrow> mstate" where
  "mpu_setup_region n fp m =
     (let r = n mod 16 in
      if fp \<noteq> NULL then
        let f = fpages m fp;
            mp = memmap m ! unat (fp_mpid f);
            xn_bit = (if mp_flags mp AND MP_UX \<noteq> 0 then 0 else push_bit 28 1);
            ap_bits = mpu_access_bits mp
        in m\<lparr>mpu_rbar := (mpu_rbar m)(r := (fp_base f AND MPU_REGION_MASK) OR 0x10 OR of_nat r),
             mpu_rasr := (mpu_rasr m)(r := xn_bit OR ap_bits OR push_bit 1 (ucast (fp_shift f) - 1) OR 1)\<rparr>
      else
        m\<lparr>mpu_rbar := (mpu_rbar m)(r := 0x10 OR of_nat r), mpu_rasr := (mpu_rasr m)(r := 0)\<rparr>)"

definition mpu_enable :: "u32 \<Rightarrow> mstate \<Rightarrow> mstate" where
  "mpu_enable i m = m\<lparr>mpu_ctrl := i OR MPU_PRIVDEFENA\<rparr>"

definition mpu_region_has :: "u32 \<Rightarrow> mstate \<Rightarrow> nat \<Rightarrow> bool" where
  "mpu_region_has addr m i \<longleftrightarrow>
     mpu_rasr m i AND 1 \<noteq> 0 \<and>
     (let base = mpu_rbar m i AND MPU_REGION_MASK;
          sz = push_bit (unat (drop_bit 1 (mpu_rasr m i) AND 0x1F) + 1) 1
      in base \<le> addr \<and> addr < base + sz)"

definition addr_in_mpu :: "u32 \<Rightarrow> mstate \<Rightarrow> bool" where
  "addr_in_mpu addr m \<longleftrightarrow> (\<exists>i \<in> set [0..<8]. mpu_region_has addr m i)"

text \<open>Finding the fpage of an address, counting the stack pages, and filling the regions behind it.\<close>

fun find_page :: "nat \<Rightarrow> u32 \<Rightarrow> ptr \<Rightarrow> mstate \<Rightarrow> ptr result" where
  "find_page 0 addr fp m = Fault (Diverges ''mpu_select_lru'')"
| "find_page (Suc n) addr fp m =
     (if fp = NULL then Ok NULL
      else if addr_in_fpage addr (fpages m fp) False then Ok fp
      else find_page n addr (as_next (fpages m fp)) m)"

fun count_mpu :: "nat \<Rightarrow> ptr \<Rightarrow> mstate \<Rightarrow> nat result" where
  "count_mpu 0 fp m = Fault (Diverges ''mpu_select_lru'')"
| "count_mpu (Suc n) fp m =
     (if fp = NULL then Ok 0 else rbind (count_mpu n (mpu_next (fpages m fp)) m) (\<lambda>k. Ok (Suc k)))"

text \<open>At most eight steps: the index grows in each.\<close>

function fill_regions :: "nat \<Rightarrow> ptr \<Rightarrow> mstate \<Rightarrow> mstate" where
  "fill_regions i fp m =
     (if i < 8 \<and> mpu_next (fpages m fp) \<noteq> NULL
      then fill_regions (Suc i) (mpu_next (fpages m fp)) (mpu_setup_region i (mpu_next (fpages m fp)) m)
      else m)"
  by pat_completeness auto
termination
  by (relation "measure (\<lambda>(i, _). 8 - i)") auto

declare fill_regions.simps [simp del]

definition mpu_select_lru :: "ptr \<Rightarrow> u32 \<Rightarrow> mstate \<Rightarrow> (int \<times> mstate) result" where
  "mpu_select_lru as addr m =
     (if as = NULL then Ok (1, m)
      else if addr_in_mpu addr m then Ok (1, m)
      else rbind (find_page WALK_FUEL addr (first (ases m as)) m) (\<lambda>fp.
        if fp = NULL then Ok (1, m)
        else
          let sfp = mpu_stack_first (ases m as) in
          rbind (remove_fpage_from_list MPU_CHAIN as fp m) (\<lambda>m.
          let m = fp_upd fp (mpu_next_update (\<lambda>_. mpu_first (ases m as))) m;
              m = as_upd as (mpu_first_update (\<lambda>_. fp)) m
          in rbind (count_mpu WALK_FUEL sfp m) (\<lambda>i.
             let m = mpu_setup_region i fp m
             in Ok (0, fill_regions (Suc i) fp m)))))"

subsection \<open>Setting up the MPU for an address space\<close>

text \<open>The stack pages, in address order, into the local array \<open>mpu\<close> (here the list of its first
  \<open>i\<close> entries).\<close>

fun stack_walk :: "nat \<Rightarrow> ptr \<Rightarrow> u32 \<Rightarrow> u32 \<Rightarrow> ptr list \<Rightarrow> mstate \<Rightarrow> ptr list result" where
  "stack_walk 0 fp start fin mpu m = Fault (Diverges ''as_setup_mpu'')"
| "stack_walk (Suc n) fp start fin mpu m =
     (if length mpu < 8 \<and> fp \<noteq> NULL \<and> start < fin then
        (if addr_in_fpage start (fpages m fp) False
         then stack_walk n (as_next (fpages m fp)) (FPAGE_END (fpages m fp)) fin (mpu @ [fp]) m
         else stack_walk n (as_next (fpages m fp)) start fin mpu m)
      else Ok mpu)"

text \<open>Three lists by priority (page of the pc, always-mapped pages, others), given by their heads and
  tails.\<close>

fun prio_walk :: "nat \<Rightarrow> ptr \<Rightarrow> u32 \<Rightarrow> ptr list \<Rightarrow> ptr list \<Rightarrow> mstate \<Rightarrow> (ptr list \<times> ptr list \<times> mstate) result" where
  "prio_walk 0 fp pc heads tails m = Fault (Diverges ''as_setup_mpu'')"
| "prio_walk (Suc n) fp pc heads tails m =
     (if fp = NULL then Ok (heads, tails, m)
      else
        let priv = (if addr_in_fpage pc (fpages m fp) False then 0
                    else if fp_flags (fpages m fp) AND FPAGE_ALWAYS \<noteq> 0 then 1 else 2);
            heads' = (if heads ! priv = NULL then heads[priv := fp] else heads);
            m = (if heads ! priv = NULL then m else fp_upd (tails ! priv) (mpu_next_update (\<lambda>_. fp)) m)
        in prio_walk n (as_next (fpages m fp)) pc heads' (tails[priv := fp]) m)"

definition build_mpu_list :: "ptr \<Rightarrow> u32 \<Rightarrow> mstate \<Rightarrow> mstate result" where
  "build_mpu_list as pc m =
     rbind (prio_walk WALK_FUEL (first (ases m as)) pc [NULL, NULL, NULL] [NULL, NULL, NULL] m)
       (\<lambda>(heads, tails, m).
        let m = (if heads ! 1 \<noteq> NULL then fp_upd (tails ! 1) (mpu_next_update (\<lambda>_. heads ! 2)) m else m);
            heads = (if heads ! 1 \<noteq> NULL then heads else heads[1 := heads ! 2]);
            m = (if heads ! 0 \<noteq> NULL then fp_upd (tails ! 0) (mpu_next_update (\<lambda>_. heads ! 1)) m else m);
            heads = (if heads ! 0 \<noteq> NULL then heads else heads[0 := heads ! 1])
        in Ok (as_upd as (mpu_first_update (\<lambda>_. heads ! 0)) m))"

text \<open>The fifo pages behind the stack pages, at most up to entry 6; stack pages are skipped.\<close>

fun fifo_walk :: "nat \<Rightarrow> ptr \<Rightarrow> ptr list \<Rightarrow> ptr list \<Rightarrow> mstate \<Rightarrow> ptr list result" where
  "fifo_walk 0 fp stk mpu m = Fault (Diverges ''as_setup_mpu'')"
| "fifo_walk (Suc n) fp stk mpu m =
     (if length mpu < 7 \<and> fp \<noteq> NULL
      then fifo_walk n (mpu_next (fpages m fp)) stk (if fp \<in> set stk then mpu else mpu @ [fp]) m
      else Ok mpu)"

text \<open>Entry \<open>j\<close> of the array; entries from \<open>i\<close> on are NULL.\<close>

definition mpu_entry :: "ptr list \<Rightarrow> nat \<Rightarrow> ptr" where
  "mpu_entry mpu j = (if j < length mpu then mpu ! j else NULL)"

definition setup_stack_region :: "ptr list \<Rightarrow> nat \<Rightarrow> nat \<Rightarrow> mstate \<Rightarrow> mstate" where
  "setup_stack_region mpu nstk j m =
     (let m = mpu_setup_region j (mpu_entry mpu j) m
      in fp_upd (mpu_entry mpu j)
           (mpu_next_update (\<lambda>_. if j < nstk - 1 then mpu_entry mpu (j + 1) else NULL)) m)"

definition setup_fifo_region :: "ptr list \<Rightarrow> nat \<Rightarrow> mstate \<Rightarrow> mstate" where
  "setup_fifo_region mpu j m =
     (let m = mpu_setup_region j (mpu_entry mpu j) m
      in if j < length mpu - 1
         then fp_upd (mpu_entry mpu j) (mpu_next_update (\<lambda>_. mpu_entry mpu (j + 1))) m else m)"

text \<open>\<open>mpu[mpu_first_i]\<close> is read past the array when all eight entries are stack pages.\<close>

definition as_setup_mpu :: "ptr \<Rightarrow> u32 \<Rightarrow> u32 \<Rightarrow> u32 \<Rightarrow> u32 \<Rightarrow> mstate \<Rightarrow> mstate result" where
  "as_setup_mpu as spv pc stackbase stacksize m =
     rbind (stack_walk WALK_FUEL (first (ases m as)) stackbase (stackbase + stacksize) [] m) (\<lambda>stk.
     let m = as_upd as (mpu_stack_first_update (\<lambda>_. mpu_entry stk 0)) m in
     rbind (if mpu_first (ases m as) = NULL then build_mpu_list as pc m else Ok m) (\<lambda>m.
     rbind (fifo_walk WALK_FUEL (mpu_first (ases m as)) stk stk m) (\<lambda>mpu.
     if length stk \<ge> 8 then Fault (Out_of_bounds ''as_setup_mpu: mpu[8]'')
     else
       let m = as_upd as (mpu_first_update (\<lambda>_. mpu_entry mpu (length stk))) m;
           m = fold (setup_stack_region mpu (length stk)) [0..<length stk] m;
           m = fold (setup_fifo_region mpu) [length stk..<length mpu] m;
           m = fold (\<lambda>j. mpu_setup_region j NULL) [length mpu..<8] m
       in Ok m)))"

subsection \<open>Address spaces\<close>

definition map_pools :: "mempool_tag_t set \<Rightarrow> ptr \<Rightarrow> mstate \<Rightarrow> mstate result" where
  "map_pools tags as m =
     fold (\<lambda>mp r. rbind r (\<lambda>m. if mp_tag mp \<in> tags
        then rbind (assign_fpages as (mp_start mp) (mp_end mp - mp_start mp) m) (\<lambda>(_, m). Ok m) else Ok m))
       (memmap m) (Ok m)"

definition as_map_user :: "ptr \<Rightarrow> mstate \<Rightarrow> mstate result" where
  "as_map_user as m = map_pools {MPT_USER_DATA, MPT_USER_TEXT, MPT_DEVICES} as m"

definition as_map_ktext :: "ptr \<Rightarrow> mstate \<Rightarrow> mstate result" where
  "as_map_ktext as m = map_pools {MPT_KERNEL_TEXT} as m"

text \<open>The tables are emptied and the memory descriptors of the KIP are written (second component);
  enabling the MemManage exception in SHCSR is not modelled.\<close>

definition memory_init :: "mstate \<Rightarrow> mstate \<times> kip_mem_desc_t list" where
  "memory_init m =
     (let m = fpages_init m; m = m\<lparr>as_table := ktable_init (as_table m)\<rparr>
      in (m, mem_descs_from 0 (memmap m)))"

definition as_create :: "u32 \<Rightarrow> mstate \<Rightarrow> ptr \<times> mstate" where
  "as_create spaceid m =
     (case ktable_alloc (as_table m) of (as, kt) \<Rightarrow>
        let m = m\<lparr>as_table := kt\<rparr> in
        if as = NULL then (NULL, m)
        else (as, as_upd as (\<lambda>_. \<lparr>as_spaceid = spaceid, first = NULL, mpu_first = NULL,
                mpu_stack_first = NULL, shared = 1\<rparr>) m))"

definition as_get :: "ptr \<Rightarrow> mstate \<Rightarrow> mstate" where
  "as_get as m = (if as = NULL then m else as_upd as (\<lambda>a. a\<lparr>shared := shared a + 1\<rparr>) m)"

fun destroy_walk :: "nat \<Rightarrow> ptr \<Rightarrow> ptr \<Rightarrow> mstate \<Rightarrow> mstate result" where
  "destroy_walk 0 as fp m = Fault (Diverges ''as_destroy'')"
| "destroy_walk (Suc n) as fp m =
     (if fp = NULL then Ok m
      else
        let fpnext = as_next (fpages m fp) in
        rbind (if fp_flags (fpages m fp) AND FPAGE_CLONE \<noteq> 0
               then rbind (unmap_fpage as fp m) (\<lambda>(_, m). Ok m)
               else Ok (destroy_fpage fp m)) (\<lambda>m.
        destroy_walk n as fpnext m))"

definition as_destroy :: "ptr \<Rightarrow> mstate \<Rightarrow> mstate result" where
  "as_destroy as m =
     rbind (destroy_walk WALK_FUEL as (first (ases m as)) m)
       (\<lambda>m. Ok (m\<lparr>as_table := ktable_free (as_table m) as\<rparr>))"

definition as_put :: "ptr \<Rightarrow> mstate \<Rightarrow> mstate result" where
  "as_put as m =
     (if as = NULL then Ok m
      else if shared (ases m as) = 0 then Ok m
      else
        let m = as_upd as (\<lambda>a. a\<lparr>shared := shared a - 1\<rparr>) m
        in if shared (ases m as) = 0 then as_destroy as m else Ok m)"

subsection \<open>Mapping an area from one address space to another\<close>

text \<open>The search for the first and last fpage of the area; \<open>None\<close> is the early error return.\<close>

fun area_walk :: "nat \<Rightarrow> ptr \<Rightarrow> u32 \<Rightarrow> u32 \<Rightarrow> u32 \<Rightarrow> ptr \<Rightarrow> ptr \<Rightarrow> mstate \<Rightarrow> (ptr \<times> ptr) option result" where
  "area_walk 0 fp base fin probe fs lst m = Fault (Diverges ''map_area'')"
| "area_walk (Suc n) fp base fin probe fs lst m =
     (if fp = NULL then Ok (Some (fs, lst))
      else
        let fs = (if fs = NULL \<and> addr_in_fpage base (fpages m fp) False then fp else fs) in
        if lst = NULL \<and> addr_in_fpage fin (fpages m fp) True then Ok (Some (fs, fp))
        else if fs \<noteq> NULL then
          if \<not> addr_in_fpage probe (fpages m fp) True then Ok None
          else area_walk n (as_next (fpages m fp)) base fin (probe + FPAGE_SIZE (fpages m fp)) fs lst m
        else area_walk n (as_next (fpages m fp)) base fin probe fs lst m)"

fun last_walk :: "nat \<Rightarrow> ptr \<Rightarrow> u32 \<Rightarrow> ptr \<Rightarrow> mstate \<Rightarrow> ptr result" where
  "last_walk 0 fp fin lst m = Fault (Diverges ''map_area'')"
| "last_walk (Suc n) fp fin lst m =
     (if fp = NULL then Ok lst
      else if addr_in_fpage fin (fpages m fp) True then Ok fp
      else last_walk n (as_next (fpages m fp)) fin lst m)"

fun map_walk :: "nat \<Rightarrow> ptr \<Rightarrow> ptr \<Rightarrow> ptr \<Rightarrow> ptr \<Rightarrow> map_action_t \<Rightarrow> mstate \<Rightarrow> (int \<times> mstate) result" where
  "map_walk 0 src dst fp lst action m = Fault (Diverges ''map_area'')"
| "map_walk (Suc n) src dst fp lst action m =
     rbind (map_fpage src dst fp action m) (\<lambda>(r, m).
     if r < 0 then Ok (-1, m)
     else if fp = lst then Ok (0, m)
     else map_walk n src dst (as_next (fpages m fp)) lst action m)"

definition map_area :: "ptr \<Rightarrow> ptr \<Rightarrow> u32 \<Rightarrow> u32 \<Rightarrow> map_action_t \<Rightarrow> bool \<Rightarrow> mstate \<Rightarrow> (int \<times> mstate) result" where
  "map_area src dst base sz action is_privileged m =
     (if 0 < sz \<and> - 1 - sz + 1 < base then Ok (-1, m)
      else
        let fin = base + sz in
        rbind (if is_privileged then
                 rbind (assign_fpages_ext (-1) src base sz NULL NULL m) (\<lambda>(r, fs, lst, m).
                 if r < 0 then Ok (Inl (-1, m))
                 else if src = dst then Ok (Inl (0, m))
                 else Ok (Inr (fs, lst, m)))
               else if src = dst then Ok (Inl (0, m))
               else
                 rbind (area_walk WALK_FUEL (first (ases m src)) base fin base NULL NULL m) (\<lambda>r.
                 case r of None \<Rightarrow> Ok (Inl (-1, m)) | Some (fs, lst) \<Rightarrow> Ok (Inr (fs, lst, m))))
          (\<lambda>r. case r of Inl (r, m) \<Rightarrow> Ok (r, m)
           | Inr (fs, lst, m) \<Rightarrow>
               if lst = NULL \<or> fs = NULL then Ok (-1, m)
               else
                 let last_invalid = (fs = lst) in
                 rbind (split_fpage src fs base True m) (\<lambda>(fs, m).
                 rbind (if last_invalid then last_walk WALK_FUEL fs fin lst m else Ok lst) (\<lambda>lst.
                 rbind (split_fpage src lst fin False m) (\<lambda>(lst, m).
                 if lst = NULL \<or> fs = NULL then Ok (-1, m)
                 else map_walk WALK_FUEL src dst fs lst action m)))))"

subsection \<open>Reading back a region\<close>

lemma mpu_setup_region_sel [simp]:
  "fpages (mpu_setup_region n fp m) = fpages m" "ases (mpu_setup_region n fp m) = ases m"
  "memmap (mpu_setup_region n fp m) = memmap m" "fpage_table (mpu_setup_region n fp m) = fpage_table m"
  "as_table (mpu_setup_region n fp m) = as_table m"
  by (simp_all add: mpu_setup_region_def Let_def)

lemma mpu_setup_region_other:
  assumes "i < 16" "n < 16" "i \<noteq> n"
  shows "mpu_rbar (mpu_setup_region n fp m) i = mpu_rbar m i" "mpu_rasr (mpu_setup_region n fp m) i = mpu_rasr m i"
  using assms by (simp_all add: mpu_setup_region_def Let_def)

lemma region_mask_eq: "(0xFFFFFFE0 :: u32) = NOT (mask 5)"
  by (simp add: mask_eq_exp_minus_1)

lemma bit_small: "r < 16 \<Longrightarrow> bit (of_nat r :: u32) k \<Longrightarrow> k < 4"
proof -
  assume r: "r < 16" and "bit (of_nat r :: u32) k"
  then have "bit (unat (of_nat r :: u32)) k" by (simp only: bit_unsigned_iff possible_bit_nat)
  then have "bit r k" using r by (simp add: u32_unat_of_nat)
  moreover have "take_bit 4 r = r" using r by (simp add: take_bit_nat_eq_self)
  ultimately show "k < 4" by (metis bit_take_bit_iff)
qed

lemma rbar_base:
  assumes "r < 16"
  shows "((b AND MPU_REGION_MASK) OR 0x10 OR of_nat r :: u32) AND MPU_REGION_MASK = b AND MPU_REGION_MASK"
proof -
  have i: "(0x10 :: int) = 2 ^ 4" by simp
  have s: "bit (0x10 :: int) k \<longleftrightarrow> k = 4" for k unfolding i bit_exp_iff by auto
  show ?thesis unfolding region_mask_eq
    by (rule bit_word_eqI)
      (auto simp: bit_and_iff bit_or_iff bit_not_iff bit_mask_iff s dest: bit_small [OF assms])
qed

text \<open>The size and enable fields of the attribute register do not collide with its access bits.\<close>

lemma rasr_fields:
  assumes hi: "\<And>k. bit hi k \<Longrightarrow> 24 \<le> k" and z: "unat (z :: u32) < 32"
  shows "drop_bit 1 (hi OR push_bit 1 z OR 1) AND 0x1F = z" and "(hi OR push_bit 1 z OR 1 :: u32) AND 1 = 1"
proof -
  have m: "(0x1F :: u32) = mask 5" by (simp add: mask_eq_exp_minus_1)
  have "take_bit 5 z = z" using z by (simp add: word_unat_eq_iff unsigned_take_bit_eq take_bit_nat_eq_self)
  then have zb: "bit z k \<Longrightarrow> k < 5" for k by (metis bit_take_bit_iff)
  have nh: "\<not> bit hi (Suc k)" if "k < 5" for k using hi [of "Suc k"] that by auto
  define n :: nat where "n = 1"
  have "bit (drop_bit n (hi OR push_bit n z OR 1) AND mask 5) k = bit z k" for k
    using nh [of k] zb [of k]
    by (cases "k < 5") (auto simp: n_def [symmetric] bit_and_iff bit_or_iff bit_mask_iff bit_push_bit_iff bit_drop_bit_eq bit_1_iff,
      auto simp: n_def)
  then show "drop_bit 1 (hi OR push_bit 1 z OR 1) AND 0x1F = z" unfolding m n_def by (intro bit_word_eqI) simp
  show "(hi OR push_bit 1 z OR 1 :: u32) AND 1 = 1"
    by (rule bit_word_eqI) (auto simp: bit_and_iff bit_or_iff bit_1_iff)
qed

text \<open>A region the MPU can hold: at least 32 bytes, less than the whole address space, aligned.\<close>

definition mpu_valid :: "fpage_t \<Rightarrow> bool" where
  "mpu_valid f \<longleftrightarrow> 5 \<le> unat (fp_shift f) \<and> unat (fp_shift f) < 32 \<and> fp_base f AND MPU_REGION_MASK = fp_base f"

lemma ap_bits_high: "bit (mpu_access_bits mp) k \<Longrightarrow> 24 \<le> k"
  by (auto simp only: mpu_access_bits_def Let_def bit_push_bit_iff split: if_splits)

lemma mpu_region_covers:
  assumes fp: "fp \<noteq> NULL" and v: "mpu_valid (fpages m fp)" and r: "r < 16"
  shows "mpu_region_has addr (mpu_setup_region r fp m) r \<longleftrightarrow> addr_in_fpage addr (fpages m fp) False"
proof -
  let ?f = "fpages m fp" and ?mp = "memmap m ! unat (fp_mpid (fpages m fp))"
  define hi :: u32 where "hi = (if mp_flags ?mp AND MP_UX \<noteq> 0 then 0 else push_bit 28 1) OR mpu_access_bits ?mp"
  define z :: u32 where "z = ucast (fp_shift ?f) - 1"
  have us: "unat (ucast (fp_shift ?f) :: u32) = unat (fp_shift ?f)"
    using v by (simp add: unsigned_ucast_eq mpu_valid_def take_bit_nat_eq_self)
  then have z: "unat z = unat (fp_shift ?f) - 1"
    using v unfolding z_def by (subst unat_sub) (auto simp: word_le_nat_alt mpu_valid_def)
  have hi: "24 \<le> k" if "bit hi k" for k
    using that unfolding hi_def
    by (auto simp only: bit_or_iff bit_push_bit_iff bit_0_eq bot_apply bot_bool_def dest: ap_bits_high split: if_splits)
  have zl: "unat z < 32" "unat z + 1 = unat (fp_shift ?f)" using z v unfolding mpu_valid_def by linarith+
  have a: "mpu_rasr (mpu_setup_region r fp m) r = hi OR push_bit 1 z OR 1"
    using fp r by (simp add: mpu_setup_region_def Let_def or.assoc hi_def z_def)
  have b: "mpu_rbar (mpu_setup_region r fp m) r AND MPU_REGION_MASK = fp_base ?f"
    using fp r v rbar_base [OF r, of "fp_base ?f"] by (simp add: mpu_setup_region_def Let_def mpu_valid_def)
  have f1: "drop_bit 1 (hi OR push_bit 1 z OR 1) AND 0x1F = z" by (rule rasr_fields(1)) (fact hi, fact zl(1))
  have f2: "(hi OR push_bit 1 z OR 1) AND 1 = 1" by (rule rasr_fields(2)) (fact hi, fact zl(1))
  have s: "push_bit (unat (drop_bit 1 (mpu_rasr (mpu_setup_region r fp m) r) AND 0x1F) + 1) 1 = FPAGE_SIZE ?f"
    unfolding a f1 zl(2) by (simp only: FPAGE_SIZE_def)
  have en: "mpu_rasr (mpu_setup_region r fp m) r AND 1 \<noteq> 0" unfolding a f2 by simp
  show ?thesis
    unfolding mpu_region_has_def Let_def b s using en by (simp add: addr_in_fpage_def FPAGE_END_def)
qed

lemma and_exp_eq: "(w :: u32) AND 2 ^ n = (if bit w n then 2 ^ n else 0)"
  by (rule bit_word_eqI) (auto simp: bit_and_iff bit_exp_iff)

lemma flag_bits:
  "(w :: u32) AND 0x10 = (if bit w 4 then 0x10 else 0)" "w AND 0x20 = (if bit w 5 then 0x20 else 0)"
  "w AND 0x40 = (if bit w 6 then 0x40 else 0)"
  using and_exp_eq [of w 4] and_exp_eq [of w 5] and_exp_eq [of w 6] by simp_all

lemma mpu_access_bits_eq:
  "mpu_access_bits mp =
     (if bit (mp_flags mp) 4 then (if bit (mp_flags mp) 5 then push_bit 24 3 else push_bit 24 2) else push_bit 24 1)"
proof -
  have "mp_flags mp AND (MP_UR OR MP_UW) =
      (if bit (mp_flags mp) 4 then 0x10 else 0) OR (if bit (mp_flags mp) 5 then 0x20 else 0)"
    by (simp only: bit.conj_disj_distrib flag_bits)
  then show ?thesis unfolding mpu_access_bits_def Let_def by simp
qed

text \<open>C9. An fpage loaded into an MPU region gives user code exactly the rights of its memory pool: the
  region covers exactly the addresses of the fpage, user write access (access bits 3) is granted only if the
  pool is user-readable and user-writable, read access (bit 25) only if it is user-readable, and execution is
  disabled (bit 28) unless the pool is user-executable.\<close>

theorem mpu_region_grants_pool_rights:
  assumes "fp \<noteq> NULL" and "mpu_valid (fpages m fp)" and "r < 8"
  shows "(\<forall>addr. mpu_region_has addr (mpu_setup_region r fp m) r \<longleftrightarrow> addr_in_fpage addr (fpages m fp) False) \<and>
    (let fl = mp_flags (memmap m ! unat (fp_mpid (fpages m fp)));
         ra = mpu_rasr (mpu_setup_region r fp m) r
     in (bit ra 25 \<and> bit ra 24 \<longleftrightarrow> fl AND MP_UR \<noteq> 0 \<and> fl AND MP_UW \<noteq> 0) \<and>
        (bit ra 25 \<longleftrightarrow> fl AND MP_UR \<noteq> 0) \<and> \<not> bit ra 26 \<and> (bit ra 28 \<longleftrightarrow> fl AND MP_UX = 0))"
proof -
  let ?mp = "memmap m ! unat (fp_mpid (fpages m fp))"
  define z :: u32 where "z = ucast (fp_shift (fpages m fp)) - 1"
  have us: "unat (ucast (fp_shift (fpages m fp)) :: u32) = unat (fp_shift (fpages m fp))"
    using assms(2) by (simp add: unsigned_ucast_eq mpu_valid_def take_bit_nat_eq_self)
  have "unat z < 2 ^ 5"
    using assms(2) us unfolding z_def by (subst unat_sub) (auto simp: word_le_nat_alt mpu_valid_def)
  then have tz: "take_bit 5 z = z" by (simp add: word_unat_eq_iff unsigned_take_bit_eq take_bit_nat_eq_self)
  define y :: u32 where "y = push_bit 1 z"
  have yb: "\<not> bit y k" if "6 \<le> k" for k
  proof
    assume "bit y k"
    then have "bit z (k - 1)" unfolding y_def by (simp only: bit_push_bit_iff)
    then have "k - 1 < 5" using tz by (metis bit_take_bit_iff)
    then show False using that by simp
  qed
  define xn :: u32 where "xn = (if mp_flags ?mp AND MP_UX \<noteq> 0 then 0 else push_bit 28 1)"
  have ra: "mpu_rasr (mpu_setup_region r fp m) r = xn OR mpu_access_bits ?mp OR y OR 1"
    using assms by (simp add: mpu_setup_region_def Let_def or.assoc z_def y_def xn_def)
  have xb: "bit xn k \<longleftrightarrow> k = 28 \<and> mp_flags ?mp AND MP_UX = 0" for k
    unfolding xn_def using bit_exp_iff [where 'a = u32, of 28 k] by auto
  have ab: "bit (mpu_access_bits ?mp) 25 \<longleftrightarrow> bit (mp_flags ?mp) 4"
    "bit (mpu_access_bits ?mp) 24 \<longleftrightarrow> \<not> bit (mp_flags ?mp) 4 \<or> bit (mp_flags ?mp) 5"
    "\<not> bit (mpu_access_bits ?mp) 26" "\<not> bit (mpu_access_bits ?mp) 28"
    unfolding mpu_access_bits_eq by simp_all
  have "mpu_region_has addr (mpu_setup_region r fp m) r \<longleftrightarrow> addr_in_fpage addr (fpages m fp) False" for addr
    using mpu_region_covers [OF assms(1,2)] assms(3) by simp
  then show ?thesis
    unfolding Let_def ra using yb ab xb by (auto simp: bit_or_iff bit_1_iff flag_bits)
qed

definition user_page :: mstate where
  "user_page = fp_upd 0x20001000 (\<lambda>f. f\<lparr>fp_base := 0x20008000, fp_shift := 8, fp_mpid := 7\<rparr>) mem_example"

theorem mpu_region_grants_pool_rights_witness:
  "mpu_region_has 0x200080FF (mpu_setup_region 2 0x20001000 user_page) 2 \<and>
   \<not> mpu_region_has 0x20008100 (mpu_setup_region 2 0x20001000 user_page) 2 \<and>
   bit (mpu_rasr (mpu_setup_region 2 0x20001000 user_page) 2) 28"
proof -
  have v: "mpu_valid (fpages user_page 0x20001000)" by (simp add: mpu_valid_def user_page_def)
  have fl: "mp_flags (memmap user_page ! unat (fp_mpid (fpages user_page 0x20001000))) AND MP_UX = 0"
    by (simp add: user_page_def mem_example_def memmap_of_def memmap_common_def DECLARE_MEMPOOL_def)
  have "addr_in_fpage 0x200080FF (fpages user_page 0x20001000) False"
    "\<not> addr_in_fpage 0x20008100 (fpages user_page 0x20001000) False"
    by (simp_all add: user_page_def addr_in_fpage_def FPAGE_END_def FPAGE_SIZE_def)
  then show ?thesis using mpu_region_grants_pool_rights [OF _ v, of 2] fl by (auto simp: Let_def)
qed

subsection \<open>Handling a memory fault\<close>

lemma find_page_spec:
  assumes "slist (nextf m) fp xs" "length xs < n"
  shows "\<exists>p. find_page n addr fp m = Ok p \<and>
    (if \<exists>x \<in> set xs. addr_in_fpage addr (fpages m x) False
     then p \<in> set xs \<and> addr_in_fpage addr (fpages m p) False else p = NULL)"
  using assms
proof (induction xs arbitrary: fp n)
  case Nil
  then show ?case by (cases n) auto
next
  case (Cons x xs)
  then obtain n' where n: "n = Suc n'" by (cases n) auto
  show ?case
  proof (cases "addr_in_fpage addr (fpages m x) False")
    case True
    then show ?thesis using Cons.prems n by auto
  next
    case False
    have "find_page n addr fp m = find_page n' addr (nextf m x) m" using Cons.prems n False by simp
    moreover obtain p where "find_page n' addr (nextf m x) m = Ok p"
        "if \<exists>x \<in> set xs. addr_in_fpage addr (fpages m x) False
         then p \<in> set xs \<and> addr_in_fpage addr (fpages m p) False else p = NULL"
      using Cons.IH [of "nextf m x" n'] Cons.prems n by auto
    ultimately show ?thesis using False by (intro exI [of _ p]) auto
  qed
qed

lemma count_mpu_spec: "slist (nextk MPU_CHAIN m) fp zs \<Longrightarrow> length zs < n \<Longrightarrow> count_mpu n fp m = Ok (length zs)"
proof (induction zs arbitrary: fp n)
  case Nil
  then show ?case by (cases n) auto
next
  case (Cons z zs)
  then obtain n' where "n = Suc n'" by (cases n) auto
  then show ?case using Cons by auto
qed

lemma fill_regions_keeps:
  "r < i \<Longrightarrow> mpu_rbar (fill_regions i fp m) r = mpu_rbar m r \<and> mpu_rasr (fill_regions i fp m) r = mpu_rasr m r"
proof (induction i fp m rule: fill_regions.induct)
  case (1 i fp m)
  show ?case
  proof (cases "i < 8 \<and> mpu_next (fpages m fp) \<noteq> NULL")
    case True
    then have "r < 16" "i < 16" "r \<noteq> i" using 1(2) by auto
    then show ?thesis
      using 1(1) [OF True] 1(2) True mpu_setup_region_other [of r i]
      by (subst (1 2) fill_regions.simps) auto
  next
    case False
    then have "fill_regions i fp m = m" by (subst fill_regions.simps) auto
    then show ?thesis by simp
  qed
qed

lemma remove_from_MPU_keeps:
  "remove_from n MPU_CHAIN sl p m = Ok m' \<Longrightarrow>
     fp_base (fpages m' q) = fp_base (fpages m q) \<and> fp_shift (fpages m' q) = fp_shift (fpages m q)"
proof (induction n arbitrary: sl)
  case (Suc n)
  have "fp_base (fpages (slot_set MPU_CHAIN sl v m) q) = fp_base (fpages m q) \<and>
      fp_shift (fpages (slot_set MPU_CHAIN sl v m) q) = fp_shift (fpages m q)" for v
    by (cases sl) auto
  then show ?case using Suc by (auto simp: Let_def split: if_splits)
qed simp

text \<open>After a memory fault at an address of one of the space's fpages that no region covers yet,
  \<open>mpu_select_lru\<close> reports success and afterwards a region covers the address; if no fpage of the space
  contains it, or a region already does, it reports failure and changes nothing. The lists may have up to
  256 elements and the stack occupies fewer than eight regions.\<close>

theorem mpu_select_lru_maps_address:
  assumes as: "as \<noteq> NULL"
    and xs: "slist (nextf m) (first (ases m as)) xs" "length xs \<le> 256"
    and ys: "slist (nextk MPU_CHAIN m) (mpu_first (ases m as)) ys" "length ys \<le> 256"
    and zs: "slist (nextk MPU_CHAIN m) (mpu_stack_first (ases m as)) zs" "length zs < 8"
    and dj: "set zs \<inter> (set xs \<union> set ys) = {}"
    and valid: "\<forall>x \<in> set xs. mpu_valid (fpages m x)"
  shows "\<exists>r m'. mpu_select_lru as addr m = Ok (r, m') \<and>
    (r = 0 \<longleftrightarrow> \<not> addr_in_mpu addr m \<and> (\<exists>x \<in> set xs. addr_in_fpage addr (fpages m x) False)) \<and>
    (r = 0 \<longrightarrow> addr_in_mpu addr m') \<and> (r \<noteq> 0 \<longrightarrow> r = 1 \<and> m' = m)"
proof (cases "\<not> addr_in_mpu addr m \<and> (\<exists>x \<in> set xs. addr_in_fpage addr (fpages m x) False)")
  case False
  have "\<exists>p. find_page WALK_FUEL addr (first (ases m as)) m = Ok p \<and> (addr_in_mpu addr m \<or> p = NULL)"
    using find_page_spec [OF xs(1), of WALK_FUEL addr] xs(2) False by (auto simp: WALK_FUEL_def)
  then have "mpu_select_lru as addr m = Ok (1, m)" by (auto simp: mpu_select_lru_def as)
  then show ?thesis using False by auto
next
  case True
  obtain p where p: "find_page WALK_FUEL addr (first (ases m as)) m = Ok p" "p \<in> set xs"
      "addr_in_fpage addr (fpages m p) False"
    using find_page_spec [OF xs(1), of WALK_FUEL addr] xs(2) True by (auto simp: WALK_FUEL_def)
  have pn: "p \<noteq> NULL" using p(2) slist_not_null [OF xs(1)] by auto
  obtain m1 where m1: "remove_fpage_from_list MPU_CHAIN as p m = Ok m1"
      "\<And>q. q \<notin> set ys \<Longrightarrow> fpages m1 q = fpages m q"
    using remove_from_spec [of MPU_CHAIN m "Head as" ys WALK_FUEL p] ys
    by (auto simp: WALK_FUEL_def remove_fpage_from_list_def)
  have keep: "fp_base (fpages m1 q) = fp_base (fpages m q) \<and> fp_shift (fpages m1 q) = fp_shift (fpages m q)" for q
    using remove_from_MPU_keeps [of WALK_FUEL "Head as" p m m1] m1(1) by (auto simp: remove_fpage_from_list_def)
  let ?m2 = "as_upd as (mpu_first_update (\<lambda>_. p)) (fp_upd p (mpu_next_update (\<lambda>_. mpu_first (ases m1 as))) m1)"
  have "slist (nextk MPU_CHAIN ?m2) (mpu_stack_first (ases m as)) zs"
    using zs(1) by (subst lseg_cong [of zs _ "nextk MPU_CHAIN m"]) (use dj p(2) m1(2) in auto)
  then have c: "count_mpu WALK_FUEL (mpu_stack_first (ases m as)) ?m2 = Ok (length zs)"
    using zs(2) by (intro count_mpu_spec) (simp_all add: WALK_FUEL_def)
  let ?m3 = "mpu_setup_region (length zs) p ?m2"
  let ?m4 = "fill_regions (Suc (length zs)) p ?m3"
  have r: "mpu_select_lru as addr m = Ok (0, ?m4)"
    using True p(1) pn m1(1) c by (simp add: mpu_select_lru_def as Let_def)
  have v2: "mpu_valid (fpages ?m2 p)" "addr_in_fpage addr (fpages ?m2 p) False"
    using valid p keep [of p] by (auto simp: mpu_valid_def addr_in_fpage_def FPAGE_END_def FPAGE_SIZE_def)
  have "mpu_region_has addr ?m3 (length zs)" using mpu_region_covers [OF pn v2(1)] v2(2) zs(2) by simp
  then have "mpu_region_has addr ?m4 (length zs)"
    using fill_regions_keeps [of "length zs" "Suc (length zs)" p ?m3] by (simp add: mpu_region_has_def)
  then have "addr_in_mpu addr ?m4" using zs(2) by (auto simp: addr_in_mpu_def)
  then show ?thesis using r True by auto
qed

text \<open>One page of 256 bytes in a space without MPU or stack pages.\<close>

definition fault_example :: mstate where
  "fault_example = as_upd 0x20003000 (first_update (\<lambda>_. 0x20001000)) user_page"

theorem mpu_select_lru_maps_address_witness:
  "\<exists>m'. mpu_select_lru 0x20003000 0x20008010 fault_example = Ok (0, m') \<and> addr_in_mpu 0x20008010 m'"
proof -
  have l: "slist (nextf fault_example) (first (ases fault_example 0x20003000)) [0x20001000]"
    "slist (nextk MPU_CHAIN fault_example) (mpu_first (ases fault_example 0x20003000)) []"
    "slist (nextk MPU_CHAIN fault_example) (mpu_stack_first (ases fault_example 0x20003000)) []"
    by (simp_all add: fault_example_def user_page_def mem_example_def)
  have v: "\<forall>x \<in> set [0x20001000]. mpu_valid (fpages fault_example x)"
    by (simp add: mpu_valid_def fault_example_def user_page_def)
  have "\<not> addr_in_mpu 0x20008010 fault_example"
    by (simp add: addr_in_mpu_def mpu_region_has_def fault_example_def user_page_def mem_example_def as_upd_def fp_upd_def)
  moreover have "addr_in_fpage 0x20008010 (fpages fault_example 0x20001000) False"
    by (simp add: addr_in_fpage_def FPAGE_END_def FPAGE_SIZE_def fault_example_def user_page_def)
  ultimately show ?thesis
    using mpu_select_lru_maps_address [OF _ l(1) _ l(2) _ l(3) _ _ v, of "0x20008010"] by auto
qed

subsection \<open>Reference counts and protection of kernel memory\<close>

text \<open>Releasing a reference undoes taking one as long as other references remain; the last release
  destroys the space, and a release on a count of 0 changes nothing.\<close>

theorem as_put_get_refcount:
  assumes "as \<noteq> NULL"
  shows "(shared (ases m as) \<noteq> 0 \<and> shared (ases m as) \<noteq> - 1 \<longrightarrow> as_put as (as_get as m) = Ok m) \<and>
    (shared (ases m as) = 0 \<longrightarrow> as_put as m = Ok m) \<and>
    (1 < shared (ases m as) \<longrightarrow> as_put as m = Ok (as_upd as (\<lambda>a. a\<lparr>shared := shared a - 1\<rparr>) m)) \<and>
    (shared (ases m as) = 1 \<longrightarrow> as_put as m = as_destroy as (as_upd as (\<lambda>a. a\<lparr>shared := 0\<rparr>) m))"
proof (intro conjI impI)
  assume a: "shared (ases m as) \<noteq> 0 \<and> shared (ases m as) \<noteq> - 1"
  then have "shared (ases m as) + 1 \<noteq> 0" by (simp add: eq_neg_iff_add_eq_0)
  then show "as_put as (as_get as m) = Ok m"
    using a assms by (simp add: as_put_def as_get_def Let_def as_upd_def)
next
  assume "1 < shared (ases m as)"
  then show "as_put as m = Ok (as_upd as (\<lambda>a. a\<lparr>shared := shared a - 1\<rparr>) m)"
    using assms by (auto simp: as_put_def Let_def)
qed (use assms in \<open>simp_all add: as_put_def Let_def as_upd_def\<close>)

theorem as_put_get_refcount_witness:
  "as_put 0x20003000 (as_get 0x20003000 mem_example) = Ok mem_example"
  using as_put_get_refcount [of "0x20003000" mem_example] by (simp add: mem_example_def)

text \<open>Fpages are only created inside a memory pool that allows them: whenever an area is assigned
  successfully, it lies wholly in one pool of the memory map whose flags have an fpage type. For the memory
  map of every board this means that kernel text, data, bss and bitmaps are never mapped: the only kernel
  pool with an fpage type is the KIP.\<close>

theorem assign_fpages_only_mappable_pools:
  assumes "assign_fpages_ext (-1) as base sz pf pl m = Ok (0, pf', pl', m')"
    and "memmap m = memmap_of b L"
  shows "\<exists>n < length (memmap m). mp_start (memmap m ! n) \<le> base \<and> base + sz \<le> mp_end (memmap m ! n) \<and>
    unat base + unat sz \<le> 2 ^ 32 \<and>
    (mp_tag (memmap m ! n) \<in> {MPT_KERNEL_TEXT, MPT_KERNEL_DATA} \<longrightarrow>
       mp_start (memmap m ! n) = kip_start L \<and> mp_end (memmap m ! n) = kip_end L)"
proof -
  let ?n = "mempool_search (memmap m) base sz"
  have n: "?n \<noteq> -1" and fl: "mp_flags (memmap m ! nat ?n) AND MP_FPAGE_MASK \<noteq> 0"
    using assms(1) by (auto simp: assign_fpages_ext_def Let_def split: if_splits)
  note c = mempool_search_facts [of "memmap m" base sz]
  have l: "nat ?n < length (memmap m)" using c n by simp
  then have "memmap m ! nat ?n \<in> set (memmap_of b L)" using assms(2) by (metis nth_mem)
  then show ?thesis using c n l fl memmap_kernel_not_mappable [of "memmap m ! nat ?n" b L]
    by (intro exI [of _ "nat ?n"]) auto
qed

lemma assign_example:
  "case assign_fpages_ext (-1) NULL 0x20008000 0x100 NULL NULL mem_example of Ok (r, _) \<Rightarrow> r = 0 | Fault _ \<Rightarrow> False"
  by code_simp

theorem assign_fpages_only_mappable_pools_witness:
  "\<exists>pf pl m' n. assign_fpages_ext (-1) NULL 0x20008000 0x100 NULL NULL mem_example = Ok (0, pf, pl, m') \<and>
     n < length (memmap mem_example) \<and> mp_start (memmap mem_example ! n) \<le> 0x20008000"
proof -
  obtain pf pl m' where a: "assign_fpages_ext (-1) NULL 0x20008000 0x100 NULL NULL mem_example = Ok (0, pf, pl, m')"
    using assign_example by (auto split: result.splits prod.splits)
  have "memmap mem_example = memmap_of BOARD_OTHER link_example" by (simp add: mem_example_def)
  from assign_fpages_only_mappable_pools [OF a this] a show ?thesis by blast
qed

text \<open>Eight stack pages fill the local array of \<open>as_setup_mpu\<close> and the next read is past its end.\<close>

lemma as_setup_mpu_eight_stack_pages:
  assumes "stack_walk WALK_FUEL (first (ases m as)) sb (sb + sz) [] m = Ok stk" and "length stk = 8"
    and "mpu_first (ases m as) \<noteq> NULL"
  shows "as_setup_mpu as spv pc sb sz m = Fault (Out_of_bounds ''as_setup_mpu: mpu[8]'')"
proof -
  have "fifo_walk WALK_FUEL fp stk stk m' = Ok stk" for fp m'
    using assms(2) by (simp add: WALK_FUEL_def numeral_eq_Suc)
  then show ?thesis using assms by (simp add: as_setup_mpu_def Let_def)
qed

end
