(* ===== verification/Thread.thy ===== *)
theory Thread
  imports Sched Memory
begin

text \<open>
  The thread dispatcher: \<^verbatim>\<open>kernel/thread.c\<close>, the canary helpers of \<^verbatim>\<open>include/thread.h\<close> and the
  user error codes of \<^verbatim>\<open>kernel/error.c\<close>. \<open>thread_map\<close> is the array of TCB pointers sorted by thread
  number of which the first \<open>thread_count\<close> entries are valid. \<open>ram\<close> holds the words of the thread
  stacks the kernel itself writes and reads, by byte address.
\<close>

subsection \<open>State\<close>

record tstate = kstate +
  mem :: mstate
  thread_table :: ktable
  thread_map :: "nat \<Rightarrow> ptr"
  thread_count :: nat
  caller :: ptr
  utcbs :: "ptr \<Rightarrow> utcb_t"
  current_utcb :: ptr
  ram :: "u32 \<Rightarrow> u32"
  kip_fpage :: ptr
  kip_extra_fpage :: ptr
  utext_fpage :: ptr
  udata_fpage :: ptr
  ubss_fpage :: ptr
  kip_system_base :: u32
  kip_user_base :: u32

abbreviation (input) CONFIG_MAX_THREADS :: nat where "CONFIG_MAX_THREADS \<equiv> 32"
abbreviation (input) THREAD_USER :: u32 where "THREAD_USER \<equiv> 256"
abbreviation (input) STACK_CANARY :: u32 where "STACK_CANARY \<equiv> 0xDEADBEEF"

text \<open>User errors (\<open>enum user_error_t\<close>); an IPC error carries the phase in bit 0.\<close>

type_synonym user_error_t = u32

abbreviation (input) UE_NO_PRIVILIGE :: user_error_t where "UE_NO_PRIVILIGE \<equiv> 1"
abbreviation (input) UE_OUT_OF_MEM :: user_error_t where "UE_OUT_OF_MEM \<equiv> 8"
abbreviation (input) UE_TC_NOT_AVAILABLE :: user_error_t where "UE_TC_NOT_AVAILABLE \<equiv> 2"
abbreviation (input) UE_TC_INVAL_SPACE :: user_error_t where "UE_TC_INVAL_SPACE \<equiv> 3"
abbreviation (input) UE_TC_INVAL_SCHED :: user_error_t where "UE_TC_INVAL_SCHED \<equiv> 4"
abbreviation (input) UE_TC_INVAL_UTCB :: user_error_t where "UE_TC_INVAL_UTCB \<equiv> 6"
abbreviation (input) UE_IPC_PHASE_SEND :: user_error_t where "UE_IPC_PHASE_SEND \<equiv> 0"
abbreviation (input) UE_IPC_PHASE_RECV :: user_error_t where "UE_IPC_PHASE_RECV \<equiv> 1"
abbreviation (input) UE_IPC_TIMEOUT :: user_error_t where "UE_IPC_TIMEOUT \<equiv> 2"
abbreviation (input) UE_IPC_NOT_EXIST :: user_error_t where "UE_IPC_NOT_EXIST \<equiv> 4"
abbreviation (input) UE_IPC_CANCELED :: user_error_t where "UE_IPC_CANCELED \<equiv> 6"
abbreviation (input) UE_IPC_MSG_OVERFLOW :: user_error_t where "UE_IPC_MSG_OVERFLOW \<equiv> 8"
abbreviation (input) UE_IPC_XFER_TIMEOUT :: user_error_t where "UE_IPC_XFER_TIMEOUT \<equiv> 10"
abbreviation (input) UE_IPC_XFER_TIMEOUT2 :: user_error_t where "UE_IPC_XFER_TIMEOUT2 \<equiv> 12"
abbreviation (input) UE_IPC_ABORTED :: user_error_t where "UE_IPC_ABORTED \<equiv> 14"

lemma tstate_more:
  assumes "kstate.more s' = kstate.more s"
  shows "mem s' = mem s" "thread_table s' = thread_table s" "thread_map s' = thread_map s"
    "thread_count s' = thread_count s" "caller s' = caller s" "utcbs s' = utcbs s"
    "current_utcb s' = current_utcb s" "ram s' = ram s" "tstate.more s' = tstate.more s"
  using assms by (cases s; cases s'; simp)+

definition utcb_upd :: "ptr \<Rightarrow> (utcb_t \<Rightarrow> utcb_t) \<Rightarrow> 'z tstate_scheme \<Rightarrow> 'z tstate_scheme" where
  "utcb_upd p f s = s\<lparr>utcbs := (utcbs s)(p := f (utcbs s p))\<rparr>"

lemma utcb_upd_sel [simp]:
  "tcbs (utcb_upd p f s) = tcbs s" "current (utcb_upd p f s) = current s"
  "ready_queue (utcb_upd p f s) = ready_queue s" "ready_bitmap (utcb_upd p f s) = ready_bitmap s"
  "mem (utcb_upd p f s) = mem s" "current_utcb (utcb_upd p f s) = current_utcb s"
  "caller (utcb_upd p f s) = caller s" "thread_map (utcb_upd p f s) = thread_map s"
  "thread_count (utcb_upd p f s) = thread_count s" "ram (utcb_upd p f s) = ram s"
  "thread_table (utcb_upd p f s) = thread_table s"
  "utcbs (utcb_upd p f s) = (utcbs s)(p := f (utcbs s p))"
  by (simp_all add: utcb_upd_def)

definition set_user_error :: "ptr \<Rightarrow> user_error_t \<Rightarrow> 'z tstate_scheme \<Rightarrow> 'z tstate_scheme result" where
  "set_user_error thread e s =
     (if thread \<noteq> NULL \<and> utcb (tcbs s thread) \<noteq> NULL
      then Ok (utcb_upd (utcb (tcbs s thread)) (error_code_update (\<lambda>_. e)) s)
      else Fault (Assertion ''thread && thread->utcb''))"

definition set_caller_error :: "user_error_t \<Rightarrow> 'z tstate_scheme \<Rightarrow> 'z tstate_scheme result" where
  "set_caller_error e s =
     (if caller s \<noteq> NULL then set_user_error (caller s) e s
      else Fault (Panic ''User-level error during in-kernel call!''))"

subsection \<open>The thread map\<close>

definition tid_of :: "'z kstate_scheme \<Rightarrow> ptr \<Rightarrow> u32" where
  "tid_of s p = GLOBALID_TO_TID (t_globalid (tcbs s p))"

function map_search_loop :: "u32 \<Rightarrow> nat \<Rightarrow> nat \<Rightarrow> 'z tstate_scheme \<Rightarrow> nat" where
  "map_search_loop tid lo hi s =
     (if lo < hi then
        let mid = lo + (hi - lo) div 2
        in if tid \<le> tid_of s (thread_map s mid) then map_search_loop tid lo mid s
           else map_search_loop tid (mid + 1) hi s
      else lo)"
  by pat_completeness auto
termination
  by (relation "measure (\<lambda>(tid, lo, hi, s). hi - lo)") auto

declare map_search_loop.simps [simp del]

definition thread_map_search :: "u32 \<Rightarrow> nat \<Rightarrow> 'z tstate_scheme \<Rightarrow> nat" where
  "thread_map_search globalid cnt s = map_search_loop (GLOBALID_TO_TID globalid) 0 cnt s"

definition move_up :: "nat \<Rightarrow> (nat \<Rightarrow> ptr) \<Rightarrow> nat \<Rightarrow> ptr" where
  "move_up j tm = tm(j := tm (j - 1))"

definition move_down :: "nat \<Rightarrow> (nat \<Rightarrow> ptr) \<Rightarrow> nat \<Rightarrow> ptr" where
  "move_down j tm = tm(j := tm (j + 1))"

definition thread_map_insert :: "u32 \<Rightarrow> ptr \<Rightarrow> 'z tstate_scheme \<Rightarrow> 'z tstate_scheme" where
  "thread_map_insert globalid thr s =
     (if thread_count s = 0 then
        s\<lparr>thread_map := (thread_map s)(0 := thr), thread_count := 1\<rparr>
      else
        let i = thread_map_search globalid (thread_count s) s;
            moved = fold move_up (rev [Suc i..<Suc (thread_count s)]) (thread_map s)
        in s\<lparr>thread_map := moved(i := thr), thread_count := thread_count s + 1\<rparr>)"

definition thread_map_delete :: "u32 \<Rightarrow> 'z tstate_scheme \<Rightarrow> 'z tstate_scheme" where
  "thread_map_delete globalid s =
     (if thread_count s = 1 then s\<lparr>thread_count := 0\<rparr>
      else
        let i = thread_map_search globalid (thread_count s) s;
            n = thread_count s - 1
        in s\<lparr>thread_count := n,
             thread_map := fold move_down [i..<n] (thread_map s)\<rparr>)"

definition thread_by_globalid :: "u32 \<Rightarrow> 'z tstate_scheme \<Rightarrow> ptr" where
  "thread_by_globalid globalid s =
     (let idx = thread_map_search globalid (thread_count s) s
      in if idx \<ge> thread_count s \<or> tid_of s (thread_map s idx) \<noteq> GLOBALID_TO_TID globalid
         then NULL else thread_map s idx)"

definition thread_isrunnable :: "ptr \<Rightarrow> 'z kstate_scheme \<Rightarrow> bool" where
  "thread_isrunnable thr s \<longleftrightarrow> state (tcbs s thr) = T_RUNNABLE"

definition thread_current :: "'z kstate_scheme \<Rightarrow> ptr" where
  "thread_current s = current s"

definition thread_ispriviliged :: "ptr \<Rightarrow> 'z kstate_scheme \<Rightarrow> bool" where
  "thread_ispriviliged thr s \<longleftrightarrow> tid_of s thr = THREAD_ROOT"

subsection \<open>Creating and destroying threads\<close>

definition thread_fresh :: "u32 \<Rightarrow> ptr \<Rightarrow> tcb \<Rightarrow> tcb" where
  "thread_fresh globalid u t =
     t\<lparr>t_localid := 0, t_child := NULL, t_parent := NULL, t_sibling := NULL, t_globalid := globalid,
       t_pager := 0, stack_canary_needs_init := 0, utcb_needs_sync := 0,
       t_as := NULL, utcb := u, state := T_INACTIVE, timeout_event := 0,
       priority := SCHED_PRIO_DEFAULT, base_priority := SCHED_PRIO_DEFAULT,
       sched_prev := NULL, sched_next := NULL,
       user_priority := SCHED_PRIO_DEFAULT, preempt_threshold := SCHED_PRIO_DEFAULT,
       user_preempt_threshold := SCHED_PRIO_DEFAULT, inherit_priority := SCHED_PRIO_DEFAULT\<rparr>"

definition thread_init :: "u32 \<Rightarrow> ptr \<Rightarrow> 'z tstate_scheme \<Rightarrow> (ptr \<times> 'z tstate_scheme) result" where
  "thread_init globalid u s =
     (case ktable_alloc (thread_table s) of (thr, kt) \<Rightarrow>
        let s = s\<lparr>thread_table := kt\<rparr> in
        if thr = NULL then rbind (set_caller_error UE_OUT_OF_MEM s) (\<lambda>s. Ok (NULL, s))
        else
          let s = thread_map_insert globalid thr s;
              s = tcb_upd thr (thread_fresh globalid u) s
          in if u \<noteq> NULL \<and> (caller s = NULL \<or> thread_ispriviliged (caller s) s)
             then Ok (thr, utcb_upd u (utcb_globalid_update (\<lambda>_. globalid)) s)
             else Ok (thr, tcb_upd thr (utcb_needs_sync_update (\<lambda>_. if u \<noteq> NULL then 1 else 0)) s))"

definition thread_deinit :: "ptr \<Rightarrow> 'z tstate_scheme \<Rightarrow> 'z tstate_scheme" where
  "thread_deinit thr s =
     (let s = thread_map_delete (t_globalid (tcbs s thr)) s
      in s\<lparr>thread_table := ktable_free (thread_table s) thr\<rparr>)"

text \<open>The walk to the end of the child chain with its guard; guard 0 means it was given up.\<close>

fun child_walk :: "nat \<Rightarrow> ptr \<Rightarrow> 'z kstate_scheme \<Rightarrow> ptr \<times> nat" where
  "child_walk 0 t s = (t, 0)"
| "child_walk (Suc g) t s =
     (if t_sibling (tcbs s t) \<noteq> NULL
      then (if 0 < g then child_walk g (t_sibling (tcbs s t)) s else (t, 0))
      else (t, Suc g))"

text \<open>A failed \<open>thread_init\<close> returns NULL and the next statement writes through it.\<close>

definition thread_create :: "u32 \<Rightarrow> ptr \<Rightarrow> 'z tstate_scheme \<Rightarrow> (ptr \<times> 'z tstate_scheme) result" where
  "thread_create globalid u s =
     (if caller s = NULL then Fault (Assertion ''(intptr_t) caller'')
      else if GLOBALID_TO_TID globalid < THREAD_SYS \<or> globalid = L4_ANYTHREAD \<or> globalid = L4_ANYLOCALTHREAD
        then rbind (set_caller_error UE_TC_NOT_AVAILABLE s) (\<lambda>s. Ok (NULL, s))
      else
        rbind (thread_init globalid u s) (\<lambda>(thr, s).
        if thr = NULL then Fault (Null_deref ''thread_create: thr->t_parent'')
        else
          let s = tcb_upd thr (t_parent_update (\<lambda>_. caller s)) s
          in if t_child (tcbs s (caller s)) \<noteq> NULL then
               case child_walk CONFIG_MAX_THREADS (t_child (tcbs s (caller s))) s of (t, guard) \<Rightarrow>
                 if guard = 0 then Ok (thr, s)
                 else
                   let s = tcb_upd t (t_sibling_update (\<lambda>_. thr)) s
                   in Ok (thr, tcb_upd thr (t_localid_update (\<lambda>_. t_localid (tcbs s t) + push_bit 6 1)) s)
             else
               let s = tcb_upd (caller s) (t_child_update (\<lambda>_. thr)) s
               in Ok (thr, tcb_upd thr (t_localid_update (\<lambda>_. push_bit 6 1)) s)))"

definition THREAD_FUEL :: nat where "THREAD_FUEL = 33"

text \<open>The predecessor of \<open>thr\<close> among its siblings.\<close>

fun sibling_walk :: "nat \<Rightarrow> ptr \<Rightarrow> ptr \<Rightarrow> ptr \<Rightarrow> 'z kstate_scheme \<Rightarrow> ptr result" where
  "sibling_walk 0 thr prev child s = Fault (Diverges ''thread_destroy'')"
| "sibling_walk (Suc n) thr prev child s =
     (if child = thr then Ok prev
      else if child = NULL then Fault (Null_deref ''thread_destroy: child->t_sibling'')
      else sibling_walk n thr child (t_sibling (tcbs s child)) s)"

text \<open>Giving the children to the caller; the result is the last child.\<close>

fun adopt_walk :: "nat \<Rightarrow> ptr \<Rightarrow> 'z tstate_scheme \<Rightarrow> (ptr \<times> 'z tstate_scheme) result" where
  "adopt_walk 0 child s = Fault (Diverges ''thread_destroy'')"
| "adopt_walk (Suc n) child s =
     (let s = tcb_upd child (t_parent_update (\<lambda>_. caller s)) s
      in if t_sibling (tcbs s child) \<noteq> NULL then adopt_walk n (t_sibling (tcbs s child)) s
         else Ok (child, s))"

definition thread_destroy :: "ptr \<Rightarrow> 'z tstate_scheme \<Rightarrow> 'z tstate_scheme result" where
  "thread_destroy thr s =
     (let s = sched_dequeue thr s;
          parent = t_parent (tcbs s thr)
      in if parent = NULL then Fault (Null_deref ''thread_destroy: parent->t_child'')
         else
           rbind (if t_child (tcbs s parent) = thr
                  then Ok (tcb_upd parent (t_child_update (\<lambda>_. t_sibling (tcbs s thr))) s)
                  else rbind (sibling_walk THREAD_FUEL thr NULL (t_child (tcbs s parent)) s) (\<lambda>prev.
                       Ok (tcb_upd prev (t_sibling_update (\<lambda>_. t_sibling (tcbs s thr))) s))) (\<lambda>s.
           let child = t_child (tcbs s thr) in
           rbind (if child = NULL then Ok s
                  else if caller s = NULL then Fault (Null_deref ''thread_destroy: caller->t_child'')
                  else rbind (adopt_walk THREAD_FUEL child s) (\<lambda>(lst, s).
                       let s = tcb_upd lst (t_sibling_update (\<lambda>_. t_child (tcbs s (caller s)))) s
                       in Ok (tcb_upd (caller s) (t_child_update (\<lambda>_. t_child (tcbs s thr))) s))) (\<lambda>s.
           rbind (if t_as (tcbs s thr) \<noteq> NULL
                  then rbind (as_put (t_as (tcbs s thr)) (mem s)) (\<lambda>m. Ok (s\<lparr>mem := m\<rparr>)) else Ok s) (\<lambda>s.
           let s = tcb_upd thr (\<lambda>t. t\<lparr>notify_generation := notify_generation t + 1\<rparr>) s
           in Ok (thread_deinit thr s)))))"

subsection \<open>Address spaces and contexts of threads\<close>

definition utcb_size :: u32 where "utcb_size = 144"

definition thread_space :: "ptr \<Rightarrow> u32 \<Rightarrow> ptr \<Rightarrow> 'z tstate_scheme \<Rightarrow> 'z tstate_scheme result" where
  "thread_space thr spaceid u s =
     rbind (if tid_of s thr = GLOBALID_TO_TID spaceid then
              case as_create (t_globalid (tcbs s thr)) (mem s) of (as, m) \<Rightarrow>
                let s = tcb_upd thr (t_as_update (\<lambda>_. as)) (s\<lparr>mem := m\<rparr>) in
                if as = NULL then Ok (False, s)
                else
                  rbind (map_fpage NULL as (kip_fpage s) GRANT (mem s)) (\<lambda>(_, m).
                  rbind (map_fpage NULL as (kip_extra_fpage s) GRANT m) (\<lambda>(_, m).
                  Ok (True, s\<lparr>mem := m\<rparr>)))
            else
              let space = thread_by_globalid spaceid s in
              if space = NULL \<or> t_as (tcbs s space) = NULL then Ok (False, s)
              else
                let shared_as = t_as (tcbs s space)
                in Ok (True, tcb_upd thr (t_as_update (\<lambda>_. shared_as)) (s\<lparr>mem := as_get shared_as (mem s)\<rparr>)))
       (\<lambda>(go, s).
        if \<not> go then Ok s
        else
          rbind (if caller s \<noteq> NULL
                 then map_area (t_as (tcbs s (caller s))) (t_as (tcbs s thr)) u utcb_size GRANT
                        (thread_ispriviliged (caller s) s) (mem s)
                 else map_area (t_as (tcbs s thr)) (t_as (tcbs s thr)) u utcb_size GRANT True (mem s))
            (\<lambda>(_, m). Ok (s\<lparr>mem := m\<rparr>)))"

abbreviation (input) REG_R0 :: nat where "REG_R0 \<equiv> 0"
abbreviation (input) REG_R1 :: nat where "REG_R1 \<equiv> 1"
abbreviation (input) REG_R2 :: nat where "REG_R2 \<equiv> 2"
abbreviation (input) REG_R3 :: nat where "REG_R3 \<equiv> 3"
abbreviation (input) REG_R12 :: nat where "REG_R12 \<equiv> 4"
abbreviation (input) REG_LR :: nat where "REG_LR \<equiv> 5"
abbreviation (input) REG_PC :: nat where "REG_PC \<equiv> 6"
abbreviation (input) REG_xPSR :: nat where "REG_xPSR \<equiv> 7"
abbreviation (input) RESERVED_STACK :: u32 where "RESERVED_STACK \<equiv> 32"

text \<open>Word \<open>i\<close> of the array of words at \<open>a\<close>.\<close>

definition word_addr :: "u32 \<Rightarrow> nat \<Rightarrow> u32" where
  "word_addr a i = a + of_nat (4 * i)"

definition rd :: "'z tstate_scheme \<Rightarrow> u32 \<Rightarrow> nat \<Rightarrow> u32" where
  "rd s a i = ram s (word_addr a i)"

definition wr :: "u32 \<Rightarrow> nat \<Rightarrow> u32 \<Rightarrow> 'z tstate_scheme \<Rightarrow> 'z tstate_scheme" where
  "wr a i v s = s\<lparr>ram := (ram s)(word_addr a i := v)\<rparr>"

definition user_mode_ctx :: "u32 \<Rightarrow> u32 \<Rightarrow> context_t" where
  "user_mode_ctx tid sp' =
     (if THREAD_ROOT \<le> tid then \<lparr>sp = sp', ret = 0xFFFFFFFD, ctl = 0x3, regs = replicate 8 0\<rparr>
      else \<lparr>sp = sp', ret = 0xFFFFFFF9, ctl = 0x0, regs = replicate 8 0\<rparr>)"

definition thread_init_ctx :: "u32 \<Rightarrow> u32 \<Rightarrow> u32 \<Rightarrow> ptr \<Rightarrow> 'z tstate_scheme \<Rightarrow> 'z tstate_scheme" where
  "thread_init_ctx sp0 pc rgs thr s =
     (let sp0 = sp0 - RESERVED_STACK;
          s = tcb_upd thr (ctx_update (\<lambda>_. user_mode_ctx (tid_of s thr) sp0)) s;
          s = (if rgs = NULL
               then wr sp0 REG_R3 0 (wr sp0 REG_R2 0 (wr sp0 REG_R1 0 (wr sp0 REG_R0 0 s)))
               else
                 let s = wr sp0 REG_R0 (rd s rgs 0) s;
                     s = wr sp0 REG_R1 (rd s rgs 1) s;
                     s = wr sp0 REG_R2 (rd s rgs 2) s
                 in wr sp0 REG_R3 (rd s rgs 3) s);
          s = wr sp0 REG_R12 0 s;
          s = wr sp0 REG_LR 0xFFFFFFFF s;
          s = wr sp0 REG_PC pc s
      in wr sp0 REG_xPSR 0x1000000 s)"

definition thread_init_prebuilt_ctx :: "u32 \<Rightarrow> ptr \<Rightarrow> 'z tstate_scheme \<Rightarrow> 'z tstate_scheme" where
  "thread_init_prebuilt_ctx sp0 thr s =
     tcb_upd thr (ctx_update (\<lambda>_. user_mode_ctx (tid_of s thr) (sp0 - RESERVED_STACK))) s"

definition thread_init_kernel_ctx :: "u32 \<Rightarrow> ptr \<Rightarrow> 'z tstate_scheme \<Rightarrow> 'z tstate_scheme" where
  "thread_init_kernel_ctx sp0 thr s =
     tcb_upd thr (ctx_update (\<lambda>_. \<lparr>sp = sp0 - RESERVED_STACK, ret = 0xFFFFFFF9, ctl = 0, regs = replicate 8 0\<rparr>)) s"

definition thread_init_canary :: "ptr \<Rightarrow> 'z tstate_scheme \<Rightarrow> 'z tstate_scheme" where
  "thread_init_canary thr s =
     (let b = stack_base (tcbs s thr) in if b \<noteq> 0 then wr b 0 STACK_CANARY s else s)"

definition thread_check_canary :: "ptr \<Rightarrow> 'z tstate_scheme \<Rightarrow> bool" where
  "thread_check_canary thr s =
     (let b = stack_base (tcbs s thr) in
      if b = 0 \<or> b AND 3 \<noteq> 0 then True else rd s b 0 = STACK_CANARY)"

text \<open>Running an operation on the memory subsystem's part of the state.\<close>

definition on_mem :: "(mstate \<Rightarrow> mstate result) \<Rightarrow> 'z tstate_scheme \<Rightarrow> 'z tstate_scheme result" where
  "on_mem f s = rbind (f (mem s)) (\<lambda>m. Ok (s\<lparr>mem := m\<rparr>))"

definition select_lru :: "ptr \<Rightarrow> u32 \<Rightarrow> 'z tstate_scheme \<Rightarrow> 'z tstate_scheme result" where
  "select_lru as addr s = on_mem (\<lambda>m. rbind (mpu_select_lru as addr m) (\<lambda>(_, m). Ok m)) s"

text \<open>The stages of \<open>thread_switch\<close>: dropping a temporary boost of the outgoing thread, the stack
  canary of the incoming one, its MPU regions, and the fields of its UTCB that were not written yet.\<close>

definition switch_restore :: "'z kstate_scheme \<Rightarrow> 'z kstate_scheme result" where
  "switch_restore s =
     (let prev = current s in
      if prev \<noteq> NULL \<and> priority (tcbs s prev) \<noteq> base_priority (tcbs s prev)
      then sched_set_priority prev (base_priority (tcbs s prev)) s else Ok s)"

definition switch_canary :: "ptr \<Rightarrow> 'z tstate_scheme \<Rightarrow> 'z tstate_scheme result" where
  "switch_canary thr s =
     (if stack_canary_needs_init (tcbs s thr) \<noteq> 0 then
        rbind (if t_as (tcbs s thr) \<noteq> NULL
               then select_lru (t_as (tcbs s thr)) (stack_base (tcbs s thr)) s else Ok s) (\<lambda>s.
        Ok (tcb_upd thr (stack_canary_needs_init_update (\<lambda>_. 0)) (thread_init_canary thr s)))
      else if \<not> thread_check_canary thr s then Fault (Panic ''Stack overflow'')
      else Ok s)"

definition switch_mpu :: "'z tstate_scheme \<Rightarrow> 'z tstate_scheme result" where
  "switch_mpu s =
     (let t = tcbs s (current s) in
      if t_as t \<noteq> NULL
      then on_mem (as_setup_mpu (t_as t) (sp (ctx t)) (rd s (sp (ctx t)) REG_PC)
             (stack_base t) (stack_size t)) s
      else Ok s)"

definition switch_sync :: "'z tstate_scheme \<Rightarrow> 'z tstate_scheme result" where
  "switch_sync s =
     (let t = tcbs s (current s) in
      if utcb t \<noteq> NULL \<and> utcb_needs_sync t \<noteq> 0 then
        rbind (if t_as t \<noteq> NULL then select_lru (t_as t) (utcb t) s else Ok s) (\<lambda>s.
        let s = utcb_upd (utcb t) (\<lambda>u. u\<lparr>utcb_globalid := t_globalid t, utcb_pager := t_pager t\<rparr>) s
        in Ok (tcb_upd (current s) (utcb_needs_sync_update (\<lambda>_. 0)) s))
      else Ok s)"

definition thread_switch :: "ptr \<Rightarrow> 'z tstate_scheme \<Rightarrow> 'z tstate_scheme result" where
  "thread_switch thr s =
     (if thr = NULL then Fault (Assertion ''(intptr_t) thr'')
      else if \<not> thread_isrunnable thr s then Fault (Assertion ''thread_isrunnable(thr)'')
      else
        rbind (switch_restore s) (\<lambda>s.
        rbind (switch_canary thr s) (\<lambda>s.
        rbind (switch_mpu (s\<lparr>current := thr, current_utcb := utcb (tcbs s thr)\<rparr>)) switch_sync)))"

text \<open>\<open>schedule\<close> of \<^verbatim>\<open>kernel/sched.c\<close>: select and switch.\<close>

definition schedule :: "'z tstate_scheme \<Rightarrow> 'z tstate_scheme result" where
  "schedule s = rbind (schedule_select s) (\<lambda>(thr, s). thread_switch thr s)"

subsection \<open>Initialisation\<close>

definition create_section_fpage :: "u32 \<Rightarrow> u32 \<Rightarrow> mstate \<Rightarrow> (int \<times> ptr \<times> mstate) result" where
  "create_section_fpage start sz m =
     rbind (assign_fpages_ext (-1) NULL start sz NULL NULL m) (\<lambda>(r, fp, _, m). Ok (r, fp, m))"

text \<open>The shared user sections: failure is reported on the debug console and leaves NULL.\<close>

definition user_section :: "u32 \<Rightarrow> u32 \<Rightarrow> mstate \<Rightarrow> (ptr \<times> mstate) result" where
  "user_section st en m =
     (if en - st = 0 then Ok (NULL, m)
      else rbind (create_section_fpage st (en - st) m) (\<lambda>(r, fp, m).
           Ok (if r < 0 \<or> fp = NULL then NULL else fp, m)))"

definition thread_init_subsys :: "u32 \<Rightarrow> u32 \<Rightarrow> link_syms \<Rightarrow> 'z tstate_scheme \<Rightarrow> 'z tstate_scheme result" where
  "thread_init_subsys kip_addr kip_extra_addr L s =
     (let s = s\<lparr>thread_table := ktable_init (thread_table s), kip_system_base := THREAD_SYS,
                kip_user_base := THREAD_USER\<rparr>
      in rbind (create_section_fpage kip_addr 256 (mem s)) (\<lambda>(r, fp, m).
         if r < 0 \<or> fp = NULL then Fault (Panic ''THREAD: Failed to create KIP fpage'')
         else rbind (create_section_fpage kip_extra_addr 128 m) (\<lambda>(r, fpx, m).
         if r < 0 \<or> fpx = NULL then Fault (Panic ''THREAD: Failed to create KIP extra fpage'')
         else rbind (user_section (user_text_start L) (user_text_end L) m) (\<lambda>(ut, m).
              rbind (user_section (user_data_start L) (user_data_end L) m) (\<lambda>(ud, m).
              rbind (user_section (user_bss_start L) (user_bss_end L) m) (\<lambda>(ub, m).
              Ok (s\<lparr>mem := m, kip_fpage := fp, kip_extra_fpage := fpx, utext_fpage := ut,
                    udata_fpage := ud, ubss_fpage := ub\<rparr>)))))))"

subsection \<open>The thread map is a directory\<close>

abbreviation map_tid :: "'z tstate_scheme \<Rightarrow> nat \<Rightarrow> u32" where
  "map_tid s i \<equiv> tid_of s (thread_map s i)"

definition tm_sorted :: "'z tstate_scheme \<Rightarrow> nat \<Rightarrow> bool" where
  "tm_sorted s n \<longleftrightarrow> (\<forall>i j. i < j \<longrightarrow> j < n \<longrightarrow> map_tid s i < map_tid s j)"

lemma map_search_loop_spec:
  assumes "tm_sorted s n" "hi \<le> n" "lo \<le> hi" "\<forall>i < lo. map_tid s i < tid" "\<forall>i. hi \<le> i \<longrightarrow> i < n \<longrightarrow> tid \<le> map_tid s i"
  shows "map_search_loop tid lo hi s \<le> n \<and> (\<forall>i < map_search_loop tid lo hi s. map_tid s i < tid) \<and>
    (\<forall>i. map_search_loop tid lo hi s \<le> i \<longrightarrow> i < n \<longrightarrow> tid \<le> map_tid s i)"
  using assms
proof (induction tid lo hi s rule: map_search_loop.induct)
  case (1 tid lo hi s)
  show ?case
  proof (cases "lo < hi")
    case False
    then have "map_search_loop tid lo hi s = lo" by (simp add: map_search_loop.simps)
    then show ?thesis using "1.prems" False by auto
  next
    case True
    define mid where "mid = lo + (hi - lo) div 2"
    have mid: "lo \<le> mid" "mid < hi" using True by (auto simp: mid_def)
    show ?thesis
    proof (cases "tid \<le> map_tid s mid")
      case le: True
      have e: "map_search_loop tid lo hi s = map_search_loop tid lo mid s"
        using True le by (subst map_search_loop.simps) (simp add: mid_def Let_def)
      have h: "\<forall>i. mid \<le> i \<longrightarrow> i < n \<longrightarrow> tid \<le> map_tid s i"
      proof (intro allI impI)
        fix i assume i: "mid \<le> i" "i < n"
        have "map_tid s mid \<le> map_tid s i"
        proof (cases "i = mid")
          case False
          then have "map_tid s mid < map_tid s i" using "1.prems"(1) i by (simp add: tm_sorted_def)
          then show ?thesis by (rule less_imp_le)
        qed simp
        with le show "tid \<le> map_tid s i" by (rule order_trans)
      qed
      have "mid \<le> n" using mid "1.prems"(2) by simp
      then show ?thesis
        unfolding e by (rule "1.IH"(1) [OF True mid_def le "1.prems"(1) _ mid(1) "1.prems"(4) h])
    next
      case gt: False
      have e: "map_search_loop tid lo hi s = map_search_loop tid (mid + 1) hi s"
        using True gt by (subst map_search_loop.simps) (simp add: mid_def Let_def)
      have h: "map_tid s i < tid" if "i < mid + 1" for i
      proof (cases "i = mid")
        case False
        then have "map_tid s i < map_tid s mid" using "1.prems"(1,2) mid that by (simp add: tm_sorted_def)
        then show ?thesis using gt by (simp add: not_le)
      qed (use gt in \<open>simp add: not_le\<close>)
      have "\<forall>i < mid + 1. map_tid s i < tid" "mid + 1 \<le> hi" using h mid by auto
      then show ?thesis
        unfolding e by (intro "1.IH"(2) [OF True mid_def gt "1.prems"(1,2) _ _ "1.prems"(5)])
    qed
  qed
qed

lemma thread_map_search_spec:
  assumes "tm_sorted s (thread_count s)"
  shows "thread_map_search g (thread_count s) s \<le> thread_count s"
    and "\<And>i. i < thread_map_search g (thread_count s) s \<Longrightarrow> map_tid s i < GLOBALID_TO_TID g"
    and "\<And>i. thread_map_search g (thread_count s) s \<le> i \<Longrightarrow> i < thread_count s \<Longrightarrow> GLOBALID_TO_TID g \<le> map_tid s i"
  using map_search_loop_spec [OF assms order_refl, of 0 "GLOBALID_TO_TID g"] by (auto simp: thread_map_search_def)

lemma shift_up: "fold move_up (rev [Suc i..<Suc n]) tm k = (if i < k \<and> k \<le> n then tm (k - 1) else tm k)"
proof (induction n arbitrary: tm k)
  case (Suc n)
  show ?case
  proof (cases "i \<le> n")
    case True
    then have "rev [Suc i..<Suc (Suc n)] = Suc n # rev [Suc i..<Suc n]" by simp
    then have "fold move_up (rev [Suc i..<Suc (Suc n)]) tm k =
        (if i < k \<and> k \<le> n then move_up (Suc n) tm (k - 1) else move_up (Suc n) tm k)"
      by (simp only: fold_simps Suc.IH)
    also have "\<dots> = (if i < k \<and> k \<le> Suc n then tm (k - 1) else tm k)" using True by (auto simp: move_up_def)
    finally show ?thesis .
  qed auto
qed simp

lemma shift_down: "fold move_down [i..<n] tm k = (if i \<le> k \<and> k < n then tm (k + 1) else tm k)"
proof (induction n arbitrary: k)
  case (Suc n)
  show ?case
  proof (cases "i \<le> n")
    case True
    then have "fold move_down [i..<Suc n] tm k = move_down n (fold move_down [i..<n] tm) k" by simp
    also have "\<dots> = (if i \<le> k \<and> k < Suc n then tm (k + 1) else tm k)"
      using True by (auto simp: move_down_def Suc.IH less_Suc_eq)
    finally show ?thesis .
  qed auto
qed simp

text \<open>\<open>tm_rep s M\<close>: the map, the table of TCBs and the abstract directory \<open>M\<close> from thread
  numbers to TCBs agree.\<close>

definition tm_rep :: "'z tstate_scheme \<Rightarrow> (u32 \<rightharpoonup> ptr) \<Rightarrow> bool" where
  "tm_rep s M \<longleftrightarrow> tm_sorted s (thread_count s) \<and> kt_wf (thread_table s) \<and>
     kt_used (thread_table s) = ran M \<and>
     (\<forall>t p. M t = Some p \<longleftrightarrow> (\<exists>i < thread_count s. thread_map s i = p) \<and> tid_of s p = t)"

lemma tm_rep_inj: "tm_rep s M \<Longrightarrow> M j = Some p \<Longrightarrow> M k = Some p \<Longrightarrow> j = k"
  by (auto simp: tm_rep_def)

lemma tm_rep_not_null: "tm_rep s M \<Longrightarrow> M t = Some p \<Longrightarrow> p \<noteq> NULL"
  using kt.nil_no_slot [of "thread_table s"] kt.used_slots [of "thread_table s"]
  by (auto simp: tm_rep_def ran_def)

lemma tm_rep_entry: "tm_rep s M \<Longrightarrow> i < thread_count s \<Longrightarrow> M (map_tid s i) = Some (thread_map s i)"
  by (auto simp: tm_rep_def)

lemma thread_by_globalid_spec:
  assumes "tm_rep s M"
  shows "thread_by_globalid g s = (case M (GLOBALID_TO_TID g) of None \<Rightarrow> NULL | Some p \<Rightarrow> p)"
proof -
  let ?i = "thread_map_search g (thread_count s) s" and ?t = "GLOBALID_TO_TID g"
  have so: "tm_sorted s (thread_count s)" using assms by (simp add: tm_rep_def)
  show ?thesis
  proof (cases "M ?t")
    case None
    then have "?i \<ge> thread_count s \<or> map_tid s ?i \<noteq> ?t"
      using tm_rep_entry [OF assms, of ?i] by (metis not_le option.distinct(1))
    then show ?thesis using None by (simp add: thread_by_globalid_def Let_def)
  next
    case (Some p)
    then obtain k where k: "k < thread_count s" "thread_map s k = p" "tid_of s p = ?t"
      using assms by (auto simp: tm_rep_def)
    have "\<not> k < ?i" using thread_map_search_spec(2) [OF so, of k g] k by auto
    moreover have "\<not> ?i < k"
    proof
      assume "?i < k"
      then have "map_tid s ?i < map_tid s k" using so k(1) by (simp add: tm_sorted_def)
      then have "map_tid s ?i < ?t" using k by simp
      then show False using thread_map_search_spec(3) [OF so order_refl, of g] \<open>?i < k\<close> k by simp
    qed
    ultimately have "?i = k" by simp
    then show ?thesis using Some k by (simp add: thread_by_globalid_def Let_def)
  qed
qed

text \<open>The map after an insertion and after a deletion.\<close>

lemma thread_map_insert_eq:
  assumes "i = thread_map_search g (thread_count s) s"
  shows "thread_count (thread_map_insert g thr s) = Suc (thread_count s)"
    and "k \<le> thread_count s \<Longrightarrow> thread_map (thread_map_insert g thr s) k =
      (if thread_count s = 0 then thr else if k < i then thread_map s k else if k = i then thr else thread_map s (k - 1))"
  using assms by (auto simp: thread_map_insert_def Let_def shift_up simp del: upt_Suc)

lemma thread_map_insert_keeps [simp]:
  "tcbs (thread_map_insert g thr s) = tcbs s" "thread_table (thread_map_insert g thr s) = thread_table s"
  "caller (thread_map_insert g thr s) = caller s"
  by (simp_all add: thread_map_insert_def Let_def)

lemma thread_map_delete_keeps [simp]:
  "tcbs (thread_map_delete g s) = tcbs s" "thread_table (thread_map_delete g s) = thread_table s"
  by (simp_all add: thread_map_delete_def Let_def)

text \<open>What sortedness and membership mean after putting \<open>thr\<close> at the insertion point.\<close>

lemma insert_position:
  fixes tm tm' :: "nat \<Rightarrow> ptr" and key key' :: "ptr \<Rightarrow> u32"
  assumes so: "\<And>a b. a < b \<Longrightarrow> b < n \<Longrightarrow> key (tm a) < key (tm b)"
    and i: "i \<le> n" "\<And>k. k < i \<Longrightarrow> key (tm k) < t" "\<And>k. i \<le> k \<Longrightarrow> k < n \<Longrightarrow> t < key (tm k)"
    and tm': "\<And>k. k \<le> n \<Longrightarrow> tm' k = (if k < i then tm k else if k = i then thr else tm (k - 1))"
    and new: "\<And>k. k < n \<Longrightarrow> tm k \<noteq> thr" and key': "key' thr = t" "\<And>p. p \<noteq> thr \<Longrightarrow> key' p = key p"
  shows "a < b \<Longrightarrow> b < Suc n \<Longrightarrow> key' (tm' a) < key' (tm' b)"
    and "(\<exists>k < Suc n. tm' k = p) \<longleftrightarrow> p = thr \<or> (\<exists>k < n. tm k = p)"
proof -
  have old: "key' (tm k) = key (tm k)" if "k < n" for k using new key' that by simp
  assume ab: "a < b" "b < Suc n"
  consider "b < i" | "b = i" | "i < b" "a < i" | "i < b" "a = i" | "i < a" using ab by linarith
  then show "key' (tm' a) < key' (tm' b)"
  proof cases
    case 1
    then show ?thesis using so [of a b] ab i(1) old [of a] old [of b] by (simp add: tm')
  next
    case 2
    then show ?thesis using i(1) i(2) [of a] ab old [of a] key'(1) by (simp add: tm')
  next
    case 3
    have "key (tm a) < t" using i(2) 3 by simp
    also have "t < key (tm (b - 1))" using i(3) [of "b - 1"] 3 ab by simp
    finally show ?thesis using 3 ab i(1) old [of a] old [of "b - 1"] by (simp add: tm')
  next
    case 4
    then show ?thesis using i(3) [of "b - 1"] ab old [of "b - 1"] key'(1) by (simp add: tm')
  next
    case 5
    then show ?thesis using so [of "a - 1" "b - 1"] ab old [of "a - 1"] old [of "b - 1"] by (simp add: tm')
  qed
next
  show "(\<exists>k < Suc n. tm' k = p) \<longleftrightarrow> p = thr \<or> (\<exists>k < n. tm k = p)"
  proof
    assume "\<exists>k < Suc n. tm' k = p"
    then obtain k where k: "k \<le> n" "tm' k = p" using less_Suc_eq_le by blast
    consider "k < i" | "k = i" | "i < k" by linarith
    then show "p = thr \<or> (\<exists>k < n. tm k = p)"
    proof cases
      case 1
      then have "k < n" "tm k = p" using k i(1) by (simp_all add: tm')
      then show ?thesis by blast
    next
      case 2
      then show ?thesis using k by (simp add: tm')
    next
      case 3
      then have "k - 1 < n" "tm (k - 1) = p" using k by (simp_all add: tm')
      then show ?thesis by blast
    qed
  next
    assume "p = thr \<or> (\<exists>k < n. tm k = p)"
    then consider "p = thr" | k where "k < n" "tm k = p" by blast
    then show "\<exists>k < Suc n. tm' k = p"
    proof cases
      case 1
      then show ?thesis using i(1) by (intro exI [of _ i]) (simp add: tm')
    next
      case (2 k)
      then show ?thesis by (intro exI [of _ "if k < i then k else Suc k"]) (simp add: tm')
    qed
  qed
qed

lemma thread_init_rep:
  assumes rep: "tm_rep s M" and new: "M (GLOBALID_TO_TID g) = None"
    and room: "kt_used (thread_table s) \<noteq> kt_slots (thread_table s)"
  shows "\<exists>thr s'. thread_init g u s = Ok (thr, s') \<and> thr \<noteq> NULL \<and> thr \<notin> ran M \<and>
    tm_rep s' (M(GLOBALID_TO_TID g \<mapsto> thr)) \<and> t_globalid (tcbs s' thr) = g \<and>
    state (tcbs s' thr) = T_INACTIVE \<and> \<not> sched_is_queued thr s'"
proof -
  let ?t = "GLOBALID_TO_TID g" and ?n = "thread_count s"
  have wf: "kt_wf (thread_table s)" and us: "kt_used (thread_table s) = ran M"
    and so: "tm_sorted s ?n" using rep by (auto simp: tm_rep_def)
  obtain thr kt where a: "ktable_alloc (thread_table s) = (thr, kt)" by (cases "ktable_alloc (thread_table s)")
  have nn: "thr \<noteq> NULL" using kt.alloc_nil_iff [OF wf] room a by auto
  have al: "thr \<notin> ran M" "kt_used kt = insert thr (ran M)" "kt_wf kt"
    using kt.alloc_fresh [OF wf a nn] kt.alloc_inv [OF wf a] us by auto
  let ?s1 = "thread_map_insert g thr (s\<lparr>thread_table := kt\<rparr>)"
  define f where "f = thread_fresh g u"
  obtain h s' where s': "thread_init g u s = Ok (thr, s')" "tcbs s' = (tcbs s)(thr := h (tcbs s thr))"
      "thread_map s' = thread_map ?s1" "thread_count s' = thread_count ?s1" "thread_table s' = kt"
      "\<And>x. t_globalid (h x) = g" "\<And>x. state (h x) = T_INACTIVE" "\<And>x. sched_prev (h x) = NULL"
  proof (cases "u \<noteq> NULL \<and> (caller s = NULL \<or> thread_ispriviliged (caller s) (tcb_upd thr f ?s1))")
    case True
    show thesis
      by (rule that [of "utcb_upd u (utcb_globalid_update (\<lambda>_. g)) (tcb_upd thr f ?s1)" f])
        (use a nn True in \<open>simp_all add: thread_init_def Let_def f_def [symmetric] utcb_upd_def tcb_upd_def\<close>,
         simp_all add: f_def thread_fresh_def)
  next
    case False
    show thesis
      by (rule that [of "tcb_upd thr (utcb_needs_sync_update (\<lambda>_. if u \<noteq> NULL then 1 else 0)) (tcb_upd thr f ?s1)"
              "\<lambda>x. utcb_needs_sync_update (\<lambda>_. if u \<noteq> NULL then 1 else 0) (f x)"])
        (use a nn False in \<open>auto simp: thread_init_def Let_def f_def [symmetric] tcb_upd_def\<close>,
         simp_all add: f_def thread_fresh_def)
  qed
  let ?i = "thread_map_search g ?n s"
  have srch: "thread_map_search g (thread_count (s\<lparr>thread_table := kt\<rparr>)) (s\<lparr>thread_table := kt\<rparr>) = ?i"
  proof -
    have "map_search_loop t lo hi (s\<lparr>thread_table := kt\<rparr>) = map_search_loop t lo hi s" for t lo hi
    proof (induction t lo hi s rule: map_search_loop.induct)
      case (1 t lo hi s)
      then show ?case
        by (subst (1 2) map_search_loop.simps) (simp add: Let_def tid_of_def)
    qed
    then show ?thesis by (simp add: thread_map_search_def)
  qed
  have tm': "thread_map s' k = (if k < ?i then thread_map s k else if k = ?i then thr else thread_map s (k - 1))"
    if "k \<le> ?n" for k
    using thread_map_insert_eq(2) [OF srch [symmetric], of k thr] that thread_map_search_spec(1) [OF so, of g]
    by (auto simp: s'(3))
  have cnt: "thread_count s' = Suc ?n" using thread_map_insert_eq(1) [OF srch [symmetric]] by (simp add: s'(4))
  have mem: "M (tid_of s p) = Some p \<longleftrightarrow> (\<exists>k < ?n. thread_map s k = p)" for p using rep by (auto simp: tm_rep_def)
  have tid': "tid_of s' p = (if p = thr then ?t else tid_of s p)" for p
    by (simp add: tid_of_def s'(2) s'(6))
  have above: "?t < map_tid s k" if "?i \<le> k" "k < ?n" for k
  proof -
    have "map_tid s k \<noteq> ?t" using new mem [of "thread_map s k"] that(2) by auto
    then show ?thesis using thread_map_search_spec(3) [OF so that] by (simp add: le_less)
  qed
  have notin: "thread_map s k \<noteq> thr" if "k < ?n" for k
    using mem [of thr] that al(1) by (auto simp: ran_def)
  have so0: "map_tid s a < map_tid s b" if "a < b" "b < ?n" for a b using so that by (simp add: tm_sorted_def)
  have key: "tid_of s' thr = ?t" "p \<noteq> thr \<Longrightarrow> tid_of s' p = tid_of s p" for p by (simp_all add: tid')
  note pos = insert_position [of ?n "tid_of s" "thread_map s" ?i ?t "thread_map s'" thr "tid_of s'",
      OF so0 thread_map_search_spec(1) [OF so] thread_map_search_spec(2) [OF so] above tm' notin key]
  have so': "tm_sorted s' (thread_count s')" unfolding tm_sorted_def cnt using pos(1) by blast
  have mem': "(\<exists>k < thread_count s'. thread_map s' k = p) \<longleftrightarrow> p = thr \<or> (\<exists>k < ?n. thread_map s k = p)" for p
    unfolding cnt by (rule pos(2))
  have "(M(?t \<mapsto> thr)) t = Some p \<longleftrightarrow> (\<exists>k < thread_count s'. thread_map s' k = p) \<and> tid_of s' p = t" for t p
  proof -
    have "M t = Some p \<longleftrightarrow> (\<exists>k < ?n. thread_map s k = p) \<and> tid_of s p = t" using rep by (simp add: tm_rep_def)
    moreover have "M t \<noteq> Some thr" using al(1) by (auto simp: ran_def)
    ultimately show ?thesis using new unfolding mem' tid' by auto
  qed
  moreover have "ran (M(?t \<mapsto> thr)) = insert thr (ran M)" using new by (rule ran_map_upd)
  ultimately have "tm_rep s' (M(?t \<mapsto> thr))" using so' al s'(5) by (simp add: tm_rep_def)
  then show ?thesis using s' nn al(1) by (intro exI [of _ thr] exI [of _ s']) (simp add: sched_is_queued_def)
qed

lemma delete_position:
  fixes tm tm' :: "nat \<Rightarrow> ptr"
  assumes inj: "\<And>a b. a < n \<Longrightarrow> b < n \<Longrightarrow> tm a = tm b \<Longrightarrow> a = b"
    and i: "i < n" "tm i = thr"
    and tm': "\<And>k. k < n - 1 \<Longrightarrow> tm' k = (if k < i then tm k else tm (k + 1))"
  shows "(\<exists>k < n - 1. tm' k = p) \<longleftrightarrow> p \<noteq> thr \<and> (\<exists>k < n. tm k = p)"
proof
  assume "\<exists>k < n - 1. tm' k = p"
  then obtain k where k: "k < n - 1" "tm' k = p" by blast
  show "p \<noteq> thr \<and> (\<exists>k < n. tm k = p)"
  proof (cases "k < i")
    case True
    then have e: "tm k = p" "k < n" using k i(1) by (simp_all add: tm')
    then have "p \<noteq> thr" using inj [of k i] i True by auto
    then show ?thesis using e by blast
  next
    case False
    then have e: "tm (k + 1) = p" "k + 1 < n" using k by (simp_all add: tm')
    then have "p \<noteq> thr" using inj [of "k + 1" i] i False by auto
    then show ?thesis using e by blast
  qed
next
  assume "p \<noteq> thr \<and> (\<exists>k < n. tm k = p)"
  then obtain k where k: "k < n" "tm k = p" "k \<noteq> i" using i by auto
  show "\<exists>k < n - 1. tm' k = p"
  proof (cases "k < i")
    case True
    then have "k < n - 1" using i(1) by simp
    then show ?thesis using k True by (intro exI [of _ k]) (simp add: tm')
  next
    case False
    then have "k - 1 < n - 1" "\<not> k - 1 < i" "k - 1 + 1 = k" using k i(1) by auto
    then show ?thesis using k by (intro exI [of _ "k - 1"]) (simp add: tm')
  qed
qed

lemma thread_deinit_rep:
  assumes rep: "tm_rep s M" and thr: "M (tid_of s thr) = Some thr"
  shows "tm_rep (thread_deinit thr s) (M(tid_of s thr := None))"
proof -
  let ?n = "thread_count s" and ?g = "t_globalid (tcbs s thr)" and ?s' = "thread_deinit thr s"
  have wf: "kt_wf (thread_table s)" and us: "kt_used (thread_table s) = ran M" and so: "tm_sorted s ?n"
    using rep by (auto simp: tm_rep_def)
  obtain i where i: "i < ?n" "thread_map s i = thr" using rep thr by (auto simp: tm_rep_def)
  have gt: "GLOBALID_TO_TID ?g = tid_of s thr" by (simp add: tid_of_def)
  have si: "thread_map_search ?g ?n s = i"
  proof (rule antisym)
    show "thread_map_search ?g ?n s \<le> i"
      using thread_map_search_spec(2) [OF so, of i ?g] i(2) gt by (cases "i < thread_map_search ?g ?n s") auto
    show "i \<le> thread_map_search ?g ?n s"
    proof (rule ccontr)
      assume "\<not> i \<le> thread_map_search ?g ?n s"
      then have lt: "thread_map_search ?g ?n s < i" by simp
      then have "map_tid s (thread_map_search ?g ?n s) < map_tid s i"
        using so i(1) unfolding tm_sorted_def by blast
      then show False using thread_map_search_spec(3) [OF so order_refl, of ?g] lt i gt by simp
    qed
  qed
  have cnt: "thread_count ?s' = ?n - 1"
    by (simp add: thread_deinit_def thread_map_delete_def Let_def)
  have tm': "thread_map ?s' k = (if k < i then thread_map s k else thread_map s (k + 1))" if "k < ?n - 1" for k
    using that by (auto simp: thread_deinit_def thread_map_delete_def Let_def si shift_down)
  have inj: "a = b" if "a < ?n" "b < ?n" "thread_map s a = thread_map s b" for a b
    using so that unfolding tm_sorted_def by (metis less_irrefl nat_neq_iff)
  have tid': "tid_of ?s' p = tid_of s p" for p by (simp add: tid_of_def thread_deinit_def)
  have so': "tm_sorted ?s' (thread_count ?s')"
    unfolding tm_sorted_def cnt
  proof (intro allI impI)
    fix a b assume ab: "a < b" "b < ?n - 1"
    then have "thread_map ?s' a = thread_map s (if a < i then a else a + 1)"
      "thread_map ?s' b = thread_map s (if b < i then b else b + 1)" by (simp_all add: tm')
    then show "map_tid ?s' a < map_tid ?s' b" using so ab by (simp add: tm_sorted_def tid')
  qed
  have el: "thr \<in> kt_slots (thread_table s)"
    using kt.used_slots [OF wf] us thr by (auto simp: ran_def)
  have kt: "kt_wf (thread_table ?s')" "kt_used (thread_table ?s') = ran M - {thr}"
    using kt.free_inv [OF wf el] kt.free_used [OF wf el] us by (simp_all add: thread_deinit_def)
  have "(M(tid_of s thr := None)) t = Some p \<longleftrightarrow> (\<exists>k < thread_count ?s'. thread_map ?s' k = p) \<and> tid_of ?s' p = t" for t p
  proof -
    have m: "M t = Some p \<longleftrightarrow> (\<exists>k < ?n. thread_map s k = p) \<and> tid_of s p = t" using rep by (simp add: tm_rep_def)
    have "(M(tid_of s thr := None)) t = Some p \<longleftrightarrow> p \<noteq> thr \<and> M t = Some p"
    proof (cases "t = tid_of s thr")
      case True
      then show ?thesis using thr by simp blast
    next
      case False
      then have "M t \<noteq> Some thr" using tm_rep_inj [OF rep _ thr] by blast
      then show ?thesis using False by auto
    qed
    moreover have "(\<exists>k < thread_count ?s'. thread_map ?s' k = p) \<longleftrightarrow> p \<noteq> thr \<and> (\<exists>k < ?n. thread_map s k = p)"
      unfolding cnt by (rule delete_position [OF inj i tm'])
    ultimately show ?thesis using m by (simp only: tid' conj_assoc)
  qed
  moreover have "ran (M(tid_of s thr := None)) = ran M - {thr}"
  proof -
    have "x \<in> ran (M(tid_of s thr := None)) \<longleftrightarrow> x \<in> ran M - {thr}" for x
      using tm_rep_inj [OF rep thr] by (auto simp: ran_def) (metis option.inject thr)
    then show ?thesis by blast
  qed
  ultimately show ?thesis using so' kt by (simp add: tm_rep_def)
qed

subsection \<open>The directory contract\<close>

text \<open>
  What the rest of the kernel relies on: an index from names to objects with lookup, creation and deletion.
  \<open>nm\<close> reads the index key from the name the operations take.
\<close>

locale directory =
  fixes inv :: "'s \<Rightarrow> ('k \<rightharpoonup> 'p) \<Rightarrow> bool"
    and nm :: "'g \<Rightarrow> 'k"
    and key :: "'s \<Rightarrow> 'p \<Rightarrow> 'k"
    and room :: "'s \<Rightarrow> bool"
    and find :: "'g \<Rightarrow> 's \<Rightarrow> 'p"
    and add :: "'g \<Rightarrow> 's \<Rightarrow> ('p \<times> 's) result"
    and del :: "'p \<Rightarrow> 's \<Rightarrow> 's"
    and nil :: 'p
  assumes find_spec: "inv s M \<Longrightarrow> find g s = (case M (nm g) of None \<Rightarrow> nil | Some p \<Rightarrow> p)"
    and not_nil: "inv s M \<Longrightarrow> M k = Some p \<Longrightarrow> p \<noteq> nil"
    and key_of: "inv s M \<Longrightarrow> M k = Some p \<Longrightarrow> key s p = k"
    and add_spec: "inv s M \<Longrightarrow> M (nm g) = None \<Longrightarrow> room s \<Longrightarrow>
      \<exists>p s'. add g s = Ok (p, s') \<and> p \<notin> ran M \<and> inv s' (M(nm g \<mapsto> p))"
    and del_spec: "inv s M \<Longrightarrow> M (key s p) = Some p \<Longrightarrow> inv (del p s) (M(key s p := None))"
begin

lemma find_nil_iff: "inv s M \<Longrightarrow> find g s = nil \<longleftrightarrow> M (nm g) = None"
  using find_spec not_nil by (metis option.case(1,2) option.exhaust)

lemma find_after_add:
  assumes i: "inv s M" and new: "find g s = nil" and r: "room s"
  shows "\<exists>p s'. add g s = Ok (p, s') \<and> p \<noteq> nil \<and>
    (\<forall>h. find h s' = (if nm h = nm g then p else find h s)) \<and> (\<exists>M'. inv s' M')"
proof -
  have "M (nm g) = None" using i new find_nil_iff by blast
  then obtain p s' where a: "add g s = Ok (p, s')" "inv s' (M(nm g \<mapsto> p))" using add_spec [OF i _ r] by blast
  have "p \<noteq> nil" using not_nil [OF a(2), of "nm g"] by simp
  moreover have "find h s' = (if nm h = nm g then p else find h s)" for h
    by (simp add: find_spec [OF a(2)] find_spec [OF i])
  ultimately show ?thesis using a by blast
qed

lemma find_after_del:
  assumes i: "inv s M" and p: "find g s = p" "p \<noteq> nil"
  shows "find h (del p s) = (if nm h = nm g then nil else find h s)" and "\<exists>M'. inv (del p s) M'"
proof -
  have m: "M (nm g) = Some p" using p find_spec [OF i, of g] by (cases "M (nm g)") auto
  then have k: "key s p = nm g" by (rule key_of [OF i])
  have d: "inv (del p s) (M(nm g := None))" using del_spec [OF i] m k by metis
  show "find h (del p s) = (if nm h = nm g then nil else find h s)"
    by (simp add: find_spec [OF d] find_spec [OF i])
  show "\<exists>M'. inv (del p s) M'" using d by blast
qed

lemma add_del_restores:
  assumes i: "inv s M" and new: "find g s = nil" and r: "room s" and a: "add g s = Ok (p, s')"
  shows "find h (del p s') = find h s"
proof -
  have "M (nm g) = None" using i new find_nil_iff by blast
  from add_spec [OF i this r] a have i': "inv s' (M(nm g \<mapsto> p))" by auto
  then have "find g s' = p" "p \<noteq> nil" using find_spec [OF i', of g] not_nil [OF i', of "nm g" p] by simp_all
  from find_after_del(1) [OF i' this, of h] show ?thesis
    using new by (auto simp: find_spec [OF i'] find_spec [OF i])
qed

end

definition threads_room :: "'z tstate_scheme \<Rightarrow> bool" where
  "threads_room s \<longleftrightarrow> kt_used (thread_table s) \<noteq> kt_slots (thread_table s)"

interpretation td: directory tm_rep GLOBALID_TO_TID tid_of threads_room thread_by_globalid
  "\<lambda>g s. thread_init g u s" thread_deinit NULL for u
proof
  fix s :: "'z tstate_scheme" and M :: "u32 \<rightharpoonup> ptr" and g p k :: u32 assume rep: "tm_rep s M"
  show "thread_by_globalid g s = (case M (GLOBALID_TO_TID g) of None \<Rightarrow> NULL | Some p \<Rightarrow> p)"
    using rep by (rule thread_by_globalid_spec)
  { assume "M k = Some p"
    then show "p \<noteq> NULL" and "tid_of s p = k" using rep tm_rep_not_null by (blast, simp add: tm_rep_def) }
  { assume "M (GLOBALID_TO_TID g) = None" "threads_room s"
    then show "\<exists>p s'. thread_init g u s = Ok (p, s') \<and> p \<notin> ran M \<and> tm_rep s' (M(GLOBALID_TO_TID g \<mapsto> p))"
      using thread_init_rep [OF rep, of g u] by (auto simp: threads_room_def) }
  { assume "M (tid_of s p) = Some p"
    then show "tm_rep (thread_deinit p s) (M(tid_of s p := None))" by (rule thread_deinit_rep [OF rep]) }
qed

subsection \<open>Properties\<close>

text \<open>An empty system with a table of 32 TCBs; the caller is the root thread at its first element.\<close>

definition tcb_table :: ktable where
  "tcb_table = \<lparr>tname = ''thread_table'', kbitmap = [0], kdata = 0x20005000, knum = 32, ksize = 320\<rparr>"

definition utcb0 :: utcb_t where
  "utcb0 = \<lparr>utcb_globalid = 0, processor_no = 0, user_defined_handle = 0, utcb_pager = 0,
     exception_handler = 0, utcb_flags = 0, xfer_timeouts = 0, error_code = 0, intended_receiver = 0,
     sender = 0, thread_word_1 = 0, thread_word_2 = 0, mr_low = replicate 8 0, mr = replicate 8 0, br = replicate 8 0\<rparr>"

definition boot :: tstate where
  "boot = \<lparr>tcbs = (\<lambda>_. tcb0), current = 0, ready_bitmap = 0, preempted_bitmap = 0, ready_queue = (\<lambda>_. NULL),
     pendsv = False, mem = mem_example, thread_table = tcb_table, thread_map = (\<lambda>_. NULL), thread_count = 0,
     caller = 0, utcbs = (\<lambda>_. utcb0), current_utcb = 0, ram = (\<lambda>_. 0), kip_fpage = 0, kip_extra_fpage = 0,
     utext_fpage = 0, udata_fpage = 0, ubss_fpage = 0, kip_system_base = 0, kip_user_base = 0\<rparr>"

lemma tcb_table_empty: "kt_wf tcb_table" "kt_used tcb_table = {}" "kt_used tcb_table \<noteq> kt_slots tcb_table"
proof -
  have i: "tcb_table = ktable_init tcb_table"
    by (simp add: tcb_table_def ktable_init_def bitmap_clear_byte_def upt_rec)
  show w: "kt_wf tcb_table" by (simp add: kt_wf_def tcb_table_def)
  have "8 dvd knum tcb_table" by (simp add: tcb_table_def)
  from ktable_init_spec [OF w this] i show u: "kt_used tcb_table = {}" by simp
  have "kt_elem tcb_table 0 \<in> kt_slots tcb_table" by (auto simp: kt_slots_def tcb_table_def)
  then show "kt_used tcb_table \<noteq> kt_slots tcb_table" using u by auto
qed

lemma boot_rep: "tm_rep boot Map.empty" "threads_room boot"
  using tcb_table_empty by (auto simp: tm_rep_def tm_sorted_def boot_def threads_room_def)

text \<open>C6. Creating and looking up threads: when no thread has the number yet and a TCB is free,
  \<open>thread_init\<close> gives a fresh TCB, after which that number is found as this TCB and every other
  number is found as before; the thread map stays sorted and consistent with the TCB table.\<close>

theorem thread_init_then_lookup:
  assumes "tm_rep s M" and "thread_by_globalid g s = NULL" and "threads_room s"
  shows "\<exists>thr s'. thread_init g u s = Ok (thr, s') \<and> thr \<noteq> NULL \<and>
    (\<forall>h. thread_by_globalid h s' = (if GLOBALID_TO_TID h = GLOBALID_TO_TID g then thr else thread_by_globalid h s)) \<and>
    (\<exists>M'. tm_rep s' M')"
  by (rule td.find_after_add [OF assms])

theorem thread_init_then_lookup_witness:
  "\<exists>thr s'. thread_init (TID_TO_GLOBALID 2) 0x20000100 boot = Ok (thr, s') \<and>
     thread_by_globalid (TID_TO_GLOBALID 2) s' = thr \<and> thr \<noteq> NULL"
proof -
  have "thread_by_globalid (TID_TO_GLOBALID 2) boot = NULL"
    using thread_by_globalid_spec [OF boot_rep(1)] by simp
  from thread_init_then_lookup [OF boot_rep(1) this boot_rep(2), of "0x20000100"] show ?thesis by fastforce
qed

text \<open>Destroying a thread's entry: after \<open>thread_deinit\<close> its number is not found any more, every
  other number is found as before, and its TCB is free again; creating a thread and removing it restores
  every lookup.\<close>

theorem thread_deinit_forgets_thread:
  assumes "tm_rep s M" and "thread_by_globalid g s = thr" and "thr \<noteq> NULL"
  shows "(\<forall>h. thread_by_globalid h (thread_deinit thr s) =
           (if GLOBALID_TO_TID h = GLOBALID_TO_TID g then NULL else thread_by_globalid h s)) \<and>
    threads_room (thread_deinit thr s) \<and> (\<exists>M'. tm_rep (thread_deinit thr s) M')"
proof -
  have m: "M (GLOBALID_TO_TID g) = Some thr"
    using assms(2,3) thread_by_globalid_spec [OF assms(1), of g] by (cases "M (GLOBALID_TO_TID g)") auto
  have wf: "kt_wf (thread_table s)" and us: "kt_used (thread_table s) = ran M"
    using assms(1) by (auto simp: tm_rep_def)
  have el: "thr \<in> kt_slots (thread_table s)"
    using kt.used_slots [OF wf] us m by (auto simp: ran_def)
  have "thr \<notin> kt_used (thread_table (thread_deinit thr s))" "thr \<in> kt_slots (thread_table (thread_deinit thr s))"
    using kt.free_used [OF wf el] kt.free_inv [OF wf el] el by (simp_all add: thread_deinit_def)
  then have "threads_room (thread_deinit thr s)" by (auto simp: threads_room_def)
  then show ?thesis using td.find_after_del [OF assms] by simp
qed

theorem thread_deinit_forgets_thread_witness:
  "\<exists>thr s'. thread_init (TID_TO_GLOBALID 2) 0 boot = Ok (thr, s') \<and>
     thread_by_globalid (TID_TO_GLOBALID 2) (thread_deinit thr s') = NULL"
proof -
  have "thread_by_globalid (TID_TO_GLOBALID 2) boot = NULL"
    using thread_by_globalid_spec [OF boot_rep(1)] by simp
  from td.find_after_add [OF boot_rep(1) this boot_rep(2), of 0]
  obtain thr s' M' where a: "thread_init (TID_TO_GLOBALID 2) 0 boot = Ok (thr, s')" "thr \<noteq> NULL"
    "thread_by_globalid (TID_TO_GLOBALID 2) s' = thr" "tm_rep s' M'" by auto
  from thread_deinit_forgets_thread [OF a(4,3,2)] a(1) show ?thesis by auto
qed

text \<open>\<open>thread_create\<close> refuses kernel thread numbers and the two wildcard ids with
  \<open>UE_TC_NOT_AVAILABLE\<close> in the caller's UTCB and creates nothing. With a valid id but a full TCB table
  it does not return an error: \<open>thread_init\<close> reports the failure and the next statement writes through
  the null pointer.\<close>

theorem thread_create_errors:
  assumes c: "caller s \<noteq> NULL" and u: "utcb (tcbs s (caller s)) \<noteq> NULL"
  shows "(GLOBALID_TO_TID g < 16 \<or> g = L4_ANYTHREAD \<or> g = L4_ANYLOCALTHREAD \<longrightarrow>
      (\<exists>s'. thread_create g ut s = Ok (NULL, s') \<and> thread_map s' = thread_map s \<and> thread_count s' = thread_count s \<and>
         thread_table s' = thread_table s \<and> error_code (utcbs s' (utcb (tcbs s (caller s)))) = UE_TC_NOT_AVAILABLE)) \<and>
    (16 \<le> GLOBALID_TO_TID g \<and> g \<noteq> L4_ANYTHREAD \<and> g \<noteq> L4_ANYLOCALTHREAD \<and> fst (ktable_alloc (thread_table s)) = NULL \<longrightarrow>
      thread_create g ut s = Fault (Null_deref ''thread_create: thr->t_parent''))"
proof (intro conjI impI)
  assume "GLOBALID_TO_TID g < 16 \<or> g = L4_ANYTHREAD \<or> g = L4_ANYLOCALTHREAD"
  then show "\<exists>s'. thread_create g ut s = Ok (NULL, s') \<and> thread_map s' = thread_map s \<and> thread_count s' = thread_count s \<and>
      thread_table s' = thread_table s \<and> error_code (utcbs s' (utcb (tcbs s (caller s)))) = UE_TC_NOT_AVAILABLE"
    using c u by (simp add: thread_create_def set_caller_error_def set_user_error_def utcb_upd_def)
next
  assume a: "16 \<le> GLOBALID_TO_TID g \<and> g \<noteq> L4_ANYTHREAD \<and> g \<noteq> L4_ANYLOCALTHREAD \<and> fst (ktable_alloc (thread_table s)) = NULL"
  then have "\<exists>s'. thread_init g ut s = Ok (NULL, s')"
    using c u by (cases "ktable_alloc (thread_table s)")
      (simp add: thread_init_def set_caller_error_def set_user_error_def Let_def)
  then show "thread_create g ut s = Fault (Null_deref ''thread_create: thr->t_parent'')"
    using a c by (auto simp: thread_create_def not_less)
qed

theorem thread_create_errors_witness:
  "\<exists>s'. thread_create (TID_TO_GLOBALID 3) 0
     (boot\<lparr>caller := 0x20005000, tcbs := (\<lambda>_. tcb0\<lparr>utcb := 0x20000100\<rparr>)\<rparr>) = Ok (NULL, s') \<and>
     error_code (utcbs s' 0x20000100) = 2"
  using thread_create_errors [of "boot\<lparr>caller := 0x20005000, tcbs := (\<lambda>_. tcb0\<lparr>utcb := 0x20000100\<rparr>)\<rparr>" "TID_TO_GLOBALID 3" 0]
  by (auto simp: tid_roundtrip)

subsection \<open>Switching\<close>

lemma tcb_upd_tstate [simp]:
  "mem (tcb_upd p f s) = mem s" "ram (tcb_upd p f s) = ram s" "utcbs (tcb_upd p f s) = utcbs s"
  "thread_map (tcb_upd p f s) = thread_map s" "thread_count (tcb_upd p f s) = thread_count s"
  "thread_table (tcb_upd p f s) = thread_table s" "caller (tcb_upd p f s) = caller s"
  "current_utcb (tcb_upd p f s) = current_utcb s"
  by (simp_all add: tcb_upd_def)

text \<open>The queue operations touch links, priority and the scheduler's own variables only.\<close>

definition strip :: "tcb \<Rightarrow> tcb" where
  "strip t = t\<lparr>sched_prev := 0, sched_next := 0, priority := 0\<rparr>"

lemma strip_fields:
  "strip t = strip t' \<Longrightarrow> utcb t = utcb t'" "strip t = strip t' \<Longrightarrow> t_as t = t_as t'"
  "strip t = strip t' \<Longrightarrow> state t = state t'" "strip t = strip t' \<Longrightarrow> stack_base t = stack_base t'"
  "strip t = strip t' \<Longrightarrow> stack_canary_needs_init t = stack_canary_needs_init t'"
  "strip t = strip t' \<Longrightarrow> t_globalid t = t_globalid t'"
  by (cases t; cases t'; simp add: strip_def)+

definition same_threads :: "'z tstate_scheme \<Rightarrow> 'z tstate_scheme \<Rightarrow> bool" where
  "same_threads s s' \<longleftrightarrow> mem s' = mem s \<and> ram s' = ram s \<and> utcbs s' = utcbs s \<and> current s' = current s \<and>
     (\<forall>p. strip (tcbs s' p) = strip (tcbs s p))"

lemma same_threads_dequeue: "same_threads s (sched_dequeue t s)"
  by (auto simp: same_threads_def sched_dequeue_def Let_def link_defs strip_def tcb_upd_def)

lemma same_threads_enqueue: "sched_enqueue t s = Ok s' \<Longrightarrow> same_threads s s'"
  by (auto simp: same_threads_def sched_enqueue_def Let_def link_defs strip_def tcb_upd_def split: if_splits)

lemma same_threads_set_prio: "same_threads s (set_prio t v s)"
  by (auto simp: same_threads_def set_prio_def strip_def)

lemma same_threads_trans: "same_threads s s1 \<Longrightarrow> same_threads s1 s2 \<Longrightarrow> same_threads s s2"
  by (simp add: same_threads_def)

lemma same_threads_refl: "same_threads s s"
  by (simp add: same_threads_def)

lemma same_threads_set_priority:
  assumes "sched_set_priority t v s = Ok s'"
  shows "same_threads s s'"
proof (cases "sched_is_queued t s")
  case True
  then have "(\<exists>v. sched_enqueue t (set_prio t v (sched_dequeue t s)) = Ok s') \<or> s' = s"
    using assms by (auto simp: sched_set_priority_def Let_def split: if_splits)
  then show ?thesis
    using same_threads_trans [OF same_threads_dequeue same_threads_trans [OF same_threads_set_prio same_threads_enqueue]]
      same_threads_refl by blast
next
  case False
  then show ?thesis using assms same_threads_set_prio same_threads_refl
    by (auto simp: sched_set_priority_def Let_def split: if_splits)
qed

lemma on_mem_eq: "on_mem f s = Ok s' \<Longrightarrow> \<exists>m. s' = s\<lparr>mem := m\<rparr>"
  by (auto simp: on_mem_def rbind_eq_Ok)

lemma maybe_on_mem_eq:
  "(if b then on_mem f s else Ok s) = Ok s' \<Longrightarrow> \<exists>m. s' = s\<lparr>mem := m\<rparr>"
  using on_mem_eq [of f s s'] by (cases b) (auto intro: exI [where x = "mem s"])

lemma rbind_maybe_on_mem:
  "rbind (if b then on_mem f s else Ok s) g = Ok r \<Longrightarrow> \<exists>m. g (s\<lparr>mem := m\<rparr>) = Ok r"
  using maybe_on_mem_eq [of b f s] by (auto simp: rbind_eq_Ok)

lemma thread_init_canary_frame:
  "tcbs (thread_init_canary t s) = tcbs s" "ready_queue (thread_init_canary t s) = ready_queue s"
  "ready_bitmap (thread_init_canary t s) = ready_bitmap s"
  by (simp_all add: thread_init_canary_def wr_def Let_def)

text \<open>What each stage keeps: the ready queues, and of the TCBs everything but the flag it clears.\<close>

lemma rq_rep_mem [simp]: "rq_rep (s\<lparr>mem := m\<rparr>) q = rq_rep s q"
  using rq_rep_globals [of s q "s\<lparr>mem := m\<rparr>"] rq_rep_globals [of "s\<lparr>mem := m\<rparr>" q s] by auto

lemma switch_canary_keeps:
  assumes "switch_canary thr s = Ok s'"
  shows "rq_rep s q \<Longrightarrow> rq_rep s' q" "utcb (tcbs s' p) = utcb (tcbs s p)"
    "stack_canary_needs_init (tcbs s thr) = 0 \<Longrightarrow> thread_check_canary thr s"
proof -
  let ?u = "\<lambda>m. tcb_upd thr (stack_canary_needs_init_update (\<lambda>_. 0)) (thread_init_canary thr (s\<lparr>mem := m\<rparr>))"
  have c: "s' = s \<or> (\<exists>m. s' = ?u m)"
  proof (cases "stack_canary_needs_init (tcbs s thr) = 0")
    case False
    then show ?thesis using assms unfolding switch_canary_def select_lru_def
      by (auto dest: rbind_maybe_on_mem simp del: if_not_P)
  qed (use assms in \<open>auto simp: switch_canary_def split: if_splits\<close>)
  have "rq_rep (?u m) q" if "rq_rep s q" for m
    using rq_rep_globals [OF that, of "thread_init_canary thr (s\<lparr>mem := m\<rparr>)"]
    by (intro rq_rep_tcb_upd_frame) (simp_all add: thread_init_canary_frame)
  then show "rq_rep s q \<Longrightarrow> rq_rep s' q" using c by auto
  show "utcb (tcbs s' p) = utcb (tcbs s p)" using c by (auto simp: thread_init_canary_frame)
  show "stack_canary_needs_init (tcbs s thr) = 0 \<Longrightarrow> thread_check_canary thr s"
    using assms by (auto simp: switch_canary_def split: if_splits)
qed

lemma switch_mpu_eq: "switch_mpu s = Ok s' \<Longrightarrow> \<exists>m. s' = s\<lparr>mem := m\<rparr>"
  unfolding switch_mpu_def Let_def by (rule maybe_on_mem_eq)

lemma switch_sync_keeps:
  assumes "switch_sync s = Ok s'"
  shows "rq_rep s q \<Longrightarrow> rq_rep s' q" "current s' = current s" "current_utcb s' = current_utcb s"
proof -
  let ?u = "\<lambda>m u f. tcb_upd (current s) (utcb_needs_sync_update (\<lambda>_. 0)) (utcb_upd u f (s\<lparr>mem := m\<rparr>))"
  have c: "s' = s \<or> (\<exists>m u f. s' = ?u m u f)"
  proof (cases "utcb (tcbs s (current s)) \<noteq> NULL \<and> utcb_needs_sync (tcbs s (current s)) \<noteq> 0")
    case True
    then have "\<exists>m. s' = ?u m (utcb (tcbs s (current s)))
        (\<lambda>u. u\<lparr>utcb_globalid := t_globalid (tcbs s (current s)), utcb_pager := t_pager (tcbs s (current s))\<rparr>)"
      using assms unfolding switch_sync_def Let_def select_lru_def by (auto dest!: rbind_maybe_on_mem)
    then show ?thesis by blast
  qed (use assms in \<open>auto simp: switch_sync_def Let_def\<close>)
  have "rq_rep (?u m u f) q" if "rq_rep s q" for m u f
    using rq_rep_globals [OF that, of "utcb_upd u f (s\<lparr>mem := m\<rparr>)"]
    by (intro rq_rep_tcb_upd_frame) (simp_all add: utcb_upd_def)
  then show "rq_rep s q \<Longrightarrow> rq_rep s' q" using c by auto
  show "current s' = current s" "current_utcb s' = current_utcb s" using c by (auto simp: utcb_upd_def)
qed


lemma switch_restore_cases:
  "switch_restore s = Ok s' \<Longrightarrow> s' = s \<or> (current s \<noteq> NULL \<and>
     sched_set_priority (current s) (base_priority (tcbs s (current s))) s = Ok s')"
  by (auto simp: switch_restore_def Let_def split: if_splits)

lemma switch_restore_rq:
  assumes "switch_restore s = Ok s'" "rq_rep s q"
  shows "\<exists>q'. rq_rep s' q'"
proof -
  consider "s' = s" | "current s \<noteq> NULL"
      "sched_set_priority (current s) (base_priority (tcbs s (current s))) s = Ok s'"
    using switch_restore_cases [OF assms(1)] by blast
  then show ?thesis
  proof cases
    case 2
    obtain x q' where "sched_set_priority (current s) (base_priority (tcbs s (current s))) s = Ok x" "rq_rep x q'"
      using sched_set_priority_rep [OF assms(2) 2(1)] by blast
    with 2(2) show ?thesis by auto
  qed (use assms(2) in blast)
qed


lemma thread_switch_stages:
  assumes "thread_switch thr s = Ok s'"
  obtains s1 s2 s3 where "thr \<noteq> NULL" "state (tcbs s thr) = T_RUNNABLE" "switch_restore s = Ok s1"
    "switch_canary thr s1 = Ok s2" "switch_mpu (s2\<lparr>current := thr, current_utcb := utcb (tcbs s2 thr)\<rparr>) = Ok s3"
    "switch_sync s3 = Ok s'"
  using assms by (auto simp: thread_switch_def thread_isrunnable_def rbind_eq_Ok split: if_splits)

lemma switch_restore_same: "switch_restore s = Ok s' \<Longrightarrow> same_threads s s'"
  using switch_restore_cases [of s s'] same_threads_set_priority same_threads_refl by blast



definition switch_example :: tstate where
  "switch_example = boot\<lparr>tcbs := tcbs ready_example, ready_queue := ready_queue ready_example,
     ready_bitmap := ready_bitmap ready_example, current := 8192\<rparr>"

lemma switch_example_rep: "rq_rep switch_example ready_lists"
  by (rule rq_rep_globals [OF ready_example_rep]) (simp_all add: switch_example_def)

lemma switch_example_runs: "\<exists>s'. thread_switch 4096 switch_example = Ok s'"
  by (simp add: thread_switch_def thread_isrunnable_def switch_restore_def switch_canary_def switch_mpu_def
      switch_sync_def switch_example_def ready_example_def tcb0_def boot_def Let_def thread_check_canary_def)


end
