(* ===== verification/Softirq.thy ===== *)
theory Softirq
  imports Thread
begin

text \<open>
  Deferred work of the kernel: the system threads of \<^verbatim>\<open>kernel/systhread.c\<close> and the soft interrupts of
  \<^verbatim>\<open>kernel/softirq.c\<close>. A handler is a function pointer; here it is a name, and the operations that call
  through the pointer take the meaning of the names as the argument \<open>call\<close>, which the theories of the
  handlers supply. The retry loop of \<open>softirq_execute\<close> takes fuel: one unit per pass.
\<close>

subsection \<open>State\<close>

datatype softirq_type_t = KTE_SOFTIRQ | NOTIFICATION_SOFTIRQ | SYSCALL_SOFTIRQ

datatype softirq_handler_t = NO_HANDLER | KTIMER_EVENT_HANDLER | NOTIFICATION_ASYNC_HANDLER | SYSCALL_HANDLER

record softirq_t =
  sq_schedule :: u32
  sq_handler :: softirq_handler_t

record sstate = tstate +
  idle :: ptr
  kernel :: ptr
  root :: ptr
  softirq :: "softirq_type_t \<Rightarrow> softirq_t"

definition all_softirqs :: "softirq_type_t list" where
  "all_softirqs = [KTE_SOFTIRQ, NOTIFICATION_SOFTIRQ, SYSCALL_SOFTIRQ]"

text \<open>Soft interrupts are served in the order of their numbers.\<close>

definition softirq_rank :: "softirq_type_t \<Rightarrow> nat" where
  "softirq_rank t = (case t of KTE_SOFTIRQ \<Rightarrow> 0 | NOTIFICATION_SOFTIRQ \<Rightarrow> 1 | SYSCALL_SOFTIRQ \<Rightarrow> 2)"

instantiation softirq_type_t :: linorder
begin

definition less_eq_softirq_type_t :: "softirq_type_t \<Rightarrow> softirq_type_t \<Rightarrow> bool" where
  "less_eq_softirq_type_t a b \<longleftrightarrow> softirq_rank a \<le> softirq_rank b"

definition less_softirq_type_t :: "softirq_type_t \<Rightarrow> softirq_type_t \<Rightarrow> bool" where
  "less_softirq_type_t a b \<longleftrightarrow> softirq_rank a < softirq_rank b"

instance
proof
  fix x y z :: softirq_type_t
  show "x \<le> y \<Longrightarrow> y \<le> x \<Longrightarrow> x = y" by (cases x; cases y) (simp_all add: less_eq_softirq_type_t_def softirq_rank_def)
qed (auto simp: less_eq_softirq_type_t_def less_softirq_type_t_def)

end

subsection \<open>The kernel thread\<close>

definition set_kernel_state :: "thread_state_t \<Rightarrow> 'z sstate_scheme \<Rightarrow> 'z sstate_scheme result" where
  "set_kernel_state st s =
     (let s = (if st \<noteq> T_RUNNABLE then sched_dequeue (kernel s) s else s) in
      if kernel s = NULL then Fault (Null_deref ''set_kernel_state: kernel->state'')
      else
        let s = set_state (kernel s) st s
        in if st = T_RUNNABLE then sched_enqueue (kernel s) s else Ok s)"

subsection \<open>Soft interrupts\<close>

definition softirq_set :: "softirq_type_t \<Rightarrow> (softirq_t \<Rightarrow> softirq_t) \<Rightarrow> 'z sstate_scheme \<Rightarrow> 'z sstate_scheme" where
  "softirq_set i f s = s\<lparr>softirq := (softirq s)(i := f (softirq s i))\<rparr>"

definition softirq_register :: "softirq_type_t \<Rightarrow> softirq_handler_t \<Rightarrow> 'z sstate_scheme \<Rightarrow> 'z sstate_scheme" where
  "softirq_register type hdl s = softirq_set type (\<lambda>_. \<lparr>sq_schedule = 0, sq_handler = hdl\<rparr>) s"

definition softirq_schedule :: "softirq_type_t \<Rightarrow> 'z sstate_scheme \<Rightarrow> 'z sstate_scheme result" where
  "softirq_schedule type s = set_kernel_state T_RUNNABLE (softirq_set type (sq_schedule_update (\<lambda>_. 1)) s)"

text \<open>One pass over the table: the flag is cleared when the handler has returned.\<close>

fun softirq_pass :: "(softirq_handler_t \<Rightarrow> 'z sstate_scheme \<Rightarrow> 'z sstate_scheme result) \<Rightarrow> softirq_type_t list \<Rightarrow>
    bool \<Rightarrow> 'z sstate_scheme \<Rightarrow> (bool \<times> 'z sstate_scheme) result" where
  "softirq_pass call [] executed s = Ok (executed, s)"
| "softirq_pass call (i # is) executed s =
     (if sq_schedule (softirq s i) \<noteq> 0 \<and> sq_handler (softirq s i) \<noteq> NO_HANDLER
      then rbind (call (sq_handler (softirq s i)) s) (\<lambda>s.
           softirq_pass call is True (softirq_set i (sq_schedule_update (\<lambda>_. 0)) s))
      else softirq_pass call is executed s)"

definition softirq_pending :: "'z sstate_scheme \<Rightarrow> bool" where
  "softirq_pending s \<longleftrightarrow> (\<exists>i \<in> set all_softirqs. sq_schedule (softirq s i) \<noteq> 0)"

fun softirq_execute :: "nat \<Rightarrow> (softirq_handler_t \<Rightarrow> 'z sstate_scheme \<Rightarrow> 'z sstate_scheme result) \<Rightarrow> bool \<Rightarrow>
    'z sstate_scheme \<Rightarrow> (bool \<times> 'z sstate_scheme) result" where
  "softirq_execute 0 call executed s = Fault (Diverges ''softirq_execute'')"
| "softirq_execute (Suc n) call executed s =
     rbind (softirq_pass call all_softirqs executed s) (\<lambda>(executed, s).
     let again = softirq_pending s in
     rbind (set_kernel_state (if again then T_RUNNABLE else T_INACTIVE) s) (\<lambda>s.
     if again then softirq_execute n call executed s else Ok (executed, s)))"

text \<open>The table has every soft interrupt once, so that one is pending when its flag is set.\<close>

lemma all_softirqs_in_order: "sorted all_softirqs" "set all_softirqs = UNIV"
proof -
  show "sorted all_softirqs" by (simp add: all_softirqs_def less_eq_softirq_type_t_def softirq_rank_def)
  have "t \<in> set all_softirqs" for t by (cases t) (simp_all add: all_softirqs_def)
  then show "set all_softirqs = UNIV" by auto
qed

lemma softirq_pending_iff: "softirq_pending s \<longleftrightarrow> (\<exists>i. sq_schedule (softirq s i) \<noteq> 0)"
  by (simp add: softirq_pending_def all_softirqs_in_order)

subsection \<open>System threads\<close>

text \<open>Addresses the linker and the compiler choose; \<open>root_regs\<close> is the place of the local array
  \<open>regs\<close> of \<open>create_root_thread\<close>.\<close>

record sys_syms =
  idle_stack_start :: u32
  idle_stack_end :: u32
  kernel_stack_end :: u32
  root_stack_start :: u32
  root_stack_end :: u32
  root_utcb :: ptr
  kip_addr :: u32
  root_thread_fn :: u32
  idle_thread_fn :: u32
  root_regs :: u32

text \<open>The common end of the three creation functions: stack bounds, canary, priority, ready.\<close>

definition start_thread :: "ptr \<Rightarrow> u8 \<Rightarrow> 'z kstate_scheme \<Rightarrow> 'z kstate_scheme result" where
  "start_thread thr prio s =
     sched_enqueue thr (tcb_upd thr (\<lambda>t. t\<lparr>priority := prio, base_priority := prio, state := T_RUNNABLE\<rparr>) s)"

definition init_stack :: "ptr \<Rightarrow> u32 \<Rightarrow> u32 \<Rightarrow> 'z tstate_scheme \<Rightarrow> 'z tstate_scheme" where
  "init_stack thr sb se s =
     thread_init_canary thr (tcb_upd thr (\<lambda>t. t\<lparr>stack_base := sb, stack_size := se - sb\<rparr>) s)"

definition create_root_thread :: "sys_syms \<Rightarrow> 'z sstate_scheme \<Rightarrow> 'z sstate_scheme result" where
  "create_root_thread L s =
     rbind (thread_init (TID_TO_GLOBALID THREAD_ROOT) (root_utcb L) s) (\<lambda>(r, s).
     let s = s\<lparr>root := r\<rparr> in
     if r = NULL then Fault (Null_deref ''create_root_thread: root'')
     else
       rbind (thread_space r (TID_TO_GLOBALID THREAD_ROOT) (root_utcb L) s) (\<lambda>s.
       rbind (on_mem (as_map_user (t_as (tcbs s r))) s) (\<lambda>s.
       let s = wr (root_regs L) REG_R0 (kip_addr L) s;
           s = wr (root_regs L) REG_R1 (utcb (tcbs s r)) s;
           s = wr (root_regs L) REG_R2 0 s;
           s = wr (root_regs L) REG_R3 0 s;
           s = thread_init_ctx (root_stack_end L) (root_thread_fn L) (root_regs L) r s;
           s = init_stack r (root_stack_start L) (root_stack_end L) s
       in start_thread r SCHED_PRIO_ROOT s)))"

definition create_kernel_thread :: "sys_syms \<Rightarrow> 'z sstate_scheme \<Rightarrow> 'z sstate_scheme result" where
  "create_kernel_thread L s =
     rbind (thread_init (TID_TO_GLOBALID THREAD_KERNEL) NULL s) (\<lambda>(k, s).
     let s = s\<lparr>kernel := k\<rparr> in
     if k = NULL then Fault (Null_deref ''create_kernel_thread: kernel'')
     else
       let s = thread_init_kernel_ctx (kernel_stack_end L) k s;
           s = init_stack k (idle_stack_end L) (kernel_stack_end L) s
       in start_thread k SCHED_PRIO_SOFTIRQ s)"

definition create_idle_thread :: "sys_syms \<Rightarrow> 'z sstate_scheme \<Rightarrow> 'z sstate_scheme result" where
  "create_idle_thread L s =
     rbind (thread_init (TID_TO_GLOBALID THREAD_IDLE) NULL s) (\<lambda>(i, s).
     let s = s\<lparr>idle := i\<rparr> in
     if i = NULL then Fault (Null_deref ''create_idle_thread: idle'')
     else
       let s = thread_init_ctx (idle_stack_end L) (idle_thread_fn L) NULL i s;
           s = init_stack i (idle_stack_start L) (idle_stack_end L) s
       in start_thread i SCHED_PRIO_IDLE s)"

text \<open>The jump into the new context is the end of the modelled code.\<close>

definition switch_to_kernel :: "sys_syms \<Rightarrow> 'z sstate_scheme \<Rightarrow> 'z sstate_scheme result" where
  "switch_to_kernel L s = rbind (create_kernel_thread L s) (\<lambda>s. Ok (s\<lparr>current := kernel s\<rparr>))"

subsection \<open>The kernel thread and the ready queues\<close>

lemma sstate_more:
  assumes "kstate.more s' = kstate.more s"
  shows "kernel s' = kernel s" "idle s' = idle s" "root s' = root s" "softirq s' = softirq s"
    "sstate.more s' = sstate.more s"
  using assms by (cases s; cases s'; simp)+

lemmas tcb_upd_sstate [simp] = tstate_more [OF tcb_upd_sel(7)] sstate_more [OF tcb_upd_sel(7)]
lemmas dequeue_frame [simp] = tstate_more [OF more_sched_dequeue] sstate_more [OF more_sched_dequeue]

lemma set_kernel_state_ready:
  assumes "rq_rep s q" "kernel s \<noteq> NULL"
  shows "\<exists>s'. set_kernel_state T_RUNNABLE s = Ok s' \<and> rq_rep s' (with_ready (kernel s) s q)"
  unfolding set_kernel_state_def Let_def
  using wake_rep [OF assms, of "state_update (\<lambda>_. T_RUNNABLE)"] assms(2) by (simp add: set_state_def tcb_upd_def)

lemma set_kernel_state_idle:
  assumes "rq_rep s q" "kernel s \<noteq> NULL" "st \<noteq> T_RUNNABLE"
  shows "\<exists>s'. set_kernel_state st s = Ok s' \<and> rq_rep s' (\<lambda>p. removeAll (kernel s) (q p))"
  unfolding set_kernel_state_def Let_def
  using block_rep [OF assms(1,2), of "state_update (\<lambda>_. st)"] assms(2,3) by (simp add: set_state_def)

lemma set_kernel_state_more: "set_kernel_state st s = Ok s' \<Longrightarrow> kstate.more s' = kstate.more s"
  unfolding set_kernel_state_def Let_def
  using more_sched_enqueue [of "kernel s" "set_state (kernel s) T_RUNNABLE s" s']
  by (auto split: if_splits simp: sstate_more [OF more_set(3)])


lemma rq_rep_softirq_set [simp]: "rq_rep (softirq_set i f s) q = rq_rep s q"
  using rq_rep_globals [of s q "softirq_set i f s"] rq_rep_globals [of "softirq_set i f s" q s]
  by (auto simp: softirq_set_def)

lemma set_kernel_state_tcb:
  assumes "set_kernel_state st s = Ok s'"
  shows "state (tcbs s' (kernel s)) = st" "current s' = current s"
    "p \<noteq> kernel s \<Longrightarrow> unlinked (tcbs s' p) = unlinked (tcbs s p)"
    "t_globalid (tcbs s' p) = t_globalid (tcbs s p)"
proof -
  have "state (tcbs s' (kernel s)) = st \<and> current s' = current s \<and>
    (p \<noteq> kernel s \<longrightarrow> unlinked (tcbs s' p) = unlinked (tcbs s p)) \<and> t_globalid (tcbs s' p) = t_globalid (tcbs s p)"
  proof (cases "st = T_RUNNABLE")
    case True
    then have e: "sched_enqueue (kernel s) (set_state (kernel s) T_RUNNABLE s) = Ok s'"
      using assms by (auto simp: set_kernel_state_def Let_def set_state_def split: if_splits)
    show ?thesis
      using True sched_enqueue_tcb(1,2) [OF e] enqueue_fields(1,6) [OF e] by (simp add: set_state_def)
  next
    case False
    then show ?thesis
      using assms sched_dequeue_tcb(1) [of "kernel s" s]
      by (auto simp: set_kernel_state_def Let_def set_state_def split: if_splits)
  qed
  then show "state (tcbs s' (kernel s)) = st" "current s' = current s"
    "p \<noteq> kernel s \<Longrightarrow> unlinked (tcbs s' p) = unlinked (tcbs s p)"
    "t_globalid (tcbs s' p) = t_globalid (tcbs s p)" by simp_all
qed

lemma set_kernel_state_total: "kernel s \<noteq> NULL \<Longrightarrow> \<exists>s'. set_kernel_state st s = Ok s'"
  using sched_enqueue_total [of "kernel s" "set_state (kernel s) T_RUNNABLE s"]
  by (auto simp: set_kernel_state_def Let_def set_state_def)

text \<open>Scheduling a soft interrupt always succeeds once the kernel thread exists: it raises the flag and makes
  the kernel thread ready.\<close>

lemma softirq_schedule_ok:
  assumes k: "kernel s \<noteq> NULL"
  obtains s' where "softirq_schedule i s = Ok s'"
    "kstate.more s' = kstate.more (softirq_set i (sq_schedule_update (\<lambda>_. 1)) s)"
    "state (tcbs s' (kernel s)) = T_RUNNABLE" "\<And>p. t_globalid (tcbs s' p) = t_globalid (tcbs s p)"
    "\<And>p. p \<noteq> kernel s \<Longrightarrow> unlinked (tcbs s' p) = unlinked (tcbs s p)" "current s' = current s"
    "\<And>q. rq_rep s q \<Longrightarrow> rq_rep s' (with_ready (kernel s) s q)"
proof -
  let ?s = "softirq_set i (sq_schedule_update (\<lambda>_. 1)) s"
  have f: "kernel ?s = kernel s" "tcbs ?s = tcbs s" "current ?s = current s" by (simp_all add: softirq_set_def)
  obtain s' where s': "set_kernel_state T_RUNNABLE ?s = Ok s'"
    using set_kernel_state_total [of ?s] k f by auto
  have w: "with_ready (kernel s) ?s q = with_ready (kernel s) s q" for q
    by (simp add: with_ready_def level_def f)
  have "rq_rep s' (with_ready (kernel s) s q)" if "rq_rep s q" for q
    using set_kernel_state_ready [of ?s q] that k s' by (simp add: f w)
  then show thesis
    using that [of s'] s' set_kernel_state_more [OF s'] set_kernel_state_tcb [OF s'] f
    by (simp add: softirq_schedule_def)
qed

end
