(* ===== verification/Notification.thy ===== *)
theory Notification
  imports Softirq
begin

text \<open>
  The notification system, \<^verbatim>\<open>kernel/notification.c\<close>: signal bits of a thread, the queue of asynchronous
  events with its batched delivery in a soft interrupt, and notification masks. Events live in a kernel
  table and are linked by pointers; a mask is an object at an address the caller owns. The delivery loop is
  bounded by the 32 elements of the event table, so \<open>ASYNC_FUEL\<close> is one more.
\<close>

subsection \<open>State\<close>

record notification_async_t =
  target_id :: u32
  ev_notify_bits :: u32
  event_data :: u32
  ev_next :: ptr

record notification_mask_t =
  nm_id :: u32
  current_flags :: u32
  waiter_ids :: "u32 list"
  waiter_masks :: "u32 list"
  nm_notify_bits :: "u32 list"
  waiter_options :: "u8 list"
  num_waiters :: u8
  nm_flags :: u8
  nm_name :: ptr

record nstate = sstate +
  async_events :: "ptr \<Rightarrow> notification_async_t"
  notification_async_table :: ktable
  notification_async_queue_head :: ptr
  notification_async_queue_tail :: ptr
  notification_async_queue_count :: u32
  notification_async_posted :: u32
  notification_async_delivered :: u32
  notification_async_dropped :: u32
  notification_async_batches :: u32
  notification_async_reschedules :: u32
  ipsr :: u32
  masks :: "ptr \<Rightarrow> notification_mask_t"
  notification_mask_id_counter :: u32
  notification_mask_created :: u32
  notification_mask_deleted :: u32
  notification_mask_sets :: u32
  notification_mask_clears :: u32
  notification_mask_waits :: u32
  notification_mask_unwaits :: u32
  notification_mask_notifications :: u32

abbreviation (input) CONFIG_MAX_NOTIFICATIONS :: u32 where "CONFIG_MAX_NOTIFICATIONS \<equiv> 32"
abbreviation (input) NOTIFICATION_BATCH_SIZE :: nat where "NOTIFICATION_BATCH_SIZE \<equiv> 4"
abbreviation (input) NOTIFICATION_MASK_MAX_WAITERS :: nat where "NOTIFICATION_MASK_MAX_WAITERS \<equiv> 8"
abbreviation (input) NOTIFICATION_MASK_OR :: u8 where "NOTIFICATION_MASK_OR \<equiv> 0"
abbreviation (input) NOTIFICATION_MASK_AND :: u8 where "NOTIFICATION_MASK_AND \<equiv> 1"

subsection \<open>Signal bits\<close>

definition update_notify_pending :: "tcb \<Rightarrow> tcb" where
  "update_notify_pending t = t\<lparr>notify_pending := if notify_bits t \<noteq> 0 then 1 else 0\<rparr>"

definition thread_set_ipc_notify_callback :: "ptr \<Rightarrow> ptr \<Rightarrow> 'z kstate_scheme \<Rightarrow> 'z kstate_scheme" where
  "thread_set_ipc_notify_callback t hdl s =
     (if t = NULL then s else tcb_upd t (ipc_notify_update (\<lambda>_. hdl)) s)"

definition thread_get_ipc_notify_callback :: "ptr \<Rightarrow> 'z kstate_scheme \<Rightarrow> ptr" where
  "thread_get_ipc_notify_callback t s = (if t = NULL then NULL else ipc_notify (tcbs s t))"

definition notification_signal :: "ptr \<Rightarrow> u32 \<Rightarrow> 'z kstate_scheme \<Rightarrow> 'z kstate_scheme" where
  "notification_signal t bits s =
     (if t = NULL then s
      else tcb_upd t (\<lambda>x. update_notify_pending (x\<lparr>notify_bits := notify_bits x OR bits\<rparr>)) s)"

definition notification_clear :: "ptr \<Rightarrow> u32 \<Rightarrow> 'z kstate_scheme \<Rightarrow> 'z kstate_scheme" where
  "notification_clear t bits s =
     (if t = NULL then s
      else tcb_upd t (\<lambda>x. update_notify_pending (x\<lparr>notify_bits := notify_bits x AND NOT bits\<rparr>)) s)"

definition notification_get :: "ptr \<Rightarrow> 'z kstate_scheme \<Rightarrow> u32" where
  "notification_get t s = (if t = NULL then 0 else notify_bits (tcbs s t))"

definition notification_get_extended :: "ptr \<Rightarrow> 'z kstate_scheme \<Rightarrow> (u32 \<times> u32) option" where
  "notification_get_extended t s =
     (if t = NULL then None else Some (notify_bits (tcbs s t), notify_data (tcbs s t)))"

definition notification_read_clear :: "ptr \<Rightarrow> u32 \<Rightarrow> 'z kstate_scheme \<Rightarrow> u32 \<times> 'z kstate_scheme" where
  "notification_read_clear t msk s =
     (if t = NULL then (0, s)
      else (notify_bits (tcbs s t),
            tcb_upd t (\<lambda>x. update_notify_pending (x\<lparr>notify_bits := notify_bits x AND NOT msk\<rparr>)) s))"

text \<open>Waking a thread blocked in \<open>SYS_NOTIFY_WAIT\<close>; the result is whether it was woken.\<close>

definition notify_wake_thread :: "ptr \<Rightarrow> 'z tstate_scheme \<Rightarrow> (bool \<times> 'z tstate_scheme) result" where
  "notify_wake_thread thr s =
     (if thr = NULL then Ok (False, s)
      else if state (tcbs s thr) \<noteq> T_NOTIFY_BLOCKED then Ok (False, s)
      else
        let matched = notify_bits (tcbs s thr) AND notify_mask (tcbs s thr) in
        if matched = 0 then Ok (False, s)
        else
          let s = tcb_upd thr (\<lambda>x. update_notify_pending (x\<lparr>notify_bits := notify_bits x AND NOT matched\<rparr>)) s;
              s = wr (sp (ctx (tcbs s thr))) REG_R0 matched s;
              s = tcb_upd thr (\<lambda>x. x\<lparr>notify_mask := 0, state := T_RUNNABLE\<rparr>) s
          in rbind (sched_enqueue thr s) (\<lambda>s. Ok (True, s)))"

subsection \<open>Asynchronous events\<close>

definition ev_upd :: "ptr \<Rightarrow> (notification_async_t \<Rightarrow> notification_async_t) \<Rightarrow> 'z nstate_scheme \<Rightarrow> 'z nstate_scheme" where
  "ev_upd p f s = s\<lparr>async_events := (async_events s)(p := f (async_events s p))\<rparr>"

definition notification_post_softirq :: "ptr \<Rightarrow> u32 \<Rightarrow> 'z nstate_scheme \<Rightarrow> (int \<times> 'z nstate_scheme) result" where
  "notification_post_softirq thr bits s =
     (if thr = NULL then Ok (-1, s)
      else if ipsr s \<noteq> 0 then Ok (-1, s)
      else
        rbind (notify_wake_thread thr (notification_signal thr bits s)) (\<lambda>(_, s).
        Ok (0, s\<lparr>notification_async_posted := notification_async_posted s + 1,
                 notification_async_delivered := notification_async_delivered s + 1\<rparr>)))"

text \<open>Linking an event in at the tail, and taking the head out (NULL when the queue is empty).\<close>

definition async_enqueue :: "ptr \<Rightarrow> 'z nstate_scheme \<Rightarrow> 'z nstate_scheme" where
  "async_enqueue event s =
     (if notification_async_queue_head s = NULL
      then s\<lparr>notification_async_queue_head := event, notification_async_queue_tail := event\<rparr>
      else (ev_upd (notification_async_queue_tail s) (ev_next_update (\<lambda>_. event)) s)
             \<lparr>notification_async_queue_tail := event\<rparr>)"

definition async_dequeue :: "'z nstate_scheme \<Rightarrow> ptr \<times> 'z nstate_scheme" where
  "async_dequeue s =
     (let event = notification_async_queue_head s in
      if event = NULL then (NULL, s)
      else
        let s = s\<lparr>notification_async_queue_head := ev_next (async_events s event)\<rparr>
        in (event, if notification_async_queue_head s = NULL
                   then s\<lparr>notification_async_queue_tail := NULL\<rparr> else s))"

definition notification_post :: "ptr \<Rightarrow> u32 \<Rightarrow> u32 \<Rightarrow> 'z nstate_scheme \<Rightarrow> (int \<times> 'z nstate_scheme) result" where
  "notification_post thr bits dat s =
     (if thr = NULL then Ok (-1, s)
      else
        case ktable_alloc (notification_async_table s) of (event, kt) \<Rightarrow>
          let s = s\<lparr>notification_async_table := kt\<rparr> in
          if event = NULL then Ok (-1, s\<lparr>notification_async_dropped := notification_async_dropped s + 1\<rparr>)
          else
            let s = ev_upd event (\<lambda>_. \<lparr>target_id = t_globalid (tcbs s thr), ev_notify_bits = bits,
                                      event_data = dat, ev_next = NULL\<rparr>) s;
                s = async_enqueue event s;
                s = s\<lparr>notification_async_queue_count := notification_async_queue_count s + 1,
                      notification_async_posted := notification_async_posted s + 1\<rparr>
            in rbind (softirq_schedule NOTIFICATION_SOFTIRQ s) (\<lambda>s. Ok (0, s)))"

definition async_free :: "ptr \<Rightarrow> 'z nstate_scheme \<Rightarrow> 'z nstate_scheme" where
  "async_free event s =
     s\<lparr>notification_async_table := ktable_free (notification_async_table s) event,
       notification_async_queue_count := notification_async_queue_count s - 1\<rparr>"

text \<open>Delivering one event: the flag says whether its thread still exists.\<close>

definition async_deliver :: "ptr \<Rightarrow> 'z nstate_scheme \<Rightarrow> (bool \<times> 'z nstate_scheme) result" where
  "async_deliver event s =
     (let ev = async_events s event; thr = thread_by_globalid (target_id ev) s in
      if thr = NULL then Ok (False, async_free event s)
      else
        let s = tcb_upd thr (\<lambda>x. update_notify_pending
                  (x\<lparr>notify_bits := notify_bits x OR ev_notify_bits ev, notify_data := event_data ev\<rparr>)) s
        in rbind (notify_wake_thread thr s) (\<lambda>(_, s). Ok (True, async_free event s)))"

fun async_loop :: "nat \<Rightarrow> nat \<Rightarrow> 'z nstate_scheme \<Rightarrow> (nat \<times> 'z nstate_scheme) result" where
  "async_loop 0 delivered s = Fault (Diverges ''notification_async_handler'')"
| "async_loop (Suc n) delivered s =
     (if delivered < NOTIFICATION_BATCH_SIZE then
        case async_dequeue s of (event, s) \<Rightarrow>
          if event = NULL then Ok (delivered, s)
          else rbind (async_deliver event s) (\<lambda>(live, s).
               async_loop n (if live then Suc delivered else delivered) s)
      else Ok (delivered, s))"

definition ASYNC_FUEL :: nat where "ASYNC_FUEL = 33"

definition notification_async_handler :: "'z nstate_scheme \<Rightarrow> 'z nstate_scheme result" where
  "notification_async_handler s =
     (let s = s\<lparr>notification_async_batches := notification_async_batches s + 1\<rparr> in
      rbind (async_loop ASYNC_FUEL 0 s) (\<lambda>(delivered, s).
      let s = s\<lparr>notification_async_delivered := notification_async_delivered s + of_nat delivered\<rparr> in
      if notification_async_queue_head s \<noteq> NULL
      then rbind (softirq_schedule NOTIFICATION_SOFTIRQ s) (\<lambda>s.
           Ok (s\<lparr>notification_async_reschedules := notification_async_reschedules s + 1\<rparr>))
      else Ok s))"

definition notification_queue_depth :: "'z nstate_scheme \<Rightarrow> u32" where
  "notification_queue_depth s = notification_async_queue_count s"

definition notification_queue_full :: "'z nstate_scheme \<Rightarrow> bool" where
  "notification_queue_full s \<longleftrightarrow> notification_async_queue_count s \<ge> CONFIG_MAX_NOTIFICATIONS"

definition notification_async_init :: "'z nstate_scheme \<Rightarrow> 'z nstate_scheme" where
  "notification_async_init s =
     softirq_register NOTIFICATION_SOFTIRQ NOTIFICATION_ASYNC_HANDLER
       (s\<lparr>notification_async_table := ktable_init (notification_async_table s)\<rparr>)"

subsection \<open>Notification masks\<close>

definition mask_upd :: "ptr \<Rightarrow> (notification_mask_t \<Rightarrow> notification_mask_t) \<Rightarrow> 'z nstate_scheme \<Rightarrow> 'z nstate_scheme" where
  "mask_upd g f s = s\<lparr>masks := (masks s)(g := f (masks s g))\<rparr>"

definition waiter_condition_met :: "u32 \<Rightarrow> u32 \<Rightarrow> u8 \<Rightarrow> bool" where
  "waiter_condition_met flags msk opt \<longleftrightarrow>
     (if opt = NOTIFICATION_MASK_OR then flags AND msk \<noteq> 0 else flags AND msk = msk)"

definition clear_slot :: "nat \<Rightarrow> notification_mask_t \<Rightarrow> notification_mask_t" where
  "clear_slot i g =
     g\<lparr>waiter_ids := (waiter_ids g)[i := L4_NILTHREAD], waiter_masks := (waiter_masks g)[i := 0],
       nm_notify_bits := (nm_notify_bits g)[i := 0], waiter_options := (waiter_options g)[i := 0]\<rparr>"

definition clear_waiter_slots :: "notification_mask_t \<Rightarrow> notification_mask_t" where
  "clear_waiter_slots g = fold clear_slot [0..<NOTIFICATION_MASK_MAX_WAITERS] (g\<lparr>num_waiters := 0\<rparr>)"

definition notification_mask_create :: "ptr \<Rightarrow> ptr \<Rightarrow> 'z nstate_scheme \<Rightarrow> int \<times> 'z nstate_scheme" where
  "notification_mask_create g name s =
     (if g = NULL then (-1, s)
      else
        let s = mask_upd g (\<lambda>m. clear_waiter_slots (m\<lparr>nm_id := notification_mask_id_counter s,
                  current_flags := 0, nm_flags := 0, nm_name := name\<rparr>)) s
        in (0, s\<lparr>notification_mask_id_counter := notification_mask_id_counter s + 1,
                 notification_mask_created := notification_mask_created s + 1\<rparr>))"

definition notification_mask_delete :: "ptr \<Rightarrow> 'z nstate_scheme \<Rightarrow> int \<times> 'z nstate_scheme" where
  "notification_mask_delete g s =
     (if g = NULL then (-1, s)
      else
        let s = mask_upd g (\<lambda>m. (clear_waiter_slots m)\<lparr>current_flags := 0, nm_id := 0\<rparr>) s
        in (0, s\<lparr>notification_mask_deleted := notification_mask_deleted s + 1\<rparr>))"

text \<open>The body of the loop over the waiter slots.\<close>

definition mask_check_slot :: "ptr \<Rightarrow> nat \<Rightarrow> 'z nstate_scheme \<Rightarrow> 'z nstate_scheme result" where
  "mask_check_slot g i s =
     (let m = masks s g in
      if waiter_ids m ! i = L4_NILTHREAD then Ok s
      else
        let waiter = thread_by_globalid (waiter_ids m ! i) s in
        if waiter = NULL
        then Ok (mask_upd g (\<lambda>m. (clear_slot i m)\<lparr>num_waiters := num_waiters m - 1\<rparr>) s)
        else if \<not> waiter_condition_met (current_flags m) (waiter_masks m ! i) (waiter_options m ! i) then Ok s
        else
          rbind (notification_post waiter (nm_notify_bits m ! i) (current_flags m) s) (\<lambda>(_, s).
          Ok (s\<lparr>notification_mask_notifications := notification_mask_notifications s + 1\<rparr>)))"

definition notification_mask_set :: "ptr \<Rightarrow> u32 \<Rightarrow> 'z nstate_scheme \<Rightarrow> (int \<times> 'z nstate_scheme) result" where
  "notification_mask_set g flags s =
     (if g = NULL then Ok (-1, s)
      else
        let s = mask_upd g (\<lambda>m. m\<lparr>current_flags := current_flags m OR flags\<rparr>) s;
            s = s\<lparr>notification_mask_sets := notification_mask_sets s + 1\<rparr>
        in rbind (rfold (mask_check_slot g) [0..<NOTIFICATION_MASK_MAX_WAITERS] s) (\<lambda>s. Ok (0, s)))"

definition notification_mask_clear :: "ptr \<Rightarrow> u32 \<Rightarrow> 'z nstate_scheme \<Rightarrow> int \<times> 'z nstate_scheme" where
  "notification_mask_clear g flags s =
     (if g = NULL then (-1, s)
      else
        let s = mask_upd g (\<lambda>m. m\<lparr>current_flags := current_flags m AND NOT flags\<rparr>) s
        in (0, s\<lparr>notification_mask_clears := notification_mask_clears s + 1\<rparr>))"

definition notification_mask_get :: "ptr \<Rightarrow> 'z nstate_scheme \<Rightarrow> u32" where
  "notification_mask_get g s = (if g = NULL then 0 else current_flags (masks s g))"

text \<open>The slot of a waiter: its own one, or the first free one.\<close>

fun wait_slot :: "u32 \<Rightarrow> u32 list \<Rightarrow> nat \<Rightarrow> nat option \<Rightarrow> nat option \<times> bool" where
  "wait_slot tid [] i found = (found, False)"
| "wait_slot tid (x # xs) i found =
     (if x = tid then (Some i, True)
      else wait_slot tid xs (Suc i) (if found = None \<and> x = L4_NILTHREAD then Some i else found))"

definition notification_mask_wait ::
    "ptr \<Rightarrow> u32 \<Rightarrow> u8 \<Rightarrow> ptr \<Rightarrow> u32 \<Rightarrow> 'z nstate_scheme \<Rightarrow> (int \<times> 'z nstate_scheme) result" where
  "notification_mask_wait g requested opt thread nbit s =
     (if g = NULL \<or> thread = NULL then Ok (-1, s)
      else if opt \<noteq> NOTIFICATION_MASK_OR \<and> opt \<noteq> NOTIFICATION_MASK_AND then Ok (-1, s)
      else
        let tid = t_globalid (tcbs s thread) in
        case wait_slot tid (waiter_ids (masks s g)) 0 None of
          (None, _) \<Rightarrow> Ok (-1, s)
        | (Some i, is_update) \<Rightarrow>
            let s = mask_upd g (\<lambda>m. m\<lparr>waiter_ids := (waiter_ids m)[i := tid],
                      waiter_masks := (waiter_masks m)[i := requested],
                      waiter_options := (waiter_options m)[i := opt],
                      nm_notify_bits := (nm_notify_bits m)[i := nbit]\<rparr>) s;
                s = (if is_update then s
                     else (mask_upd g (\<lambda>m. m\<lparr>num_waiters := num_waiters m + 1\<rparr>) s)
                            \<lparr>notification_mask_waits := notification_mask_waits s + 1\<rparr>)
            in if waiter_condition_met (current_flags (masks s g)) requested opt
               then rbind (notification_post thread nbit (current_flags (masks s g)) s) (\<lambda>(_, s).
                    Ok (0, s\<lparr>notification_mask_notifications := notification_mask_notifications s + 1\<rparr>))
               else Ok (0, s))"

fun index_of :: "u32 \<Rightarrow> u32 list \<Rightarrow> nat \<Rightarrow> nat option" where
  "index_of x [] i = None"
| "index_of x (y # ys) i = (if y \<noteq> x then index_of x ys (Suc i) else Some i)"

definition notification_mask_unwait :: "ptr \<Rightarrow> ptr \<Rightarrow> 'z nstate_scheme \<Rightarrow> int \<times> 'z nstate_scheme" where
  "notification_mask_unwait g thread s =
     (if g = NULL \<or> thread = NULL then (-1, s)
      else
        case index_of (t_globalid (tcbs s thread)) (waiter_ids (masks s g)) 0 of
          None \<Rightarrow> (-1, s)
        | Some i \<Rightarrow>
            let s = mask_upd g (\<lambda>m. (clear_slot i m)\<lparr>num_waiters := num_waiters m - 1\<rparr>) s
            in (0, s\<lparr>notification_mask_unwaits := notification_mask_unwaits s + 1\<rparr>))"

definition notification_mask_waiter_count :: "ptr \<Rightarrow> 'z nstate_scheme \<Rightarrow> u8" where
  "notification_mask_waiter_count g s = (if g = NULL then 0 else num_waiters (masks s g))"

subsection \<open>Frame\<close>

lemma nstate_more:
  assumes "kstate.more s' = kstate.more s"
  shows "async_events s' = async_events s" "notification_async_table s' = notification_async_table s"
    "notification_async_queue_head s' = notification_async_queue_head s"
    "notification_async_queue_tail s' = notification_async_queue_tail s"
    "notification_async_queue_count s' = notification_async_queue_count s"
    "masks s' = masks s" "nstate.more s' = nstate.more s"
  using assms by (cases s; cases s'; simp)+

lemmas tcb_upd_nstate [simp] = nstate_more [OF tcb_upd_sel(7)]

lemma thread_by_globalid_cong:
  assumes "\<And>p. t_globalid (tcbs s' p) = t_globalid (tcbs s p)" "thread_map s' = thread_map s"
    "thread_count s' = thread_count s"
  shows "thread_by_globalid g s' = thread_by_globalid g s"
proof -
  have t: "tid_of s' = tid_of s" using assms(1) by (simp add: tid_of_def fun_eq_iff)
  have "map_search_loop x l h s' = map_search_loop x l h s" for x l h
  proof (induction "h - l" arbitrary: l h rule: less_induct)
    case less
    let ?m = "l + (h - l) div 2"
    have "map_search_loop x l ?m s' = map_search_loop x l ?m s"
      "map_search_loop x (?m + 1) h s' = map_search_loop x (?m + 1) h s" if "l < h"
      using that by (intro less; simp)+
    then show ?case by (subst (1 2) map_search_loop.simps) (simp add: Let_def t assms(2))
  qed
  then show ?thesis by (simp add: thread_by_globalid_def thread_map_search_def Let_def assms(2,3) t)
qed

subsection \<open>Signal bits\<close>

definition pending_flag_ok :: "tcb \<Rightarrow> bool" where
  "pending_flag_ok t \<longleftrightarrow> notify_pending t = (if notify_bits t \<noteq> 0 then 1 else 0)"

lemma update_notify_pending_ok [simp]: "pending_flag_ok (update_notify_pending t)"
  by (simp add: pending_flag_ok_def update_notify_pending_def)

text \<open>Waking always returns: the thread is made runnable before it is enqueued.\<close>

lemma notify_wake_thread_cases:
  obtains (asleep) "thr = NULL \<or> state (tcbs s thr) \<noteq> T_NOTIFY_BLOCKED \<or>
      notify_bits (tcbs s thr) AND notify_mask (tcbs s thr) = 0" "notify_wake_thread thr s = Ok (False, s)"
  | (woken) s1 s' where "thr \<noteq> NULL" "state (tcbs s thr) = T_NOTIFY_BLOCKED"
      "notify_bits (tcbs s thr) AND notify_mask (tcbs s thr) \<noteq> 0"
      "s1 = tcb_upd thr (\<lambda>x. (update_notify_pending (x\<lparr>notify_bits := notify_bits x AND NOT (notify_mask x)\<rparr>))
              \<lparr>notify_mask := 0, state := T_RUNNABLE\<rparr>)
            (wr (sp (ctx (tcbs s thr))) REG_R0 (notify_bits (tcbs s thr) AND notify_mask (tcbs s thr)) s)"
      "sched_enqueue thr s1 = Ok s'" "notify_wake_thread thr s = Ok (True, s')"
proof (cases "thr = NULL \<or> state (tcbs s thr) \<noteq> T_NOTIFY_BLOCKED \<or>
      notify_bits (tcbs s thr) AND notify_mask (tcbs s thr) = 0")
  case True
  then show ?thesis using asleep by (auto simp: notify_wake_thread_def)
next
  case False
  define m where "m = notify_bits (tcbs s thr) AND notify_mask (tcbs s thr)"
  have b: "notify_bits (tcbs s thr) AND NOT m = notify_bits (tcbs s thr) AND NOT (notify_mask (tcbs s thr))"
    by (rule bit_word_eqI) (auto simp: m_def bit_and_iff bit_or_iff bit_not_iff)
  define s1 where "s1 = tcb_upd thr (\<lambda>x. (update_notify_pending (x\<lparr>notify_bits := notify_bits x AND NOT (notify_mask x)\<rparr>))
              \<lparr>notify_mask := 0, state := T_RUNNABLE\<rparr>) (wr (sp (ctx (tcbs s thr))) REG_R0 m s)"
  have e: "notify_wake_thread thr s = rbind (sched_enqueue thr s1) (\<lambda>s. Ok (True, s))"
    using False b unfolding notify_wake_thread_def Let_def m_def [symmetric] s1_def
    by (simp add: tcb_upd_def wr_def update_notify_pending_def)
  obtain s' where "sched_enqueue thr s1 = Ok s'"
    using sched_enqueue_total [of thr s1] by (auto simp: s1_def)
  then show ?thesis using woken [of s1 s'] False e by (simp add: s1_def m_def)
qed


lemma notify_wake_thread_frame:
  assumes "notify_wake_thread thr s = Ok (b, s')"
  shows "tstate.more s' = tstate.more s" "mem s' = mem s" "thread_map s' = thread_map s"
    "thread_count s' = thread_count s" "thread_table s' = thread_table s" "utcbs s' = utcbs s"
    "caller s' = caller s" "current s' = current s"
    "t_globalid (tcbs s' p) = t_globalid (tcbs s p)"
    "p \<noteq> thr \<Longrightarrow> notify_bits (tcbs s' p) = notify_bits (tcbs s p) \<and> state (tcbs s' p) = state (tcbs s p)"
proof -
  have "tstate.more s' = tstate.more s \<and> mem s' = mem s \<and> thread_map s' = thread_map s \<and>
    thread_count s' = thread_count s \<and> thread_table s' = thread_table s \<and> utcbs s' = utcbs s \<and>
    caller s' = caller s \<and> current s' = current s \<and> t_globalid (tcbs s' p) = t_globalid (tcbs s p) \<and>
    (p \<noteq> thr \<longrightarrow> notify_bits (tcbs s' p) = notify_bits (tcbs s p) \<and> state (tcbs s' p) = state (tcbs s p))"
  proof (cases thr s rule: notify_wake_thread_cases)
    case asleep
    then show ?thesis using assms by simp
  next
    case (woken s1 s'')
    then have e: "s'' = s'" using assms by simp
    note f = woken(5) [unfolded e]
    show ?thesis
      using tstate_more [OF more_sched_enqueue [OF f]] sched_enqueue_tcb(2) [OF f] enqueue_fields [OF f, of p]
      by (cases "p = thr") (simp_all add: woken(4) wr_def update_notify_pending_def)
  qed
  then show "tstate.more s' = tstate.more s" "mem s' = mem s" "thread_map s' = thread_map s"
    "thread_count s' = thread_count s" "thread_table s' = thread_table s" "utcbs s' = utcbs s"
    "caller s' = caller s" "current s' = current s"
    "t_globalid (tcbs s' p) = t_globalid (tcbs s p)"
    "p \<noteq> thr \<Longrightarrow> notify_bits (tcbs s' p) = notify_bits (tcbs s p) \<and> state (tcbs s' p) = state (tcbs s p)"
    by simp_all
qed


lemma notify_wake_thread_rep:
  assumes rep: "rq_rep s q" and t: "thr \<noteq> NULL"
  defines "m \<equiv> notify_bits (tcbs s thr) AND notify_mask (tcbs s thr)"
  shows "if state (tcbs s thr) = T_NOTIFY_BLOCKED \<and> m \<noteq> 0
    then \<exists>s'. notify_wake_thread thr s = Ok (True, s') \<and>
      rq_rep s' (q(level s thr := q (level s thr) @ [thr])) \<and> state (tcbs s' thr) = T_RUNNABLE \<and>
      rd s' (sp (ctx (tcbs s thr))) REG_R0 = m \<and>
      notify_bits (tcbs s' thr) = notify_bits (tcbs s thr) AND NOT (notify_mask (tcbs s thr)) \<and>
      notify_mask (tcbs s' thr) = 0 \<and> pending_flag_ok (tcbs s' thr)
    else notify_wake_thread thr s = Ok (False, s)"
proof (cases thr s rule: notify_wake_thread_cases)
  case asleep
  then show ?thesis using t by (auto simp: m_def)
next
  case (woken s1 s')
  have r: "rq_rep (wr (sp (ctx (tcbs s thr))) REG_R0 m s) q" (is "rq_rep ?w q")
    by (rule rq_rep_globals [OF rep]) (simp_all add: wr_def)
  have nq: "thr \<notin> set (q (level s thr))"
    using woken(2) rq_rep_member(2) [OF rep _, of "level s thr" thr] by (auto simp: runnable_def)
  have "rq_rep s' (with_ready thr ?w q)"
    using wake_rep [OF r t, of "\<lambda>x. (update_notify_pending (x\<lparr>notify_bits := notify_bits x AND NOT (notify_mask x)\<rparr>))
              \<lparr>notify_mask := 0, state := T_RUNNABLE\<rparr>"] woken(4,5)
    by (auto simp: m_def update_notify_pending_def)
  moreover have "level ?w thr = level s thr" by (simp add: level_def wr_def)
  ultimately have q': "rq_rep s' (q(level s thr := q (level s thr) @ [thr]))" using nq by (simp add: with_ready_def)
  note f = enqueue_fields [OF woken(5), of thr] tstate_more(8) [OF more_sched_enqueue [OF woken(5)]]
  have "state (tcbs s' thr) = T_RUNNABLE" "notify_mask (tcbs s' thr) = 0" "pending_flag_ok (tcbs s' thr)"
    "notify_bits (tcbs s' thr) = notify_bits (tcbs s thr) AND NOT (notify_mask (tcbs s thr))"
    "rd s' (sp (ctx (tcbs s thr))) REG_R0 = m"
    using f by (simp_all add: woken(4) wr_def update_notify_pending_def pending_flag_ok_def rd_def m_def)
  then show ?thesis using woken q' by (auto simp: m_def)
qed

text \<open>C12. The wake protocol: a thread blocked on notifications whose mask meets its bits is made runnable at the
  tail of its ready list, gets exactly the matched bits as its return value in the saved R0, keeps the other
  bits and has its mask cleared; in every other case nothing changes.\<close>

theorem notify_wake_thread_protocol:
  assumes rep: "rq_rep s q" and t: "thr \<noteq> NULL"
  defines "m \<equiv> notify_bits (tcbs s thr) AND notify_mask (tcbs s thr)"
  shows "if state (tcbs s thr) = T_NOTIFY_BLOCKED \<and> m \<noteq> 0
    then \<exists>s'. notify_wake_thread thr s = Ok (True, s') \<and>
      rq_rep s' (q(level s thr := q (level s thr) @ [thr])) \<and> state (tcbs s' thr) = T_RUNNABLE \<and>
      rd s' (sp (ctx (tcbs s thr))) REG_R0 = m \<and>
      notify_bits (tcbs s' thr) = notify_bits (tcbs s thr) AND NOT (notify_mask (tcbs s thr)) \<and>
      notify_mask (tcbs s' thr) = 0 \<and> pending_flag_ok (tcbs s' thr)
    else notify_wake_thread thr s = Ok (False, s)"
  unfolding m_def by (rule notify_wake_thread_rep [OF rep t])

lemma rq_rep_empty:
  assumes "\<And>t. sched_prev (tcbs s t) = NULL" "ready_bitmap s = 0" "ready_queue s = (\<lambda>_. NULL)"
  shows "rq_rep s (\<lambda>_. [])"
  by (rule rq_repI) (use assms in \<open>auto simp: pv_def head_of_def\<close>)

definition wait_example :: tstate where
  "wait_example = boot\<lparr>tcbs := (\<lambda>_. tcb0\<lparr>state := T_NOTIFY_BLOCKED, notify_bits := 5, notify_mask := 4\<rparr>)\<rparr>"

theorem notify_wake_thread_protocol_witness:
  "\<exists>s'. notify_wake_thread 4096 wait_example = Ok (True, s') \<and> state (tcbs s' 4096) = T_RUNNABLE \<and>
     rq_rep s' ((\<lambda>_. [])(16 := [4096])) \<and> notify_bits (tcbs s' 4096) = 1"
proof -
  have "rq_rep wait_example (\<lambda>_. [])"
    by (rule rq_rep_empty) (simp_all add: wait_example_def boot_def tcb0_def)
  from notify_wake_thread_protocol [OF this, of 4096] show ?thesis
    by (auto simp: wait_example_def level_def sched_level_def tcb0_def)
qed

subsection \<open>The event queue\<close>

text \<open>
  \<open>ps\<close> are the queued events from head to tail. The events in use are those in the queue and the ones a
  delivery has taken out and not yet freed (\<open>busy\<close>).
\<close>

definition aq_rep :: "'z nstate_scheme \<Rightarrow> ptr list \<Rightarrow> ptr set \<Rightarrow> bool" where
  "aq_rep s ps busy \<longleftrightarrow>
     slist (\<lambda>p. ev_next (async_events s p)) (notification_async_queue_head s) ps \<and>
     notification_async_queue_tail s = (if ps = [] then NULL else last ps) \<and>
     kt_wf (notification_async_table s) \<and> knum (notification_async_table s) = 32 \<and>
     kt_used (notification_async_table s) = set ps \<union> busy \<and> set ps \<inter> busy = {} \<and>
     notification_async_queue_count s = of_nat (length ps + card busy)"

definition event_of :: "notification_async_t \<Rightarrow> u32 \<times> u32 \<times> u32" where
  "event_of e = (target_id e, ev_notify_bits e, event_data e)"

lemma slist_snoc:
  assumes "slist nxt p xs" "y \<notin> set xs" "y \<noteq> NULL"
  shows "slist (nxt(last (p # xs) := y, y := NULL)) (if xs = [] then y else p) (xs @ [y])"
  using assms
proof (induction xs arbitrary: p)
  case (Cons x xs)
  then have "slist (nxt(last (nxt x # xs) := y, y := NULL)) (if xs = [] then y else nxt x) (xs @ [y])"
    by (intro Cons.IH) auto
  moreover have "x \<notin> set xs" using slist_distinct [OF Cons.prems(1)] by simp
  ultimately show ?case using Cons.prems by (cases "xs = []") (auto simp: fun_upd_def split: if_splits)
qed auto


lemma aq_rep_used_le:
  assumes "aq_rep s ps busy" "finite busy"
  shows "length ps + card busy \<le> 32"
proof -
  let ?kt = "notification_async_table s"
  have "slist (\<lambda>p. ev_next (async_events s p)) (notification_async_queue_head s) ps"
    using assms(1) by (simp add: aq_rep_def)
  then have "length ps = card (set ps)" by (simp add: slist_distinct distinct_card)
  then have "length ps + card busy = card (set ps \<union> busy)"
    using assms by (simp add: aq_rep_def card_Un_disjoint)
  also have "\<dots> = card (kt_used ?kt)" using assms(1) by (simp add: aq_rep_def)
  also have "\<dots> \<le> card (kt_slots ?kt)"
    using assms(1) by (intro card_mono kt.finite_slots kt.used_slots) (simp_all add: aq_rep_def)
  also have "\<dots> \<le> 32"
  proof -
    have "kt_slots ?kt = kt_elem ?kt ` {..<32}" using assms(1) by (auto simp: kt_slots_def aq_rep_def)
    then show ?thesis using card_image_le [of "{..<32 :: nat}" "kt_elem ?kt"] by simp
  qed
  finally show ?thesis .
qed

lemma async_enqueue_rep:
  assumes l: "slist (\<lambda>p. ev_next (async_events s p)) (notification_async_queue_head s) ps"
    and t: "notification_async_queue_tail s = (if ps = [] then NULL else last ps)"
    and e: "p \<notin> set ps" "p \<noteq> NULL" "ev_next (async_events s p) = NULL"
  shows "slist (\<lambda>x. ev_next (async_events (async_enqueue p s) x)) (notification_async_queue_head (async_enqueue p s)) (ps @ [p])"
    "notification_async_queue_tail (async_enqueue p s) = p"
    "x \<notin> set ps \<Longrightarrow> async_events (async_enqueue p s) x = async_events s x"
    "event_of (async_events (async_enqueue p s) x) = event_of (async_events s x)"
proof -
  let ?n = "\<lambda>p. ev_next (async_events s p)"
  have h: "notification_async_queue_head s = NULL \<longleftrightarrow> ps = []" using l by (cases ps) auto
  show "slist (\<lambda>x. ev_next (async_events (async_enqueue p s) x)) (notification_async_queue_head (async_enqueue p s)) (ps @ [p])"
  proof (cases "ps = []")
    case True
    then show ?thesis using e h by (simp add: async_enqueue_def)
  next
    case False
    then have "slist (?n(last ps := p, p := NULL)) (notification_async_queue_head s) (ps @ [p])"
      using slist_snoc [OF l e(1,2)] by simp
    moreover have "?n(last ps := p, p := NULL) = (\<lambda>x. ev_next (async_events (async_enqueue p s) x))"
      using False e h t last_in_set [OF False] by (auto simp: async_enqueue_def ev_upd_def fun_eq_iff)
    ultimately show ?thesis using False h by (simp add: async_enqueue_def ev_upd_def)
  qed
  show "notification_async_queue_tail (async_enqueue p s) = p" by (simp add: async_enqueue_def)
  show "x \<notin> set ps \<Longrightarrow> async_events (async_enqueue p s) x = async_events s x"
    using t h last_in_set [of ps] by (auto simp: async_enqueue_def ev_upd_def)
  show "event_of (async_events (async_enqueue p s) x) = event_of (async_events s x)"
    by (simp add: async_enqueue_def ev_upd_def event_of_def)
qed

lemma async_enqueue_frame:
  "kernel (async_enqueue p s) = kernel s" "tcbs (async_enqueue p s) = tcbs s"
  "ready_queue (async_enqueue p s) = ready_queue s" "ready_bitmap (async_enqueue p s) = ready_bitmap s"
  "notification_async_table (async_enqueue p s) = notification_async_table s"
  "notification_async_queue_count (async_enqueue p s) = notification_async_queue_count s"
  "notification_async_posted (async_enqueue p s) = notification_async_posted s"
  by (simp_all add: async_enqueue_def ev_upd_def)

lemma async_dequeue_rep:
  assumes "aq_rep s (p # ps) busy"
  shows "\<exists>s'. async_dequeue s = (p, s') \<and> aq_rep s' ps (insert p busy) \<and> async_events s' = async_events s \<and>
    s' = s\<lparr>notification_async_queue_head := notification_async_queue_head s',
           notification_async_queue_tail := notification_async_queue_tail s'\<rparr>"
proof -
  let ?n = "\<lambda>p. ev_next (async_events s p)"
  have l: "slist ?n (notification_async_queue_head s) (p # ps)" using assms by (simp add: aq_rep_def)
  then have p: "p \<notin> set ps" "slist ?n (?n p) ps" "notification_async_queue_head s = p" "p \<noteq> NULL"
    using slist_distinct [OF l] by auto
  have z: "?n p = NULL \<longleftrightarrow> ps = []" using p(2) by (cases ps) auto
  have "p \<notin> busy" using assms by (auto simp: aq_rep_def)
  moreover have "finite busy"
    using assms kt.finite_slots [of "notification_async_table s"] kt.used_slots [of "notification_async_table s"]
    by (auto simp: aq_rep_def intro: finite_subset)
  ultimately show ?thesis
    using assms p z by (auto simp: async_dequeue_def aq_rep_def Let_def)
qed

lemma async_dequeue_empty: "aq_rep s [] busy \<Longrightarrow> async_dequeue s = (NULL, s)"
  by (simp add: aq_rep_def async_dequeue_def)

lemma async_free_rep:
  assumes "aq_rep s ps (insert p busy)" "p \<notin> busy"
  shows "aq_rep (async_free p s) ps busy"
proof -
  let ?kt = "notification_async_table s"
  have w: "kt_wf ?kt" and u: "kt_used ?kt = set ps \<union> insert p busy" and d: "set ps \<inter> insert p busy = {}"
    using assms by (auto simp: aq_rep_def)
  have ps: "p \<in> kt_slots ?kt" using kt.used_slots [OF w] u by auto
  have "finite busy" using kt.finite_slots [OF w] kt.used_slots [OF w] u by (auto intro: finite_subset)
  moreover have "knum (ktable_free ?kt p) = knum ?kt" by (simp add: ktable_free_def Let_def)
  ultimately show ?thesis
    using assms(1) d assms(2) u kt.free_used [OF w ps] kt.free_inv [OF w ps]
    by (auto simp: aq_rep_def async_free_def)
qed


text \<open>C13. Posting an event appends it to the queue: if the table has a free element the queue gets the event
  (target, bits, data) at its end, all queued events keep their place and content, the soft interrupt is
  scheduled and the kernel thread is made ready; if the table is full the event is dropped and counted and the
  queue is unchanged.\<close>

theorem notification_post_appends:
  assumes rep: "aq_rep s ps busy" and t: "thr \<noteq> NULL" and k: "kernel s \<noteq> NULL"
  shows "if kt_used (notification_async_table s) = kt_slots (notification_async_table s)
    then notification_post thr bits dat s =
      Ok (-1, s\<lparr>notification_async_dropped := notification_async_dropped s + 1\<rparr>)
    else \<exists>p s'. notification_post thr bits dat s = Ok (0, s') \<and> p \<notin> set ps \<union> busy \<and> aq_rep s' (ps @ [p]) busy \<and>
      event_of (async_events s' p) = (t_globalid (tcbs s thr), bits, dat) \<and>
      (\<forall>x \<in> set ps. event_of (async_events s' x) = event_of (async_events s x)) \<and>
      sq_schedule (softirq s' NOTIFICATION_SOFTIRQ) = 1 \<and> state (tcbs s' (kernel s)) = T_RUNNABLE \<and>
      (\<forall>q. rq_rep s q \<longrightarrow> rq_rep s' (with_ready (kernel s) s q))"
proof -
  let ?kt = "notification_async_table s"
  have w: "kt_wf ?kt" using rep by (simp add: aq_rep_def)
  obtain p kt' where a: "ktable_alloc ?kt = (p, kt')" by (cases "ktable_alloc ?kt")
  show ?thesis
  proof (cases "kt_used ?kt = kt_slots ?kt")
    case True
    then have "p = NULL" using kt.alloc_nil_iff [OF w] a by simp
    then show ?thesis using True a t kt.alloc_full [OF w, of kt'] by (simp add: notification_post_def Let_def)
  next
    case False
    then have p: "p \<noteq> NULL" using kt.alloc_nil_iff [OF w] a by simp
    have fresh: "p \<notin> set ps" "p \<notin> busy" "kt_used kt' = insert p (set ps \<union> busy)" "kt_wf kt'"
      "knum kt' = 32"
      using kt.alloc_fresh [OF w a p] kt.alloc_inv [OF w a] rep card_kt_slots [OF w] card_kt_slots [of kt']
      by (auto simp: aq_rep_def)
    define e where "e = \<lparr>target_id = t_globalid (tcbs s thr), ev_notify_bits = bits, event_data = dat, ev_next = NULL\<rparr>"
    define s1 where "s1 = ev_upd p (\<lambda>_. e) (s\<lparr>notification_async_table := kt'\<rparr>)"
    let ?n = "\<lambda>x. ev_next (async_events s1 x)"
    have "?n = (\<lambda>x. ev_next (async_events s x))(p := NULL)" by (auto simp: s1_def ev_upd_def e_def)
    then have l: "slist ?n (notification_async_queue_head s1) ps"
      and tl: "notification_async_queue_tail s1 = (if ps = [] then NULL else last ps)"
      using rep fresh(1) by (simp_all add: aq_rep_def s1_def ev_upd_def)
    note q = async_enqueue_rep [OF l tl fresh(1) p] and fr = async_enqueue_frame [of p s1]
    have pn: "ev_next (async_events s1 p) = NULL" by (simp add: s1_def ev_upd_def e_def)
    define s2 where "s2 = (async_enqueue p s1)\<lparr>notification_async_queue_count := notification_async_queue_count s + 1,
      notification_async_posted := notification_async_posted s + 1\<rparr>"
    have c: "notification_async_queue_count s = of_nat (length ps + card busy)" "set ps \<inter> busy = {}"
      using rep by (auto simp: aq_rep_def)
    have r2: "aq_rep s2 (ps @ [p]) busy"
      using q(1,2) [OF pn] fr fresh c rep a
      by (auto simp: aq_rep_def s2_def s1_def ev_upd_def)
    have k2: "kernel s2 = kernel s" "tcbs s2 = tcbs s" "ready_queue s2 = ready_queue s" "ready_bitmap s2 = ready_bitmap s"
      using fr by (simp_all add: s2_def s1_def ev_upd_def)
    obtain s' where s': "softirq_schedule NOTIFICATION_SOFTIRQ s2 = Ok s'"
        "kstate.more s' = kstate.more (softirq_set NOTIFICATION_SOFTIRQ (sq_schedule_update (\<lambda>_. 1)) s2)"
        "state (tcbs s' (kernel s2)) = T_RUNNABLE"
        "\<And>q. rq_rep s2 q \<Longrightarrow> rq_rep s' (with_ready (kernel s2) s2 q)"
      by (rule softirq_schedule_ok [of s2]) (use k k2 in auto)
    have post: "notification_post thr bits dat s = Ok (0, s')"
      using a p t s'(1) fr by (simp add: notification_post_def Let_def e_def s1_def s2_def ev_upd_def)
    note m = nstate_more [OF s'(2)] sstate_more(4) [OF s'(2)]
    have "aq_rep s' (ps @ [p]) busy" using r2 m by (simp add: aq_rep_def softirq_set_def)
    moreover have "event_of (async_events s' x) = event_of (async_events s1 x)" for x
      using m q(4) [OF pn, of x] by (simp add: softirq_set_def s2_def)
    moreover have "rq_rep s' (with_ready (kernel s) s q)" if "rq_rep s q" for q
    proof -
      have "rq_rep s2 q" by (rule rq_rep_globals [OF that]) (simp_all add: k2)
      moreover have lv: "level s2 = level s" by (simp add: level_def k2 fun_eq_iff)
      have "with_ready (kernel s2) s2 q = with_ready (kernel s) s q" by (simp only: with_ready_def k2 lv)
      ultimately show ?thesis using s'(4) [of q] by simp
    qed
    moreover have "sq_schedule (softirq s' NOTIFICATION_SOFTIRQ) = 1" using m by (simp add: softirq_set_def)
    ultimately show ?thesis
      using False post fresh(1,2) s'(3) k2 by (auto simp: s1_def ev_upd_def e_def event_of_def)
  qed
qed

subsection \<open>Batched delivery\<close>

text \<open>What is left of a queue when at most \<open>n\<close> live events are taken from its front; events of threads that
  no longer exist do not count.\<close>

fun batch_rest :: "('a \<Rightarrow> bool) \<Rightarrow> nat \<Rightarrow> 'a list \<Rightarrow> 'a list" where
  "batch_rest live n [] = []"
| "batch_rest live n (x # xs) =
     (if n = 0 then x # xs else batch_rest live (if live x then n - 1 else n) xs)"

definition ev_live :: "'z nstate_scheme \<Rightarrow> ptr \<Rightarrow> bool" where
  "ev_live s p \<longleftrightarrow> thread_by_globalid (target_id (async_events s p)) s \<noteq> NULL"

text \<open>What a delivery leaves alone.\<close>

definition delivery_frame :: "'z nstate_scheme \<Rightarrow> 'z nstate_scheme \<Rightarrow> bool" where
  "delivery_frame s s' \<longleftrightarrow> async_events s' = async_events s \<and> thread_map s' = thread_map s \<and>
     thread_count s' = thread_count s \<and> (\<forall>p. t_globalid (tcbs s' p) = t_globalid (tcbs s p)) \<and>
     kernel s' = kernel s \<and> softirq s' = softirq s"

lemma delivery_frame_live: "delivery_frame s s' \<Longrightarrow> ev_live s' = ev_live s"
  using thread_by_globalid_cong [of s' s] by (simp add: delivery_frame_def ev_live_def fun_eq_iff)

lemma delivery_frame_trans: "delivery_frame s s1 \<Longrightarrow> delivery_frame s1 s2 \<Longrightarrow> delivery_frame s s2"
  by (simp add: delivery_frame_def)

lemma tnstate_more:
  assumes "tstate.more s' = tstate.more s"
  shows "kernel s' = kernel s" "softirq s' = softirq s" "async_events s' = async_events s"
    "notification_async_table s' = notification_async_table s"
    "notification_async_queue_head s' = notification_async_queue_head s"
    "notification_async_queue_tail s' = notification_async_queue_tail s"
    "notification_async_queue_count s' = notification_async_queue_count s"
  using assms by (cases s; cases s'; simp)+

lemma async_deliver_rep:
  assumes rep: "aq_rep s ps {p}"
  shows "\<exists>s'. async_deliver p s = Ok (ev_live s p, s') \<and> aq_rep s' ps {} \<and> delivery_frame s s'"
proof -
  let ?thr = "thread_by_globalid (target_id (async_events s p)) s"
  have free: "aq_rep (async_free p x) ps {}" if "aq_rep x ps {p}" for x :: "'a nstate_scheme"
    using async_free_rep [of x ps p "{}"] that by simp
  show ?thesis
  proof (cases "?thr = NULL")
    case True
    then show ?thesis
      using free [OF rep] by (simp add: async_deliver_def ev_live_def delivery_frame_def async_free_def)
  next
    case False
    define s1 where "s1 = tcb_upd ?thr (\<lambda>x. update_notify_pending (x\<lparr>notify_bits := notify_bits x OR
        ev_notify_bits (async_events s p), notify_data := event_data (async_events s p)\<rparr>)) s"
    obtain b s2 where w: "notify_wake_thread ?thr s1 = Ok (b, s2)"
      by (cases ?thr s1 rule: notify_wake_thread_cases) auto
    note f = tnstate_more [OF notify_wake_thread_frame(1) [OF w]] notify_wake_thread_frame(3,4,9) [OF w]
    have "aq_rep s2 ps {p}" using rep f by (simp add: aq_rep_def s1_def)
    moreover have "delivery_frame s s2"
      using f by (auto simp: delivery_frame_def s1_def update_notify_pending_def)
    moreover have "async_deliver p s = Ok (ev_live s p, async_free p s2)"
      using False w by (simp add: async_deliver_def Let_def s1_def ev_live_def)
    ultimately show ?thesis using free by (simp add: delivery_frame_def async_free_def)
  qed
qed

lemma async_loop_rep:
  assumes "aq_rep s ps {}" "length ps < n" "d \<le> 4"
  shows "\<exists>d' s'. async_loop n d s = Ok (d', s') \<and> aq_rep s' (batch_rest (ev_live s) (4 - d) ps) {} \<and>
    delivery_frame s s'"
  using assms
proof (induction n arbitrary: d s ps)
  case (Suc n)
  show ?case
  proof (cases "d < 4 \<and> ps \<noteq> []")
    case False
    have "async_loop (Suc n) d s = Ok (d, s)" using False Suc.prems(1) by (auto simp: async_dequeue_empty)
    moreover have "batch_rest (ev_live s) (4 - d) ps = ps"
      using False Suc.prems(3) by (cases ps) auto
    ultimately show ?thesis using Suc.prems by (simp add: delivery_frame_def)
  next
    case True
    then obtain p qs where ps: "ps = p # qs" by (cases ps) auto
    obtain s1 where s1: "async_dequeue s = (p, s1)" "aq_rep s1 qs {p}" "async_events s1 = async_events s"
        "s1 = s\<lparr>notification_async_queue_head := notification_async_queue_head s1,
               notification_async_queue_tail := notification_async_queue_tail s1\<rparr>"
      using async_dequeue_rep [of s p qs "{}"] Suc.prems(1) ps by auto
    have f1: "delivery_frame s s1" by (subst s1(4)) (simp add: delivery_frame_def)
    have p: "p \<noteq> NULL" using Suc.prems(1) ps by (simp add: aq_rep_def)
    obtain s2 where s2: "async_deliver p s1 = Ok (ev_live s1 p, s2)" "aq_rep s2 qs {}" "delivery_frame s1 s2"
      using async_deliver_rep [OF s1(2)] by blast
    have lv: "ev_live s1 = ev_live s" "ev_live s2 = ev_live s"
      using delivery_frame_live [OF f1] delivery_frame_live [OF s2(3)] by simp_all
    let ?d = "if ev_live s p then Suc d else d"
    have dd: "?d \<le> 4" "4 - ?d = (if ev_live s p then 4 - d - 1 else 4 - d)" using True by auto
    obtain d' s' where s': "async_loop n ?d s2 = Ok (d', s')"
        "aq_rep s' (batch_rest (ev_live s2) (4 - ?d) qs) {}" "delivery_frame s2 s'"
      using Suc.IH [OF s2(2) _ dd(1)] Suc.prems(2) ps by auto
    have "async_loop (Suc n) d s = Ok (d', s')"
      using True s1(1) p s2(1) s'(1) lv by simp
    moreover have "batch_rest (ev_live s) (4 - d) ps = batch_rest (ev_live s2) (4 - ?d) qs"
      unfolding ps dd(2) lv using True by simp
    moreover have "delivery_frame s s'"
      using f1 s2(3) s'(3) delivery_frame_trans by blast
    ultimately show ?thesis using s'(2) by auto
  qed
qed simp


lemma notification_async_handler_rep:
  assumes rep: "aq_rep s ps {}" and k: "kernel s \<noteq> NULL"
  shows "\<exists>s'. notification_async_handler s = Ok s' \<and> aq_rep s' (batch_rest (ev_live s) 4 ps) {} \<and>
    async_events s' = async_events s \<and> kernel s' = kernel s \<and>
    softirq s' = (if batch_rest (ev_live s) 4 ps = [] then softirq s
      else (softirq s)(NOTIFICATION_SOFTIRQ := (softirq s NOTIFICATION_SOFTIRQ)\<lparr>sq_schedule := 1\<rparr>))"
proof -
  define s0 where "s0 = s\<lparr>notification_async_batches := notification_async_batches s + 1\<rparr>"
  have "delivery_frame s s0" by (simp add: delivery_frame_def s0_def)
  then have lv: "ev_live s0 = ev_live s" by (rule delivery_frame_live)
  have r0: "aq_rep s0 ps {}" using rep by (simp add: aq_rep_def s0_def)
  have "length ps < ASYNC_FUEL" using aq_rep_used_le [OF rep] by (simp add: ASYNC_FUEL_def)
  from async_loop_rep [OF r0 this, of 0] obtain d s1 where s1: "async_loop ASYNC_FUEL 0 s0 = Ok (d, s1)"
      "aq_rep s1 (batch_rest (ev_live s) 4 ps) {}" "delivery_frame s0 s1"
    by (auto simp: lv)
  define s2 where "s2 = s1\<lparr>notification_async_delivered := notification_async_delivered s1 + of_nat d\<rparr>"
  have e: "async_events s2 = async_events s" "kernel s2 = kernel s" "softirq s2 = softirq s"
    using s1(3) by (simp_all add: delivery_frame_def s2_def s0_def)
  have r2: "aq_rep s2 (batch_rest (ev_live s) 4 ps) {}" using s1(2) by (simp add: aq_rep_def s2_def)
  have h: "notification_async_queue_head s2 = NULL \<longleftrightarrow> batch_rest (ev_live s) 4 ps = []"
    using r2 slist_hd [of _ "notification_async_queue_head s2"] slist_not_null
    by (cases "batch_rest (ev_live s) 4 ps") (auto simp: aq_rep_def)
  have hd: "notification_async_handler s = (if notification_async_queue_head s2 \<noteq> NULL
      then rbind (softirq_schedule NOTIFICATION_SOFTIRQ s2) (\<lambda>s.
           Ok (s\<lparr>notification_async_reschedules := notification_async_reschedules s + 1\<rparr>))
      else Ok s2)"
    using s1(1) by (simp add: notification_async_handler_def Let_def s0_def s2_def)
  show ?thesis
  proof (cases "batch_rest (ev_live s) 4 ps = []")
    case True
    then show ?thesis using hd h r2 e by simp
  next
    case False
    obtain s3 where s3: "softirq_schedule NOTIFICATION_SOFTIRQ s2 = Ok s3"
        "kstate.more s3 = kstate.more (softirq_set NOTIFICATION_SOFTIRQ (sq_schedule_update (\<lambda>_. 1)) s2)"
      by (rule softirq_schedule_ok [of s2]) (use k e in auto)
    note m = nstate_more [OF s3(2)] sstate_more [OF s3(2)]
    have "aq_rep (s3\<lparr>notification_async_reschedules := notification_async_reschedules s3 + 1\<rparr>)
        (batch_rest (ev_live s) 4 ps) {}"
      using r2 m by (simp add: aq_rep_def softirq_set_def)
    then show ?thesis using hd h False s3(1) m e by (simp add: softirq_set_def)
  qed
qed


text \<open>The request for another run is lost. When only the notification interrupt is scheduled and a batch
  leaves events in the queue, \<open>softirq_execute\<close> clears the flag the handler has just raised, finds no
  interrupt pending, and puts the kernel thread to sleep with the rest of the events still queued.\<close>

theorem softirq_execute_loses_reschedule:
  assumes rep: "aq_rep s ps {}" and k: "kernel s \<noteq> NULL"
    and left: "batch_rest (ev_live s) 4 ps \<noteq> []"
    and call: "call NOTIFICATION_ASYNC_HANDLER = notification_async_handler"
    and only: "softirq s = (\<lambda>i. \<lparr>sq_schedule = if i = NOTIFICATION_SOFTIRQ then 1 else 0, sq_handler = hdl i\<rparr>)"
    and reg: "hdl NOTIFICATION_SOFTIRQ = NOTIFICATION_ASYNC_HANDLER"
  shows "\<exists>s'. softirq_execute (Suc n) call False s = Ok (True, s') \<and> aq_rep s' (batch_rest (ev_live s) 4 ps) {} \<and>
    \<not> softirq_pending s' \<and> state (tcbs s' (kernel s)) = T_INACTIVE"
proof -
  obtain s1 where s1: "notification_async_handler s = Ok s1" "aq_rep s1 (batch_rest (ev_live s) 4 ps) {}"
      "kernel s1 = kernel s"
      "softirq s1 = (softirq s)(NOTIFICATION_SOFTIRQ := (softirq s NOTIFICATION_SOFTIRQ)\<lparr>sq_schedule := 1\<rparr>)"
    using notification_async_handler_rep [OF rep k] left by auto
  define s2 where "s2 = softirq_set NOTIFICATION_SOFTIRQ (sq_schedule_update (\<lambda>_. 0)) s1"
  have q2: "sq_schedule (softirq s2 i) = 0" for i
    using s1(4) only by (simp add: s2_def softirq_set_def)
  have pass: "softirq_pass call all_softirqs False s = Ok (True, s2)"
    using s1(1,4) only call reg by (simp add: all_softirqs_def s2_def softirq_set_def)
  have k2: "kernel s2 = kernel s" using s1(3) by (simp add: s2_def softirq_set_def)
  obtain s3 where s3: "set_kernel_state T_INACTIVE s2 = Ok s3" using set_kernel_state_total [of s2] k k2 by auto
  note m = nstate_more [OF set_kernel_state_more [OF s3]] sstate_more [OF set_kernel_state_more [OF s3]]
  have np: "\<not> softirq_pending s2" using q2 by (simp add: softirq_pending_def)
  then have "softirq_execute (Suc n) call False s = Ok (True, s3)" using pass s3 by simp
  moreover have "aq_rep s3 (batch_rest (ev_live s) 4 ps) {}"
    using s1(2) m by (simp add: aq_rep_def s2_def softirq_set_def)
  moreover have "\<not> softirq_pending s3" using np m by (simp add: softirq_pending_def)
  moreover have "state (tcbs s3 (kernel s)) = T_INACTIVE" using set_kernel_state_tcb(1) [OF s3] k2 by simp
  ultimately show ?thesis by blast
qed

subsection \<open>Witnesses\<close>

text \<open>A kernel with one live thread (number 300, TCB at 8192), the kernel thread at 4096, and five queued
  events for the live thread.\<close>

definition event_table :: "u32 \<Rightarrow> ktable" where
  "event_table b = \<lparr>tname = ''notification_async_table'', kbitmap = [b], kdata = 0x20008000, knum = 32, ksize = 16\<rparr>"

definition nboot :: nstate where
  "nboot = tstate.extend (boot\<lparr>tcbs := (\<lambda>_. tcb0)(8192 := tcb0\<lparr>t_globalid := TID_TO_GLOBALID 300\<rparr>),
       thread_map := (\<lambda>_. 8192), thread_count := 1\<rparr>)
     \<lparr>idle = 0, kernel = 4096, root = 0,
      softirq = (\<lambda>i. \<lparr>sq_schedule = if i = NOTIFICATION_SOFTIRQ then 1 else 0,
        sq_handler = if i = NOTIFICATION_SOFTIRQ then NOTIFICATION_ASYNC_HANDLER else NO_HANDLER\<rparr>),
      async_events = (\<lambda>_. \<lparr>target_id = 0, ev_notify_bits = 0, event_data = 0, ev_next = 0\<rparr>),
      notification_async_table = event_table 0, notification_async_queue_head = 0,
      notification_async_queue_tail = 0, notification_async_queue_count = 0, notification_async_posted = 0,
      notification_async_delivered = 0, notification_async_dropped = 0, notification_async_batches = 0,
      notification_async_reschedules = 0, ipsr = 0,
      masks = (\<lambda>_. \<lparr>nm_id = 0, current_flags = 0, waiter_ids = replicate 8 0, waiter_masks = replicate 8 0,
        nm_notify_bits = replicate 8 0, waiter_options = replicate 8 0, num_waiters = 0, nm_flags = 0, nm_name = 0\<rparr>),
      notification_mask_id_counter = 1, notification_mask_created = 0, notification_mask_deleted = 0,
      notification_mask_sets = 0, notification_mask_clears = 0, notification_mask_waits = 0,
      notification_mask_unwaits = 0, notification_mask_notifications = 0\<rparr>"

definition five_events :: nstate where
  "five_events = nboot\<lparr>
     async_events := (\<lambda>p. \<lparr>target_id = TID_TO_GLOBALID 300, ev_notify_bits = 1, event_data = p,
       ev_next = if p = 0x20008040 then 0 else p + 16\<rparr>),
     notification_async_table := event_table 31, notification_async_queue_head := 0x20008000,
     notification_async_queue_tail := 0x20008040, notification_async_queue_count := 5\<rparr>"

abbreviation (input) five_ptrs :: "ptr list" where
  "five_ptrs \<equiv> [0x20008000, 0x20008010, 0x20008020, 0x20008030, 0x20008040]"

lemma nboot_sel [simp]:
  "kernel nboot = 4096" "notification_async_table nboot = event_table 0" "notification_async_queue_head nboot = 0"
  "notification_async_queue_tail nboot = 0" "notification_async_queue_count nboot = 0"
  "tcbs nboot = (\<lambda>_. tcb0)(8192 := tcb0\<lparr>t_globalid := TID_TO_GLOBALID 300\<rparr>)"
  "thread_map nboot = (\<lambda>_. 8192)" "thread_count nboot = 1" "ready_queue nboot = (\<lambda>_. NULL)" "ready_bitmap nboot = 0"
  "softirq nboot = (\<lambda>i. \<lparr>sq_schedule = if i = NOTIFICATION_SOFTIRQ then 1 else 0,
        sq_handler = if i = NOTIFICATION_SOFTIRQ then NOTIFICATION_ASYNC_HANDLER else NO_HANDLER\<rparr>)"
  by (simp_all add: nboot_def tstate.defs boot_def)

lemma event_table_wf: "kt_wf (event_table b)" "knum (event_table b) = 32" "kt_used (event_table 0) = {}"
  by (simp_all add: kt_wf_def event_table_def kt_used_def bm_bit_def)

lemma nboot_rep: "aq_rep nboot [] {}"
  by (simp add: aq_rep_def event_table_wf)

lemma event_table_used: "kt_used (event_table 31) = set five_ptrs"
proof -
  have m: "(31 :: u32) = mask 5" by (simp add: mask_eq_exp_minus_1)
  have "i < 32 \<and> bit ([31 :: u32] ! (i div 32)) (i mod 32) \<longleftrightarrow> i \<in> {0, 1, 2, 3, 4}" for i
    unfolding m by (cases "i < 32") (auto simp: bit_mask_iff)
  then have "{i. i < knum (event_table 31) \<and> bm_bit (kbitmap (event_table 31)) i} = {0, 1, 2, 3, 4}"
    unfolding event_table_def bm_bit_def by (intro set_eqI) simp
  then have "kt_used (event_table 31) = kt_elem (event_table 31) ` {0, 1, 2, 3, 4}" by (simp add: kt_used_def)
  then show ?thesis by (simp add: kt_elem_def event_table_def)
qed

lemma five_events_rep: "aq_rep five_events five_ptrs {}"
  using event_table_used by (simp add: aq_rep_def five_events_def event_table_wf)

lemma five_events_kernel: "kernel five_events = 4096"
  by (simp add: five_events_def)

lemma five_events_live: "ev_live five_events p"
  by (simp add: ev_live_def five_events_def thread_by_globalid_def thread_map_search_def map_search_loop.simps
      tid_of_def tid_roundtrip)

theorem notification_post_appends_witness:
  "\<exists>p s'. notification_post 8192 6 7 nboot = Ok (0, s') \<and> aq_rep s' [p] {} \<and>
     event_of (async_events s' p) = (TID_TO_GLOBALID 300, 6, 7)"
proof -
  have "kt_used (event_table 0) \<noteq> kt_slots (event_table 0)"
    using card_kt_slots [OF event_table_wf(1), of 0] by (auto simp: event_table_wf)
  then show ?thesis using notification_post_appends [OF nboot_rep, of 8192 6 7] by auto
qed


theorem softirq_execute_loses_reschedule_witness:
  "\<exists>s'. softirq_execute 1 (\<lambda>h. notification_async_handler) False five_events = Ok (True, s') \<and>
     aq_rep s' [0x20008040] {} \<and> \<not> softirq_pending s' \<and> state (tcbs s' 4096) = T_INACTIVE"
proof -
  have "batch_rest (ev_live five_events) 4 five_ptrs = [0x20008040]" by (simp add: five_events_live)
  moreover have "softirq five_events = (\<lambda>i. \<lparr>sq_schedule = if i = NOTIFICATION_SOFTIRQ then 1 else 0,
      sq_handler = if i = NOTIFICATION_SOFTIRQ then NOTIFICATION_ASYNC_HANDLER else NO_HANDLER\<rparr>)"
    by (simp add: five_events_def)
  ultimately show ?thesis
    using softirq_execute_loses_reschedule [OF five_events_rep, of "\<lambda>h. notification_async_handler"
        "\<lambda>i. if i = NOTIFICATION_SOFTIRQ then NOTIFICATION_ASYNC_HANDLER else NO_HANDLER" 0]
    by (simp add: five_events_kernel)
qed

end
