(* ===== verification/Ktimer.thy ===== *)
theory Ktimer
  imports Notification
begin

text \<open>
  The kernel timer, \<^verbatim>\<open>kernel/ktimer.c\<close>: a queue of events ordered by expiry in which every event stores the
  distance to its predecessor, the tick handler that counts the first distance down, and the soft interrupt
  that runs the expired events and delivers their notifications, coalesced per thread. Event handlers are
  function pointers: names here, with their meaning as the argument \<open>kcall\<close>. Walks along the queue take
  fuel; \<open>KT_FUEL\<close> is one more than the \<open>CONFIG_MAX_KT_EVENTS\<close> elements of the event table. The SysTick
  registers are fields of the state; values read from the running counter are arguments.
\<close>

subsection \<open>State\<close>

datatype ktimer_handler_t = KH_NULL | KH_NOTIFY | KH_IPC_TIMEOUT | KH_IPC_DELIVER

record ktimer_event_t =
  kte_next :: ptr
  kte_handler :: ktimer_handler_t
  kte_delta :: u32
  kte_data :: u32
  kte_notify_thread :: ptr
  kte_notify_bits :: u32
  kte_deadline :: u64

record ktimer_coalesce_entry_t =
  ce_thread :: ptr
  ce_bits :: u32

record ktstate = nstate +
  kt_events :: "ptr \<Rightarrow> ktimer_event_t"
  ktimer_event_table :: ktable
  event_queue :: ptr
  coalesce_cache :: "ktimer_coalesce_entry_t list"
  coalesce_count :: nat
  coalesce_active :: bool
  ktimer_now :: u64
  ktimer_enabled :: u32
  ktimer_delta :: u32
  ktimer_time :: u64
  systick_reload :: u32
  systick_val :: u32
  systick_ctl :: u32

abbreviation (input) CONFIG_MAX_KT_EVENTS :: nat where "CONFIG_MAX_KT_EVENTS \<equiv> 64"
abbreviation (input) CONFIG_KTIMER_HEARTBEAT :: u32 where "CONFIG_KTIMER_HEARTBEAT \<equiv> 65536"
abbreviation (input) CONFIG_KTIMER_MINTICKS :: int where "CONFIG_KTIMER_MINTICKS \<equiv> 128"
abbreviation (input) KTIMER_COALESCE_CACHE_SIZE :: nat where "KTIMER_COALESCE_CACHE_SIZE \<equiv> 8"
abbreviation (input) SYSTICK_MAXRELOAD :: u32 where "SYSTICK_MAXRELOAD \<equiv> 0x00ffffff"

definition KT_FUEL :: nat where "KT_FUEL = 65"

definition kte_upd :: "ptr \<Rightarrow> (ktimer_event_t \<Rightarrow> ktimer_event_t) \<Rightarrow> 'z ktstate_scheme \<Rightarrow> 'z ktstate_scheme" where
  "kte_upd p f s = s\<lparr>kt_events := (kt_events s)(p := f (kt_events s p))\<rparr>"

subsection \<open>The counter\<close>

definition init_systick :: "u32 \<Rightarrow> u32 \<Rightarrow> 'z ktstate_scheme \<Rightarrow> 'z ktstate_scheme" where
  "init_systick tick_reload tick_next_reload s =
     (let s = s\<lparr>systick_reload := tick_reload - 1, systick_val := 0, systick_ctl := 7\<rparr>
      in if tick_next_reload \<noteq> 0 then s\<lparr>systick_reload := tick_next_reload - 1\<rparr> else s)"

definition systick_disable :: "'z ktstate_scheme \<Rightarrow> 'z ktstate_scheme" where
  "systick_disable s = s\<lparr>systick_ctl := 0\<rparr>"

definition ktimer_get_now :: "'z ktstate_scheme \<Rightarrow> u64" where
  "ktimer_get_now s = ktimer_now s"

definition ktimer_init :: "'z ktstate_scheme \<Rightarrow> 'z ktstate_scheme" where
  "ktimer_init s = init_systick CONFIG_KTIMER_HEARTBEAT 0 s"

definition ktimer_disable :: "'z ktstate_scheme \<Rightarrow> 'z ktstate_scheme" where
  "ktimer_disable s = (if ktimer_enabled s \<noteq> 0 then s\<lparr>ktimer_enabled := 0\<rparr> else s)"

definition ktimer_enable :: "u32 \<Rightarrow> 'z ktstate_scheme \<Rightarrow> 'z ktstate_scheme" where
  "ktimer_enable delta s = s\<lparr>ktimer_delta := delta, ktimer_time := 0, ktimer_enabled := 1\<rparr>"

text \<open>\<open>__ktimer_handler\<close>, the SysTick interrupt.\<close>

definition ktimer_handler :: "'z ktstate_scheme \<Rightarrow> 'z ktstate_scheme result" where
  "ktimer_handler s =
     (let s = s\<lparr>ktimer_now := ktimer_now s + 1\<rparr> in
      if ktimer_enabled s \<noteq> 0 \<and> ktimer_delta s > 0 then
        let s = s\<lparr>ktimer_time := ktimer_time s + 1, ktimer_delta := ktimer_delta s - 1\<rparr>
        in if ktimer_delta s = 0
           then softirq_schedule KTE_SOFTIRQ (s\<lparr>ktimer_enabled := 0, ktimer_time := 0, ktimer_delta := 0\<rparr>)
           else Ok s
      else Ok s)"

subsection \<open>The event queue\<close>

definition ktimer_event_recalc :: "ptr \<Rightarrow> u32 \<Rightarrow> 'z ktstate_scheme \<Rightarrow> 'z ktstate_scheme" where
  "ktimer_event_recalc event new_delta s =
     (if event \<noteq> NULL then kte_upd event (\<lambda>e. e\<lparr>kte_delta := kte_delta e - new_delta\<rparr>) s else s)"

text \<open>The search for the place of an event that expires at \<open>ticks\<close>: the event to insert behind, the distance
  to it and its successor.\<close>

fun sched_walk :: "nat \<Rightarrow> u32 \<Rightarrow> ptr \<Rightarrow> u32 \<Rightarrow> 'z ktstate_scheme \<Rightarrow> (ptr \<times> u32 \<times> ptr) result" where
  "sched_walk 0 ticks next_event etime s = Fault (Diverges ''ktimer_event_schedule'')"
| "sched_walk (Suc n) ticks next_event etime s =
     (let event = next_event;
          etime = etime + kte_delta (kt_events s event);
          delta = ticks - etime;
          next_event = kte_next (kt_events s event)
      in if next_event \<noteq> NULL \<and> ticks > etime + kte_delta (kt_events s next_event)
         then sched_walk n ticks next_event etime s
         else Ok (event, delta, next_event))"

text \<open>Linking the event in: distances below the minimum become 0.\<close>

definition chain_event :: "ptr \<Rightarrow> ptr \<Rightarrow> u32 \<Rightarrow> 'z ktstate_scheme \<Rightarrow> 'z ktstate_scheme" where
  "chain_event kte next_event delta s =
     (let delta = (if sint delta < CONFIG_KTIMER_MINTICKS then 0 else delta);
          s = kte_upd kte (\<lambda>e. e\<lparr>kte_next := next_event, kte_delta := delta\<rparr>) s
      in ktimer_event_recalc next_event delta s)"

definition adjust_ticks :: "u32 \<Rightarrow> u64 \<Rightarrow> u32" where
  "adjust_ticks ticks elapsed = (if ticks \<le> ucast elapsed then 1 else ticks - ucast elapsed)"

definition ktimer_event_schedule :: "u32 \<Rightarrow> ptr \<Rightarrow> 'z ktstate_scheme \<Rightarrow> (int \<times> 'z ktstate_scheme) result" where
  "ktimer_event_schedule ticks kte s =
     (if ticks = 0 then Ok (-1, s)
      else
        let ticks = adjust_ticks ticks (ktimer_time s);
            s = kte_upd kte (kte_next_update (\<lambda>_. NULL)) s
        in if event_queue s = NULL then
             let s = kte_upd kte (kte_delta_update (\<lambda>_. ticks)) s
             in Ok (0, ktimer_enable ticks (s\<lparr>event_queue := kte\<rparr>))
           else if ticks \<ge> kte_delta (kt_events s (event_queue s)) then
             rbind (sched_walk KT_FUEL ticks (event_queue s) 0 s) (\<lambda>(event, delta, next_event).
             let s = kte_upd event (kte_next_update (\<lambda>_. kte)) s
             in Ok (0, chain_event kte next_event delta s))
           else
             let next_event = event_queue s;
                 s = ktimer_enable ticks (s\<lparr>event_queue := kte\<rparr>)
             in Ok (0, chain_event kte next_event ticks s))"

definition kt_free :: "ptr \<Rightarrow> 'z ktstate_scheme \<Rightarrow> 'z ktstate_scheme" where
  "kt_free kte s = s\<lparr>ktimer_event_table := ktable_free (ktimer_event_table s) kte\<rparr>"

definition ktimer_event_create :: "u32 \<Rightarrow> ktimer_handler_t \<Rightarrow> u32 \<Rightarrow> 'z ktstate_scheme \<Rightarrow> (ptr \<times> 'z ktstate_scheme) result" where
  "ktimer_event_create ticks hdl dat s =
     (if hdl = KH_NULL then Ok (NULL, s)
      else
        case ktable_alloc (ktimer_event_table s) of (kte, kt) \<Rightarrow>
          let s = s\<lparr>ktimer_event_table := kt\<rparr> in
          if kte = NULL then Ok (NULL, s)
          else
            let s = kte_upd kte (\<lambda>e. e\<lparr>kte_next := NULL, kte_handler := hdl, kte_data := dat,
                      kte_notify_thread := NULL, kte_notify_bits := 0, kte_deadline := 0\<rparr>) s
            in rbind (ktimer_event_schedule ticks kte s) (\<lambda>(r, s).
               if r = -1 then Ok (NULL, kt_free kte s) else Ok (kte, s)))"

definition ktimer_event_create_notify ::
    "u32 \<Rightarrow> ptr \<Rightarrow> u32 \<Rightarrow> bool \<Rightarrow> 'z ktstate_scheme \<Rightarrow> (ptr \<times> 'z ktstate_scheme) result" where
  "ktimer_event_create_notify ticks thread bits periodic s =
     (if thread = NULL \<or> bits = 0 then Ok (NULL, s)
      else
        case ktable_alloc (ktimer_event_table s) of (kte, kt) \<Rightarrow>
          let s = s\<lparr>ktimer_event_table := kt\<rparr> in
          if kte = NULL then Ok (NULL, s)
          else
            let s = kte_upd kte (\<lambda>e. e\<lparr>kte_next := NULL, kte_handler := KH_NOTIFY,
                      kte_data := (if periodic then ticks else 0), kte_notify_thread := thread,
                      kte_notify_bits := bits,
                      kte_deadline := (if periodic then ktimer_now s + ucast ticks else 0)\<rparr>) s
            in rbind (ktimer_event_schedule ticks kte s) (\<lambda>(r, s).
               if r = -1 then Ok (NULL, kt_free kte s) else Ok (kte, s)))"

subsection \<open>Expiry\<close>

text \<open>Index of a thread among the first \<open>n\<close> entries of the coalescing cache.\<close>

fun cache_index :: "ptr \<Rightarrow> ktimer_coalesce_entry_t list \<Rightarrow> nat \<Rightarrow> nat \<Rightarrow> nat option" where
  "cache_index t cache i 0 = None"
| "cache_index t cache i (Suc n) =
     (if ce_thread (cache ! i) = t then Some i else cache_index t cache (Suc i) n)"

definition coalesce_notify :: "ptr \<Rightarrow> u32 \<Rightarrow> 'z ktstate_scheme \<Rightarrow> 'z ktstate_scheme result" where
  "coalesce_notify thread bits s =
     (case cache_index thread (coalesce_cache s) 0 (coalesce_count s) of
        Some i \<Rightarrow> Ok (s\<lparr>coalesce_cache :=
          (coalesce_cache s)[i := (coalesce_cache s ! i)\<lparr>ce_bits := ce_bits (coalesce_cache s ! i) OR bits\<rparr>]\<rparr>)
      | None \<Rightarrow>
          if coalesce_count s < KTIMER_COALESCE_CACHE_SIZE
          then Ok (s\<lparr>coalesce_cache := (coalesce_cache s)[coalesce_count s := \<lparr>ce_thread = thread, ce_bits = bits\<rparr>],
                     coalesce_count := coalesce_count s + 1\<rparr>)
          else rbind (notification_post_softirq thread bits s) (\<lambda>(_, s). Ok s))"

definition ktimer_notify_handler :: "ptr \<Rightarrow> 'z ktstate_scheme \<Rightarrow> (u32 \<times> 'z ktstate_scheme) result" where
  "ktimer_notify_handler kte s =
     (if kte = NULL \<or> kte_notify_thread (kt_events s kte) = NULL then Ok (0, s)
      else
        let thread = kte_notify_thread (kt_events s kte); bits = kte_notify_bits (kt_events s kte) in
        rbind (if coalesce_active s then coalesce_notify thread bits s
               else rbind (notification_post_softirq thread bits s) (\<lambda>(r, s).
                    if r < 0 then rbind (notification_post thread bits (ucast (ktimer_now s)) s) (\<lambda>(_, s). Ok s)
                    else Ok s)) (\<lambda>s.
        if kte_deadline (kt_events s kte) > 0 then
          let s = kte_upd kte (\<lambda>e. e\<lparr>kte_deadline := kte_deadline e + ucast (kte_data e)\<rparr>) s;
              deadline = kte_deadline (kt_events s kte)
          in Ok (if deadline > ktimer_now s then ucast (deadline - ktimer_now s) else 1, s)
        else Ok (0, s)))"

text \<open>The end of the chain of events that expire now: the first event with a distance behind the head.\<close>

fun batch_end :: "nat \<Rightarrow> ptr \<Rightarrow> 'z ktstate_scheme \<Rightarrow> ptr result" where
  "batch_end 0 event s = Fault (Diverges ''ktimer_event_handler'')"
| "batch_end (Suc n) event s =
     (let event = kte_next (kt_events s event)
      in if event \<noteq> NULL \<and> kte_delta (kt_events s event) = 0 then batch_end n event s else Ok event)"

fun run_events :: "nat \<Rightarrow> (ktimer_handler_t \<Rightarrow> ptr \<Rightarrow> 'z ktstate_scheme \<Rightarrow> (u32 \<times> 'z ktstate_scheme) result) \<Rightarrow>
    ptr \<Rightarrow> ptr \<Rightarrow> 'z ktstate_scheme \<Rightarrow> 'z ktstate_scheme result" where
  "run_events 0 kcall event last_event s = Fault (Diverges ''ktimer_event_handler'')"
| "run_events (Suc n) kcall event last_event s =
     rbind (kcall (kte_handler (kt_events s event)) event s) (\<lambda>(h_retvalue, s).
     let next_event = kte_next (kt_events s event) in
     rbind (if h_retvalue \<noteq> 0 then rbind (ktimer_event_schedule h_retvalue event s) (\<lambda>(_, s). Ok s)
            else Ok (kt_free event s)) (\<lambda>s.
     if next_event \<noteq> NULL \<and> next_event \<noteq> last_event then run_events n kcall next_event last_event s
     else Ok s))"

definition flush_entry :: "nat \<Rightarrow> 'z ktstate_scheme \<Rightarrow> 'z ktstate_scheme result" where
  "flush_entry i s =
     rbind (notification_post_softirq (ce_thread (coalesce_cache s ! i)) (ce_bits (coalesce_cache s ! i)) s) (\<lambda>(_, s).
     Ok (s\<lparr>coalesce_cache := (coalesce_cache s)[i := \<lparr>ce_thread = NULL, ce_bits = 0\<rparr>]\<rparr>))"

definition ktimer_event_handler ::
    "(ktimer_handler_t \<Rightarrow> ptr \<Rightarrow> 'z ktstate_scheme \<Rightarrow> (u32 \<times> 'z ktstate_scheme) result) \<Rightarrow>
     'z ktstate_scheme \<Rightarrow> 'z ktstate_scheme result" where
  "ktimer_event_handler kcall s =
     (if event_queue s = NULL then Ok (ktimer_disable s)
      else
        let s = s\<lparr>coalesce_active := True, coalesce_count := 0\<rparr> in
        rbind (batch_end KT_FUEL (event_queue s) s) (\<lambda>last_event.
        let event = event_queue s; s = s\<lparr>event_queue := last_event\<rparr> in
        rbind (run_events KT_FUEL kcall event last_event s) (\<lambda>s.
        rbind (rfold flush_entry [0..<coalesce_count s] s) (\<lambda>s.
        let s = s\<lparr>coalesce_active := False, coalesce_count := 0\<rparr>
        in Ok (if event_queue s \<noteq> NULL
               then ktimer_enable (kte_delta (kt_events s (event_queue s))) s else s)))))"

definition ktimer_event_init :: "'z ktstate_scheme \<Rightarrow> 'z ktstate_scheme" where
  "ktimer_event_init s =
     softirq_register KTE_SOFTIRQ KTIMER_EVENT_HANDLER
       (ktimer_init (s\<lparr>ktimer_event_table := ktable_init (ktimer_event_table s)\<rparr>))"

subsection \<open>Tickless idle\<close>

abbreviation (input) KTIMER_MAXTICKS :: u32 where "KTIMER_MAXTICKS \<equiv> SYSTICK_MAXRELOAD div CONFIG_KTIMER_HEARTBEAT"

text \<open>The counter is read before the sleep (\<open>now0\<close>) and twice after it (\<open>now1\<close>, \<open>now2\<close>);
  \<open>wrapped\<close> is the count flag. The test \<open>reload < 0\<close> of the source is on an unsigned variable and never
  true.\<close>

definition ktimer_enter_tickless ::
    "u32 \<Rightarrow> u32 \<Rightarrow> u32 \<Rightarrow> u32 \<Rightarrow> u32 \<Rightarrow> bool \<Rightarrow> 'z ktstate_scheme \<Rightarrow> 'z ktstate_scheme" where
  "ktimer_enter_tickless compensation int_compensation now0 now1 now2 wrapped s =
     (let tickless_delta = (if ktimer_enabled s \<noteq> 0 \<and> ktimer_delta s \<le> KTIMER_MAXTICKS
                            then ktimer_delta s else KTIMER_MAXTICKS);
          tickless_delta = tickless_delta - 1;
          reload = CONFIG_KTIMER_HEARTBEAT * tickless_delta;
          reload = reload + (now0 - compensation);
          s = (if reload > 2 then init_systick reload CONFIG_KTIMER_HEARTBEAT s else s);
          (tickless_delta, s) =
            (if \<not> wrapped then
               let tickless_rest = now1 div CONFIG_KTIMER_HEARTBEAT in
               if tickless_rest > 0 then
                 (tickless_delta - tickless_rest,
                  init_systick (now2 mod CONFIG_KTIMER_HEARTBEAT - int_compensation) CONFIG_KTIMER_HEARTBEAT s)
               else (tickless_delta, s)
             else (tickless_delta, s))
      in s\<lparr>ktimer_time := ktimer_time s + ucast tickless_delta,
            ktimer_delta := ktimer_delta s - tickless_delta,
            ktimer_now := ktimer_now s + ucast tickless_delta\<rparr>)"

subsection \<open>The queue as a list of expiry times\<close>

abbreviation kt_nx :: "'z ktstate_scheme \<Rightarrow> ptr \<Rightarrow> ptr" where
  "kt_nx s \<equiv> \<lambda>p. kte_next (kt_events s p)"

definition deltas :: "'z ktstate_scheme \<Rightarrow> ptr list \<Rightarrow> nat list" where
  "deltas s ps = map (\<lambda>p. unat (kte_delta (kt_events s p))) ps"

fun cums :: "nat \<Rightarrow> nat list \<Rightarrow> nat list" where
  "cums a [] = []"
| "cums a (d # ds) = (a + d) # cums (a + d) ds"

text \<open>Expiry times, counted from the last start of the timer.\<close>

definition times :: "'z ktstate_scheme \<Rightarrow> ptr list \<Rightarrow> nat list" where
  "times s ps = cums 0 (deltas s ps)"

definition kq_rep :: "'z ktstate_scheme \<Rightarrow> ptr list \<Rightarrow> bool" where
  "kq_rep s ps \<longleftrightarrow> slist (kt_nx s) (event_queue s) ps \<and> length ps \<le> CONFIG_MAX_KT_EVENTS"

lemma deltas_simps [simp]:
  "deltas s [] = []" "deltas s (p # ps) = unat (kte_delta (kt_events s p)) # deltas s ps"
  "deltas s (ps @ qs) = deltas s ps @ deltas s qs" "length (deltas s ps) = length ps"
  by (simp_all add: deltas_def)

lemma deltas_cong: "(\<And>p. p \<in> set ps \<Longrightarrow> kte_delta (kt_events s' p) = kte_delta (kt_events s p)) \<Longrightarrow> deltas s' ps = deltas s ps"
  by (simp add: deltas_def)

lemma cums_append: "cums a (xs @ ys) = cums a xs @ cums (a + sum_list xs) ys"
  by (induction xs arbitrary: a) (simp_all add: add.assoc)

lemma length_cums [simp]: "length (cums a ds) = length ds"
  by (induction ds arbitrary: a) simp_all

lemma cums_ge: "x \<in> set (cums a ds) \<Longrightarrow> a \<le> x"
  by (induction ds arbitrary: a) (auto intro: order_trans [OF le_add1])

lemma cums_sorted: "sorted (cums a ds)"
  by (induction ds arbitrary: a) (auto dest: cums_ge)

text \<open>Inserting an element of distance \<open>d\<close> and shortening its successor by \<open>d\<close> moves nobody else.\<close>

lemma cums_insert:
  assumes "ys = [] \<or> d \<le> hd ys"
  shows "cums a (xs @ d # (case ys of [] \<Rightarrow> [] | y # ys \<Rightarrow> (y - d) # ys)) =
    take (length xs) (cums a (xs @ ys)) @ (a + sum_list xs + d) # drop (length xs) (cums a (xs @ ys))"
  using assms by (cases ys) (simp_all add: cums_append add.assoc)

lemma u32_sum_unat: "unat (a :: u32) + unat b < 2 ^ 32 \<Longrightarrow> unat (a + b) = unat a + unat b"
  by (simp add: unat_word_ariths take_bit_nat_eq_self unsigned_of_nat)

lemma u32_sub_unat: "unat (b :: u32) \<le> unat a \<Longrightarrow> unat (a - b) = unat a - unat b"
  by (simp add: unat_sub word_le_nat_alt)

lemma sched_walk_spec:
  assumes "slist (kt_nx s) p (p # ps)" "length ps < n"
    "unat et + sum_list (deltas s (p # ps)) < 2 ^ 32" "unat et + unat (kte_delta (kt_events s p)) \<le> unat ticks"
  shows "\<exists>xs e ys E. p # ps = xs @ e # ys \<and> E = unat et + sum_list (deltas s (xs @ [e])) \<and> E \<le> unat ticks \<and>
    sched_walk n ticks p et s = Ok (e, ticks - of_nat E, if ys = [] then NULL else hd ys) \<and>
    (ys \<noteq> [] \<longrightarrow> unat ticks \<le> E + unat (kte_delta (kt_events s (hd ys))))"
  using assms
proof (induction ps arbitrary: p et n)
  case Nil
  then obtain m where n: "n = Suc m" by (cases n) auto
  have "kte_next (kt_events s p) = NULL" using Nil.prems(1) by simp
  moreover have "of_nat (unat et + unat (kte_delta (kt_events s p))) = et + kte_delta (kt_events s p)" by simp
  ultimately show ?case using Nil.prems(4)
    by (intro exI [of _ "[]"] exI [of _ p]) (simp add: n Let_def)
next
  case (Cons q ps)
  then obtain m where n: "n = Suc m" by (cases n) auto
  let ?d = "kte_delta (kt_events s p)" and ?dq = "kte_delta (kt_events s q)"
  have q: "kte_next (kt_events s p) = q" "q \<noteq> NULL" "slist (kt_nx s) q (q # ps)" using Cons.prems(1) by auto
  have u: "unat (et + ?d) = unat et + unat ?d" using Cons.prems(3) by (intro u32_sum_unat) simp
  have uq: "unat (et + ?d + ?dq) = unat et + unat ?d + unat ?dq"
    using u32_sum_unat [of "et + ?d" ?dq] Cons.prems(3) u by simp
  show ?case
  proof (cases "ticks > et + ?d + ?dq")
    case True
    then have le: "unat (et + ?d) + unat ?dq \<le> unat ticks" using uq u by (simp add: word_less_nat_alt)
    have "length ps < m" "unat (et + ?d) + sum_list (deltas s (q # ps)) < 2 ^ 32"
      using Cons.prems(2,3) n u by simp_all
    from Cons.IH [OF q(3) this le] obtain xs e ys E where r: "q # ps = xs @ e # ys"
        "E = unat (et + ?d) + sum_list (deltas s (xs @ [e]))" "E \<le> unat ticks"
        "sched_walk m ticks q (et + ?d) s = Ok (e, ticks - of_nat E, if ys = [] then NULL else hd ys)"
        "ys \<noteq> [] \<longrightarrow> unat ticks \<le> E + unat (kte_delta (kt_events s (hd ys)))"
      by blast
    have "sched_walk n ticks p et s = sched_walk m ticks q (et + ?d) s" using True q by (simp add: n Let_def)
    then show ?thesis using r u by (intro exI [of _ "p # xs"] exI [of _ e] exI [of _ ys] exI [of _ E]) simp
  next
    case False
    have "sched_walk n ticks p et s = Ok (p, ticks - (et + ?d), q)" using False q by (simp add: n Let_def)
    moreover have "of_nat (unat et + unat ?d) = et + ?d" by simp
    moreover have "unat ticks \<le> unat et + unat ?d + unat ?dq" using False uq by (simp add: word_less_nat_alt)
    ultimately show ?thesis
      using Cons.prems(4) q(2) by (intro exI [of _ "[]"] exI [of _ p] exI [of _ "q # ps"]) simp
  qed
qed


definition clamp_delta :: "nat \<Rightarrow> nat" where
  "clamp_delta d = (if d < 128 then 0 else d)"

lemma unat_clamp:
  assumes "unat (d :: u32) < 2 ^ 31"
  shows "unat (if sint d < 128 then 0 else d) = clamp_delta (unat d)"
proof -
  have "int (unat d) < int (2 ^ 31)" using assms by (simp only: of_nat_less_iff)
  then have hi: "uint d < 2 ^ 31" by (simp only: uint_nat of_nat_power of_nat_numeral)
  have lo: "- (2 ^ 31) \<le> uint d" by (rule order_trans [OF _ uint_ge_0]) simp
  have "signed_take_bit 31 (uint d) = uint d" by (rule signed_take_bit_int_eq_self [OF lo hi])
  then have "sint d = uint d" by (simp add: sint_uint)
  then have "sint d < 128 \<longleftrightarrow> unat d < 128" by (simp only: uint_nat of_nat_less_numeral_iff)
  then show ?thesis by (simp add: clamp_delta_def)
qed

lemma chain_event_spec:
  assumes k: "kte \<noteq> NULL" "kte \<notin> set xs" "kte \<notin> set ys" and dis: "distinct (xs @ ys)"
    and xs: "lseg (kt_nx s) h xs kte" and ys: "slist (kt_nx s) n ys"
    and d: "unat d < 2 ^ 31" "ys \<noteq> [] \<longrightarrow> unat d \<le> unat (kte_delta (kt_events s (hd ys)))"
  defines "s' \<equiv> chain_event kte n d s" and "c \<equiv> clamp_delta (unat d)"
  shows "slist (kt_nx s') h (xs @ kte # ys)"
    "deltas s' (xs @ kte # ys) = deltas s xs @ c # (case deltas s ys of [] \<Rightarrow> [] | y # r \<Rightarrow> (y - c) # r)"
    "event_queue s' = event_queue s"
proof -
  have n: "n = (if ys = [] then NULL else hd ys)" using ys by (rule slist_hd)
  define w where "w = (if sint d < 128 then 0 else d)"
  have w: "unat w = c" unfolding w_def c_def by (rule unat_clamp [OF d(1)])
  have c: "c \<le> unat d" by (simp add: c_def clamp_delta_def)
  have ev: "kt_events s' = (let f = (kt_events s)(kte := (kt_events s kte)\<lparr>kte_next := n, kte_delta := w\<rparr>)
      in if n \<noteq> NULL then f(n := (f n)\<lparr>kte_delta := kte_delta (f n) - w\<rparr>) else f)"
    by (simp add: s'_def chain_event_def ktimer_event_recalc_def kte_upd_def Let_def w_def)
  have nk: "n \<noteq> kte" using n k by (cases ys) auto
  have nx: "kt_nx s' p = (if p = kte then n else kt_nx s p)" for p
    using nk by (simp add: ev Let_def)
  have dl: "kte_delta (kt_events s' p) = (if p = kte then w else if p = n \<and> n \<noteq> NULL then kte_delta (kt_events s p) - w
      else kte_delta (kt_events s p))" for p
    using nk by (simp add: ev Let_def)
  have "lseg (kt_nx s') h xs kte" using xs k nx by (subst lseg_cong [of xs _ "kt_nx s"]) auto
  moreover have "slist (kt_nx s') n ys" using ys k nx by (subst lseg_cong [of ys _ "kt_nx s"]) auto
  ultimately show "slist (kt_nx s') h (xs @ kte # ys)" using k nx [of kte] by (auto simp: lseg_append)
  have "deltas s' xs = deltas s xs"
  proof (rule deltas_cong)
    fix p assume p: "p \<in> set xs"
    then have "p \<noteq> kte" "p \<notin> set ys" using k dis by auto
    moreover have "n \<noteq> NULL \<Longrightarrow> n \<in> set ys" using n by (cases ys) auto
    ultimately show "kte_delta (kt_events s' p) = kte_delta (kt_events s p)" unfolding dl by auto
  qed
  moreover have "deltas s' ys = (case deltas s ys of [] \<Rightarrow> [] | y # r \<Rightarrow> (y - c) # r)"
  proof (cases ys)
    case (Cons y r)
    have y: "y = n" "n \<noteq> NULL" "y \<noteq> kte" using n Cons ys k by auto
    have "unat (kte_delta (kt_events s y) - w) = unat (kte_delta (kt_events s y)) - c"
      using u32_sub_unat [of w "kte_delta (kt_events s y)"] w c d(2) Cons by simp
    moreover have "deltas s' r = deltas s r"
      using k dis Cons y by (intro deltas_cong) (auto simp: dl)
    ultimately show ?thesis using y by (simp add: Cons dl)
  qed simp
  ultimately show "deltas s' (xs @ kte # ys) =
      deltas s xs @ c # (case deltas s ys of [] \<Rightarrow> [] | y # r \<Rightarrow> (y - c) # r)"
    by (simp add: dl w)
  show "event_queue s' = event_queue s"
    by (simp add: s'_def chain_event_def ktimer_event_recalc_def kte_upd_def Let_def)
qed

lemma times_insert:
  assumes "deltas s' (xs @ kte # ys) = deltas s xs @ c # (case deltas s ys of [] \<Rightarrow> [] | y # r \<Rightarrow> (y - c) # r)"
    and "ys \<noteq> [] \<longrightarrow> c \<le> unat (kte_delta (kt_events s (hd ys)))"
  shows "times s' (xs @ kte # ys) = take (length xs) (times s (xs @ ys)) @
     (sum_list (deltas s xs) + c) # drop (length xs) (times s (xs @ ys))"
  using cums_insert [of "deltas s ys" c 0 "deltas s xs"] assms
  by (cases ys) (simp_all add: times_def)


lemma kte_upd_fresh:
  assumes "kte \<notin> set ps"
  shows "lseg (kt_nx (kte_upd kte f s)) p ps q = lseg (kt_nx s) p ps q" "deltas (kte_upd kte f s) ps = deltas s ps"
    "event_queue (kte_upd kte f s) = event_queue s"
  using assms by (auto simp: kte_upd_def intro!: lseg_cong deltas_cong)

text \<open>Expiry of a scheduled event: at most 127 ticks before the requested time \<open>t\<close>.\<close>

definition near :: "nat \<Rightarrow> nat \<Rightarrow> bool" where
  "near x t \<longleftrightarrow> x \<le> t \<and> t < x + 128"

lemma near_clamp: "e \<le> t \<Longrightarrow> near (e + clamp_delta (t - e)) t"
  by (auto simp: near_def clamp_delta_def)

lemma ktimer_event_schedule_rep:
  assumes rep: "kq_rep s ps" and room: "length ps < CONFIG_MAX_KT_EVENTS" and k: "kte \<noteq> NULL" "kte \<notin> set ps"
    and ticks: "ticks \<noteq> 0" and small: "sum_list (deltas s ps) < 2 ^ 31" "unat ticks < 2 ^ 31"
  defines "t \<equiv> unat (adjust_ticks ticks (ktimer_time s))"
  shows "\<exists>s' xs ys x. ktimer_event_schedule ticks kte s = Ok (0, s') \<and> ps = xs @ ys \<and> kq_rep s' (xs @ kte # ys) \<and>
    times s' (xs @ kte # ys) = take (length xs) (times s ps) @ x # drop (length xs) (times s ps) \<and>
    (if ps = [] then x = t else near x t) \<and>
    (xs = [] \<longrightarrow> ktimer_delta s' = adjust_ticks ticks (ktimer_time s) \<and> ktimer_enabled s' = 1 \<and> ktimer_time s' = 0)"
proof -
  define tk where "tk = adjust_ticks ticks (ktimer_time s)"
  have t: "t = unat tk" by (simp add: t_def tk_def)
  have "tk \<le> ticks"
  proof (cases "ticks \<le> ucast (ktimer_time s)")
    case True
    then show ?thesis using ticks by (simp add: tk_def adjust_ticks_def word_le_nat_alt unat_gt_0 Suc_le_eq)
  next
    case False
    then show ?thesis by (simp add: tk_def adjust_ticks_def word_le_nat_alt u32_sub_unat not_le)
  qed
  then have t31: "t < 2 ^ 31" using small(2) t by (simp add: word_le_nat_alt)
  define s0 where "s0 = kte_upd kte (kte_next_update (\<lambda>_. NULL)) s"
  have l0: "slist (kt_nx s0) (event_queue s) ps"
    using rep unfolding s0_def kte_upd_fresh(1) [OF k(2)] by (simp add: kq_rep_def)
  have d0: "deltas s0 ps = deltas s ps" unfolding s0_def by (rule kte_upd_fresh(2) [OF k(2)])
  have q0: "event_queue s0 = event_queue s" unfolding s0_def by (rule kte_upd_fresh(3) [OF k(2)])
  have dis: "distinct ps" by (rule slist_distinct [OF l0])
  show ?thesis
  proof (cases ps)
    case Nil
    define s' where "s' = ktimer_enable tk ((kte_upd kte (kte_delta_update (\<lambda>_. tk)) s0)\<lparr>event_queue := kte\<rparr>)"
    have "event_queue s = NULL" using l0 Nil by simp
    then have "ktimer_event_schedule ticks kte s = Ok (0, s')"
      using ticks q0 by (simp add: ktimer_event_schedule_def Let_def s'_def s0_def tk_def)
    moreover have "kq_rep s' [kte]" "times s' [kte] = [t]"
      using k by (simp_all add: kq_rep_def s'_def ktimer_enable_def kte_upd_def s0_def times_def t)
    ultimately show ?thesis
      using Nil by (intro exI [of _ s'] exI [of _ "[]"] exI [of _ "[]"] exI [of _ t])
        (simp add: s'_def ktimer_enable_def tk_def times_def)
  next
    case (Cons p qs)
    have p: "event_queue s0 = p" "p \<noteq> NULL" using l0 Cons q0 by auto
    show ?thesis
    proof (cases "tk \<ge> kte_delta (kt_events s0 p)")
      case False
      define s1 where "s1 = ktimer_enable tk (s0\<lparr>event_queue := kte\<rparr>)"
      define s' where "s' = chain_event kte p tk s1"
      have e: "ktimer_event_schedule ticks kte s = Ok (0, s')"
        using ticks p False by (simp add: ktimer_event_schedule_def Let_def s'_def s1_def s0_def tk_def)
      have ev1: "kt_events s1 = kt_events s0" by (simp add: s1_def ktimer_enable_def)
      then have ds1: "deltas s1 zs = deltas s0 zs" for zs by (simp add: deltas_def)
      have le: "t \<le> unat (kte_delta (kt_events s1 p))" using False t by (simp add: ev1 word_le_nat_alt)
      have sl: "slist (kt_nx s1) p ps" "lseg (kt_nx s1) kte [] kte" using l0 p q0 by (simp_all add: ev1)
      note c = chain_event_spec [of kte "[]" ps s1 kte p tk, OF k(1) _ k(2) _ sl(2,1), folded s'_def t]
      have c': "slist (kt_nx s') kte (kte # ps)" "event_queue s' = kte"
        "deltas s' ([] @ kte # ps) = deltas s1 [] @ clamp_delta t # (case deltas s1 ps of [] \<Rightarrow> [] | y # r \<Rightarrow> (y - clamp_delta t) # r)"
        using c dis t31 le Cons by (simp_all add: s1_def ktimer_enable_def)
      have "clamp_delta t \<le> t" by (simp add: clamp_delta_def)
      moreover have "times s1 ps = times s ps" using ds1 [of ps] d0 by (simp only: times_def)
      ultimately have tm: "times s' (kte # ps) = clamp_delta t # times s ps"
        using times_insert [OF c'(3)] le Cons by simp
      have "kq_rep s' (kte # ps)" using c'(1,2) room by (simp add: kq_rep_def)
      moreover have "ktimer_delta s' = tk \<and> ktimer_enabled s' = 1 \<and> ktimer_time s' = 0"
        by (simp add: s'_def chain_event_def ktimer_event_recalc_def kte_upd_def s1_def ktimer_enable_def Let_def)
      ultimately show ?thesis
        using e tm near_clamp [of 0 t] Cons
        by (intro exI [of _ s'] exI [of _ "[]"] exI [of _ ps] exI [of _ "clamp_delta t"]) (simp add: tk_def)
    next
      case True
      have len: "length qs < KT_FUEL" using room Cons by (simp add: KT_FUEL_def)
      have "unat (0 :: u32) + sum_list (deltas s0 (p # qs)) < 2 ^ 32"
        "unat (0 :: u32) + unat (kte_delta (kt_events s0 p)) \<le> unat tk"
        using small(1) d0 Cons True by (simp_all add: word_le_nat_alt)
      from sched_walk_spec [OF _ len this] obtain xs e ys E where w: "p # qs = xs @ e # ys"
          "E = sum_list (deltas s0 (xs @ [e]))" "E \<le> t"
          "sched_walk KT_FUEL tk p 0 s0 = Ok (e, tk - of_nat E, if ys = [] then NULL else hd ys)"
          "ys \<noteq> [] \<longrightarrow> t \<le> E + unat (kte_delta (kt_events s0 (hd ys)))"
        using l0 Cons p q0 t by auto
      have ue: "unat (tk - of_nat E) = t - E"
        using w(3) t31 u32_sub_unat [of "of_nat E" tk] by (simp add: u32_unat_of_nat t)
      define s1 where "s1 = kte_upd e (kte_next_update (\<lambda>_. kte)) s0"
      define s' where "s' = chain_event kte (if ys = [] then NULL else hd ys) (tk - of_nat E) s1"
      have e: "ktimer_event_schedule ticks kte s = Ok (0, s')"
        using ticks p True w(4) by (simp add: ktimer_event_schedule_def Let_def s'_def s1_def s0_def tk_def)
      have dl1: "kte_delta (kt_events s1 x) = kte_delta (kt_events s0 x)" for x by (simp add: s1_def kte_upd_def)
      then have ds1: "deltas s1 zs = deltas s0 zs" for zs by (simp add: deltas_def)
      have ps: "ps = (xs @ [e]) @ ys" using w(1) Cons by simp
      have eq: "event_queue s' = event_queue s" "e \<notin> set xs" "e \<notin> set ys" "e \<noteq> kte"
        using dis k(2) by (auto simp: ps s'_def chain_event_def ktimer_event_recalc_def kte_upd_def s1_def s0_def Let_def)
      have nx1: "kt_nx s1 = (kt_nx s0)(e := kte)" by (auto simp: s1_def kte_upd_def)
      have sl: "lseg (kt_nx s1) (event_queue s) (xs @ [e]) kte" "slist (kt_nx s1) (if ys = [] then NULL else hd ys) ys"
        using l0 eq(2,3) slist_hd [of "kt_nx s0" _ ys] unfolding ps nx1 by (auto simp: lseg_append)
      have le: "ys \<noteq> [] \<longrightarrow> t - E \<le> unat (kte_delta (kt_events s1 (hd ys)))" using w(5) dl1 by auto
      note c = chain_event_spec [of kte "xs @ [e]" ys s1, OF k(1) _ _ _ sl, of "tk - of_nat E", folded s'_def, unfolded ue]
      have c': "slist (kt_nx s') (event_queue s) ((xs @ [e]) @ kte # ys)"
        "deltas s' ((xs @ [e]) @ kte # ys) = deltas s1 (xs @ [e]) @ clamp_delta (t - E) #
          (case deltas s1 ys of [] \<Rightarrow> [] | y # r \<Rightarrow> (y - clamp_delta (t - E)) # r)"
        using c k(2) dis t31 le by (simp_all add: ps)
      have ts: "times s1 ps = times s ps" using ds1 [of ps] d0 by (simp only: times_def)
      have "clamp_delta (t - E) \<le> t - E" by (simp add: clamp_delta_def)
      then have "ys \<noteq> [] \<longrightarrow> clamp_delta (t - E) \<le> unat (kte_delta (kt_events s1 (hd ys)))" using le by auto
      then have tm: "times s' ((xs @ [e]) @ kte # ys) = take (length (xs @ [e])) (times s ps) @
          (E + clamp_delta (t - E)) # drop (length (xs @ [e])) (times s ps)"
        using times_insert [OF c'(2)] w(2) ds1 [of "xs @ [e]"] ts ps by simp
      have "kq_rep s' ((xs @ [e]) @ kte # ys)" using c'(1) eq(1) room ps by (simp add: kq_rep_def)
      then show ?thesis
        using e tm ps near_clamp [OF w(3)] Cons
        by (intro exI [of _ s'] exI [of _ "xs @ [e]"] exI [of _ ys] exI [of _ "E + clamp_delta (t - E)"]) simp
    qed
  qed
qed

subsection \<open>Ticks\<close>

fun ticks_n :: "nat \<Rightarrow> 'z ktstate_scheme \<Rightarrow> 'z ktstate_scheme result" where
  "ticks_n 0 s = Ok s"
| "ticks_n (Suc n) s = rbind (ktimer_handler s) (ticks_n n)"

lemma ticks_n_running:
  assumes "ktimer_enabled s \<noteq> 0" "n < unat (ktimer_delta s)"
  shows "ticks_n n s = Ok (s\<lparr>ktimer_now := ktimer_now s + of_nat n, ktimer_time := ktimer_time s + of_nat n,
    ktimer_delta := ktimer_delta s - of_nat n\<rparr>)"
  using assms
proof (induction n arbitrary: s)
  case (Suc n)
  let ?s = "s\<lparr>ktimer_now := ktimer_now s + 1, ktimer_time := ktimer_time s + 1, ktimer_delta := ktimer_delta s - 1\<rparr>"
  have u: "unat (ktimer_delta s - 1) = unat (ktimer_delta s) - 1"
    using Suc.prems(2) u32_sub_unat [of 1 "ktimer_delta s"] by simp
  then have "ktimer_delta s - 1 \<noteq> 0" using Suc.prems(2) unat_eq_zero [of "ktimer_delta s - 1"] by linarith
  then have "ktimer_handler s = Ok ?s"
    using Suc.prems by (auto simp: ktimer_handler_def Let_def word_less_nat_alt)
  moreover have "ticks_n n ?s = Ok (?s\<lparr>ktimer_now := ktimer_now ?s + of_nat n, ktimer_time := ktimer_time ?s + of_nat n,
    ktimer_delta := ktimer_delta ?s - of_nat n\<rparr>)"
    using Suc.prems u by (intro Suc.IH) auto
  ultimately show ?case by (simp add: algebra_simps)
qed simp

lemma ticks_n_stopped:
  "ktimer_delta s = 0 \<Longrightarrow> ticks_n n s = Ok (s\<lparr>ktimer_now := ktimer_now s + of_nat n\<rparr>)"
proof (induction n arbitrary: s)
  case (Suc n)
  then show ?case using Suc.IH [of "s\<lparr>ktimer_now := ktimer_now s + 1\<rparr>"]
    by (simp add: ktimer_handler_def Let_def algebra_simps)
qed simp

lemma ticks_n_Suc: "ticks_n (Suc n) s = rbind (ticks_n n s) ktimer_handler"
proof (induction n arbitrary: s)
  case 0
  then show ?case by (cases "ktimer_handler s") simp_all
next
  case (Suc n)
  show ?case
  proof (cases "ktimer_handler s")
    case (Ok s1)
    then show ?thesis using Suc [of s1] by simp
  qed simp
qed

text \<open>The tick handler keeps time: a timer started with a distance of \<open>d\<close> ticks leaves threads and soft
  interrupts alone for the first \<open>d - 1\<close> ticks, and at tick \<open>d\<close> exactly it schedules the event soft
  interrupt, makes the kernel thread ready and stops.\<close>

theorem ktimer_handler_fires_on_time:
  assumes k: "kernel s \<noteq> NULL" and on: "ktimer_enabled s \<noteq> 0" and d: "ktimer_delta s \<noteq> 0"
  shows "(\<forall>n < unat (ktimer_delta s). \<exists>s'. ticks_n n s = Ok s' \<and> tcbs s' = tcbs s \<and> softirq s' = softirq s \<and>
      ktimer_now s' = ktimer_now s + of_nat n) \<and>
    (\<exists>s'. ticks_n (unat (ktimer_delta s)) s = Ok s' \<and> sq_schedule (softirq s' KTE_SOFTIRQ) = 1 \<and>
      state (tcbs s' (kernel s)) = T_RUNNABLE \<and> ktimer_enabled s' = 0 \<and> ktimer_time s' = 0 \<and>
      ktimer_now s' = ktimer_now s + ucast (ktimer_delta s))"
proof -
  define d' where "d' = unat (ktimer_delta s) - 1"
  have pos: "0 < unat (ktimer_delta s)" using d unat_gt_0 by blast
  then have dd: "unat (ktimer_delta s) = Suc d'" by (simp add: d'_def)
  define s1 where "s1 = s\<lparr>ktimer_now := ktimer_now s + of_nat d', ktimer_time := ktimer_time s + of_nat d',
    ktimer_delta := ktimer_delta s - of_nat d'\<rparr>"
  have run: "ticks_n d' s = Ok s1" unfolding s1_def by (rule ticks_n_running) (use on dd in auto)
  have "ktimer_delta s = of_nat (Suc d')" by (simp add: dd [symmetric] del: of_nat_Suc)
  then have one: "ktimer_delta s1 = 1" by (simp add: s1_def)
  define s2 where "s2 = s1\<lparr>ktimer_now := ktimer_now s1 + 1, ktimer_enabled := 0, ktimer_time := 0, ktimer_delta := 0\<rparr>"
  have "kernel s2 \<noteq> NULL" using k by (simp add: s2_def s1_def)
  then obtain s' where s': "softirq_schedule KTE_SOFTIRQ s2 = Ok s'"
      "kstate.more s' = kstate.more (softirq_set KTE_SOFTIRQ (sq_schedule_update (\<lambda>_. 1)) s2)"
      "state (tcbs s' (kernel s2)) = T_RUNNABLE"
    by (rule softirq_schedule_ok [of s2]) auto
  have "ktimer_handler s1 = softirq_schedule KTE_SOFTIRQ s2"
    using on one by (simp add: ktimer_handler_def Let_def s2_def) (simp add: s1_def)
  then have fire: "ticks_n (unat (ktimer_delta s)) s = Ok s'"
    unfolding dd ticks_n_Suc using run s'(1) by simp
  have m: "nstate.more s' = nstate.more s2" and q: "softirq s' = softirq (softirq_set KTE_SOFTIRQ (sq_schedule_update (\<lambda>_. 1)) s2)"
    using nstate_more(7) [OF s'(2)] sstate_more(4) [OF s'(2)] by (simp_all add: softirq_set_def)
  have f: "ktimer_now s' = ktimer_now s2" "ktimer_enabled s' = ktimer_enabled s2" "ktimer_time s' = ktimer_time s2"
    using m by (cases s'; cases s2; simp)+
  have "ucast (ktimer_delta s) = (of_nat (Suc d') :: u64)" by (simp only: dd [symmetric] of_nat_unat)
  then have now: "ktimer_now s + ucast (ktimer_delta s) = ktimer_now s + (of_nat d' + 1)" by simp
  have "\<exists>s'. ticks_n n s = Ok s' \<and> tcbs s' = tcbs s \<and> softirq s' = softirq s \<and> ktimer_now s' = ktimer_now s + of_nat n"
    if "n < unat (ktimer_delta s)" for n
    using ticks_n_running [OF on that] by simp
  then show ?thesis
    using fire s'(3) q f now by (auto simp: softirq_set_def s2_def s1_def algebra_simps)
qed


subsection \<open>Expired events\<close>

text \<open>The part of the state that belongs to the event queue and the counter.\<close>

definition kt_core :: "'z ktstate_scheme \<Rightarrow> (ptr \<Rightarrow> ktimer_event_t) \<times> ktable \<times> ptr \<times> u64 \<times> u32 \<times> u32 \<times> u64" where
  "kt_core s = (kt_events s, ktimer_event_table s, event_queue s, ktimer_now s, ktimer_enabled s, ktimer_delta s, ktimer_time s)"

definition core_but :: "ptr \<Rightarrow> 'z ktstate_scheme \<Rightarrow> 'z ktstate_scheme \<Rightarrow> bool" where
  "core_but e s s' \<longleftrightarrow> (\<exists>ev. kt_core s' = kt_core (s\<lparr>kt_events := (kt_events s)(e := ev)\<rparr>) \<and>
     kte_next ev = kte_next (kt_events s e) \<and> kte_delta ev = kte_delta (kt_events s e))"

lemma kt_core_more: "nstate.more s' = nstate.more s \<Longrightarrow> kt_core s' = kt_core s"
  by (cases s; cases s') (simp add: kt_core_def)

lemma core_but_refl: "kt_core s' = kt_core s \<Longrightarrow> core_but e s s'"
  unfolding core_but_def by (rule exI [of _ "kt_events s e"]) (simp add: kt_core_def)

text \<open>Posting from a soft interrupt always returns and leaves the timer alone.\<close>

lemma notification_post_softirq_frame:
  obtains r s' where "notification_post_softirq thr bits s = Ok (r, s')" "nstate.more s' = nstate.more s"
proof (cases "thr = NULL \<or> ipsr s \<noteq> 0")
  case True
  then show ?thesis using that [of "-1" s] by (auto simp: notification_post_softirq_def)
next
  case False
  let ?s = "notification_signal thr bits s"
  obtain b s1 where w: "notify_wake_thread thr ?s = Ok (b, s1)"
    by (cases thr ?s rule: notify_wake_thread_cases) auto
  have "tstate.more s1 = tstate.more s"
    using notify_wake_thread_frame(1) [OF w] by (simp add: notification_signal_def)
  then have "nstate.more s1 = nstate.more s" by (cases s; cases s1) simp
  then show ?thesis using False w that [of 0] by (simp add: notification_post_softirq_def)
qed

lemma coalesce_notify_core:
  obtains s' where "coalesce_notify thr bits s = Ok s'" "kt_core s' = kt_core s" "coalesce_active s' = coalesce_active s"
proof (cases "cache_index thr (coalesce_cache s) 0 (coalesce_count s)")
  case None
  obtain r s' where p: "notification_post_softirq thr bits s = Ok (r, s')" "nstate.more s' = nstate.more s"
    by (rule notification_post_softirq_frame)
  moreover have "coalesce_active s' = coalesce_active s" using p(2) by (cases s; cases s') simp
  ultimately show ?thesis using None that kt_core_more [OF p(2)]
    by (cases "coalesce_count s < KTIMER_COALESCE_CACHE_SIZE") (simp_all add: coalesce_notify_def kt_core_def)
next
  case (Some i)
  then show ?thesis using that by (simp add: coalesce_notify_def kt_core_def)
qed

lemma flush_core: "\<exists>s'. rfold flush_entry xs s = Ok s' \<and> kt_core s' = kt_core s"
proof (rule rfold_total)
  fix i s1 assume "kt_core s1 = kt_core s"
  moreover obtain r s' where "notification_post_softirq (ce_thread (coalesce_cache s1 ! i)) (ce_bits (coalesce_cache s1 ! i)) s1 = Ok (r, s')"
    and m: "nstate.more s' = nstate.more s1"
    by (rule notification_post_softirq_frame)
  ultimately show "\<exists>s'. flush_entry i s1 = Ok s' \<and> kt_core s' = kt_core s"
    using kt_core_more [OF m] by (simp add: flush_entry_def kt_core_def)
qed simp

lemma batch_end_spec:
  assumes "slist (kt_nx s) p (p # xs @ ys)" "length xs < n" "\<forall>x \<in> set xs. kte_delta (kt_events s x) = 0"
    "ys = [] \<or> kte_delta (kt_events s (hd ys)) \<noteq> 0"
  shows "batch_end n p s = Ok (if ys = [] then NULL else hd ys)"
  using assms
proof (induction xs arbitrary: p n)
  case Nil
  then obtain m where "n = Suc m" by (cases n) auto
  then show ?case using Nil by (cases ys) auto
next
  case (Cons x xs)
  then obtain m where m: "n = Suc m" by (cases n) auto
  have "kt_nx s p = x" "x \<noteq> NULL" "slist (kt_nx s) x (x # xs @ ys)" using Cons.prems(1) by auto
  then show ?case using Cons.IH [of x m] Cons.prems m by simp
qed

text \<open>What the batch loop needs of the event handlers: a one-shot event is handled without touching the queue,
  the counter or any other event, and asks not to be scheduled again.\<close>

locale event_callbacks =
  fixes kcall :: "ktimer_handler_t \<Rightarrow> ptr \<Rightarrow> 'z ktstate_scheme \<Rightarrow> (u32 \<times> 'z ktstate_scheme) result"
    and oneshot :: "'z ktstate_scheme \<Rightarrow> ktimer_event_t \<Rightarrow> bool"
  assumes call: "oneshot s (kt_events s e) \<Longrightarrow> \<exists>s'. kcall (kte_handler (kt_events s e)) e s = Ok (0, s') \<and>
      core_but e s s' \<and> (\<forall>ev. oneshot s ev \<longrightarrow> oneshot s' ev)"
    and free_keeps: "oneshot (kt_free e s) ev = oneshot s ev"
begin

lemma run_batch:
  assumes "lseg (kt_nx s) p (p # xs) l" "distinct (p # xs)" "l \<notin> set (p # xs)" "length xs < n"
    "\<forall>x \<in> set (p # xs). oneshot s (kt_events s x)"
  shows "\<exists>s'. run_events n kcall p l s = Ok s' \<and> (\<forall>x. x \<notin> set (p # xs) \<longrightarrow> kt_events s' x = kt_events s x) \<and>
    ktimer_event_table s' = fold (\<lambda>x t. ktable_free t x) (p # xs) (ktimer_event_table s) \<and>
    event_queue s' = event_queue s \<and> ktimer_now s' = ktimer_now s \<and> ktimer_enabled s' = ktimer_enabled s"
  using assms
proof (induction xs arbitrary: p n s)
  case Nil
  then obtain m where m: "n = Suc m" by (cases n) auto
  obtain s1 where "kcall (kte_handler (kt_events s p)) p s = Ok (0, s1)" "core_but p s s1"
    using call [of s p] Nil.prems(5) by auto
  then show ?case using Nil.prems(1) m by (auto simp: kt_free_def core_but_def kt_core_def)
next
  case (Cons x xs)
  then obtain m where m: "n = Suc m" by (cases n) auto
  obtain s1 where k: "kcall (kte_handler (kt_events s p)) p s = Ok (0, s1)" "core_but p s s1"
      "\<forall>ev. oneshot s ev \<longrightarrow> oneshot s1 ev"
    using call [of s p] Cons.prems(5) by auto
  then obtain ev where c: "kt_events s1 = (kt_events s)(p := ev)" "kte_next ev = kte_next (kt_events s p)"
      "ktimer_event_table s1 = ktimer_event_table s" "event_queue s1 = event_queue s"
      "ktimer_now s1 = ktimer_now s" "ktimer_enabled s1 = ktimer_enabled s"
    by (auto simp: core_but_def kt_core_def)
  let ?s = "kt_free p s1"
  have px: "p \<notin> set (x # xs)" "kt_nx s p = x" "lseg (kt_nx s) x (x # xs) l" "x \<noteq> NULL" "x \<noteq> l"
    using Cons.prems by auto
  have l1: "lseg (kt_nx ?s) x (x # xs) l"
    using px by (subst lseg_cong [of _ _ "kt_nx s"]) (auto simp: kt_free_def c)
  have o1: "\<forall>y \<in> set (x # xs). oneshot ?s (kt_events ?s y)"
    using Cons.prems(5) px(1) k(3) by (auto simp: free_keeps) (auto simp: kt_free_def c(1))
  have d1: "distinct (x # xs)" "l \<notin> set (x # xs)" "length xs < m" using Cons.prems m by auto
  from Cons.IH [OF l1 d1 o1] obtain s' where s': "run_events m kcall x l ?s = Ok s'"
      "\<forall>y. y \<notin> set (x # xs) \<longrightarrow> kt_events s' y = kt_events ?s y"
      "ktimer_event_table s' = fold (\<lambda>x t. ktable_free t x) (x # xs) (ktimer_event_table ?s)"
      "event_queue s' = event_queue ?s" "ktimer_now s' = ktimer_now ?s" "ktimer_enabled s' = ktimer_enabled ?s"
    by blast
  have "run_events n kcall p l s = Ok s'" using m k(1) px c s'(1) by (simp add: kt_free_def)
  then show ?case using s'(2-) c by (auto simp: kt_free_def)
qed

end

context event_callbacks
begin

lemma handler_batch:
  assumes rep: "kq_rep s (p # xs @ ys)" and batch: "\<forall>x \<in> set xs. kte_delta (kt_events s x) = 0"
    and rest: "ys = [] \<or> kte_delta (kt_events s (hd ys)) \<noteq> 0"
  defines "s0 \<equiv> s\<lparr>coalesce_active := True, coalesce_count := 0, event_queue := (if ys = [] then NULL else hd ys)\<rparr>"
  assumes one: "\<forall>x \<in> set (p # xs). oneshot s0 (kt_events s x)"
  shows "\<exists>s'. ktimer_event_handler kcall s = Ok s' \<and> kq_rep s' ys \<and> (\<forall>x \<in> set ys. kt_events s' x = kt_events s x) \<and>
    ktimer_event_table s' = fold (\<lambda>x t. ktable_free t x) (p # xs) (ktimer_event_table s) \<and>
    ktimer_now s' = ktimer_now s \<and> \<not> coalesce_active s' \<and>
    (ys \<noteq> [] \<longrightarrow> ktimer_enabled s' = 1 \<and> ktimer_delta s' = kte_delta (kt_events s (hd ys)) \<and> ktimer_time s' = 0)"
proof -
  let ?l = "if ys = [] then NULL else hd ys"
  have sl: "slist (kt_nx s) p (p # xs @ ys)" and len: "length xs < KT_FUEL" and q: "event_queue s = p" "p \<noteq> NULL"
    using rep by (auto simp: kq_rep_def KT_FUEL_def)
  have dis: "distinct (p # xs @ ys)" by (rule slist_distinct [OF sl])
  obtain m where m: "lseg (kt_nx s) p (p # xs) m" "slist (kt_nx s) m ys"
    using sl by (auto simp: lseg_append)
  have ml: "m = ?l" using m(2) by (rule slist_hd)
  have nl: "?l \<notin> set (p # xs)" using dis slist_not_null [OF sl] by (cases ys) auto
  let ?s = "s\<lparr>coalesce_active := True, coalesce_count := 0\<rparr>"
  have be: "batch_end KT_FUEL p ?s = Ok ?l"
    by (rule batch_end_spec [of _ _ xs]) (use sl len batch rest in auto)
  have "lseg (kt_nx s0) p (p # xs) ?l" "distinct (p # xs)" "\<forall>x \<in> set (p # xs). oneshot s0 (kt_events s0 x)"
    using m(1) ml dis one by (auto simp: s0_def)
  from run_batch [OF this(1,2) nl len this(3)] obtain s1 where s1: "run_events KT_FUEL kcall p ?l s0 = Ok s1"
      "\<forall>x. x \<notin> set (p # xs) \<longrightarrow> kt_events s1 x = kt_events s0 x"
      "ktimer_event_table s1 = fold (\<lambda>x t. ktable_free t x) (p # xs) (ktimer_event_table s0)"
      "event_queue s1 = event_queue s0" "ktimer_now s1 = ktimer_now s0"
    by blast
  obtain s2 where s2: "rfold flush_entry [0..<coalesce_count s1] s1 = Ok s2" "kt_core s2 = kt_core s1"
    using flush_core by blast
  define s3 where "s3 = s2\<lparr>coalesce_active := False, coalesce_count := 0\<rparr>"
  define s' where "s' = (if event_queue s3 \<noteq> NULL then ktimer_enable (kte_delta (kt_events s3 (event_queue s3))) s3 else s3)"
  have run: "ktimer_event_handler kcall s = Ok s'"
    using q be s1(1) s2(1) by (simp add: ktimer_event_handler_def Let_def s0_def s'_def s3_def)
  have f: "kt_events s' = kt_events s1" "ktimer_event_table s' = ktimer_event_table s1" "event_queue s' = ?l"
      "ktimer_now s' = ktimer_now s" "\<not> coalesce_active s'" "event_queue s3 = ?l" "kt_events s3 = kt_events s1"
    using s2(2) s1(4,5) by (auto simp: s'_def s3_def ktimer_enable_def kt_core_def s0_def)
  have ev: "kt_events s' x = kt_events s x" if "x \<in> set ys" for x
    using s1(2) that dis f(1) by (auto simp: s0_def)
  have "slist (kt_nx s') ?l ys" using m(2) ml ev by (subst lseg_cong [of _ _ "kt_nx s"]) auto
  moreover have "ys \<noteq> [] \<longrightarrow> hd ys \<noteq> NULL" using m(2) by (cases ys) auto
  ultimately show ?thesis
    using run f ev s1(3) rep by (auto simp: kq_rep_def s'_def ktimer_enable_def s0_def)
qed

end

lemma fold_ktable_free:
  assumes "kt_wf t" "set xs \<subseteq> kt_slots t"
  shows "kt_wf (fold (\<lambda>x t. ktable_free t x) xs t) \<and> kt_used (fold (\<lambda>x t. ktable_free t x) xs t) = kt_used t - set xs"
  using assms
proof (induction xs arbitrary: t)
  case (Cons x xs)
  then show ?case using kt.free_used [of t x] kt.free_inv [of t x] by auto
qed simp

text \<open>The handlers: notifications here, the other names by \<open>other\<close>.\<close>

definition timer_calls ::
    "(ktimer_handler_t \<Rightarrow> ptr \<Rightarrow> 'z ktstate_scheme \<Rightarrow> (u32 \<times> 'z ktstate_scheme) result) \<Rightarrow>
     ktimer_handler_t \<Rightarrow> ptr \<Rightarrow> 'z ktstate_scheme \<Rightarrow> (u32 \<times> 'z ktstate_scheme) result" where
  "timer_calls other h = (if h = KH_NOTIFY then ktimer_notify_handler else other h)"

definition notify_once :: "'z ktstate_scheme \<Rightarrow> ktimer_event_t \<Rightarrow> bool" where
  "notify_once s ev \<longleftrightarrow> coalesce_active s \<and> kte_handler ev = KH_NOTIFY \<and> kte_deadline ev = 0"

interpretation nt: event_callbacks "timer_calls other" notify_once for other
proof
  fix s :: "'a ktstate_scheme" and e
  assume o: "notify_once s (kt_events s e)"
  let ?thr = "kte_notify_thread (kt_events s e)"
  show "\<exists>s'. timer_calls other (kte_handler (kt_events s e)) e s = Ok (0, s') \<and> core_but e s s' \<and>
      (\<forall>ev. notify_once s ev \<longrightarrow> notify_once s' ev)"
  proof (cases "e = NULL \<or> ?thr = NULL")
    case True
    then show ?thesis
      using o by (intro exI [of _ s]) (auto simp: timer_calls_def notify_once_def ktimer_notify_handler_def core_but_refl)
  next
    case False
    obtain s' where s': "coalesce_notify ?thr (kte_notify_bits (kt_events s e)) s = Ok s'" "kt_core s' = kt_core s"
        "coalesce_active s' = coalesce_active s" by (rule coalesce_notify_core)
    then show ?thesis
      using o False by (intro exI [of _ s'])
        (auto simp: timer_calls_def notify_once_def ktimer_notify_handler_def core_but_refl kt_core_def)
  qed
next
  fix s :: "'a ktstate_scheme" and e ev
  show "notify_once (kt_free e s) ev = notify_once s ev" by (simp add: notify_once_def kt_free_def)
qed


subsection \<open>A short period stops the timer\<close>

text \<open>An event whose distance is 0 at the head of the queue: nothing restarts the timer.\<close>

lemma ktimer_delta_frame [simp]:
  "ktimer_delta (kte_upd p f s) = ktimer_delta s" "ktimer_delta (chain_event k n d s) = ktimer_delta s"
  "event_queue (kte_upd p f s) = event_queue s"
  by (simp_all add: chain_event_def ktimer_event_recalc_def kte_upd_def Let_def)

lemma schedule_behind_zero_head:
  assumes "event_queue s \<noteq> NULL" "kte_delta (kt_events s (event_queue s)) = 0" "kte \<noteq> event_queue s"
    "ktimer_event_schedule ticks kte s = Ok (r, s')"
  shows "ktimer_delta s' = ktimer_delta s"
proof (cases "ticks = 0")
  case True
  then show ?thesis using assms(4) by (simp add: ktimer_event_schedule_def)
next
  case False
  let ?s = "kte_upd kte (kte_next_update (\<lambda>_. NULL)) s" and ?t = "adjust_ticks ticks (ktimer_time s)"
  have "kte_delta (kt_events ?s (event_queue s)) = 0" using assms(2,3) by (simp add: kte_upd_def)
  then have "rbind (sched_walk KT_FUEL ?t (event_queue s) 0 ?s) (\<lambda>(event, delta, next_event).
      Ok (0, chain_event kte next_event delta (kte_upd event (kte_next_update (\<lambda>_. kte)) ?s))) = Ok (r, s')"
    using assms(1,4) False by (simp add: ktimer_event_schedule_def Let_def)
  then obtain event delta next_event where
    "s' = chain_event kte next_event delta (kte_upd event (kte_next_update (\<lambda>_. kte)) ?s)"
    by (auto simp: rbind_eq_Ok)
  then show ?thesis by simp
qed

lemma schedule_short_at_head:
  assumes t: "h \<noteq> 0" "unat h < 128" "ktimer_time s = 0" and q: "event_queue s = r" "r \<noteq> NULL" "r \<noteq> e"
    and r: "h < kte_delta (kt_events s r)"
  shows "\<exists>s'. ktimer_event_schedule h e s = Ok (0, s') \<and> event_queue s' = e \<and> coalesce_count s' = coalesce_count s \<and>
    kt_events s' = (kt_events s)(e := (kt_events s e)\<lparr>kte_next := r, kte_delta := 0\<rparr>)"
proof -
  have "unat (if sint h < 128 then 0 else h) = 0" using unat_clamp [of h] t(2) by (simp add: clamp_delta_def)
  then have z: "(if sint h < 128 then 0 else h) = 0" using unat_eq_zero by blast
  have a: "adjust_ticks h (ktimer_time s) = h" using t by (simp add: adjust_ticks_def)
  have r': "\<not> kte_delta (kt_events s r) \<le> h" using r by (simp add: not_le)
  show ?thesis
    using q r' t(1) a
    by (simp add: ktimer_event_schedule_def Let_def kte_upd_def ktimer_enable_def chain_event_def z ktimer_event_recalc_def
        fun_eq_iff)
qed

text \<open>A periodic timer with fewer than 128 ticks to its next deadline that expires while a later event is
  queued stops the kernel timer for good: it is put at the head of the queue with a distance rounded down
  to 0, the handler restarts the timer with that 0, and neither any number of ticks nor any event scheduled
  later makes the timer fire again.\<close>

theorem ktimer_short_period_stalls:
  assumes rep: "kq_rep s (e # r # rs)" and r0: "kte_delta (kt_events s r) \<noteq> 0" and time: "ktimer_time s = 0"
    and e: "kte_handler (kt_events s e) = KH_NOTIFY" "kte_notify_thread (kt_events s e) \<noteq> NULL"
      "kte_deadline (kt_events s e) > 0"
  defines "dl \<equiv> kte_deadline (kt_events s e) + ucast (kte_data (kt_events s e))"
  defines "h \<equiv> (if dl > ktimer_now s then ucast (dl - ktimer_now s) else 1 :: u32)"
  assumes h: "h \<noteq> 0" "unat h < 128" "h < kte_delta (kt_events s r)"
  shows "\<exists>s'. ktimer_event_handler (timer_calls other) s = Ok s' \<and> kq_rep s' (e # r # rs) \<and>
    (\<forall>n. ticks_n n s' = Ok (s'\<lparr>ktimer_now := ktimer_now s' + of_nat n\<rparr>)) \<and>
    (\<forall>ticks kte i s2. kte \<noteq> e \<longrightarrow> ktimer_event_schedule ticks kte s' = Ok (i, s2) \<longrightarrow> ktimer_delta s2 = 0)"
proof -
  have sl: "slist (kt_nx s) e (e # r # rs)" and q: "event_queue s = e" "e \<noteq> NULL" "r \<noteq> NULL" "kte_next (kt_events s e) = r"
    using rep by (auto simp: kq_rep_def)
  have dis: "distinct (e # r # rs)" by (rule slist_distinct [OF sl])
  define s0 where "s0 = s\<lparr>coalesce_active := True, coalesce_count := 0, event_queue := r\<rparr>"
  let ?thr = "kte_notify_thread (kt_events s e)" and ?b = "kte_notify_bits (kt_events s e)"
  obtain s1 where s1: "coalesce_notify ?thr ?b s0 = Ok s1" "kt_core s1 = kt_core s0"
    by (rule coalesce_notify_core [of ?thr ?b s0])
  then have c1: "kt_events s1 = kt_events s" "event_queue s1 = r" "ktimer_now s1 = ktimer_now s" "ktimer_time s1 = 0"
    by (simp_all add: kt_core_def s0_def time)
  define s2 where "s2 = kte_upd e (\<lambda>x. x\<lparr>kte_deadline := dl\<rparr>) s1"
  have hd1: "ktimer_notify_handler e s0 = Ok (h, s2)"
    using s1(1) q e c1 by (simp add: ktimer_notify_handler_def s0_def s2_def kte_upd_def dl_def h_def Let_def)
  have ev2: "kt_events s2 = (kt_events s)(e := (kt_events s e)\<lparr>kte_deadline := dl\<rparr>)" "event_queue s2 = r" "ktimer_time s2 = 0"
    using c1 by (simp_all add: s2_def kte_upd_def)
  obtain s3 where s3: "ktimer_event_schedule h e s2 = Ok (0, s3)" "event_queue s3 = e"
      "kt_events s3 = (kt_events s2)(e := (kt_events s2 e)\<lparr>kte_next := r, kte_delta := 0\<rparr>)"
    using schedule_short_at_head [of h s2 r e] h ev2 q dis by auto
  have run: "run_events KT_FUEL (timer_calls other) e r s0 = Ok s3"
    using hd1 s3(1) e q ev2 h(1) by (simp add: KT_FUEL_def eval_nat_numeral timer_calls_def s0_def)
  obtain s4 where s4: "rfold flush_entry [0..<coalesce_count s3] s3 = Ok s4" "kt_core s4 = kt_core s3"
    using flush_core by blast
  define s' where "s' = ktimer_enable 0 (s4\<lparr>coalesce_active := False, coalesce_count := 0\<rparr>)"
  have c4: "kt_events s4 = kt_events s3" "event_queue s4 = e" using s4(2) s3(2) by (simp_all add: kt_core_def)
  have "batch_end KT_FUEL e (s\<lparr>coalesce_active := True, coalesce_count := 0\<rparr>) = Ok r"
    using q r0 by (simp add: KT_FUEL_def eval_nat_numeral)
  then have fin: "ktimer_event_handler (timer_calls other) s = Ok s'"
    using q run s4(1) c4 s3(3) by (simp add: ktimer_event_handler_def Let_def s0_def s'_def)
  have f: "event_queue s' = e" "kt_events s' = kt_events s3" "ktimer_delta s' = 0"
    using c4 by (simp_all add: s'_def ktimer_enable_def)
  have "slist (kt_nx s') e (e # r # rs)"
    using sl q(4) by (subst lseg_cong [of _ _ "kt_nx s"]) (auto simp: f s3(3) ev2)
  then have "kq_rep s' (e # r # rs)" using rep f by (simp add: kq_rep_def)
  then show ?thesis
    using fin ticks_n_stopped [OF f(3)] schedule_behind_zero_head [of s'] f q(2) s3(3) by auto
qed

subsection \<open>A queue with two events\<close>

abbreviation (input) evA :: ptr where "evA \<equiv> 0x20009000"
abbreviation (input) evB :: ptr where "evB \<equiv> 0x20009028"

definition kt_example :: "u64 \<Rightarrow> u64 \<Rightarrow> ktstate" where
  "kt_example deadline elapsed = nstate.extend nboot
     \<lparr>kt_events = (\<lambda>p. if p = evA
        then \<lparr>kte_next = evB, kte_handler = KH_NOTIFY, kte_delta = 200, kte_data = 100, kte_notify_thread = 8192,
              kte_notify_bits = 1, kte_deadline = deadline\<rparr>
        else \<lparr>kte_next = NULL, kte_handler = KH_NOTIFY, kte_delta = 300, kte_data = 0, kte_notify_thread = 8192,
              kte_notify_bits = 2, kte_deadline = 0\<rparr>),
      ktimer_event_table = \<lparr>tname = ''ktimer_event_table'', kbitmap = [3, 0], kdata = 0x20009000, knum = 64, ksize = 40\<rparr>,
      event_queue = evA, coalesce_cache = replicate 8 \<lparr>ce_thread = 0, ce_bits = 0\<rparr>, coalesce_count = 0,
      coalesce_active = False, ktimer_now = 1000, ktimer_enabled = 1, ktimer_delta = 200, ktimer_time = elapsed,
      systick_reload = 0, systick_val = 0, systick_ctl = 0\<rparr>"

lemma kt_example_sel [simp]:
  "kernel (kt_example d e) = 4096" "event_queue (kt_example d e) = evA" "ktimer_enabled (kt_example d e) = 1"
  "ktimer_delta (kt_example d e) = 200" "ktimer_time (kt_example d e) = e" "ktimer_now (kt_example d e) = 1000"
  "kt_events (kt_example d e) evA = \<lparr>kte_next = evB, kte_handler = KH_NOTIFY, kte_delta = 200, kte_data = 100,
     kte_notify_thread = 8192, kte_notify_bits = 1, kte_deadline = d\<rparr>"
  "kt_events (kt_example d e) evB = \<lparr>kte_next = NULL, kte_handler = KH_NOTIFY, kte_delta = 300, kte_data = 0,
     kte_notify_thread = 8192, kte_notify_bits = 2, kte_deadline = 0\<rparr>"
  "ktimer_event_table (kt_example d e) =
     \<lparr>tname = ''ktimer_event_table'', kbitmap = [3, 0], kdata = 0x20009000, knum = 64, ksize = 40\<rparr>"
  by (simp_all add: kt_example_def nstate.defs nboot_def tstate.defs)

lemma kt_example_rep: "kq_rep (kt_example d e) [evA, evB]"
  by (simp add: kq_rep_def)

lemma kt_example_table: "kt_wf (ktimer_event_table (kt_example d e))" "evA \<in> kt_slots (ktimer_event_table (kt_example d e))"
  by (auto simp: kt_wf_def kt_slots_def kt_elem_def intro: image_eqI [of _ _ 0])

theorem ktimer_handler_fires_on_time_witness:
  "\<exists>s'. ticks_n 200 (kt_example 0 0) = Ok s' \<and> sq_schedule (softirq s' KTE_SOFTIRQ) = 1 \<and> ktimer_now s' = 1200"
  using ktimer_handler_fires_on_time [of "kt_example 0 0"] by auto



theorem ktimer_short_period_stalls_witness:
  "\<exists>s'. ktimer_event_handler (timer_calls (\<lambda>h e s. Ok (0, s))) (kt_example 1000 0) = Ok s' \<and> kq_rep s' [evA, evB] \<and>
     (\<forall>n. ticks_n n s' = Ok (s'\<lparr>ktimer_now := ktimer_now s' + of_nat n\<rparr>))"
  using ktimer_short_period_stalls [OF kt_example_rep, of 1000 0 "\<lambda>h e s. Ok (0, s)"] by auto

end
