(* ===== verification/Tickless.thy ===== *)
theory Tickless
  imports Ktimer "HOL-Library.Signed_Division"
begin

text \<open>
  The measurements of the tickless timer, \<^verbatim>\<open>kernel/tickless-verify.c\<close>: from the moment the timer is armed to the moment it fires, the
  kernel's clock is compared with a hardware timer, and the last sixteen comparisons are kept in a ring. The readings of both timers are
  arguments. \<open>None\<close> is a division by zero.
\<close>

subsection \<open>Operations\<close>

record verify_record =
  vr_ktimer_diff :: u32
  vr_hwtimer_diff :: u32
  vr_need :: u32
  vr_count :: u32
  vr_count_int :: u32

record verify_state =
  verify_enabled :: nat
  verify_started :: nat
  verify_n :: nat
  verify_times :: nat
  verify_records :: "verify_record list"
  verify_start_need :: u32
  verify_start_ktimer :: u32
  verify_start_systick :: u32
  verify_start_hwtimer :: u32
  verify_start_count :: u32
  verify_start_count_int :: u32

abbreviation (input) TICKLESS_VERIFY_MAX_RECORD :: nat where "TICKLESS_VERIFY_MAX_RECORD \<equiv> 16"

definition no_record :: verify_record where
  "no_record = \<lparr>vr_ktimer_diff = 0, vr_hwtimer_diff = 0, vr_need = 0, vr_count = 0, vr_count_int = 0\<rparr>"

definition verify_save :: "u32 \<Rightarrow> u32 \<Rightarrow> u32 \<times> u32" where
  "verify_save systick_now hwtimer_now = (CONFIG_KTIMER_HEARTBEAT - systick_now, hwtimer_now)"

definition tickless_verify_init :: "verify_state \<Rightarrow> verify_state" where
  "tickless_verify_init s =
     (if verify_enabled s = 0
      then s\<lparr>verify_records := replicate TICKLESS_VERIFY_MAX_RECORD no_record, verify_n := 0, verify_times := 0, verify_enabled := verify_enabled s + 1\<rparr>
      else s)"

definition tickless_verify_start :: "u32 \<Rightarrow> u32 \<Rightarrow> u32 \<Rightarrow> u32 \<Rightarrow> verify_state \<Rightarrow> verify_state" where
  "tickless_verify_start systick_now hwtimer_now now need s =
     (let (systick, hwtimer) = verify_save systick_now hwtimer_now in
      s\<lparr>verify_start_systick := systick, verify_start_hwtimer := hwtimer, verify_start_need := need, verify_start_ktimer := now,
        verify_start_count := 0, verify_start_count_int := 0, verify_started := verify_enabled s\<rparr>)"

definition tickless_verify_stop :: "u32 \<Rightarrow> u32 \<Rightarrow> u32 \<Rightarrow> verify_state \<Rightarrow> verify_state" where
  "tickless_verify_stop systick_now hwtimer_now now s =
     (let (systick, hwtimer) = verify_save systick_now hwtimer_now;
          ktimer_diff = (now - verify_start_ktimer s) * CONFIG_KTIMER_HEARTBEAT + systick - verify_start_systick s;
          hwtimer_diff = (hwtimer - verify_start_hwtimer s) * 2
      in if verify_started s = 0 then s
         else let n = (if verify_n s \<ge> TICKLESS_VERIFY_MAX_RECORD then 0 else verify_n s);
                  r = \<lparr>vr_ktimer_diff = ktimer_diff, vr_hwtimer_diff = hwtimer_diff,
                       vr_need = verify_start_need s * CONFIG_KTIMER_HEARTBEAT - verify_start_systick s,
                       vr_count = verify_start_count s, vr_count_int = verify_start_count_int s\<rparr>
              in s\<lparr>verify_records := (verify_records s)[n := r], verify_n := n + 1, verify_times := verify_times s + 1\<rparr>)"

definition tickless_verify_count :: "verify_state \<Rightarrow> verify_state" where
  "tickless_verify_count s = s\<lparr>verify_start_count := verify_start_count s + 1\<rparr>"

definition tickless_verify_count_int :: "verify_state \<Rightarrow> verify_state" where
  "tickless_verify_count_int s = s\<lparr>verify_start_count_int := verify_start_count_int s + 1\<rparr>"

text \<open>The quotient rounded up, as both compensation loops compute it, in unsigned arithmetic.\<close>

definition comp_round :: "u32 \<Rightarrow> u32 \<Rightarrow> u32" where
  "comp_round diff count = (let new_comp = diff div count in if count * new_comp < diff then new_comp + 1 else new_comp)"

definition comp_enter :: "verify_record \<Rightarrow> u32 \<Rightarrow> u32 option" where
  "comp_enter r compensation =
     (let diff = vr_hwtimer_diff r - vr_ktimer_diff r in
      if vr_count_int r = 0 \<and> sint diff > 0
      then if vr_count r = 0 then None
           else let new_comp = comp_round diff (vr_count r) in Some (if new_comp < compensation then new_comp else compensation)
      else Some compensation)"

definition comp_interrupted :: "u32 \<Rightarrow> verify_record \<Rightarrow> u32 \<Rightarrow> u32" where
  "comp_interrupted compensation r int_compensation =
     (let diff = vr_hwtimer_diff r - vr_ktimer_diff r - vr_count r * compensation in
      if vr_count_int r \<noteq> 0 \<and> sint diff > 0
      then let new_int_comp = comp_round diff (vr_count_int r) in if new_int_comp < int_compensation then new_int_comp else int_compensation
      else int_compensation)"

fun comp_loop :: "verify_record list \<Rightarrow> u32 \<Rightarrow> u32 option" where
  "comp_loop [] compensation = Some compensation"
| "comp_loop (r # rs) compensation = (case comp_enter r compensation of None \<Rightarrow> None | Some c \<Rightarrow> comp_loop rs c)"

definition need_diff :: "verify_record \<Rightarrow> int" where
  "need_diff r = sint (vr_hwtimer_diff r - vr_need r)"

text \<open>Returns the average, the number of measurements and the two compensations that are printed.\<close>

definition tickless_verify_stat :: "verify_state \<Rightarrow> (int \<times> nat \<times> u32 \<times> u32) option" where
  "tickless_verify_stat s =
     (let n = (if verify_times s \<ge> TICKLESS_VERIFY_MAX_RECORD then TICKLESS_VERIFY_MAX_RECORD else verify_times s);
          rs = take n (verify_records s);
          sum = fold (\<lambda>r a. a + need_diff r) rs 0
      in case comp_loop rs (- 1) of
           None \<Rightarrow> None
         | Some compensation \<Rightarrow>
             if n = 0 then None
             else Some (sum sdiv int n, verify_times s, compensation, fold (comp_interrupted compensation) rs (- 1)))"

text \<open>The command of the debugger: the first call starts the measurements, the others show them.\<close>

definition kdb_show_tickless_verify :: "nat \<times> verify_state \<Rightarrow> (nat \<times> verify_state) \<times> (int \<times> nat \<times> u32 \<times> u32) option option" where
  "kdb_show_tickless_verify = (\<lambda>(init, s).
     if init = 0 then ((init + 1, tickless_verify_init s), None) else ((init, s), Some (tickless_verify_stat s)))"

subsection \<open>The ring keeps the last measurements\<close>

text \<open>One measurement, from arming to firing, with the entries into tickless mode in between.\<close>

definition measure_once :: "u32 \<times> u32 \<times> u32 \<times> u32 \<Rightarrow> nat \<Rightarrow> nat \<Rightarrow> u32 \<times> u32 \<times> u32 \<Rightarrow> verify_state \<Rightarrow> verify_state" where
  "measure_once = (\<lambda>(sy, hw, kt, need) c ci (sy', hw', kt') s.
     tickless_verify_stop sy' hw' kt' ((tickless_verify_count_int ^^ ci) ((tickless_verify_count ^^ c) (tickless_verify_start sy hw kt need s))))"

definition measured :: "u32 \<times> u32 \<times> u32 \<times> u32 \<Rightarrow> nat \<Rightarrow> nat \<Rightarrow> u32 \<times> u32 \<times> u32 \<Rightarrow> verify_record" where
  "measured = (\<lambda>(sy, hw, kt, need) c ci (sy', hw', kt').
     \<lparr>vr_ktimer_diff = (kt' - kt) * 65536 + (65536 - sy') - (65536 - sy), vr_hwtimer_diff = (hw' - hw) * 2,
      vr_need = need * 65536 - (65536 - sy), vr_count = of_nat c, vr_count_int = of_nat ci\<rparr>)"

text \<open>The ring after the measurements \<open>h\<close>: the next free place, and the last sixteen of \<open>h\<close> at their places.\<close>

definition ring_of :: "verify_record list \<Rightarrow> verify_state \<Rightarrow> bool" where
  "ring_of h s \<longleftrightarrow> verify_enabled s \<noteq> 0 \<and> length (verify_records s) = 16 \<and> verify_times s = length h \<and>
     verify_n s \<le> 16 \<and> verify_n s mod 16 = length h mod 16 \<and>
     (\<forall>i < length h. length h \<le> i + 16 \<longrightarrow> verify_records s ! (i mod 16) = h ! i)"

lemma ring_init: "verify_enabled s = 0 \<Longrightarrow> ring_of [] (tickless_verify_init s)"
  by (simp add: ring_of_def tickless_verify_init_def)

lemma mod_16_near: "i < n \<Longrightarrow> n < i + 16 \<Longrightarrow> i mod 16 \<noteq> n mod (16 :: nat)"
proof
  assume "i < n" "n < i + 16" "i mod 16 = n mod 16"
  then have "16 dvd n - i" by (metis mod_eq_dvd_iff_nat less_imp_le)
  then show False using \<open>i < n\<close> \<open>n < i + 16\<close> by (auto dest!: dvd_imp_le)
qed

lemma count_pow: "(tickless_verify_count ^^ c) s = s\<lparr>verify_start_count := verify_start_count s + of_nat c\<rparr>"
  by (induction c) (simp_all add: tickless_verify_count_def ac_simps)

lemma count_int_pow: "(tickless_verify_count_int ^^ c) s = s\<lparr>verify_start_count_int := verify_start_count_int s + of_nat c\<rparr>"
  by (induction c) (simp_all add: tickless_verify_count_int_def ac_simps)

text \<open>Every measurement enters the ring, which keeps the last sixteen.\<close>

theorem measure_once_enters_ring:
  assumes "ring_of h s"
  shows "ring_of (h @ [measured b c ci e]) (measure_once b c ci e s)"
proof -
  obtain sy hw kt need where b: "b = (sy, hw, kt, need)" by (metis prod_cases4)
  obtain sy' hw' kt' where e: "e = (sy', hw', kt')" by (metis prod_cases3)
  let ?n = "if verify_n s \<ge> 16 then 0 else verify_n s"
  have n: "?n = length h mod 16"
  proof (cases "verify_n s = 16")
    case False
    then show ?thesis using assms by (auto simp: ring_of_def)
  qed (use assms in \<open>simp add: ring_of_def\<close>)
  have nl: "?n < 16" "(?n + 1) mod 16 = (length h + 1) mod 16" unfolding n by (simp_all add: mod_Suc_eq)
  have m: "verify_records (measure_once b c ci e s) = (verify_records s)[?n := measured b c ci e]" "verify_n (measure_once b c ci e s) = ?n + 1"
    "verify_times (measure_once b c ci e s) = length h + 1" "verify_enabled (measure_once b c ci e s) = verify_enabled s"
    using assms by (simp_all add: measure_once_def measured_def b e tickless_verify_stop_def tickless_verify_start_def verify_save_def
        count_pow count_int_pow Let_def ring_of_def)
  have "(verify_records s)[?n := measured b c ci e] ! (i mod 16) = (h @ [measured b c ci e]) ! i" if "i < length h + 1" "length h + 1 \<le> i + 16" for i
  proof (cases "i = length h")
    case True
    then show ?thesis using assms unfolding n by (simp add: ring_of_def)
  next
    case False
    then have "i mod 16 \<noteq> ?n" unfolding n using that by (intro mod_16_near) auto
    then show ?thesis using assms that False by (simp add: ring_of_def nth_append)
  qed
  then show ?thesis using assms nl m by (simp add: ring_of_def)
qed

text \<open>The suggested compensation is the least number of ticks per entry that makes up for the whole difference of some measurement, and a
  second call of the command before the first measurement divides by zero.\<close>

lemma comp_round_ceiling:
  assumes "count \<noteq> 0"
  shows "unat (comp_round diff count) = (unat diff + unat count - 1) div unat count"
proof -
  let ?q = "unat diff div unat count" and ?r = "unat diff mod unat count"
  have c: "0 < unat count" using assms by (simp add: unat_gt_0)
  have d: "unat diff < 2 ^ 32" by (rule u32_unat_bound)
  have div: "unat (diff div count) = ?q" by (simp add: unat_div_distrib)
  have "unat count * ?q \<le> unat diff" by simp
  then have "unat count * ?q < 2 ^ 32" using d by (rule le_less_trans)
  then have m: "unat (count * (diff div count)) = unat count * ?q" using unat_mult_lem [of count "diff div count"] by (simp add: div)
  have lt: "count * (diff div count) < diff \<longleftrightarrow> ?r \<noteq> 0"
    unfolding word_less_nat_alt m using mult_div_mod_eq [of "unat count" "unat diff"] by linarith
  have "?q \<le> unat diff" by simp
  have q: "unat (diff div count + 1) = ?q + 1" if r: "?r \<noteq> 0"
  proof -
    have "unat count * ?q + ?r = unat diff" by simp
    moreover have "?q \<le> unat count * ?q" using c by simp
    ultimately have "?q + 1 < 2 ^ 32" using d r by linarith
    then show ?thesis using unat_add_lem [of "diff div count" 1] by (simp add: div)
  qed
  have s: "unat diff + unat count - 1 = unat count * ?q + (?r + unat count - 1)" using c mult_div_mod_eq [of "unat count" "unat diff"] by linarith
  have "(unat diff + unat count - 1) div unat count = ?q + (?r + unat count - 1) div unat count"
    unfolding s using c by (intro div_mult_self4) simp
  also have "(?r + unat count - 1) div unat count = (if ?r = 0 then 0 else 1)"
  proof (cases "?r = 0")
    case False
    then have e: "?r + unat count - 1 = unat count * 1 + (?r - 1)" by simp
    have "(?r - 1) div unat count = 0" using c by (simp add: less_imp_diff_less)
    then show ?thesis unfolding e using False c by (subst div_mult_self4) simp_all
  qed (use c in simp)
  finally show ?thesis using lt q div by (auto simp: comp_round_def Let_def)
qed

text \<open>The compensation of a record: what it suggests, if anything.\<close>

definition suggestion :: "verify_record \<Rightarrow> u32 option" where
  "suggestion r = (if vr_count_int r = 0 \<and> sint (vr_hwtimer_diff r - vr_ktimer_diff r) > 0
     then Some (comp_round (vr_hwtimer_diff r - vr_ktimer_diff r) (vr_count r)) else None)"

lemma comp_loop_spec:
  assumes "\<And>r. r \<in> set rs \<Longrightarrow> vr_count r \<noteq> 0"
  shows "\<exists>m. comp_loop rs c = Some m \<and> (m = c \<or> (\<exists>r \<in> set rs. suggestion r = Some m)) \<and> m \<le> c \<and>
    (\<forall>r \<in> set rs. \<forall>v. suggestion r = Some v \<longrightarrow> m \<le> v)"
  using assms
proof (induction rs arbitrary: c)
  case (Cons r rs)
  let ?c = "case suggestion r of None \<Rightarrow> c | Some v \<Rightarrow> if v < c then v else c"
  have e: "comp_enter r c = Some ?c" using Cons.prems by (simp add: comp_enter_def suggestion_def Let_def)
  obtain m where m: "comp_loop rs ?c = Some m" "m = ?c \<or> (\<exists>r \<in> set rs. suggestion r = Some m)" "m \<le> ?c"
    "\<forall>r \<in> set rs. \<forall>v. suggestion r = Some v \<longrightarrow> m \<le> v"
    using Cons.IH [of ?c] Cons.prems by auto
  have "?c \<le> c" "?c = c \<or> suggestion r = Some ?c" "\<And>v. suggestion r = Some v \<Longrightarrow> ?c \<le> v" by (auto split: option.splits)
  then show ?case using m e by (intro exI [of _ m]) (auto intro: order_trans)
qed simp

theorem tickless_stat_of_ring:
  assumes "ring_of h s" and "h \<noteq> []" and "length h \<le> 16" and "\<And>r. r \<in> set h \<Longrightarrow> vr_count r \<noteq> 0"
  shows "\<exists>m i. tickless_verify_stat s = Some (sum_list (map need_diff h) sdiv int (length h), length h, m, i) \<and>
    (m = - 1 \<or> (\<exists>r \<in> set h. suggestion r = Some m)) \<and> (\<forall>r \<in> set h. \<forall>v. suggestion r = Some v \<longrightarrow> m \<le> v)"
proof -
  have t: "take (length h) (verify_records s) = h"
    using assms(1,3) by (intro nth_equalityI) (auto simp: ring_of_def)
  have f: "fold (\<lambda>r a. a + need_diff r) rs a = a + sum_list (map need_diff rs)" for rs a
    by (induction rs arbitrary: a) simp_all
  have v: "verify_times s = length h" using assms(1) by (simp add: ring_of_def)
  have l: "(if length h \<ge> 16 then 16 else length h) = length h" using assms(3) by simp
  obtain m where m: "comp_loop h (- 1) = Some m" "m = - 1 \<or> (\<exists>r \<in> set h. suggestion r = Some m)"
    "\<forall>r \<in> set h. \<forall>v. suggestion r = Some v \<longrightarrow> m \<le> v" using comp_loop_spec [OF assms(4)] by blast
  have "tickless_verify_stat s = Some (sum_list (map need_diff h) sdiv int (length h), length h, m, fold (comp_interrupted m) h (- 1))"
    unfolding tickless_verify_stat_def v l Let_def t f m(1) using assms(2) by simp
  then show ?thesis using m(2,3) by blast
qed

theorem tickless_stat_before_measurement: "ring_of [] s \<Longrightarrow> tickless_verify_stat s = None"
  by (simp add: tickless_verify_stat_def ring_of_def)

end
