(* ===== verification/Message.thy ===== *)
theory Message
  imports Ktimer
begin

text \<open>
  Messages: the message registers of a thread (\<open>ipc_read_mr\<close> and \<open>ipc_write_mr\<close> of \<^verbatim>\<open>kernel/ipc.c\<close>)
  and the layout of the message tag, of typed items and of timeouts (\<^verbatim>\<open>include/l4/ipc.h\<close>). A thread has 48
  registers: 8 in the saved context, 32 in the message buffer of its TCB and 8 in its UTCB.
\<close>

subsection \<open>Registers\<close>

abbreviation (input) IPC_MR_COUNT :: nat where "IPC_MR_COUNT \<equiv> 48"

definition ipc_read_mr :: "ptr \<Rightarrow> nat \<Rightarrow> 'z tstate_scheme \<Rightarrow> u32 result" where
  "ipc_read_mr from i s =
     (if i < 8 then Ok (regs (ctx (tcbs s from)) ! i)
      else if i < 40 then Ok (msg_buffer (tcbs s from) ! (i - 8))
      else if utcb (tcbs s from) = NULL then Fault (Null_deref ''ipc_read_mr: utcb->mr'')
      else if IPC_MR_COUNT \<le> i then Fault (Out_of_bounds ''ipc_read_mr: utcb->mr'')
      else Ok (mr (utcbs s (utcb (tcbs s from))) ! (i - 40)))"

definition ipc_write_mr :: "ptr \<Rightarrow> nat \<Rightarrow> u32 \<Rightarrow> 'z tstate_scheme \<Rightarrow> 'z tstate_scheme result" where
  "ipc_write_mr to i v s =
     (if i < 8 then Ok (tcb_upd to (\<lambda>t. t\<lparr>ctx := (ctx t)\<lparr>regs := (regs (ctx t))[i := v]\<rparr>\<rparr>) s)
      else if i < 40 then Ok (tcb_upd to (\<lambda>t. t\<lparr>msg_buffer := (msg_buffer t)[i - 8 := v]\<rparr>) s)
      else if utcb (tcbs s to) = NULL then Fault (Null_deref ''ipc_write_mr: utcb->mr'')
      else if IPC_MR_COUNT \<le> i then Fault (Out_of_bounds ''ipc_write_mr: utcb->mr'')
      else Ok (utcb_upd (utcb (tcbs s to)) (\<lambda>u. u\<lparr>mr := (mr u)[i - 40 := v]\<rparr>) s))"

subsection \<open>Layout of a tag, a typed item and a timeout\<close>

definition n_untyped :: "u32 \<Rightarrow> nat" where "n_untyped tag = unat (tag AND 0x3F)"
definition n_typed :: "u32 \<Rightarrow> nat" where "n_typed tag = unat (drop_bit 6 tag AND 0x3F)"
definition tag_flags :: "u32 \<Rightarrow> u32" where "tag_flags tag = drop_bit 12 tag AND 0xF"
definition tag_label :: "u32 \<Rightarrow> u32" where "tag_label tag = drop_bit 16 tag"

definition mk_tag :: "nat \<Rightarrow> nat \<Rightarrow> u32 \<Rightarrow> u32 \<Rightarrow> u32" where
  "mk_tag u t f l = of_nat u OR push_bit 6 (of_nat t) OR push_bit 12 f OR push_bit 16 l"

definition item_header :: "u32 \<Rightarrow> u32" where "item_header item = item AND 0xF"

abbreviation (input) IPC_TI_MAP_GRANT :: u32 where "IPC_TI_MAP_GRANT \<equiv> 8"
abbreviation (input) IPC_TI_GRANT :: u32 where "IPC_TI_GRANT \<equiv> 2"

text \<open>\<open>ipc_time_t\<close> is 16 bits wide: mantissa of 10 bits, exponent of 5.\<close>

definition time_m :: "u32 \<Rightarrow> u32" where "time_m raw = raw AND 0x3FF"
definition time_e :: "u32 \<Rightarrow> nat" where "time_e raw = unat (drop_bit 10 raw AND 0x1F)"

subsection \<open>Errors of a message transfer\<close>

definition user_ipc_error :: "ptr \<Rightarrow> user_error_t \<Rightarrow> 'z tstate_scheme \<Rightarrow> 'z tstate_scheme result" where
  "user_ipc_error thr e s =
     rbind (ipc_read_mr thr 0 s) (\<lambda>tag.
     rbind (ipc_write_mr thr 0 (tag OR push_bit 12 8) s) (\<lambda>s.
     set_user_error thr e s))"

subsection \<open>Laws\<close>

text \<open>A thread whose three register files have their declared sizes.\<close>

definition mrs_ok :: "ptr \<Rightarrow> 'z tstate_scheme \<Rightarrow> bool" where
  "mrs_ok p s \<longleftrightarrow> length (regs (ctx (tcbs s p))) = 8 \<and> length (msg_buffer (tcbs s p)) = 32 \<and>
     utcb (tcbs s p) \<noteq> NULL \<and> length (mr (utcbs s (utcb (tcbs s p)))) = 8"

text \<open>The register file of a thread, all 48 registers.\<close>

definition mr_file :: "ptr \<Rightarrow> 'z tstate_scheme \<Rightarrow> u32 list" where
  "mr_file p s = regs (ctx (tcbs s p)) @ msg_buffer (tcbs s p) @ mr (utcbs s (utcb (tcbs s p)))"

lemma length_mr_file: "mrs_ok p s \<Longrightarrow> length (mr_file p s) = 48"
  by (simp add: mrs_ok_def mr_file_def)

lemma ipc_read_mr_file: "mrs_ok p s \<Longrightarrow> i < 48 \<Longrightarrow> ipc_read_mr p i s = Ok (mr_file p s ! i)"
  by (auto simp: mrs_ok_def ipc_read_mr_def mr_file_def nth_append)

text \<open>Threads have different UTCBs.\<close>

definition own_utcb :: "ptr \<Rightarrow> ptr \<Rightarrow> 'z tstate_scheme \<Rightarrow> bool" where
  "own_utcb p q s \<longleftrightarrow> p \<noteq> q \<and> utcb (tcbs s p) \<noteq> utcb (tcbs s q)"

lemma ipc_write_mr_ok:
  assumes "mrs_ok p s" "i < 48"
  obtains s' where "ipc_write_mr p i v s = Ok s'" "mrs_ok p s'" "mr_file p s' = (mr_file p s)[i := v]"
    "\<And>q. own_utcb q p s \<Longrightarrow> mr_file q s' = mr_file q s \<and> mrs_ok q s' = mrs_ok q s"
    "\<And>q. utcb (tcbs s' q) = utcb (tcbs s q)"
proof -
  consider "i < 8" | "8 \<le> i" "i < 40" | "40 \<le> i" by linarith
  then show thesis
  proof cases
    case 1
    then show ?thesis
      using assms by (intro that [of "tcb_upd p (\<lambda>t. t\<lparr>ctx := (ctx t)\<lparr>regs := (regs (ctx t))[i := v]\<rparr>\<rparr>) s"])
        (auto simp: ipc_write_mr_def mr_file_def mrs_ok_def own_utcb_def list_update_append)
  next
    case 2
    then show ?thesis
      using assms by (intro that [of "tcb_upd p (\<lambda>t. t\<lparr>msg_buffer := (msg_buffer t)[i - 8 := v]\<rparr>) s"])
        (auto simp: ipc_write_mr_def mr_file_def mrs_ok_def own_utcb_def list_update_append)
  next
    case 3
    then show ?thesis
      using assms by (intro that [of "utcb_upd (utcb (tcbs s p)) (\<lambda>u. u\<lparr>mr := (mr u)[i - 40 := v]\<rparr>) s"])
        (auto simp: ipc_write_mr_def mr_file_def mrs_ok_def own_utcb_def list_update_append)
  qed
qed

text \<open>Message registers are 48 independent cells per thread: after writing one, reading it gives the value
  written, every other register of the thread and every register of a thread with another UTCB reads as
  before.\<close>

theorem ipc_write_read_mr:
  assumes ok: "mrs_ok p s" and i: "i < 48" "j < 48"
  shows "\<exists>s'. ipc_write_mr p i v s = Ok s' \<and> mrs_ok p s' \<and>
    ipc_read_mr p j s' = (if j = i then Ok v else ipc_read_mr p j s) \<and>
    (\<forall>q. own_utcb q p s \<and> mrs_ok q s \<longrightarrow> ipc_read_mr q j s' = ipc_read_mr q j s)"
proof -
  obtain s' where s': "ipc_write_mr p i v s = Ok s'" "mrs_ok p s'" "mr_file p s' = (mr_file p s)[i := v]"
      "\<And>q. own_utcb q p s \<Longrightarrow> mr_file q s' = mr_file q s \<and> mrs_ok q s' = mrs_ok q s"
    by (rule ipc_write_mr_ok [OF ok i(1), of v]) blast
  have "ipc_read_mr p j s' = (if j = i then Ok v else ipc_read_mr p j s)"
    using s'(2,3) ok i length_mr_file [OF ok] by (simp add: ipc_read_mr_file nth_list_update)
  then show ?thesis using s' i by (auto simp: ipc_read_mr_file)
qed

definition msg_example :: tstate where
  "msg_example = boot\<lparr>tcbs := (\<lambda>p. tcb0\<lparr>utcb := p + 256\<rparr>)\<rparr>"

lemma msg_example_ok: "p + 256 \<noteq> 0 \<Longrightarrow> mrs_ok p msg_example"
  by (simp add: mrs_ok_def msg_example_def tcb0_def boot_def utcb0_def)

theorem ipc_write_read_mr_witness:
  "\<exists>s'. ipc_write_mr 4096 41 7 msg_example = Ok s' \<and> ipc_read_mr 4096 41 s' = Ok 7 \<and>
     ipc_read_mr 8192 41 s' = ipc_read_mr 8192 41 msg_example"
proof -
  have "own_utcb 8192 4096 msg_example" by (simp add: own_utcb_def msg_example_def)
  then show ?thesis
    using ipc_write_read_mr [OF msg_example_ok, of 4096 41 41 7] msg_example_ok [of 8192] by auto
qed

end
