(* ===== verification/Interrupt.thy ===== *)
theory Interrupt
  imports Message
begin

text \<open>
  Interrupts handled by user threads, \<^verbatim>\<open>kernel/interrupt.c\<close>: the table of registrations, the queue of raised
  interrupts and the two ways of delivery (a message to a thread that waits for interrupts, or a notification).
  Interrupt numbers are those of the STM32F4 (\<open>IRQn_NUM\<close> = 82). The interrupt controller is an enabled and
  a pending bit per number; \<open>irq_vector\<close> says for which numbers the vector table holds a handler other than
  \<open>_undefined_handler\<close>. The walk along the queue takes fuel: \<open>IRQ_FUEL\<close> is one more than the number of
  registrations.
\<close>

subsection \<open>State\<close>

record user_irq =
  thr_id :: u32
  ui_irq :: nat
  ui_action :: u16
  ui_priority :: u16
  ui_flags :: u16
  ui_handler :: ptr
  ui_next :: ptr

record istate = ktstate +
  uirqs :: "ptr \<Rightarrow> user_irq"
  user_irqs :: "nat \<Rightarrow> ptr"
  user_irq_table :: ktable
  user_irq_queue_head :: ptr
  user_irq_queue_tail :: ptr
  irq_vector :: "nat \<Rightarrow> bool"
  nvic_enabled :: "nat \<Rightarrow> bool"
  nvic_pending :: "nat \<Rightarrow> bool"

abbreviation (input) IRQn_NUM :: nat where "IRQn_NUM \<equiv> 82"
abbreviation (input) USER_INTERRUPT_LABEL :: u32 where "USER_INTERRUPT_LABEL \<equiv> 0x928"
abbreviation (input) IRQ_IPC_IRQN :: nat where "IRQ_IPC_IRQN \<equiv> 0"
abbreviation (input) IRQ_IPC_TID :: nat where "IRQ_IPC_TID \<equiv> 1"
abbreviation (input) IRQ_IPC_HANDLER :: nat where "IRQ_IPC_HANDLER \<equiv> 2"
abbreviation (input) IRQ_IPC_ACTION :: nat where "IRQ_IPC_ACTION \<equiv> 3"
abbreviation (input) IRQ_IPC_PRIORITY :: nat where "IRQ_IPC_PRIORITY \<equiv> 4"
abbreviation (input) IRQ_IPC_FLAGS :: nat where "IRQ_IPC_FLAGS \<equiv> 5"
abbreviation (input) IRQ_IPC_MSG_NUM :: nat where "IRQ_IPC_MSG_NUM \<equiv> 5"
abbreviation (input) USER_IRQ_ENABLE :: u16 where "USER_IRQ_ENABLE \<equiv> 0"
abbreviation (input) USER_IRQ_DISABLE :: u16 where "USER_IRQ_DISABLE \<equiv> 1"
abbreviation (input) USER_IRQ_FREE :: u16 where "USER_IRQ_FREE \<equiv> 2"
abbreviation (input) IRQ_DELIVER_IPC :: u16 where "IRQ_DELIVER_IPC \<equiv> 0"
abbreviation (input) IRQ_DELIVER_NOTIFY :: u16 where "IRQ_DELIVER_NOTIFY \<equiv> 1"

definition IRQ_FUEL :: nat where "IRQ_FUEL = 83"

definition ui_upd :: "ptr \<Rightarrow> (user_irq \<Rightarrow> user_irq) \<Rightarrow> 'z istate_scheme \<Rightarrow> 'z istate_scheme" where
  "ui_upd p f s = s\<lparr>uirqs := (uirqs s)(p := f (uirqs s p))\<rparr>"

subsection \<open>The interrupt controller\<close>

definition nvic_is_setup :: "nat \<Rightarrow> 'z istate_scheme \<Rightarrow> bool result" where
  "nvic_is_setup irq s = (if irq < IRQn_NUM then Ok (irq_vector s irq) else Fault (Out_of_bounds ''g_pfnVectors''))"

definition NVIC_EnableIRQ :: "nat \<Rightarrow> 'z istate_scheme \<Rightarrow> 'z istate_scheme" where
  "NVIC_EnableIRQ irq s = s\<lparr>nvic_enabled := (nvic_enabled s)(irq := True)\<rparr>"

definition NVIC_DisableIRQ :: "nat \<Rightarrow> 'z istate_scheme \<Rightarrow> 'z istate_scheme" where
  "NVIC_DisableIRQ irq s = s\<lparr>nvic_enabled := (nvic_enabled s)(irq := False)\<rparr>"

definition NVIC_SetPendingIRQ :: "nat \<Rightarrow> 'z istate_scheme \<Rightarrow> 'z istate_scheme" where
  "NVIC_SetPendingIRQ irq s = s\<lparr>nvic_pending := (nvic_pending s)(irq := True)\<rparr>"

definition NVIC_ClearPendingIRQ :: "nat \<Rightarrow> 'z istate_scheme \<Rightarrow> 'z istate_scheme" where
  "NVIC_ClearPendingIRQ irq s = s\<lparr>nvic_pending := (nvic_pending s)(irq := False)\<rparr>"

definition user_irq_enable :: "nat \<Rightarrow> 'z istate_scheme \<Rightarrow> 'z istate_scheme result" where
  "user_irq_enable irq s =
     rbind (nvic_is_setup irq s) (\<lambda>b. Ok (if b then NVIC_EnableIRQ irq s else s))"

definition user_irq_disable :: "nat \<Rightarrow> 'z istate_scheme \<Rightarrow> 'z istate_scheme result" where
  "user_irq_disable irq s =
     rbind (nvic_is_setup irq s) (\<lambda>b. Ok (if b then NVIC_DisableIRQ irq (NVIC_ClearPendingIRQ irq s) else s))"

definition user_irq_set_pending :: "nat \<Rightarrow> 'z istate_scheme \<Rightarrow> 'z istate_scheme result" where
  "user_irq_set_pending irq s =
     rbind (nvic_is_setup irq s) (\<lambda>b. Ok (if b then NVIC_SetPendingIRQ irq s else s))"

definition user_irq_clear_pending :: "nat \<Rightarrow> 'z istate_scheme \<Rightarrow> 'z istate_scheme result" where
  "user_irq_clear_pending irq s =
     rbind (nvic_is_setup irq s) (\<lambda>b. Ok (if b then NVIC_ClearPendingIRQ irq s else s))"

subsection \<open>The queue of raised interrupts\<close>

definition user_irq_queue_is_empty :: "'z istate_scheme \<Rightarrow> bool" where
  "user_irq_queue_is_empty s \<longleftrightarrow> user_irq_queue_head s = NULL"

definition user_irq_queue_push :: "ptr \<Rightarrow> 'z istate_scheme \<Rightarrow> 'z istate_scheme result" where
  "user_irq_queue_push uirq s =
     (if user_irq_queue_is_empty s
      then Ok (s\<lparr>user_irq_queue_head := uirq, user_irq_queue_tail := uirq\<rparr>)
      else if user_irq_queue_tail s = NULL then Fault (Null_deref ''user_irq_queue_push: tail->next'')
      else Ok ((ui_upd (user_irq_queue_tail s) (ui_next_update (\<lambda>_. uirq)) s)\<lparr>user_irq_queue_tail := uirq\<rparr>))"

text \<open>The walk for \<open>uirq\<close>: its predecessor (NULL for the head) if it is found.\<close>

fun uq_walk :: "nat \<Rightarrow> ptr \<Rightarrow> ptr \<Rightarrow> ptr \<Rightarrow> 'z istate_scheme \<Rightarrow> ptr option result" where
  "uq_walk 0 uirq prev iter s = Fault (Diverges ''user_irq_queue_delete'')"
| "uq_walk (Suc n) uirq prev iter s =
     (if iter = NULL then Ok None
      else if iter = uirq then Ok (Some prev)
      else uq_walk n uirq iter (ui_next (uirqs s iter)) s)"

definition user_irq_queue_delete :: "nat \<Rightarrow> 'z istate_scheme \<Rightarrow> 'z istate_scheme result" where
  "user_irq_queue_delete irq s =
     (let uirq = user_irqs s irq in
      rbind (uq_walk IRQ_FUEL uirq NULL (user_irq_queue_head s) s) (\<lambda>r.
      case r of
        None \<Rightarrow> Ok s
      | Some prev \<Rightarrow>
          let nx = ui_next (uirqs s uirq);
              s = (if prev = NULL then s\<lparr>user_irq_queue_head := nx\<rparr> else ui_upd prev (ui_next_update (\<lambda>_. nx)) s);
              s = (if user_irq_queue_tail s = uirq then s\<lparr>user_irq_queue_tail := prev\<rparr> else s)
          in Ok (ui_upd uirq (ui_next_update (\<lambda>_. NULL)) s)))"

subsection \<open>Registrations\<close>

definition user_irq_reset_all :: "'z istate_scheme \<Rightarrow> 'z istate_scheme" where
  "user_irq_reset_all s = fold (\<lambda>i s. s\<lparr>user_irqs := (user_irqs s)(i := NULL)\<rparr>) [0..<IRQn_NUM] s"

definition user_irq_create_default :: "nat \<Rightarrow> 'z istate_scheme \<Rightarrow> (ptr \<times> 'z istate_scheme) result" where
  "user_irq_create_default irq s =
     (if irq < IRQn_NUM then
        case ktable_alloc (user_irq_table s) of (uirq, kt) \<Rightarrow>
          if uirq = NULL then Fault (Null_deref ''user_irq_create_default: uirq->thr_id'')
          else Ok (uirq, ui_upd uirq (\<lambda>_. \<lparr>thr_id = L4_NILTHREAD, ui_irq = irq, ui_action = 0, ui_priority = 0,
                 ui_flags = IRQ_DELIVER_IPC, ui_handler = NULL, ui_next = NULL\<rparr>) (s\<lparr>user_irq_table := kt\<rparr>))
      else Ok (NULL, s))"

definition user_irq_fetch :: "nat \<Rightarrow> 'z istate_scheme \<Rightarrow> (ptr \<times> 'z istate_scheme) result" where
  "user_irq_fetch irq s =
     (if user_irqs s irq = NULL
      then rbind (user_irq_create_default irq s) (\<lambda>(uirq, s). Ok (uirq, s\<lparr>user_irqs := (user_irqs s)(irq := uirq)\<rparr>))
      else Ok (user_irqs s irq, s))"

definition user_irq_release :: "nat \<Rightarrow> 'z istate_scheme \<Rightarrow> 'z istate_scheme" where
  "user_irq_release irq s =
     (if irq < IRQn_NUM \<and> user_irqs s irq \<noteq> NULL
      then s\<lparr>user_irq_table := ktable_free (user_irq_table s) (user_irqs s irq),
             user_irqs := (user_irqs s)(irq := NULL)\<rparr>
      else s)"

subsection \<open>Delivery\<close>

definition irq_handler_ipc :: "ptr \<Rightarrow> 'z istate_scheme \<Rightarrow> 'z istate_scheme result" where
  "irq_handler_ipc uirq s =
     (if uirq = NULL \<or> thr_id (uirqs s uirq) = L4_NILTHREAD then Ok s
      else
        let u = uirqs s uirq; thr = thread_by_globalid (thr_id u) s in
        if thr = NULL then Ok s
        else
          rbind (ipc_write_mr thr 0 (mk_tag IRQ_IPC_MSG_NUM 0 0 USER_INTERRUPT_LABEL) s) (\<lambda>s.
          rbind (ipc_write_mr thr (IRQ_IPC_IRQN + 1) (of_nat (ui_irq u)) s) (\<lambda>s.
          rbind (ipc_write_mr thr (IRQ_IPC_HANDLER + 1) (ui_handler u) s) (\<lambda>s.
          rbind (ipc_write_mr thr (IRQ_IPC_ACTION + 1) (ucast (ui_action u)) s) (\<lambda>s.
          if utcb (tcbs s thr) = NULL then Fault (Null_deref ''irq_handler_ipc: utcb->sender'')
          else
            let s = utcb_upd (utcb (tcbs s thr)) (sender_update (\<lambda>_. TID_TO_GLOBALID THREAD_INTERRUPT)) s
            in Ok (tcb_upd thr (ipc_from_update (\<lambda>_. L4_NILTHREAD)) s))))))"

definition irq_handler_notify :: "ptr \<Rightarrow> 'z istate_scheme \<Rightarrow> 'z istate_scheme result" where
  "irq_handler_notify uirq s =
     (if uirq = NULL \<or> thr_id (uirqs s uirq) = L4_NILTHREAD then Ok s
      else
        let u = uirqs s uirq; thr = thread_by_globalid (thr_id u) s in
        if thr = NULL then Ok s
        else
          let (notify_bit, event_data) =
                (if ui_irq u < 31 then (push_bit (ui_irq u) 1, 0) else (push_bit 31 1, of_nat (ui_irq u)))
          in rbind (notification_post thr notify_bit event_data s) (\<lambda>(_, s). Ok s))"

definition irq_handler_enable :: "nat \<Rightarrow> 'z istate_scheme \<Rightarrow> (int \<times> 'z istate_scheme) result" where
  "irq_handler_enable irq s =
     (let uirq = user_irqs s irq in
      if uirq = NULL then Fault (Assertion ''(intptr_t) uirq'')
      else if thr_id (uirqs s uirq) = L4_NILTHREAD then Ok (-1, s)
      else if ui_flags (uirqs s uirq) AND IRQ_DELIVER_NOTIFY \<noteq> 0
      then rbind (irq_handler_notify uirq s) (\<lambda>s. Ok (0, s))
      else
        let thr = thread_by_globalid (thr_id (uirqs s uirq)) s in
        if thr = NULL then Ok (-1, s)
        else if state (tcbs s thr) \<noteq> T_RECV_BLOCKED then Ok (-1, s)
        else
          rbind (irq_handler_ipc uirq s) (\<lambda>s.
          let s = tcb_upd thr (\<lambda>t. t\<lparr>priority := SCHED_PRIO_INTR, state := T_RUNNABLE\<rparr>) s
          in rbind (sched_enqueue thr s) (\<lambda>s. Ok (0, s))))"

definition irq_schedule :: "nat \<Rightarrow> 'z istate_scheme \<Rightarrow> 'z istate_scheme result" where
  "irq_schedule irq s =
     rbind (user_irq_fetch irq s) (\<lambda>(uirq, s).
     rbind (user_irq_queue_push uirq s) (\<lambda>s.
     rbind (irq_handler_enable irq s) (\<lambda>(_, s). Ok s)))"

text \<open>\<open>__interrupt_handler\<close>\<close>

definition interrupt_handler :: "nat \<Rightarrow> 'z istate_scheme \<Rightarrow> 'z istate_scheme result" where
  "interrupt_handler irq s =
     rbind (user_irq_fetch irq s) (\<lambda>(uirq, s).
     if uirq = NULL \<or> thr_id (uirqs s uirq) = L4_NILTHREAD \<or> ui_handler (uirqs s uirq) = NULL \<or>
        ui_action (uirqs s uirq) \<noteq> USER_IRQ_ENABLE
     then Ok s
     else rbind (user_irq_disable irq s) (irq_schedule irq))"

definition interrupt_init :: "'z istate_scheme \<Rightarrow> 'z istate_scheme" where
  "interrupt_init s = user_irq_reset_all s"

subsection \<open>Configuration by user threads\<close>

definition uirq_config :: "u32 \<Rightarrow> u16 \<Rightarrow> ptr \<Rightarrow> u16 \<Rightarrow> u16 \<Rightarrow> user_irq \<Rightarrow> user_irq" where
  "uirq_config tid action hdl prio flags u =
     (let u = (if tid \<noteq> L4_NILTHREAD then u\<lparr>thr_id := tid\<rparr> else u);
          u = u\<lparr>ui_action := action\<rparr>;
          u = (if hdl \<noteq> NULL then u\<lparr>ui_handler := hdl\<rparr> else u);
          u = (if prio > 0 then u\<lparr>ui_priority := prio\<rparr> else u)
      in u\<lparr>ui_flags := flags\<rparr>)"

definition user_interrupt_config :: "ptr \<Rightarrow> 'z istate_scheme \<Rightarrow> 'z istate_scheme result" where
  "user_interrupt_config from s =
     rbind (ipc_read_mr from 0 s) (\<lambda>tag.
     if tag_label tag \<noteq> USER_INTERRUPT_LABEL then Ok s
     else
       let r = regs (ctx (tcbs s from));
           irq = unat (ucast (r ! (IRQ_IPC_IRQN + 1)) :: u16);
           tid = r ! (IRQ_IPC_TID + 1);
           action = ucast (r ! (IRQ_IPC_ACTION + 1));
           hdl = r ! (IRQ_IPC_HANDLER + 1);
           prio = ucast (r ! (IRQ_IPC_PRIORITY + 1));
           flags = ucast (r ! (IRQ_IPC_FLAGS + 1))
       in rbind (user_irq_disable irq s) (\<lambda>s.
          if \<not> irq < IRQn_NUM then Ok s
          else rbind (user_irq_fetch irq s) (\<lambda>(uirq, s).
               if uirq = NULL then Ok s
               else Ok (ui_upd uirq (uirq_config tid action hdl prio flags) s))))"

text \<open>The \<open>switch\<close> on the action of a registration of \<open>thr\<close>.\<close>

definition update_action :: "ptr \<Rightarrow> nat \<Rightarrow> ptr \<Rightarrow> 'z istate_scheme \<Rightarrow> 'z istate_scheme result" where
  "update_action thr irq uirq s =
     rbind (user_irq_clear_pending irq s) (\<lambda>s.
     if ui_action (uirqs s uirq) = USER_IRQ_ENABLE then user_irq_enable irq s
     else if ui_action (uirqs s uirq) = USER_IRQ_DISABLE
     then rbind (user_irq_queue_delete irq s) (user_irq_disable irq)
     else if ui_action (uirqs s uirq) = USER_IRQ_FREE
     then rbind (irq_handler_ipc uirq s) (\<lambda>s.
          rbind (sched_enqueue thr (set_state thr T_RUNNABLE s)) (\<lambda>s.
          rbind (user_irq_queue_delete irq s) (\<lambda>s. Ok (user_irq_release irq s))))
     else Ok s)"

fun update_loop :: "nat list \<Rightarrow> ptr \<Rightarrow> 'z istate_scheme \<Rightarrow> 'z istate_scheme result" where
  "update_loop [] thr s = Ok s"
| "update_loop (irq # irqs) thr s =
     rbind (user_irq_fetch irq s) (\<lambda>(uirq, s).
     if uirq = NULL then update_loop irqs thr s
     else if thr_id (uirqs s uirq) = t_globalid (tcbs s thr) then update_action thr irq uirq s
     else update_loop irqs thr s)"

definition user_interrupt_handler_update :: "ptr \<Rightarrow> 'z istate_scheme \<Rightarrow> 'z istate_scheme result" where
  "user_interrupt_handler_update thr s =
     (if thr = NULL then Ok s else update_loop [0..<IRQn_NUM] thr s)"

subsection \<open>Registrations and the table\<close>

text \<open>The elements of the table in use are the registrations, one per interrupt number.\<close>

definition irq_live :: "'z istate_scheme \<Rightarrow> nat set" where
  "irq_live s = {i. i < IRQn_NUM \<and> user_irqs s i \<noteq> NULL}"

definition irq_inv :: "'z istate_scheme \<Rightarrow> bool" where
  "irq_inv s \<longleftrightarrow> kt_wf (user_irq_table s) \<and> knum (user_irq_table s) = IRQn_NUM \<and>
     kt_used (user_irq_table s) = user_irqs s ` irq_live s \<and> inj_on (user_irqs s) (irq_live s)"

lemma irq_live_less: "irq < IRQn_NUM \<Longrightarrow> user_irqs s irq = NULL \<Longrightarrow> card (irq_live s) < IRQn_NUM"
proof -
  assume a: "irq < IRQn_NUM" "user_irqs s irq = NULL"
  then have "irq_live s \<subset> {..<IRQn_NUM}" by (auto simp: irq_live_def)
  then have "card (irq_live s) < card {..<IRQn_NUM}" by (intro psubset_card_mono) auto
  then show ?thesis by simp
qed

lemma user_irq_fetch_inv:
  assumes inv: "irq_inv s" and i: "irq < IRQn_NUM"
  obtains p s' where "user_irq_fetch irq s = Ok (p, s')" "p \<noteq> NULL" "irq_inv s'"
    "user_irqs s' = (user_irqs s)(irq := p)"
proof (cases "user_irqs s irq = NULL")
  case False
  then show ?thesis using that [of "user_irqs s irq" s] inv by (simp add: user_irq_fetch_def)
next
  case True
  let ?kt = "user_irq_table s"
  have w: "kt_wf ?kt" "knum ?kt = 82" "kt_used ?kt = user_irqs s ` irq_live s" using inv by (simp_all add: irq_inv_def)
  have "finite (irq_live s)" by (auto simp: irq_live_def)
  then have "card (kt_used ?kt) < 82"
    using irq_live_less [OF i True] card_image_le [of "irq_live s" "user_irqs s"] w(3) by simp
  then have "kt_used ?kt \<noteq> kt_slots ?kt" using card_kt_slots [OF w(1)] w(2) by auto
  then obtain p kt' where a: "ktable_alloc ?kt = (p, kt')" "p \<noteq> NULL"
    using kt.alloc_nil_iff [OF w(1)] by (cases "ktable_alloc ?kt") auto
  note f = kt.alloc_fresh [OF w(1) a] kt.alloc_inv [OF w(1) a(1)]
  have k: "knum kt' = 82" using f card_kt_slots [OF w(1)] card_kt_slots [of kt'] w(2) by simp
  define s' where "s' = (ui_upd p (\<lambda>_. \<lparr>thr_id = L4_NILTHREAD, ui_irq = irq, ui_action = 0, ui_priority = 0,
    ui_flags = IRQ_DELIVER_IPC, ui_handler = NULL, ui_next = NULL\<rparr>) (s\<lparr>user_irq_table := kt'\<rparr>))
    \<lparr>user_irqs := (user_irqs s)(irq := p)\<rparr>"
  have u: "user_irqs s' = (user_irqs s)(irq := p)" "user_irq_table s' = kt'" by (simp_all add: s'_def ui_upd_def)
  have l: "irq_live s' = insert irq (irq_live s)" "irq \<notin> irq_live s"
    using i True a(2) by (auto simp: irq_live_def u(1))
  have im: "(user_irqs s)(irq := p) ` irq_live s = user_irqs s ` irq_live s"
    using l(2) by (intro image_cong) auto
  have "p \<notin> user_irqs s ` irq_live s" using f w(3) by simp
  then have "inj_on (user_irqs s') (irq_live s')"
    using inv l im by (auto simp: irq_inv_def u(1) inj_on_def)
  then have "irq_inv s'" using f k w(3) l im by (simp add: irq_inv_def u)
  moreover have "user_irq_fetch irq s = Ok (p, s')"
    using True i a by (simp add: user_irq_fetch_def user_irq_create_default_def s'_def ui_upd_def)
  ultimately show ?thesis using that [of p s'] a(2) u(1) f by simp
qed

lemma user_irq_release_inv:
  assumes inv: "irq_inv s" and i: "irq < IRQn_NUM"
  shows "irq_inv (user_irq_release irq s)" "user_irqs (user_irq_release irq s) = (user_irqs s)(irq := NULL)"
proof -
  show u: "user_irqs (user_irq_release irq s) = (user_irqs s)(irq := NULL)"
    using i by (auto simp: user_irq_release_def)
  show "irq_inv (user_irq_release irq s)"
  proof (cases "user_irqs s irq = NULL")
    case True
    then show ?thesis using inv by (simp add: user_irq_release_def)
  next
    case False
    let ?kt = "user_irq_table s" and ?p = "user_irqs s irq"
    have w: "kt_wf ?kt" "knum ?kt = 82" "kt_used ?kt = user_irqs s ` irq_live s" "inj_on (user_irqs s) (irq_live s)"
      using inv by (simp_all add: irq_inv_def)
    have m: "irq \<in> irq_live s" using False i by (simp add: irq_live_def)
    then have ps: "?p \<in> kt_slots ?kt" using kt.used_slots [OF w(1)] w(3) by auto
    have l: "irq_live (user_irq_release irq s) = irq_live s - {irq}" by (auto simp: irq_live_def u)
    have t: "user_irq_table (user_irq_release irq s) = ktable_free ?kt ?p" using False i by (simp add: user_irq_release_def)
    have n: "knum (ktable_free ?kt ?p) = 82" using w(2) by (simp add: ktable_free_def Let_def)
    have im: "(user_irqs s)(irq := NULL) ` (irq_live s - {irq}) = user_irqs s ` irq_live s - {?p}"
      using w(4) m by (auto simp: inj_on_def)
    have "inj_on ((user_irqs s)(irq := NULL)) (irq_live s - {irq})"
      using w(4) by (auto simp: inj_on_def)
    then show ?thesis
      using kt.free_used [OF w(1) ps] kt.free_inv [OF w(1) ps] w(3) im n by (simp add: irq_inv_def t l u)
  qed
qed


subsection \<open>The queue is never emptied\<close>

text \<open>A registered, enabled interrupt with delivery by message whose thread is not waiting (or is gone).\<close>

definition irq_busy :: "nat \<Rightarrow> ptr \<Rightarrow> 'z istate_scheme \<Rightarrow> bool" where
  "irq_busy irq p s \<longleftrightarrow> irq < IRQn_NUM \<and> user_irqs s irq = p \<and> p \<noteq> NULL \<and> thr_id (uirqs s p) \<noteq> L4_NILTHREAD \<and>
     ui_handler (uirqs s p) \<noteq> NULL \<and> ui_action (uirqs s p) = USER_IRQ_ENABLE \<and>
     ui_flags (uirqs s p) AND IRQ_DELIVER_NOTIFY = 0 \<and>
     (thread_by_globalid (thr_id (uirqs s p)) s = NULL \<or>
      state (tcbs s (thread_by_globalid (thr_id (uirqs s p)) s)) \<noteq> T_RECV_BLOCKED)"

lemma thread_by_globalid_more:
  "tcbs s' = tcbs s \<Longrightarrow> thread_map s' = thread_map s \<Longrightarrow> thread_count s' = thread_count s \<Longrightarrow>
    thread_by_globalid g s' = thread_by_globalid g s"
  by (rule thread_by_globalid_cong) simp_all

lemma irq_busy_cong:
  assumes "tcbs s' = tcbs s" "thread_map s' = thread_map s" "thread_count s' = thread_count s"
    "user_irqs s' = user_irqs s" "\<And>f. (uirqs s' p)\<lparr>ui_next := f\<rparr> = (uirqs s p)\<lparr>ui_next := f\<rparr>"
  shows "irq_busy irq p s' = irq_busy irq p s"
proof -
  have "thr_id (uirqs s' p) = thr_id (uirqs s p) \<and> ui_handler (uirqs s' p) = ui_handler (uirqs s p) \<and>
    ui_action (uirqs s' p) = ui_action (uirqs s p) \<and> ui_flags (uirqs s' p) = ui_flags (uirqs s p)"
    using assms(5) [of NULL] by (cases "uirqs s' p"; cases "uirqs s p") simp
  then show ?thesis using thread_by_globalid_more [OF assms(1-3)] assms(1,4) by (simp add: irq_busy_def)
qed

definition quiet :: "nat \<Rightarrow> 'z istate_scheme \<Rightarrow> 'z istate_scheme" where
  "quiet irq s = (if irq_vector s irq then NVIC_DisableIRQ irq (NVIC_ClearPendingIRQ irq s) else s)"

lemma quiet_sel [simp]:
  "tcbs (quiet i s) = tcbs s" "thread_map (quiet i s) = thread_map s" "thread_count (quiet i s) = thread_count s"
  "user_irqs (quiet i s) = user_irqs s" "uirqs (quiet i s) = uirqs s"
  "user_irq_queue_head (quiet i s) = user_irq_queue_head s" "user_irq_queue_tail (quiet i s) = user_irq_queue_tail s"
  by (simp_all add: quiet_def NVIC_DisableIRQ_def NVIC_ClearPendingIRQ_def)

text \<open>Such an interrupt is appended to the queue and nothing else happens.\<close>

lemma interrupt_handler_busy:
  assumes b: "irq_busy irq p s" and q: "user_irq_queue_head s = NULL \<or> user_irq_queue_tail s \<noteq> NULL"
  shows "\<exists>s'. interrupt_handler irq s = Ok s' \<and> user_irq_queue_push p (quiet irq s) = Ok s' \<and>
    (\<forall>i r. irq_busy i r s' = irq_busy i r s) \<and> user_irqs s' = user_irqs s"
proof -
  obtain s' where s': "user_irq_queue_push p (quiet irq s) = Ok s'"
    using q by (cases "user_irq_queue_head s = NULL") (simp_all add: user_irq_queue_push_def user_irq_queue_is_empty_def)
  have f: "tcbs s' = tcbs s" "thread_map s' = thread_map s" "thread_count s' = thread_count s"
    "user_irqs s' = user_irqs s" "(uirqs s' r)\<lparr>ui_next := x\<rparr> = (uirqs s r)\<lparr>ui_next := x\<rparr>" for r x
    using s' by (auto simp: user_irq_queue_push_def user_irq_queue_is_empty_def ui_upd_def split: if_splits)
  have bb: "irq_busy i r s' = irq_busy i r s" for i r by (rule irq_busy_cong) (simp_all add: f)
  have fetch: "user_irq_fetch irq x = Ok (p, x)" if "user_irqs x = user_irqs s" for x :: "'a istate_scheme"
    using b that by (simp add: user_irq_fetch_def irq_busy_def)
  have "irq_busy irq p s'" using b bb by simp
  then have "irq_handler_enable irq s' = Ok (-1, s')" by (auto simp: irq_handler_enable_def irq_busy_def Let_def)
  then have "irq_schedule irq (quiet irq s) = Ok s'"
    using s' fetch [of "quiet irq s"] by (simp add: irq_schedule_def)
  moreover have "user_irq_disable irq s = Ok (quiet irq s)"
    using b by (simp add: user_irq_disable_def nvic_is_setup_def quiet_def irq_busy_def)
  ultimately have "interrupt_handler irq s = Ok s'"
    using b fetch [of s] by (simp add: interrupt_handler_def irq_busy_def)
  then show ?thesis using s' bb f(4) by auto
qed

lemma uq_walk_cycle:
  assumes "ui_next (uirqs s a) = b" "ui_next (uirqs s b) = a" "a \<noteq> NULL" "b \<noteq> NULL" "u \<noteq> a" "u \<noteq> b"
  shows "uq_walk n u prev a s = Fault (Diverges ''user_irq_queue_delete'') \<and>
    uq_walk n u prev b s = Fault (Diverges ''user_irq_queue_delete'')"
  using assms by (induction n arbitrary: prev) auto

text \<open>Raised interrupts are queued and never taken off: when two interrupts \<open>i\<close> and \<open>j\<close> are raised and then
  \<open>i\<close> again, the second entry of \<open>i\<close> closes the queue to a cycle, and removing any other interrupt
  \<open>k\<close> from the queue (a step of disabling or freeing it) walks the cycle for ever, whatever the fuel.\<close>

theorem user_irq_queue_delete_hangs:
  assumes q: "user_irq_queue_head s = NULL" and b: "irq_busy i p s" "irq_busy j r s" "p \<noteq> r"
    and k: "user_irqs s k \<noteq> p" "user_irqs s k \<noteq> r"
  shows "\<exists>s1 s2 s3. interrupt_handler i s = Ok s1 \<and> interrupt_handler j s1 = Ok s2 \<and> interrupt_handler i s2 = Ok s3 \<and>
    (\<forall>n. uq_walk n (user_irqs s3 k) NULL (user_irq_queue_head s3) s3 = Fault (Diverges ''user_irq_queue_delete'')) \<and>
    user_irq_queue_delete k s3 = Fault (Diverges ''user_irq_queue_delete'')"
proof -
  have nn: "p \<noteq> NULL" "r \<noteq> NULL" using b by (simp_all add: irq_busy_def)
  obtain s1 where s1: "interrupt_handler i s = Ok s1" "user_irq_queue_push p (quiet i s) = Ok s1"
      "\<forall>i r. irq_busy i r s1 = irq_busy i r s" "user_irqs s1 = user_irqs s"
    using interrupt_handler_busy [OF b(1)] q by auto
  have q1: "user_irq_queue_head s1 = p" "user_irq_queue_tail s1 = p"
    using s1(2) q by (auto simp: user_irq_queue_push_def user_irq_queue_is_empty_def)
  obtain s2 where s2: "interrupt_handler j s1 = Ok s2" "user_irq_queue_push r (quiet j s1) = Ok s2"
      "\<forall>i r. irq_busy i r s2 = irq_busy i r s1" "user_irqs s2 = user_irqs s1"
    using interrupt_handler_busy [of j r s1] s1(3) b(2) q1 nn by auto
  have q2: "user_irq_queue_head s2 = p" "user_irq_queue_tail s2 = r" "ui_next (uirqs s2 p) = r"
    using s2(2) q1 nn by (auto simp: user_irq_queue_push_def user_irq_queue_is_empty_def ui_upd_def)
  obtain s3 where s3: "interrupt_handler i s2 = Ok s3" "user_irq_queue_push p (quiet i s2) = Ok s3"
      "user_irqs s3 = user_irqs s2"
    using interrupt_handler_busy [of i p s2] s1(3) s2(3) b(1) q2 nn by auto
  have q3: "user_irq_queue_head s3 = p" "ui_next (uirqs s3 p) = r" "ui_next (uirqs s3 r) = p"
    using s3(2) q2 nn b(3) by (auto simp: user_irq_queue_push_def user_irq_queue_is_empty_def ui_upd_def)
  have "user_irqs s3 k = user_irqs s k" using s1(4) s2(4) s3(3) by simp
  then have "uq_walk n (user_irqs s3 k) NULL (user_irq_queue_head s3) s3 = Fault (Diverges ''user_irq_queue_delete'')" for n
    using uq_walk_cycle [of s3 p r "user_irqs s k" n NULL] q3 nn k by simp
  then show ?thesis using s1(1) s2(1) s3(1) by (auto simp: user_irq_queue_delete_def Let_def)
qed

subsection \<open>Two registered interrupts\<close>

definition irq_example :: istate where
  "irq_example = ktstate.extend (kt_example 0 0)
     \<lparr>uirqs = (\<lambda>p. \<lparr>thr_id = TID_TO_GLOBALID 299, ui_irq = if p = 0x2000A000 then 6 else 7, ui_action = 0,
        ui_priority = 0, ui_flags = 0, ui_handler = 0x08000101, ui_next = NULL\<rparr>),
      user_irqs = (\<lambda>_. NULL)(6 := 0x2000A000, 7 := 0x2000A018),
      user_irq_table = \<lparr>tname = ''user_irq_table'', kbitmap = [3, 0, 0], kdata = 0x2000A000, knum = 82, ksize = 24\<rparr>,
      user_irq_queue_head = NULL, user_irq_queue_tail = NULL, irq_vector = (\<lambda>i. i \<in> {6, 7}),
      nvic_enabled = (\<lambda>i. i \<in> {6, 7}), nvic_pending = (\<lambda>_. False)\<rparr>"

lemma irq_example_sel [simp]:
  "user_irqs irq_example = (\<lambda>_. NULL)(6 := 0x2000A000, 7 := 0x2000A018)" "user_irq_queue_head irq_example = NULL"
  "user_irq_table irq_example = \<lparr>tname = ''user_irq_table'', kbitmap = [3, 0, 0], kdata = 0x2000A000, knum = 82, ksize = 24\<rparr>"
  "uirqs irq_example = (\<lambda>p. \<lparr>thr_id = TID_TO_GLOBALID 299, ui_irq = if p = 0x2000A000 then 6 else 7, ui_action = 0,
     ui_priority = 0, ui_flags = 0, ui_handler = 0x08000101, ui_next = NULL\<rparr>)"
  "tcbs irq_example = tcbs nboot" "thread_map irq_example = (\<lambda>_. 8192)" "thread_count irq_example = 1"
  by (simp_all add: irq_example_def ktstate.defs kt_example_def nstate.defs nboot_def tstate.defs)

lemma irq_example_inv: "irq_inv irq_example"
proof -
  have m: "(3 :: u32) = mask 2" by (simp add: mask_eq_exp_minus_1)
  have "i < 82 \<and> bit ([3 :: u32, 0, 0] ! (i div 32)) (i mod 32) \<longleftrightarrow> i \<in> {0, 1}" for i
  proof (cases "i < 32")
    case True
    then show ?thesis unfolding m by (auto simp: bit_mask_iff)
  next
    case False
    then have "i div 32 = 1 \<or> i div 32 = 2" if "i < 82" using that by linarith
    then show ?thesis using False by auto
  qed
  then have "{i. i < 82 \<and> bm_bit [3, 0, 0] i} = {0, 1}"
    unfolding bm_bit_def by blast
  then have "kt_used (user_irq_table irq_example) = {0x2000A000, 0x2000A018}"
    by (simp add: kt_used_def kt_elem_def)
  moreover have "irq_live irq_example = {6, 7}" by (auto simp: irq_live_def)
  ultimately show ?thesis by (auto simp: irq_inv_def kt_wf_def inj_on_def)
qed


theorem user_irq_queue_delete_hangs_witness:
  "\<exists>s1 s2 s3. interrupt_handler 6 irq_example = Ok s1 \<and> interrupt_handler 7 s1 = Ok s2 \<and>
     interrupt_handler 6 s2 = Ok s3 \<and> user_irq_queue_delete 8 s3 = Fault (Diverges ''user_irq_queue_delete'')"
proof -
  have t: "TID_TO_GLOBALID 299 \<noteq> 0" by (simp add: TID_TO_GLOBALID_def push_bit_eq_mult)
  have "thread_by_globalid (TID_TO_GLOBALID 299) irq_example = NULL"
    by (simp add: thread_by_globalid_def thread_map_search_def map_search_loop.simps tid_of_def tid_roundtrip)
  then have "irq_busy 6 0x2000A000 irq_example" "irq_busy 7 0x2000A018 irq_example"
    using t by (simp_all add: irq_busy_def)
  from user_irq_queue_delete_hangs [OF _ this, of 8] show ?thesis by auto
qed

end
