(* ===== verification/Ipc.thy ===== *)
theory Ipc
  imports Interrupt
begin

text \<open>
  Synchronous message passing: \<^verbatim>\<open>kernel/ipc.c\<close>, the fast path of \<^verbatim>\<open>include/platform/ipc-fastpath.h\<close> and the
  log service of \<^verbatim>\<open>kernel/user-log.c\<close>. The notification callback of a TCB is a function pointer; its meaning
  is the argument \<open>cb\<close> (pointer, thread, bits, data). \<open>ipc_syms\<close> holds two addresses: the kernel
  interface page and the local array \<open>regs\<close> of \<open>sys_ipc\<close>. Reading a word through the UTCB pointer of a
  thread without UTCB reads the store at address 0, which is readable memory on this machine.
\<close>

record ipc_syms =
  ipc_kip :: u32
  ipc_regs :: u32

type_synonym 'z notify_cb = "ptr \<Rightarrow> ptr \<Rightarrow> u32 \<Rightarrow> u32 \<Rightarrow> 'z istate_scheme \<Rightarrow> 'z istate_scheme result"

subsection \<open>Waking the partners\<close>

definition thread_make_runnable :: "ptr \<Rightarrow> 'z kstate_scheme \<Rightarrow> 'z kstate_scheme result" where
  "thread_make_runnable thr s = sched_enqueue thr (set_state thr T_RUNNABLE s)"

definition restore_base_priority :: "ptr \<Rightarrow> 'z kstate_scheme \<Rightarrow> 'z kstate_scheme result" where
  "restore_base_priority thr s =
     (if priority (tcbs s thr) \<noteq> base_priority (tcbs s thr)
      then sched_set_priority thr (base_priority (tcbs s thr)) s else Ok s)"

definition thread_make_sender_runnable :: "ptr \<Rightarrow> 'z kstate_scheme \<Rightarrow> 'z kstate_scheme result" where
  "thread_make_sender_runnable thr s = rbind (restore_base_priority thr s) (thread_make_runnable thr)"

subsection \<open>Transfer of a message\<close>

definition do_ipc_error :: "ptr \<Rightarrow> ptr \<Rightarrow> user_error_t \<Rightarrow> user_error_t \<Rightarrow> thread_state_t \<Rightarrow> thread_state_t \<Rightarrow>
    'z tstate_scheme \<Rightarrow> 'z tstate_scheme result" where
  "do_ipc_error from to from_err to_err from_state to_state s =
     rbind (user_ipc_error from from_err s) (\<lambda>s.
     rbind (user_ipc_error to to_err s) (\<lambda>s.
     Ok (set_state to to_state (set_state from from_state s))))"

definition ipc_abort :: "ptr \<Rightarrow> ptr \<Rightarrow> 'z tstate_scheme \<Rightarrow> 'z tstate_scheme result" where
  "ipc_abort from to s =
     do_ipc_error from to (UE_IPC_ABORTED OR UE_IPC_PHASE_SEND) (UE_IPC_ABORTED OR UE_IPC_PHASE_RECV)
       T_RUNNABLE T_RUNNABLE s"

definition copy_mr :: "ptr \<Rightarrow> ptr \<Rightarrow> nat \<Rightarrow> 'z tstate_scheme \<Rightarrow> 'z tstate_scheme result" where
  "copy_mr from to i s = rbind (ipc_read_mr from i s) (\<lambda>v. ipc_write_mr to i v s)"

definition map_item :: "ptr \<Rightarrow> ptr \<Rightarrow> u32 \<Rightarrow> u32 \<Rightarrow> 'z tstate_scheme \<Rightarrow> (int \<times> 'z tstate_scheme) result" where
  "map_item from to item dat s =
     rbind (map_area (t_as (tcbs s from)) (t_as (tcbs s to)) (item AND 0xFFFFFFC0) (dat AND 0xFFFFFFC0)
              (if item_header item AND IPC_TI_GRANT \<noteq> 0 then GRANT else MAP) (thread_ispriviliged from s) (mem s))
       (\<lambda>(r, m). Ok (r, s\<lparr>mem := m\<rparr>))"

text \<open>The typed words; \<open>item\<close> is the tag of the item being read, the flag of the result tells whether the
  transfer goes on.\<close>

fun copy_typed :: "nat list \<Rightarrow> ptr \<Rightarrow> ptr \<Rightarrow> u32 option \<Rightarrow> 'z tstate_scheme \<Rightarrow> (bool \<times> 'z tstate_scheme) result" where
  "copy_typed [] from to item s = Ok (True, s)"
| "copy_typed (i # is) from to item s =
     rbind (ipc_read_mr from i s) (\<lambda>mr_data.
     rbind (ipc_write_mr to i mr_data s) (\<lambda>s.
     case item of
       None \<Rightarrow> copy_typed is from to (Some mr_data) s
     | Some it \<Rightarrow>
         if item_header it AND IPC_TI_MAP_GRANT \<noteq> 0 then
           if \<not> addr_is_fpage_aligned (it AND 0xFFFFFFC0) then rbind (ipc_abort from to s) (\<lambda>s. Ok (False, s))
           else rbind (map_item from to it mr_data s) (\<lambda>(r, s).
                if r < 0 then rbind (ipc_abort from to s) (\<lambda>s. Ok (False, s))
                else copy_typed is from to None s)
         else copy_typed is from to (Some it) s))"

text \<open>Handing the message over: the receiver learns the sender and becomes ready, the sender continues or
  waits for its own receive phase.\<close>

definition ipc_deliver_to :: "ptr \<Rightarrow> ptr \<Rightarrow> 'z tstate_scheme \<Rightarrow> 'z tstate_scheme result" where
  "ipc_deliver_to from to s =
     (let s = wr (sp (ctx (tcbs s to))) REG_R0 (t_globalid (tcbs s from)) s in
      if utcb (tcbs s to) = NULL then Fault (Null_deref ''do_ipc: to->utcb->sender'')
      else
        let s = utcb_upd (utcb (tcbs s to)) (sender_update (\<lambda>_. t_globalid (tcbs s from))) s in
        rbind (if ipc_from (tcbs s to) = L4_ANYTHREAD then sched_set_priority to SCHED_PRIO_IPC s else Ok s) (\<lambda>s.
        rbind (thread_make_runnable to (tcb_upd to (ipc_from_update (\<lambda>_. L4_NILTHREAD)) s)) (\<lambda>s.
        let from_recv_tid = rd s (sp (ctx (tcbs s from))) REG_R1 in
        if from_recv_tid = L4_NILTHREAD then thread_make_sender_runnable from s
        else rbind (restore_base_priority from s) (\<lambda>s.
             Ok (tcb_upd from (\<lambda>t. t\<lparr>state := T_RECV_BLOCKED, ipc_from := from_recv_tid\<rparr>) s)))))"

definition in_thread_map :: "ptr \<Rightarrow> 'z tstate_scheme \<Rightarrow> bool" where
  "in_thread_map thr s \<longleftrightarrow> (\<exists>i \<in> set [1..<thread_count s]. thread_map s i = thr)"

definition ipc_callback :: "'z notify_cb \<Rightarrow> ptr \<Rightarrow> 'z istate_scheme \<Rightarrow> 'z istate_scheme result" where
  "ipc_callback cb to s =
     (let t = tcbs s to in
      if ipc_notify t \<noteq> NULL \<and> notify_pending t \<noteq> 0 \<and> notify_depth t < 3 then
        let s = tcb_upd to (\<lambda>t. t\<lparr>notify_depth := notify_depth t + 1\<rparr>) s in
        rbind (cb (ipc_notify t) to (notify_bits t) 0 s) (\<lambda>s.
        schedule (if in_thread_map to s \<and> notify_generation (tcbs s to) = notify_generation t
                  then tcb_upd to (\<lambda>t. t\<lparr>notify_depth := notify_depth t - 1\<rparr>) s else s))
      else Ok s)"

definition do_ipc :: "'z notify_cb \<Rightarrow> ptr \<Rightarrow> ptr \<Rightarrow> 'z istate_scheme \<Rightarrow> 'z istate_scheme result" where
  "do_ipc cb from to s =
     (let s = tcb_upd from (timeout_event_update (\<lambda>_. 0)) s;
          s = tcb_upd to (timeout_event_update (\<lambda>_. 0)) s in
      rbind (ipc_read_mr from 0 s) (\<lambda>tag.
      let untyped_last = n_untyped tag + 1;
          typed_last = untyped_last + n_typed tag in
      if IPC_MR_COUNT < typed_last
      then do_ipc_error from to (UE_IPC_MSG_OVERFLOW OR UE_IPC_PHASE_SEND) (UE_IPC_MSG_OVERFLOW OR UE_IPC_PHASE_RECV)
             T_RUNNABLE T_RUNNABLE s
      else
        rbind (ipc_write_mr to 0 tag s) (\<lambda>s.
        rbind (rfold (copy_mr from to) [1..<untyped_last] s) (\<lambda>s.
        rbind (copy_typed [untyped_last..<typed_last] from to None s) (\<lambda>(go, s).
        if \<not> go then Ok s
        else if sp (ctx (tcbs s to)) = 0 \<or> sp (ctx (tcbs s from)) = 0 then ipc_abort from to s
        else rbind (ipc_deliver_to from to s) (ipc_callback cb to))))))"

subsection \<open>Timeouts\<close>

definition ipc_timeout :: "ptr \<Rightarrow> 'z istate_scheme \<Rightarrow> (u32 \<times> 'z istate_scheme) result" where
  "ipc_timeout ev s =
     (let thr = kte_data (kt_events s ev) in
      if timeout_event (tcbs s thr) = ev then
        rbind (if state (tcbs s thr) = T_RECV_BLOCKED
               then user_ipc_error thr (UE_IPC_TIMEOUT OR UE_IPC_PHASE_RECV) s else Ok s) (\<lambda>s.
        rbind (if state (tcbs s thr) = T_SEND_BLOCKED
               then user_ipc_error thr (UE_IPC_TIMEOUT OR UE_IPC_PHASE_SEND) s else Ok s) (\<lambda>s.
        rbind (thread_make_runnable thr s) (\<lambda>s.
        Ok (0, tcb_upd thr (timeout_event_update (\<lambda>_. 0)) s))))
      else Ok (0, s))"

text \<open>The arithmetic is on signed 32-bit integers: mantissa shifted by the exponent, divided by the
  microseconds of a tick, \<open>1000000 / (168000000 / 65536)\<close> = 390.\<close>

definition timeout_ticks :: "u32 \<Rightarrow> u32" where
  "timeout_ticks timeout =
     (let v = sint (push_bit (time_e timeout) (time_m timeout))
      in word_of_int (if v < 0 then - ((- v) div 390) else v div 390))"

definition sys_ipc_timeout :: "u32 \<Rightarrow> 'z istate_scheme \<Rightarrow> 'z istate_scheme result" where
  "sys_ipc_timeout timeout s =
     rbind (ktimer_event_create (timeout_ticks timeout) KH_IPC_TIMEOUT (caller s) s) (\<lambda>(kevent, s).
     Ok (tcb_upd (caller s) (timeout_event_update (\<lambda>_. kevent)) s))"

definition arm_timeout :: "u32 \<Rightarrow> 'z istate_scheme \<Rightarrow> 'z istate_scheme result" where
  "arm_timeout timeout s = (if timeout \<noteq> 0 then sys_ipc_timeout timeout s else Ok s)"

subsection \<open>The log service\<close>

text \<open>The result is the call of \<open>dbg_vprintf\<close>, if there is one.\<close>

definition user_log :: "ptr \<Rightarrow> 'z tstate_scheme \<Rightarrow> (u32 \<times> u32) option" where
  "user_log from s =
     (let format = regs (ctx (tcbs s from)) ! 1;
          va = regs (ctx (tcbs s from)) ! 2;
          mm = memmap (mem s);
          format_pool = mempool_search mm format 1 in
      if format_pool < 0 then None
      else case mempool_getbyid mm format_pool of
        None \<Rightarrow> None
      | Some pool \<Rightarrow>
          if mp_flags pool AND (MP_UX OR MP_KX) = 0 then None
          else
            let va_pool = mempool_search mm va 4 in
            if va_pool < 0 then None
            else case mempool_getbyid mm va_pool of
              None \<Rightarrow> None
            | Some pool \<Rightarrow> if mp_flags pool AND (MP_UR OR MP_UW) = 0 then None else Some (format, va))"

subsection \<open>The system call\<close>

text \<open>A message with 5 untyped and no typed words from the pager to an inactive thread starts it.\<close>

definition ipc_start_thread :: "ipc_syms \<Rightarrow> ptr \<Rightarrow> 'z istate_scheme \<Rightarrow> 'z istate_scheme result" where
  "ipc_start_thread L to_thr s =
     rbind (ipc_read_mr (caller s) 1 s) (\<lambda>mr1_container.
     rbind (ipc_read_mr (caller s) 2 s) (\<lambda>sp0.
     rbind (ipc_read_mr (caller s) 3 s) (\<lambda>stack_sz.
     rbind (ipc_read_mr (caller s) 4 s) (\<lambda>entry_point.
     rbind (ipc_read_mr (caller s) 5 s) (\<lambda>entry_arg.
     let mm = memmap (mem s); priv = (caller s = NULL \<or> thread_ispriviliged (caller s) s) in
     case mempool_getbyid mm (mempool_search mm (sp0 - stack_sz) stack_sz) of
       None \<Rightarrow> rbind (user_ipc_error (caller s) (UE_IPC_ABORTED OR UE_IPC_PHASE_SEND) s) (thread_make_runnable (caller s))
     | Some mp \<Rightarrow>
         if mp_flags mp AND MP_UW = 0
         then rbind (user_ipc_error (caller s) (UE_IPC_ABORTED OR UE_IPC_PHASE_SEND) s) (thread_make_runnable (caller s))
         else
           let s = tcb_upd to_thr (\<lambda>t. t\<lparr>stack_base := sp0 - stack_sz, stack_size := stack_sz\<rparr>) s;
               s = (if priv then thread_init_canary to_thr s
                    else tcb_upd to_thr (stack_canary_needs_init_update (\<lambda>_. 1)) s);
               s = wr (ipc_regs L) REG_R0 (ipc_kip L) s;
               s = wr (ipc_regs L) REG_R1 (utcb (tcbs s to_thr)) s;
               s = wr (ipc_regs L) REG_R2 entry_point s;
               s = wr (ipc_regs L) REG_R3 entry_arg s in
           rbind (if priv then
                    rbind (if t_as (tcbs s (caller s)) \<noteq> NULL
                           then select_lru (t_as (tcbs s (caller s))) (sp0 - RESERVED_STACK) s else Ok s) (\<lambda>s.
                    let s = wr (sp0 - RESERVED_STACK) 0 0 s
                    in Ok (thread_init_ctx sp0 mr1_container (ipc_regs L) to_thr s))
                  else Ok (thread_init_prebuilt_ctx sp0 to_thr s)) (\<lambda>s.
           rbind (thread_make_runnable (caller s) s) (thread_make_runnable to_thr)))))))"

text \<open>Other messages of the pager to an inactive thread: only the map items are processed, the result of
  mapping is not looked at, and an unaligned item ends the loop.\<close>

fun map_items :: "nat list \<Rightarrow> ptr \<Rightarrow> u32 option \<Rightarrow> 'z istate_scheme \<Rightarrow> 'z istate_scheme result" where
  "map_items [] to item s = Ok s"
| "map_items (i # is) to item s =
     rbind (ipc_read_mr (caller s) i s) (\<lambda>mr_data.
     case item of
       None \<Rightarrow> map_items is to (Some mr_data) s
     | Some it \<Rightarrow>
         if item_header it AND IPC_TI_MAP_GRANT \<noteq> 0 then
           if \<not> addr_is_fpage_aligned (it AND 0xFFFFFFC0) then Ok s
           else rbind (map_item (caller s) to it mr_data s) (\<lambda>(_, s). map_items is to None s)
         else map_items is to (Some it) s)"

definition ipc_map_inactive :: "ptr \<Rightarrow> u32 \<Rightarrow> 'z istate_scheme \<Rightarrow> 'z istate_scheme result" where
  "ipc_map_inactive to_thr tag s =
     (let untyped_last = n_untyped tag + 1; typed_last = untyped_last + n_typed tag in
      if IPC_MR_COUNT < typed_last
      then rbind (user_ipc_error (caller s) (UE_IPC_MSG_OVERFLOW OR UE_IPC_PHASE_SEND) s) (thread_make_runnable (caller s))
      else rbind (map_items [untyped_last..<typed_last] to_thr None s) (\<lambda>s. thread_make_runnable (caller s) s))"

definition ipc_refuse_send :: "'z istate_scheme \<Rightarrow> 'z istate_scheme result" where
  "ipc_refuse_send s =
     rbind (user_ipc_error (caller s) (UE_IPC_ABORTED OR UE_IPC_PHASE_SEND) s) (thread_make_runnable (caller s))"

definition ipc_block_send :: "ptr \<Rightarrow> u32 \<Rightarrow> u32 \<Rightarrow> 'z istate_scheme \<Rightarrow> 'z istate_scheme result" where
  "ipc_block_send to_thr to_tid timeout s =
     (if to_thr = NULL then ipc_refuse_send s
      else if state (tcbs s to_thr) = T_INACTIVE \<and> timeout = 0 then ipc_refuse_send s
      else
        let s = set_state (caller s) T_SEND_BLOCKED s in
        if utcb (tcbs s (caller s)) = NULL then Fault (Null_deref ''sys_ipc: caller->utcb->intended_receiver'')
        else arm_timeout timeout
               (utcb_upd (utcb (tcbs s (caller s))) (intended_receiver_update (\<lambda>_. to_tid)) s))"

definition ipc_send :: "ipc_syms \<Rightarrow> 'z notify_cb \<Rightarrow> u32 \<Rightarrow> u32 \<Rightarrow> 'z istate_scheme \<Rightarrow> 'z istate_scheme result" where
  "ipc_send L cb to_tid timeout s =
     (let to_thr = thread_by_globalid to_tid s in
      if to_tid = TID_TO_GLOBALID THREAD_LOG then thread_make_runnable (caller s) s
      else if to_tid = TID_TO_GLOBALID THREAD_IRQ_REQUEST
      then rbind (user_interrupt_config (caller s) s) (\<lambda>s. thread_make_runnable (caller s) s)
      else if to_thr \<noteq> NULL \<and> (state (tcbs s to_thr) = T_RECV_BLOCKED \<or> to_tid = t_globalid (tcbs s (caller s)))
      then do_ipc cb (caller s) to_thr s
      else if to_thr \<noteq> NULL \<and> state (tcbs s to_thr) = T_INACTIVE \<and> utcb (tcbs s to_thr) \<noteq> NULL \<and>
        GLOBALID_TO_TID (t_pager (tcbs s to_thr)) = GLOBALID_TO_TID (t_globalid (tcbs s (caller s)))
      then rbind (ipc_read_mr (caller s) 0 s) (\<lambda>tag.
           if n_untyped tag = 5 \<and> n_typed tag = 0 then ipc_start_thread L to_thr s
           else ipc_map_inactive to_thr tag s)
      else ipc_block_send to_thr to_tid timeout s)"

definition sends_to :: "u32 \<Rightarrow> 'z tstate_scheme \<Rightarrow> ptr \<Rightarrow> bool" where
  "sends_to tid s thr \<longleftrightarrow> thr \<noteq> NULL \<and> state (tcbs s thr) = T_SEND_BLOCKED \<and>
     intended_receiver (utcbs s (utcb (tcbs s thr))) = tid"

definition waiting_sender :: "u32 \<Rightarrow> 'z tstate_scheme \<Rightarrow> ptr option" where
  "waiting_sender from_tid s =
     (let me = t_globalid (tcbs s (caller s)) in
      if from_tid = L4_ANYTHREAD
      then map_option (thread_map s) (find (\<lambda>i. sends_to me s (thread_map s i)) [1..<thread_count s])
      else if from_tid \<noteq> TID_TO_GLOBALID THREAD_INTERRUPT \<and> sends_to me s (thread_by_globalid from_tid s)
      then Some (thread_by_globalid from_tid s) else None)"

definition ipc_receive :: "'z notify_cb \<Rightarrow> u32 \<Rightarrow> u32 \<Rightarrow> 'z istate_scheme \<Rightarrow> 'z istate_scheme result" where
  "ipc_receive cb from_tid timeout s =
     (case waiting_sender from_tid s of
        Some thr \<Rightarrow> do_ipc cb thr (caller s) s
      | None \<Rightarrow>
          let s = tcb_upd (caller s) (\<lambda>t. t\<lparr>state := T_RECV_BLOCKED, ipc_from := from_tid\<rparr>) s in
          rbind (if from_tid = TID_TO_GLOBALID THREAD_INTERRUPT
                 then user_interrupt_handler_update (caller s) s else Ok s) (arm_timeout timeout))"

definition sys_ipc :: "ipc_syms \<Rightarrow> 'z notify_cb \<Rightarrow> u32 \<Rightarrow> 'z istate_scheme \<Rightarrow> 'z istate_scheme result" where
  "sys_ipc L cb param1 s =
     (let to_tid = rd s param1 REG_R0; from_tid = rd s param1 REG_R1; timeout = rd s param1 REG_R2 in
      if to_tid = L4_NILTHREAD \<and> from_tid = L4_NILTHREAD
      then arm_timeout timeout (set_state (caller s) T_INACTIVE s)
      else if to_tid \<noteq> L4_NILTHREAD then ipc_send L cb to_tid timeout s
      else ipc_receive cb from_tid timeout s)"

subsection \<open>Pairing blocked partners\<close>

definition deliver_step :: "'z notify_cb \<Rightarrow> ptr \<Rightarrow> 'z istate_scheme \<Rightarrow> 'z istate_scheme result" where
  "deliver_step cb thr s =
     (if thr = NULL then Ok s
      else case state (tcbs s thr) of
        T_RECV_BLOCKED \<Rightarrow>
          let src = ipc_from (tcbs s thr) in
          if src \<noteq> L4_NILTHREAD \<and> src \<noteq> L4_ANYTHREAD \<and> src \<noteq> TID_TO_GLOBALID THREAD_INTERRUPT \<and>
             sends_to (t_globalid (tcbs s thr)) s (thread_by_globalid src s)
          then do_ipc cb (thread_by_globalid src s) thr s else Ok s
      | T_SEND_BLOCKED \<Rightarrow>
          let receiver = intended_receiver (utcbs s (utcb (tcbs s thr)));
              to_thr = thread_by_globalid receiver s in
          if receiver \<noteq> L4_NILTHREAD \<and> receiver \<noteq> L4_ANYTHREAD \<and> to_thr \<noteq> NULL \<and>
             state (tcbs s to_thr) = T_RECV_BLOCKED
          then do_ipc cb thr to_thr s else Ok s
      | _ \<Rightarrow> Ok s)"

fun deliver_loop :: "nat \<Rightarrow> 'z notify_cb \<Rightarrow> nat \<Rightarrow> 'z istate_scheme \<Rightarrow> 'z istate_scheme result" where
  "deliver_loop 0 cb i s = Fault (Diverges ''ipc_deliver'')"
| "deliver_loop (Suc n) cb i s =
     (if i < thread_count s then rbind (deliver_step cb (thread_map s i) s) (deliver_loop n cb (i + 1)) else Ok s)"

definition ipc_deliver :: "'z notify_cb \<Rightarrow> 'z istate_scheme \<Rightarrow> (u32 \<times> 'z istate_scheme) result" where
  "ipc_deliver cb s = rbind (deliver_loop THREAD_FUEL cb 1 s) (\<lambda>s. Ok (4096, s))"

text \<open>The event handlers of the kernel timer by name.\<close>

definition ktimer_call :: "'z notify_cb \<Rightarrow> ktimer_handler_t \<Rightarrow> ptr \<Rightarrow> 'z istate_scheme \<Rightarrow> (u32 \<times> 'z istate_scheme) result" where
  "ktimer_call cb = timer_calls (\<lambda>h ev s. case h of
     KH_IPC_TIMEOUT \<Rightarrow> ipc_timeout ev s
   | KH_IPC_DELIVER \<Rightarrow> ipc_deliver cb s
   | KH_NOTIFY \<Rightarrow> ktimer_notify_handler ev s
   | KH_NULL \<Rightarrow> Fault (Null_deref ''ktimer_event_handler: event->handler''))"

subsection \<open>The fast path\<close>

definition fastpath_copy_mrs :: "u32 list \<Rightarrow> ptr \<Rightarrow> ptr \<Rightarrow> nat \<Rightarrow> 'z kstate_scheme \<Rightarrow> 'z kstate_scheme" where
  "fastpath_copy_mrs saved_mrs from to n s =
     (let count = n + 1;
          s = (if count \<ge> 8
               then tcb_upd to (\<lambda>t. t\<lparr>ctx := (ctx t)\<lparr>regs := saved_mrs\<rparr>\<rparr>) s
               else fold (\<lambda>i. tcb_upd to (\<lambda>t. t\<lparr>ctx := (ctx t)\<lparr>regs := (regs (ctx t))[i := saved_mrs ! i]\<rparr>\<rparr>)) [0..<count] s)
      in if count > 8
         then fold (\<lambda>i s. tcb_upd to (\<lambda>t. t\<lparr>msg_buffer := (msg_buffer t)[i := msg_buffer (tcbs s from) ! i]\<rparr>) s)
                [0..<min (count - 8) 32] s
         else s)"

definition fastpath_eligible :: "ptr \<Rightarrow> u32 \<Rightarrow> u32 list \<Rightarrow> 'z tstate_scheme \<Rightarrow> bool" where
  "fastpath_eligible clr svc_param saved_mrs s \<longleftrightarrow>
     (let to_tid = rd s svc_param REG_R0; from_tid = rd s svc_param REG_R1; tag = saved_mrs ! 0;
          to_thr = thread_by_globalid to_tid s in
      to_tid \<noteq> L4_NILTHREAD \<and> from_tid = L4_NILTHREAD \<and> n_typed tag = 0 \<and> n_untyped tag \<le> 39 \<and>
      to_thr \<noteq> NULL \<and> state (tcbs s to_thr) = T_RECV_BLOCKED \<and>
      (ipc_from (tcbs s to_thr) = L4_ANYTHREAD \<or> ipc_from (tcbs s to_thr) = t_globalid (tcbs s clr)) \<and>
      to_tid \<noteq> TID_TO_GLOBALID THREAD_LOG \<and> to_tid \<noteq> TID_TO_GLOBALID THREAD_IRQ_REQUEST \<and> tag \<noteq> 5)"

definition ipc_fastpath_helper :: "ptr \<Rightarrow> u32 \<Rightarrow> u32 list \<Rightarrow> 'z tstate_scheme \<Rightarrow> (bool \<times> 'z tstate_scheme) result" where
  "ipc_fastpath_helper clr svc_param saved_mrs s =
     (if \<not> fastpath_eligible clr svc_param saved_mrs s then Ok (False, s)
      else
        let to_thr = thread_by_globalid (rd s svc_param REG_R0) s;
            s = sched_dequeue clr s;
            s = fastpath_copy_mrs saved_mrs clr to_thr (n_untyped (saved_mrs ! 0)) s;
            s = wr (sp (ctx (tcbs s to_thr))) REG_R0 (t_globalid (tcbs s clr)) s in
        if utcb (tcbs s to_thr) = NULL then Fault (Null_deref ''ipc_fastpath_helper: to_thr->utcb->sender'')
        else
          let s = utcb_upd (utcb (tcbs s to_thr)) (sender_update (\<lambda>_. t_globalid (tcbs s clr))) s;
              s = tcb_upd clr (timeout_event_update (\<lambda>_. 0)) s;
              s = tcb_upd to_thr (timeout_event_update (\<lambda>_. 0)) s;
              s = set_state to_thr T_RUNNABLE s in
          rbind (if ipc_from (tcbs s to_thr) = L4_ANYTHREAD then sched_set_priority to_thr SCHED_PRIO_IPC s else Ok s) (\<lambda>s.
          rbind (sched_enqueue to_thr (tcb_upd to_thr (ipc_from_update (\<lambda>_. L4_NILTHREAD)) s)) (\<lambda>s.
          rbind (restore_base_priority clr s) (\<lambda>s.
          rbind (sched_enqueue clr (set_state clr T_RUNNABLE s)) (\<lambda>s.
          Ok (True, s\<lparr>pendsv := True\<rparr>))))))"

text \<open>The registers are copied out of \<open>__irq_saved_regs\<close> first.\<close>

definition ipc_try_fastpath :: "ptr \<Rightarrow> u32 \<Rightarrow> u32 list \<Rightarrow> 'z tstate_scheme \<Rightarrow> (bool \<times> 'z tstate_scheme) result" where
  "ipc_try_fastpath clr svc_param irq_saved_regs s = ipc_fastpath_helper clr svc_param (take 8 irq_saved_regs) s"

subsection \<open>Messages that do not fit\<close>

lemma user_ipc_error_eq:
  assumes "thr \<noteq> NULL" "utcb (tcbs s thr) \<noteq> NULL"
  shows "user_ipc_error thr e s = Ok (utcb_upd (utcb (tcbs s thr)) (error_code_update (\<lambda>_. e))
    (tcb_upd thr (\<lambda>t. t\<lparr>ctx := (ctx t)\<lparr>regs := (regs (ctx t))[0 := (regs (ctx (tcbs s thr)) ! 0) OR push_bit 12 8]\<rparr>\<rparr>) s))"
  using assms by (simp add: user_ipc_error_def ipc_read_mr_def ipc_write_mr_def set_user_error_def)

lemma rq_rep_utcb_upd: "rq_rep s q \<Longrightarrow> rq_rep (utcb_upd u f s) q"
  by (erule rq_rep_globals) (simp_all add: utcb_upd_def)

lemma user_ipc_error_rep:
  assumes t: "thr \<noteq> NULL" "utcb (tcbs s thr) \<noteq> NULL" and rep: "rq_rep s q"
  obtains s' where "user_ipc_error thr e s = Ok s'" "rq_rep s' q" "pv s' = pv s" "\<And>p. p \<noteq> thr \<Longrightarrow> tcbs s' p = tcbs s p"
    "error_code (utcbs s' (utcb (tcbs s thr))) = e" "\<And>u. u \<noteq> utcb (tcbs s thr) \<Longrightarrow> utcbs s' u = utcbs s u"
proof -
  define g where "g = (\<lambda>t :: tcb. t\<lparr>ctx := (ctx t)\<lparr>regs := (regs (ctx t))[0 := (regs (ctx (tcbs s thr)) ! 0) OR push_bit 12 8]\<rparr>\<rparr>)"
  let ?s = "utcb_upd (utcb (tcbs s thr)) (error_code_update (\<lambda>_. e)) (tcb_upd thr g s)"
  have "rq_rep ?s q" by (intro rq_rep_utcb_upd rq_rep_tcb_upd_frame rep) (simp_all add: g_def)
  moreover have "pv ?s = pv s" by (auto simp: pv_def g_def fun_eq_iff)
  ultimately show thesis using that [of ?s] user_ipc_error_eq [OF t, of e] by (simp add: g_def)
qed

text \<open>C19. A message with more than 48 words: the transfer is refused, both partners get the overflow error of
  their phase, and both are marked as runnable, but neither is put on a ready list: no list changes and none
  of them holds a partner, so the scheduler never selects them.\<close>

theorem do_ipc_overflow_strands_partners:
  assumes rep: "rq_rep s q" and fr: "from \<noteq> NULL" "pv s from = NULL" "utcb (tcbs s from) \<noteq> NULL"
    and tt: "to \<noteq> NULL" "pv s to = NULL" "utcb (tcbs s to) \<noteq> NULL"
    and ne: "from \<noteq> to" "utcb (tcbs s from) \<noteq> utcb (tcbs s to)"
    and big: "48 < n_untyped (regs (ctx (tcbs s from)) ! 0) + 1 + n_typed (regs (ctx (tcbs s from)) ! 0)"
  shows "\<exists>s'. do_ipc cb from to s = Ok s' \<and> state (tcbs s' from) = T_RUNNABLE \<and> state (tcbs s' to) = T_RUNNABLE \<and>
    error_code (utcbs s' (utcb (tcbs s from))) = UE_IPC_MSG_OVERFLOW OR UE_IPC_PHASE_SEND \<and>
    error_code (utcbs s' (utcb (tcbs s to))) = UE_IPC_MSG_OVERFLOW OR UE_IPC_PHASE_RECV \<and>
    rq_rep s' q \<and> (\<forall>p < 32. from \<notin> set (q p) \<and> to \<notin> set (q p))"
proof -
  let ?t = "timeout_event_update (\<lambda>_. 0 :: u32)"
  define s0 where "s0 = tcb_upd to ?t (tcb_upd from ?t s)"
  have r0: "rq_rep s0 q" unfolding s0_def by (intro rq_rep_tcb_upd_frame rep) simp_all
  have f0: "tcbs s0 from = ?t (tcbs s from)" "tcbs s0 to = ?t (tcbs s to)" using ne(1) by (simp_all add: s0_def)
  have u0: "utcb (tcbs s0 from) \<noteq> NULL" "utcb (tcbs s0 from) = utcb (tcbs s from)" using fr(3) f0 by simp_all
  obtain s1 where s1: "user_ipc_error from (UE_IPC_MSG_OVERFLOW OR UE_IPC_PHASE_SEND) s0 = Ok s1" "rq_rep s1 q" "pv s1 = pv s0"
      "\<And>p. p \<noteq> from \<Longrightarrow> tcbs s1 p = tcbs s0 p" "error_code (utcbs s1 (utcb (tcbs s from))) = UE_IPC_MSG_OVERFLOW OR UE_IPC_PHASE_SEND"
    by (rule user_ipc_error_rep [OF fr(1) u0(1) r0, where e = "UE_IPC_MSG_OVERFLOW OR UE_IPC_PHASE_SEND", unfolded u0(2)]) blast
  have u1: "utcb (tcbs s1 to) \<noteq> NULL" "utcb (tcbs s1 to) = utcb (tcbs s to)" using tt(3) f0 s1(4) ne(1) by simp_all
  obtain s2 where s2: "user_ipc_error to (UE_IPC_MSG_OVERFLOW OR UE_IPC_PHASE_RECV) s1 = Ok s2" "rq_rep s2 q"
      "error_code (utcbs s2 (utcb (tcbs s to))) = UE_IPC_MSG_OVERFLOW OR UE_IPC_PHASE_RECV"
      "utcbs s2 (utcb (tcbs s from)) = utcbs s1 (utcb (tcbs s from))" "pv s2 = pv s1"
    by (rule user_ipc_error_rep [OF tt(1) u1(1) s1(2), where e = "UE_IPC_MSG_OVERFLOW OR UE_IPC_PHASE_RECV", unfolded u1(2)])
      (use ne(2) in blast)
  define s' where "s' = set_state to T_RUNNABLE (set_state from T_RUNNABLE s2)"
  have pv2: "pv s2 from = NULL" "pv s2 to = NULL"
    using s2(5) s1(3) fr(2) tt(2) f0 by (simp_all add: pv_def)
  have "rq_rep (set_state from T_RUNNABLE s2) q"
    unfolding set_state_def by (rule rq_rep_tcb_upd_unqueued [OF s2(2)]) (simp_all add: pv2)
  then have r': "rq_rep s' q"
    unfolding s'_def set_state_def by (rule rq_rep_tcb_upd_unqueued) (use pv2 ne(1) in \<open>simp_all add: pv_def\<close>)
  have "do_ipc cb from to s = Ok s'"
    unfolding do_ipc_def Let_def s0_def [symmetric] using s1(1) s2(1) big
    by (simp add: ipc_read_mr_def f0 do_ipc_error_def s'_def)
  moreover have "from \<notin> set (q p) \<and> to \<notin> set (q p)" if "p < 32" for p
    using rq_rep_member(3) [OF rep that] rq_rep_queued_iff [OF rep fr(1)] rq_rep_queued_iff [OF rep tt(1)] fr(2) tt(2) by metis
  moreover have "utcbs s' = utcbs s2" by (simp add: s'_def set_state_def)
  ultimately show ?thesis
    using r' s1(5) s2(3,4) by (intro exI [of _ s']) (simp add: s'_def set_state_def)
qed

definition overflow_example :: istate where
  "overflow_example = irq_example\<lparr>
     tcbs := (\<lambda>p. tcb0\<lparr>utcb := p + 256, state := T_SVC_BLOCKED,
       ctx := \<lparr>sp = p, ret = 0, ctl = 0, regs = [0x3F, 0, 0, 0, 0, 0, 0, 0]\<rparr>\<rparr>)\<rparr>"

theorem do_ipc_overflow_strands_partners_witness:
  "\<exists>s'. do_ipc (\<lambda>f t b d s. Ok s) 8192 12288 overflow_example = Ok s' \<and> state (tcbs s' 8192) = T_RUNNABLE \<and>
     rq_rep s' (\<lambda>_. [])"
proof -
  have "ready_bitmap overflow_example = 0" "ready_queue overflow_example = (\<lambda>_. NULL)"
    by (simp_all add: overflow_example_def irq_example_def ktstate.defs kt_example_def nstate.defs nboot_def tstate.defs boot_def)
  then have "rq_rep overflow_example (\<lambda>_. [])"
    by (intro rq_rep_empty) (simp_all add: overflow_example_def tcb0_def)
  moreover have "n_untyped 0x3F = 63" by (simp add: n_untyped_def)
  ultimately show ?thesis
    using do_ipc_overflow_strands_partners [of overflow_example "\<lambda>_. []" 8192 12288 "\<lambda>f t b d s. Ok s"]
    by (auto simp: overflow_example_def pv_def tcb0_def)
qed

end
