(* ===== verification/Fastpath.thy ===== *)
theory Fastpath
  imports Ipc
begin

text \<open>
  The fast path of message passing does what the slow path does: both copy the same registers, and both hand
  the message over in the same way (receiver made ready first, then the sender at its base priority). The two
  copies are brought to one closed form, the two ways of handing over to one composition of two wake-ups.
\<close>

subsection \<open>Copying registers\<close>

text \<open>A TCB whose first \<open>c\<close> message registers are taken from \<open>R\<close> and \<open>B\<close>.\<close>

definition recv_msg :: "nat \<Rightarrow> u32 list \<Rightarrow> u32 list \<Rightarrow> tcb \<Rightarrow> tcb" where
  "recv_msg c R B t = t\<lparr>ctx := (ctx t)\<lparr>regs := take c R @ drop c (regs (ctx t))\<rparr>,
     msg_buffer := take (c - 8) B @ drop (c - 8) (msg_buffer t)\<rparr>"

lemma take_drop_update:
  "c < length R \<Longrightarrow> c < length X \<Longrightarrow> (take c R @ drop c X)[c := R ! c] = take (Suc c) R @ drop (Suc c) X"
  by (simp add: list_update_append take_Suc_conv_app_nth Cons_nth_drop_Suc [symmetric])

lemma recv_msg_0 [simp]: "recv_msg 0 R B t = t"
  by (simp add: recv_msg_def)

lemma recv_msg_fields [simp]:
  "sp (ctx (recv_msg c R B t)) = sp (ctx t)" "utcb (recv_msg c R B t) = utcb t" "ipc_from (recv_msg c R B t) = ipc_from t"
  "state (recv_msg c R B t) = state t" "t_globalid (recv_msg c R B t) = t_globalid t"
  "ipc_notify (recv_msg c R B t) = ipc_notify t" "sched_prev (recv_msg c R B t) = sched_prev t"
  "sched_next (recv_msg c R B t) = sched_next t" "priority (recv_msg c R B t) = priority t"
  by (simp_all add: recv_msg_def)

definition files_ok :: "tcb \<Rightarrow> bool" where
  "files_ok t \<longleftrightarrow> length (regs (ctx t)) = 8 \<and> length (msg_buffer t) = 32"

lemma recv_msg_Suc:
  assumes "files_ok t" "length R = 8" "length B = 32" "c < 40"
  shows "recv_msg (Suc c) R B t =
    (if c < 8 then (recv_msg c R B t)\<lparr>ctx := (ctx (recv_msg c R B t))\<lparr>regs := (regs (ctx (recv_msg c R B t)))[c := R ! c]\<rparr>\<rparr>
     else (recv_msg c R B t)\<lparr>msg_buffer := (msg_buffer (recv_msg c R B t))[c - 8 := B ! (c - 8)]\<rparr>)"
proof (cases "c < 8")
  case True
  then show ?thesis using assms by (simp add: recv_msg_def files_ok_def take_drop_update)
next
  case False
  then have "Suc c - 8 = Suc (c - 8)" by simp
  then show ?thesis using assms False by (simp add: recv_msg_def files_ok_def take_drop_update)
qed

lemma rfold_append: "rfold f (xs @ ys) s = rbind (rfold f xs s) (rfold f ys)"
proof (induction xs arbitrary: s)
  case (Cons x xs)
  then show ?case by (cases "f x s") simp_all
qed simp

lemma copy_mrs:
  assumes "from \<noteq> to" "files_ok (tcbs s from)" "files_ok (tcbs s to)" "c \<le> 40"
  shows "rfold (copy_mr from to) [0..<c] s = Ok (tcb_upd to (recv_msg c (regs (ctx (tcbs s from))) (msg_buffer (tcbs s from))) s)"
  using assms(4)
proof (induction c)
  case 0
  then show ?case by (simp add: tcb_upd_def)
next
  case (Suc c)
  let ?R = "regs (ctx (tcbs s from))" and ?B = "msg_buffer (tcbs s from)"
  let ?s = "tcb_upd to (recv_msg c ?R ?B) s"
  have r: "ipc_read_mr from c ?s = Ok (if c < 8 then ?R ! c else ?B ! (c - 8))"
    using assms(1) Suc.prems by (simp add: ipc_read_mr_def)
  have "recv_msg (Suc c) ?R ?B (tcbs s to) = (if c < 8 then (recv_msg c ?R ?B (tcbs s to))
      \<lparr>ctx := (ctx (recv_msg c ?R ?B (tcbs s to)))\<lparr>regs := (regs (ctx (recv_msg c ?R ?B (tcbs s to))))[c := ?R ! c]\<rparr>\<rparr>
     else (recv_msg c ?R ?B (tcbs s to))\<lparr>msg_buffer := (msg_buffer (recv_msg c ?R ?B (tcbs s to)))[c - 8 := ?B ! (c - 8)]\<rparr>)"
    by (rule recv_msg_Suc) (use assms Suc.prems in \<open>auto simp: files_ok_def\<close>)
  then have "copy_mr from to c ?s = Ok (tcb_upd to (recv_msg (Suc c) ?R ?B) s)"
    using Suc.prems unfolding copy_mr_def r by (simp add: ipc_write_mr_def tcb_upd_def)
  then show ?case using Suc by (simp add: rfold_append)
qed

lemma fold_regs:
  assumes "files_ok (tcbs s to)" "length R = 8" "length B = 32" "c \<le> 8"
  shows "fold (\<lambda>i. tcb_upd to (\<lambda>t. t\<lparr>ctx := (ctx t)\<lparr>regs := (regs (ctx t))[i := R ! i]\<rparr>\<rparr>)) [0..<c] s =
    tcb_upd to (recv_msg c R B) s"
  using assms(4)
proof (induction c)
  case 0
  then show ?case by (simp add: tcb_upd_def)
next
  case (Suc c)
  then show ?case using recv_msg_Suc [OF assms(1-3), of c] by (simp add: tcb_upd_def)
qed

lemma fold_buffer:
  assumes "files_ok (tcbs s to)" "length R = 8" "B = msg_buffer (tcbs s from)" "length B = 32" "from \<noteq> to" "c \<le> 32"
  shows "fold (\<lambda>i s. tcb_upd to (\<lambda>t. t\<lparr>msg_buffer := (msg_buffer t)[i := msg_buffer (tcbs s from) ! i]\<rparr>) s) [0..<c]
      (tcb_upd to (recv_msg 8 R B) s) = tcb_upd to (recv_msg (8 + c) R B) s"
  using assms(6)
proof (induction c)
  case (Suc c)
  then show ?case using recv_msg_Suc [OF assms(1,2,4), of "8 + c"] assms(3,5) by (simp add: tcb_upd_def)
qed simp

lemma fastpath_copy_mrs_eq:
  assumes "from \<noteq> to" "files_ok (tcbs s from)" "files_ok (tcbs s to)" "n \<le> 39" "R = regs (ctx (tcbs s from))"
  shows "fastpath_copy_mrs R from to n s = tcb_upd to (recv_msg (n + 1) R (msg_buffer (tcbs s from))) s"
proof -
  let ?B = "msg_buffer (tcbs s from)"
  have l: "length R = 8" "length ?B = 32" using assms(2,5) by (simp_all add: files_ok_def)
  have e8: "tcb_upd to (\<lambda>t. t\<lparr>ctx := (ctx t)\<lparr>regs := R\<rparr>\<rparr>) s = tcb_upd to (recv_msg 8 R ?B) s"
    using assms(3) l by (simp add: tcb_upd_def recv_msg_def files_ok_def)
  show ?thesis
  proof (cases "n + 1 < 8")
    case True
    then show ?thesis using fold_regs [OF assms(3) l, of "n + 1"] by (simp add: fastpath_copy_mrs_def Let_def del: upt_Suc)
  next
    case False
    then have c: "min (n + 1 - 8) 32 = n - 7" "8 + (n - 7) = n + 1" using assms(4) by linarith+
    show ?thesis
      using False fold_buffer [OF assms(3) l(1) refl l(2) assms(1), of "n - 7"] assms(4) c
      by (cases "n = 7") (simp_all add: fastpath_copy_mrs_def Let_def e8)
  qed
qed

subsection \<open>Two wake-ups\<close>

lemma set_priority_unqueued:
  assumes "pv s t = NULL" "t \<noteq> NULL"
  shows "sched_set_priority t v s = Ok (tcb_upd t (\<lambda>x. x\<lparr>priority := clamp_prio v\<rparr>) s)"
proof -
  have "\<not> sched_is_queued t s" using assms by (simp add: sched_is_queued_def pv_def)
  moreover have "tcb_upd t (\<lambda>x. x\<lparr>priority := w\<rparr>) s = s" if "priority (tcbs s t) = w" for w
  proof -
    have "(tcbs s t)\<lparr>priority := w\<rparr> = tcbs s t" using that by (cases "tcbs s t") simp
    then show ?thesis by (simp add: tcb_upd_def)
  qed
  ultimately show ?thesis
    using assms(2) by (cases "priority (tcbs s t) = clamp_prio v") (simp_all add: sched_set_priority_def Let_def clamp_prio_def set_prio_def)
qed

lemma wake_unqueued:
  assumes rep: "rq_rep s q" and t: "t \<noteq> NULL" "pv s t = NULL"
    and f: "\<And>x. sched_prev (f x) = sched_prev x" "\<And>x. sched_next (f x) = sched_next x" "\<And>x. state (f x) = T_RUNNABLE"
  defines "l \<equiv> sched_level (priority (f (tcbs s t)))"
  shows "\<exists>s'. sched_enqueue t (tcb_upd t f s) = Ok s' \<and> rq_rep s' (q(l := q l @ [t]))"
proof -
  let ?s = "tcb_upd t f s"
  have r: "rq_rep ?s q" by (rule rq_rep_tcb_upd_unqueued [OF rep _ f(1,2)]) (simp add: t(2))
  have "\<not> sched_is_queued t ?s" using t(2) by (simp add: sched_is_queued_def pv_def f)
  moreover have "level ?s t = l" by (simp add: level_def l_def)
  ultimately show ?thesis using sched_enqueue_rep [OF r t(1)] by (simp add: f)
qed

lemma two_wakes:
  assumes rep: "rq_rep s q" and t: "t \<noteq> NULL" "pv s t = NULL" and u: "u \<noteq> NULL" "pv s u = NULL" "t \<noteq> u"
    and g: "\<And>x. sched_prev (g x) = sched_prev x" "\<And>x. sched_next (g x) = sched_next x" "\<And>x. state (g x) = T_RUNNABLE"
    and h: "\<And>x. sched_prev (h x) = sched_prev x" "\<And>x. sched_next (h x) = sched_next x" "\<And>x. state (h x) = T_RUNNABLE"
      "\<And>x y. unlinked x = unlinked y \<Longrightarrow> unlinked (h x) = unlinked (h y)"
  defines "l \<equiv> sched_level (priority (g (tcbs s t)))" and "m \<equiv> sched_level (priority (h (tcbs s u)))"
  shows "\<exists>s1 s2. sched_enqueue t (tcb_upd t g s) = Ok s1 \<and> pv s1 u = NULL \<and> sched_enqueue u (tcb_upd u h s1) = Ok s2 \<and>
    rq_rep s2 ((q(l := q l @ [t]))(m := (q(l := q l @ [t])) m @ [u])) \<and>
    (\<forall>p. unlinked (tcbs s2 p) = (if p = u then unlinked (h (tcbs s u)) else if p = t then unlinked (g (tcbs s t)) else unlinked (tcbs s p))) \<and>
    unlinked (tcbs s1 u) = unlinked (tcbs s u) \<and> kstate.more s1 = kstate.more s \<and>
    kstate.more s2 = kstate.more s \<and> current s2 = current s \<and> preempted_bitmap s2 = preempted_bitmap s \<and> pendsv s2 = pendsv s"
proof -
  let ?q = "q(l := q l @ [t])"
  obtain s1 where s1: "sched_enqueue t (tcb_upd t g s) = Ok s1" "rq_rep s1 ?q"
    using wake_unqueued [OF rep t g] by (auto simp: l_def)
  note e1 = sched_enqueue_tcb [OF s1(1)] more_sched_enqueue [OF s1(1)]
  have lu: "unlinked (tcbs s1 u) = unlinked (tcbs s u)" using e1(1) u(3) by simp
  have nq: "u \<notin> set (q x)" if "x < 32" for x
    using rq_rep_member(3) [OF rep that] rq_rep_queued_iff [OF rep u(1)] u(2) by metis
  have "u \<notin> set (?q (level s1 u))" using nq [of "level s1 u"] u(3) by (auto simp: level_def)
  then have p1: "pv s1 u = NULL" using rq_rep_queued_iff [OF s1(2) u(1)] by blast
  have "priority (h (tcbs s1 u)) = priority (h (tcbs s u))" by (rule unlinked_fields(2) [OF h(4) [OF lu]])
  then obtain s2 where s2: "sched_enqueue u (tcb_upd u h s1) = Ok s2" "rq_rep s2 (?q(m := ?q m @ [u]))"
    using wake_unqueued [OF s1(2) u(1) p1 h(1-3)] by (auto simp: m_def)
  note e2 = sched_enqueue_tcb [OF s2(1)] more_sched_enqueue [OF s2(1)]
  show ?thesis using s1(1) p1 s2 e1 e2 lu h(4) [OF lu] u(3) by (intro exI [of _ s1] exI [of _ s2]) auto
qed

subsection \<open>Handing over\<close>

definition wake_to :: "tcb \<Rightarrow> tcb" where
  "wake_to x = x\<lparr>priority := (if ipc_from x = L4_ANYTHREAD then SCHED_PRIO_IPC else priority x), ipc_from := L4_NILTHREAD,
     state := T_RUNNABLE\<rparr>"

definition wake_from :: "tcb \<Rightarrow> tcb" where
  "wake_from x = x\<lparr>priority := (if priority x \<noteq> base_priority x then clamp_prio (base_priority x) else priority x),
     state := T_RUNNABLE\<rparr>"

lemma wake_links [simp]:
  "sched_prev (wake_to x) = sched_prev x" "sched_next (wake_to x) = sched_next x" "state (wake_to x) = T_RUNNABLE"
  "sched_prev (wake_from x) = sched_prev x" "sched_next (wake_from x) = sched_next x" "state (wake_from x) = T_RUNNABLE"
  by (simp_all add: wake_to_def wake_from_def)

lemma wake_from_unlinked: "unlinked x = unlinked y \<Longrightarrow> unlinked (wake_from x) = unlinked (wake_from y)"
  by (cases x; cases y) (auto simp: unlinked_def wake_from_def)

lemma tcb_upd_twice [simp]: "tcb_upd p f (tcb_upd p g s) = tcb_upd p (\<lambda>x. f (g x)) s"
  by (simp add: tcb_upd_def)

lemma tcb_upd_id: "f (tcbs s p) = tcbs s p \<Longrightarrow> tcb_upd p f s = s"
  by (simp add: tcb_upd_def)

lemma tcb_upd_eqI: "f (tcbs s p) = g (tcbs s p) \<Longrightarrow> tcb_upd p f s = tcb_upd p g s"
  by (simp add: tcb_upd_def)

lemma restore_unqueued:
  assumes "pv s t = NULL" "t \<noteq> NULL"
  shows "rbind (restore_base_priority t s) (\<lambda>s. sched_enqueue t (set_state t T_RUNNABLE s)) = sched_enqueue t (tcb_upd t wake_from s)"
proof (cases "priority (tcbs s t) = base_priority (tcbs s t)")
  case True
  then have "(tcbs s t)\<lparr>priority := base_priority (tcbs s t), state := T_RUNNABLE\<rparr> = (tcbs s t)\<lparr>state := T_RUNNABLE\<rparr>"
    by (cases "tcbs s t") simp
  then have "set_state t T_RUNNABLE s = tcb_upd t wake_from s"
    using True unfolding set_state_def by (intro tcb_upd_eqI) (simp add: wake_from_def)
  then show ?thesis using True by (simp add: restore_base_priority_def)
next
  case False
  then have "set_state t T_RUNNABLE (tcb_upd t (\<lambda>x. x\<lparr>priority := clamp_prio (base_priority (tcbs s t))\<rparr>) s) = tcb_upd t wake_from s"
    by (simp add: set_state_def wake_from_def tcb_upd_def)
  then show ?thesis using False by (simp add: restore_base_priority_def set_priority_unqueued [OF assms])
qed

lemma boost_unqueued:
  assumes "pv s t = NULL" "t \<noteq> NULL"
  shows "(if ipc_from (tcbs s t) = L4_ANYTHREAD then sched_set_priority t SCHED_PRIO_IPC s else Ok s) =
    Ok (tcb_upd t (\<lambda>x. x\<lparr>priority := (if ipc_from x = L4_ANYTHREAD then SCHED_PRIO_IPC else priority x)\<rparr>) s)"
proof -
  have c: "clamp_prio SCHED_PRIO_IPC = SCHED_PRIO_IPC" by (simp add: clamp_prio_def)
  have "(tcbs s t)\<lparr>priority := priority (tcbs s t)\<rparr> = tcbs s t" by simp
  then show ?thesis
    unfolding set_priority_unqueued [OF assms] c by (auto intro!: tcb_upd_eqI tcb_upd_id [symmetric])
qed

lemma slow_hand_over:
  fixes s :: "'z istate_scheme"
  assumes rep: "rq_rep s q" and t: "to \<noteq> NULL" "pv s to = NULL" and f: "from \<noteq> NULL" "pv s from = NULL" "to \<noteq> from"
    and u: "utcb (tcbs s to) \<noteq> NULL" and r1: "rd s (sp (ctx (tcbs s from))) REG_R1 = L4_NILTHREAD"
    and dis: "word_addr (sp (ctx (tcbs s to))) REG_R0 \<noteq> word_addr (sp (ctx (tcbs s from))) REG_R1"
  defines "s0 \<equiv> utcb_upd (utcb (tcbs s to)) (sender_update (\<lambda>_. t_globalid (tcbs s from)))
      (wr (sp (ctx (tcbs s to))) REG_R0 (t_globalid (tcbs s from)) s)"
  shows "ipc_deliver_to from to s = rbind (sched_enqueue to (tcb_upd to wake_to s0)) (\<lambda>s. sched_enqueue from (tcb_upd from wake_from s))"
proof -
  have s0: "tcbs s0 = tcbs s" "pv s0 = pv s" "ready_queue s0 = ready_queue s" "ready_bitmap s0 = ready_bitmap s"
    by (simp_all add: s0_def wr_def pv_def fun_eq_iff)
  have rep0: "rq_rep s0 q" by (rule rq_rep_globals [OF rep]) (simp_all add: s0)
  have pv0: "pv s0 to = NULL" "pv s0 from = NULL" using t(2) f(2) by (simp_all add: s0)
  obtain s1 where s1: "sched_enqueue to (tcb_upd to wake_to s0) = Ok s1" "pv s1 from = NULL"
      "unlinked (tcbs s1 from) = unlinked (tcbs s0 from)" "kstate.more s1 = kstate.more s0"
    using two_wakes [OF rep0 t(1) pv0(1) f(1) pv0(2) f(3) wake_links wake_from_unlinked] by blast
  have "rd s1 (sp (ctx (tcbs s1 from))) REG_R1 = rd s (sp (ctx (tcbs s from))) REG_R1"
    using dis unlinked_fields(11) [OF s1(3)] tstate_more(8) [OF s1(4)]
    by (simp add: rd_def s0 s0_def wr_def)
  then have nil: "rd s1 (sp (ctx (tcbs s1 from))) REG_R1 = L4_NILTHREAD" using r1 by simp
  have w: "set_state to T_RUNNABLE (tcb_upd to (ipc_from_update (\<lambda>_. L4_NILTHREAD))
      (tcb_upd to (\<lambda>x. x\<lparr>priority := (if ipc_from x = L4_ANYTHREAD then SCHED_PRIO_IPC else priority x)\<rparr>) s0)) =
      tcb_upd to wake_to s0"
    by (simp add: set_state_def wake_to_def [abs_def])
  define T :: "'z istate_scheme \<Rightarrow> 'z istate_scheme result" where
    "T = (\<lambda>s. if rd s (sp (ctx (tcbs s from))) REG_R1 = L4_NILTHREAD then thread_make_sender_runnable from s
      else rbind (restore_base_priority from s) (\<lambda>s'.
        Ok (tcb_upd from (\<lambda>t. t\<lparr>state := T_RECV_BLOCKED, ipc_from := rd s (sp (ctx (tcbs s from))) REG_R1\<rparr>) s')))"
  have "ipc_deliver_to from to s =
      rbind (if ipc_from (tcbs s0 to) = L4_ANYTHREAD then sched_set_priority to SCHED_PRIO_IPC s0 else Ok s0) (\<lambda>s.
      rbind (thread_make_runnable to (tcb_upd to (ipc_from_update (\<lambda>_. L4_NILTHREAD)) s)) T)"
    unfolding ipc_deliver_to_def Let_def T_def using u by (simp add: s0_def wr_def)
  also have "\<dots> = rbind (sched_enqueue to (tcb_upd to wake_to s0)) T"
    unfolding boost_unqueued [OF pv0(1) t(1)] rbind.simps thread_make_runnable_def w ..
  also have "\<dots> = rbind (sched_enqueue to (tcb_upd to wake_to s0)) (\<lambda>s. sched_enqueue from (tcb_upd from wake_from s))"
    unfolding s1(1) rbind.simps T_def using nil restore_unqueued [OF s1(2) f(1)]
    by (simp add: thread_make_sender_runnable_def thread_make_runnable_def [abs_def])
  finally show ?thesis .
qed

subsection \<open>The two paths\<close>

text \<open>A sender (running, with the context a switch would save) and a receiver blocked for it: register files of
  their declared sizes, a UTCB and stacks apart, no notification callback.\<close>

definition ipc_pair :: "ptr \<Rightarrow> ptr \<Rightarrow> 'z tstate_scheme \<Rightarrow> bool" where
  "ipc_pair from to s \<longleftrightarrow> from \<noteq> NULL \<and> state (tcbs s from) = T_RUNNABLE \<and> files_ok (tcbs s from) \<and> files_ok (tcbs s to) \<and>
     sp (ctx (tcbs s from)) \<noteq> 0 \<and> sp (ctx (tcbs s to)) \<noteq> 0 \<and> utcb (tcbs s to) \<noteq> NULL \<and> ipc_notify (tcbs s to) = NULL \<and>
     word_addr (sp (ctx (tcbs s to))) REG_R0 \<noteq> word_addr (sp (ctx (tcbs s from))) REG_R1"

abbreviation (input) no_timeout :: "tcb \<Rightarrow> tcb" where "no_timeout \<equiv> timeout_event_update (\<lambda>_. 0)"

text \<open>What both paths have done when they start to hand over.\<close>

definition handed :: "ptr \<Rightarrow> ptr \<Rightarrow> nat \<Rightarrow> 'z tstate_scheme \<Rightarrow> 'z tstate_scheme" where
  "handed from to c s =
     (let R = regs (ctx (tcbs s from)); B = msg_buffer (tcbs s from);
          s' = tcb_upd to (\<lambda>x. recv_msg c R B (no_timeout x)) (tcb_upd from no_timeout s)
      in utcb_upd (utcb (tcbs s to)) (sender_update (\<lambda>_. t_globalid (tcbs s from)))
           (wr (sp (ctx (tcbs s to))) REG_R0 (t_globalid (tcbs s from)) s'))"

lemma recv_no_timeout: "recv_msg c R B (no_timeout x) = no_timeout (recv_msg c R B x)"
  by (cases x) (simp add: recv_msg_def)

lemma handed_tcbs:
  "from \<noteq> to \<Longrightarrow> tcbs (handed from to c s) = (tcbs s)(from := no_timeout (tcbs s from),
     to := recv_msg c (regs (ctx (tcbs s from))) (msg_buffer (tcbs s from)) (no_timeout (tcbs s to)))"
  by (auto simp: handed_def Let_def wr_def)

lemma handed_globals:
  "ready_queue (handed from to c s) = ready_queue s" "ready_bitmap (handed from to c s) = ready_bitmap s"
  "current (handed from to c s) = current s" "preempted_bitmap (handed from to c s) = preempted_bitmap s"
  "pendsv (handed from to c s) = pendsv s"
  by (simp_all add: handed_def Let_def wr_def tcb_upd_def utcb_upd_def)

lemma handed_rep:
  assumes "rq_rep s q" "from \<noteq> to"
  shows "rq_rep (handed from to c s) q" "pv (handed from to c s) = pv s"
proof -
  let ?s = "tcb_upd to (\<lambda>x. recv_msg c (regs (ctx (tcbs s from))) (msg_buffer (tcbs s from)) (no_timeout x)) (tcb_upd from no_timeout s)"
  have "rq_rep (tcb_upd from no_timeout s) q" by (rule rq_rep_tcb_upd_frame [OF assms(1)]) simp_all
  then have "rq_rep ?s q" by (rule rq_rep_tcb_upd_frame) simp_all
  then show "rq_rep (handed from to c s) q"
    by (rule rq_rep_globals) (simp_all add: handed_def Let_def wr_def utcb_upd_def)
  show "pv (handed from to c s) = pv s" using assms(2) by (auto simp: pv_def handed_tcbs fun_eq_iff)
qed

lemma slow_path_eq:
  fixes s :: "'z istate_scheme"
  assumes rep: "rq_rep s q" and t: "to \<noteq> NULL" "pv s to = NULL" and f: "from \<noteq> NULL" "pv s from = NULL" "to \<noteq> from"
    and fo: "files_ok (tcbs s from)" "files_ok (tcbs s to)" and sp: "sp (ctx (tcbs s from)) \<noteq> 0" "sp (ctx (tcbs s to)) \<noteq> 0"
    and u: "utcb (tcbs s to) \<noteq> NULL" "ipc_notify (tcbs s to) = NULL"
    and r1: "rd s (sp (ctx (tcbs s from))) REG_R1 = L4_NILTHREAD"
    and dis: "word_addr (sp (ctx (tcbs s to))) REG_R0 \<noteq> word_addr (sp (ctx (tcbs s from))) REG_R1"
    and n: "n = n_untyped (regs (ctx (tcbs s from)) ! 0)" "n \<le> 39" "n_typed (regs (ctx (tcbs s from)) ! 0) = 0"
  shows "do_ipc cb from to s = rbind (rbind (sched_enqueue to (tcb_upd to wake_to (handed from to (n + 1) s)))
    (\<lambda>s. sched_enqueue from (tcb_upd from wake_from s))) (ipc_callback cb to)"
proof -
  let ?R = "regs (ctx (tcbs s from))" and ?B = "msg_buffer (tcbs s from)"
  define s0 where "s0 = tcb_upd to no_timeout (tcb_upd from no_timeout s)"
  define sM where "sM = tcb_upd to (recv_msg (n + 1) ?R ?B) s0"
  have f0: "tcbs s0 from = no_timeout (tcbs s from)" "tcbs s0 to = no_timeout (tcbs s to)" using f(3) by (simp_all add: s0_def)
  have ok0: "files_ok (tcbs s0 from)" "files_ok (tcbs s0 to)" using fo by (simp_all add: f0 files_ok_def)
  have r0: "ipc_read_mr from 0 s0 = Ok (?R ! 0)" by (simp add: ipc_read_mr_def f0)
  have cp: "rfold (copy_mr from to) [0..<n + 1] s0 = Ok sM"
    using copy_mrs [OF _ ok0, of "n + 1"] f(3) n(2) by (simp add: sM_def f0 del: upt_Suc)
  have up: "[0..<n + 1] = 0 # [1..<n + 1]" by (simp add: upt_rec)
  have cp': "rbind (ipc_write_mr to 0 (?R ! 0) s0) (rfold (copy_mr from to) [1..<n + 1]) = Ok sM"
    using cp unfolding up rfold.simps copy_mr_def [of "from" to 0] r0 rbind.simps .
  have fM: "tcbs sM from = no_timeout (tcbs s from)" "tcbs sM to = recv_msg (n + 1) ?R ?B (no_timeout (tcbs s to))"
    using f(3) f0 by (simp_all add: sM_def)
  have sMh: "utcb_upd (utcb (tcbs sM to)) (sender_update (\<lambda>_. t_globalid (tcbs sM from)))
      (wr (sp (ctx (tcbs sM to))) REG_R0 (t_globalid (tcbs sM from)) sM) = handed from to (n + 1) s"
    by (simp add: handed_def Let_def fM) (simp add: sM_def s0_def)
  have pvM: "pv sM = pv s" using f(3) by (auto simp: pv_def sM_def s0_def fun_eq_iff)
  have repM: "rq_rep sM q"
    unfolding sM_def s0_def by (intro rq_rep_tcb_upd_frame rep) simp_all
  have rdM: "rd sM x i = rd s x i" for x i by (simp add: rd_def sM_def s0_def tcb_upd_def)
  have hand: "ipc_deliver_to from to sM = rbind (sched_enqueue to (tcb_upd to wake_to (handed from to (n + 1) s)))
      (\<lambda>s. sched_enqueue from (tcb_upd from wake_from s))"
    using slow_hand_over [OF repM t(1) _ f(1) _ f(3)] t(2) f(2) u(1) r1 dis sMh by (simp add: pvM fM rdM)
  have tl: "\<not> 48 < n_untyped (?R ! 0) + 1 + n_typed (?R ! 0)" using n by simp
  have "do_ipc cb from to s = rbind (rbind (ipc_write_mr to 0 (?R ! 0) s0) (rfold (copy_mr from to) [1..<n + 1])) (\<lambda>s.
      rbind (copy_typed [n + 1..<n + 1 + 0] from to None s) (\<lambda>(go, s).
        if \<not> go then Ok s
        else if sp (ctx (tcbs s to)) = 0 \<or> sp (ctx (tcbs s from)) = 0 then ipc_abort from to s
        else rbind (ipc_deliver_to from to s) (ipc_callback cb to)))"
    unfolding do_ipc_def Let_def s0_def [symmetric] r0 rbind.simps if_not_P [OF tl] n(1) [symmetric] n(3)
    using n(2) by (cases "ipc_write_mr to 0 (?R ! 0) s0") simp_all
  also have "\<dots> = rbind (ipc_deliver_to from to sM) (ipc_callback cb to)"
    unfolding cp' rbind.simps using sp by (simp add: fM)
  finally show ?thesis unfolding hand .
qed

lemma fast_path_eq:
  fixes s :: "'z istate_scheme"
  assumes el: "fastpath_eligible from svc (regs (ctx (tcbs s from))) s" and to: "to = thread_by_globalid (rd s svc REG_R0) s"
    and rep: "rq_rep s q" and pair: "ipc_pair from to s" and n: "n = n_untyped (regs (ctx (tcbs s from)) ! 0)"
  defines "d \<equiv> sched_dequeue from s"
  shows "ipc_fastpath_helper from svc (regs (ctx (tcbs s from))) s =
    rbind (rbind (sched_enqueue to (tcb_upd to wake_to (handed from to (n + 1) d)))
      (\<lambda>s. sched_enqueue from (tcb_upd from wake_from s))) (\<lambda>s. Ok (True, s\<lparr>pendsv := True\<rparr>))"
proof -
  let ?R = "regs (ctx (tcbs s from))" and ?B = "msg_buffer (tcbs s from)"
  note p = pair [unfolded ipc_pair_def]
  have e: "to \<noteq> NULL" "state (tcbs s to) = T_RECV_BLOCKED" "n \<le> 39"
    using el to n by (simp_all add: fastpath_eligible_def Let_def)
  have ne: "from \<noteq> to" using e(2) p by auto
  have repd: "rq_rep d (\<lambda>x. removeAll from (q x))" unfolding d_def using sched_dequeue_rep [OF rep] p by simp
  have "to \<notin> set (removeAll from (q (level d to)))"
    using rq_rep_member(2) [OF repd, of "level d to" to] e(2) by (auto simp: runnable_def d_def level_def)
  then have pvd: "pv d to = NULL" "pv d from = NULL"
    using rq_rep_queued_iff [OF repd e(1)] rq_rep_queued_iff [OF repd, of "from"] p by auto
  have fd: "ctx (tcbs d x) = ctx (tcbs s x)" "msg_buffer (tcbs d x) = msg_buffer (tcbs s x)" "utcb (tcbs d x) = utcb (tcbs s x)" for x
    by (simp_all add: d_def)
  have okd: "files_ok (tcbs d from)" "files_ok (tcbs d to)" using p by (simp_all add: files_ok_def fd)
  have cp: "fastpath_copy_mrs ?R from to n d = tcb_upd to (recv_msg (n + 1) ?R ?B) d"
    using fastpath_copy_mrs_eq [OF ne okd e(3), of ?R] by (simp add: fd)
  let ?H = "handed from to (n + 1) d"
  have h: "tcb_upd to no_timeout (tcb_upd from no_timeout (utcb_upd (utcb (tcbs s to)) (sender_update (\<lambda>_. t_globalid (tcbs s from)))
      (wr (sp (ctx (tcbs s to))) REG_R0 (t_globalid (tcbs s from)) (tcb_upd to (recv_msg (n + 1) ?R ?B) d)))) = ?H"
    using ne by (simp add: handed_def Let_def fd wr_def utcb_upd_def tcb_upd_def recv_no_timeout fun_upd_twist) (simp add: d_def)
  have pvh: "pv ?H to = NULL" "pv ?H from = NULL" using handed_rep(2) [OF repd ne] pvd by simp_all
  have pvs: "pv (set_state to T_RUNNABLE ?H) to = NULL" using pvh(1) by (simp add: pv_def set_state_def)
  have w: "tcb_upd to (ipc_from_update (\<lambda>_. L4_NILTHREAD))
      (tcb_upd to (\<lambda>x. x\<lparr>priority := (if ipc_from x = L4_ANYTHREAD then SCHED_PRIO_IPC else priority x)\<rparr>) (set_state to T_RUNNABLE ?H)) =
      tcb_upd to wake_to ?H"
    unfolding set_state_def tcb_upd_twice by (rule tcb_upd_eqI) (cases "tcbs ?H to", simp add: wake_to_def)
  have "ipc_fastpath_helper from svc ?R s = rbind (if ipc_from (tcbs (set_state to T_RUNNABLE ?H) to) = L4_ANYTHREAD
        then sched_set_priority to SCHED_PRIO_IPC (set_state to T_RUNNABLE ?H) else Ok (set_state to T_RUNNABLE ?H)) (\<lambda>s.
      rbind (sched_enqueue to (tcb_upd to (ipc_from_update (\<lambda>_. L4_NILTHREAD)) s)) (\<lambda>s.
      rbind (restore_base_priority from s) (\<lambda>s. rbind (sched_enqueue from (set_state from T_RUNNABLE s)) (\<lambda>s.
      Ok (True, s\<lparr>pendsv := True\<rparr>)))))"
    unfolding h [symmetric] ipc_fastpath_helper_def Let_def to [symmetric] n [symmetric] d_def [symmetric] cp
    using el p ne by (simp add: fd) (simp add: d_def wr_def)
  also have "\<dots> = rbind (sched_enqueue to (tcb_upd to wake_to ?H)) (\<lambda>s.
      rbind (rbind (restore_base_priority from s) (\<lambda>s. sched_enqueue from (set_state from T_RUNNABLE s))) (\<lambda>s.
      Ok (True, s\<lparr>pendsv := True\<rparr>)))"
    unfolding boost_unqueued [OF pvs e(1)] rbind.simps w by (simp add: rbind_assoc)
  finally have fast: "ipc_fastpath_helper from svc ?R s = rbind (sched_enqueue to (tcb_upd to wake_to ?H)) (\<lambda>s.
      rbind (rbind (restore_base_priority from s) (\<lambda>s. sched_enqueue from (set_state from T_RUNNABLE s))) (\<lambda>s.
      Ok (True, s\<lparr>pendsv := True\<rparr>)))" .
  have fn: "from \<noteq> NULL" "to \<noteq> from" using p ne by auto
  obtain s1 where s1: "sched_enqueue to (tcb_upd to wake_to ?H) = Ok s1" "pv s1 from = NULL"
    using two_wakes [OF handed_rep(1) [OF repd ne] e(1) pvh(1) fn(1) pvh(2) fn(2) wake_links wake_from_unlinked] by blast
  show ?thesis unfolding fast s1(1) rbind.simps restore_unqueued [OF s1(2) fn(1)] ..
qed

lemma handed_svc:
  fixes d :: "'z istate_scheme"
  assumes "from \<noteq> to"
  defines "v \<equiv> set_state from T_SVC_BLOCKED d"
  shows "tcbs (handed from to c v) to = tcbs (handed from to c d) to"
    "wake_from (tcbs (handed from to c v) from) = wake_from (tcbs (handed from to c d) from)"
    "p \<noteq> from \<Longrightarrow> tcbs (handed from to c v) p = tcbs (handed from to c d) p"
    "kstate.more (handed from to c v) = kstate.more (handed from to c d)" "current (handed from to c v) = current (handed from to c d)"
proof -
  have t: "tcbs (handed from to c v) = (tcbs (handed from to c d))(from := (tcbs (handed from to c d) from)\<lparr>state := T_SVC_BLOCKED\<rparr>)"
    using assms(1) by (cases "tcbs d from") (auto simp: handed_tcbs v_def set_state_def fun_eq_iff)
  then show "tcbs (handed from to c v) to = tcbs (handed from to c d) to"
    "p \<noteq> from \<Longrightarrow> tcbs (handed from to c v) p = tcbs (handed from to c d) p" using assms(1) by simp_all
  show "wake_from (tcbs (handed from to c v) from) = wake_from (tcbs (handed from to c d) from)"
    unfolding t by (cases "tcbs (handed from to c d) from") (simp add: wake_from_def)
  have f: "utcb (tcbs v x) = utcb (tcbs d x)" "t_globalid (tcbs v x) = t_globalid (tcbs d x)" "ctx (tcbs v x) = ctx (tcbs d x)" for x
    by (simp_all add: v_def set_state_def)
  show "kstate.more (handed from to c v) = kstate.more (handed from to c d)"
    unfolding handed_def Let_def f by (cases d) (simp add: v_def set_state_def tcb_upd_def utcb_upd_def wr_def)
  show "current (handed from to c v) = current (handed from to c d)" by (simp add: handed_globals v_def set_state_def)
qed

lemma recv_msg_read:
  assumes "files_ok t" "length R = 8" "length B = 32" "i \<le> n" "n \<le> 39"
  shows "i < 8 \<Longrightarrow> regs (ctx (recv_msg (n + 1) R B t)) ! i = R ! i"
    "8 \<le> i \<Longrightarrow> msg_buffer (recv_msg (n + 1) R B t) ! (i - 8) = B ! (i - 8)"
  using assms by (auto simp: recv_msg_def nth_append files_ok_def)


subsection \<open>A sender and a receiver\<close>

definition ipc_example :: istate where
  "ipc_example = irq_example\<lparr>
     tcbs := (\<lambda>_. tcb0)
       (8192 := tcb0\<lparr>t_globalid := TID_TO_GLOBALID 300, sched_prev := 8192, sched_next := 8192,
          ctx := \<lparr>sp = 0x20005000, ret = 0, ctl = 0, regs = [2, 7, 9, 0, 0, 0, 0, 0]\<rparr>\<rparr>,
        12288 := tcb0\<lparr>t_globalid := TID_TO_GLOBALID 301, state := T_RECV_BLOCKED, ipc_from := L4_ANYTHREAD,
          utcb := 0x20007000, ctx := \<lparr>sp = 0x20006000, ret = 0, ctl = 0, regs = replicate 8 0\<rparr>\<rparr>),
     thread_map := (\<lambda>i. if i = 0 then 8192 else 12288), thread_count := 2,
     ready_bitmap := bit_on 0 15, ready_queue := (\<lambda>_. NULL)(16 := 8192),
     ram := (\<lambda>_. 0)(0x20005000 := TID_TO_GLOBALID 301)\<rparr>"

lemma ipc_example_rep: "rq_rep ipc_example ((\<lambda>_. [])(16 := [8192]))"
proof (rule rq_repI)
  fix p assume p: "p < (32 :: nat)"
  have "bit (bit_on 0 15 :: u32) (31 - p) \<longleftrightarrow> p = 16" using p by (auto simp: bit_bit_on)
  then show "bit (ready_bitmap ipc_example) (31 - p) \<longleftrightarrow> ((\<lambda>_. [])(16 := [8192])) p \<noteq> []"
    by (auto simp: ipc_example_def)
qed (auto simp: ipc_example_def head_of_def nx_def pv_def runnable_def level_def sched_level_def tcb0_def split: if_splits)

lemma ipc_example_receiver: "thread_by_globalid (TID_TO_GLOBALID 301) ipc_example = 12288"
  by (simp add: thread_by_globalid_def thread_map_search_def map_search_loop.simps ipc_example_def tid_of_def tid_roundtrip)


end
