(* ===== verification/Syscall.thy ===== *)
theory Syscall
  imports Fastpath
begin

text \<open>
  System calls, \<^verbatim>\<open>kernel/syscall.c\<close>: the supervisor-call exception, the handlers and their dispatch from the
  soft interrupt, and the table of soft-interrupt handlers that ties the kernel together. The frame of a call is
  the word array \<open>param1\<close> on the caller's stack; registers R4 to R11 are the saved context. The number of a
  call is a byte of the program text, which is the argument \<open>text\<close>. A pointer the caller passes is written
  in the store of stack words.
\<close>

subsection \<open>Constants\<close>

abbreviation (input) SYS_THREAD_CONTROL :: u8 where "SYS_THREAD_CONTROL \<equiv> 2"
abbreviation (input) SYS_SYSTEM_CLOCK :: u8 where "SYS_SYSTEM_CLOCK \<equiv> 3"
abbreviation (input) SYS_SCHEDULE :: u8 where "SYS_SCHEDULE \<equiv> 5"
abbreviation (input) SYS_IPC :: u8 where "SYS_IPC \<equiv> 6"
abbreviation (input) SYS_TIMER_NOTIFY :: u8 where "SYS_TIMER_NOTIFY \<equiv> 12"
abbreviation (input) SYS_NOTIFY_WAIT :: u8 where "SYS_NOTIFY_WAIT \<equiv> 13"
abbreviation (input) SYS_NOTIFY_POST :: u8 where "SYS_NOTIFY_POST \<equiv> 14"
abbreviation (input) SYS_NOTIFY_CLEAR :: u8 where "SYS_NOTIFY_CLEAR \<equiv> 15"

abbreviation (input) L4_SCHEDRESULT_ERROR :: u32 where "L4_SCHEDRESULT_ERROR \<equiv> 0"
abbreviation (input) L4_SCHEDRESULT_INACTIVE :: u32 where "L4_SCHEDRESULT_INACTIVE \<equiv> 2"
abbreviation (input) L4_SCHEDRESULT_RUNNING :: u32 where "L4_SCHEDRESULT_RUNNING \<equiv> 3"
abbreviation (input) L4_SCHEDRESULT_SENDING :: u32 where "L4_SCHEDRESULT_SENDING \<equiv> 5"
abbreviation (input) L4_SCHEDRESULT_WAITING :: u32 where "L4_SCHEDRESULT_WAITING \<equiv> 6"
abbreviation (input) L4_SCHEDRESULT_RECEIVING :: u32 where "L4_SCHEDRESULT_RECEIVING \<equiv> 7"

subsection \<open>The supervisor call\<close>

definition svc_defer :: "'z sstate_scheme \<Rightarrow> 'z sstate_scheme result" where
  "svc_defer s =
     softirq_schedule SYSCALL_SOFTIRQ (set_state (caller s) T_SVC_BLOCKED (sched_dequeue (caller s) s))"

text \<open>\<open>__svc_handler\<close>: \<open>psp\<close> is the process stack pointer, \<open>saved\<close> the registers R4 to R11.\<close>

definition svc_handler :: "(u32 \<Rightarrow> u8) \<Rightarrow> u32 \<Rightarrow> u32 list \<Rightarrow> 'z sstate_scheme \<Rightarrow> 'z sstate_scheme result" where
  "svc_handler text psp saved s =
     (if thread_current s = kernel s then Ok s
      else
        let s = s\<lparr>caller := thread_current s\<rparr>;
            svc_num = text (rd s psp REG_PC - 2)
        in if svc_num = SYS_IPC then
             rbind (ipc_fastpath_helper (caller s) psp saved s) (\<lambda>(done, s).
             if done then Ok s else svc_defer s)
           else svc_defer s)"

definition syscall_init :: "'z sstate_scheme \<Rightarrow> 'z sstate_scheme" where
  "syscall_init s = softirq_register SYSCALL_SOFTIRQ SYSCALL_HANDLER s"

subsection \<open>The calls\<close>

definition sched_result :: "thread_state_t \<Rightarrow> u32" where
  "sched_result st = (case st of
     T_INACTIVE \<Rightarrow> L4_SCHEDRESULT_INACTIVE
   | T_RUNNABLE \<Rightarrow> L4_SCHEDRESULT_RUNNING
   | T_RECV_BLOCKED \<Rightarrow> L4_SCHEDRESULT_RECEIVING
   | T_SEND_BLOCKED \<Rightarrow> L4_SCHEDRESULT_SENDING
   | T_SVC_BLOCKED \<Rightarrow> L4_SCHEDRESULT_WAITING
   | T_NOTIFY_BLOCKED \<Rightarrow> L4_SCHEDRESULT_WAITING)"

definition sys_schedule :: "u32 \<Rightarrow> u32 list \<Rightarrow> 'z tstate_scheme \<Rightarrow> 'z tstate_scheme result" where
  "sys_schedule param1 param2 s =
     (let dest = rd s param1 REG_R0;
          prio_control = rd s param1 REG_R3;
          preemption_control = param2 ! 0;
          old_control = param2 ! 1;
          target = thread_by_globalid dest s in
      if target = NULL then Ok (wr param1 REG_R0 L4_SCHEDRESULT_ERROR s)
      else
        let new_priority = ucast (prio_control AND 0xFF) :: u8;
            new_threshold = ucast (drop_bit 16 preemption_control AND 0xFF) :: u8;
            s = (if old_control \<noteq> NULL
                 then wr old_control 0 (push_bit 16 (ucast (preempt_threshold (tcbs s target))) OR ucast (priority (tcbs s target))) s
                 else s) in
        rbind (if new_priority \<noteq> 0xFF \<and> unat new_priority < SCHED_PRIORITY_LEVELS
               then rbind (sched_set_priority target new_priority s) (\<lambda>s.
                    Ok (tcb_upd target (\<lambda>t. t\<lparr>user_priority := new_priority, base_priority := new_priority\<rparr>) s))
               else Ok s) (\<lambda>s.
        if new_threshold \<noteq> 0xFF then
          (case sched_preemption_change target new_threshold s of (r, _, s) \<Rightarrow>
             Ok (wr param1 REG_R0 (if r < 0 then L4_SCHEDRESULT_ERROR else sched_result (state (tcbs s target))) s))
        else Ok (wr param1 REG_R0 (sched_result (state (tcbs s target))) s)))"

definition sys_thread_control :: "u32 \<Rightarrow> u32 list \<Rightarrow> 'z tstate_scheme \<Rightarrow> 'z tstate_scheme result" where
  "sys_thread_control param1 param2 s =
     (let dest = rd s param1 REG_R0;
          space = rd s param1 REG_R1;
          pager = rd s param1 REG_R3;
          fail = (\<lambda>s. Ok (wr param1 REG_R0 0 s)) in
      if space \<noteq> L4_NILTHREAD then
        let u = param2 ! 0; mm = memmap (mem s) in
        case mempool_getbyid mm (mempool_search mm u utcb_size) of
          None \<Rightarrow> fail s
        | Some utcb_pool \<Rightarrow>
            if mp_flags utcb_pool AND (MP_UR OR MP_UW) = 0 then fail s
            else if \<not> addr_is_fpage_aligned u then fail s
            else rbind (thread_create dest u s) (\<lambda>(thr, s).
                 if thr = NULL then fail s
                 else
                   rbind (thread_space thr space u s) (\<lambda>s.
                   let s = tcb_upd thr (t_pager_update (\<lambda>_. pager)) s in
                   if caller s = NULL \<or> thread_ispriviliged (caller s) s then
                     if utcb (tcbs s thr) = NULL then Fault (Null_deref ''sys_thread_control: thr->utcb->t_pager'')
                     else Ok (wr param1 REG_R0 1 (utcb_upd (utcb (tcbs s thr)) (utcb_pager_update (\<lambda>_. pager)) s))
                   else Ok (wr param1 REG_R0 1 (tcb_upd thr (utcb_needs_sync_update (\<lambda>_. 1)) s))))
      else
        let thr = thread_by_globalid dest s in
        if thr = NULL then fail s
        else rbind (thread_destroy thr s) (\<lambda>s. Ok (wr param1 REG_R0 1 s)))"

text \<open>The timer is created for the running thread, which is the kernel thread when the call is served.\<close>

definition sys_timer_notify :: "u32 \<Rightarrow> 'z ktstate_scheme \<Rightarrow> 'z ktstate_scheme result" where
  "sys_timer_notify param1 s =
     (let ticks = rd s param1 REG_R0; bits = rd s param1 REG_R1; periodic = rd s param1 REG_R2 in
      if ticks = 0 \<or> bits = 0 then Ok (wr param1 REG_R0 0 s)
      else rbind (ktimer_event_create_notify ticks (thread_current s) bits (periodic \<noteq> 0) s) (\<lambda>(timer, s).
           Ok (wr param1 REG_R0 timer s)))"

definition resume_caller :: "'z tstate_scheme \<Rightarrow> 'z tstate_scheme result" where
  "resume_caller s = sched_enqueue (caller s) (set_state (caller s) T_RUNNABLE s)"

definition sys_notify_wait :: "u32 \<Rightarrow> 'z tstate_scheme \<Rightarrow> 'z tstate_scheme result" where
  "sys_notify_wait param1 s =
     (let msk = rd s param1 REG_R0 in
      if msk = 0 then
        let s = wr param1 REG_R0 0 s
        in resume_caller (tcb_upd (caller s) (notify_mask_update (\<lambda>_. 0)) s)
      else
        let matched = notification_get (caller s) s AND msk in
        if matched \<noteq> 0 then
          let s = notification_clear (caller s) matched s;
              s = wr param1 REG_R0 matched s
          in resume_caller (tcb_upd (caller s) (notify_mask_update (\<lambda>_. 0)) s)
        else Ok (tcb_upd (caller s) (\<lambda>t. t\<lparr>notify_mask := msk, state := T_NOTIFY_BLOCKED\<rparr>) s))"

definition sys_notify_post :: "u32 \<Rightarrow> 'z tstate_scheme \<Rightarrow> 'z tstate_scheme result" where
  "sys_notify_post param1 s =
     (let target_tid = rd s param1 REG_R0; bits = rd s param1 REG_R1 in
      if bits = 0 then Ok (wr param1 REG_R0 0 s)
      else
        let target = thread_by_globalid target_tid s in
        if target = NULL then Ok (wr param1 REG_R0 0 s)
        else rbind (notify_wake_thread target (notification_signal target bits s)) (\<lambda>(_, s).
             Ok (wr param1 REG_R0 1 s)))"

definition sys_notify_clear :: "u32 \<Rightarrow> 'z tstate_scheme \<Rightarrow> 'z tstate_scheme" where
  "sys_notify_clear param1 s =
     (let bits = rd s param1 REG_R0 in
      if bits = 0 then wr param1 REG_R0 0 s
      else
        let cleared = notification_get (caller s) s AND bits
        in wr param1 REG_R0 cleared (notification_clear (caller s) cleared s))"

text \<open>Microseconds by fixed-point arithmetic; the factor is \<open>(1000000 << 16) / (168000000 / 65536)\<close>.\<close>

definition USEC_PER_TICK_FP :: u64 where
  "USEC_PER_TICK_FP = (push_bit 16 1000000) div (168000000 div 65536)"

definition ticks_to_usec :: "u64 \<Rightarrow> u64" where
  "ticks_to_usec ticks = drop_bit 16 (ticks * USEC_PER_TICK_FP)"

definition sys_system_clock :: "u32 \<Rightarrow> 'z ktstate_scheme \<Rightarrow> 'z ktstate_scheme" where
  "sys_system_clock param1 s =
     (let usec = ticks_to_usec (ktimer_get_now s)
      in wr param1 REG_R1 (ucast (drop_bit 32 usec)) (wr param1 REG_R0 (ucast usec) s))"

subsection \<open>Dispatch\<close>

definition syscall_handler :: "ipc_syms \<Rightarrow> 'z notify_cb \<Rightarrow> (u32 \<Rightarrow> u8) \<Rightarrow> 'z istate_scheme \<Rightarrow> 'z istate_scheme result" where
  "syscall_handler L cb text s =
     (let param1 = sp (ctx (tcbs s (caller s)));
          svc_num = text (rd s param1 REG_PC - 2);
          param2 = regs (ctx (tcbs s (caller s)))
      in if svc_num = SYS_THREAD_CONTROL then rbind (sys_thread_control param1 param2 s) resume_caller
         else if svc_num = SYS_SCHEDULE then rbind (sys_schedule param1 param2 s) resume_caller
         else if svc_num = SYS_SYSTEM_CLOCK then resume_caller (sys_system_clock param1 s)
         else if svc_num = SYS_TIMER_NOTIFY then rbind (sys_timer_notify param1 s) resume_caller
         else if svc_num = SYS_NOTIFY_WAIT then sys_notify_wait param1 s
         else if svc_num = SYS_NOTIFY_POST then rbind (sys_notify_post param1 s) resume_caller
         else if svc_num = SYS_NOTIFY_CLEAR then resume_caller (sys_notify_clear param1 s)
         else if svc_num = SYS_IPC then sys_ipc L cb param1 s
         else resume_caller s)"

text \<open>The handlers of the soft interrupts by name.\<close>

definition softirq_call :: "ipc_syms \<Rightarrow> 'z notify_cb \<Rightarrow> (u32 \<Rightarrow> u8) \<Rightarrow> softirq_handler_t \<Rightarrow>
    'z istate_scheme \<Rightarrow> 'z istate_scheme result" where
  "softirq_call L cb text h s = (case h of
     KTIMER_EVENT_HANDLER \<Rightarrow> ktimer_event_handler (ktimer_call cb) s
   | NOTIFICATION_ASYNC_HANDLER \<Rightarrow> notification_async_handler s
   | SYSCALL_HANDLER \<Rightarrow> syscall_handler L cb text s
   | NO_HANDLER \<Rightarrow> Fault (Null_deref ''softirq_execute: handler''))"

subsection \<open>The clock\<close>

lemma USEC_PER_TICK_FP_eq: "USEC_PER_TICK_FP = 25570035"
  by (simp add: USEC_PER_TICK_FP_def push_bit_eq_mult)

lemma unat_shift: "unat (drop_bit n (w :: 64 word)) = unat w div 2 ^ n"
  by (simp only: unat_drop_bit_eq) (simp only: drop_bit_eq_div)

lemma unat_ticks_to_usec:
  assumes "unat t * 25570035 < 2 ^ 64"
  shows "unat (ticks_to_usec t) = unat t * 25570035 div 2 ^ 16"
proof -
  have "unat (t * 25570035) = unat t * 25570035"
    using assms by (simp add: unat_word_ariths take_bit_nat_eq_self unsigned_of_nat)
  then show ?thesis unfolding ticks_to_usec_def USEC_PER_TICK_FP_eq unat_shift by simp
qed

lemma word_addr_R0_R1: "word_addr p REG_R0 \<noteq> word_addr p REG_R1"
  by (simp add: word_addr_def)

lemma unat_halves: "unat (ucast (u :: u64) :: u32) + 2 ^ 32 * unat (ucast (drop_bit 32 u) :: u32) = unat u"
proof -
  have "unat (drop_bit 32 u) < 2 ^ 32"
    using unsigned_less [of u, where ?'a = nat] unfolding unat_shift by (simp add: div_less_iff_less_mult)
  then have "unat (ucast (drop_bit 32 u) :: u32) = unat (drop_bit 32 u)"
    by (simp add: unsigned_ucast_eq take_bit_nat_eq_self)
  then have "unat (ucast (drop_bit 32 u) :: u32) = unat u div 2 ^ 32" unfolding unat_shift .
  moreover have "unat (ucast u :: u32) = unat u mod 2 ^ 32"
    by (simp add: unsigned_ucast_eq take_bit_eq_mod)
  ultimately show ?thesis by simp
qed



subsection \<open>Waiting for and posting notifications\<close>

lemma wr_same_rep: "rq_rep s q \<Longrightarrow> rq_rep (wr a i v s) q"
  by (erule rq_rep_globals) (simp_all add: wr_def)

text \<open>C18. No lost wake-up: a caller that waits for a mask none of whose bits is set blocks with that mask; when a
  thread then posts bits that meet the mask, the waiter becomes ready at the tail of its ready list, finds
  exactly the posted bits of its mask in R0, keeps its other bits, and the poster finds 1 in R0.\<close>

theorem notify_wait_then_post:
  fixes s :: "'z tstate_scheme"
  assumes rep: "rq_rep s q" and c: "c = caller s" "c \<noteq> NULL" "pv s c = NULL" and msk: "msk = rd s p REG_R0" "msk \<noteq> 0"
    and none: "notify_bits (tcbs s c) AND msk = 0"
  shows "\<exists>s1. sys_notify_wait p s = Ok s1 \<and> state (tcbs s1 c) = T_NOTIFY_BLOCKED \<and> rq_rep s1 q \<and>
    (\<forall>p'. thread_by_globalid (rd s1 p' REG_R0) s1 = c \<and> rd s1 p' REG_R1 AND msk \<noteq> 0 \<and>
       word_addr p' REG_R0 \<noteq> word_addr (sp (ctx (tcbs s c))) REG_R0 \<longrightarrow>
      (\<exists>s2. sys_notify_post p' s1 = Ok s2 \<and> state (tcbs s2 c) = T_RUNNABLE \<and>
        rq_rep s2 (q(level s c := q (level s c) @ [c])) \<and> rd s2 (sp (ctx (tcbs s c))) REG_R0 = rd s1 p' REG_R1 AND msk \<and>
        notify_bits (tcbs s2 c) = (notify_bits (tcbs s c) OR rd s1 p' REG_R1) AND NOT msk \<and> rd s2 p' REG_R0 = 1))"
proof -
  define s1 where "s1 = tcb_upd c (\<lambda>t. t\<lparr>notify_mask := msk, state := T_NOTIFY_BLOCKED\<rparr>) s"
  have w: "sys_notify_wait p s = Ok s1"
    using c(1,2) msk none by (simp add: sys_notify_wait_def Let_def notification_get_def s1_def)
  have r1: "rq_rep s1 q" unfolding s1_def by (rule rq_rep_tcb_upd_unqueued [OF rep]) (simp_all add: c(3))
  have post: "\<exists>s2. sys_notify_post p' s1 = Ok s2 \<and> state (tcbs s2 c) = T_RUNNABLE \<and>
        rq_rep s2 (q(level s c := q (level s c) @ [c])) \<and> rd s2 (sp (ctx (tcbs s c))) REG_R0 = b AND msk \<and>
        notify_bits (tcbs s2 c) = (notify_bits (tcbs s c) OR b) AND NOT msk \<and> rd s2 p' REG_R0 = 1"
    if t: "thread_by_globalid (rd s1 p' REG_R0) s1 = c" and b: "b = rd s1 p' REG_R1" "b AND msk \<noteq> 0"
      and dis: "word_addr p' REG_R0 \<noteq> word_addr (sp (ctx (tcbs s c))) REG_R0" for p' b
  proof -
    define s2 where "s2 = notification_signal c b s1"
    have f2: "tcbs s2 c = update_notify_pending ((tcbs s c)\<lparr>notify_mask := msk, state := T_NOTIFY_BLOCKED,
        notify_bits := notify_bits (tcbs s c) OR b\<rparr>)"
      using c(2) by (simp add: s2_def s1_def notification_signal_def)
    have r2: "rq_rep s2 q" unfolding s2_def notification_signal_def
      using rq_rep_tcb_upd_frame [OF r1] r1 by (simp add: update_notify_pending_def)
    have m: "(notify_bits (tcbs s c) OR b) AND msk = b AND msk" using none by (simp add: bit.conj_disj_distrib2)
    have b0: "b \<noteq> 0" using b(2) by auto
    obtain s3 where s3: "notify_wake_thread c s2 = Ok (True, s3)" "rq_rep s3 (q(level s2 c := q (level s2 c) @ [c]))"
        "state (tcbs s3 c) = T_RUNNABLE" "rd s3 (sp (ctx (tcbs s2 c))) REG_R0 = b AND msk"
        "notify_bits (tcbs s3 c) = (notify_bits (tcbs s c) OR b) AND NOT msk"
      using notify_wake_thread_rep [OF r2 c(2)] b(2) by (auto simp: f2 update_notify_pending_def m)
    have lv: "level s2 c = level s c" "ctx (tcbs s2 c) = ctx (tcbs s c)" by (simp_all add: level_def f2 update_notify_pending_def)
    have "sys_notify_post p' s1 = Ok (wr p' REG_R0 1 s3)"
      unfolding sys_notify_post_def Let_def b(1) [symmetric] t using b0 c(2) s3(1) by (simp add: s2_def)
    moreover have "rq_rep (wr p' REG_R0 1 s3) (q(level s c := q (level s c) @ [c]))"
      using wr_same_rep [OF s3(2)] by (simp add: lv)
    ultimately show ?thesis
      using s3(3-5) dis by (intro exI [of _ "wr p' REG_R0 1 s3"]) (simp add: wr_def rd_def lv)
  qed
  have "state (tcbs s1 c) = T_NOTIFY_BLOCKED" by (simp add: s1_def)
  then show ?thesis using w r1 post by blast
qed

text \<open>A thread 300 at 8192 that waits for bit 2, posted by thread 301.\<close>

definition post_example :: tstate where
  "post_example = boot\<lparr>tcbs := (\<lambda>_. tcb0)(8192 := tcb0\<lparr>t_globalid := TID_TO_GLOBALID 300, state := T_SVC_BLOCKED, notify_bits := 1,
       ctx := \<lparr>sp = 0x20005000, ret = 0, ctl = 0, regs = replicate 8 0\<rparr>\<rparr>),
     thread_map := (\<lambda>_. 8192), thread_count := 1, caller := 8192,
     ram := (\<lambda>_. 0)(0x20005000 := 4, 0x20006000 := TID_TO_GLOBALID 300, 0x20006004 := 6)\<rparr>"

theorem notify_wait_then_post_witness:
  "\<exists>s1 s2. sys_notify_wait 0x20005000 post_example = Ok s1 \<and> sys_notify_post 0x20006000 s1 = Ok s2 \<and>
     state (tcbs s2 8192) = T_RUNNABLE \<and> rd s2 0x20005000 REG_R0 = 4 \<and> notify_bits (tcbs s2 8192) = 3"
proof -
  have rep: "rq_rep post_example (\<lambda>_. [])"
    by (rule rq_rep_empty) (simp_all add: post_example_def boot_def tcb0_def)
  have f: "caller post_example = 8192" "rd post_example 0x20005000 REG_R0 = 4" "notify_bits (tcbs post_example 8192) = 1"
    "sp (ctx (tcbs post_example 8192)) = 0x20005000" "pv post_example 8192 = 0"
    by (simp_all add: post_example_def rd_def word_addr_def pv_def tcb0_def)
  have s1: "sys_notify_wait 0x20005000 post_example =
      Ok (tcb_upd 8192 (\<lambda>t. t\<lparr>notify_mask := 4, state := T_NOTIFY_BLOCKED\<rparr>) post_example)" (is "_ = Ok ?s1")
    using f by (simp add: sys_notify_wait_def Let_def notification_get_def)
  have r: "rd ?s1 0x20006000 REG_R0 = TID_TO_GLOBALID 300" "rd ?s1 0x20006000 REG_R1 = 6"
    by (simp_all add: post_example_def rd_def word_addr_def)
  have "thread_by_globalid (TID_TO_GLOBALID 300) ?s1 = 8192"
    by (simp add: thread_by_globalid_def thread_map_search_def map_search_loop.simps post_example_def tid_of_def tid_roundtrip)
  then show ?thesis
    using notify_wait_then_post [OF rep, of 8192 4 "0x20005000"] f s1 r
    by (auto simp: word_addr_def dest!: spec [of _ "0x20006000"])
qed

end
