(* ===== verification/L4_Types.thy ===== *)
theory L4_Types
  imports Syscall
begin

text \<open>
  The basic types of the user library, \<^verbatim>\<open>user/include/l4/types.h\<close>: flexible pages, thread identifiers, clocks
  and time periods. The unions with bit-fields are words with \<open>bits\<close> and \<open>put_bits\<close> for a field at a given
  position and width. A shift by 32 or more is undefined in C; here its result is 0.
\<close>

subsection \<open>Bit-fields\<close>

definition bits :: "nat \<Rightarrow> nat \<Rightarrow> u32 \<Rightarrow> u32" where
  "bits lo n w = drop_bit lo w AND mask n"

definition put_bits :: "nat \<Rightarrow> nat \<Rightarrow> u32 \<Rightarrow> u32 \<Rightarrow> u32" where
  "put_bits lo n v w = (w AND NOT (push_bit lo (mask n))) OR push_bit lo (v AND mask n)"

named_theorems bit_fields \<open>reading fields of words built by field updates\<close>

lemma bits_put_bits_same [bit_fields]: "lo + n \<le> 32 \<Longrightarrow> bits lo n (put_bits lo n v w) = v AND mask n"
  by (rule bit_word_eqI) (auto simp: bits_def put_bits_def bit_simps)

lemma bits_put_bits_other [bit_fields]:
  "lo + n \<le> lo' \<or> lo' + n' \<le> lo \<Longrightarrow> bits lo n (put_bits lo' n' v w) = bits lo n w"
  by (rule bit_word_eqI) (auto simp: bits_def put_bits_def bit_simps dest: u32_bit_bound)

lemma and_mask_less: "unat v < 2 ^ n \<Longrightarrow> (v :: u32) AND mask n = v"
  by (simp add: word_unat_eq_iff unsigned_take_bit_eq take_bit_nat_eq_self flip: take_bit_eq_mask)

subsection \<open>Flexible pages\<close>

definition L4_IsNilFpage :: "u32 \<Rightarrow> bool" where "L4_IsNilFpage f \<longleftrightarrow> f = 0"
definition L4_Rights :: "u32 \<Rightarrow> u32" where "L4_Rights f = bits 0 3 f"
definition L4_Set_Rights :: "u32 \<Rightarrow> u32 \<Rightarrow> u32" where "L4_Set_Rights f rwx = put_bits 0 3 rwx f"
definition L4_FpageAddRights :: "u32 \<Rightarrow> u32 \<Rightarrow> u32" where
  "L4_FpageAddRights f rwx = put_bits 0 3 (bits 0 3 f OR rwx) f"
definition L4_FpageRemoveRights :: "u32 \<Rightarrow> u32 \<Rightarrow> u32" where
  "L4_FpageRemoveRights f rwx = put_bits 0 3 (bits 0 3 f AND NOT rwx) f"

definition L4_Msb :: "u32 \<Rightarrow> int" where
  "L4_Msb w = 31 - int (clz32 w)"

definition L4_FpageLog2 :: "u32 \<Rightarrow> int \<Rightarrow> u32" where
  "L4_FpageLog2 BaseAddress FpageSize = put_bits 0 3 0 (put_bits 4 6 (word_of_int FpageSize) BaseAddress)"

text \<open>The size 0 has no most significant bit; the shift by -1 that follows in C is undefined.\<close>

definition L4_Fpage :: "u32 \<Rightarrow> u32 \<Rightarrow> u32 option" where
  "L4_Fpage BaseAddress FpageSize =
     (let msb = L4_Msb FpageSize in
      if msb < 0 then None
      else Some (L4_FpageLog2 BaseAddress (if push_bit (nat msb) 1 < FpageSize then msb + 1 else msb)))"

definition L4_SizeLog2 :: "u32 \<Rightarrow> nat" where "L4_SizeLog2 f = unat (bits 4 6 f)"
definition L4_Address :: "u32 \<Rightarrow> u32" where "L4_Address f = f AND NOT (push_bit (L4_SizeLog2 f) 1 - 1)"
definition L4_Size :: "u32 \<Rightarrow> u32" where "L4_Size f = (if L4_SizeLog2 f = 0 then 0 else push_bit (L4_SizeLog2 f) 1)"

subsection \<open>Thread identifiers\<close>

definition L4_GlobalId :: "u32 \<Rightarrow> u32 \<Rightarrow> u32" where
  "L4_GlobalId threadno version = put_bits 0 14 version (put_bits 14 18 threadno 0)"
definition L4_Version :: "u32 \<Rightarrow> u32" where "L4_Version t = bits 0 14 t"
definition L4_ThreadNo :: "u32 \<Rightarrow> u32" where "L4_ThreadNo t = bits 14 18 t"
definition L4_IsNilThread :: "u32 \<Rightarrow> bool" where "L4_IsNilThread t \<longleftrightarrow> t = 0"
definition L4_IsLocalId :: "u32 \<Rightarrow> bool" where "L4_IsLocalId t \<longleftrightarrow> bits 0 6 t = 0"
definition L4_IsGlobalId :: "u32 \<Rightarrow> bool" where "L4_IsGlobalId t \<longleftrightarrow> bits 0 6 t \<noteq> 0"
definition L4_IsThreadEqual :: "u32 \<Rightarrow> u32 \<Rightarrow> bool" where "L4_IsThreadEqual l r \<longleftrightarrow> l = r"

subsection \<open>Time periods\<close>

abbreviation (input) L4_Never :: u16 where "L4_Never \<equiv> 0"
definition L4_ZeroTime :: u16 where "L4_ZeroTime = push_bit 10 1"

text \<open>The record of a period: mantissa of 10 bits, exponent of 5.\<close>

definition set_period :: "nat \<Rightarrow> u32 \<Rightarrow> u16" where
  "set_period e m = ucast (put_bits 10 5 (of_nat e) (put_bits 0 10 m 0))"

text \<open>The branch for compile-time constants tries the powers of two in turn.\<close>

definition L4_TimePeriod_const :: "u64 \<Rightarrow> u16" where
  "L4_TimePeriod_const us = (case find (\<lambda>N. us < push_bit N 1) [10..<32] of
     Some N \<Rightarrow> set_period (N - 10) (ucast (drop_bit (N - 10) us))
   | None \<Rightarrow> L4_Never)"

text \<open>The branch for run-time values halves the mantissa, a 32-bit word, until it fits.\<close>

lemma unat_u32_shift: "unat (drop_bit n (w :: u32)) = unat w div 2 ^ n"
  by (simp only: unat_drop_bit_eq) (simp only: drop_bit_eq_div)

function period_loop :: "nat \<Rightarrow> u32 \<Rightarrow> nat \<times> u32" where
  "period_loop e man = (if man \<ge> 1024 then period_loop (Suc e) (drop_bit 1 man) else (e, man))"
  by auto
termination
proof (relation "measure (\<lambda>(e, man). unat man)", goal_cases)
  case (2 e man)
  then have "1024 \<le> unat man" by (simp add: word_le_nat_alt)
  then show ?case unfolding in_measure split unat_u32_shift by simp
qed simp

declare period_loop.simps [simp del]

definition L4_TimePeriod :: "u64 \<Rightarrow> u16" where
  "L4_TimePeriod us =
     (case period_loop 0 (ucast us) of (l4_exp, man) \<Rightarrow> if l4_exp \<le> 31 then set_period l4_exp man else L4_Never)"

definition L4_Timeouts :: "u16 \<Rightarrow> u16 \<Rightarrow> u32" where
  "L4_Timeouts SndTimeout RcvTimeout = push_bit 16 (ucast SndTimeout) + ucast RcvTimeout"

subsection \<open>What the kernel makes of a period\<close>

lemma period_loop_spec:
  "period_loop e man = (e', m) \<Longrightarrow> e \<le> e' \<and> m = drop_bit (e' - e) man \<and> m < 1024 \<and> (e' = e \<or> 512 \<le> m)"
proof (induction e man arbitrary: m rule: period_loop.induct)
  case (1 e man)
  show ?case
  proof (cases "1024 \<le> man")
    case True
    then have r: "period_loop (Suc e) (drop_bit 1 man) = (e', m)" using 1(2) by (simp add: period_loop.simps [of e])
    have i: "Suc e \<le> e' \<and> m = drop_bit (e' - Suc e) (drop_bit 1 man) \<and> m < 1024 \<and> (e' = Suc e \<or> 512 \<le> m)"
      by (rule 1(1) [OF True r])
    have "512 \<le> drop_bit 1 man" using True unfolding word_le_nat_alt unat_u32_shift by simp
    moreover have "drop_bit (e' - Suc e) (drop_bit 1 man) = drop_bit (e' - e) man"
      using i by (simp add: Suc_diff_Suc)
    ultimately show ?thesis using i by auto
  next
    case False
    then show ?thesis using 1(2) by (auto simp: period_loop.simps [of e])
  qed
qed

lemma set_period_fields:
  assumes "e < 32" "m < 1024"
  shows "time_m (ucast (set_period e m)) = m" "time_e (ucast (set_period e m)) = e"
proof -
  have c: "ucast (set_period e m) = put_bits 10 5 (of_nat e) (put_bits 0 10 m 0)"
    by (rule bit_word_eqI) (auto simp: set_period_def put_bits_def bit_simps)
  have "unat (of_nat e :: u32) = e" using assms(1) by (intro u32_unat_of_nat) simp
  then have e: "(of_nat e :: u32) AND mask 5 = of_nat e" using assms(1) by (intro and_mask_less) simp
  have "unat m < 2 ^ 10" using assms(2) by (simp add: word_less_nat_alt)
  then have m: "m AND mask 10 = m" by (rule and_mask_less)
  have mk: "mask 10 = (0x3FF :: u32)" "mask 5 = (0x1F :: u32)" by (simp_all add: mask_numeral)
  show "time_m (ucast (set_period e m)) = m"
    using bits_put_bits_other [of 0 10 10 5 "of_nat e" "put_bits 0 10 m 0"] bits_put_bits_same [of 0 10 m 0] m
    by (simp add: c time_m_def bits_def mk)
  show "time_e (ucast (set_period e m)) = e"
    using bits_put_bits_same [of 10 5 "of_nat e" "put_bits 0 10 m 0"] e \<open>unat (of_nat e :: u32) = e\<close>
    by (simp add: c time_e_def bits_def mk)
qed

lemma L4_TimePeriod_spec:
  assumes "unat us < 2 ^ 31"
  obtains e m where "L4_TimePeriod us = set_period e m" "unat m = unat us div 2 ^ e" "unat m < 1024" "e \<le> 21"
    "e = 0 \<or> 512 \<le> unat m" "unat m * 2 ^ e \<le> unat us" "unat us < (unat m + 1) * 2 ^ e"
proof -
  obtain e m where p: "period_loop 0 (ucast us) = (e, m)" by (cases "period_loop 0 (ucast us :: u32)")
  have sp: "m = drop_bit e (ucast us)" "unat m < 1024" "e = 0 \<or> 512 \<le> unat m"
    using period_loop_spec [OF p] by (auto simp: word_le_nat_alt word_less_nat_alt)
  have "unat (ucast us :: u32) = unat us" using assms(1) by (simp add: unsigned_ucast_eq take_bit_nat_eq_self)
  then have m: "unat m = unat us div 2 ^ e" unfolding sp(1) unat_u32_shift by simp
  then have b: "unat m * 2 ^ e \<le> unat us" by simp
  have e21: "e \<le> 21"
  proof (rule ccontr)
    assume "\<not> e \<le> 21"
    then have "(2 :: nat) ^ 22 \<le> 2 ^ e" by (intro power_increasing) simp_all
    moreover have "512 \<le> unat m" using sp(3) \<open>\<not> e \<le> 21\<close> by auto
    ultimately have "512 * 2 ^ 22 \<le> unat us" using b by (meson le_trans mult_le_mono)
    then show False using assms(1) by simp
  qed
  have "unat us < (unat m + 1) * 2 ^ e" using dividend_less_div_times [of "2 ^ e" "unat us"] by (simp add: m algebra_simps)
  moreover have "L4_TimePeriod us = set_period e m" using e21 by (simp add: L4_TimePeriod_def p)
  ultimately show thesis using that [of e m] m sp b e21 by blast
qed

text \<open>Both branches of \<open>L4_TimePeriod\<close> agree on what a constant may be.\<close>

lemma unat_u64_exp: "n < 64 \<Longrightarrow> unat (push_bit n 1 :: u64) = 2 ^ n"
proof -
  assume n: "n < 64"
  have "(2 :: nat) ^ n < 2 ^ LENGTH(64)" using n by (intro power_strict_increasing) simp_all
  then have "unat (of_nat (2 ^ n) :: u64) = 2 ^ n"
    unfolding unsigned_of_nat of_nat_id by (rule take_bit_nat_eq_self)
  then show ?thesis by (simp add: push_bit_eq_mult)
qed

lemma find_upt: "a \<le> n \<Longrightarrow> n < b \<Longrightarrow> P n \<Longrightarrow> (\<And>k. a \<le> k \<Longrightarrow> k < n \<Longrightarrow> \<not> P k) \<Longrightarrow> find P [a..<b] = Some n"
  unfolding find_Some_iff by (intro exI [of _ "n - a"]) auto

lemma L4_TimePeriod_const_eq:
  assumes "unat us < 2 ^ 31"
  shows "L4_TimePeriod_const us = L4_TimePeriod us"
proof -
  obtain e m where sp: "L4_TimePeriod us = set_period e m" "unat m = unat us div 2 ^ e" "unat m < 1024" "e \<le> 21"
    "e = 0 \<or> 512 \<le> unat m" "unat m * 2 ^ e \<le> unat us" "unat us < (unat m + 1) * 2 ^ e"
    by (rule L4_TimePeriod_spec [OF assms])
  have "find (\<lambda>N. us < push_bit N 1) [10..<32] = Some (10 + e)"
  proof (rule find_upt)
    have "(unat m + 1) * 2 ^ e \<le> 2 ^ (10 + e)" using sp(3) by (simp add: power_add)
    then show "us < push_bit (10 + e) 1" using sp(4,7) by (simp only: word_less_nat_alt unat_u64_exp)
  next
    fix k assume k: "10 \<le> k" "k < 10 + e"
    then have "(2 :: nat) ^ k \<le> 2 ^ (9 + e)" by (intro power_increasing) simp_all
    also have "\<dots> = 512 * 2 ^ e" by (simp add: power_add)
    also have "\<dots> \<le> unat m * 2 ^ e" using sp(5) k by (intro mult_le_mono1) auto
    also have "\<dots> \<le> unat us" by (rule sp(6))
    finally show "\<not> us < push_bit k 1" using k sp(4) by (simp only: word_less_nat_alt unat_u64_exp)
  qed (use sp(4) in auto)
  moreover have "ucast (drop_bit e us) = m"
    using sp(2,3) by (simp add: word_unat_eq_iff unsigned_ucast_eq unat_shift take_bit_nat_eq_self)
  ultimately show ?thesis by (simp add: L4_TimePeriod_const_def sp(1))
qed

lemma timeout_ticks_TimePeriod:
  fixes us :: u64
  assumes us: "unat us < 2 ^ 31"
  defines "ticks \<equiv> unat (timeout_ticks (ucast (L4_TimePeriod us)))"
  shows "390 * ticks \<le> unat us" "unat us \<le> 390 * ticks + 389 + unat us div 512"
proof -
  obtain e m where sp: "L4_TimePeriod us = set_period e m" "unat m = unat us div 2 ^ e" "unat m < 1024" "e \<le> 21"
    "e = 0 \<or> 512 \<le> unat m" "unat m * 2 ^ e \<le> unat us" "unat us < (unat m + 1) * 2 ^ e"
    by (rule L4_TimePeriod_spec [OF us])
  have f: "time_m (ucast (L4_TimePeriod us)) = m" "time_e (ucast (L4_TimePeriod us)) = e"
    using set_period_fields [of e m] sp(3,4) by (simp_all add: sp(1) word_less_nat_alt)
  define v where "v = unat m * 2 ^ e"
  have v: "v < 2 ^ 31" using sp(6) us by (simp add: v_def)
  have "push_bit e m = of_nat v" by (simp add: v_def push_bit_eq_mult)
  moreover have "sint (of_nat v :: u32) = int v"
    using v by (simp add: sint_uint uint_nat u32_unat_of_nat signed_take_bit_int_eq_self)
  ultimately have "timeout_ticks (ucast (L4_TimePeriod us)) = word_of_int (int v div 390)"
    by (simp add: timeout_ticks_def f)
  then have tk: "ticks = v div 390"
    using v by (simp add: ticks_def unat_eq_nat_uint uint_word_of_int_eq take_bit_int_eq_self)
  have "2 ^ e \<le> unat us div 512 \<or> e = 0"
  proof (cases "e = 0")
    case False
    then have "512 * 2 ^ e \<le> v" unfolding v_def using sp(5) by (intro mult_le_mono1) simp
    also have "v \<le> unat us" unfolding v_def by (rule sp(6))
    finally show ?thesis by (simp add: less_eq_div_iff_mult_less_eq mult.commute)
  qed simp
  then have "unat us < v + unat us div 512 + 1" using sp(7) by (auto simp: v_def)
  moreover have "v < 390 * ticks + 390" "390 * ticks \<le> v" unfolding tk by linarith+
  ultimately show "390 * ticks \<le> unat us" "unat us \<le> 390 * ticks + 389 + unat us div 512" using sp(6) by (simp_all add: v_def)
qed



subsection \<open>Short sleeps\<close>

text \<open>The register arguments of \<open>L4_Sleep\<close>: no partner in either direction, the period as timeout.\<close>

definition sleep_args :: "u32 \<Rightarrow> u16 \<Rightarrow> 'z tstate_scheme \<Rightarrow> bool" where
  "sleep_args param1 t s \<longleftrightarrow> rd s param1 REG_R0 = L4_NILTHREAD \<and> rd s param1 REG_R1 = L4_NILTHREAD \<and> rd s param1 REG_R2 = ucast t"

lemma ktimer_event_create_no_ticks:
  "\<exists>s'. ktimer_event_create 0 hdl dat s = Ok (NULL, s') \<and> tcbs s' = tcbs s \<and> caller s' = caller s \<and> event_queue s' = event_queue s \<and>
     ktimer_enabled s' = ktimer_enabled s \<and> ktimer_delta s' = ktimer_delta s"
  by (auto simp: ktimer_event_create_def ktimer_event_schedule_def kt_free_def kte_upd_def Let_def split: prod.splits)

text \<open>A thread that sleeps for less than 390 microseconds sleeps forever: the kernel turns the period into 0 ticks,
  takes the thread out of the running, and no timer is started for it; neither the queue of timer events
  nor the kernel timer changes. \<open>nanosleep\<close> ends its loop with such a rest for most arguments.\<close>

theorem L4_Sleep_short_never_wakes:
  fixes us :: u64
  assumes us: "0 < unat us" "unat us < 390" and args: "sleep_args param1 (L4_TimePeriod us) s"
  shows "\<exists>s'. sys_ipc L cb param1 s = Ok s' \<and> state (tcbs s' (caller s)) = T_INACTIVE \<and>
    timeout_event (tcbs s' (caller s)) = 0 \<and> event_queue s' = event_queue s \<and>
    ktimer_enabled s' = ktimer_enabled s \<and> ktimer_delta s' = ktimer_delta s"
proof -
  let ?t = "ucast (L4_TimePeriod us) :: u32" and ?s = "set_state (caller s) T_INACTIVE s"
  have lt: "unat us < 2 ^ 31" using us(2) by simp
  have "unat (timeout_ticks ?t) = 0" using timeout_ticks_TimePeriod(1) [OF lt] us(2) by simp
  then have t0: "timeout_ticks ?t = 0" by (simp add: unat_eq_0)
  have "?t \<noteq> 0"
  proof
    assume "?t = 0"
    moreover obtain e m where "L4_TimePeriod us = set_period e m" "unat m < 1024" "e \<le> 21" "unat us < (unat m + 1) * 2 ^ e"
      by (rule L4_TimePeriod_spec [OF lt])
    ultimately have "m = 0" "e = 0" "unat us < (unat m + 1) * 2 ^ e"
      using set_period_fields [of e m] by (simp_all add: word_less_nat_alt time_m_def time_e_def)
    then show False using us(1) by simp
  qed
  moreover obtain s' where "ktimer_event_create 0 KH_IPC_TIMEOUT (caller s) ?s = Ok (NULL, s')" "tcbs s' = tcbs ?s"
      "caller s' = caller ?s"
      "event_queue s' = event_queue ?s" "ktimer_enabled s' = ktimer_enabled ?s" "ktimer_delta s' = ktimer_delta ?s"
    using ktimer_event_create_no_ticks [of KH_IPC_TIMEOUT "caller s" ?s] by blast
  ultimately show ?thesis
    using args by (simp add: sleep_args_def sys_ipc_def arm_timeout_def sys_ipc_timeout_def t0 set_state_def tcb_upd_def Let_def)
qed

theorem L4_Sleep_short_never_wakes_witness:
  "\<exists>s'. sys_ipc \<lparr>ipc_kip = 0, ipc_regs = 0\<rparr> (\<lambda>f t b d s. Ok s) 0x20005000
      (irq_example\<lparr>ram := (\<lambda>_. 0)(word_addr 0x20005000 REG_R2 := ucast (L4_TimePeriod 100))\<rparr>) = Ok s' \<and>
    state (tcbs s' (caller irq_example)) = T_INACTIVE \<and> timeout_event (tcbs s' (caller irq_example)) = 0 \<and>
    event_queue s' = event_queue irq_example"
proof -
  let ?s = "irq_example\<lparr>ram := (\<lambda>_. 0)(word_addr 0x20005000 REG_R2 := ucast (L4_TimePeriod 100))\<rparr>"
  have "sleep_args 0x20005000 (L4_TimePeriod 100) ?s"
    by (simp add: sleep_args_def rd_def word_addr_def)
  then show ?thesis using L4_Sleep_short_never_wakes [of 100 "0x20005000" ?s] by fastforce
qed

end
