(* ===== verification/L4_Message.thy ===== *)
theory L4_Message
  imports L4_Types
begin

text \<open>
  The message interface of the user library: \<^verbatim>\<open>user/include/l4/message.h\<close>, the virtual registers of
  \<^verbatim>\<open>user/include/l4/platform/vregs.h\<close>, the tag tests of \<^verbatim>\<open>user/include/l4/ipc.h\<close> and the register moves of
  \<open>L4_Ipc\<close> (\<^verbatim>\<open>user/lib/l4/platform/syscalls.c\<close>). A message object is a list of 16 words; the C functions write
  into it without a bounds check, so a write behind its end is a fault of the model. Map, grant and string
  items are pairs of words. String items with substrings and control transfer items are not modelled (the
  latter use the x86 instruction \<open>bsf\<close>).
\<close>

subsection \<open>Message tag\<close>

definition L4_IsMsgTagEqual :: "u32 \<Rightarrow> u32 \<Rightarrow> bool" where "L4_IsMsgTagEqual l r \<longleftrightarrow> l = r"
definition L4_IsMsgTagNotEqual :: "u32 \<Rightarrow> u32 \<Rightarrow> bool" where "L4_IsMsgTagNotEqual l r \<longleftrightarrow> l \<noteq> r"
definition L4_Label :: "u32 \<Rightarrow> u32" where "L4_Label t = bits 16 16 t"
definition L4_UntypedWords :: "u32 \<Rightarrow> u32" where "L4_UntypedWords t = bits 0 6 t"
definition L4_TypedWords :: "u32 \<Rightarrow> u32" where "L4_TypedWords t = bits 6 6 t"
definition L4_Set_Label :: "u32 \<Rightarrow> u32 \<Rightarrow> u32" where "L4_Set_Label label t = put_bits 16 16 label t"
definition L4_MsgTagAddLabel :: "u32 \<Rightarrow> int \<Rightarrow> u32" where "L4_MsgTagAddLabel t label = put_bits 16 16 (word_of_int label) t"

definition L4_IpcSucceeded :: "u32 \<Rightarrow> bool" where "L4_IpcSucceeded t \<longleftrightarrow> bits 12 4 t AND 8 = 0"
definition L4_IpcFailed :: "u32 \<Rightarrow> bool" where "L4_IpcFailed t \<longleftrightarrow> bits 12 4 t AND 8 \<noteq> 0"
definition L4_IpcPropagated :: "u32 \<Rightarrow> bool" where "L4_IpcPropagated t \<longleftrightarrow> bits 12 4 t AND 1 \<noteq> 0"
definition L4_IpcRedirected :: "u32 \<Rightarrow> bool" where "L4_IpcRedirected t \<longleftrightarrow> bits 12 4 t AND 2 \<noteq> 0"
definition L4_Set_Propagation :: "u32 \<Rightarrow> u32" where "L4_Set_Propagation t = put_bits 12 4 1 t"

subsection \<open>Typed items\<close>

type_synonym item = "u32 \<times> u32"

definition L4_MapItem :: "u32 \<Rightarrow> u32 \<Rightarrow> item" where
  "L4_MapItem f SndBase = (put_bits 10 22 (drop_bit 10 SndBase) (put_bits 1 3 4 0), f)"
definition L4_IsMapItem :: "item \<Rightarrow> bool" where "L4_IsMapItem m \<longleftrightarrow> bits 1 3 (fst m) = 4"
definition L4_MapItemSndFpage :: "item \<Rightarrow> u32" where "L4_MapItemSndFpage m = snd m"
definition L4_MapItemSndBase :: "item \<Rightarrow> u32" where "L4_MapItemSndBase m = push_bit 10 (bits 10 22 (fst m))"

definition L4_GrantItem :: "u32 \<Rightarrow> u32 \<Rightarrow> item" where
  "L4_GrantItem f SndBase = (put_bits 10 22 (drop_bit 10 SndBase) (put_bits 1 3 5 0), f)"
definition L4_IsGrantItem :: "item \<Rightarrow> bool" where "L4_IsGrantItem g \<longleftrightarrow> bits 1 3 (fst g) = 5"
definition L4_GrantItemSndFpage :: "item \<Rightarrow> u32" where "L4_GrantItemSndFpage m = snd m"
definition L4_GrantItemSndBase :: "item \<Rightarrow> u32" where "L4_GrantItemSndBase m = push_bit 10 (bits 10 22 (fst m))"

text \<open>The five fields of a simple string item fill its first word.\<close>

definition L4_StringItem :: "int \<Rightarrow> u32 \<Rightarrow> item" where
  "L4_StringItem sz address = (put_bits 10 22 (word_of_int sz) 0, address)"
definition L4_IsStringItem :: "item \<Rightarrow> bool" where "L4_IsStringItem s \<longleftrightarrow> bits 1 3 (fst s) AND 4 = 0"
definition L4_CompoundString :: "item \<Rightarrow> bool" where "L4_CompoundString s \<longleftrightarrow> bits 9 1 (fst s) \<noteq> 0"
definition L4_Substrings :: "item \<Rightarrow> u32" where "L4_Substrings s = bits 4 5 (fst s) + 1"

subsection \<open>Message objects\<close>

type_synonym L4_Msg_t = "u32 list"

abbreviation (input) L4_NUM_MRS :: nat where "L4_NUM_MRS \<equiv> 16"

definition msg_put :: "nat \<Rightarrow> u32 \<Rightarrow> L4_Msg_t \<Rightarrow> L4_Msg_t result" where
  "msg_put i w msg = (if i < length msg then Ok (msg[i := w]) else Fault (Out_of_bounds ''msg->msg''))"

definition msg_u :: "L4_Msg_t \<Rightarrow> nat" where "msg_u msg = unat (bits 0 6 (msg ! 0))"
definition msg_t :: "L4_Msg_t \<Rightarrow> nat" where "msg_t msg = unat (bits 6 6 (msg ! 0))"

definition L4_MsgClear :: "L4_Msg_t \<Rightarrow> L4_Msg_t" where "L4_MsgClear msg = msg[0 := 0]"
definition L4_MsgMsgTag :: "L4_Msg_t \<Rightarrow> u32" where "L4_MsgMsgTag msg = msg ! 0"
definition L4_Set_MsgMsgTag :: "u32 \<Rightarrow> L4_Msg_t \<Rightarrow> L4_Msg_t" where "L4_Set_MsgMsgTag t msg = msg[0 := t]"
definition L4_MsgLabel :: "L4_Msg_t \<Rightarrow> u32" where "L4_MsgLabel msg = L4_Label (msg ! 0)"
definition L4_Set_MsgLabel :: "u32 \<Rightarrow> L4_Msg_t \<Rightarrow> L4_Msg_t" where
  "L4_Set_MsgLabel label msg = msg[0 := L4_Set_Label label (msg ! 0)]"

text \<open>The typed words move up by one, from the last to the first, then the word follows the untyped ones.\<close>

definition L4_MsgAppendWord :: "u32 \<Rightarrow> L4_Msg_t \<Rightarrow> L4_Msg_t result" where
  "L4_MsgAppendWord w msg =
     rbind (if msg_t msg \<noteq> 0
            then rfold (\<lambda>i msg. msg_put i (msg ! (i - 1)) msg) (rev [msg_u msg + 2..<msg_u msg + msg_t msg + 2]) msg
            else Ok msg) (\<lambda>msg.
     let msg = msg[0 := put_bits 0 6 (bits 0 6 (msg ! 0) + 1) (msg ! 0)]
     in msg_put (msg_u msg) w msg)"

definition msg_append_pair :: "item \<Rightarrow> L4_Msg_t \<Rightarrow> L4_Msg_t result" where
  "msg_append_pair m msg =
     rbind (msg_put (msg_u msg + msg_t msg + 1) (fst m) msg) (\<lambda>msg.
     rbind (msg_put (msg_u msg + msg_t msg + 2) (snd m) msg) (\<lambda>msg.
     Ok (msg[0 := put_bits 6 6 (bits 6 6 (msg ! 0) + 2) (msg ! 0)])))"

definition L4_MsgAppendMapItem :: "item \<Rightarrow> L4_Msg_t \<Rightarrow> L4_Msg_t result" where
  "L4_MsgAppendMapItem m msg = msg_append_pair m msg"
definition L4_MsgAppendGrantItem :: "item \<Rightarrow> L4_Msg_t \<Rightarrow> L4_Msg_t result" where
  "L4_MsgAppendGrantItem g msg = msg_append_pair g msg"
definition L4_MsgAppendSimpleStringItem :: "item \<Rightarrow> L4_Msg_t \<Rightarrow> L4_Msg_t result" where
  "L4_MsgAppendSimpleStringItem s msg = msg_append_pair (put_bits 4 5 0 (put_bits 9 1 0 (fst s)), snd s) msg"

definition L4_MsgPutWord :: "nat \<Rightarrow> u32 \<Rightarrow> L4_Msg_t \<Rightarrow> L4_Msg_t result" where
  "L4_MsgPutWord u w msg = msg_put (u + 1) w msg"

definition msg_put_pair :: "nat \<Rightarrow> item \<Rightarrow> L4_Msg_t \<Rightarrow> L4_Msg_t result" where
  "msg_put_pair t m msg = rbind (msg_put (msg_u msg + t + 1) (fst m) msg) (\<lambda>msg. msg_put (msg_u msg + t + 2) (snd m) msg)"

definition L4_MsgPutMapItem :: "nat \<Rightarrow> item \<Rightarrow> L4_Msg_t \<Rightarrow> L4_Msg_t result" where
  "L4_MsgPutMapItem t m msg = msg_put_pair t m msg"
definition L4_MsgPutGrantItem :: "nat \<Rightarrow> item \<Rightarrow> L4_Msg_t \<Rightarrow> L4_Msg_t result" where
  "L4_MsgPutGrantItem t g msg = msg_put_pair t g msg"
definition L4_MsgPutSimpleStringItem :: "nat \<Rightarrow> item \<Rightarrow> L4_Msg_t \<Rightarrow> L4_Msg_t result" where
  "L4_MsgPutSimpleStringItem t s msg = msg_put_pair t (put_bits 4 5 0 (put_bits 9 1 0 (fst s)), snd s) msg"

definition msg_get :: "nat \<Rightarrow> L4_Msg_t \<Rightarrow> u32 result" where
  "msg_get i msg = (if i < length msg then Ok (msg ! i) else Fault (Out_of_bounds ''msg->msg''))"

definition L4_MsgWord :: "L4_Msg_t \<Rightarrow> nat \<Rightarrow> u32 result" where "L4_MsgWord msg u = msg_get (u + 1) msg"

definition msg_get_pair :: "L4_Msg_t \<Rightarrow> nat \<Rightarrow> item result" where
  "msg_get_pair msg t = rbind (msg_get (msg_u msg + t + 1) msg) (\<lambda>a. rbind (msg_get (msg_u msg + t + 2) msg) (\<lambda>b. Ok (a, b)))"

definition L4_MsgGetMapItem :: "L4_Msg_t \<Rightarrow> nat \<Rightarrow> item result" where "L4_MsgGetMapItem msg t = msg_get_pair msg t"
definition L4_MsgGetGrantItem :: "L4_Msg_t \<Rightarrow> nat \<Rightarrow> item result" where "L4_MsgGetGrantItem msg t = msg_get_pair msg t"

text \<open>Building a whole message from two arrays, and taking it apart.\<close>

definition L4_MsgPut :: "u32 \<Rightarrow> u32 list \<Rightarrow> u32 list \<Rightarrow> L4_Msg_t \<Rightarrow> L4_Msg_t result" where
  "L4_MsgPut label Untyped Items msg =
     rbind (rfold (\<lambda>i. msg_put (i + 1) (Untyped ! i)) [0..<length Untyped] msg) (\<lambda>msg.
     rbind (rfold (\<lambda>i. msg_put (i + length Untyped + 1) (Items ! i)) [0..<length Items] msg) (\<lambda>msg.
     Ok (msg[0 := put_bits 6 6 (of_nat (length Items)) (put_bits 0 6 (of_nat (length Untyped))
                    (put_bits 12 4 0 (put_bits 16 16 label (msg ! 0))))])))"

definition L4_MsgGet :: "L4_Msg_t \<Rightarrow> (u32 list \<times> u32 list) result" where
  "L4_MsgGet msg =
     (if msg_u msg + msg_t msg < length msg
      then Ok (map (\<lambda>i. msg ! (i + 1)) [0..<msg_u msg], map (\<lambda>i. msg ! (i + 1 + msg_u msg)) [0..<msg_t msg])
      else Fault (Out_of_bounds ''msg->msg''))"

subsection \<open>Virtual registers\<close>

definition L4_StoreMR :: "nat \<Rightarrow> utcb_t \<Rightarrow> u32" where
  "L4_StoreMR i u = (if i < 8 then mr_low u ! i else if i < L4_NUM_MRS then mr u ! (i - 8) else 0)"

definition L4_LoadMR :: "nat \<Rightarrow> u32 \<Rightarrow> utcb_t \<Rightarrow> utcb_t" where
  "L4_LoadMR i w u =
     (if i < 8 then u\<lparr>mr_low := (mr_low u)[i := w]\<rparr>
      else if i < L4_NUM_MRS then u\<lparr>mr := (mr u)[i - 8 := w]\<rparr> else u)"

text \<open>The block moves do nothing when the block does not lie within the 16 registers. \<open>L4_StoreMRs\<close> gives the words
  it stores through its pointer.\<close>

definition L4_LoadMRs :: "nat \<Rightarrow> nat \<Rightarrow> u32 list \<Rightarrow> utcb_t \<Rightarrow> utcb_t" where
  "L4_LoadMRs i k ws u =
     (if k = 0 \<or> i + k > L4_NUM_MRS then u else fold (\<lambda>j. L4_LoadMR (i + j) (ws ! j)) [0..<k] u)"

definition L4_StoreMRs :: "nat \<Rightarrow> nat \<Rightarrow> utcb_t \<Rightarrow> u32 list" where
  "L4_StoreMRs i k u = (if k = 0 \<or> i + k > L4_NUM_MRS then [] else map (\<lambda>j. L4_StoreMR (i + j) u) [0..<k])"

abbreviation (input) L4_NUM_BRS :: nat where "L4_NUM_BRS \<equiv> 8"

definition L4_StoreBR :: "nat \<Rightarrow> utcb_t \<Rightarrow> u32 option" where
  "L4_StoreBR i u = (if i < L4_NUM_BRS then Some (br u ! i) else None)"
definition L4_LoadBR :: "nat \<Rightarrow> u32 \<Rightarrow> utcb_t \<Rightarrow> utcb_t" where
  "L4_LoadBR i w u = (if i < L4_NUM_BRS then u\<lparr>br := (br u)[i := w]\<rparr> else u)"
definition L4_StoreBRs :: "nat \<Rightarrow> nat \<Rightarrow> utcb_t \<Rightarrow> u32 list" where
  "L4_StoreBRs i k u = (if k = 0 \<or> i + k > L4_NUM_BRS then [] else map (\<lambda>j. br u ! (i + j)) [0..<k])"
definition L4_LoadBRs :: "nat \<Rightarrow> nat \<Rightarrow> u32 list \<Rightarrow> utcb_t \<Rightarrow> utcb_t" where
  "L4_LoadBRs i k ws u =
     (if k = 0 \<or> i + k > L4_NUM_BRS then u
      else u\<lparr>br := fold (\<lambda>j b. b[i + j := ws ! j]) [0..<k] (br u)\<rparr>)"

definition L4_MsgTag :: "utcb_t \<Rightarrow> u32" where "L4_MsgTag u = L4_StoreMR 0 u"
definition L4_Set_MsgTag :: "u32 \<Rightarrow> utcb_t \<Rightarrow> utcb_t" where "L4_Set_MsgTag t u = L4_LoadMR 0 t u"

definition L4_MsgLoad :: "L4_Msg_t \<Rightarrow> utcb_t \<Rightarrow> utcb_t" where
  "L4_MsgLoad msg u = L4_LoadMRs 0 (msg_u msg + msg_t msg + 1) msg u"

definition L4_MsgStore :: "u32 \<Rightarrow> utcb_t \<Rightarrow> L4_Msg_t \<Rightarrow> L4_Msg_t" where
  "L4_MsgStore t u msg =
     (let ws = L4_StoreMRs 1 (unat (bits 0 6 t) + unat (bits 6 6 t)) u
      in (take 1 msg @ ws @ drop (length ws + 1) msg)[0 := t])"

subsection \<open>Acceptors\<close>

definition L4_MapGrantItems :: "u32 \<Rightarrow> u32" where
  "L4_MapGrantItems RcvWindow = put_bits 2 2 0 (put_bits 0 1 0 RcvWindow)"
definition L4_AddAcceptor :: "u32 \<Rightarrow> u32 \<Rightarrow> u32" where
  "L4_AddAcceptor l r = put_bits 4 28 (if bits 4 28 r \<noteq> 0 then bits 4 28 r else bits 4 28 l) (put_bits 0 1 (bits 0 1 l OR bits 0 1 r) 0)"
definition L4_AddAcceptorTo :: "u32 \<Rightarrow> u32 \<Rightarrow> u32" where
  "L4_AddAcceptorTo l r =
     (let l = put_bits 0 1 (bits 0 1 l OR bits 0 1 r) l in if bits 4 28 r \<noteq> 0 then put_bits 4 28 (bits 4 28 r) l else l)"
definition L4_RemoveAcceptor :: "u32 \<Rightarrow> u32 \<Rightarrow> u32" where
  "L4_RemoveAcceptor l r =
     (let a = (if bits 0 1 r \<noteq> 0 then put_bits 0 1 0 l else l) in if bits 4 28 r \<noteq> 0 then put_bits 4 28 0 a else a)"
definition L4_HasStringItems :: "u32 \<Rightarrow> bool" where "L4_HasStringItems a \<longleftrightarrow> a AND 1 = 1"
definition L4_HasMapGrantItems :: "u32 \<Rightarrow> bool" where "L4_HasMapGrantItems a \<longleftrightarrow> a AND NOT 0xF \<noteq> 0"
definition L4_RcvWindow :: "u32 \<Rightarrow> u32" where "L4_RcvWindow a = put_bits 0 3 0 a"
definition L4_Accept :: "u32 \<Rightarrow> utcb_t \<Rightarrow> utcb_t" where "L4_Accept a u = L4_LoadBR 0 a u"
definition L4_Accepted :: "utcb_t \<Rightarrow> u32 option" where "L4_Accepted u = L4_StoreBR 0 u"

subsection \<open>A message object is a label and two lists of words\<close>

definition msg_ok :: "L4_Msg_t \<Rightarrow> bool" where
  "msg_ok msg \<longleftrightarrow> length msg = L4_NUM_MRS \<and> msg_u msg + msg_t msg < L4_NUM_MRS"

definition untyped_of :: "L4_Msg_t \<Rightarrow> u32 list" where "untyped_of msg = take (msg_u msg) (drop 1 msg)"
definition typed_of :: "L4_Msg_t \<Rightarrow> u32 list" where "typed_of msg = take (msg_t msg) (drop (msg_u msg + 1) msg)"

lemma bits_zero [simp]: "bits lo n 0 = 0"
  by (simp add: bits_def)

lemma unat_put_same: "lo + n \<le> 32 \<Longrightarrow> unat v < 2 ^ n \<Longrightarrow> unat (bits lo n (put_bits lo n v w)) = unat v"
  by (simp add: bits_put_bits_same and_mask_less)

lemma unat_add_small: "unat v + k < 2 ^ 6 \<Longrightarrow> unat ((v :: u32) + of_nat k) = unat v + k"
  by (simp add: unat_word_ariths unsigned_of_nat take_bit_nat_eq_self)

lemma msg_fields_put [simp]:
  assumes "0 < length msg"
  shows "msg_u (msg[0 := put_bits 6 6 v (msg ! 0)]) = msg_u msg" "msg_t (msg[0 := put_bits 0 6 v (msg ! 0)]) = msg_t msg"
    "L4_MsgLabel (msg[0 := put_bits 0 6 v (msg ! 0)]) = L4_MsgLabel msg"
    "L4_MsgLabel (msg[0 := put_bits 6 6 v (msg ! 0)]) = L4_MsgLabel msg"
  using assms by (simp_all add: msg_u_def msg_t_def L4_MsgLabel_def L4_Label_def bits_put_bits_other)

lemma msg_fields_other [simp]:
  assumes "0 < i"
  shows "msg_u (msg[i := w]) = msg_u msg" "msg_t (msg[i := w]) = msg_t msg" "L4_MsgLabel (msg[i := w]) = L4_MsgLabel msg"
  using assms by (simp_all add: msg_u_def msg_t_def L4_MsgLabel_def)

text \<open>The loop that makes room: entries \<open>a + 1\<close> to \<open>a + n\<close> take the values of their left neighbours.\<close>

lemma shift_up_loop:
  assumes "a + n < length msg"
  shows "\<exists>msg'. rfold (\<lambda>i msg. msg_put i (msg ! (i - 1)) msg) (rev [Suc a..<Suc (a + n)]) msg = Ok msg' \<and>
    length msg' = length msg \<and> (\<forall>k. msg' ! k = (if a < k \<and> k \<le> a + n then msg ! (k - 1) else msg ! k))"
  using assms
proof (induction n arbitrary: msg)
  case (Suc n)
  let ?m = "msg[Suc (a + n) := msg ! (a + n)]"
  obtain msg' where m: "rfold (\<lambda>i msg. msg_put i (msg ! (i - 1)) msg) (rev [Suc a..<Suc (a + n)]) ?m = Ok msg'"
      "length msg' = length ?m" "\<And>k. msg' ! k = (if a < k \<and> k \<le> a + n then ?m ! (k - 1) else ?m ! k)"
    using Suc.IH [of ?m] Suc.prems by auto
  have "msg' ! k = (if a < k \<and> k \<le> a + Suc n then msg ! (k - 1) else msg ! k)" for k
    using m(3) [of k] Suc.prems by (auto simp: nth_list_update)
  moreover have "rev [Suc a..<Suc (a + Suc n)] = Suc (a + n) # rev [Suc a..<Suc (a + n)]" by simp
  ultimately show ?case using m(1,2) Suc.prems by (simp add: msg_put_def del: upt_Suc)
qed auto

lemma L4_MsgAppendWord_spec:
  assumes ok: "msg_ok msg" and room: "msg_u msg + msg_t msg + 1 < L4_NUM_MRS"
  shows "\<exists>msg'. L4_MsgAppendWord w msg = Ok msg' \<and> msg_ok msg' \<and> L4_MsgLabel msg' = L4_MsgLabel msg \<and>
    msg' ! 0 = put_bits 0 6 (bits 0 6 (msg ! 0) + 1) (msg ! 0) \<and>
    untyped_of msg' = untyped_of msg @ [w] \<and> typed_of msg' = typed_of msg"
proof -
  let ?u = "msg_u msg" and ?t = "msg_t msg"
  have len: "length msg = 16" using ok by (simp add: msg_ok_def)
  obtain m1 where m1: "(if ?t \<noteq> 0 then rfold (\<lambda>i msg. msg_put i (msg ! (i - 1)) msg) (rev [?u + 2..<?u + ?t + 2]) msg else Ok msg) = Ok m1"
      "length m1 = 16" "\<And>k. m1 ! k = (if Suc ?u < k \<and> k \<le> Suc ?u + ?t then msg ! (k - 1) else msg ! k)"
    using shift_up_loop [of "Suc ?u" ?t msg] room len by (cases "?t = 0") (auto simp: add.commute)
  have z: "m1 ! 0 = msg ! 0" using m1(3) [of 0] by simp
  define m2 where "m2 = m1[0 := put_bits 0 6 (bits 0 6 (m1 ! 0) + 1) (m1 ! 0)]"
  have "unat (bits 0 6 (msg ! 0) + 1) = ?u + 1" using unat_add_small [of "bits 0 6 (msg ! 0)" 1] room by (simp add: msg_u_def)
  then have u2: "msg_u m2 = ?u + 1" using unat_put_same [of 0 6 "bits 0 6 (msg ! 0) + 1" "msg ! 0"] room m1(2)
    by (simp add: m2_def msg_u_def [of "list_update _ _ _"] z)
  have t2: "msg_t m2 = ?t" "L4_MsgLabel m2 = L4_MsgLabel msg"
    using m1(2) by (simp_all add: m2_def) (simp_all add: msg_t_def L4_MsgLabel_def z)
  define m3 where "m3 = m2[?u + 1 := w]"
  have l3: "length m3 = 16" by (simp add: m3_def m2_def m1(2))
  have n3: "m3 ! k = (if k = ?u + 1 then w else if Suc ?u < k \<and> k \<le> Suc ?u + ?t then msg ! (k - 1) else msg ! k)"
    if "0 < k" "k < 16" for k
    using that m1(2,3) by (auto simp: m3_def m2_def nth_list_update)
  have f3: "msg_u m3 = ?u + 1" "msg_t m3 = ?t" "L4_MsgLabel m3 = L4_MsgLabel msg" by (simp_all add: m3_def u2 t2)
  have "untyped_of m3 = untyped_of msg @ [w]"
    using room by (intro nth_equalityI) (auto simp: untyped_of_def f3 l3 len n3 nth_append)
  moreover have "typed_of m3 = typed_of msg"
    using room by (intro nth_equalityI) (auto simp: typed_of_def f3 l3 len n3)
  moreover have "L4_MsgAppendWord w msg = Ok m3"
    unfolding L4_MsgAppendWord_def m1(1) rbind.simps Let_def m2_def [symmetric] using room m1(2)
    by (simp add: msg_put_def u2 m3_def) (simp add: m2_def)
  moreover have "m3 ! 0 = put_bits 0 6 (bits 0 6 (msg ! 0) + 1) (msg ! 0)" using m1(2) by (simp add: m3_def m2_def z)
  ultimately show ?thesis using room f3 l3 by (intro exI [of _ m3]) (simp add: msg_ok_def)
qed

lemma L4_MsgAppendWord_full:
  assumes ok: "msg_ok msg" and full: "msg_u msg + msg_t msg + 1 = L4_NUM_MRS"
  shows "\<not> is_ok (L4_MsgAppendWord w msg)"
proof (cases "msg_t msg = 0")
  case True
  then have u: "msg_u msg = 15" and len: "length msg = 16" using ok full by (simp_all add: msg_ok_def)
  have "unat (bits 0 6 (msg ! 0) + 1) = 16" using unat_add_small [of "bits 0 6 (msg ! 0)" 1] u by (simp add: msg_u_def)
  then have "msg_u (msg[0 := put_bits 0 6 (bits 0 6 (msg ! 0) + 1) (msg ! 0)]) = 16"
    using unat_put_same [of 0 6 "bits 0 6 (msg ! 0) + 1" "msg ! 0"] len by (simp add: msg_u_def)
  then show ?thesis using True len by (simp add: L4_MsgAppendWord_def msg_put_def Let_def)
next
  case False
  have r: "rev [msg_u msg + 2..<msg_u msg + msg_t msg + 2] = 16 # rev [msg_u msg + 2..<16]" 
    using upt_Suc_append [of "msg_u msg + 2" 16] full False by simp
  show ?thesis unfolding L4_MsgAppendWord_def r using ok False by (simp add: msg_put_def msg_ok_def)
qed

lemma msg_append_pair_spec:
  assumes ok: "msg_ok msg" and room: "msg_u msg + msg_t msg + 2 < L4_NUM_MRS"
  shows "\<exists>msg'. msg_append_pair m msg = Ok msg' \<and> msg_ok msg' \<and> L4_MsgLabel msg' = L4_MsgLabel msg \<and>
    untyped_of msg' = untyped_of msg \<and> typed_of msg' = typed_of msg @ [fst m, snd m]"
proof -
  let ?u = "msg_u msg" and ?t = "msg_t msg"
  have len: "length msg = 16" using ok by (simp add: msg_ok_def)
  define m1 where "m1 = msg[?u + ?t + 1 := fst m, ?u + ?t + 2 := snd m]"
  have z: "m1 ! 0 = msg ! 0" by (simp add: m1_def)
  define m2 where "m2 = m1[0 := put_bits 6 6 (bits 6 6 (m1 ! 0) + 2) (m1 ! 0)]"
  have "unat (bits 6 6 (msg ! 0) + 2) = ?t + 2" using unat_add_small [of "bits 6 6 (msg ! 0)" 2] room by (simp add: msg_t_def)
  then have t2: "msg_t m2 = ?t + 2" using unat_put_same [of 6 6 "bits 6 6 (msg ! 0) + 2" "msg ! 0"] room len
    by (simp add: m2_def msg_t_def [of "list_update _ _ _"] z) (simp add: m1_def)
  have f2: "msg_u m2 = ?u" "L4_MsgLabel m2 = L4_MsgLabel msg" using len by (simp_all add: m2_def m1_def [THEN arg_cong [of _ _ length]]) (simp_all add: m1_def)
  have l2: "length m2 = 16" by (simp add: m2_def m1_def len)
  have n2: "m2 ! k = (if k = ?u + ?t + 1 then fst m else if k = ?u + ?t + 2 then snd m else msg ! k)"
    if "0 < k" "k < 16" for k
    using that len by (auto simp: m2_def m1_def nth_list_update)
  have "untyped_of m2 = untyped_of msg"
    using room by (intro nth_equalityI) (auto simp: untyped_of_def f2 l2 len n2)
  moreover have "typed_of m2 = typed_of msg @ [fst m, snd m]"
    using room by (intro nth_equalityI) (auto simp: typed_of_def f2 t2 l2 len n2 nth_append nth_Cons')
  moreover have "msg_append_pair m msg = Ok m2"
    using room len by (simp add: msg_append_pair_def msg_put_def m2_def m1_def)
  ultimately show ?thesis using room t2 f2 l2 by (intro exI [of _ m2]) (simp add: msg_ok_def)
qed

text \<open>The append operations of a message object implement appending to two lists: a word goes to the end of the
  untyped words, a map, grant or simple string item to the end of the typed ones, whatever the order of the
  calls; label and the other list stay; a message that has no room left is written past its end.\<close>

theorem L4_MsgAppend_refines_lists:
  assumes ok: "msg_ok msg"
  defines "n \<equiv> msg_u msg + msg_t msg"
  shows "(n + 1 < L4_NUM_MRS \<longrightarrow> (\<exists>msg'. L4_MsgAppendWord w msg = Ok msg' \<and> msg_ok msg' \<and> L4_MsgLabel msg' = L4_MsgLabel msg \<and>
      untyped_of msg' = untyped_of msg @ [w] \<and> typed_of msg' = typed_of msg)) \<and>
    (n + 2 < L4_NUM_MRS \<longrightarrow> (\<exists>msg'. L4_MsgAppendMapItem m msg = Ok msg' \<and> msg_ok msg' \<and> L4_MsgLabel msg' = L4_MsgLabel msg \<and>
      untyped_of msg' = untyped_of msg \<and> typed_of msg' = typed_of msg @ [fst m, snd m])) \<and>
    (n + 1 = L4_NUM_MRS \<longrightarrow> \<not> is_ok (L4_MsgAppendWord w msg) \<and> \<not> is_ok (L4_MsgAppendMapItem m msg))"
proof (intro conjI impI)
  assume "n + 1 < L4_NUM_MRS"
  then show "\<exists>msg'. L4_MsgAppendWord w msg = Ok msg' \<and> msg_ok msg' \<and> L4_MsgLabel msg' = L4_MsgLabel msg \<and>
      untyped_of msg' = untyped_of msg @ [w] \<and> typed_of msg' = typed_of msg"
    using L4_MsgAppendWord_spec [OF ok, of w] by (auto simp: n_def)
next
  assume "n + 2 < L4_NUM_MRS"
  then show "\<exists>msg'. L4_MsgAppendMapItem m msg = Ok msg' \<and> msg_ok msg' \<and> L4_MsgLabel msg' = L4_MsgLabel msg \<and>
      untyped_of msg' = untyped_of msg \<and> typed_of msg' = typed_of msg @ [fst m, snd m]"
    using msg_append_pair_spec [OF ok, of m] by (auto simp: n_def L4_MsgAppendMapItem_def)
next
  assume "n + 1 = L4_NUM_MRS"
  then show "\<not> is_ok (L4_MsgAppendWord w msg)" using L4_MsgAppendWord_full [OF ok] by (simp add: n_def)
next
  assume "n + 1 = L4_NUM_MRS"
  then show "\<not> is_ok (L4_MsgAppendMapItem m msg)"
    using ok by (simp add: n_def L4_MsgAppendMapItem_def msg_append_pair_def msg_put_def msg_ok_def)
qed

lemma msg_ok_cleared:
  assumes "length msg = L4_NUM_MRS" "unat l < 2 ^ 16"
  defines "m \<equiv> L4_Set_MsgLabel l (L4_MsgClear msg)"
  shows "msg_ok m" "untyped_of m = []" "typed_of m = []" "L4_MsgLabel m = l" "m ! 0 = put_bits 16 16 l 0"
proof -
  have z: "m ! 0 = put_bits 16 16 l 0" using assms(1) by (simp add: m_def L4_Set_MsgLabel_def L4_MsgClear_def L4_Set_Label_def)
  have "bits 0 6 (put_bits 16 16 l 0) = 0" "bits 6 6 (put_bits 16 16 l 0) = 0"
    by (simp_all add: bits_put_bits_other)
  then show "msg_ok m" "untyped_of m = []" "typed_of m = []" "L4_MsgLabel m = l" "m ! 0 = put_bits 16 16 l 0"
    using assms(1,2) by (simp_all add: msg_ok_def untyped_of_def typed_of_def msg_u_def msg_t_def z L4_MsgLabel_def L4_Label_def
        bits_put_bits_same and_mask_less) (simp add: m_def L4_Set_MsgLabel_def L4_MsgClear_def)
qed

theorem L4_MsgAppend_refines_lists_witness:
  "\<exists>msg'. L4_MsgAppendWord 7 (L4_Set_MsgLabel 5 (L4_MsgClear (replicate 16 1))) = Ok msg' \<and> untyped_of msg' = [7] \<and> L4_MsgLabel msg' = 5"
proof -
  let ?m = "L4_Set_MsgLabel 5 (L4_MsgClear (replicate 16 1))"
  have m: "msg_ok ?m" "untyped_of ?m = []" "typed_of ?m = []" "L4_MsgLabel ?m = 5"
    using msg_ok_cleared [of "replicate 16 1" 5] by simp_all
  then have "msg_u ?m = 0" "msg_t ?m = 0" by (auto simp: untyped_of_def typed_of_def msg_ok_def)
  then show ?thesis using L4_MsgAppend_refines_lists [OF m(1), of 7] m(2,4) by auto
qed

text \<open>Appending a list of words to a cleared message.\<close>

lemma append_words:
  assumes "msg_ok msg" "typed_of msg = []" "length (untyped_of msg) + length ws < L4_NUM_MRS"
  shows "\<exists>msg'. rfold L4_MsgAppendWord ws msg = Ok msg' \<and> msg_ok msg' \<and> typed_of msg' = [] \<and>
    untyped_of msg' = untyped_of msg @ ws \<and> L4_MsgLabel msg' = L4_MsgLabel msg"
  using assms
proof (induction ws arbitrary: msg)
  case (Cons w ws)
  have l: "length (untyped_of msg) = msg_u msg" "msg_t msg = 0"
    using Cons.prems(1,2) by (auto simp: untyped_of_def typed_of_def msg_ok_def)
  obtain m1 where m1: "L4_MsgAppendWord w msg = Ok m1" "msg_ok m1" "L4_MsgLabel m1 = L4_MsgLabel msg"
      "untyped_of m1 = untyped_of msg @ [w]" "typed_of m1 = []"
    using L4_MsgAppendWord_spec [OF Cons.prems(1), of w] Cons.prems(2,3) l by auto
  obtain m2 where "rfold L4_MsgAppendWord ws m1 = Ok m2" "msg_ok m2" "typed_of m2 = []" "untyped_of m2 = untyped_of m1 @ ws"
      "L4_MsgLabel m2 = L4_MsgLabel m1"
    using Cons.IH [OF m1(2,5)] Cons.prems(3) m1(4) by auto
  then show ?case using m1 by simp
qed auto

lemma n_untyped_bits: "n_untyped t = unat (bits 0 6 t)" "n_typed t = unat (bits 6 6 t)"
  by (simp_all add: n_untyped_def n_typed_def bits_def mask_numeral)

subsection \<open>Whole messages\<close>

lemma put_block:
  assumes "a + length xs \<le> length msg"
  shows "\<exists>msg'. rfold (\<lambda>i. msg_put (i + a) (xs ! i)) [0..<length xs] msg = Ok msg' \<and> length msg' = length msg \<and>
    (\<forall>k. msg' ! k = (if a \<le> k \<and> k < a + length xs then xs ! (k - a) else msg ! k))"
proof -
  have "\<exists>msg'. rfold (\<lambda>i. msg_put (i + a) (xs ! i)) [0..<n] msg = Ok msg' \<and> length msg' = length msg \<and>
    (\<forall>k. msg' ! k = (if a \<le> k \<and> k < a + n then xs ! (k - a) else msg ! k))" if "n \<le> length xs" for n
    using that
  proof (induction n)
    case (Suc n)
    then obtain m where m: "rfold (\<lambda>i. msg_put (i + a) (xs ! i)) [0..<n] msg = Ok m" "length m = length msg"
        "\<And>k. m ! k = (if a \<le> k \<and> k < a + n then xs ! (k - a) else msg ! k)" by auto
    have n: "n + a < length m" using Suc.prems assms m(2) by simp
    have "rfold (\<lambda>i. msg_put (i + a) (xs ! i)) [0..<Suc n] msg = Ok (m[n + a := xs ! n])"
      using m(1) n by (simp add: rfold_append msg_put_def [of "n + a"])
    moreover have "m[n + a := xs ! n] ! k = (if a \<le> k \<and> k < a + Suc n then xs ! (k - a) else msg ! k)" for k
      using m(3) n by (auto simp: nth_list_update)
    ultimately show ?case using m(2) by simp
  qed auto
  then show ?thesis by blast
qed

lemma L4_MsgPut_spec:
  assumes "length msg = L4_NUM_MRS" "length us + length ts < L4_NUM_MRS" "unat l < 2 ^ 16"
  shows "\<exists>m. L4_MsgPut l us ts msg = Ok m \<and> L4_MsgGet m = Ok (us, ts) \<and> n_untyped (m ! 0) = length us \<and>
    n_typed (m ! 0) = length ts \<and> tag_label (m ! 0) = l \<and> tag_flags (m ! 0) = 0"
proof -
  obtain m1 where m1: "rfold (\<lambda>i. msg_put (i + 1) (us ! i)) [0..<length us] msg = Ok m1" "length m1 = 16"
      "\<And>k. m1 ! k = (if 1 \<le> k \<and> k < 1 + length us then us ! (k - 1) else msg ! k)"
    using put_block [of 1 us msg] assms by auto
  obtain m2 where m2: "rfold (\<lambda>i. msg_put (i + (length us + 1)) (ts ! i)) [0..<length ts] m1 = Ok m2" "length m2 = 16"
      "\<And>k. m2 ! k = (if length us + 1 \<le> k \<and> k < length us + 1 + length ts then ts ! (k - (length us + 1)) else m1 ! k)"
    using put_block [of "length us + 1" ts m1] assms m1(2) by auto
  let ?w = "put_bits 12 4 0 (put_bits 16 16 l (m2 ! 0))"
  define t where "t = put_bits 6 6 (of_nat (length ts)) (put_bits 0 6 (of_nat (length us)) ?w)"
  define m where "m = m2[0 := t]"
  have put: "L4_MsgPut l us ts msg = Ok m"
    using m1(1) m2(1) by (simp add: L4_MsgPut_def m_def t_def add.assoc)
  have u: "unat (of_nat (length us) :: u32) = length us" "unat (of_nat (length ts) :: u32) = length ts"
    using assms(2) by (simp_all add: u32_unat_of_nat)
  have b: "unat (bits 0 6 t) = length us" "unat (bits 6 6 t) = length ts"
    using unat_put_same [of 0 6 "of_nat (length us)" ?w] unat_put_same [of 6 6 "of_nat (length ts)" "put_bits 0 6 (of_nat (length us)) ?w"]
      u assms(2) by (simp_all add: t_def bits_put_bits_other)
  have l: "bits 16 16 t = l" "bits 12 4 t = 0"
    using assms(3) by (simp_all add: t_def bits_put_bits_other bits_put_bits_same and_mask_less)
  have z: "m ! 0 = t" "length m = 16" using m2(2) by (simp_all add: m_def)
  have f: "msg_u m = length us" "msg_t m = length ts" using b by (simp_all add: msg_u_def msg_t_def z)
  have "map (\<lambda>i. m ! (i + 1)) [0..<length us] = us" "map (\<lambda>i. m ! (i + 1 + length us)) [0..<length ts] = ts"
    using assms(2) m1(3) m2(3) by (auto intro!: nth_equalityI simp: m_def)
  then have get: "L4_MsgGet m = Ok (us, ts)" using assms(2) by (simp add: L4_MsgGet_def f z)
  have "tag_label t = bits 16 16 t" by (rule bit_word_eqI) (auto simp: tag_label_def bits_def bit_simps dest: u32_bit_bound)
  moreover have "tag_flags t = bits 12 4 t" by (simp add: tag_flags_def bits_def mask_numeral)
  ultimately show ?thesis using put get b l by (intro exI [of _ m]) (simp add: z n_untyped_bits)
qed

text \<open>C29. A message put together with \<open>L4_MsgPut\<close> reads back: \<open>L4_MsgGet\<close> gives both lists, and the kernel finds their
  lengths and the label in the tag.\<close>

theorem L4_MsgPut_MsgGet:
  assumes "length msg = L4_NUM_MRS" "length us + length ts < L4_NUM_MRS" "unat l < 2 ^ 16"
  shows "\<exists>m. L4_MsgPut l us ts msg = Ok m \<and> L4_MsgGet m = Ok (us, ts) \<and> n_untyped (m ! 0) = length us \<and>
    n_typed (m ! 0) = length ts \<and> tag_label (m ! 0) = l \<and> tag_flags (m ! 0) = 0"
  by (rule L4_MsgPut_spec [OF assms])

theorem L4_MsgPut_MsgGet_witness:
  "\<exists>m. L4_MsgPut 5 [1, 2] [3, 4] (replicate 16 0) = Ok m \<and> L4_MsgGet m = Ok ([1, 2], [3, 4]) \<and> n_typed (m ! 0) = 2"
  using L4_MsgPut_MsgGet [of "replicate 16 0" "[1, 2]" "[3, 4]" 5] by auto

subsection \<open>The sixteen registers of a thread control block\<close>

definition mr_words :: "utcb_t \<Rightarrow> u32 list" where "mr_words u = mr_low u @ mr u"

definition vregs_ok :: "utcb_t \<Rightarrow> bool" where "vregs_ok u \<longleftrightarrow> length (mr_low u) = 8 \<and> length (mr u) = 8"

lemma L4_StoreMR_words: "vregs_ok u \<Longrightarrow> i < L4_NUM_MRS \<Longrightarrow> L4_StoreMR i u = mr_words u ! i"
  by (auto simp: vregs_ok_def L4_StoreMR_def mr_words_def nth_append)

lemma L4_LoadMR_words:
  "vregs_ok u \<Longrightarrow> i < L4_NUM_MRS \<Longrightarrow> vregs_ok (L4_LoadMR i w u) \<and> mr_words (L4_LoadMR i w u) = (mr_words u)[i := w]"
  by (auto simp: vregs_ok_def L4_LoadMR_def mr_words_def list_update_append)

lemma fold_LoadMR:
  fixes ws :: "u32 list"
  assumes "vregs_ok u" "k \<le> L4_NUM_MRS"
  defines "u' \<equiv> fold (\<lambda>j. L4_LoadMR j (ws ! j)) [0..<k] u"
  shows "vregs_ok u' \<and> length (mr_words u') = 16 \<and> (\<forall>i < 16. mr_words u' ! i = (if i < k then ws ! i else mr_words u ! i))"
  using assms(2) unfolding u'_def
proof (induction k)
  case 0
  then show ?case using assms(1) by (simp add: vregs_ok_def mr_words_def)
next
  case (Suc k)
  then show ?case using L4_LoadMR_words [of "fold (\<lambda>j. L4_LoadMR j (ws ! j)) [0..<k] u" k "ws ! k"]
    by (auto simp: nth_list_update less_Suc_eq)
qed

lemma L4_MsgLoad_words:
  assumes "vregs_ok u" "msg_ok msg"
  defines "u' \<equiv> L4_MsgLoad msg u"
  shows "vregs_ok u'" "\<And>i. i < 16 \<Longrightarrow> mr_words u' ! i = (if i \<le> msg_u msg + msg_t msg then msg ! i else mr_words u ! i)"
proof -
  have "u' = fold (\<lambda>j. L4_LoadMR j (msg ! j)) [0..<msg_u msg + msg_t msg + 1] u"
    using assms(2) by (simp add: u'_def L4_MsgLoad_def L4_LoadMRs_def msg_ok_def)
  then show "vregs_ok u'" "\<And>i. i < 16 \<Longrightarrow> mr_words u' ! i = (if i \<le> msg_u msg + msg_t msg then msg ! i else mr_words u ! i)"
    using fold_LoadMR [OF assms(1), of "msg_u msg + msg_t msg + 1" msg] assms(2) by (auto simp: msg_ok_def less_Suc_eq_le)
qed

text \<open>Registers and message objects: what is loaded is what is stored back.\<close>

lemma L4_MsgStore_words:
  assumes "vregs_ok u" "length msg = L4_NUM_MRS" "unat (bits 0 6 t) + unat (bits 6 6 t) < L4_NUM_MRS"
  defines "m \<equiv> L4_MsgStore t u msg" and "k \<equiv> unat (bits 0 6 t) + unat (bits 6 6 t)"
  shows "length m = L4_NUM_MRS" "m ! 0 = t" "\<And>i. 0 < i \<Longrightarrow> i \<le> k \<Longrightarrow> m ! i = mr_words u ! i"
proof -
  define ws where "ws = map (\<lambda>j. L4_StoreMR (1 + j) u) [0..<k]"
  have ws: "L4_StoreMRs 1 k u = ws" using assms(3) by (auto simp: L4_StoreMRs_def ws_def k_def)
  have m: "m = (take 1 msg @ ws @ drop (k + 1) msg)[0 := t]"
    unfolding m_def L4_MsgStore_def Let_def k_def [symmetric] ws by (simp add: ws_def)
  have k: "k < 16" using assms(3) by (simp add: k_def)
  show "length m = L4_NUM_MRS" "m ! 0 = t" using assms(2) k by (simp_all add: m ws_def)
  fix i assume "0 < i" "i \<le> k"
  then show "m ! i = mr_words u ! i"
    using assms(1,2) k by (auto simp: m ws_def nth_append L4_StoreMR_words)
qed

subsection \<open>From a sender to a receiver\<close>

text \<open>\<open>L4_Ipc\<close> loads the registers R4 to R11 from the first eight message registers of the UTCB before the trap and
  stores them there after it; the trap saves them in the context of the thread.\<close>

definition L4_Ipc_enter :: "ptr \<Rightarrow> 'z tstate_scheme \<Rightarrow> 'z tstate_scheme" where
  "L4_Ipc_enter p s = tcb_upd p (\<lambda>t. t\<lparr>ctx := (ctx t)\<lparr>regs := mr_low (utcbs s (utcb t))\<rparr>\<rparr>) s"

definition L4_Ipc_leave :: "ptr \<Rightarrow> 'z tstate_scheme \<Rightarrow> 'z tstate_scheme" where
  "L4_Ipc_leave p s = utcb_upd (utcb (tcbs s p)) (\<lambda>u. u\<lparr>mr_low := regs (ctx (tcbs s p))\<rparr>) s"

text \<open>A sender in the system call and a receiver that waits, both off the ready queues; the sender does not ask for an
  answer.\<close>

definition ipc_meets :: "ptr \<Rightarrow> ptr \<Rightarrow> 'z tstate_scheme \<Rightarrow> bool" where
  "ipc_meets from to s \<longleftrightarrow> from \<noteq> NULL \<and> to \<noteq> NULL \<and> to \<noteq> from \<and> pv s from = NULL \<and> pv s to = NULL \<and>
     files_ok (tcbs s from) \<and> files_ok (tcbs s to) \<and> sp (ctx (tcbs s from)) \<noteq> 0 \<and> sp (ctx (tcbs s to)) \<noteq> 0 \<and>
     utcb (tcbs s to) \<noteq> NULL \<and> utcb (tcbs s from) \<noteq> utcb (tcbs s to) \<and> ipc_notify (tcbs s to) = NULL \<and>
     rd s (sp (ctx (tcbs s from))) REG_R1 = L4_NILTHREAD \<and>
     word_addr (sp (ctx (tcbs s to))) REG_R0 \<noteq> word_addr (sp (ctx (tcbs s from))) REG_R1 \<and>
     vregs_ok (utcbs s (utcb (tcbs s from))) \<and> vregs_ok (utcbs s (utcb (tcbs s to)))"

lemma do_ipc_untyped:
  fixes s :: "'z istate_scheme"
  assumes rep: "rq_rep s q" and meet: "ipc_meets from to s"
    and n: "n = n_untyped (regs (ctx (tcbs s from)) ! 0)" "n \<le> 39" "n_typed (regs (ctx (tcbs s from)) ! 0) = 0"
  shows "\<exists>s'. do_ipc cb from to s = Ok s' \<and> utcb (tcbs s' to) = utcb (tcbs s to) \<and>
    regs (ctx (tcbs s' to)) = take (n + 1) (regs (ctx (tcbs s from))) @ drop (n + 1) (regs (ctx (tcbs s to))) \<and>
    utcbs s' = (utcbs s)(utcb (tcbs s to) := (utcbs s (utcb (tcbs s to)))\<lparr>sender := t_globalid (tcbs s from)\<rparr>)"
proof -
  note m = meet [unfolded ipc_meets_def]
  have ne: "from \<noteq> to" "to \<noteq> from" using m by auto
  let ?H = "handed from to (n + 1) s"
  have pvh: "pv ?H to = NULL" "pv ?H from = NULL" using handed_rep(2) [OF rep ne(1)] m by simp_all
  obtain s1 s' where s': "sched_enqueue to (tcb_upd to wake_to ?H) = Ok s1" "sched_enqueue from (tcb_upd from wake_from s1) = Ok s'"
      "unlinked (tcbs s' to) = unlinked (wake_to (tcbs ?H to))" "kstate.more s' = kstate.more ?H"
    using two_wakes [OF handed_rep(1) [OF rep ne(1)] _ pvh(1) _ pvh(2) ne(2) wake_links wake_from_unlinked] m ne by auto
  have t: "tcbs ?H to = recv_msg (n + 1) (regs (ctx (tcbs s from))) (msg_buffer (tcbs s from)) (no_timeout (tcbs s to))"
    using ne by (simp add: handed_tcbs)
  have f: "ctx (tcbs s' to) = ctx (tcbs ?H to)" "utcb (tcbs s' to) = utcb (tcbs ?H to)" "ipc_notify (tcbs s' to) = ipc_notify (tcbs ?H to)"
    using unlinked_fields [OF s'(3)] by (simp_all add: wake_to_def)
  have "ipc_notify (tcbs s' to) = NULL" unfolding f(3) t using m by simp
  then have "do_ipc cb from to s = Ok s'"
    using slow_path_eq [OF rep _ _ _ _ _ _ _ _ _ _ _ _ _ n, of to cb] m s'(1,2) by (simp add: ipc_callback_def)
  moreover have "utcbs s' = utcbs ?H" using tstate_more(6) [OF s'(4)] .
  moreover have "utcbs ?H = (utcbs s)(utcb (tcbs s to) := (utcbs s (utcb (tcbs s to)))\<lparr>sender := t_globalid (tcbs s from)\<rparr>)"
    by (simp add: handed_def Let_def utcb_upd_def tcb_upd_def wr_def)
  ultimately show ?thesis using f(1,2) unfolding t by (simp add: recv_msg_def)
qed

lemma untyped_nth: "msg_ok msg \<Longrightarrow> i < msg_u msg \<Longrightarrow> untyped_of msg ! i = msg ! (i + 1)"
  by (simp add: untyped_of_def msg_ok_def)

text \<open>C28. A message from one user thread to another, end to end: the sender appends up to 15 words to a cleared message
  object and loads it, the system call hands it to a waiting receiver, which stores it into an object of
  its own. Label and the first seven words arrive as sent. Every further word is lost: the library keeps
  it in the UTCB where the kernel has registers 40 and up, and the receiver finds there what its own UTCB
  held before.\<close>

theorem L4_message_end_to_end:
  fixes s :: "'z istate_scheme"
  assumes rep: "rq_rep s q" and meet: "ipc_meets from to s" and len: "length msg = L4_NUM_MRS" "length buf = L4_NUM_MRS"
    and ws: "length ws < L4_NUM_MRS" and l: "unat l < 2 ^ 16"
  shows "\<exists>m s' u r. rfold L4_MsgAppendWord ws (L4_Set_MsgLabel l (L4_MsgClear msg)) = Ok m \<and>
    do_ipc cb from to (L4_Ipc_enter from (utcb_upd (utcb (tcbs s from)) (L4_MsgLoad m) s)) = Ok s' \<and>
    u = utcbs (L4_Ipc_leave to s') (utcb (tcbs s' to)) \<and> r = L4_MsgStore (L4_MsgTag u) u buf \<and>
    L4_MsgLabel r = l \<and>
    (\<forall>i < length ws. L4_MsgWord r i = Ok (if i < 7 then ws ! i else mr (utcbs s (utcb (tcbs s to))) ! (i - 7)))"
proof -
  note me = meet [unfolded ipc_meets_def]
  let ?U = "utcb (tcbs s from)" and ?V = "utcb (tcbs s to)"
  obtain m where m: "rfold L4_MsgAppendWord ws (L4_Set_MsgLabel l (L4_MsgClear msg)) = Ok m" "msg_ok m" "typed_of m = []"
      "untyped_of m = ws" "L4_MsgLabel m = l"
    using append_words [of "L4_Set_MsgLabel l (L4_MsgClear msg)" ws] msg_ok_cleared [OF len(1) l] ws by auto
  have lm: "msg_u m = length ws" "msg_t m = 0"
    using m(2-4) arg_cong [OF m(4), of length] by (auto simp: untyped_of_def typed_of_def msg_ok_def)
  define s1 where "s1 = utcb_upd ?U (L4_MsgLoad m) s"
  define s2 where "s2 = L4_Ipc_enter from s1"
  have u1: "vregs_ok (utcbs s1 ?U)" "\<And>i. i < 16 \<Longrightarrow> i \<le> length ws \<Longrightarrow> mr_words (utcbs s1 ?U) ! i = m ! i"
    using L4_MsgLoad_words [OF _ m(2), of "utcbs s ?U"] me lm by (simp_all add: s1_def)
  have s2: "tcbs s2 = (tcbs s)(from := (tcbs s from)\<lparr>ctx := (ctx (tcbs s from))\<lparr>regs := mr_low (utcbs s1 ?U)\<rparr>\<rparr>)"
      "utcbs s2 = utcbs s1" "rd s2 = rd s"
    by (simp_all add: s2_def s1_def L4_Ipc_enter_def utcb_upd_def tcb_upd_def rd_def fun_eq_iff)
  have rep2: "rq_rep s2 q" unfolding s2_def L4_Ipc_enter_def s1_def
    by (rule rq_rep_tcb_upd_frame [OF rq_rep_utcb_upd [OF rep]]) simp_all
  have meet2: "ipc_meets from to s2"
    using me u1(1) by (auto simp: ipc_meets_def s2 pv_def files_ok_def vregs_ok_def) (auto simp: s1_def utcb_upd_def)
  let ?R = "regs (ctx (tcbs s2 from))"
  have R: "?R ! i = m ! i" if "i < 8" "i \<le> length ws" for i
    using u1(2) [of i] u1(1) that by (simp add: s2 mr_words_def vregs_ok_def nth_append)
  have lR: "length ?R = 8" using u1(1) by (simp add: s2 vregs_ok_def)
  have n: "length ws = n_untyped (?R ! 0)" "length ws \<le> 39" "n_typed (?R ! 0) = 0"
    using R [of 0] lm ws by (simp_all add: n_untyped_bits msg_u_def msg_t_def)
  obtain s' where s': "do_ipc cb from to s2 = Ok s'" "utcb (tcbs s' to) = utcb (tcbs s2 to)"
      "regs (ctx (tcbs s' to)) = take (length ws + 1) ?R @ drop (length ws + 1) (regs (ctx (tcbs s2 to)))"
      "utcbs s' = (utcbs s2)(utcb (tcbs s2 to) := (utcbs s2 (utcb (tcbs s2 to)))\<lparr>sender := t_globalid (tcbs s2 from)\<rparr>)"
    using do_ipc_untyped [OF rep2 meet2 n, of cb] by blast
  have to2: "tcbs s2 to = tcbs s to" "utcbs s2 ?V = utcbs s ?V" using me by (auto simp: s2 s1_def utcb_upd_def)
  define u where "u = utcbs (L4_Ipc_leave to s') (utcb (tcbs s' to))"
  have u: "mr_low u = regs (ctx (tcbs s' to))" "mr u = mr (utcbs s ?V)"
    by (simp_all add: u_def L4_Ipc_leave_def utcb_upd_def s'(2,4) to2)
  have "length (regs (ctx (tcbs s to))) = 8" "length (mr (utcbs s ?V)) = 8" using me by (simp_all add: files_ok_def vregs_ok_def)
  then have vu: "vregs_ok u" by (simp add: vregs_ok_def u s'(3) lR to2)
  have wu: "mr_words u ! i = (if i < 8 then m ! i else mr (utcbs s ?V) ! (i - 8))" if "i \<le> length ws" for i
  proof (cases "i < 8")
    case True
    then have "mr_words u ! i = regs (ctx (tcbs s' to)) ! i" using vu u(1) by (simp add: mr_words_def nth_append vregs_ok_def)
    also have "\<dots> = ?R ! i" using that True lR by (auto simp: s'(3) nth_append)
    finally show ?thesis using R [OF True that] True by simp
  next
    case False
    then show ?thesis using vu by (simp add: mr_words_def nth_append vregs_ok_def u)
  qed
  define r where "r = L4_MsgStore (L4_MsgTag u) u buf"
  have tag: "L4_MsgTag u = m ! 0" using wu [of 0] by (simp add: L4_MsgTag_def L4_StoreMR_words [OF vu])
  have k: "unat (bits 0 6 (m ! 0)) + unat (bits 6 6 (m ! 0)) = length ws" using lm by (simp add: msg_u_def msg_t_def)
  note st = L4_MsgStore_words [OF vu len(2), of "m ! 0", unfolded k, OF ws]
  have lab: "L4_MsgLabel r = l" using m(5) st(2) by (simp add: r_def tag L4_MsgLabel_def)
  have "L4_MsgWord r i = Ok (if i < 7 then ws ! i else mr (utcbs s ?V) ! (i - 7))" if "i < length ws" for i
  proof -
    have "r ! (i + 1) = mr_words u ! (i + 1)" using st(3) [of "i + 1"] that by (simp add: r_def tag)
    moreover have "m ! (i + 1) = ws ! i" using untyped_nth [OF m(2), of i] m(4) lm that by simp
    moreover have "length r = 16" using st(1) by (simp add: r_def tag)
    ultimately show ?thesis using wu [of "i + 1"] that ws by (simp add: L4_MsgWord_def msg_get_def)
  qed
  then show ?thesis using m(1) s'(1) lab u_def r_def unfolding s2_def s1_def by blast
qed

text \<open>A sender with nine words and a receiver with zeros in its UTCB.\<close>

definition meet_example :: istate where
  "meet_example = ipc_example\<lparr>
     tcbs := (\<lambda>_. tcb0)
       (8192 := tcb0\<lparr>state := T_SVC_BLOCKED, utcb := 0x20008000, ctx := \<lparr>sp = 0x20005000, ret = 0, ctl = 0, regs = replicate 8 0\<rparr>\<rparr>,
        12288 := tcb0\<lparr>state := T_RECV_BLOCKED, utcb := 0x20007000, ctx := \<lparr>sp = 0x20006000, ret = 0, ctl = 0, regs = replicate 8 0\<rparr>\<rparr>),
     ready_bitmap := 0, ready_queue := (\<lambda>_. NULL), utcbs := (\<lambda>_. utcb0)\<rparr>"

lemma meet_example_ok: "rq_rep meet_example (\<lambda>_. [])" "ipc_meets 8192 12288 meet_example"
  by (simp_all add: rq_rep_empty meet_example_def ipc_meets_def pv_def files_ok_def vregs_ok_def utcb0_def tcb0_def rd_def
      word_addr_def ipc_example_def)

theorem L4_message_end_to_end_witness:
  "\<exists>m s' u r. rfold L4_MsgAppendWord [1, 2, 3, 4, 5, 6, 7, 8, 9] (L4_Set_MsgLabel 5 (L4_MsgClear (replicate 16 0))) = Ok m \<and>
     do_ipc (\<lambda>f t b d s. Ok s) 8192 12288 (L4_Ipc_enter 8192 (utcb_upd 0x20008000 (L4_MsgLoad m) meet_example)) = Ok s' \<and>
     u = utcbs (L4_Ipc_leave 12288 s') (utcb (tcbs s' 12288)) \<and> r = L4_MsgStore (L4_MsgTag u) u (replicate 16 0) \<and>
     L4_MsgWord r 6 = Ok 7 \<and> L4_MsgWord r 7 = Ok 0"
proof -
  have z: "mr (utcbs meet_example (utcb (tcbs meet_example 12288))) ! 0 = 0" "utcb (tcbs meet_example 8192) = 0x20008000"
    by (simp_all add: meet_example_def utcb0_def)
  show ?thesis
    using L4_message_end_to_end [OF meet_example_ok, of "replicate 16 0" "replicate 16 0" "[1, 2, 3, 4, 5, 6, 7, 8, 9]" 5 "\<lambda>f t b d s. Ok s"]
    unfolding z(2) by (fastforce simp: z(1))
qed

text \<open>Typed items of the library in the eyes of the kernel: the header tells maps from grants, but the word that holds a
  flexible page is taken for a size.\<close>

lemma L4_MapItem_kernel:
  "item_header (fst (L4_MapItem f b)) = 8" "item_header (fst (L4_GrantItem f b)) = 10"
proof -
  have h: "item_header x = bits 0 4 x" for x by (simp add: item_header_def bits_def mask_numeral)
  have o: "bits 0 4 (put_bits 10 22 v x) = bits 0 4 x" for v x by (rule bits_put_bits_other) simp
  show "item_header (fst (L4_MapItem f b)) = 8" "item_header (fst (L4_GrantItem f b)) = 10"
    by (simp_all add: h o L4_MapItem_def L4_GrantItem_def) (simp_all add: bits_def put_bits_def mask_numeral)
qed

lemma L4_MapItem_size_misread:
  "snd (L4_MapItem (L4_FpageLog2 0x20010000 12) 0x20010000) AND 0xFFFFFFC0 = 0x200100C0"
  by (simp add: L4_MapItem_def L4_FpageLog2_def put_bits_def mask_numeral)

end
