(* ===== verification/Root_Thread.thy ===== *)
theory Root_Thread
  imports L4_Message
begin

text \<open>
  The root thread, \<^verbatim>\<open>user/root_thread.c\<close>: it lays out the memory of every user program, creates its first thread,
  maps the sections and pages into it and starts it. What it asks of the kernel is a list of actions; the
  message of a mapping is built with the library and is decoded by the kernel model. \<open>user_fpages\<close> is the array
  of a program with its terminating entry.
\<close>

record user_fpage_t =
  ufp_base :: u32
  ufp_size :: u32

record user_struct =
  us_tid :: u32
  us_entry :: u32
  us_thread_num :: u32
  us_fpages :: "user_fpage_t list"

record root_syms =
  user_text_start :: u32
  user_text_end :: u32
  user_data_start :: u32
  user_data_end :: u32
  user_bss_start :: u32
  user_bss_end :: u32
  container :: u32

abbreviation (input) UTCB_SIZE :: u32 where "UTCB_SIZE \<equiv> 144"
abbreviation (input) PAGER_BOOTSTRAP_STACK_SIZE :: u32 where "PAGER_BOOTSTRAP_STACK_SIZE \<equiv> 0x800"

text \<open>Actions: the system call \<open>L4_ThreadControl\<close>, a mapping (the flag tells that the page was taken from the free
  memory), the start message, and the complaint about a page size.\<close>

datatype root_action =
    Thread_control u32 u32 u32 u32 u32
  | Map bool u32 u32 u32
  | Start u32 "u32 list"
  | Bad_fpage u32

subsection \<open>Mappings\<close>

definition L4_Map_msg :: "u32 \<Rightarrow> u32 \<Rightarrow> L4_Msg_t \<Rightarrow> L4_Msg_t result" where
  "L4_Map_msg base sz msg = L4_MsgPut 0 [] [(base AND 0xFFFFFFC0) OR 0x0A, sz AND 0xFFFFFFC0] msg"

definition get_free_base :: "kip_mem_desc_t list \<Rightarrow> u32" where
  "get_free_base descs = (case find (\<lambda>d. desc_size d AND 0x3F = 4) descs of
     Some d \<Rightarrow> desc_base d AND 0xFFFFFFC0
   | None \<Rightarrow> 0)"

definition map_section :: "u32 \<Rightarrow> u32 \<Rightarrow> u32 \<Rightarrow> root_action list" where
  "map_section tid lo hi = (if hi - lo > 0 then [Map False tid lo (hi - lo)] else [])"

definition map_user_sections :: "root_syms \<Rightarrow> u32 \<Rightarrow> root_action list" where
  "map_user_sections L tid =
     map_section tid (user_text_start L) (user_text_end L) @
     map_section tid (user_data_start L) (user_data_end L) @
     map_section tid (user_bss_start L) (user_bss_end L)"

definition root_start_thread :: "root_syms \<Rightarrow> u32 \<Rightarrow> u32 \<Rightarrow> u32 \<Rightarrow> u32 \<Rightarrow> root_action" where
  "root_start_thread L tid entry stk sz = Start tid [container L, stk, sz, entry, 0]"

text \<open>What the kernel reads in the message: one item, a grant (the library's own map item has another header), with base
  and size rounded down to 64 bytes.\<close>

lemma L4_Map_decoded:
  assumes "length msg = L4_NUM_MRS"
  shows "\<exists>m. L4_Map_msg base sz msg = Ok m \<and> n_untyped (m ! 0) = 0 \<and> n_typed (m ! 0) = 2 \<and>
    item_header (m ! 1) AND IPC_TI_MAP_GRANT \<noteq> 0 \<and> item_header (m ! 1) AND IPC_TI_GRANT \<noteq> 0 \<and>
    m ! 1 AND 0xFFFFFFC0 = base AND 0xFFFFFFC0 \<and> m ! 2 AND 0xFFFFFFC0 = sz AND 0xFFFFFFC0"
proof -
  let ?p = "(base AND 0xFFFFFFC0) OR 0x0A"
  obtain m where m: "L4_Map_msg base sz msg = Ok m" "L4_MsgGet m = Ok ([], [?p, sz AND 0xFFFFFFC0])"
      "n_untyped (m ! 0) = 0" "n_typed (m ! 0) = 2"
    using L4_MsgPut_spec [OF assms, of "[]" "[?p, sz AND 0xFFFFFFC0]" 0] by (auto simp: L4_Map_msg_def)
  then have "m ! 1 = ?p" "m ! 2 = sz AND 0xFFFFFFC0"
    by (auto simp: L4_MsgGet_def n_untyped_bits msg_u_def msg_t_def upt_rec numeral_2_eq_2 split: if_splits)
  moreover have "item_header ?p = 10" "?p AND 0xFFFFFFC0 = base AND 0xFFFFFFC0"
    by (simp_all add: item_header_def bit.conj_disj_distrib2 and.assoc)
  ultimately show ?thesis using m by (simp add: and.assoc)
qed

subsection \<open>Layout\<close>

definition align_to :: "u32 \<Rightarrow> u32 \<Rightarrow> u32" where
  "align_to fm sz = (fm + sz - 1) AND NOT (sz - 1)"

text \<open>The loop over the pages of a program; the first entry, \<open>RES_FPAGE\<close>, has been placed before.\<close>

fun map_fpages :: "u32 \<Rightarrow> bool \<Rightarrow> user_fpage_t list \<Rightarrow> u32 \<Rightarrow> user_fpage_t list \<times> root_action list \<times> u32" where
  "map_fpages tid res [] fm = ([], [], fm)"
| "map_fpages tid res (f # fs) fm =
     (if ufp_base f = 0 \<and> ufp_size f = 0 then (f # fs, [], fm)
      else if res then case map_fpages tid False fs fm of (fs, acts, fm) \<Rightarrow> (f # fs, acts, fm)
      else if ufp_base f \<noteq> 0
      then case map_fpages tid False fs fm of (fs, acts, fm) \<Rightarrow> (f # fs, Map False tid (ufp_base f) (ufp_size f) # acts, fm)
      else if ufp_size f = 0 \<or> ufp_size f AND (ufp_size f - 1) \<noteq> 0
      then case map_fpages tid False fs fm of (fs, acts, fm) \<Rightarrow> (f # fs, Bad_fpage (ufp_size f) # acts, fm)
      else
        let a = align_to fm (ufp_size f)
        in case map_fpages tid False fs (a + ufp_size f) of (fs, acts, fm) \<Rightarrow>
             (f\<lparr>ufp_base := a\<rparr> # fs, Map True tid a (ufp_size f) # acts, fm))"

definition root_user :: "root_syms \<Rightarrow> u32 \<Rightarrow> u32 \<Rightarrow> user_struct \<Rightarrow> u32 \<Rightarrow> user_struct \<times> root_action list \<times> u32" where
  "root_user L user_base myself p fm =
     (let tid = L4_GlobalId (us_tid p + user_base) 2;
          res_size = ufp_size (hd (us_fpages p));
          base = align_to fm res_size;
          fps = (hd (us_fpages p))\<lparr>ufp_base := base\<rparr> # tl (us_fpages p);
          stack_top = base + UTCB_SIZE + PAGER_BOOTSTRAP_STACK_SIZE
      in case map_fpages tid True fps (base + res_size) of (fps, acts, fm) \<Rightarrow>
           (p\<lparr>us_thread_num := tid, us_fpages := fps\<rparr>,
            Thread_control tid tid 0 myself base # map_user_sections L tid @ Map True tid base res_size # acts @
            [root_start_thread L tid (us_entry p) stack_top PAGER_BOOTSTRAP_STACK_SIZE], fm))"

fun root_users :: "root_syms \<Rightarrow> u32 \<Rightarrow> u32 \<Rightarrow> user_struct list \<Rightarrow> u32 \<Rightarrow> user_struct list \<times> root_action list \<times> u32" where
  "root_users L user_base myself [] fm = ([], [], fm)"
| "root_users L user_base myself (p # ps) fm =
     (case root_user L user_base myself p fm of (p, acts, fm) \<Rightarrow>
      case root_users L user_base myself ps fm of (ps, acts', fm) \<Rightarrow> (p # ps, acts @ acts', fm))"

text \<open>The body of the thread; without free memory it halts at once.\<close>

definition root_thread :: "root_syms \<Rightarrow> kip_mem_desc_t list \<Rightarrow> u32 \<Rightarrow> u32 \<Rightarrow> user_struct list \<Rightarrow> user_struct list \<times> root_action list" where
  "root_thread L descs user_base myself ps =
     (let free_mem = get_free_base descs in
      if free_mem = 0 then (ps, [])
      else case root_users L user_base myself ps free_mem of (ps, acts, _) \<Rightarrow> (ps, acts))"

subsection \<open>Pages taken from the free memory do not overlap\<close>

fun taken_of :: "root_action \<Rightarrow> (nat \<times> nat) list" where
  "taken_of (Map True tid base sz) = [(unat base, unat sz)]"
| "taken_of _ = []"

text \<open>Areas in ascending order between two addresses, each aligned to its own size.\<close>

fun stacked :: "nat \<Rightarrow> (nat \<times> nat) list \<Rightarrow> nat \<Rightarrow> bool" where
  "stacked a [] b \<longleftrightarrow> a \<le> b"
| "stacked a ((x, n) # xs) b \<longleftrightarrow> a \<le> x \<and> n dvd x \<and> stacked (x + n) xs b"

lemma stacked_le: "stacked a xs b \<Longrightarrow> a \<le> b"
proof (induction xs arbitrary: a)
  case (Cons p xs)
  then show ?case by (cases p) fastforce
qed simp

lemma stacked_append: "stacked a (xs @ ys) c \<longleftrightarrow> (\<exists>b. stacked a xs b \<and> stacked b ys c)"
proof (induction xs arbitrary: a)
  case Nil
  show ?case
  proof
    assume "stacked a ([] @ ys) c"
    then show "\<exists>b. stacked a [] b \<and> stacked b ys c" by auto
  next
    assume "\<exists>b. stacked a [] b \<and> stacked b ys c"
    then obtain b where "a \<le> b" "stacked b ys c" by auto
    then show "stacked a ([] @ ys) c" by (cases ys) auto
  qed
qed (auto)

lemma stacked_lower: "stacked a xs b \<Longrightarrow> (x, n) \<in> set xs \<Longrightarrow> a \<le> x \<and> x + n \<le> b \<and> n dvd x"
proof (induction xs arbitrary: a)
  case (Cons p xs)
  then show ?case by (cases p) (auto dest: stacked_le; fastforce)
qed simp

lemma stacked_disjoint:
  "stacked a xs b \<Longrightarrow> i < j \<Longrightarrow> j < length xs \<Longrightarrow> fst (xs ! i) + snd (xs ! i) \<le> fst (xs ! j)"
proof (induction xs arbitrary: a i j)
  case (Cons p xs)
  obtain x n where p: "p = (x, n)" by (cases p)
  then have s: "stacked (x + n) xs b" using Cons.prems(1) by simp
  show ?case
  proof (cases i)
    case 0
    then have "xs ! (j - 1) \<in> set xs" using Cons.prems(2,3) by simp
    then show ?thesis using stacked_lower [OF s, of "fst (xs ! (j - 1))" "snd (xs ! (j - 1))"] Cons.prems(2) p 0 by simp
  next
    case (Suc k)
    then show ?thesis using Cons.IH [OF s, of k "j - 1"] Cons.prems(2,3) by (simp add: nth_Cons')
  qed
qed simp

lemma align_to_spec:
  assumes k: "k < 32" and room: "unat fm + 2 ^ k \<le> 2 ^ 32"
  shows "unat fm \<le> unat (align_to fm (2 ^ k))" "unat (align_to fm (2 ^ k)) < unat fm + 2 ^ k" "2 ^ k dvd unat (align_to fm (2 ^ k))"
proof -
  have "unat (fm + (2 ^ k - 1)) = unat fm + (2 ^ k - 1)"
    using room k by (simp add: unat_word_ariths unat_sub_if' unat_pow2 word_le_nat_alt)
  then have "unat (align_to fm (2 ^ k)) = (unat fm + (2 ^ k - 1)) div 2 ^ k * 2 ^ k"
    unfolding align_to_def add_diff_eq [symmetric] using unat_and_not_low [OF k, of "fm + (2 ^ k - 1)"] by simp
  then show "unat fm \<le> unat (align_to fm (2 ^ k))" "unat (align_to fm (2 ^ k)) < unat fm + 2 ^ k" "2 ^ k dvd unat (align_to fm (2 ^ k))"
    using div_mult_ceiling [of "2 ^ k" "unat fm"] by simp_all
qed

lemma power_of_two_test:
  assumes "sz \<noteq> 0" "(sz :: u32) AND (sz - 1) = 0"
  obtains k where "k < 32" "sz = 2 ^ k"
proof -
  obtain k where k: "2 ^ k \<le> unat sz" "unat sz < 2 ^ (k + 1)"
    using ex_power_ivl1 [of 2 "unat sz"] assms(1) by (auto simp: unat_gt_0 Suc_le_eq)
  have k32: "k < 32"
  proof (rule ccontr)
    assume "\<not> k < 32"
    then have "(2 :: nat) ^ 32 \<le> 2 ^ k" by (intro power_increasing) simp_all
    then show False using k(1) u32_unat_bound [of sz] by simp
  qed
  have bit_k: "bit w k" if "2 ^ k \<le> unat w" "unat w < 2 ^ (k + 1)" for w :: u32
  proof -
    have "unat w div 2 ^ k = 1" using that by (simp add: div_nat_eqI)
    then have "bit (unat w) k" by (simp add: bit_iff_odd)
    then show ?thesis by (simp add: bit_unsigned_iff)
  qed
  have "unat sz = 2 ^ k"
  proof (rule ccontr)
    assume "unat sz \<noteq> 2 ^ k"
    then have "2 ^ k \<le> unat (sz - 1)" "unat (sz - 1) < 2 ^ (k + 1)"
      using k assms(1) by (simp_all add: unat_minus_one)
    then have "bit (sz AND (sz - 1)) k" using bit_k k by (simp add: bit_and_iff)
    then show False using assms(2) by simp
  qed
  then have "sz = 2 ^ k" using unat_pow2 [OF k32] by (simp add: word_unat_eq_iff)
  then show thesis using that k32 by blast
qed

abbreviation (input) demand :: "user_fpage_t list \<Rightarrow> nat" where
  "demand fs \<equiv> sum_list (map (\<lambda>f. 2 * unat (ufp_size f)) fs)"

lemma place_page:
  assumes "sz \<noteq> 0" "sz AND (sz - 1) = 0" "unat fm + 2 * unat sz < 2 ^ 32"
  shows "unat fm \<le> unat (align_to fm sz) \<and> unat sz dvd unat (align_to fm sz) \<and>
    unat (align_to fm sz + sz) = unat (align_to fm sz) + unat sz \<and> unat (align_to fm sz) + unat sz \<le> unat fm + 2 * unat sz"
proof -
  obtain k where k: "k < 32" "sz = 2 ^ k" using power_of_two_test assms(1,2) by blast
  have u: "unat sz = 2 ^ k" using k by (simp add: unat_pow2)
  note a = align_to_spec [OF k(1), of fm, folded k(2)]
  have "unat (align_to fm sz) < unat fm + unat sz" using a(2) assms(3) u by simp
  then show ?thesis using a assms(3) u by (simp add: unat_word_ariths)
qed

lemma map_fpages_stacked:
  assumes "map_fpages tid res fs fm = (fs', acts, fm')" "unat fm + demand fs < 2 ^ 32"
  shows "stacked (unat fm) (concat (map taken_of acts)) (unat fm') \<and> unat fm' \<le> unat fm + demand fs"
  using assms
proof (induction tid res fs fm arbitrary: fs' acts fm' rule: map_fpages.induct)
  case (2 tid res f fs fm)
  show ?case
  proof (cases "ufp_base f = 0 \<and> ufp_size f \<noteq> 0 \<and> \<not> res \<and> ufp_size f AND (ufp_size f - 1) = 0")
    case True
    let ?a = "align_to fm (ufp_size f)"
    have a: "unat fm \<le> unat ?a" "unat (ufp_size f) dvd unat ?a" "unat (?a + ufp_size f) = unat ?a + unat (ufp_size f)"
        "unat ?a + unat (ufp_size f) \<le> unat fm + 2 * unat (ufp_size f)"
      using place_page [of "ufp_size f" fm] True 2(6) by simp_all
    obtain fs1 acts1 where r: "map_fpages tid False fs (?a + ufp_size f) = (fs1, acts1, fm')" "acts = Map True tid ?a (ufp_size f) # acts1"
      using 2(5) True by (auto simp: Let_def split: prod.splits)
    have "stacked (unat (?a + ufp_size f)) (concat (map taken_of acts1)) (unat fm') \<and> unat fm' \<le> unat (?a + ufp_size f) + demand fs"
      using 2(4) [OF _ _ _ _ refl r(1)] True a 2(6) by auto
    then show ?thesis using a r(2) by (simp add: a(3)) 
  next
    case False
    then show ?thesis using 2 by (auto split: if_splits prod.splits)
  qed
qed simp

definition well_sized :: "user_struct \<Rightarrow> bool" where
  "well_sized p \<longleftrightarrow> us_fpages p \<noteq> [] \<and> ufp_size (hd (us_fpages p)) \<noteq> 0 \<and>
     ufp_size (hd (us_fpages p)) AND (ufp_size (hd (us_fpages p)) - 1) = 0"

lemma taken_sections: "concat (map taken_of (map_user_sections L tid)) = []"
  by (simp add: map_user_sections_def map_section_def)

lemma root_user_stacked:
  assumes "root_user L ub me p fm = (p', acts, fm')" "well_sized p" "unat fm + demand (us_fpages p) < 2 ^ 32"
  shows "stacked (unat fm) (concat (map taken_of acts)) (unat fm') \<and> unat fm' \<le> unat fm + demand (us_fpages p)"
proof -
  obtain r fs where p: "us_fpages p = r # fs" using assms(2) by (cases "us_fpages p") (auto simp: well_sized_def)
  let ?a = "align_to fm (ufp_size r)"
  let ?tid = "L4_GlobalId (us_tid p + ub) 2"
  have a: "unat fm \<le> unat ?a" "unat (ufp_size r) dvd unat ?a" "unat (?a + ufp_size r) = unat ?a + unat (ufp_size r)"
      "unat ?a + unat (ufp_size r) \<le> unat fm + 2 * unat (ufp_size r)"
    using place_page [of "ufp_size r" fm] assms(2,3) p by (simp_all add: well_sized_def)
  obtain fs1 acts1 where m: "map_fpages ?tid False fs (?a + ufp_size r) = (fs1, acts1, fm')"
      "concat (map taken_of acts) = (unat ?a, unat (ufp_size r)) # concat (map taken_of acts1)"
    using assms(1,2) by (auto simp: root_user_def Let_def p well_sized_def taken_sections root_start_thread_def split: prod.splits)
  have "stacked (unat (?a + ufp_size r)) (concat (map taken_of acts1)) (unat fm') \<and> unat fm' \<le> unat (?a + ufp_size r) + demand fs"
    using map_fpages_stacked [OF m(1)] a assms(3) p by simp
  then show ?thesis using a m(2) p by simp
qed

lemma root_users_stacked:
  assumes "root_users L ub me ps fm = (ps', acts, fm')" "list_all well_sized ps" "unat fm + sum_list (map (\<lambda>p. demand (us_fpages p)) ps) < 2 ^ 32"
  shows "stacked (unat fm) (concat (map taken_of acts)) (unat fm')"
  using assms
proof (induction ps arbitrary: fm ps' acts)
  case (Cons p ps)
  obtain p1 a1 f1 where u: "root_user L ub me p fm = (p1, a1, f1)" by (cases "root_user L ub me p fm") auto
  obtain ps2 a2 where r: "root_users L ub me ps f1 = (ps2, a2, fm')" "acts = a1 @ a2"
    using Cons.prems(1) u by (auto split: prod.splits)
  have 1: "stacked (unat fm) (concat (map taken_of a1)) (unat f1)" "unat f1 \<le> unat fm + demand (us_fpages p)"
    using root_user_stacked [OF u] Cons.prems(2,3) by simp_all
  have "stacked (unat f1) (concat (map taken_of a2)) (unat fm')"
    using Cons.IH [OF r(1)] Cons.prems(2,3) 1(2) by simp
  then show ?case using 1(1) r(2) by (auto simp: stacked_append)
qed simp



end
