(* ===== verification/Pager.thy ===== *)
theory Pager
  imports Root_Thread
begin

text \<open>
  The pager of a user program, \<^verbatim>\<open>user/lib/l4/pager.c\<close>: a server thread that owns the memory of the program's
  threads, creates, starts and releases them and lets one thread wait for the end of another. A request is
  the sender and the message object; what the pager does besides changing its tables is a list of effects.
  The thread pool is an array of 32 nodes of which entry 0 is not used; bit 0 of the base of a node marks it
  as used. The pool meets the contract \<open>slot_pool\<close> of an element pool.
\<close>

subsection \<open>State\<close>

record thread_node =
  tn_base :: u32
  tn_tid :: u32
  tn_retval :: u32
  tn_exited :: bool
  tn_detached :: bool

record wait_entry =
  we_tid :: u32
  we_resource :: u32
  we_valid :: bool

record pager_state =
  all_nodes :: "thread_node list"
  node_num :: nat
  pager_tid :: u32
  pg_waiters :: "wait_entry list"
  waiter_count :: u32

datatype effect =
    Reply u32 "u32 list"
  | Control u32 u32 u32 u32 u32
  | Store u32 u32
  | Send u32 "u32 list"
  | Complain

abbreviation (input) THREAD_MAX_NUM :: nat where "THREAD_MAX_NUM \<equiv> 32"
abbreviation (input) PG_MAX_WAITERS :: nat where "PG_MAX_WAITERS \<equiv> 16"
abbreviation (input) STACK_SIZE :: u32 where "STACK_SIZE \<equiv> 0x200"
definition NODE_SIZE_ALIGNED :: u32 where "NODE_SIZE_ALIGNED = ((UTCB_SIZE + STACK_SIZE) + 256 - 1) AND NOT (256 - 1)"
definition PAGER_BOOT_RESERVED :: u32 where
  "PAGER_BOOT_RESERVED = ((UTCB_SIZE + PAGER_BOOTSTRAP_STACK_SIZE) + 256 - 1) AND NOT (256 - 1)"

definition IS_THREAD_NODE_USED :: "thread_node \<Rightarrow> bool" where "IS_THREAD_NODE_USED n \<longleftrightarrow> tn_base n AND 1 \<noteq> 0"
definition THREAD_NODE_BASE :: "thread_node \<Rightarrow> u32" where "THREAD_NODE_BASE n = tn_base n AND NOT 1"
definition use_thread_node :: "thread_node \<Rightarrow> thread_node" where "use_thread_node n = n\<lparr>tn_base := tn_base n OR 1\<rparr>"
definition free_thread_node :: "thread_node \<Rightarrow> thread_node" where "free_thread_node n = n\<lparr>tn_base := tn_base n AND NOT 1\<rparr>"

definition node_upd :: "nat \<Rightarrow> (thread_node \<Rightarrow> thread_node) \<Rightarrow> pager_state \<Rightarrow> pager_state" where
  "node_upd i f s = s\<lparr>all_nodes := (all_nodes s)[i := f (all_nodes s ! i)]\<rparr>"

subsection \<open>Wait queue\<close>

definition WAIT_KEY :: "u32 \<Rightarrow> u32 \<Rightarrow> u32" where "WAIT_KEY ty i = push_bit 28 ty OR (i AND 0x0FFFFFFF)"
abbreviation (input) WT_JOIN :: u32 where "WT_JOIN \<equiv> 4"

definition add_waiter :: "u32 \<Rightarrow> u32 \<Rightarrow> pager_state \<Rightarrow> int \<times> pager_state" where
  "add_waiter resource_id tid s = (case find (\<lambda>i. \<not> we_valid (pg_waiters s ! i)) [0..<PG_MAX_WAITERS] of
     Some i \<Rightarrow> (0, s\<lparr>pg_waiters := (pg_waiters s)[i := \<lparr>we_tid = tid, we_resource = resource_id, we_valid = True\<rparr>],
                     waiter_count := waiter_count s + 1\<rparr>)
   | None \<Rightarrow> (-1, s))"

definition pop_waiter :: "u32 \<Rightarrow> pager_state \<Rightarrow> u32 \<times> pager_state" where
  "pop_waiter resource_id s =
     (case find (\<lambda>i. we_valid (pg_waiters s ! i) \<and> we_resource (pg_waiters s ! i) = resource_id) [0..<PG_MAX_WAITERS] of
        Some i \<Rightarrow> (we_tid (pg_waiters s ! i),
                   s\<lparr>pg_waiters := (pg_waiters s)[i := (pg_waiters s ! i)\<lparr>we_valid := False\<rparr>], waiter_count := waiter_count s - 1\<rparr>)
      | None \<Rightarrow> (0, s))"

text \<open>Waking every waiter of a resource, in the order of the array.\<close>

definition wake_all_waiters :: "u32 \<Rightarrow> pager_state \<Rightarrow> effect list \<times> pager_state" where
  "wake_all_waiters resource_id s =
     fold (\<lambda>i (out, s).
       if we_valid (pg_waiters s ! i) \<and> we_resource (pg_waiters s ! i) = resource_id
       then (out @ [Reply (we_tid (pg_waiters s ! i)) [0]],
             s\<lparr>pg_waiters := (pg_waiters s)[i := (pg_waiters s ! i)\<lparr>we_valid := False\<rparr>], waiter_count := waiter_count s - 1\<rparr>)
       else (out, s)) [0..<PG_MAX_WAITERS] ([], s)"

subsection \<open>Thread pool\<close>

definition find_thread_index :: "pager_state \<Rightarrow> u32 \<Rightarrow> u32" where
  "find_thread_index s tid = drop_bit 14 (tid - pager_tid s)"

definition init_thread_pool :: "u32 \<Rightarrow> u32 \<Rightarrow> u32 \<Rightarrow> pager_state \<Rightarrow> pager_state option" where
  "init_thread_pool pager_tid_raw res_base res_size s =
     (if res_size \<le> PAGER_BOOT_RESERVED then None
      else
        let res_base = res_base + PAGER_BOOT_RESERVED;
            res_size = res_size - PAGER_BOOT_RESERVED;
            n = min THREAD_MAX_NUM (unat (res_size div NODE_SIZE_ALIGNED));
            s = s\<lparr>node_num := n, pager_tid := pager_tid_raw\<rparr>
        in if res_base AND 1 \<noteq> 0 then None
           else Some (fold (\<lambda>i. node_upd i (\<lambda>_. \<lparr>tn_base = res_base + of_nat (i - 1) * NODE_SIZE_ALIGNED, tn_tid = 0,
                                  tn_retval = 0, tn_exited = False, tn_detached = False\<rparr>)) [1..<n] s))"

text \<open>The loop variable is compared with the number of nodes after the loop, which it does not reach when there are
  none.\<close>

definition fetch_free_thread_index :: "pager_state \<Rightarrow> nat" where
  "fetch_free_thread_index s = (case find (\<lambda>i. \<not> IS_THREAD_NODE_USED (all_nodes s ! i)) [1..<node_num s] of
     Some i \<Rightarrow> i
   | None \<Rightarrow> let i = max 1 (node_num s) in if i = node_num s then 0 else i)"

definition find_thread_node :: "pager_state \<Rightarrow> u32 \<Rightarrow> nat option" where
  "find_thread_node s tid =
     find (\<lambda>i. tn_tid (all_nodes s ! i) = tid \<and> IS_THREAD_NODE_USED (all_nodes s ! i)) [1..<node_num s]"

definition release_thread :: "u32 \<Rightarrow> pager_state \<Rightarrow> effect list \<times> pager_state" where
  "release_thread tid s =
     (let idx = find_thread_index s tid in
      if unat idx \<ge> node_num s then ([Complain], s)
      else ([Control tid 0 0 0 (-1)], node_upd (unat idx) free_thread_node s))"

definition thread_create_node :: "pager_state \<Rightarrow> u32 \<times> effect list \<times> pager_state" where
  "thread_create_node s =
     (let thr_idx = fetch_free_thread_index s in
      if thr_idx = 0 then (0, [Complain], s)
      else
        let child = pager_tid s + push_bit 14 (of_nat thr_idx);
            s = node_upd thr_idx (\<lambda>n. use_thread_node (n\<lparr>tn_tid := child, tn_retval := 0, tn_exited := False, tn_detached := False\<rparr>)) s
        in (child, [Control child (pager_tid s) 0 (pager_tid s) (THREAD_NODE_BASE (all_nodes s ! thr_idx))], s))"

text \<open>Starting a thread: the pager writes the canary and the exception frame of the new thread and sends it the start
  message. \<open>container\<close> and \<open>kip\<close> are addresses.\<close>

abbreviation (input) STACK_CANARY_VALUE :: u32 where "STACK_CANARY_VALUE \<equiv> 0xDEADBEEF"
abbreviation (input) RESERVED_STACK :: u32 where "RESERVED_STACK \<equiv> 32"

definition pager_start_effects :: "u32 \<Rightarrow> u32 \<Rightarrow> u32 \<Rightarrow> u32 \<Rightarrow> u32 \<Rightarrow> u32 \<Rightarrow> u32 \<Rightarrow> effect list" where
  "pager_start_effects kip cont t entry entry_arg stk sz =
     (let frame = stk - RESERVED_STACK; utcb = stk - STACK_SIZE - UTCB_SIZE in
      [Store (stk - sz) STACK_CANARY_VALUE, Store frame kip, Store (frame + 4) utcb, Store (frame + 8) entry,
       Store (frame + 12) entry_arg, Store (frame + 16) 0, Store (frame + 20) 0xFFFFFFFF, Store (frame + 24) cont,
       Store (frame + 28) 0x1000000, Send t [cont, stk, sz, entry, entry_arg]])"

definition thread_start_node :: "u32 \<Rightarrow> u32 \<Rightarrow> u32 \<Rightarrow> u32 \<Rightarrow> u32 \<Rightarrow> pager_state \<Rightarrow> u32 \<times> effect list" where
  "thread_start_node kip cont tid entry entry_arg s = (case find_thread_node s tid of
     None \<Rightarrow> (-1, [Complain])
   | Some i \<Rightarrow>
       let stack = (THREAD_NODE_BASE (all_nodes s ! i) + UTCB_SIZE + STACK_SIZE) AND NOT 7
       in (0, pager_start_effects kip cont tid entry entry_arg stack STACK_SIZE))"

subsection \<open>Requests\<close>

abbreviation (input) PAGER_REQUEST_LABEL :: u32 where "PAGER_REQUEST_LABEL \<equiv> 0xF000"
abbreviation (input) THREAD_CREATE :: u32 where "THREAD_CREATE \<equiv> 0"
abbreviation (input) THREAD_START :: u32 where "THREAD_START \<equiv> 1"
abbreviation (input) THREAD_FREE :: u32 where "THREAD_FREE \<equiv> 3"
abbreviation (input) THREAD_GET_RETVAL :: u32 where "THREAD_GET_RETVAL \<equiv> 5"
abbreviation (input) THREAD_DETACH :: u32 where "THREAD_DETACH \<equiv> 6"
abbreviation (input) THREAD_JOIN_WAIT :: u32 where "THREAD_JOIN_WAIT \<equiv> 7"

definition pager_free :: "u32 \<Rightarrow> u32 \<Rightarrow> pager_state \<Rightarrow> effect list \<times> pager_state" where
  "pager_free t retval s =
     (let node = find_thread_node s t;
          s = (case node of Some i \<Rightarrow> node_upd i (\<lambda>n. n\<lparr>tn_retval := retval, tn_exited := True\<rparr>) s | None \<Rightarrow> s) in
      case pop_waiter (WAIT_KEY WT_JOIN t) s of (waiter, s) \<Rightarrow>
      if waiter \<noteq> 0 then (case release_thread t s of (out, s) \<Rightarrow> (Reply waiter [0, retval] # out, s))
      else if (case node of Some i \<Rightarrow> tn_detached (all_nodes s ! i) | None \<Rightarrow> False) then release_thread t s
      else ([], s))"

definition pager_get_retval :: "u32 \<Rightarrow> u32 \<Rightarrow> pager_state \<Rightarrow> effect list \<times> pager_state" where
  "pager_get_retval t query s = (case find_thread_node s query of
     None \<Rightarrow> ([Reply t [0]], s)
   | Some i \<Rightarrow>
       let r = Reply t [tn_retval (all_nodes s ! i)] in
       if tn_exited (all_nodes s ! i) then (case release_thread query s of (out, s) \<Rightarrow> (r # out, s)) else ([r], s))"

definition pager_join :: "u32 \<Rightarrow> u32 \<Rightarrow> pager_state \<Rightarrow> effect list \<times> pager_state" where
  "pager_join t target s = (case find_thread_node s target of
     None \<Rightarrow> ([Reply t [3, 0]], s)
   | Some i \<Rightarrow>
       if tn_exited (all_nodes s ! i)
       then (case release_thread target s of (out, s') \<Rightarrow> (Reply t [0, tn_retval (all_nodes s ! i)] # out, s'))
       else (case add_waiter (WAIT_KEY WT_JOIN target) t s of (r, s) \<Rightarrow> (if r < 0 then [Reply t [11, 0]] else [], s)))"

definition pager_detach :: "u32 \<Rightarrow> u32 \<Rightarrow> pager_state \<Rightarrow> effect list \<times> pager_state" where
  "pager_detach t target s =
     (case (case find_thread_node s target of
        None \<Rightarrow> ([], s)
      | Some i \<Rightarrow>
          let s = node_upd i (\<lambda>n. n\<lparr>tn_detached := True\<rparr>) s
          in if tn_exited (all_nodes s ! i) then release_thread target s else ([], s)) of
      (out, s) \<Rightarrow> (out @ [Reply t [0]], s))"

text \<open>One turn of the server loop: \<open>tag\<close> and \<open>msg\<close> are what \<open>L4_Wait\<close> and \<open>L4_MsgStore\<close> deliver.\<close>

definition pager_request :: "u32 \<Rightarrow> u32 \<Rightarrow> u32 \<Rightarrow> u32 \<Rightarrow> L4_Msg_t \<Rightarrow> pager_state \<Rightarrow> effect list \<times> pager_state" where
  "pager_request kip cont t tag msg s =
     (if \<not> L4_IpcSucceeded tag \<or> L4_Label tag \<noteq> PAGER_REQUEST_LABEL then ([Complain], s)
      else
        let req = msg ! 1 in
        if req = THREAD_CREATE then (case thread_create_node s of (tid, out, s) \<Rightarrow> (out @ [Reply t [tid]], s))
        else if req = THREAD_START then
          (case thread_start_node kip cont (msg ! 2) (msg ! 3) (msg ! 4) s of (r, out) \<Rightarrow> (out @ [Reply t [r]], s))
        else if req = THREAD_FREE then pager_free t (msg ! 2) s
        else if req = THREAD_GET_RETVAL then pager_get_retval t (msg ! 2) s
        else if req = THREAD_JOIN_WAIT then pager_join t (msg ! 2) s
        else if req = THREAD_DETACH then pager_detach t (msg ! 2) s
        else ([], s))"

text \<open>The preparation of \<open>pager_thread\<close>: the pool and the first thread.\<close>

definition user_fpage_number :: "user_fpage_t list \<Rightarrow> nat" where
  "user_fpage_number fps = length (takeWhile (\<lambda>f. ufp_base f \<noteq> 0 \<or> ufp_size f \<noteq> 0) fps)"

definition pager_boot :: "u32 \<Rightarrow> u32 \<Rightarrow> user_struct \<Rightarrow> u32 \<Rightarrow> pager_state \<Rightarrow> effect list \<times> pager_state option" where
  "pager_boot kip cont user entry_main s =
     (if user_fpage_number (us_fpages user) < 2 then ([Complain], None)
      else case init_thread_pool (us_thread_num user) (ufp_base (us_fpages user ! 0)) (ufp_size (us_fpages user ! 0)) s of
        None \<Rightarrow> ([Complain], None)
      | Some s \<Rightarrow>
          (case thread_create_node s of (main_tid, out, s) \<Rightarrow>
             (out @ snd (thread_start_node kip cont main_tid entry_main 0 s), Some s)))"

subsection \<open>Client calls\<close>

text \<open>The calls of a thread to its pager. \<open>call\<close> stands for the rendezvous \<open>L4_MsgLoad; L4_Call (L4_Pager ())\<close>: from the
  request message to the returned tag and the caller's registers. The last instruction of a thread, in
  \<open>thread_container\<close>, is a plain send of the value its function returned.\<close>

abbreviation (input) PAGER_REPLY_LABEL :: u32 where "PAGER_REPLY_LABEL \<equiv> 0xF001"

definition pager_msg :: "u32 \<Rightarrow> u32 list \<Rightarrow> L4_Msg_t \<Rightarrow> L4_Msg_t result" where
  "pager_msg label ws msg = rfold L4_MsgAppendWord ws (L4_Set_MsgLabel label (L4_MsgClear msg))"

type_synonym pager_call = "L4_Msg_t \<Rightarrow> u32 \<times> utcb_t"

definition pager_create_thread :: "pager_call \<Rightarrow> L4_Msg_t \<Rightarrow> u32 result" where
  "pager_create_thread call msg = rbind (pager_msg PAGER_REQUEST_LABEL [THREAD_CREATE] msg) (\<lambda>m.
     case call m of (tag, u) \<Rightarrow> Ok (if L4_Label tag = PAGER_REPLY_LABEL then L4_StoreMR 1 u else 0))"

definition pager_start_thread :: "pager_call \<Rightarrow> u32 \<Rightarrow> u32 \<Rightarrow> u32 \<Rightarrow> L4_Msg_t \<Rightarrow> u32 result" where
  "pager_start_thread call tid thr_routine arg msg =
     rbind (pager_msg PAGER_REQUEST_LABEL [THREAD_START, tid, thr_routine, arg] msg) (\<lambda>m.
     case call m of (tag, u) \<Rightarrow> Ok (if L4_Label tag = PAGER_REPLY_LABEL then L4_StoreMR 1 u else -1))"

definition pager_get_thread_retval :: "pager_call \<Rightarrow> u32 \<Rightarrow> L4_Msg_t \<Rightarrow> u32 result" where
  "pager_get_thread_retval call tid msg = rbind (pager_msg PAGER_REQUEST_LABEL [THREAD_GET_RETVAL, tid] msg) (\<lambda>m.
     case call m of (tag, u) \<Rightarrow> Ok (if L4_Label tag = PAGER_REPLY_LABEL then L4_StoreMR 1 u else 0))"

definition pager_thread_join :: "pager_call \<Rightarrow> u32 \<Rightarrow> L4_Msg_t \<Rightarrow> (int \<times> u32 option) result" where
  "pager_thread_join call tid msg = rbind (pager_msg PAGER_REQUEST_LABEL [THREAD_JOIN_WAIT, tid] msg) (\<lambda>m.
     case call m of (tag, u) \<Rightarrow>
       Ok (if L4_Label tag = PAGER_REPLY_LABEL
           then let status = L4_StoreMR 1 u; res = L4_StoreMR 2 u
                in if status \<noteq> 0 then (sint status, None) else (0, Some res)
           else (-1, None)))"

definition pager_thread_detach :: "pager_call \<Rightarrow> u32 \<Rightarrow> L4_Msg_t \<Rightarrow> int result" where
  "pager_thread_detach call tid msg = rbind (pager_msg PAGER_REQUEST_LABEL [THREAD_DETACH, tid] msg) (\<lambda>m.
     case call m of (tag, u) \<Rightarrow> Ok (if L4_Label tag = PAGER_REPLY_LABEL then 0 else -1))"

definition thread_container_exit :: "u32 \<Rightarrow> L4_Msg_t \<Rightarrow> L4_Msg_t result" where
  "thread_container_exit retval msg = pager_msg PAGER_REQUEST_LABEL [THREAD_FREE, retval] msg"

subsection \<open>The pool is an element pool\<close>

definition pool_ok :: "pager_state \<Rightarrow> bool" where
  "pool_ok s \<longleftrightarrow> length (all_nodes s) = THREAD_MAX_NUM \<and> 1 \<le> node_num s \<and> node_num s \<le> THREAD_MAX_NUM"

definition pool_slots :: "pager_state \<Rightarrow> nat set" where "pool_slots s = {1..<node_num s}"

definition pool_used :: "pager_state \<Rightarrow> nat set" where
  "pool_used s = {i \<in> pool_slots s. IS_THREAD_NODE_USED (all_nodes s ! i)}"

definition pool_alloc :: "pager_state \<Rightarrow> nat \<times> pager_state" where
  "pool_alloc s = (fetch_free_thread_index s, snd (snd (thread_create_node s)))"

definition pool_free :: "pager_state \<Rightarrow> nat \<Rightarrow> pager_state" where
  "pool_free s i = node_upd i free_thread_node s"

lemma node_flags [simp]:
  "IS_THREAD_NODE_USED (use_thread_node n)" "\<not> IS_THREAD_NODE_USED (free_thread_node n)"
  "tn_tid (use_thread_node n) = tn_tid n" "tn_exited (use_thread_node n) = tn_exited n"
proof -
  have "bit ((tn_base n OR 1) AND 1) 0" by (simp add: bit_simps)
  then have "(tn_base n OR 1) AND 1 \<noteq> 0" by (metis bit_0_eq bot_apply bot_bool_def)
  then show "IS_THREAD_NODE_USED (use_thread_node n)" by (simp add: IS_THREAD_NODE_USED_def use_thread_node_def)
  show "\<not> IS_THREAD_NODE_USED (free_thread_node n)" by (simp add: IS_THREAD_NODE_USED_def free_thread_node_def and.assoc)
qed (simp_all add: use_thread_node_def)

lemma node_upd_sel [simp]:
  "node_num (node_upd i f s) = node_num s" "pager_tid (node_upd i f s) = pager_tid s" "pg_waiters (node_upd i f s) = pg_waiters s"
  "length (all_nodes (node_upd i f s)) = length (all_nodes s)" "pool_slots (node_upd i f s) = pool_slots s"
  by (simp_all add: node_upd_def pool_slots_def)

lemma node_upd_nth: "i < length (all_nodes s) \<Longrightarrow> all_nodes (node_upd i f s) ! k = (if k = i then f (all_nodes s ! i) else all_nodes s ! k)"
  by (simp add: node_upd_def nth_list_update)

lemma find_upt_SomeD: "find P [a..<b] = Some n \<Longrightarrow> a \<le> n \<and> n < b \<and> P n"
  by (auto simp: find_Some_iff)

lemma fetch_cases:
  assumes "pool_ok s"
  obtains "fetch_free_thread_index s = 0" "pool_used s = pool_slots s"
  | i where "fetch_free_thread_index s = i" "i \<in> pool_slots s" "i \<notin> pool_used s" "i \<noteq> 0" "i < length (all_nodes s)"
proof (cases "find (\<lambda>i. \<not> IS_THREAD_NODE_USED (all_nodes s ! i)) [1..<node_num s]")
  case None
  then have "fetch_free_thread_index s = 0" using assms unfolding fetch_free_thread_index_def None by (simp add: Let_def pool_ok_def)
  moreover have "pool_used s = pool_slots s" using None by (auto simp: pool_used_def pool_slots_def find_None_iff)
  ultimately show thesis by (rule that(1))
next
  case (Some i)
  then have "1 \<le> i \<and> i < node_num s \<and> \<not> IS_THREAD_NODE_USED (all_nodes s ! i)" by (rule find_upt_SomeD)
  then show thesis using assms Some
    by (intro that(2) [of i]) (auto simp: fetch_free_thread_index_def pool_ok_def pool_used_def pool_slots_def)
qed

lemma thread_create_node_eq:
  "thread_create_node s = (let i = fetch_free_thread_index s; child = pager_tid s + push_bit 14 (of_nat i);
     s' = node_upd i (\<lambda>n. use_thread_node (n\<lparr>tn_tid := child, tn_retval := 0, tn_exited := False, tn_detached := False\<rparr>)) s in
   if i = 0 then (0, [Complain], s)
   else (child, [Control child (pager_tid s) 0 (pager_tid s) (THREAD_NODE_BASE (all_nodes s' ! i))], s'))"
  by (simp add: thread_create_node_def Let_def)

interpretation pg: slot_pool pool_ok pool_slots pool_used pool_alloc pool_free 0
proof
  fix s x s' assume ok: "pool_ok s"
  show "finite (pool_slots s)" "pool_used s \<subseteq> pool_slots s" "0 \<notin> pool_slots s" by (auto simp: pool_slots_def pool_used_def)
  { assume a: "pool_alloc s = (x, s')"
    show "pool_ok s' \<and> pool_slots s' = pool_slots s"
      using a ok by (auto simp: pool_alloc_def thread_create_node_eq Let_def pool_ok_def split: if_splits)
    assume x: "x \<noteq> 0"
    show "x \<in> pool_slots s \<and> x \<notin> pool_used s \<and> pool_used s' = insert x (pool_used s)"
    proof (rule fetch_cases [OF ok])
      fix i assume i: "fetch_free_thread_index s = i" "i \<in> pool_slots s" "i \<notin> pool_used s" "i \<noteq> 0" "i < length (all_nodes s)"
      then have "pool_used s' = insert i (pool_used s)"
        using a by (auto simp: pool_alloc_def thread_create_node_eq Let_def pool_used_def node_upd_nth)
      then show ?thesis using a i by (auto simp: pool_alloc_def)
    qed (use a x in \<open>auto simp: pool_alloc_def\<close>) }
  { assume a: "pool_alloc s = (0, s')"
    show "pool_used s = pool_slots s \<and> s' = s"
    proof (rule fetch_cases [OF ok])
      assume "fetch_free_thread_index s = 0" "pool_used s = pool_slots s"
      then show ?thesis using a by (simp add: pool_alloc_def thread_create_node_eq)
    qed (use a in \<open>auto simp: pool_alloc_def\<close>) }
  assume x: "x \<in> pool_slots s"
  then have "x < length (all_nodes s)" using ok by (auto simp: pool_slots_def pool_ok_def)
  then show "pool_used (pool_free s x) = pool_used s - {x}" "pool_ok (pool_free s x) \<and> pool_slots (pool_free s x) = pool_slots s"
    using ok by (auto simp: pool_free_def pool_used_def node_upd_nth) (auto simp: pool_ok_def)
qed

subsection \<open>Joining a thread\<close>

text \<open>Every node in use carries the identifier that belongs to its position.\<close>

definition node_tid :: "u32 \<Rightarrow> nat \<Rightarrow> u32" where "node_tid p i = p + push_bit 14 (of_nat i)"

definition pool_inv :: "pager_state \<Rightarrow> bool" where
  "pool_inv s \<longleftrightarrow> pool_ok s \<and> length (pg_waiters s) = PG_MAX_WAITERS \<and>
     (\<forall>i \<in> pool_used s. tn_tid (all_nodes s ! i) = node_tid (pager_tid s) i)"

lemma node_tid_index:
  assumes "i < 32"
  shows "unat (drop_bit 14 (node_tid p i - p)) = i"
proof -
  have "push_bit 14 (of_nat i :: u32) = of_nat (i * 2 ^ 14)" by (simp add: push_bit_eq_mult)
  moreover have "unat (of_nat (i * 2 ^ 14) :: u32) = i * 2 ^ 14" using assms by (intro u32_unat_of_nat) simp
  ultimately show ?thesis by (simp only: node_tid_def add_diff_cancel_left' unat_u32_shift) simp
qed

lemma node_tid_inj: "i < 32 \<Longrightarrow> j < 32 \<Longrightarrow> node_tid p i = node_tid p j \<Longrightarrow> i = j"
  using node_tid_index by metis

lemma find_node_SomeD: "find_thread_node s tid = Some i \<Longrightarrow> i \<in> pool_used s \<and> tn_tid (all_nodes s ! i) = tid"
  unfolding find_thread_node_def by (drule find_upt_SomeD) (simp add: pool_used_def pool_slots_def)

lemma find_node_eq:
  assumes inv: "pool_inv s" and i: "i \<in> pool_used s"
  shows "find_thread_node s (node_tid (pager_tid s) i) = Some i"
  unfolding find_thread_node_def
proof (rule find_upt)
  have b: "k \<in> pool_used s \<Longrightarrow> k < 32" for k using inv by (auto simp: pool_used_def pool_slots_def pool_inv_def pool_ok_def)
  show "tn_tid (all_nodes s ! i) = node_tid (pager_tid s) i \<and> IS_THREAD_NODE_USED (all_nodes s ! i)"
    using inv i by (simp add: pool_inv_def) (simp add: pool_used_def)
  fix k assume k: "1 \<le> k" "k < i"
  show "\<not> (tn_tid (all_nodes s ! k) = node_tid (pager_tid s) i \<and> IS_THREAD_NODE_USED (all_nodes s ! k))"
  proof
    assume a: "tn_tid (all_nodes s ! k) = node_tid (pager_tid s) i \<and> IS_THREAD_NODE_USED (all_nodes s ! k)"
    then have u: "k \<in> pool_used s" using k i by (auto simp: pool_used_def pool_slots_def)
    then have "node_tid (pager_tid s) k = node_tid (pager_tid s) i" using a inv by (simp add: pool_inv_def)
    then show False using node_tid_inj [OF b [OF u] b [OF i]] k by simp
  qed
qed (use i in \<open>auto simp: pool_used_def pool_slots_def\<close>)

text \<open>Node \<open>i\<close> runs and the thread \<open>a\<close>, in entry \<open>j\<close> of the wait queue, is the only one that waits for it.\<close>

definition joining :: "u32 \<Rightarrow> nat \<Rightarrow> nat \<Rightarrow> u32 \<Rightarrow> pager_state \<Rightarrow> bool" where
  "joining p i j a s \<longleftrightarrow> pool_inv s \<and> pager_tid s = p \<and> i \<in> pool_used s \<and> \<not> tn_exited (all_nodes s ! i) \<and> j < PG_MAX_WAITERS \<and>
     (let K = WAIT_KEY WT_JOIN (node_tid p i) in
      pg_waiters s ! j = \<lparr>we_tid = a, we_resource = K, we_valid = True\<rparr> \<and>
      (\<forall>k < PG_MAX_WAITERS. k \<noteq> j \<longrightarrow> we_valid (pg_waiters s ! k) \<longrightarrow> we_resource (pg_waiters s ! k) \<noteq> K))"

text \<open>Requests that do not concern the thread: it does not exit itself, nobody else joins it, and no stranger whose
  identifier differs from it only in the version or in the upper bits reports an exit.\<close>

definition apart :: "u32 \<Rightarrow> nat \<Rightarrow> u32 \<times> u32 \<times> L4_Msg_t \<Rightarrow> bool" where
  "apart p i r = (case r of (t, tag, msg) \<Rightarrow>
     (msg ! 1 = THREAD_FREE \<longrightarrow> unat (drop_bit 14 (t - p)) \<noteq> i \<and> WAIT_KEY WT_JOIN t \<noteq> WAIT_KEY WT_JOIN (node_tid p i)) \<and>
     (msg ! 1 = THREAD_JOIN_WAIT \<longrightarrow> WAIT_KEY WT_JOIN (msg ! 2) \<noteq> WAIT_KEY WT_JOIN (node_tid p i)))"

fun pager_turns :: "u32 \<Rightarrow> u32 \<Rightarrow> (u32 \<times> u32 \<times> L4_Msg_t) list \<Rightarrow> pager_state \<Rightarrow> pager_state" where
  "pager_turns kip cont [] s = s"
| "pager_turns kip cont ((t, tag, msg) # rs) s = pager_turns kip cont rs (snd (pager_request kip cont t tag msg s))"

lemma used_bound: "pool_inv s \<Longrightarrow> k \<in> pool_used s \<Longrightarrow> k < 32 \<and> k < length (all_nodes s) \<and> k < node_num s \<and> k \<noteq> 0"
  by (auto simp: pool_inv_def pool_ok_def pool_used_def pool_slots_def)

lemma joining_node_upd:
  assumes J: "joining p i j a s" and k: "k < length (all_nodes s)"
    and f: "IS_THREAD_NODE_USED (f (all_nodes s ! k)) \<Longrightarrow>
        k \<notin> pool_slots s \<or> tn_tid (f (all_nodes s ! k)) = node_tid p k"
    and i: "k = i \<Longrightarrow> IS_THREAD_NODE_USED (f (all_nodes s ! i)) \<and> \<not> tn_exited (f (all_nodes s ! i))"
  shows "joining p i j a (node_upd k f s)"
  using J f i unfolding joining_def pool_inv_def Let_def
  by (auto simp: pool_used_def node_upd_nth [OF k]) (simp_all add: pool_ok_def)

lemma joining_waiters:
  assumes J: "joining p i j a s" and same: "all_nodes s' = all_nodes s" "node_num s' = node_num s" "pager_tid s' = pager_tid s"
    and w: "pg_waiters s' = (pg_waiters s)[k := e]" "k < PG_MAX_WAITERS" "k \<noteq> j"
    and e: "we_valid e \<Longrightarrow> we_resource e \<noteq> WAIT_KEY WT_JOIN (node_tid p i)"
  shows "joining p i j a s'"
  using J w e unfolding joining_def pool_inv_def Let_def pool_ok_def pool_used_def pool_slots_def same
  by (auto simp: nth_list_update)

lemma joiningD:
  assumes "joining p i j a s"
  shows "pool_inv s" "pager_tid s = p" "i \<in> pool_used s" "\<not> tn_exited (all_nodes s ! i)" "j < PG_MAX_WAITERS"
    "pg_waiters s ! j = \<lparr>we_tid = a, we_resource = WAIT_KEY WT_JOIN (node_tid p i), we_valid = True\<rparr>"
    "\<And>k. k < PG_MAX_WAITERS \<Longrightarrow> k \<noteq> j \<Longrightarrow> we_valid (pg_waiters s ! k) \<Longrightarrow> we_resource (pg_waiters s ! k) \<noteq> WAIT_KEY WT_JOIN (node_tid p i)"
  using assms by (auto simp: joining_def Let_def)

lemma joining_release:
  assumes J: "joining p i j a s" and t: "unat (drop_bit 14 (t - p)) \<noteq> i"
  shows "joining p i j a (snd (release_thread t s))"
proof (cases "node_num s \<le> unat (find_thread_index s t)")
  case False
  then have "unat (find_thread_index s t) < length (all_nodes s)" using joiningD(1) [OF J] by (simp add: pool_inv_def pool_ok_def)
  then show ?thesis using False t
    by (auto simp: release_thread_def Let_def find_thread_index_def joiningD(2) [OF J] intro!: joining_node_upd [OF J])
qed (use J in \<open>simp add: release_thread_def\<close>)

lemma found_index:
  assumes "pool_inv s" "find_thread_node s t = Some k"
  shows "unat (drop_bit 14 (t - pager_tid s)) = k" "k < length (all_nodes s)" "tn_tid (all_nodes s ! k) = node_tid (pager_tid s) k"
proof -
  have u: "k \<in> pool_used s" "tn_tid (all_nodes s ! k) = t" using find_node_SomeD [OF assms(2)] by auto
  then show "tn_tid (all_nodes s ! k) = node_tid (pager_tid s) k" using assms(1) by (simp add: pool_inv_def)
  with u show "unat (drop_bit 14 (t - pager_tid s)) = k" using node_tid_index [of k "pager_tid s"] used_bound [OF assms(1) u(1)] by simp
  show "k < length (all_nodes s)" using used_bound [OF assms(1) u(1)] by simp
qed

lemma joining_pop:
  assumes J: "joining p i j a s" and K: "K \<noteq> WAIT_KEY WT_JOIN (node_tid p i)"
  shows "joining p i j a (snd (pop_waiter K s))"
proof (cases "find (\<lambda>i. we_valid (pg_waiters s ! i) \<and> we_resource (pg_waiters s ! i) = K) [0..<PG_MAX_WAITERS]")
  case (Some k)
  from find_upt_SomeD [OF Some] have k: "k < PG_MAX_WAITERS" "we_resource (pg_waiters s ! k) = K" by auto
  then have "k \<noteq> j" using K joiningD(6) [OF J] by auto
  show ?thesis unfolding pop_waiter_def Some by (auto intro!: joining_waiters [OF J _ _ _ _ k(1) \<open>k \<noteq> j\<close>])
qed (use J in \<open>simp add: pop_waiter_def\<close>)

lemma joining_add:
  assumes J: "joining p i j a s" and K: "K \<noteq> WAIT_KEY WT_JOIN (node_tid p i)"
  shows "joining p i j a (snd (add_waiter K t s))"
proof (cases "find (\<lambda>i. \<not> we_valid (pg_waiters s ! i)) [0..<PG_MAX_WAITERS]")
  case (Some k)
  from find_upt_SomeD [OF Some] have k: "k < PG_MAX_WAITERS" "\<not> we_valid (pg_waiters s ! k)" by auto
  then have "k \<noteq> j" using joiningD(6) [OF J] by auto
  show ?thesis unfolding add_waiter_def Some using K by (auto intro!: joining_waiters [OF J _ _ _ _ k(1) \<open>k \<noteq> j\<close>])
qed (use J in \<open>simp add: add_waiter_def\<close>)

lemma joining_create:
  assumes J: "joining p i j a s"
  shows "joining p i j a (snd (snd (thread_create_node s)))"
proof (rule fetch_cases [of s])
  show "pool_ok s" using joiningD(1) [OF J] by (simp add: pool_inv_def)
next
  fix k assume k: "fetch_free_thread_index s = k" "k \<in> pool_slots s" "k \<notin> pool_used s" "k \<noteq> 0" "k < length (all_nodes s)"
  then have "k \<noteq> i" using joiningD(3) [OF J] by auto
  with k show ?thesis
    by (auto simp: thread_create_node_eq Let_def node_tid_def joiningD(2) [OF J] intro!: joining_node_upd [OF J])
qed (use J in \<open>simp add: thread_create_node_eq\<close>)

lemma joining_mark:
  assumes J: "joining p i j a s" and k: "find_thread_node s t = Some k"
    and f: "\<And>n. tn_base (f n) = tn_base n" "\<And>n. tn_tid (f n) = tn_tid n" and i: "k = i \<Longrightarrow> \<not> tn_exited (f (all_nodes s ! i))"
  shows "joining p i j a (node_upd k f s)"
  using found_index [OF joiningD(1) [OF J] k] i joiningD(2,3) [OF J] f
  by (intro joining_node_upd [OF J]) (auto simp: IS_THREAD_NODE_USED_def pool_used_def)

lemma joining_free:
  assumes J: "joining p i j a s" and t: "unat (drop_bit 14 (t - p)) \<noteq> i" "WAIT_KEY WT_JOIN t \<noteq> WAIT_KEY WT_JOIN (node_tid p i)"
  shows "joining p i j a (snd (pager_free t v s))"
proof -
  define s1 where "s1 = (case find_thread_node s t of Some i \<Rightarrow> node_upd i (\<lambda>n. n\<lparr>tn_retval := v, tn_exited := True\<rparr>) s | None \<Rightarrow> s)"
  have "joining p i j a s1"
    using t(1) found_index(1) [OF joiningD(1) [OF J], of t] J
    by (auto simp: s1_def joiningD(2) [OF J] split: option.split intro!: joining_mark [OF J])
  then have 2: "joining p i j a (snd (pop_waiter (WAIT_KEY WT_JOIN t) s1))" using t(2) by (rule joining_pop)
  then show ?thesis using joining_release [OF 2 t(1)]
    by (auto simp: pager_free_def Let_def s1_def [symmetric] split: prod.split)
qed

lemma joining_get_retval:
  assumes J: "joining p i j a s"
  shows "joining p i j a (snd (pager_get_retval t q s))"
proof (cases "find_thread_node s q")
  case (Some k)
  show ?thesis
  proof (cases "tn_exited (all_nodes s ! k)")
    case True
    then have "joining p i j a (snd (release_thread q s))"
      using found_index(1) [OF joiningD(1) [OF J] Some] joiningD(2,4) [OF J] by (intro joining_release [OF J]) auto
    then show ?thesis using Some True by (simp add: pager_get_retval_def case_prod_beta)
  qed (use J Some in \<open>simp add: pager_get_retval_def\<close>)
qed (use J in \<open>simp add: pager_get_retval_def\<close>)

lemma joining_join:
  assumes J: "joining p i j a s" and K: "WAIT_KEY WT_JOIN q \<noteq> WAIT_KEY WT_JOIN (node_tid p i)"
  shows "joining p i j a (snd (pager_join t q s))"
proof (cases "find_thread_node s q")
  case (Some k)
  show ?thesis
  proof (cases "tn_exited (all_nodes s ! k)")
    case True
    then have "joining p i j a (snd (release_thread q s))"
      using found_index(1) [OF joiningD(1) [OF J] Some] joiningD(2,4) [OF J] by (intro joining_release [OF J]) auto
    then show ?thesis using Some True by (simp add: pager_join_def case_prod_beta)
  qed (use joining_add [OF J K, of t] Some in \<open>simp add: pager_join_def case_prod_beta\<close>)
qed (use J in \<open>simp add: pager_join_def\<close>)

lemma joining_detach:
  assumes J: "joining p i j a s"
  shows "joining p i j a (snd (pager_detach t q s))"
proof (cases "find_thread_node s q")
  case (Some k)
  define s1 where "s1 = node_upd k (\<lambda>n. n\<lparr>tn_detached := True\<rparr>) s"
  have J1: "joining p i j a s1" unfolding s1_def using joiningD(4) [OF J] by (auto intro!: joining_mark [OF J Some])
  show ?thesis
  proof (cases "tn_exited (all_nodes s1 ! k)")
    case True
    then have "joining p i j a (snd (release_thread q s1))"
      using found_index(1) [OF joiningD(1) [OF J] Some] joiningD(2) [OF J] joiningD(4) [OF J1] by (intro joining_release [OF J1]) auto
    then show ?thesis using Some True by (simp add: pager_detach_def s1_def [symmetric] Let_def case_prod_beta)
  qed (use J1 Some in \<open>simp add: pager_detach_def s1_def [symmetric] Let_def\<close>)
qed (use J in \<open>simp add: pager_detach_def\<close>)

lemma joining_request:
  assumes J: "joining p i j a s" and ap: "apart p i (t, tag, msg)"
  shows "joining p i j a (snd (pager_request kip cont t tag msg s))"
  using J ap joining_create [OF J] joining_free [OF J] joining_get_retval [OF J] joining_join [OF J] joining_detach [OF J]
  unfolding pager_request_def apart_def
  by (simp add: Let_def case_prod_beta)

lemma joining_turns: "joining p i j a s \<Longrightarrow> list_all (apart p i) rs \<Longrightarrow> joining p i j a (pager_turns kip cont rs s)"
  by (induction kip cont rs s rule: pager_turns.induct) (simp_all add: joining_request)

lemma joining_exit:
  assumes J: "joining p i j a s" and a: "a \<noteq> 0"
  shows "fst (pager_free (node_tid p i) v s) = [Reply a [0, v], Control (node_tid p i) 0 0 0 (-1)] \<and>
    pool_used (snd (pager_free (node_tid p i) v s)) = pool_used s - {i} \<and> pool_inv (snd (pager_free (node_tid p i) v s))"
proof -
  note D = joiningD [OF J]
  have b: "i < 32" "i < length (all_nodes s)" "i < node_num s" using used_bound [OF D(1,3)] by auto
  let ?s1 = "node_upd i (\<lambda>n. n\<lparr>tn_retval := v, tn_exited := True\<rparr>) s"
  let ?s2 = "?s1\<lparr>pg_waiters := (pg_waiters s)[j := (pg_waiters s ! j)\<lparr>we_valid := False\<rparr>], waiter_count := waiter_count ?s1 - 1\<rparr>"
  have "find_thread_node s (node_tid p i) = Some i" using find_node_eq [OF D(1,3)] D(2) by simp
  moreover have "pop_waiter (WAIT_KEY WT_JOIN (node_tid p i)) ?s1 = (a, ?s2)"
  proof -
    have "find (\<lambda>k. we_valid (pg_waiters s ! k) \<and> we_resource (pg_waiters s ! k) = WAIT_KEY WT_JOIN (node_tid p i)) [0..<PG_MAX_WAITERS] = Some j"
      using D(5-7) by (intro find_upt) auto
    then show ?thesis unfolding pop_waiter_def node_upd_sel by (simp add: D(6))
  qed
  moreover have "release_thread (node_tid p i) ?s2 = ([Control (node_tid p i) 0 0 0 (-1)], node_upd i free_thread_node ?s2)"
    using b node_tid_index [OF b(1), of p] D(2) by (simp add: release_thread_def find_thread_index_def Let_def)
  ultimately have E: "pager_free (node_tid p i) v s = ([Reply a [0, v], Control (node_tid p i) 0 0 0 (-1)], node_upd i free_thread_node ?s2)"
    using a by (simp add: pager_free_def)
  have n: "all_nodes (node_upd i free_thread_node ?s2) ! k = (if k = i then free_thread_node (all_nodes ?s1 ! i) else all_nodes s ! k)" for k
    using b by (simp add: node_upd_def nth_list_update)
  have u: "pool_used (node_upd i free_thread_node ?s2) = pool_used s - {i}"
    unfolding pool_used_def n by (auto simp: pool_slots_def)
  have "pool_inv (node_upd i free_thread_node ?s2)"
    using D(1) unfolding pool_inv_def u n by (simp add: pool_ok_def)
  then show ?thesis using E u by simp
qed

text \<open>A join that finds the thread running, a free entry in the queue and no other waiter for the thread.\<close>

lemma pager_join_establishes:
  assumes inv: "pool_inv s" and i: "i \<in> pool_used s" "\<not> tn_exited (all_nodes s ! i)"
    and j: "find (\<lambda>i. \<not> we_valid (pg_waiters s ! i)) [0..<PG_MAX_WAITERS] = Some j"
    and alone: "\<forall>k < PG_MAX_WAITERS. we_valid (pg_waiters s ! k) \<longrightarrow>
      we_resource (pg_waiters s ! k) \<noteq> WAIT_KEY WT_JOIN (node_tid (pager_tid s) i)"
  shows "fst (pager_join a (node_tid (pager_tid s) i) s) = [] \<and>
    joining (pager_tid s) i j a (snd (pager_join a (node_tid (pager_tid s) i) s))"
proof -
  let ?K = "WAIT_KEY WT_JOIN (node_tid (pager_tid s) i)"
  let ?s' = "s\<lparr>pg_waiters := (pg_waiters s)[j := \<lparr>we_tid = a, we_resource = ?K, we_valid = True\<rparr>], waiter_count := waiter_count s + 1\<rparr>"
  have "pager_join a (node_tid (pager_tid s) i) s = ([], ?s')"
    using find_node_eq [OF inv i(1)] i(2) j by (simp add: pager_join_def add_waiter_def)
  moreover have "joining (pager_tid s) i j a ?s'"
    using inv i alone find_upt_SomeD [OF j] unfolding joining_def pool_inv_def Let_def
    by (auto simp: nth_list_update pool_used_def pool_slots_def pool_ok_def)
  ultimately show ?thesis by simp
qed

subsection \<open>Messages between a thread and its pager\<close>

lemma append_words_flags:
  assumes "msg_ok msg" "typed_of msg = []" "length (untyped_of msg) + length ws < L4_NUM_MRS" "rfold L4_MsgAppendWord ws msg = Ok m"
  shows "bits 12 4 (m ! 0) = bits 12 4 (msg ! 0)"
  using assms
proof (induction ws arbitrary: msg)
  case (Cons w ws)
  have l: "length (untyped_of msg) = msg_u msg" "msg_t msg = 0"
    using Cons.prems(1,2) by (auto simp: untyped_of_def typed_of_def msg_ok_def)
  obtain m1 where m1: "L4_MsgAppendWord w msg = Ok m1" "msg_ok m1" "untyped_of m1 = untyped_of msg @ [w]" "typed_of m1 = []"
      "m1 ! 0 = put_bits 0 6 (bits 0 6 (msg ! 0) + 1) (msg ! 0)"
    using L4_MsgAppendWord_spec [OF Cons.prems(1), of w] Cons.prems(2,3) l by auto
  have "bits 12 4 (m ! 0) = bits 12 4 (m1 ! 0)" using Cons.IH [OF m1(2,4)] m1(1,3) Cons.prems(3,4) by simp
  then show ?case by (simp add: m1(5) bits_put_bits_other)
qed simp

lemma pager_msg_spec:
  assumes "length msg = L4_NUM_MRS" "unat l < 2 ^ 16" "length ws < L4_NUM_MRS"
  shows "\<exists>m. pager_msg l ws msg = Ok m \<and> L4_Label (m ! 0) = l \<and> L4_IpcSucceeded (m ! 0) \<and> (\<forall>i < length ws. m ! Suc i = ws ! i)"
proof -
  note c = msg_ok_cleared [OF assms(1,2)]
  obtain m where m: "rfold L4_MsgAppendWord ws (L4_Set_MsgLabel l (L4_MsgClear msg)) = Ok m" "msg_ok m" "untyped_of m = ws" "L4_MsgLabel m = l"
    using append_words [OF c(1,3), of ws] c(2,4) assms(3) by auto
  have "bits 12 4 (m ! 0) = 0" using append_words_flags [OF c(1,3) _ m(1)] c(2,5) assms(3) by (simp add: bits_put_bits_other)
  moreover have "length ws = msg_u m" using m(2,3) by (auto simp: untyped_of_def msg_ok_def)
  ultimately show ?thesis using m untyped_nth [OF m(2)] by (auto simp: pager_msg_def L4_MsgLabel_def L4_IpcSucceeded_def)
qed

lemma request_two:
  assumes "length buf = L4_NUM_MRS"
  shows "\<exists>m. pager_msg PAGER_REQUEST_LABEL [r, x] buf = Ok m \<and> L4_IpcSucceeded (m ! 0) \<and> L4_Label (m ! 0) = PAGER_REQUEST_LABEL \<and>
    m ! 1 = r \<and> m ! 2 = x"
proof -
  obtain m where m: "pager_msg PAGER_REQUEST_LABEL [r, x] buf = Ok m" "L4_Label (m ! 0) = PAGER_REQUEST_LABEL" "L4_IpcSucceeded (m ! 0)"
      "\<And>i. i < length [r, x] \<Longrightarrow> m ! Suc i = [r, x] ! i"
    using pager_msg_spec [OF assms, of PAGER_REQUEST_LABEL "[r, x]"] by auto
  then show ?thesis using m(4) [of 0] m(4) [of 1] by (auto simp: numeral_2_eq_2)
qed

lemma requests_decoded:
  assumes "length buf = L4_NUM_MRS"
  shows "\<exists>m. pager_msg PAGER_REQUEST_LABEL [THREAD_JOIN_WAIT, t] buf = Ok m \<and> pager_request kip cont a (m ! 0) m s = pager_join a t s"
    "\<exists>m. thread_container_exit v buf = Ok m \<and> pager_request kip cont a (m ! 0) m s = pager_free a v s"
proof -
  obtain m where "pager_msg PAGER_REQUEST_LABEL [THREAD_JOIN_WAIT, t] buf = Ok m" "L4_IpcSucceeded (m ! 0)"
      "L4_Label (m ! 0) = PAGER_REQUEST_LABEL" "m ! 1 = THREAD_JOIN_WAIT" "m ! 2 = t"
    using request_two [OF assms] by blast
  then show "\<exists>m. pager_msg PAGER_REQUEST_LABEL [THREAD_JOIN_WAIT, t] buf = Ok m \<and> pager_request kip cont a (m ! 0) m s = pager_join a t s"
    by (intro exI [of _ m]) (simp add: pager_request_def Let_def)
  obtain m where "pager_msg PAGER_REQUEST_LABEL [THREAD_FREE, v] buf = Ok m" "L4_IpcSucceeded (m ! 0)"
      "L4_Label (m ! 0) = PAGER_REQUEST_LABEL" "m ! 1 = THREAD_FREE" "m ! 2 = v"
    using request_two [OF assms] by blast
  then show "\<exists>m. thread_container_exit v buf = Ok m \<and> pager_request kip cont a (m ! 0) m s = pager_free a v s"
    by (intro exI [of _ m]) (simp add: pager_request_def Let_def thread_container_exit_def)
qed


definition pager_demo :: pager_state where
  "pager_demo =
     (let fresh = \<lambda>b t. \<lparr>tn_base = b, tn_tid = t, tn_retval = 0, tn_exited = False, tn_detached = False\<rparr>
      in \<lparr>all_nodes = [fresh 0 0, fresh 0x1901 0x64000, fresh 0x1C01 0x68000, fresh 0x1F01 0x6C000, fresh 0x2200 0] @ replicate 27 (fresh 0 0),
          node_num = 5, pager_tid = 0x60000,
          pg_waiters = replicate PG_MAX_WAITERS \<lparr>we_tid = 0, we_resource = 0, we_valid = False\<rparr>, waiter_count = 0\<rparr>)"

lemma pager_demo_used: "pool_used pager_demo = {1, 2, 3}"
proof -
  have "pool_slots pager_demo = {1, 2, 3, 4}" by (auto simp: pool_slots_def pager_demo_def Let_def)
  then show ?thesis by (auto simp: pool_used_def pager_demo_def Let_def IS_THREAD_NODE_USED_def)
qed

lemma pager_demo_inv: "pool_inv pager_demo"
  unfolding pool_inv_def pager_demo_used by (simp add: pager_demo_def Let_def pool_ok_def node_tid_def push_bit_eq_mult)

lemma pager_demo_queue:
  "find (\<lambda>i. \<not> we_valid (pg_waiters pager_demo ! i)) [0..<PG_MAX_WAITERS] = Some 0"
  "\<forall>k < PG_MAX_WAITERS. \<not> we_valid (pg_waiters pager_demo ! k)"
  by (simp_all add: pager_demo_def Let_def upt_rec)


text \<open>Two threads that join the same thread. Only the first is answered when the thread exits, and the node is freed at
  once. The next thread that is created gets the same node and identifier, and when it exits its value goes to
  the second joiner of the old thread.\<close>

theorem second_joiner_gets_foreign_value:
  fixes v w :: u32
  shows "\<exists>s1 s2 s3 s4 s5.
    pager_join 0x64000 0x6C000 pager_demo = ([], s1) \<and> pager_join 0x68000 0x6C000 s1 = ([], s2) \<and>
    pager_free 0x6C000 v s2 = ([Reply 0x64000 [0, v], Control 0x6C000 0 0 0 (-1)], s3) \<and>
    thread_create_node s3 = (0x6C000, [Control 0x6C000 0x60000 0 0x60000 0x1F00], s4) \<and>
    pager_free 0x6C000 w s4 = ([Reply 0x68000 [0, w], Control 0x6C000 0 0 0 (-1)], s5)"
  by (simp add: pager_demo_def Let_def pager_join_def pager_free_def thread_create_node_def find_thread_node_def add_waiter_def
      pop_waiter_def release_thread_def find_thread_index_def fetch_free_thread_index_def node_upd_def upt_rec WAIT_KEY_def
      IS_THREAD_NODE_USED_def THREAD_NODE_BASE_def use_thread_node_def free_thread_node_def push_bit_eq_mult)

subsection \<open>Memory of the threads\<close>

lemma node_sizes: "NODE_SIZE_ALIGNED = 768" "PAGER_BOOT_RESERVED = 2304"
  by (simp_all add: NODE_SIZE_ALIGNED_def PAGER_BOOT_RESERVED_def)

lemma fill_nodes:
  fixes s :: pager_state and f :: "nat \<Rightarrow> thread_node"
  assumes "n \<le> length (all_nodes s)"
  defines "s' \<equiv> fold (\<lambda>i. node_upd i (\<lambda>_. f i)) [1..<n] s"
  shows "all_nodes s' ! k = (if 1 \<le> k \<and> k < n then f k else all_nodes s ! k) \<and> length (all_nodes s') = length (all_nodes s) \<and>
    node_num s' = node_num s \<and> pager_tid s' = pager_tid s \<and> pg_waiters s' = pg_waiters s"
  using assms(1) unfolding s'_def
proof (induction n arbitrary: k)
  case (Suc n)
  then show ?case by (cases "n = 0") (auto simp: node_upd_nth less_Suc_eq)
qed simp

lemma even_base:
  fixes b :: u32
  assumes "b AND 1 = 0"
  shows "(b + of_nat k * 768) AND 1 = 0" "(b + of_nat k * 768) AND NOT 1 = b + of_nat k * 768"
proof -
  have "even b" using assms by (simp add: and_one_eq mod_2_eq_odd)
  then have e: "even (b + of_nat k * 768)" by simp
  then show "(b + of_nat k * 768) AND 1 = 0" by (simp add: and_one_eq mod_2_eq_odd)
  have "\<not> bit (b + of_nat k * 768) 0" using e by (simp only: bit_0) simp
  then show "(b + of_nat k * 768) AND NOT 1 = b + of_nat k * 768"
    by (intro bit_word_eqI) (auto simp: bit_and_iff bit_not_iff bit_1_iff intro: ccontr)
qed

lemma init_thread_pool_nodes:
  assumes init: "init_thread_pool p base sz s = Some s'" and len: "length (all_nodes s) = THREAD_MAX_NUM"
    and fit: "unat base + unat sz \<le> 2 ^ 32" and i: "1 \<le> i" "i < node_num s'"
  shows "all_nodes s' ! i = \<lparr>tn_base = base + 2304 + of_nat (i - 1) * 768, tn_tid = 0, tn_retval = 0, tn_exited = False, tn_detached = False\<rparr>"
    and "\<not> IS_THREAD_NODE_USED (all_nodes s' ! i)"
    and "unat (THREAD_NODE_BASE (all_nodes s' ! i)) = unat base + 2304 + (i - 1) * 768"
    and "unat base + 2304 + i * 768 \<le> unat base + unat sz"
proof -
  define n where "n = min THREAD_MAX_NUM (unat ((sz - 2304) div 768))"
  have sz: "\<not> sz \<le> 2304" "(base + 2304) AND 1 = 0" and s': "s' = fold (\<lambda>i. node_upd i (\<lambda>_. \<lparr>tn_base = base + 2304 + of_nat (i - 1) * 768,
      tn_tid = 0, tn_retval = 0, tn_exited = False, tn_detached = False\<rparr>)) [1..<n] (s\<lparr>node_num := n, pager_tid := p\<rparr>)"
    using init unfolding init_thread_pool_def node_sizes by (auto simp: Let_def n_def split: if_splits)
  have f: "node_num s' = n" "all_nodes s' ! i = (if 1 \<le> i \<and> i < n then \<lparr>tn_base = base + 2304 + of_nat (i - 1) * 768,
      tn_tid = 0, tn_retval = 0, tn_exited = False, tn_detached = False\<rparr> else all_nodes s ! i)"
    using fill_nodes [of n "s\<lparr>node_num := n, pager_tid := p\<rparr>", where k = i] len by (simp_all add: s' n_def)
  show e: "all_nodes s' ! i = \<lparr>tn_base = base + 2304 + of_nat (i - 1) * 768, tn_tid = 0, tn_retval = 0, tn_exited = False, tn_detached = False\<rparr>"
    using f i by simp
  show "\<not> IS_THREAD_NODE_USED (all_nodes s' ! i)" using even_base(1) [OF sz(2)] by (simp add: e IS_THREAD_NODE_USED_def)
  have "unat (sz - 2304) = unat sz - 2304" using sz(1) by (simp add: unat_sub word_le_nat_alt)
  then have "i * 768 \<le> unat sz - 2304" "i < 32" using i(2) unfolding f(1) n_def by (auto simp: unat_div)
  moreover have "2304 < unat sz" using sz(1) by (simp add: word_le_nat_alt)
  ultimately show b: "unat base + 2304 + i * 768 \<le> unat base + unat sz" by simp
  have "unat (base + 2304 + of_nat (i - 1) * 768) = unat base + 2304 + (i - 1) * 768"
  proof -
    have "base + 2304 + of_nat (i - 1) * 768 = of_nat (unat base + 2304 + (i - 1) * 768)" by simp
    moreover have "unat base + 2304 + (i - 1) * 768 < 2 ^ 32" using b fit i(1) by (cases i) auto
    ultimately show ?thesis using u32_unat_of_nat by presburger
  qed
  then show "unat (THREAD_NODE_BASE (all_nodes s' ! i)) = unat base + 2304 + (i - 1) * 768"
    using even_base(2) [OF sz(2)] by (simp add: e THREAD_NODE_BASE_def)
qed


lemma init_thread_pool_inv:
  assumes init: "init_thread_pool p base sz s = Some s'"
    and len: "length (all_nodes s) = THREAD_MAX_NUM" "length (pg_waiters s) = PG_MAX_WAITERS" and room: "3072 \<le> unat sz"
    and free: "\<And>i. 1 \<le> i \<Longrightarrow> i < node_num s' \<Longrightarrow> \<not> IS_THREAD_NODE_USED (all_nodes s' ! i)"
  shows "pool_inv s'"
proof -
  define n where "n = min THREAD_MAX_NUM (unat ((sz - 2304) div 768))"
  define g where "g = (\<lambda>i. \<lparr>tn_base = base + 2304 + of_nat (i - 1) * 768, tn_tid = 0, tn_retval = 0, tn_exited = False, tn_detached = False\<rparr>)"
  have "s' = fold (\<lambda>i. node_upd i (\<lambda>_. g i)) [1..<n] (s\<lparr>node_num := n, pager_tid := p\<rparr>)"
    using init unfolding init_thread_pool_def node_sizes by (auto simp: Let_def n_def g_def split: if_splits)
  then have "node_num s' = n" "length (all_nodes s') = 32" "length (pg_waiters s') = 16"
    using fill_nodes [of n "s\<lparr>node_num := n, pager_tid := p\<rparr>" g] len by (simp_all add: n_def)
  moreover have "1 \<le> n"
  proof -
    have "unat (sz - 2304) = unat sz - 2304" using room by (subst unat_sub) (auto simp: word_le_nat_alt)
    then show ?thesis using room by (simp add: n_def unat_div)
  qed
  ultimately show ?thesis using free by (auto simp: pool_inv_def pool_ok_def pool_used_def pool_slots_def n_def)
qed

lemma start_stores:
  assumes "Store a w \<in> set (pager_start_effects kip cont t entry arg stk STACK_SIZE)"
  shows "\<exists>d. 4 \<le> d \<and> d \<le> 512 \<and> a = stk - of_nat d"
proof -
  have "a \<in> set (map (\<lambda>d. stk - of_nat d) [512, 32, 28, 24, 20, 16, 12, 8, 4])"
    using assms by (auto simp: pager_start_effects_def Let_def)
  then obtain d where "a = stk - of_nat d" "d \<in> set [512, 32, 28, 24, 20, 16, 12, 8, 4]" unfolding set_map by blast
  then show ?thesis by (intro exI [of _ d]) auto
qed

lemma start_stores_inside:
  assumes st: "Store a w \<in> set (pager_start_effects kip cont t entry arg ((b + UTCB_SIZE + STACK_SIZE) AND NOT 7) STACK_SIZE)"
    and b: "unat b + 656 < 2 ^ 32"
  shows "unat b \<le> unat a" "unat a + 4 \<le> unat b + 656"
proof -
  let ?w = "b + 656" and ?stk = "(b + 656) AND NOT 7"
  have w: "unat ?w = unat b + 656" using b by (simp add: unat_word_ariths)
  have "unat ?stk = unat ?w div 8 * 8" using unat_and_not_low [of 3 ?w] by simp
  then have s: "unat ?stk \<le> unat b + 656" "unat b + 649 \<le> unat ?stk" unfolding w by auto
  obtain d where d: "4 \<le> d" "d \<le> 512" "a = ?stk - of_nat d" using start_stores [OF st] by (auto simp: add.commute)
  have "unat (of_nat d :: u32) = d" using d by (intro u32_unat_of_nat) simp
  then have "unat a = unat ?stk - d" using d s unfolding d(3) by (subst unat_sub) (auto simp: word_le_nat_alt)
  then show "unat b \<le> unat a" "unat a + 4 \<le> unat b + 656" using d s by auto
qed



text \<open>A reserved page between 2305 and 3071 bytes leaves no room for a node. The search for a free node then returns
  node 1, which was never laid out: the first thread gets a control block at address 0.\<close>

definition pager_bss :: pager_state where
  "pager_bss = \<lparr>all_nodes = replicate THREAD_MAX_NUM \<lparr>tn_base = 0, tn_tid = 0, tn_retval = 0, tn_exited = False, tn_detached = False\<rparr>,
     node_num = 0, pager_tid = 0, pg_waiters = replicate PG_MAX_WAITERS \<lparr>we_tid = 0, we_resource = 0, we_valid = False\<rparr>, waiter_count = 0\<rparr>"

lemma small_reserved_page_thread_at_0:
  "\<exists>s'. init_thread_pool 0x60000 0x20008000 2560 pager_bss = Some s' \<and>
    fst (thread_create_node s') = 0x64000 \<and> fst (snd (thread_create_node s')) = [Control 0x64000 0x60000 0 0x60000 0]"
  by (simp add: init_thread_pool_def node_sizes Let_def pager_bss_def thread_create_node_def fetch_free_thread_index_def
      node_upd_def THREAD_NODE_BASE_def use_thread_node_def push_bit_eq_mult)

end
