(* ===== verification/User_Irq.thy ===== *)
theory User_Irq
  imports Pager
begin

text \<open>
  Interrupt handlers of user programs, \<^verbatim>\<open>user/lib/io/user_interrupt.c\<close>: the thread that waits for the messages of the kernel and the
  requests that register, enable, disable and free an interrupt. The system call that sends a request and the calls of the pager are
  arguments. A request is followed into the kernel, whose side is in theory \<open>Interrupt\<close>.
\<close>

subsection \<open>The handler thread\<close>

datatype irq_act = Set_PreemptionDelay u32 | Run_handler u32

text \<open>One round with the received message; \<open>old_threshold\<close> is what the first of the two calls returns. \<open>None\<close> ends the thread.\<close>

definition interrupt_round :: "u32 \<Rightarrow> utcb_t \<Rightarrow> u32 \<Rightarrow> L4_Msg_t \<Rightarrow> irq_act list option result" where
  "interrupt_round tag u old_threshold msg =
     (let msg = L4_MsgStore tag u msg in
      rbind (L4_MsgWord msg IRQ_IPC_HANDLER) (\<lambda>handler.
      rbind (L4_MsgWord msg IRQ_IPC_ACTION) (\<lambda>action.
        Ok (if action = 0 then Some [Set_PreemptionDelay 0, Run_handler handler, Set_PreemptionDelay old_threshold]
            else if action = 2 then None else Some []))))"

fun interrupt_handler_thread :: "(u32 \<times> utcb_t \<times> u32) list \<Rightarrow> L4_Msg_t \<Rightarrow> (irq_act list \<times> bool) result" where
  "interrupt_handler_thread [] msg = Ok ([], False)"
| "interrupt_handler_thread ((tag, u, old) # rs) msg = rbind (interrupt_round tag u old msg) (\<lambda>r.
     case r of None \<Rightarrow> Ok ([], True)
     | Some acts \<Rightarrow> rbind (interrupt_handler_thread rs msg) (\<lambda>(more, ended). Ok (acts @ more, ended)))"

subsection \<open>Requests\<close>

definition irq_msg :: "u32 \<Rightarrow> u32 \<Rightarrow> u32 \<Rightarrow> u32 \<Rightarrow> u16 \<Rightarrow> L4_Msg_t \<Rightarrow> L4_Msg_t result" where
  "irq_msg tid irq handler action prio out_msg =
     L4_MsgPut USER_INTERRUPT_LABEL [irq, tid, handler, action, ucast prio] [] (L4_MsgClear out_msg)"

definition send_irq_request :: "(utcb_t \<Rightarrow> u32) \<Rightarrow> L4_Msg_t \<Rightarrow> utcb_t \<Rightarrow> u32" where
  "send_irq_request send msg u = send (L4_MsgLoad msg u)"

text \<open>The thread routine is passed to the pager as an address, \<open>routine\<close>.\<close>

definition request_irq :: "pager_call \<Rightarrow> (utcb_t \<Rightarrow> u32) \<Rightarrow> u32 \<Rightarrow> u32 \<Rightarrow> u32 \<Rightarrow> u16 \<Rightarrow> L4_Msg_t \<Rightarrow> utcb_t \<Rightarrow> u32 result" where
  "request_irq call send routine irq handler prio msg u =
     rbind (pager_create_thread call msg) (\<lambda>tid.
     rbind (pager_start_thread call tid routine 0 msg) (\<lambda>_.
     rbind (irq_msg tid irq handler 0 prio msg) (\<lambda>m. Ok (send_irq_request send m u))))"

definition enable_irq :: "(utcb_t \<Rightarrow> u32) \<Rightarrow> u32 \<Rightarrow> L4_Msg_t \<Rightarrow> utcb_t \<Rightarrow> u32 result" where
  "enable_irq send irq msg u = rbind (irq_msg 0 irq 0 0 (- 1) msg) (\<lambda>m. Ok (send_irq_request send m u))"

definition disable_irq :: "(utcb_t \<Rightarrow> u32) \<Rightarrow> u32 \<Rightarrow> L4_Msg_t \<Rightarrow> utcb_t \<Rightarrow> u32 result" where
  "disable_irq send irq msg u = rbind (irq_msg 0 irq 0 1 (- 1) msg) (\<lambda>m. Ok (send_irq_request send m u))"

definition free_irq :: "(utcb_t \<Rightarrow> u32) \<Rightarrow> u32 \<Rightarrow> L4_Msg_t \<Rightarrow> utcb_t \<Rightarrow> u32 result" where
  "free_irq send irq msg u = rbind (irq_msg 0 irq 0 2 (- 1) msg) (\<lambda>m. Ok (send_irq_request send m u))"

subsection \<open>A request in the kernel\<close>

lemma irq_msg_spec:
  assumes "length buf = L4_NUM_MRS"
  shows "\<exists>m. irq_msg tid irq handler action prio buf = Ok m \<and> msg_ok m \<and> msg_u m = 5 \<and> msg_t m = 0 \<and> tag_label (m ! 0) = USER_INTERRUPT_LABEL \<and>
    m ! 1 = irq \<and> m ! 2 = tid \<and> m ! 3 = handler \<and> m ! 4 = action \<and> m ! 5 = ucast prio"
proof -
  let ?ws = "[irq, tid, handler, action, ucast prio]"
  obtain m where m: "L4_MsgPut 0x928 ?ws [] (L4_MsgClear buf) = Ok m" "L4_MsgGet m = Ok (?ws, [])" "n_untyped (m ! 0) = 5" "n_typed (m ! 0) = 0"
    "tag_label (m ! 0) = 0x928"
    using L4_MsgPut_spec [of "L4_MsgClear buf" ?ws "[]" "0x928"] assms by (auto simp: L4_MsgClear_def)
  have u: "msg_u m = 5" "msg_t m = 0" using m(3,4) by (simp_all add: msg_u_def msg_t_def n_untyped_bits)
  have g: "map (\<lambda>i. m ! (i + 1)) [0..<5] = ?ws" "5 < length m" using m(2) by (auto simp: L4_MsgGet_def u split: if_splits)
  have "m ! (i + 1) = ?ws ! i" if "i < 5" for i using that arg_cong [OF g(1), of "\<lambda>xs. xs ! i"] by simp
  from this [of 0] this [of 1] this [of 2] this [of 3] this [of 4]
  have "m ! 1 = irq" "m ! 2 = tid" "m ! 3 = handler" "m ! 4 = action" "m ! 5 = ucast prio" by (simp_all add: eval_nat_numeral)
  moreover have "length m = 16" using m(1) assms by (auto simp: L4_MsgPut_def L4_MsgClear_def rbind_eq_Ok msg_put_def eval_nat_numeral split: if_splits)
  ultimately show ?thesis using m(1,5) u by (auto simp: irq_msg_def msg_ok_def)
qed

text \<open>The registration of \<open>irq\<close> after the system call with a request of the library: as asked for, but the delivery flags are what the
  thread happens to have in its message register 6, which the message of five words does not set.\<close>

theorem irq_request_reaches_kernel:
  assumes len: "length buf = L4_NUM_MRS" and u: "vregs_ok (utcbs s (utcb (tcbs s from)))"
    and irq: "irq < IRQn_NUM" "user_irqs s irq = p" "p \<noteq> NULL"
  shows "\<exists>m s'. irq_msg tid (of_nat irq) handler action prio buf = Ok m \<and>
    user_interrupt_config from (L4_Ipc_enter from (utcb_upd (utcb (tcbs s from)) (L4_MsgLoad m) s)) = Ok s' \<and>
    uirqs s' = (uirqs s)(p := uirq_config tid (ucast action) handler prio
      (ucast (mr_words (utcbs s (utcb (tcbs s from))) ! 6)) (uirqs s p))"
proof -
  obtain m where m: "irq_msg tid (of_nat irq) handler action prio buf = Ok m" "msg_ok m" "msg_u m = 5" "msg_t m = 0"
    "tag_label (m ! 0) = 0x928" "m ! 1 = of_nat irq" "m ! 2 = tid" "m ! 3 = handler" "m ! 4 = action" "m ! 5 = ucast prio"
    using irq_msg_spec [OF len] by blast
  let ?U = "utcb (tcbs s from)"
  define u' where "u' = L4_MsgLoad m (utcbs s ?U)"
  have v: "vregs_ok u'" "\<And>i. i < 16 \<Longrightarrow> mr_words u' ! i = (if i \<le> 5 then m ! i else mr_words (utcbs s ?U) ! i)"
    using L4_MsgLoad_words [OF u m(2)] m(3,4) by (simp_all add: u'_def)
  define s2 where "s2 = L4_Ipc_enter from (utcb_upd ?U (L4_MsgLoad m) s)"
  have s2: "regs (ctx (tcbs s2 from)) = mr_low u'" "uirqs s2 = uirqs s" "user_irqs s2 = user_irqs s" "irq_vector s2 = irq_vector s"
    by (simp_all add: s2_def L4_Ipc_enter_def utcb_upd_def tcb_upd_def u'_def)
  have r: "mr_low u' ! i = (if i \<le> 5 then m ! i else mr_words (utcbs s ?U) ! i)" if "i < 8" for i
    using v(2) [of i] v(1) that by (simp add: mr_words_def vregs_ok_def nth_append)
  have ii: "unat (ucast (of_nat irq :: u32) :: u16) = irq"
    using irq(1) u32_unat_of_nat [of irq] by (simp add: unsigned_ucast_eq take_bit_nat_eq_self)
  have pp: "ucast (ucast prio :: u32) = prio" by (rule bit_word_eqI) (auto simp: bit_ucast_iff)
  show ?thesis
    using m(1,5-) irq ii r [of 0] r [of 1] r [of 2] r [of 3] r [of 4] r [of 5] r [of 6]
    by (simp add: user_interrupt_config_def ipc_read_mr_def flip: s2_def)
      (simp add: s2 Let_def pp user_irq_disable_def nvic_is_setup_def user_irq_fetch_def ui_upd_def NVIC_DisableIRQ_def NVIC_ClearPendingIRQ_def
        flip: numeral_2_eq_2)
qed

text \<open>The other way: the message the kernel leaves in the registers of the thread that handles a raised interrupt makes it run the
  handler of the registration, between the two changes of its preemption threshold.\<close>

lemma irq_tag_bits: "unat (bits 0 6 (mk_tag 5 0 0 0x928)) = 5" "unat (bits 6 6 (mk_tag 5 0 0 0x928)) = 0"
  by code_simp+

theorem raised_interrupt_runs_handler:
  assumes p: "p \<noteq> NULL" "thr_id (uirqs s p) \<noteq> L4_NILTHREAD" and t: "thread_by_globalid (thr_id (uirqs s p)) s = thr" "thr \<noteq> NULL"
    and U: "utcb (tcbs s thr) \<noteq> NULL" "vregs_ok (utcbs s (utcb (tcbs s thr)))" "length (regs (ctx (tcbs s thr))) = 8"
    and a: "ui_action (uirqs s p) = USER_IRQ_ENABLE" and msg: "length msg = L4_NUM_MRS"
  shows "\<exists>s' u. irq_handler_ipc p s = Ok s' \<and> u = utcbs (L4_Ipc_leave thr s') (utcb (tcbs s thr)) \<and>
    interrupt_round (L4_StoreMR 0 u) u old msg = Ok (Some [Set_PreemptionDelay 0, Run_handler (ui_handler (uirqs s p)), Set_PreemptionDelay old])"
proof -
  let ?U = "utcb (tcbs s thr)" and ?t = "mk_tag 5 0 0 0x928"
  define rs where "rs = (regs (ctx (tcbs s thr)))[0 := ?t, 1 := of_nat (ui_irq (uirqs s p)), 3 := ui_handler (uirqs s p), 4 := ucast (ui_action (uirqs s p))]"
  obtain s' where s': "irq_handler_ipc p s = Ok s'" "regs (ctx (tcbs s' thr)) = rs" "utcb (tcbs s' thr) = ?U" "mr (utcbs s' ?U) = mr (utcbs s ?U)"
    using p t U by (simp add: irq_handler_ipc_def Let_def ipc_write_mr_def utcb_upd_def rs_def)
  define u where "u = utcbs (L4_Ipc_leave thr s') ?U"
  have w: "mr_low u = rs" "mr u = mr (utcbs s ?U)" using s' by (simp_all add: u_def L4_Ipc_leave_def utcb_upd_def)
  have v: "vregs_ok u" using U by (simp add: vregs_ok_def w rs_def)
  have m: "mr_words u ! 0 = ?t" "mr_words u ! 3 = ui_handler (uirqs s p)" "mr_words u ! 4 = 0"
    using U(3) a by (simp_all add: mr_words_def w nth_append rs_def)
  have z: "L4_StoreMR 0 u = ?t" using L4_StoreMR_words [OF v, of 0] m(1) by simp
  note st = L4_MsgStore_words [OF v msg, of ?t, unfolded irq_tag_bits, simplified]
  have "L4_MsgStore ?t u msg ! 3 = ui_handler (uirqs s p)" "L4_MsgStore ?t u msg ! 4 = 0" using st(3) [of 3] st(3) [of 4] m(2,3) by simp_all
  then have "interrupt_round ?t u old msg = Ok (Some [Set_PreemptionDelay 0, Run_handler (ui_handler (uirqs s p)), Set_PreemptionDelay old])"
    using st(1) by (simp add: interrupt_round_def L4_MsgWord_def msg_get_def eval_nat_numeral)
  then show ?thesis using s'(1) z u_def by metis
qed

end
