(* ===== verification/Kernel_Loop.thy ===== *)
theory Kernel_Loop
  imports Syscall
begin

text \<open>
  The two ways into the kernel beside system calls and device interrupts: the memory fault handler of
  \<^verbatim>\<open>platform/stm32-common/mpu.c\<close>, which maps pages into the memory protection unit on demand, and the endless loops of the kernel
  and the idle thread of \<^verbatim>\<open>kernel/systhread.c\<close>, one round each. The configuration is the one without the debugger.
\<close>

subsection \<open>The memory fault handler\<close>

definition MPU_MEM_FAULT :: u32 where "MPU_MEM_FAULT = 0x80"
definition MPU_MSTKERR :: u32 where "MPU_MSTKERR = 0x10"
definition MPU_MUSTKERR :: u32 where "MPU_MUSTKERR = 0x08"
definition MPU_IACCVIOL :: u32 where "MPU_IACCVIOL = 0x01"

text \<open>Whether the page of an address could be brought in.\<close>

definition bring_in :: "ptr \<Rightarrow> u32 \<Rightarrow> 'z tstate_scheme \<Rightarrow> (bool \<times> 'z tstate_scheme) result" where
  "bring_in as addr s = rbind (mpu_select_lru as addr (mem s)) (\<lambda>(r, m). Ok (r = 0, s\<lparr>mem := m\<rparr>))"

text \<open>\<open>mmsr\<close> and \<open>mmar\<close> are the fault status and address registers and \<open>psp\<close> the process stack pointer. The first component of the
  result is written back to the status register. The diagnostic output changes no state.\<close>

definition memmanage_handler :: "u32 \<Rightarrow> u32 \<Rightarrow> u32 \<Rightarrow> 'z tstate_scheme \<Rightarrow> (u32 \<times> 'z tstate_scheme) result" where
  "memmanage_handler mmsr mmar psp s =
     (let cur = thread_current s; as = t_as (tcbs s cur) in
      if cur = NULL then Fault (Null_deref ''__memmanage_handler: current'')
      else
        rbind (if mmsr AND MPU_MEM_FAULT \<noteq> 0 then bring_in as mmar s else Ok (False, s)) (\<lambda>(handled, s).
        rbind (if mmsr AND MPU_MUSTKERR \<noteq> 0
               then rbind (bring_in as (psp + 31) s) (\<lambda>(ok, s). Ok (handled \<or> ok, s)) else Ok (handled, s)) (\<lambda>(handled, s).
        rbind (if mmsr AND MPU_IACCVIOL \<noteq> 0
               then let pc = rd s psp REG_PC in
                    rbind (bring_in as pc s) (\<lambda>(ok, s).
                    if ok then Ok (True, s)
                    else rbind (bring_in as (pc + 2) s) (\<lambda>(ok, s). Ok (handled \<or> ok, s)))
               else Ok (handled, s)) (\<lambda>(handled, s).
        if handled then Ok (mmsr, s)
        else if mmsr AND MPU_MSTKERR \<noteq> 0 then Fault (Panic ''Corrupted Stack'')
        else Fault (Panic ''Memory fault'')))))"

text \<open>The lists of an address space as the handler finds them.\<close>

definition as_lists :: "ptr \<Rightarrow> mstate \<Rightarrow> ptr list \<Rightarrow> bool" where
  "as_lists as m xs \<longleftrightarrow> as \<noteq> NULL \<and> slist (nextf m) (first (ases m as)) xs \<and> length xs \<le> 256 \<and>
    (\<forall>x \<in> set xs. mpu_valid (fpages m x)) \<and>
    (\<exists>ys zs. slist (nextk MPU_CHAIN m) (mpu_first (ases m as)) ys \<and> length ys \<le> 256 \<and>
       slist (nextk MPU_CHAIN m) (mpu_stack_first (ases m as)) zs \<and> length zs < 8 \<and> set zs \<inter> (set xs \<union> set ys) = {})"

definition in_space :: "u32 \<Rightarrow> mstate \<Rightarrow> ptr list \<Rightarrow> bool" where
  "in_space addr m xs \<longleftrightarrow> (\<exists>x \<in> set xs. addr_in_fpage addr (fpages m x) False)"

lemma bring_in_spec:
  assumes "as_lists as (mem s) xs"
  shows "\<exists>s'. bring_in as addr s = Ok (\<not> addr_in_mpu addr (mem s) \<and> in_space addr (mem s) xs, s') \<and>
    (if \<not> addr_in_mpu addr (mem s) \<and> in_space addr (mem s) xs then addr_in_mpu addr (mem s') \<and> s' = s\<lparr>mem := mem s'\<rparr> else s' = s)"
proof -
  obtain ys zs where l: "slist (nextk MPU_CHAIN (mem s)) (mpu_first (ases (mem s) as)) ys" "length ys \<le> 256"
    "slist (nextk MPU_CHAIN (mem s)) (mpu_stack_first (ases (mem s) as)) zs" "length zs < 8" "set zs \<inter> (set xs \<union> set ys) = {}"
    using assms by (auto simp: as_lists_def)
  obtain r m' where "mpu_select_lru as addr (mem s) = Ok (r, m')" "r = 0 \<longleftrightarrow> \<not> addr_in_mpu addr (mem s) \<and> in_space addr (mem s) xs"
      "r = 0 \<longrightarrow> addr_in_mpu addr m'" "r \<noteq> 0 \<longrightarrow> r = 1 \<and> m' = mem s"
    using mpu_select_lru_maps_address [OF _ _ _ l, of addr] assms unfolding as_lists_def in_space_def by blast
  then show ?thesis by (auto simp: bring_in_def)
qed


text \<open>A thread in the space with one page, faulting inside it and outside of it.\<close>

definition faulting :: tstate where
  "faulting = tcb_upd 4096 (t_as_update (\<lambda>_. 0x20003000)) (boot\<lparr>mem := fault_example, current := 4096\<rparr>)"


subsection \<open>The kernel thread and the idle thread\<close>

text \<open>A round of the kernel thread serves the soft interrupts and then traps into the supervisor call handler, which asks for a context
  switch.\<close>

definition kernel_thread :: "nat \<Rightarrow> ipc_syms \<Rightarrow> 'z notify_cb \<Rightarrow> (u32 \<Rightarrow> u8) \<Rightarrow> u32 \<Rightarrow> u32 list \<Rightarrow> 'z istate_scheme \<Rightarrow> 'z istate_scheme result" where
  "kernel_thread fuel L cb text psp saved s =
     rbind (softirq_execute fuel (softirq_call L cb text) False s) (\<lambda>(_, s). svc_handler text psp saved s)"

definition idle_thread :: "u32 \<Rightarrow> u32 \<Rightarrow> u32 \<Rightarrow> u32 \<Rightarrow> u32 \<Rightarrow> bool \<Rightarrow> 'z ktstate_scheme \<Rightarrow> 'z ktstate_scheme" where
  "idle_thread compensation int_compensation now0 now1 now2 wrapped s =
     ktimer_enter_tickless compensation int_compensation now0 now1 now2 wrapped s"

lemma softirq_pass_none: "\<not> softirq_pending s \<Longrightarrow> set is \<subseteq> set all_softirqs \<Longrightarrow> softirq_pass call is ex s = Ok (ex, s)"
  by (induction "is") (auto simp: softirq_pending_def)

text \<open>When nothing is pending, the round of the kernel thread takes the kernel out of the ready queues and the scheduler then chooses the
  first thread of the highest priority among the others.\<close>

theorem kernel_thread_hands_over:
  assumes "rq_rep s q" and "kernel s \<noteq> NULL" and "thread_current s = kernel s" and "\<not> softirq_pending s"
    and "p < 32" and "removeAll (kernel s) (q p) = h # ts" and "\<And>r. r < p \<Longrightarrow> removeAll (kernel s) (q r) = []"
  shows "\<exists>s' s''. kernel_thread (Suc n) L cb text psp saved s = Ok s' \<and> schedule_select s' = Ok (h, s'')"
proof -
  obtain s' where s': "set_kernel_state T_INACTIVE s = Ok s'" "rq_rep s' (\<lambda>p. removeAll (kernel s) (q p))"
    using set_kernel_state_idle [OF assms(1,2), of T_INACTIVE] by auto
  have st: "current s' = kernel s" "kernel s' = kernel s" "state (tcbs s' (kernel s)) = T_INACTIVE"
    using s'(1) assms(2,3) by (auto simp: set_kernel_state_def Let_def thread_current_def set_state_def tcb_upd_def)
  have "kernel_thread (Suc n) L cb text psp saved s = Ok s'"
    using s'(1) st assms(4) by (simp add: kernel_thread_def softirq_pass_none Let_def svc_handler_def thread_current_def)
  moreover have "\<exists>s''. schedule_select s' = Ok (h, s'')"
    using schedule_select_rep [OF s'(2) assms(5), of h ts] assms(6,7) st by (auto simp: runnable_def)
  ultimately show ?thesis by blast
qed

end
