(* ===== verification/Waiters.thy ===== *)
theory Waiters
  imports Prelude
begin

text \<open>
  The waiter lists of the POSIX library: an array of eight thread identifiers with a fill count. The same three
  operations appear in \<^verbatim>\<open>user/lib/posix/pthread.c\<close> for mutexes and for condition variables and in
  \<^verbatim>\<open>user/lib/posix/semaphore.c\<close> for semaphores; the records of all three extend \<open>wait_list\<close>. Each
  operation runs between \<open>spinlock_acquire\<close> and \<open>spinlock_release\<close> on \<open>waiters_lock\<close>, so that it is one
  atomic step of the interleaving models, and leaves that word at 0. The locale \<open>wait_queue\<close> is what the
  locking protocols rely on: a bounded first-in first-out queue from which a thread can withdraw.
\<close>

type_synonym tid = u32

abbreviation (input) L4_nilthread :: tid where "L4_nilthread \<equiv> 0"
abbreviation (input) MAX_WAITERS :: nat where "MAX_WAITERS \<equiv> 8"

record wait_list =
  waiters_lock :: u32
  num_waiters :: u32
  waiters :: "tid list"

subsection \<open>Operations\<close>

definition waiters_init :: "'z wait_list_scheme \<Rightarrow> 'z wait_list_scheme" where
  "waiters_init w = w\<lparr>waiters_lock := 0, num_waiters := 0, waiters := replicate MAX_WAITERS L4_nilthread\<rparr>"

text \<open>The loop that moves the entries behind position \<open>i\<close> down by one.\<close>

definition shift_down :: "nat \<Rightarrow> nat \<Rightarrow> tid list \<Rightarrow> tid list" where
  "shift_down i n ws = fold (\<lambda>j ws. ws[j := ws ! Suc j]) [i..<n - 1] ws"

definition waiter_add :: "tid \<Rightarrow> 'z wait_list_scheme \<Rightarrow> int \<times> 'z wait_list_scheme" where
  "waiter_add t w =
     (if unat (num_waiters w) \<ge> MAX_WAITERS then (-1, w)
      else (0, w\<lparr>waiters := (waiters w)[unat (num_waiters w) := t], num_waiters := num_waiters w + 1\<rparr>))"

definition waiter_remove :: "tid \<Rightarrow> 'z wait_list_scheme \<Rightarrow> int \<times> 'z wait_list_scheme" where
  "waiter_remove t w =
     (case find (\<lambda>i. waiters w ! i = t) [0..<unat (num_waiters w)] of
        Some i \<Rightarrow> (0, w\<lparr>waiters := shift_down i (unat (num_waiters w)) (waiters w), num_waiters := num_waiters w - 1\<rparr>)
      | None \<Rightarrow> (-1, w))"

definition waiter_pop :: "'z wait_list_scheme \<Rightarrow> tid \<times> 'z wait_list_scheme" where
  "waiter_pop w =
     (if num_waiters w = 0 then (L4_nilthread, w)
      else (waiters w ! 0,
            w\<lparr>waiters := shift_down 0 (unat (num_waiters w)) (waiters w), num_waiters := num_waiters w - 1\<rparr>))"

subsection \<open>The queue they implement\<close>

definition waiting :: "'z wait_list_scheme \<Rightarrow> tid list" where
  "waiting w = take (unat (num_waiters w)) (waiters w)"

definition wl_ok :: "'z wait_list_scheme \<Rightarrow> bool" where
  "wl_ok w \<longleftrightarrow> unat (num_waiters w) \<le> MAX_WAITERS \<and> length (waiters w) = MAX_WAITERS"

lemma length_shift_fold: "length (fold (\<lambda>j ws. ws[j := ws ! Suc j]) js ws) = length ws"
  by (induction js arbitrary: ws) auto

lemma shift_fold_nth:
  assumes "i \<le> m" "m < length ws"
  shows "fold (\<lambda>j ws. ws[j := ws ! Suc j]) [i..<m] ws ! k =
    (if i \<le> k \<and> k < m then ws ! Suc k else ws ! k)"
  using assms
proof (induction "m - i" arbitrary: i ws)
  case (Suc d)
  then have m: "[i..<m] = i # [Suc i..<m]" by (simp add: upt_conv_Cons)
  show ?case using Suc(1) [of "Suc i" "ws[i := ws ! Suc i]"] Suc(2-4)
    by (cases "k = i") (auto simp: m nth_list_update)
qed auto

lemma take_shift_down:
  assumes "i < n" "n \<le> length ws"
  shows "take (n - 1) (shift_down i n ws) = take i ws @ drop (Suc i) (take n ws)"
proof (rule nth_equalityI)
  show "length (take (n - 1) (shift_down i n ws)) = length (take i ws @ drop (Suc i) (take n ws))"
    using assms by (simp add: shift_down_def length_shift_fold)
  fix k assume "k < length (take (n - 1) (shift_down i n ws))"
  then have k: "k < n - 1" by simp
  have "shift_down i n ws ! k = (if i \<le> k \<and> k < n - 1 then ws ! Suc k else ws ! k)"
    unfolding shift_down_def using assms by (intro shift_fold_nth) auto
  then show "take (n - 1) (shift_down i n ws) ! k = (take i ws @ drop (Suc i) (take n ws)) ! k"
    using assms k by (auto simp: nth_append min_def)
qed

lemma length_shift_down [simp]: "length (shift_down i n ws) = length ws"
  by (simp add: shift_down_def length_shift_fold)

lemma unat_num_pred: "num_waiters w \<noteq> 0 \<Longrightarrow> unat (num_waiters w - 1) = unat (num_waiters w) - 1"
  by (simp add: unat_minus_one)

lemma unat_num_succ: "unat (num_waiters w) < MAX_WAITERS \<Longrightarrow> unat (num_waiters w + 1) = unat (num_waiters w) + 1"
  by (simp add: unat_word_ariths)

lemma waiting_init [simp]: "waiting (waiters_init w) = []" and wl_ok_init [simp]: "wl_ok (waiters_init w)"
  by (simp_all add: waiting_def wl_ok_def waiters_init_def)

lemma length_waiting: "wl_ok w \<Longrightarrow> length (waiting w) = unat (num_waiters w)"
  by (simp add: waiting_def wl_ok_def)

lemma waiter_add_full: "wl_ok w \<Longrightarrow> length (waiting w) = MAX_WAITERS \<Longrightarrow> waiter_add t w = (-1, w)"
  by (simp add: waiter_add_def length_waiting)

lemma waiter_add_room:
  assumes ok: "wl_ok w" and room: "length (waiting w) < MAX_WAITERS"
  shows "fst (waiter_add t w) = 0" "waiting (snd (waiter_add t w)) = waiting w @ [t]" "wl_ok (snd (waiter_add t w))"
proof -
  have n: "unat (num_waiters w) < 8" "length (waiters w) = 8" using ok room by (simp_all add: length_waiting wl_ok_def)
  then have s: "unat (num_waiters w + 1) = Suc (unat (num_waiters w))" using unat_num_succ by simp
  show "fst (waiter_add t w) = 0" using n by (simp add: waiter_add_def)
  show "waiting (snd (waiter_add t w)) = waiting w @ [t]"
    using n s by (simp add: waiter_add_def waiting_def take_Suc_conv_app_nth)
  show "wl_ok (snd (waiter_add t w))" using n s by (simp add: waiter_add_def wl_ok_def)
qed

lemma remove1_at:
  assumes "i < length xs" "xs ! i = x" "\<And>j. j < i \<Longrightarrow> xs ! j \<noteq> x"
  shows "remove1 x xs = take i xs @ drop (Suc i) xs"
proof -
  have "xs = take i xs @ x # drop (Suc i) xs" using assms(1,2) id_take_nth_drop by blast
  moreover have "x \<notin> set (take i xs)" using assms by (auto simp: in_set_conv_nth)
  ultimately show ?thesis by (metis append_Cons append_Nil remove1.simps(2) remove1_append)
qed

lemma waiter_remove_absent:
  assumes "wl_ok w" "t \<notin> set (waiting w)"
  shows "waiter_remove t w = (-1, w)"
proof -
  have "find (\<lambda>i. waiters w ! i = t) [0..<unat (num_waiters w)] = None"
    using assms by (auto simp: find_None_iff waiting_def wl_ok_def in_set_conv_nth)
  then show ?thesis by (simp add: waiter_remove_def)
qed

lemma waiter_remove_present:
  assumes ok: "wl_ok w" and t: "t \<in> set (waiting w)"
  shows "fst (waiter_remove t w) = 0" "waiting (snd (waiter_remove t w)) = remove1 t (waiting w)"
    "wl_ok (snd (waiter_remove t w))"
proof -
  let ?n = "unat (num_waiters w)"
  have len: "?n \<le> 8" "length (waiters w) = 8" using ok by (simp_all add: wl_ok_def)
  have "find (\<lambda>i. waiters w ! i = t) [0..<?n] \<noteq> None"
    using t len by (auto simp: find_None_iff waiting_def in_set_conv_nth)
  then obtain i where f: "find (\<lambda>i. waiters w ! i = t) [0..<?n] = Some i" by blast
  then have i: "i < ?n" "waiters w ! i = t" "\<And>j. j < i \<Longrightarrow> waiters w ! j \<noteq> t"
    by (auto simp: find_Some_iff)
  have "num_waiters w \<noteq> 0" using i(1) by auto
  then have p: "unat (num_waiters w - 1) = ?n - 1" by (rule unat_num_pred)
  have r: "waiter_remove t w = (0, w\<lparr>waiters := shift_down i ?n (waiters w), num_waiters := num_waiters w - 1\<rparr>)"
    by (simp add: waiter_remove_def f)
  show "fst (waiter_remove t w) = 0" by (simp add: r)
  have "remove1 t (waiting w) = take i (waiters w) @ drop (Suc i) (waiting w)"
    using remove1_at [of i "waiting w" t] i len by (simp add: waiting_def)
  then show "waiting (snd (waiter_remove t w)) = remove1 t (waiting w)"
    using take_shift_down [of i ?n "waiters w"] i(1) len by (simp add: r waiting_def p)
  show "wl_ok (snd (waiter_remove t w))" using len by (simp add: r wl_ok_def p)
qed

lemma waiter_pop_empty: "wl_ok w \<Longrightarrow> waiting w = [] \<Longrightarrow> waiter_pop w = (L4_nilthread, w)"
  using length_waiting [of w] by (simp add: waiter_pop_def unat_eq_0)

lemma waiter_pop_head:
  assumes ok: "wl_ok w" and w: "waiting w = t # ts"
  shows "fst (waiter_pop w) = t" "waiting (snd (waiter_pop w)) = ts" "wl_ok (snd (waiter_pop w))"
proof -
  let ?n = "unat (num_waiters w)"
  have len: "?n \<le> 8" "length (waiters w) = 8" using ok by (simp_all add: wl_ok_def)
  have n: "?n = Suc (length ts)" using length_waiting [OF ok] w by simp
  then have "num_waiters w \<noteq> 0" by auto
  then have p: "unat (num_waiters w - 1) = ?n - 1" by (rule unat_num_pred)
  have r: "waiter_pop w = (waiters w ! 0, w\<lparr>waiters := shift_down 0 ?n (waiters w), num_waiters := num_waiters w - 1\<rparr>)"
    using \<open>num_waiters w \<noteq> 0\<close> by (simp add: waiter_pop_def)
  have "waiters w ! 0 = waiting w ! 0" using n by (simp add: waiting_def)
  then show "fst (waiter_pop w) = t" by (simp add: r w)
  have "take (?n - 1) (shift_down 0 ?n (waiters w)) = drop 1 (waiting w)"
    using take_shift_down [of 0 ?n "waiters w"] n len by (simp add: waiting_def)
  then show "waiting (snd (waiter_pop w)) = ts" by (simp add: r waiting_def p) (simp add: w [unfolded waiting_def])
  show "wl_ok (snd (waiter_pop w))" using len by (simp add: r wl_ok_def p)
qed

text \<open>Only the list itself changes.\<close>

lemma wait_list_more [simp]:
  "wait_list.more (snd (waiter_add t w)) = wait_list.more w"
  "wait_list.more (snd (waiter_remove t w)) = wait_list.more w"
  "wait_list.more (snd (waiter_pop w)) = wait_list.more w"
  "wait_list.more (waiters_init w) = wait_list.more w"
  by (simp_all add: waiter_add_def waiter_remove_def waiter_pop_def waiters_init_def split: option.split)

subsection \<open>Interface of the locking protocols\<close>

text \<open>What a lock needs of its waiter list: \<open>add\<close> appends unless the list is full, \<open>remove\<close> withdraws one entry
  of the thread, \<open>pop\<close> takes the first entry.\<close>

locale wait_queue =
  fixes add :: "tid \<Rightarrow> 'w \<Rightarrow> int \<times> 'w"
    and remove :: "tid \<Rightarrow> 'w \<Rightarrow> int \<times> 'w"
    and pop :: "'w \<Rightarrow> tid \<times> 'w"
    and contents :: "'w \<Rightarrow> tid list"
    and ok :: "'w \<Rightarrow> bool"
    and rest :: "'w \<Rightarrow> 'r"
  assumes add_full: "ok w \<Longrightarrow> length (contents w) = MAX_WAITERS \<Longrightarrow> add t w = (-1, w)"
    and add_room: "ok w \<Longrightarrow> length (contents w) < MAX_WAITERS \<Longrightarrow>
      fst (add t w) = 0 \<and> contents (snd (add t w)) = contents w @ [t]"
    and bounded: "ok w \<Longrightarrow> length (contents w) \<le> MAX_WAITERS"
    and remove_contents: "ok w \<Longrightarrow> contents (snd (remove t w)) = remove1 t (contents w)"
    and pop_empty: "ok w \<Longrightarrow> contents w = [] \<Longrightarrow> pop w = (L4_nilthread, w)"
    and pop_head: "ok w \<Longrightarrow> contents w = t # ts \<Longrightarrow> fst (pop w) = t \<and> contents (snd (pop w)) = ts"
    and ok_add: "ok w \<Longrightarrow> ok (snd (add t w))"
    and ok_remove: "ok w \<Longrightarrow> ok (snd (remove t w))"
    and ok_pop: "ok w \<Longrightarrow> ok (snd (pop w))"
    and rest_add: "rest (snd (add t w)) = rest w"
    and rest_remove: "rest (snd (remove t w)) = rest w"
    and rest_pop: "rest (snd (pop w)) = rest w"
begin

lemma add_cases:
  assumes "ok w"
  obtains (full) "add t w = (-1, w)" "length (contents w) = MAX_WAITERS"
    | (room) "fst (add t w) = 0" "contents (snd (add t w)) = contents w @ [t]"
  using add_full [OF assms] add_room [OF assms] bounded [OF assms] by (metis le_neq_implies_less)

lemma set_add: "ok w \<Longrightarrow> fst (add t w) = 0 \<Longrightarrow> set (contents (snd (add t w))) = insert t (set (contents w))"
  by (rule add_cases [of w t]) auto

lemma distinct_add:
  "ok w \<Longrightarrow> distinct (contents w) \<Longrightarrow> t \<notin> set (contents w) \<Longrightarrow> distinct (contents (snd (add t w)))"
  by (rule add_cases [of w t]) auto

lemma set_remove: "ok w \<Longrightarrow> distinct (contents w) \<Longrightarrow> set (contents (snd (remove t w))) = set (contents w) - {t}"
  by (simp add: remove_contents)

lemma distinct_remove: "ok w \<Longrightarrow> distinct (contents w) \<Longrightarrow> distinct (contents (snd (remove t w)))"
  by (simp add: remove_contents)

text \<open>Entries are never the nil thread, so that the result of \<open>pop\<close> tells whether there was one.\<close>

lemma pop_cases:
  assumes "ok w" "L4_nilthread \<notin> set (contents w)"
  obtains (empty) "fst (pop w) = L4_nilthread" "snd (pop w) = w" "contents w = []"
    | (head) "fst (pop w) \<noteq> L4_nilthread" "contents w = fst (pop w) # contents (snd (pop w))"
proof (cases "contents w")
  case Nil
  then show thesis using that(1) pop_empty [OF assms(1)] by simp
next
  case (Cons t ts)
  then show thesis using that(2) pop_head [OF assms(1)] assms(2) by auto
qed

end

text \<open>The operations on the array provide it, whatever record extends the list.\<close>

interpretation wl: wait_queue waiter_add waiter_remove waiter_pop waiting
  "wl_ok :: 'z wait_list_scheme \<Rightarrow> bool" wait_list.more
proof
  fix w :: "'z wait_list_scheme" and t ts
  assume ok: "wl_ok w"
  show "length (waiting w) = MAX_WAITERS \<Longrightarrow> waiter_add t w = (-1, w)" by (rule waiter_add_full [OF ok])
  show "length (waiting w) < MAX_WAITERS \<Longrightarrow> fst (waiter_add t w) = 0 \<and> waiting (snd (waiter_add t w)) = waiting w @ [t]"
    using waiter_add_room [OF ok] by blast
  show bd: "length (waiting w) \<le> MAX_WAITERS" using ok by (simp add: length_waiting wl_ok_def)
  show "waiting (snd (waiter_remove t w)) = remove1 t (waiting w)"
    using waiter_remove_absent [OF ok] waiter_remove_present [OF ok] by (cases "t \<in> set (waiting w)") (auto simp: remove1_idem)
  show "waiting w = [] \<Longrightarrow> waiter_pop w = (L4_nilthread, w)" by (rule waiter_pop_empty [OF ok])
  show "waiting w = t # ts \<Longrightarrow> fst (waiter_pop w) = t \<and> waiting (snd (waiter_pop w)) = ts"
    using waiter_pop_head [OF ok] by blast
  show "wl_ok (snd (waiter_add t w))"
    using waiter_add_full [OF ok, of t] waiter_add_room(3) [OF ok, of t] bd ok by (metis le_neq_implies_less snd_conv)
  show "wl_ok (snd (waiter_remove t w))"
    using waiter_remove_absent [OF ok, of t] waiter_remove_present(3) [OF ok, of t] ok by (metis snd_conv)
  show "wl_ok (snd (waiter_pop w))"
    using waiter_pop_empty [OF ok] waiter_pop_head(3) [OF ok] ok by (metis neq_Nil_conv snd_conv)
qed simp_all

end
