(* ===== verification/Posix_Mutex.thy ===== *)
theory Posix_Mutex
  imports Waiters
begin

text \<open>
  Mutexes of the POSIX library, \<^verbatim>\<open>user/lib/posix/pthread.c\<close>: first the operations as one thread sees them,
  then their interleaving. A null pointer argument is \<open>None\<close>. The inline assembly is the exclusive
  load/store pair on the lock word; the flag \<open>b\<close> tells whether the store would be let through, since an
  exception between the two instructions makes it fail on a free lock.
\<close>

subsection \<open>Error codes\<close>

abbreviation (input) EPERM :: int where "EPERM \<equiv> 1"
abbreviation (input) ESRCH :: int where "ESRCH \<equiv> 3"
abbreviation (input) EAGAIN :: int where "EAGAIN \<equiv> 11"
abbreviation (input) EBUSY :: int where "EBUSY \<equiv> 16"
abbreviation (input) EINVAL :: int where "EINVAL \<equiv> 22"
abbreviation (input) EDEADLK :: int where "EDEADLK \<equiv> 35"
abbreviation (input) EOVERFLOW :: int where "EOVERFLOW \<equiv> 75"
abbreviation (input) ENOTSUP :: int where "ENOTSUP \<equiv> 95"
abbreviation (input) ETIMEDOUT :: int where "ETIMEDOUT \<equiv> 110"

text \<open>A function on an object behind a pointer that may be null.\<close>

definition on_ptr :: "'a option \<Rightarrow> ('a \<Rightarrow> int \<times> 'a) \<Rightarrow> int \<times> 'a option" where
  "on_ptr p f = (case p of None \<Rightarrow> (EINVAL, None) | Some x \<Rightarrow> (case f x of (r, y) \<Rightarrow> (r, Some y)))"

subsection \<open>Attributes\<close>

record pthread_mutexattr_t =
  ma_type :: u8
  ma_initialized :: bool

abbreviation (input) PTHREAD_MUTEX_NORMAL :: u8 where "PTHREAD_MUTEX_NORMAL \<equiv> 0"
abbreviation (input) PTHREAD_MUTEX_RECURSIVE :: u8 where "PTHREAD_MUTEX_RECURSIVE \<equiv> 1"

definition pthread_mutexattr_init :: "pthread_mutexattr_t option \<Rightarrow> int \<times> pthread_mutexattr_t option" where
  "pthread_mutexattr_init attr = on_ptr attr (\<lambda>a. (0, a\<lparr>ma_type := PTHREAD_MUTEX_NORMAL, ma_initialized := True\<rparr>))"

definition pthread_mutexattr_destroy :: "pthread_mutexattr_t option \<Rightarrow> int \<times> pthread_mutexattr_t option" where
  "pthread_mutexattr_destroy attr =
     on_ptr attr (\<lambda>a. if \<not> ma_initialized a then (EINVAL, a) else (0, a\<lparr>ma_initialized := False\<rparr>))"

definition pthread_mutexattr_settype :: "int \<Rightarrow> pthread_mutexattr_t option \<Rightarrow> int \<times> pthread_mutexattr_t option" where
  "pthread_mutexattr_settype ty attr =
     on_ptr attr (\<lambda>a. if \<not> ma_initialized a then (EINVAL, a)
                      else if ty \<noteq> 0 \<and> ty \<noteq> 1 then (EINVAL, a)
                      else (0, a\<lparr>ma_type := word_of_int ty\<rparr>))"

text \<open>The result of the query is the code and the value stored through the pointer \<open>type\<close>, if there is one.\<close>

definition pthread_mutexattr_gettype :: "pthread_mutexattr_t option \<Rightarrow> bool \<Rightarrow> int \<times> int option" where
  "pthread_mutexattr_gettype attr has_type = (case attr of
     None \<Rightarrow> (EINVAL, None)
   | Some a \<Rightarrow> if \<not> has_type \<or> \<not> ma_initialized a then (EINVAL, None) else (0, Some (uint (ma_type a))))"

subsection \<open>The mutex\<close>

record pthread_mutex_t = wait_list +
  mlock :: u32
  mowner :: tid
  mtype :: u8
  minitialized :: u8
  mcount :: u16

abbreviation (input) PTHREAD_MUTEX_INITIALIZER_MAGIC :: u16 where "PTHREAD_MUTEX_INITIALIZER_MAGIC \<equiv> 0xDEAD"
abbreviation (input) POSIX_NOTIFY_MUTEX_BIT :: nat where "POSIX_NOTIFY_MUTEX_BIT \<equiv> 1"

definition mutex_waiter_add :: "tid \<Rightarrow> pthread_mutex_t \<Rightarrow> int \<times> pthread_mutex_t" where
  "mutex_waiter_add t m = waiter_add t m"

definition mutex_waiter_remove :: "tid \<Rightarrow> pthread_mutex_t \<Rightarrow> pthread_mutex_t" where
  "mutex_waiter_remove t m = snd (waiter_remove t m)"

definition mutex_waiter_pop :: "pthread_mutex_t \<Rightarrow> tid \<times> pthread_mutex_t" where
  "mutex_waiter_pop m = waiter_pop m"

definition mutex_clear :: "u8 \<Rightarrow> pthread_mutex_t \<Rightarrow> pthread_mutex_t" where
  "mutex_clear ty m = waiters_init (m\<lparr>mlock := 0, mowner := 0, mtype := ty, mcount := 0\<rparr>)"

definition pthread_mutex_lazy_init :: "pthread_mutex_t \<Rightarrow> int \<times> pthread_mutex_t" where
  "pthread_mutex_lazy_init m =
     (if minitialized m \<noteq> 0 then (0, m)
      else
        let m = (if mcount m = PTHREAD_MUTEX_INITIALIZER_MAGIC \<and> minitialized m = 0
                 then (mutex_clear PTHREAD_MUTEX_NORMAL m)\<lparr>minitialized := 1\<rparr> else m)
        in (if minitialized m \<noteq> 0 then 0 else EINVAL, m))"

definition pthread_mutex_init :: "pthread_mutexattr_t option \<Rightarrow> pthread_mutex_t option \<Rightarrow> int \<times> pthread_mutex_t option" where
  "pthread_mutex_init attr mutex =
     on_ptr mutex (\<lambda>m.
       if (case attr of Some a \<Rightarrow> \<not> ma_initialized a | None \<Rightarrow> False) then (EINVAL, m)
       else (0, (mutex_clear (case attr of Some a \<Rightarrow> ma_type a | None \<Rightarrow> PTHREAD_MUTEX_NORMAL) m)\<lparr>minitialized := 1\<rparr>))"

definition pthread_mutex_destroy :: "pthread_mutex_t option \<Rightarrow> int \<times> pthread_mutex_t option" where
  "pthread_mutex_destroy mutex =
     on_ptr mutex (\<lambda>m.
       if minitialized m = 0 then (EINVAL, m)
       else if mlock m \<noteq> 0 then (EBUSY, m)
       else (0, m\<lparr>minitialized := 0\<rparr>))"

text \<open>The exclusive pair on the lock word: True when this thread has stored the 1.\<close>

definition lock_word :: "bool \<Rightarrow> pthread_mutex_t \<Rightarrow> bool \<times> pthread_mutex_t" where
  "lock_word b m = (if mlock m = 0 \<and> b then (True, m\<lparr>mlock := 1\<rparr>) else (False, m))"

definition pthread_mutex_trylock :: "tid \<Rightarrow> bool \<Rightarrow> pthread_mutex_t option \<Rightarrow> int \<times> pthread_mutex_t option" where
  "pthread_mutex_trylock self b mutex =
     on_ptr mutex (\<lambda>m.
       case pthread_mutex_lazy_init m of (r, m) \<Rightarrow>
       if r \<noteq> 0 then (r, m)
       else if mtype m = PTHREAD_MUTEX_RECURSIVE \<and> mowner m = self then (0, m\<lparr>mcount := mcount m + 1\<rparr>)
       else case lock_word b m of (ok, m) \<Rightarrow>
         if ok then (0, m\<lparr>mowner := self, mcount := 1\<rparr>) else (EBUSY, m))"

text \<open>Unlocking; the second component is the thread that is posted the mutex bit.\<close>

definition pthread_mutex_unlock :: "tid \<Rightarrow> pthread_mutex_t option \<Rightarrow> int \<times> tid option \<times> pthread_mutex_t option" where
  "pthread_mutex_unlock self mutex = (case mutex of
     None \<Rightarrow> (EINVAL, None, None)
   | Some m \<Rightarrow>
       if minitialized m = 0 then (EINVAL, None, Some m)
       else if mowner m \<noteq> self then (EPERM, None, Some m)
       else if mtype m = PTHREAD_MUTEX_RECURSIVE \<and> mcount m > 1 then (0, None, Some (m\<lparr>mcount := mcount m - 1\<rparr>))
       else case mutex_waiter_pop (m\<lparr>mcount := 0, mowner := 0, mlock := 0\<rparr>) of (w, m) \<Rightarrow>
         (0, if w \<noteq> L4_nilthread then Some w else None, Some m))"

text \<open>Entry of \<open>pthread_mutex_lock\<close> and \<open>pthread_mutex_timedlock\<close>: initialisation, recursion and self-deadlock.
  \<open>None\<close> as the code means that the acquisition loop starts.\<close>

definition mutex_enter :: "tid \<Rightarrow> pthread_mutex_t \<Rightarrow> int option \<times> pthread_mutex_t" where
  "mutex_enter self m =
     (case pthread_mutex_lazy_init m of (r, m) \<Rightarrow>
      if r \<noteq> 0 then (Some r, m)
      else if mtype m = PTHREAD_MUTEX_RECURSIVE
      then if mowner m = self then (Some 0, m\<lparr>mcount := mcount m + 1\<rparr>) else (None, m)
      else if mowner m = self then (Some EDEADLK, m) else (None, m))"

subsection \<open>Interleaving\<close>

text \<open>
  Where a thread stands between two atomic steps. \<open>Out\<close> and \<open>In\<close>: outside every mutex function, without and
  with the mutex. \<open>Try\<close>: before the exclusive pair, of the first attempt of a round, of the second one after
  registering, of the last one after a timeout or of a \<open>pthread_mutex_trylock\<close> (called inside or outside); the
  flag of an attempt tells that a deadline is set. \<open>Unreg\<close>: before \<open>mutex_waiter_remove\<close>, with what follows.
\<close>

datatype attempt = Only bool | First bool | Second bool | Last

datatype leave = Done | Retry bool | Timed_out | Give_up

datatype mpc =
    Out | In
  | Try attempt | Set_owner attempt | Set_count attempt
  | Register bool | Blocked bool | Unreg leave
  | Clr_count | Clr_owner | Clr_lock | Pop | Post tid

record mutex_sys =
  mtx :: pthread_mutex_t
  mpend :: "tid \<Rightarrow> bool"
  mpc :: "tid \<Rightarrow> mpc"
  mret :: "tid \<Rightarrow> int"

text \<open>What the hardware, the timer and the clock contribute to a step.\<close>

datatype chance = Normal | Strex_fails | Timer_fails | Timeout | Deadline_passed

definition goto :: "tid \<Rightarrow> mpc \<Rightarrow> mutex_sys \<Rightarrow> mutex_sys" where
  "goto t p s = s\<lparr>mpc := (mpc s)(t := p)\<rparr>"

definition mreturn :: "tid \<Rightarrow> int \<Rightarrow> mpc \<Rightarrow> mutex_sys \<Rightarrow> mutex_sys" where
  "mreturn t r p s = goto t p (s\<lparr>mret := (mret s)(t := r)\<rparr>)"

definition lock_call :: "bool \<Rightarrow> tid \<Rightarrow> mutex_sys \<Rightarrow> mutex_sys" where
  "lock_call timed t s =
     (case mutex_enter t (mtx s) of (r, m) \<Rightarrow>
      case r of Some e \<Rightarrow> mreturn t e (mpc s t) (s\<lparr>mtx := m\<rparr>)
              | None \<Rightarrow> goto t (Try (First timed)) (s\<lparr>mtx := m\<rparr>))"

definition trylock_call :: "tid \<Rightarrow> mutex_sys \<Rightarrow> mutex_sys" where
  "trylock_call t s =
     (case pthread_mutex_lazy_init (mtx s) of (r, m) \<Rightarrow>
      if r \<noteq> 0 then mreturn t r (mpc s t) (s\<lparr>mtx := m\<rparr>)
      else if mtype m = PTHREAD_MUTEX_RECURSIVE \<and> mowner m = t
      then mreturn t 0 (mpc s t) (s\<lparr>mtx := m\<lparr>mcount := mcount m + 1\<rparr>\<rparr>)
      else goto t (Try (Only (mpc s t = In))) (s\<lparr>mtx := m\<rparr>))"

definition unlock_call :: "tid \<Rightarrow> mutex_sys \<Rightarrow> mutex_sys" where
  "unlock_call t s =
     (let m = mtx s in
      if minitialized m = 0 then mreturn t EINVAL (mpc s t) s
      else if mowner m \<noteq> t then mreturn t EPERM (mpc s t) s
      else if mtype m = PTHREAD_MUTEX_RECURSIVE \<and> mcount m > 1
      then mreturn t 0 (mpc s t) (s\<lparr>mtx := m\<lparr>mcount := mcount m - 1\<rparr>\<rparr>)
      else goto t Clr_count s)"

text \<open>An attempt that did not get the lock word.\<close>

definition try_failed :: "chance \<Rightarrow> attempt \<Rightarrow> tid \<Rightarrow> mutex_sys \<Rightarrow> mutex_sys" where
  "try_failed c a t s = (case a of
     Only inside \<Rightarrow> mreturn t EBUSY (if inside then In else Out) s
   | First timed \<Rightarrow> if timed \<and> c = Deadline_passed then mreturn t ETIMEDOUT Out s else goto t (Register timed) s
   | Second timed \<Rightarrow> if timed \<and> c = Timer_fails then goto t (Unreg Give_up) s else goto t (Blocked timed) s
   | Last \<Rightarrow> mreturn t ETIMEDOUT Out s)"

text \<open>One atomic step of a thread inside a mutex function.\<close>

definition mutex_run :: "chance \<Rightarrow> tid \<Rightarrow> mutex_sys \<Rightarrow> mutex_sys" where
  "mutex_run c t s = (case mpc s t of
     Out \<Rightarrow> s
   | In \<Rightarrow> s
   | Try a \<Rightarrow> (case lock_word (c \<noteq> Strex_fails) (mtx s) of (ok, m) \<Rightarrow>
       if ok then goto t (Set_owner a) (s\<lparr>mtx := m\<rparr>) else try_failed c a t s)
   | Set_owner a \<Rightarrow> goto t (Set_count a) (s\<lparr>mtx := (mtx s)\<lparr>mowner := t\<rparr>\<rparr>)
   | Set_count a \<Rightarrow>
       let s = s\<lparr>mtx := (mtx s)\<lparr>mcount := 1\<rparr>\<rparr>
       in (case a of Second _ \<Rightarrow> goto t (Unreg Done) s | _ \<Rightarrow> mreturn t 0 In s)
   | Register timed \<Rightarrow> (case mutex_waiter_add t (mtx s) of (r, m) \<Rightarrow>
       if r < 0 then (if timed then s else goto t (Try (First False)) s)
       else goto t (Try (Second timed)) (s\<lparr>mtx := m\<rparr>))
   | Blocked timed \<Rightarrow>
       let s' = s\<lparr>mpend := (mpend s)(t := False)\<rparr>
       in if timed \<and> c = Timeout then goto t (Unreg Timed_out) s'
          else if mpend s t then goto t (Unreg (Retry timed)) s' else s
   | Unreg l \<Rightarrow>
       let s = s\<lparr>mtx := mutex_waiter_remove t (mtx s)\<rparr>
       in (case l of Done \<Rightarrow> mreturn t 0 In s
                   | Retry timed \<Rightarrow> goto t (Try (First timed)) s
                   | Timed_out \<Rightarrow> goto t (Try Last) s
                   | Give_up \<Rightarrow> mreturn t ETIMEDOUT Out s)
   | Clr_count \<Rightarrow> goto t Clr_owner (s\<lparr>mtx := (mtx s)\<lparr>mcount := 0\<rparr>\<rparr>)
   | Clr_owner \<Rightarrow> goto t Clr_lock (s\<lparr>mtx := (mtx s)\<lparr>mowner := 0\<rparr>\<rparr>)
   | Clr_lock \<Rightarrow> goto t Pop (s\<lparr>mtx := (mtx s)\<lparr>mlock := 0\<rparr>\<rparr>)
   | Pop \<Rightarrow> (case mutex_waiter_pop (mtx s) of (w, m) \<Rightarrow>
       if w \<noteq> L4_nilthread then goto t (Post w) (s\<lparr>mtx := m\<rparr>) else mreturn t 0 Out (s\<lparr>mtx := m\<rparr>))
   | Post w \<Rightarrow> mreturn t 0 Out (s\<lparr>mpend := (mpend s)(w := True)\<rparr>))"

text \<open>The system: any thread may call a function, any thread inside one may take its next step. The set \<open>F\<close>
  holds the misfortunes that can happen besides normal progress, timeouts and passed deadlines.\<close>

inductive mutex_step :: "chance set \<Rightarrow> mutex_sys \<Rightarrow> mutex_sys \<Rightarrow> bool" for F where
  call_lock: "t \<noteq> L4_nilthread \<Longrightarrow> mpc s t \<in> {Out, In} \<Longrightarrow> mutex_step F s (lock_call timed t s)"
| call_trylock: "t \<noteq> L4_nilthread \<Longrightarrow> mpc s t \<in> {Out, In} \<Longrightarrow> mutex_step F s (trylock_call t s)"
| call_unlock: "t \<noteq> L4_nilthread \<Longrightarrow> mpc s t \<in> {Out, In} \<Longrightarrow> mutex_step F s (unlock_call t s)"
| run: "t \<noteq> L4_nilthread \<Longrightarrow> mpc s t \<notin> {Out, In} \<Longrightarrow> c \<in> {Normal, Timeout, Deadline_passed} \<union> F \<Longrightarrow>
    mutex_step F s (mutex_run c t s)"

definition mutex_start :: "u8 \<Rightarrow> mutex_sys" where
  "mutex_start ty =
     \<lparr>mtx = \<lparr>waiters_lock = 0, num_waiters = 0, waiters = replicate MAX_WAITERS 0, mlock = 0, mowner = 0, mtype = ty,
        minitialized = 1, mcount = 0\<rparr>,
      mpend = (\<lambda>_. False), mpc = (\<lambda>_. Out), mret = (\<lambda>_. 0)\<rparr>"

inductive mutex_reach :: "chance set \<Rightarrow> mutex_sys \<Rightarrow> bool" for F where
  start: "mutex_reach F (mutex_start ty)"
| step: "mutex_reach F s \<Longrightarrow> mutex_step F s s' \<Longrightarrow> mutex_reach F s'"

text \<open>The same steps as a function, to run a given schedule.\<close>

datatype mact = Lock bool tid | Trylock tid | Unlock tid | Run chance tid

fun mutex_act :: "mact \<Rightarrow> mutex_sys \<Rightarrow> mutex_sys option" where
  "mutex_act (Lock timed t) s = (if t \<noteq> L4_nilthread \<and> (mpc s t = Out \<or> mpc s t = In) then Some (lock_call timed t s) else None)"
| "mutex_act (Trylock t) s = (if t \<noteq> L4_nilthread \<and> (mpc s t = Out \<or> mpc s t = In) then Some (trylock_call t s) else None)"
| "mutex_act (Unlock t) s = (if t \<noteq> L4_nilthread \<and> (mpc s t = Out \<or> mpc s t = In) then Some (unlock_call t s) else None)"
| "mutex_act (Run c t) s = (if t \<noteq> L4_nilthread \<and> mpc s t \<noteq> Out \<and> mpc s t \<noteq> In then Some (mutex_run c t s) else None)"

fun mutex_acts :: "mact list \<Rightarrow> mutex_sys \<Rightarrow> mutex_sys option" where
  "mutex_acts [] s = Some s"
| "mutex_acts (a # as) s = (case mutex_act a s of Some s' \<Rightarrow> mutex_acts as s' | None \<Rightarrow> None)"

fun act_allowed :: "chance set \<Rightarrow> mact \<Rightarrow> bool" where
  "act_allowed F (Run c t) = (c \<in> {Normal, Timeout, Deadline_passed} \<union> F)"
| "act_allowed F _ = True"

lemma mutex_act_step: "mutex_act a s = Some s' \<Longrightarrow> act_allowed F a \<Longrightarrow> mutex_step F s s'"
  by (cases a) (auto simp: mutex_step.simps split: if_splits)

lemma mutex_acts_reach:
  "mutex_acts as s = Some s' \<Longrightarrow> list_all (act_allowed F) as \<Longrightarrow> mutex_reach F s \<Longrightarrow> mutex_reach F s'"
proof (induction as arbitrary: s)
  case (Cons a as)
  then obtain s1 where a: "mutex_act a s = Some s1" by (cases "mutex_act a s") auto
  have "mutex_reach F s1" by (rule mutex_reach.step [OF Cons(4) mutex_act_step [OF a]]) (use Cons(3) in simp)
  then show ?case using Cons a by auto
qed simp

subsection \<open>Mutual exclusion\<close>

fun holding :: "mpc \<Rightarrow> bool" where
  "holding In = True" | "holding (Try (Only inside)) = inside" | "holding (Set_owner a) = True"
| "holding (Set_count a) = True" | "holding (Unreg Done) = True" | "holding Clr_count = True"
| "holding Clr_owner = True" | "holding Clr_lock = True" | "holding _ = False"

fun owning :: "mpc \<Rightarrow> bool" where
  "owning (Set_owner a) = False" | "owning Clr_lock = False" | "owning p = holding p"

lemma owning_holding: "owning p \<Longrightarrow> holding p"
  by (induction p rule: owning.induct) auto

definition excl :: "mutex_sys \<Rightarrow> bool" where
  "excl s \<longleftrightarrow> minitialized (mtx s) \<noteq> 0 \<and> mpc s 0 = Out \<and>
     (\<forall>t u. holding (mpc s t) \<longrightarrow> holding (mpc s u) \<longrightarrow> t = u) \<and>
     (mlock (mtx s) = 0 \<longleftrightarrow> (\<forall>t. \<not> holding (mpc s t))) \<and>
     (\<forall>t. t \<noteq> 0 \<longrightarrow> (owning (mpc s t) \<longleftrightarrow> mowner (mtx s) = t))"

lemma excl_start: "excl (mutex_start ty)"
  by (simp add: excl_def mutex_start_def)

lemma lazy_init_done: "minitialized m \<noteq> 0 \<Longrightarrow> pthread_mutex_lazy_init m = (0, m)"
  by (simp add: pthread_mutex_lazy_init_def)

text \<open>The list operations leave the lock word and the owner alone.\<close>

lemma wait_list_fields:
  assumes "wait_list.more m' = wait_list.more (m :: pthread_mutex_t)"
  shows "mlock m' = mlock m" "mowner m' = mowner m" "mtype m' = mtype m" "minitialized m' = minitialized m"
    "mcount m' = mcount m"
  using assms by (cases m; cases m'; simp)+

lemmas list_fields [simp] =
  wait_list_fields [of "mutex_waiter_remove t m" m for t m, unfolded mutex_waiter_remove_def, OF wait_list_more(2), folded mutex_waiter_remove_def]
  wait_list_fields [of "snd (mutex_waiter_add t m)" m for t m, unfolded mutex_waiter_add_def, OF wait_list_more(1), folded mutex_waiter_add_def]
  wait_list_fields [of "snd (mutex_waiter_pop m)" m for m, unfolded mutex_waiter_pop_def, OF wait_list_more(3), folded mutex_waiter_pop_def]

lemma goto_fields [simp]:
  "mtx (goto t p s) = mtx s" "mpend (goto t p s) = mpend s" "mpc (goto t p s) = (mpc s)(t := p)" "mret (goto t p s) = mret s"
  "mtx (mreturn t r p s) = mtx s" "mpend (mreturn t r p s) = mpend s" "mpc (mreturn t r p s) = (mpc s)(t := p)"
  by (simp_all add: goto_def mreturn_def)

text \<open>A step of one thread that keeps its part in the exclusion, the lock word and the owner.\<close>

lemma excl_frame:
  assumes e: "excl s" and t: "t \<noteq> 0" and pc: "mpc s' = (mpc s)(t := p)"
    and cl: "holding p = holding (mpc s t)" "owning p = owning (mpc s t)"
    and m: "mlock (mtx s') = mlock (mtx s)" "mowner (mtx s') = mowner (mtx s)" "minitialized (mtx s') = minitialized (mtx s)"
  shows "excl s'"
proof -
  have "holding (mpc s' x) = holding (mpc s x)" "owning (mpc s' x) = owning (mpc s x)" for x using cl by (simp_all add: pc)
  then show ?thesis using e t unfolding excl_def m by (simp add: pc)
qed

lemma excl_take:
  assumes e: "excl s" and t: "t \<noteq> 0" and l: "mlock (mtx s) = 0"
  shows "excl (goto t (Set_owner a) (s\<lparr>mtx := (mtx s)\<lparr>mlock := 1\<rparr>\<rparr>))"
proof -
  have n: "\<not> holding (mpc s x)" for x using e l by (simp add: excl_def)
  then have "\<not> owning (mpc s x)" for x using owning_holding by blast
  then show ?thesis using e t n by (auto simp: excl_def)
qed

lemma excl_set_owner:
  assumes e: "excl s" and t: "t \<noteq> 0" and pc: "mpc s t = Set_owner a"
  shows "excl (goto t (Set_count a) (s\<lparr>mtx := (mtx s)\<lparr>mowner := t\<rparr>\<rparr>))"
proof -
  have u: "holding (mpc s x) \<Longrightarrow> x = t" for x using e pc unfolding excl_def by (metis holding.simps(3))
  then have "x \<noteq> t \<Longrightarrow> \<not> owning (mpc s x)" for x using owning_holding by blast
  moreover have "mlock (mtx s) \<noteq> 0" using e pc unfolding excl_def by (metis holding.simps(3))
  ultimately show ?thesis using e t u by (auto simp: excl_def)
qed

lemma excl_clear_owner:
  assumes e: "excl s" and t: "t \<noteq> 0" and pc: "mpc s t = Clr_owner"
  shows "excl (goto t Clr_lock (s\<lparr>mtx := (mtx s)\<lparr>mowner := 0\<rparr>\<rparr>))"
proof -
  have u: "holding (mpc s x) \<Longrightarrow> x = t" for x using e pc unfolding excl_def by (metis holding.simps(7))
  then have "x \<noteq> t \<Longrightarrow> \<not> owning (mpc s x)" for x using owning_holding by blast
  moreover have "mlock (mtx s) \<noteq> 0" using e pc unfolding excl_def by (metis holding.simps(7))
  ultimately show ?thesis using e t u by (auto simp: excl_def)
qed

lemma excl_clear_lock:
  assumes e: "excl s" and t: "t \<noteq> 0" and pc: "mpc s t = Clr_lock"
  shows "excl (goto t Pop (s\<lparr>mtx := (mtx s)\<lparr>mlock := 0\<rparr>\<rparr>))"
proof -
  have u: "holding (mpc s x) \<Longrightarrow> x = t" for x using e pc unfolding excl_def by (metis holding.simps(8))
  then show ?thesis using e t pc by (auto simp: excl_def)
qed

lemma excl_try_failed:
  assumes e: "excl s" and t: "t \<noteq> 0" and pc: "mpc s t = Try a"
  shows "excl (try_failed c a t s)"
  using pc by (cases a) (auto simp: try_failed_def intro!: excl_frame [OF e t])

lemma excl_run:
  assumes e: "excl s" and t: "t \<noteq> 0"
  shows "excl (mutex_run c t s)"
proof (cases "mpc s t")
  case (Try a)
  then show ?thesis
    using excl_take [OF e t] excl_try_failed [OF e t Try] by (simp add: mutex_run_def lock_word_def)
next
  case (Set_count a)
  then show ?thesis by (cases a) (auto simp: mutex_run_def Let_def intro!: excl_frame [OF e t])
next
  case (Unreg l)
  then show ?thesis by (cases l) (auto simp: mutex_run_def Let_def intro!: excl_frame [OF e t])
qed (use e in \<open>auto simp: mutex_run_def Let_def split_beta excl_set_owner [OF e t] excl_clear_owner [OF e t]
      excl_clear_lock [OF e t] intro!: excl_frame [OF e t]\<close>)

lemma lock_call_eq:
  assumes "minitialized (mtx s) \<noteq> 0"
  shows "lock_call timed t s =
    (if mowner (mtx s) = t
     then if mtype (mtx s) = 1 then mreturn t 0 (mpc s t) (s\<lparr>mtx := (mtx s)\<lparr>mcount := mcount (mtx s) + 1\<rparr>\<rparr>)
          else mreturn t EDEADLK (mpc s t) s
     else goto t (Try (First timed)) s)"
  using assms by (simp add: lock_call_def mutex_enter_def lazy_init_done)

lemma trylock_call_eq:
  assumes "minitialized (mtx s) \<noteq> 0"
  shows "trylock_call t s =
    (if mtype (mtx s) = 1 \<and> mowner (mtx s) = t
     then mreturn t 0 (mpc s t) (s\<lparr>mtx := (mtx s)\<lparr>mcount := mcount (mtx s) + 1\<rparr>\<rparr>)
     else goto t (Try (Only (mpc s t = In))) s)"
  using assms by (simp add: trylock_call_def lazy_init_done)

lemma excl_call:
  assumes e: "excl s" and t: "t \<noteq> 0" and pc: "mpc s t \<in> {Out, In}"
  shows "excl (lock_call timed t s)" "excl (trylock_call t s)" "excl (unlock_call t s)"
proof -
  have i: "minitialized (mtx s) \<noteq> 0" and ot: "owning (mpc s t) = (mowner (mtx s) = t)" using e t by (simp_all add: excl_def)
  show "excl (lock_call timed t s)"
    unfolding lock_call_eq [OF i] using ot pc by (auto intro!: excl_frame [OF e t])
  show "excl (trylock_call t s)"
    unfolding trylock_call_eq [OF i] using ot pc by (auto intro!: excl_frame [OF e t])
  show "excl (unlock_call t s)"
    unfolding unlock_call_def Let_def using ot pc by (auto intro!: excl_frame [OF e t])
qed

lemma excl_reach: "mutex_reach F s \<Longrightarrow> excl s"
proof (induction rule: mutex_reach.induct)
  case (step s s')
  from step(2,3) show ?case by (cases rule: mutex_step.cases) (simp_all add: excl_run excl_call)
qed (rule excl_start)

text \<open>C22. Mutual exclusion: in every interleaving of any number of threads, with spurious failures of the
  exclusive store, failing timers, timeouts and recursion, at most one thread is inside the mutex; it is the
  recorded owner and the lock word is set.\<close>

theorem pthread_mutex_mutual_exclusion:
  assumes "mutex_reach F s" "mpc s t = In"
  shows "mowner (mtx s) = t \<and> mlock (mtx s) \<noteq> 0 \<and> (\<forall>u. mpc s u = In \<longrightarrow> u = t)"
proof -
  have e: "excl s" using assms(1) by (rule excl_reach)
  have t: "t \<noteq> 0" using e assms(2) by (auto simp: excl_def)
  have h: "holding (mpc s t)" "owning (mpc s t)" using assms(2) by simp_all
  have "mowner (mtx s) = t" using e t h(2) by (simp add: excl_def)
  moreover have "mlock (mtx s) \<noteq> 0" using e h(1) unfolding excl_def by blast
  moreover have "u = t" if "mpc s u = In" for u using e h(1) that unfolding excl_def by (metis holding.simps(1))
  ultimately show ?thesis by blast
qed

theorem pthread_mutex_mutual_exclusion_witness:
  "\<exists>s. mutex_reach {} s \<and> mpc s 5 = In \<and> mowner (mtx s) = 5 \<and> mpc s 6 \<noteq> In"
proof -
  let ?as = "[Lock False 5, Lock False 6, Run Normal 5, Run Normal 6, Run Normal 5, Run Normal 5, Run Normal 6]"
  have "case mutex_acts ?as (mutex_start 0) of Some s \<Rightarrow> mpc s 5 = In | None \<Rightarrow> False" by code_simp
  then obtain s where s: "mutex_acts ?as (mutex_start 0) = Some s" "mpc s 5 = In" by (auto split: option.splits)
  have r: "mutex_reach {} s" by (rule mutex_acts_reach [OF s(1) _ mutex_reach.start]) simp
  have "(6 :: tid) \<noteq> 5" by simp
  then show ?thesis using pthread_mutex_mutual_exclusion [OF r s(2)] r s(2) by blast
qed

subsection \<open>No lost wakeups\<close>

fun registered :: "mpc \<Rightarrow> bool" where
  "registered (Try (Second h)) = True" | "registered (Set_owner (Second h)) = True"
| "registered (Set_count (Second h)) = True" | "registered (Unreg l) = True" | "registered (Blocked h) = True"
| "registered _ = False"

text \<open>About to wait or waiting for the mutex bit.\<close>

fun awaiting :: "mpc \<Rightarrow> bool" where
  "awaiting (Try (Second h)) = True" | "awaiting (Blocked h) = True" | "awaiting _ = False"

definition posting :: "mutex_sys \<Rightarrow> tid \<Rightarrow> bool" where
  "posting s t \<longleftrightarrow> (\<exists>v. mpc s v = Post t)"

definition queued :: "mutex_sys \<Rightarrow> bool" where
  "queued s \<longleftrightarrow> wl_ok (mtx s) \<and> distinct (waiting (mtx s)) \<and> 0 \<notin> set (waiting (mtx s)) \<and>
     (\<forall>t \<in> set (waiting (mtx s)). registered (mpc s t)) \<and>
     (\<forall>t. awaiting (mpc s t) \<longrightarrow> mpend s t \<or> t \<in> set (waiting (mtx s)) \<or> posting s t)"

lemma queued_start: "queued (mutex_start ty)"
  by (simp add: queued_def mutex_start_def wl_ok_def waiting_def)

lemma list_update_frames [simp]:
  "waiting (m\<lparr>mlock := a\<rparr>) = waiting m" "waiting (m\<lparr>mowner := b\<rparr>) = waiting m" "waiting (m\<lparr>mcount := c\<rparr>) = waiting m"
  "wl_ok (m\<lparr>mlock := a\<rparr>) = wl_ok m" "wl_ok (m\<lparr>mowner := b\<rparr>) = wl_ok m" "wl_ok (m\<lparr>mcount := c\<rparr>) = wl_ok m"
  by (simp_all add: waiting_def wl_ok_def)

text \<open>A step of a thread that is not posting and touches at most its own entry of the list.\<close>

lemma queued_step:
  assumes q: "queued s" and pc: "mpc s' = (mpc s)(t := p)" and np: "\<And>w. mpc s t \<noteq> Post w"
    and ok: "wl_ok (mtx s')" "distinct (waiting (mtx s'))" "0 \<notin> set (waiting (mtx s'))"
    and others: "set (waiting (mtx s')) - {t} = set (waiting (mtx s)) - {t}" "\<And>u. u \<noteq> t \<Longrightarrow> mpend s' u = mpend s u"
    and own: "t \<in> set (waiting (mtx s')) \<Longrightarrow> registered p"
      "awaiting p \<Longrightarrow> mpend s' t \<or> t \<in> set (waiting (mtx s')) \<or> posting s t"
  shows "queued s'"
proof -
  have po: "posting s u \<Longrightarrow> posting s' u" for u using np unfolding posting_def pc by (metis fun_upd_apply)
  have mem: "u \<noteq> t \<Longrightarrow> u \<in> set (waiting (mtx s')) \<longleftrightarrow> u \<in> set (waiting (mtx s))" for u using others(1) by blast
  have "mpend s' u \<or> u \<in> set (waiting (mtx s')) \<or> posting s' u" if "awaiting (mpc s' u)" for u
    using that q po [of u] others(2) [of u] mem [of u] own(2) po [of t] unfolding queued_def pc by (cases "u = t") auto
  moreover have "registered (mpc s' u)" if "u \<in> set (waiting (mtx s'))" for u
    using that q mem [of u] own(1) unfolding queued_def pc by (cases "u = t") auto
  ultimately show ?thesis using ok unfolding queued_def by blast
qed

lemma queued_frame:
  assumes q: "queued s" and pc: "mpc s' = (mpc s)(t := p)" and np: "\<And>w. mpc s t \<noteq> Post w"
    and m: "waiting (mtx s') = waiting (mtx s)" "wl_ok (mtx s') = wl_ok (mtx s)"
    and pe: "\<And>u. u \<noteq> t \<Longrightarrow> mpend s' u = mpend s u" "awaiting p \<Longrightarrow> awaiting (mpc s t) \<and> mpend s' t = mpend s t"
    and r: "registered (mpc s t) \<Longrightarrow> registered p"
  shows "queued s'"
  by (rule queued_step [OF q pc np]) (use q m pe r in \<open>auto simp: queued_def\<close>)

lemma queued_register:
  assumes q: "queued s" and t: "t \<noteq> 0" and pc: "mpc s t = Register h"
  shows "queued (mutex_run c t s)"
proof -
  have ok: "wl_ok (mtx s)" and nw: "t \<notin> set (waiting (mtx s))" using q pc by (auto simp: queued_def)
  show ?thesis
  proof (rule wl.add_cases [OF ok, of t])
    assume "waiter_add t (mtx s) = (- 1, mtx s)"
    then have "mutex_run c t s = (if h then s else goto t (Try (First False)) s)"
      by (simp add: mutex_run_def pc mutex_waiter_add_def)
    then show ?thesis using q pc by (auto intro!: queued_frame [OF q])
  next
    assume a: "fst (waiter_add t (mtx s)) = 0" "waiting (snd (waiter_add t (mtx s))) = waiting (mtx s) @ [t]"
    then have "mutex_run c t s = goto t (Try (Second h)) (s\<lparr>mtx := snd (waiter_add t (mtx s))\<rparr>)"
      by (simp add: mutex_run_def pc mutex_waiter_add_def split_beta)
    then show ?thesis using q t nw a(2) wl.ok_add [OF ok, of t]
      by (intro queued_step [OF q, where t = t and p = "Try (Second h)"]) (auto simp: pc queued_def)
  qed
qed

lemma queued_unreg:
  assumes q: "queued s" and pc: "mpc s t = Unreg l"
  shows "queued (mutex_run c t s)"
proof -
  have ok: "wl_ok (mtx s)" and d: "distinct (waiting (mtx s))" using q by (simp_all add: queued_def)
  let ?m = "mutex_waiter_remove t (mtx s)"
  have m: "set (waiting ?m) = set (waiting (mtx s)) - {t}" "distinct (waiting ?m)" "wl_ok ?m"
    unfolding mutex_waiter_remove_def using wl.set_remove [OF ok d] wl.distinct_remove [OF ok d] wl.ok_remove [OF ok] by auto
  show ?thesis using q m pc
    by (intro queued_step [OF q, where t = t and p = "mpc (mutex_run c t s) t"])
      (auto simp: mutex_run_def Let_def queued_def split: leave.splits)
qed

lemma queued_pop:
  assumes q: "queued s" and pc: "mpc s t = Pop"
  shows "queued (mutex_run c t s)"
proof -
  have ok: "wl_ok (mtx s)" and z: "0 \<notin> set (waiting (mtx s))" using q by (simp_all add: queued_def)
  show ?thesis
  proof (rule wl.pop_cases [OF ok z])
    assume "fst (waiter_pop (mtx s)) = L4_nilthread" "snd (waiter_pop (mtx s)) = mtx s"
    then have "mutex_run c t s = mreturn t 0 Out s" by (simp add: mutex_run_def pc mutex_waiter_pop_def split_beta)
    then show ?thesis using pc by (auto intro!: queued_frame [OF q])
  next
    let ?w = "fst (waiter_pop (mtx s))" and ?m = "snd (waiter_pop (mtx s))"
    assume h: "?w \<noteq> L4_nilthread" "waiting (mtx s) = ?w # waiting ?m"
    then have run: "mutex_run c t s = goto t (Post ?w) (s\<lparr>mtx := ?m\<rparr>)"
      by (simp add: mutex_run_def pc mutex_waiter_pop_def split_beta)
    have mem: "set (waiting (mtx s)) = insert ?w (set (waiting ?m))" "distinct (waiting ?m)"
      using h(2) q by (metis list.simps(15), metis distinct.simps(2) queued_def)
    have po: "posting s u \<Longrightarrow> posting (goto t (Post ?w) (s\<lparr>mtx := ?m\<rparr>)) u" for u
      using pc unfolding posting_def by (simp, metis mpc.distinct)
    have "posting (goto t (Post ?w) (s\<lparr>mtx := ?m\<rparr>)) ?w" by (auto simp: posting_def)
    moreover have "t \<notin> set (waiting (mtx s))" using q pc by (auto simp: queued_def)
    ultimately show ?thesis unfolding run using q mem po wl.ok_pop [OF ok] by (auto simp: queued_def)
  qed
qed

lemma queued_post:
  assumes q: "queued s" and pc: "mpc s t = Post w"
  shows "queued (mutex_run c t s)"
proof -
  have run: "mutex_run c t s = mreturn t 0 Out (s\<lparr>mpend := (mpend s)(w := True)\<rparr>)" by (simp add: mutex_run_def pc)
  have "posting s u \<Longrightarrow> u = w \<or> posting (mutex_run c t s) u" for u
    using pc unfolding run posting_def by (simp, metis mpc.inject(7))
  moreover have "t \<notin> set (waiting (mtx s))" using q pc by (auto simp: queued_def)
  ultimately show ?thesis using q unfolding queued_def run by auto
qed

lemma registered_Set_count: "registered (Set_count a) = registered (Set_owner a)"
  by (cases a) simp_all

lemma queued_run:
  assumes q: "queued s" and t: "t \<noteq> 0" "mpc s t \<notin> {Out, In}"
  shows "queued (mutex_run c t s)"
proof (cases "mpc s t")
  case (Try a)
  then show ?thesis
    by (cases a) (auto simp: mutex_run_def lock_word_def try_failed_def intro!: queued_frame [OF q])
next
  case (Set_count a)
  then show ?thesis by (cases a) (auto simp: mutex_run_def Let_def intro!: queued_frame [OF q])
qed (use t q in \<open>auto simp: queued_register queued_unreg queued_pop queued_post\<close>,
    auto simp: mutex_run_def Let_def registered_Set_count intro!: queued_frame [OF q])

lemma queued_call:
  assumes q: "queued s" and t: "mpc s t \<in> {Out, In}" and i: "minitialized (mtx s) \<noteq> 0"
  shows "queued (lock_call timed t s)" "queued (trylock_call t s)" "queued (unlock_call t s)"
proof -
  have np: "mpc s t \<noteq> Post w" "\<not> registered (mpc s t)" "\<not> awaiting (mpc s t)" for w using t by auto
  show "queued (lock_call timed t s)" unfolding lock_call_eq [OF i] using np by (auto intro!: queued_frame [OF q])
  show "queued (trylock_call t s)" unfolding trylock_call_eq [OF i] using np by (auto intro!: queued_frame [OF q])
  show "queued (unlock_call t s)" unfolding unlock_call_def Let_def using np by (auto intro!: queued_frame [OF q])
qed

lemma queued_reach: "mutex_reach F s \<Longrightarrow> queued s"
proof (induction rule: mutex_reach.induct)
  case (step s s')
  have "minitialized (mtx s) \<noteq> 0" using excl_reach [OF step(1)] by (simp add: excl_def)
  with step(2) show ?case by (cases rule: mutex_step.cases) (use step(3) in \<open>auto simp: queued_run queued_call\<close>)
qed (rule queued_start)

text \<open>A thread that will try the lock again or wake a waiter without help from others.\<close>

fun trying :: "mpc \<Rightarrow> bool" where
  "trying (Try a) = True" | "trying (Register h) = True" | "trying (Unreg (Retry h)) = True" | "trying (Unreg Timed_out) = True"
| "trying Pop = True" | "trying _ = False"

definition stuck :: "mutex_sys \<Rightarrow> tid \<Rightarrow> bool" where
  "stuck s t \<longleftrightarrow> (\<exists>h. mpc s t = Blocked h) \<and> \<not> mpend s t"

definition rescuer :: "mutex_sys \<Rightarrow> tid \<Rightarrow> bool" where
  "rescuer s u \<longleftrightarrow> trying (mpc s u) \<or> (\<exists>h. mpc s u = Blocked h) \<and> (mpend s u \<or> posting s u)"

definition awake :: "mutex_sys \<Rightarrow> bool" where
  "awake s \<longleftrightarrow> (\<forall>t. mpc s t \<noteq> Unreg Give_up) \<and>
     (mlock (mtx s) = 0 \<longrightarrow> (\<exists>t. stuck s t) \<longrightarrow> (\<exists>u. rescuer s u))"

lemma awake_start: "awake (mutex_start ty)"
  by (simp add: awake_def mutex_start_def stuck_def)

lemma awake_trying: "awake s \<Longrightarrow> mpc s' = (mpc s)(t := p) \<Longrightarrow> trying p \<Longrightarrow> awake s'"
  by (auto simp: awake_def rescuer_def intro!: exI [of _ t])

lemma awake_locked:
  "awake s \<Longrightarrow> mpc s' = (mpc s)(t := p) \<Longrightarrow> p \<noteq> Unreg Give_up \<Longrightarrow> mlock (mtx s') \<noteq> 0 \<Longrightarrow> awake s'"
  by (simp add: awake_def)

lemma awake_pop:
  assumes a: "awake s" and q: "queued s" and e: "excl s" and pc: "mpc s t = Pop"
  shows "awake (mutex_run c t s)"
proof (cases "mlock (mtx s) = 0")
  case False
  then show ?thesis using a pc
    by (intro awake_locked [OF a, where t = t and p = "mpc (mutex_run c t s) t"]) (auto simp: mutex_run_def split_beta)
next
  case True
  have g: "mpc s u \<noteq> Unreg Give_up" for u using a by (simp add: awake_def)
  have ok: "wl_ok (mtx s)" and z: "0 \<notin> set (waiting (mtx s))" using q by (simp_all add: queued_def)
  show ?thesis
  proof (rule wl.pop_cases [OF ok z])
    assume h: "fst (waiter_pop (mtx s)) = L4_nilthread" "snd (waiter_pop (mtx s)) = mtx s" "waiting (mtx s) = []"
    then have run: "mutex_run c t s = mreturn t 0 Out s" by (simp add: mutex_run_def pc mutex_waiter_pop_def split_beta)
    have "rescuer (mutex_run c t s) u" if "stuck (mutex_run c t s) u" for u
    proof -
      have u: "u \<noteq> t" "stuck s u" using that by (auto simp: run stuck_def split: if_splits)
      then have "awaiting (mpc s u)" "\<not> mpend s u" by (auto simp: stuck_def)
      then have "posting s u" using q h(3) unfolding queued_def by (metis empty_iff empty_set)
      then have "posting (mutex_run c t s) u" using pc unfolding run posting_def by (simp, metis mpc.distinct)
      then show ?thesis using u by (auto simp: rescuer_def stuck_def run)
    qed
    then show ?thesis using g by (auto simp: awake_def run)
  next
    let ?w = "fst (waiter_pop (mtx s))" and ?m = "snd (waiter_pop (mtx s))"
    assume h: "?w \<noteq> L4_nilthread" "waiting (mtx s) = ?w # waiting ?m"
    then have run: "mutex_run c t s = goto t (Post ?w) (s\<lparr>mtx := ?m\<rparr>)"
      by (simp add: mutex_run_def pc mutex_waiter_pop_def split_beta)
    have "?w \<in> set (waiting (mtx s))" using h(2) by (metis list.set_intros(1))
    then have r: "registered (mpc s ?w)" using q by (simp add: queued_def)
    have nh: "\<not> holding (mpc s ?w)" using e True by (simp add: excl_def)
    have "?w \<noteq> t" using r pc by auto
    moreover have "trying (mpc s ?w) \<or> (\<exists>h. mpc s ?w = Blocked h)" using r nh g [of ?w]
      by (cases "mpc s ?w" rule: registered.cases) (auto elim: trying.elims, metis holding.simps(5) leave.exhaust trying.simps(3,4))
    moreover have "posting (mutex_run c t s) ?w" unfolding run posting_def by auto
    ultimately have "rescuer (mutex_run c t s) ?w" by (auto simp: rescuer_def run)
    then show ?thesis using g by (auto simp: awake_def run)
  qed
qed

lemma awake_post:
  assumes a: "awake s" and pc: "mpc s t = Post w"
  shows "awake (mutex_run c t s)"
proof -
  have run: "mutex_run c t s = mreturn t 0 Out (s\<lparr>mpend := (mpend s)(w := True)\<rparr>)" by (simp add: mutex_run_def pc)
  have po: "posting s u \<Longrightarrow> u = w \<or> posting (mutex_run c t s) u" for u
    using pc unfolding run posting_def by (simp, metis mpc.inject(7))
  have st: "stuck (mutex_run c t s) u \<Longrightarrow> stuck s u" for u by (auto simp: run stuck_def split: if_splits)
  have re: "rescuer (mutex_run c t s) u" if "rescuer s u" for u
    using that po [of u] pc by (auto simp: rescuer_def run)
  have "mpc (mutex_run c t s) u \<noteq> Unreg Give_up" for u using a by (simp add: awake_def run)
  moreover have "mlock (mtx (mutex_run c t s)) = mlock (mtx s)" by (simp add: run)
  ultimately show ?thesis using a st re unfolding awake_def by metis
qed

lemma awake_run:
  assumes a: "awake s" and q: "queued s" and e: "excl s" and t: "mpc s t \<notin> {Out, In}"
    and c: "c \<in> {Normal, Timeout, Deadline_passed}"
  shows "awake (mutex_run c t s)"
proof -
  have g: "mpc s u \<noteq> Unreg Give_up" for u using a by (simp add: awake_def)
  have hl: "holding (mpc s t) \<Longrightarrow> mlock (mtx s) \<noteq> 0" using e by (auto simp: excl_def)
  have pcs: "mpc (mutex_run c t s) = (mpc s)(t := mpc (mutex_run c t s) t)"
    by (cases "mpc s t") (auto simp: mutex_run_def Let_def lock_word_def try_failed_def split_beta split: attempt.splits leave.splits)
  note lck = awake_locked [OF a pcs] and tr = awake_trying [OF a pcs]
  show ?thesis
  proof (cases "mpc s t")
    case (Try b)
    then show ?thesis using c
      by (intro lck) (auto simp: mutex_run_def lock_word_def try_failed_def split: attempt.splits)
  next
    case (Set_count b)
    then show ?thesis using hl by (intro lck) (auto simp: mutex_run_def Let_def split: attempt.splits)
  next
    case (Unreg l)
    show ?thesis
    proof (cases "l = Done")
      case True then show ?thesis using Unreg hl by (intro lck) (auto simp: mutex_run_def Let_def)
    next
      case False then show ?thesis using Unreg g [of t] by (intro tr) (auto simp: mutex_run_def Let_def split: leave.splits)
    qed
  next
    case (Blocked h)
    show ?thesis
    proof (cases "h \<and> c = Timeout \<or> mpend s t")
      case True then show ?thesis using Blocked by (intro tr) (auto simp: mutex_run_def Let_def)
    qed (use Blocked a in \<open>auto simp: mutex_run_def Let_def\<close>)
  next
    case (Register h) then show ?thesis by (intro tr) (auto simp: mutex_run_def split_beta)
  next
    case Clr_lock then show ?thesis by (intro tr) (auto simp: mutex_run_def)
  qed (use a q e t in \<open>auto simp: awake_pop awake_post\<close>, (rule lck; use hl in \<open>auto simp: mutex_run_def\<close>)+)
qed

lemma awake_call:
  assumes a: "awake s" and e: "excl s" and t: "mpc s t \<in> {Out, In}" "t \<noteq> 0"
  shows "awake (lock_call timed t s)" "awake (trylock_call t s)" "awake (unlock_call t s)"
proof -
  have i: "minitialized (mtx s) \<noteq> 0" and ot: "owning (mpc s t) = (mowner (mtx s) = t)" using e t by (simp_all add: excl_def)
  have hl: "mowner (mtx s) = t \<Longrightarrow> mlock (mtx s) \<noteq> 0" using e ot owning_holding unfolding excl_def by blast
  have id: "awake (mreturn t r (mpc s t) s)" for r
    using a by (simp add: awake_def stuck_def rescuer_def posting_def)
  have ng: "mpc s t \<noteq> Unreg Give_up" using t by auto
  show "awake (lock_call timed t s)"
  proof (cases "mowner (mtx s) = t")
    case True
    then show ?thesis unfolding lock_call_eq [OF i] using hl id ng
      by (auto intro!: awake_locked [OF a, where t = t and p = "mpc s t"])
  qed (auto simp: lock_call_eq [OF i] intro: awake_trying [OF a])
  show "awake (trylock_call t s)"
  proof (cases "mtype (mtx s) = 1 \<and> mowner (mtx s) = t")
    case True
    then show ?thesis unfolding trylock_call_eq [OF i] using hl id ng
      by (auto intro!: awake_locked [OF a, where t = t and p = "mpc s t"])
  qed (auto simp: trylock_call_eq [OF i] intro: awake_trying [OF a])
  show "awake (unlock_call t s)"
    unfolding unlock_call_def Let_def using hl id ng
    by (auto intro: awake_locked [OF a, where t = t and p = "mpc s t"] awake_locked [OF a, where t = t and p = Clr_count])
qed

lemma awake_reach: "mutex_reach {} s \<Longrightarrow> awake s"
proof (induction rule: mutex_reach.induct)
  case (step s s')
  note e = excl_reach [OF step(1)] and q = queued_reach [OF step(1)]
  from step(2) show ?case
    by (cases rule: mutex_step.cases) (use step(3) e q in \<open>auto simp: awake_run awake_call\<close>)
qed (rule awake_start)

text \<open>C23. No lost wakeups, when exclusive stores fail only on a held lock and timers can be had: a thread that is
  blocked without a pending notification is on the waiter list or is being notified; and if the lock is free,
  some thread is about to try it or to wake a waiter, or has been woken, or is notifying a blocked thread.\<close>

theorem pthread_mutex_no_lost_wakeup:
  assumes r: "mutex_reach {} s" and b: "mpc s t = Blocked h" "\<not> mpend s t"
  shows "(t \<in> set (waiting (mtx s)) \<or> (\<exists>v. mpc s v = Post t)) \<and>
    (mlock (mtx s) = 0 \<longrightarrow> (\<exists>u. trying (mpc s u) \<or> (\<exists>h. mpc s u = Blocked h \<and> mpend s u) \<or>
       (\<exists>w h. mpc s u = Post w \<and> mpc s w = Blocked h)))"
proof -
  have "awaiting (mpc s t)" using b(1) by simp
  then have "t \<in> set (waiting (mtx s)) \<or> posting s t" using queued_reach [OF r] b(2) unfolding queued_def by blast
  moreover have "\<exists>u. rescuer s u" if "mlock (mtx s) = 0"
    using awake_reach [OF r] that b unfolding awake_def stuck_def by blast
  ultimately show ?thesis unfolding rescuer_def posting_def by blast
qed

text \<open>Two threads fight for the mutex: 5 holds it, 6 blocks, 5 releases it and has popped 6.\<close>

definition contended :: "mact list" where
  "contended = [Lock False 5, Run Normal 5, Run Normal 5, Run Normal 5, Lock False 6, Run Normal 6, Run Normal 6, Run Normal 6,
     Unlock 5, Run Normal 5, Run Normal 5, Run Normal 5, Run Normal 5]"

theorem pthread_mutex_no_lost_wakeup_witness:
  "\<exists>s. mutex_reach {} s \<and> mpc s 6 = Blocked False \<and> mlock (mtx s) = 0 \<and>
     (\<exists>u. trying (mpc s u) \<or> (\<exists>h. mpc s u = Blocked h \<and> mpend s u) \<or> (\<exists>w h. mpc s u = Post w \<and> mpc s w = Blocked h))"
proof -
  have "case mutex_acts contended (mutex_start 0) of
    Some s \<Rightarrow> mpc s 6 = Blocked False \<and> \<not> mpend s 6 \<and> mlock (mtx s) = 0 | None \<Rightarrow> False" by code_simp
  then obtain s where s: "mutex_acts contended (mutex_start 0) = Some s" "mpc s 6 = Blocked False" "\<not> mpend s 6"
    "mlock (mtx s) = 0" by (auto split: option.splits)
  have r: "mutex_reach {} s" by (rule mutex_acts_reach [OF s(1) _ mutex_reach.start]) (simp add: contended_def)
  show ?thesis using pthread_mutex_no_lost_wakeup [OF r s(2,3)] r s(2,4) by blast
qed

subsection \<open>Where wakeups do get lost\<close>

fun act_tid :: "mact \<Rightarrow> tid" where
  "act_tid (Lock h t) = t" | "act_tid (Trylock t) = t" | "act_tid (Unlock t) = t" | "act_tid (Run c t) = t"

lemma mutex_act_others:
  assumes "mutex_act a s = Some s'" "u \<noteq> act_tid a"
  shows "mpc s' u = mpc s u"
proof (cases a)
  case (Run c t)
  then show ?thesis using assms
    by (cases "mpc s t") (auto simp: mutex_run_def Let_def lock_word_def try_failed_def split_beta
        split: if_splits attempt.splits leave.splits)
qed (use assms in \<open>auto simp: lock_call_def trylock_call_def unlock_call_def Let_def split_beta
      split: if_splits option.splits\<close>)

lemma mutex_acts_others:
  "mutex_acts as s = Some s' \<Longrightarrow> u \<notin> act_tid ` set as \<Longrightarrow> mpc s' u = mpc s u"
  by (induction as arbitrary: s) (auto split: option.splits dest: mutex_act_others)

text \<open>A schedule that leaves threads 5 and 6 as given, everybody else outside.\<close>

lemma stall_from_schedule:
  assumes run: "mutex_acts as (mutex_start 0) = Some s" and allowed: "list_all (act_allowed F) as"
    and two: "act_tid ` set as \<subseteq> {5, 6}" and p: "mpc s 5 = Blocked False" "mpc s 6 = Out" "\<not> mpend s 5" "mlock (mtx s) = 0"
  shows "\<exists>s. mutex_reach F s \<and> mlock (mtx s) = 0 \<and> mpc s = (\<lambda>_. Out)(5 := Blocked False) \<and> \<not> mpend s 5"
proof -
  have "mutex_reach F s" by (rule mutex_acts_reach [OF run allowed mutex_reach.start])
  moreover have "mpc s u = Out" if "u \<noteq> 5" for u
  proof (cases "u = 6")
    case False
    then have "mpc s u = mpc (mutex_start 0) u" using mutex_acts_others [OF run] two that by blast
    then show ?thesis by (simp add: mutex_start_def)
  qed (simp add: p(2))
  then have "mpc s = (\<lambda>_. Out)(5 := Blocked False)" using p(1) by auto
  ultimately show ?thesis using p by blast
qed

text \<open>The exclusive store may fail although the lock is free (an exception between the two instructions): two
  such failures in a row put a thread to sleep on a free mutex with nobody left to wake it.\<close>

theorem pthread_mutex_lock_stalls_on_free_mutex:
  "\<exists>s. mutex_reach {Strex_fails} s \<and> mlock (mtx s) = 0 \<and> mpc s = (\<lambda>_. Out)(5 := Blocked False) \<and> \<not> mpend s 5"
proof -
  define as where "as = [Lock False 5, Run Strex_fails 5, Run Normal 5, Run Strex_fails 5]"
  have "case mutex_acts [Lock False 5, Run Strex_fails 5, Run Normal 5, Run Strex_fails 5] (mutex_start 0) of
    Some s \<Rightarrow> mpc s 5 = Blocked False \<and> mpc s 6 = Out \<and> \<not> mpend s 5 \<and> mlock (mtx s) = 0 | None \<Rightarrow> False" by code_simp
  then obtain s where s: "mutex_acts as (mutex_start 0) = Some s" "mpc s 5 = Blocked False" "mpc s 6 = Out" "\<not> mpend s 5"
    "mlock (mtx s) = 0" unfolding as_def [symmetric] by (auto split: option.splits)
  show ?thesis by (rule stall_from_schedule [OF s(1) _ _ s(2-5)]) (simp_all add: as_def)
qed

text \<open>The same end without spurious failures: thread 6 waits with a deadline, is taken off the list by the
  unlocking thread 7, cannot get a timer and leaves; thread 5 behind it is not woken.\<close>

definition swallow :: "mact list" where
  "swallow = [Lock False 7, Run Normal 7, Run Normal 7, Run Normal 7,
     Lock True 6, Run Normal 6, Run Normal 6, Lock False 5, Run Normal 5, Run Normal 5, Run Normal 5,
     Run Timer_fails 6, Unlock 7, Run Normal 7, Run Normal 7, Run Normal 7, Run Normal 7, Run Normal 7, Run Normal 6]"

lemma pthread_mutex_timedlock_swallows_wakeup:
  "\<exists>s. mutex_reach {Timer_fails} s \<and> mlock (mtx s) = 0 \<and> mpc s 5 = Blocked False \<and> \<not> mpend s 5 \<and>
     mpc s 6 = Out \<and> mpc s 7 = Out"
proof -
  have "case mutex_acts swallow (mutex_start 0) of
    Some s \<Rightarrow> mpc s 5 = Blocked False \<and> mpc s 6 = Out \<and> mpc s 7 = Out \<and> \<not> mpend s 5 \<and> mlock (mtx s) = 0 | None \<Rightarrow> False"
    by code_simp
  then obtain s where s: "mutex_acts swallow (mutex_start 0) = Some s" "mpc s 5 = Blocked False" "mpc s 6 = Out"
    "mpc s 7 = Out" "\<not> mpend s 5" "mlock (mtx s) = 0" by (auto split: option.splits)
  have "mutex_reach {Timer_fails} s" by (rule mutex_acts_reach [OF s(1) _ mutex_reach.start]) (simp add: swallow_def)
  then show ?thesis using s by blast
qed

end
