(* ===== verification/Posix_Sem.thy ===== *)
theory Posix_Sem
  imports Posix_Mutex
begin

text \<open>
  Semaphores, \<^verbatim>\<open>user/lib/posix/semaphore.c\<close>: the operations as one thread sees them and their
  interleaving. Unlike the mutex, the exclusive pairs here are retried until they go through, so an access to
  the count is one atomic step. The waiter list is the one of theory \<open>Waiters\<close>.
\<close>

record sem_t = wait_list +
  scount :: u32
  spshared :: u32

abbreviation (input) SEM_VALUE_MAX :: u32 where "SEM_VALUE_MAX \<equiv> 32767"

subsection \<open>Operations\<close>

definition waiter_list_add_locked :: "tid \<Rightarrow> sem_t \<Rightarrow> int \<times> sem_t" where
  "waiter_list_add_locked t m = waiter_add t m"

definition waiter_list_remove_locked :: "tid \<Rightarrow> sem_t \<Rightarrow> int \<times> sem_t" where
  "waiter_list_remove_locked t m = waiter_remove t m"

definition waiter_list_pop_locked :: "sem_t \<Rightarrow> tid \<times> sem_t" where
  "waiter_list_pop_locked m = waiter_pop m"

definition sem_init :: "u32 \<Rightarrow> u32 \<Rightarrow> sem_t option \<Rightarrow> int \<times> sem_t option" where
  "sem_init pshared val sem =
     on_ptr sem (\<lambda>m. if val > SEM_VALUE_MAX then (EINVAL, m)
                     else (0, waiters_init (m\<lparr>scount := val, spshared := pshared\<rparr>)))"

definition sem_destroy :: "sem_t option \<Rightarrow> int \<times> sem_t option" where
  "sem_destroy sem = on_ptr sem (\<lambda>m. if num_waiters m > 0 then (EBUSY, m) else (0, m\<lparr>scount := 0\<rparr>))"

definition sem_trywait :: "sem_t option \<Rightarrow> int \<times> sem_t option" where
  "sem_trywait sem = on_ptr sem (\<lambda>m. if scount m = 0 then (EAGAIN, m) else (0, m\<lparr>scount := scount m - 1\<rparr>))"

text \<open>The increment of \<open>sem_post\<close>, and the whole call with the thread it notifies.\<close>

definition sem_increment :: "sem_t \<Rightarrow> int \<times> sem_t" where
  "sem_increment m =
     (if scount m \<ge> SEM_VALUE_MAX then (EOVERFLOW, m) else (0, m\<lparr>scount := scount m + 1\<rparr>))"

definition sem_post :: "sem_t option \<Rightarrow> int \<times> tid option \<times> sem_t option" where
  "sem_post sem = (case sem of
     None \<Rightarrow> (EINVAL, None, None)
   | Some m \<Rightarrow> (case sem_increment m of (r, m) \<Rightarrow>
       if r \<noteq> 0 then (r, None, Some m)
       else case waiter_list_pop_locked m of (w, m) \<Rightarrow> (0, if w \<noteq> L4_nilthread then Some w else None, Some m)))"

definition sem_getvalue :: "sem_t option \<Rightarrow> bool \<Rightarrow> int \<times> int option" where
  "sem_getvalue sem has_sval = (case sem of
     None \<Rightarrow> (EINVAL, None)
   | Some m \<Rightarrow> if \<not> has_sval then (EINVAL, None) else (0, Some (sint (scount m))))"

subsection \<open>Interleaving\<close>

text \<open>\<open>S_try\<close>: before \<open>sem_trywait\<close>, called directly (\<open>None\<close>) or in \<open>sem_wait\<close> before or after registering;
  \<open>S_unreg\<close>: before leaving the list, with or without a unit. \<open>taken\<close> and \<open>given\<close> count the successful waits and
  posts; they are not part of the program.\<close>

datatype spc = S_out | S_try "bool option" | S_register | S_blocked | S_unreg bool | P_inc | P_pop | P_post tid

record sem_sys =
  sem :: sem_t
  spend :: "tid \<Rightarrow> bool"
  spc :: "tid \<Rightarrow> spc"
  sret :: "tid \<Rightarrow> int"
  taken :: nat
  given :: nat

definition sgoto :: "tid \<Rightarrow> spc \<Rightarrow> sem_sys \<Rightarrow> sem_sys" where
  "sgoto t p s = s\<lparr>spc := (spc s)(t := p)\<rparr>"

definition sreturn :: "tid \<Rightarrow> int \<Rightarrow> sem_sys \<Rightarrow> sem_sys" where
  "sreturn t r s = sgoto t S_out (s\<lparr>sret := (sret s)(t := r)\<rparr>)"

definition sem_run :: "tid \<Rightarrow> sem_sys \<Rightarrow> sem_sys" where
  "sem_run t s = (case spc s t of
     S_out \<Rightarrow> s
   | S_try mode \<Rightarrow> (case sem_trywait (Some (sem s)) of (r, m) \<Rightarrow>
       if r = 0
       then let s = s\<lparr>sem := the m, taken := taken s + 1\<rparr>
            in if mode = Some True then sgoto t (S_unreg True) s else sreturn t 0 s
       else (case mode of None \<Rightarrow> sreturn t EAGAIN s
                        | Some False \<Rightarrow> sgoto t S_register s
                        | Some True \<Rightarrow> sgoto t S_blocked s))
   | S_register \<Rightarrow> (case waiter_list_add_locked t (sem s) of (r, m) \<Rightarrow>
       if r < 0 then sgoto t (S_try (Some False)) s else sgoto t (S_try (Some True)) (s\<lparr>sem := m\<rparr>))
   | S_blocked \<Rightarrow> if spend s t then sgoto t (S_unreg False) (s\<lparr>spend := (spend s)(t := False)\<rparr>) else s
   | S_unreg got \<Rightarrow>
       let s = s\<lparr>sem := snd (waiter_list_remove_locked t (sem s))\<rparr>
       in if got then sreturn t 0 s else sgoto t (S_try (Some False)) s
   | P_inc \<Rightarrow> (case sem_increment (sem s) of (r, m) \<Rightarrow>
       if r \<noteq> 0 then sreturn t r s else sgoto t P_pop (s\<lparr>sem := m, given := given s + 1\<rparr>))
   | P_pop \<Rightarrow> (case waiter_list_pop_locked (sem s) of (w, m) \<Rightarrow>
       if w \<noteq> L4_nilthread then sgoto t (P_post w) (s\<lparr>sem := m\<rparr>) else sreturn t 0 (s\<lparr>sem := m\<rparr>))
   | P_post w \<Rightarrow> sreturn t 0 (s\<lparr>spend := (spend s)(w := True)\<rparr>))"

datatype sact = Sem_wait tid | Sem_trywait tid | Sem_post tid | Sem_run tid

text \<open>One step of the system; \<open>None\<close> when the action is not possible.\<close>

fun sem_act :: "sact \<Rightarrow> sem_sys \<Rightarrow> sem_sys option" where
  "sem_act (Sem_wait t) s = (if t \<noteq> L4_nilthread \<and> spc s t = S_out then Some (sgoto t (S_try (Some False)) s) else None)"
| "sem_act (Sem_trywait t) s = (if t \<noteq> L4_nilthread \<and> spc s t = S_out then Some (sgoto t (S_try None) s) else None)"
| "sem_act (Sem_post t) s = (if t \<noteq> L4_nilthread \<and> spc s t = S_out then Some (sgoto t P_inc s) else None)"
| "sem_act (Sem_run t) s = (if t \<noteq> L4_nilthread \<and> spc s t \<noteq> S_out then Some (sem_run t s) else None)"

fun sem_acts :: "sact list \<Rightarrow> sem_sys \<Rightarrow> sem_sys option" where
  "sem_acts [] s = Some s"
| "sem_acts (a # as) s = (case sem_act a s of Some s' \<Rightarrow> sem_acts as s' | None \<Rightarrow> None)"

definition sem_start :: "u32 \<Rightarrow> sem_sys" where
  "sem_start v =
     \<lparr>sem = \<lparr>waiters_lock = 0, num_waiters = 0, waiters = replicate MAX_WAITERS 0, scount = v, spshared = 0\<rparr>,
      spend = (\<lambda>_. False), spc = (\<lambda>_. S_out), sret = (\<lambda>_. 0), taken = 0, given = 0\<rparr>"

inductive sem_reach :: "u32 \<Rightarrow> sem_sys \<Rightarrow> bool" for v where
  start: "sem_reach v (sem_start v)"
| step: "sem_reach v s \<Longrightarrow> sem_act a s = Some s' \<Longrightarrow> sem_reach v s'"

lemma sem_acts_reach: "sem_acts as s = Some s' \<Longrightarrow> sem_reach v s \<Longrightarrow> sem_reach v s'"
  by (induction as arbitrary: s) (auto split: option.splits intro: sem_reach.step)

subsection \<open>Units are conserved\<close>

lemma sgoto_fields [simp]:
  "sem (sgoto t p s) = sem s" "spend (sgoto t p s) = spend s" "spc (sgoto t p s) = (spc s)(t := p)"
  "taken (sgoto t p s) = taken s" "given (sgoto t p s) = given s"
  "sem (sreturn t r s) = sem s" "spend (sreturn t r s) = spend s" "spc (sreturn t r s) = (spc s)(t := S_out)"
  "taken (sreturn t r s) = taken s" "given (sreturn t r s) = given s"
  by (simp_all add: sgoto_def sreturn_def)

lemma scount_list [simp]:
  "scount (snd (waiter_list_add_locked t m)) = scount m" "scount (snd (waiter_list_remove_locked t m)) = scount m"
  "scount (snd (waiter_list_pop_locked m)) = scount m"
proof -
  have "wait_list.more m' = wait_list.more m \<Longrightarrow> scount m' = scount m" for m' :: sem_t by (cases m; cases m') simp
  then show "scount (snd (waiter_list_add_locked t m)) = scount m" "scount (snd (waiter_list_remove_locked t m)) = scount m"
    "scount (snd (waiter_list_pop_locked m)) = scount m"
    unfolding waiter_list_add_locked_def waiter_list_remove_locked_def waiter_list_pop_locked_def by (metis wait_list_more)+
qed

definition balanced :: "u32 \<Rightarrow> sem_sys \<Rightarrow> bool" where
  "balanced v s \<longleftrightarrow> unat (scount (sem s)) + taken s = unat v + given s \<and> scount (sem s) \<le> SEM_VALUE_MAX"

lemma balanced_same: "balanced v s \<Longrightarrow> scount (sem s') = scount (sem s) \<Longrightarrow> taken s' = taken s \<Longrightarrow> given s' = given s \<Longrightarrow> balanced v s'"
  by (simp add: balanced_def)

lemma balanced_try:
  assumes "balanced v s" "spc s t = S_try mode"
  shows "balanced v (sem_run t s)"
proof (cases "scount (sem s) = 0")
  case True
  then show ?thesis using assms
    by (auto simp: sem_run_def sem_trywait_def on_ptr_def split: option.splits bool.splits intro!: balanced_same [OF assms(1)])
next
  case False
  then have "unat (scount (sem s) - 1) = unat (scount (sem s)) - 1" "unat (scount (sem s)) > 0"
    by (simp_all add: unat_minus_one unat_gt_0)
  then show ?thesis using assms False by (auto simp: balanced_def sem_run_def sem_trywait_def on_ptr_def Let_def word_le_nat_alt)
qed

lemma balanced_inc:
  assumes "balanced v s" "spc s t = P_inc"
  shows "balanced v (sem_run t s)"
proof (cases "scount (sem s) < SEM_VALUE_MAX")
  case True
  then have u: "unat (scount (sem s)) < 32767" by (simp add: word_less_nat_alt)
  then have "unat (scount (sem s) + 1) = unat (scount (sem s)) + 1" by (simp add: unat_word_ariths)
  then show ?thesis using assms True u by (auto simp: balanced_def sem_run_def sem_increment_def word_le_nat_alt)
qed (use assms in \<open>auto simp: balanced_def sem_run_def sem_increment_def\<close>)

lemma balanced_act:
  assumes b: "balanced v s" and a: "sem_act a s = Some s'"
  shows "balanced v s'"
proof (cases a)
  case (Sem_run t)
  then have s': "s' = sem_run t s" using a by (simp split: if_splits)
  show ?thesis unfolding s'
    by (cases "spc s t") (use b in \<open>auto simp: balanced_try balanced_inc\<close>,
        auto simp: sem_run_def Let_def split_beta split: if_splits intro!: balanced_same [OF b])
qed (use a in \<open>auto split: if_splits intro!: balanced_same [OF b]\<close>)


text \<open>Thread 6 finds the semaphore empty; before it registers, thread 7 posts (and finds no waiter); thread 6
  registers and takes the unit but is still on the list when thread 5 registers behind it and blocks. The
  next post of thread 7 pops thread 6, which has its unit already.\<close>

definition lost_post :: "sact list" where
  "lost_post = [Sem_wait 6, Sem_run 6, Sem_post 7, Sem_run 7, Sem_run 7, Sem_run 6, Sem_run 6,
     Sem_wait 5, Sem_run 5, Sem_run 5, Sem_run 5, Sem_post 7, Sem_run 7, Sem_run 7, Sem_run 7, Sem_run 6]"


subsection \<open>A post can be lost\<close>

fun sact_tid :: "sact \<Rightarrow> tid" where
  "sact_tid (Sem_wait t) = t" | "sact_tid (Sem_trywait t) = t" | "sact_tid (Sem_post t) = t" | "sact_tid (Sem_run t) = t"

lemma sem_act_others:
  assumes "sem_act a s = Some s'" "u \<noteq> sact_tid a"
  shows "spc s' u = spc s u"
proof (cases a)
  case (Sem_run t)
  then show ?thesis using assms
    by (cases "spc s t") (auto simp: sem_run_def Let_def split_beta split: if_splits option.splits bool.splits)
qed (use assms in \<open>auto split: if_splits\<close>)

lemma sem_acts_others: "sem_acts as s = Some s' \<Longrightarrow> u \<notin> sact_tid ` set as \<Longrightarrow> spc s' u = spc s u"
  by (induction as arbitrary: s) (auto split: option.splits dest: sem_act_others)

text \<open>A unit and a waiter can miss each other: the semaphore holds a unit, a thread is blocked in
  \<open>sem_wait\<close> with no notification pending, and no other thread is inside a semaphore function, so that
  nothing wakes it until somebody posts again.\<close>

theorem sem_post_loses_wakeup:
  "\<exists>s. sem_reach 0 s \<and> scount (sem s) = 1 \<and> spc s = (\<lambda>_. S_out)(5 := S_blocked) \<and> \<not> spend s 5"
proof -
  have "case sem_acts lost_post (sem_start 0) of
    Some s \<Rightarrow> scount (sem s) = 1 \<and> spc s 5 = S_blocked \<and> \<not> spend s 5 \<and> spc s 6 = S_out \<and> spc s 7 = S_out | None \<Rightarrow> False"
    by code_simp
  then obtain s where s: "sem_acts lost_post (sem_start 0) = Some s" "scount (sem s) = 1" "spc s 5 = S_blocked" "\<not> spend s 5"
    "spc s 6 = S_out" "spc s 7 = S_out" by (auto split: option.splits)
  have "spc s u = S_out" if "u \<noteq> 5" for u
  proof (cases "u = 6 \<or> u = 7")
    case False
    then have "u \<notin> sact_tid ` set lost_post" using that by (simp add: lost_post_def)
    then have "spc s u = spc (sem_start 0) u" by (rule sem_acts_others [OF s(1)])
    then show ?thesis by (simp add: sem_start_def)
  qed (use s(5,6) in auto)
  then have "spc s = (\<lambda>_. S_out)(5 := S_blocked)" using s(3) by auto
  moreover have "sem_reach 0 s" by (rule sem_acts_reach [OF s(1) sem_reach.start])
  ultimately show ?thesis using s(2,4) by blast
qed

end
