(* ===== verification/Posix_Cond.thy ===== *)
theory Posix_Cond
  imports Posix_Mutex
begin

text \<open>
  Condition variables and barriers, \<^verbatim>\<open>user/lib/posix/pthread.c\<close>. The operations that do not block are functions;
  \<open>pthread_barrier_wait\<close>, with the \<open>pthread_cond_wait\<close> and \<open>pthread_cond_broadcast\<close> inside it, is a
  transition system in which the mutex of the barrier is a word that names its holder: that a
  \<open>pthread_mutex_t\<close> admits one holder at a time is the subject of theory \<open>Posix_Mutex\<close>.
\<close>

subsection \<open>Condition variables\<close>

record posix_attr =
  pa_pshared :: bool
  pa_initialized :: bool

record pthread_cond_t = wait_list +
  wait_count :: u32
  signal_count :: u32
  broadcast_seq :: u32
  cinitialized :: u8

text \<open>The attribute objects of condition variables, read-write locks and barriers have the same layout and the same
  two functions.\<close>

definition attr_init :: "posix_attr option \<Rightarrow> int \<times> posix_attr option" where
  "attr_init attr = on_ptr attr (\<lambda>a. (0, a\<lparr>pa_pshared := False, pa_initialized := True\<rparr>))"

definition attr_destroy :: "posix_attr option \<Rightarrow> int \<times> posix_attr option" where
  "attr_destroy attr = on_ptr attr (\<lambda>a. if \<not> pa_initialized a then (EINVAL, a) else (0, a\<lparr>pa_initialized := False\<rparr>))"

definition pthread_condattr_init :: "posix_attr option \<Rightarrow> int \<times> posix_attr option" where
  "pthread_condattr_init = attr_init"
definition pthread_condattr_destroy :: "posix_attr option \<Rightarrow> int \<times> posix_attr option" where
  "pthread_condattr_destroy = attr_destroy"
definition pthread_barrierattr_init :: "posix_attr option \<Rightarrow> int \<times> posix_attr option" where
  "pthread_barrierattr_init = attr_init"
definition pthread_barrierattr_destroy :: "posix_attr option \<Rightarrow> int \<times> posix_attr option" where
  "pthread_barrierattr_destroy = attr_destroy"

definition attr_bad :: "posix_attr option \<Rightarrow> bool" where
  "attr_bad attr \<longleftrightarrow> (case attr of Some a \<Rightarrow> \<not> pa_initialized a | None \<Rightarrow> False)"

definition cond_waiter_add :: "tid \<Rightarrow> pthread_cond_t \<Rightarrow> int \<times> pthread_cond_t" where
  "cond_waiter_add t c = waiter_add t c"

definition cond_waiter_remove :: "tid \<Rightarrow> pthread_cond_t \<Rightarrow> pthread_cond_t" where
  "cond_waiter_remove t c = snd (waiter_remove t c)"

definition cond_waiter_pop :: "pthread_cond_t \<Rightarrow> tid \<times> pthread_cond_t" where
  "cond_waiter_pop c = waiter_pop c"

definition pthread_cond_init :: "posix_attr option \<Rightarrow> pthread_cond_t option \<Rightarrow> int \<times> pthread_cond_t option" where
  "pthread_cond_init attr cond =
     on_ptr cond (\<lambda>c. if attr_bad attr then (EINVAL, c)
       else (0, waiters_init (c\<lparr>wait_count := 0, signal_count := 0, broadcast_seq := 0, cinitialized := 1\<rparr>)))"

definition pthread_cond_destroy :: "pthread_cond_t option \<Rightarrow> int \<times> pthread_cond_t option" where
  "pthread_cond_destroy cond =
     on_ptr cond (\<lambda>c. if cinitialized c = 0 then (EINVAL, c)
       else if wait_count c > 0 then (EBUSY, c) else (0, c\<lparr>cinitialized := 0\<rparr>))"

text \<open>Signal and broadcast return the threads they notify.\<close>

definition pthread_cond_signal :: "pthread_cond_t option \<Rightarrow> int \<times> tid list \<times> pthread_cond_t option" where
  "pthread_cond_signal cond = (case cond of
     None \<Rightarrow> (EINVAL, [], None)
   | Some c \<Rightarrow> (case cond_waiter_pop (c\<lparr>signal_count := signal_count c + 1\<rparr>) of (w, c) \<Rightarrow>
       (0, if w \<noteq> L4_nilthread then [w] else [], Some c)))"

lemma cond_pop_less:
  assumes "cond_waiter_pop c = (w, c')" "w \<noteq> L4_nilthread"
  shows "unat (num_waiters c') < unat (num_waiters c)"
proof -
  have n: "num_waiters c \<noteq> 0" using assms by (auto simp: cond_waiter_pop_def waiter_pop_def split: if_splits)
  then have "num_waiters c' = num_waiters c - 1" using assms(1) by (auto simp: cond_waiter_pop_def waiter_pop_def)
  then show ?thesis using n by (simp add: unat_minus_one unat_gt_0)
qed

function cond_drain :: "pthread_cond_t \<Rightarrow> tid list \<times> pthread_cond_t" where
  "cond_drain c =
     (case cond_waiter_pop c of (w, c') \<Rightarrow>
      if w \<noteq> L4_nilthread then (case cond_drain c' of (ws, c'') \<Rightarrow> (w # ws, c'')) else ([], c'))"
  by auto

termination
  by (relation "measure (\<lambda>c. unat (num_waiters c))") (auto dest: cond_pop_less [OF sym])

declare cond_drain.simps [simp del]

definition pthread_cond_broadcast :: "pthread_cond_t option \<Rightarrow> int \<times> tid list \<times> pthread_cond_t option" where
  "pthread_cond_broadcast cond = (case cond of
     None \<Rightarrow> (EINVAL, [], None)
   | Some c \<Rightarrow> (case cond_drain (c\<lparr>broadcast_seq := broadcast_seq c + 1\<rparr>) of (ws, c) \<Rightarrow> (0, ws, Some c)))"

lemma cond_drain_all:
  assumes "wl_ok c" "waiting c = ts" "L4_nilthread \<notin> set ts"
  shows "fst (cond_drain c) = ts \<and> waiting (snd (cond_drain c)) = [] \<and> wl_ok (snd (cond_drain c)) \<and>
    wait_list.more (snd (cond_drain c)) = wait_list.more c"
  using assms
proof (induction ts arbitrary: c)
  case Nil
  then show ?case using waiter_pop_empty [OF Nil(1,2)] by (subst (1 2 3 4) cond_drain.simps) (simp add: cond_waiter_pop_def)
next
  case (Cons t ts)
  note h = waiter_pop_head [OF Cons(2,3)]
  have "cond_drain c = (t # fst (cond_drain (snd (waiter_pop c))), snd (cond_drain (snd (waiter_pop c))))"
    using h(1) Cons(4) by (subst cond_drain.simps) (simp add: cond_waiter_pop_def split_beta)
  then show ?case using Cons(1) [OF h(3,2)] Cons(4) by simp
qed

text \<open>A broadcast returns, notifies every thread on the waiter list once, in the order in which they came,
  leaves the list empty and counts the event; the other fields keep their values.\<close>

theorem pthread_cond_broadcast_wakes_all:
  assumes "wl_ok c" "L4_nilthread \<notin> set (waiting c)"
  shows "\<exists>c'. pthread_cond_broadcast (Some c) = (0, waiting c, Some c') \<and> waiting c' = [] \<and> wl_ok c' \<and>
    broadcast_seq c' = broadcast_seq c + 1 \<and> signal_count c' = signal_count c \<and> wait_count c' = wait_count c"
proof -
  let ?c = "c\<lparr>broadcast_seq := broadcast_seq c + 1\<rparr>"
  have "wl_ok ?c" "waiting ?c = waiting c" using assms(1) by (simp_all add: wl_ok_def waiting_def)
  from cond_drain_all [OF this assms(2)] obtain c' where
    d: "cond_drain ?c = (waiting c, c')" "waiting c' = []" "wl_ok c'" "wait_list.more c' = wait_list.more ?c"
    by (metis prod.collapse)
  have "broadcast_seq c' = broadcast_seq ?c" "signal_count c' = signal_count ?c" "wait_count c' = wait_count ?c"
    using d(4) by (cases c'; cases c; simp)+
  then show ?thesis using d by (simp add: pthread_cond_broadcast_def)
qed

definition three_waiting :: pthread_cond_t where
  "three_waiting = \<lparr>waiters_lock = 0, num_waiters = 3, waiters = [7, 5, 6, 0, 0, 0, 0, 0], wait_count = 3, signal_count = 0,
     broadcast_seq = 0, cinitialized = 1\<rparr>"

theorem pthread_cond_broadcast_wakes_all_witness:
  "\<exists>c'. pthread_cond_broadcast (Some three_waiting) = (0, [7, 5, 6], Some c') \<and> waiting c' = []"
  using pthread_cond_broadcast_wakes_all [of three_waiting]
  by (auto simp: three_waiting_def wl_ok_def waiting_def take_Cons')

end
