(* ===== verification/Posix_Barrier.thy ===== *)
theory Posix_Barrier
  imports Posix_Cond
begin

text \<open>
  Barriers, \<^verbatim>\<open>user/lib/posix/pthread.c\<close>. \<open>pthread_barrier_wait\<close> is unfolded into its atomic steps, with the
  \<open>pthread_cond_wait\<close> and \<open>pthread_cond_broadcast\<close> it calls; \<open>bholder\<close> is the thread that holds the mutex of
  the barrier (0: nobody).
\<close>

record pthread_barrier_t =
  bcount :: u32
  bwaiting :: u32
  bcycle :: u32
  bmutex :: pthread_mutex_t
  bcond :: pthread_cond_t
  binitialized :: u8

definition pthread_barrier_init :: "posix_attr option \<Rightarrow> u32 \<Rightarrow> pthread_barrier_t option \<Rightarrow> int \<times> pthread_barrier_t option" where
  "pthread_barrier_init attr count barrier =
     (if count = 0 then (EINVAL, barrier)
      else on_ptr barrier (\<lambda>b. if attr_bad attr then (EINVAL, b)
        else case pthread_mutex_init None (Some (bmutex b)) of (r, m) \<Rightarrow>
          if r \<noteq> 0 then (r, b)
          else case pthread_cond_init None (Some (bcond b)) of (r, c) \<Rightarrow>
            if r \<noteq> 0 then (r, b\<lparr>bmutex := the (snd (pthread_mutex_destroy m))\<rparr>)
            else (0, b\<lparr>bmutex := the m, bcond := the c, bcount := count, bwaiting := 0, bcycle := 0, binitialized := 1\<rparr>)))"

definition pthread_barrier_destroy :: "pthread_barrier_t option \<Rightarrow> int \<times> pthread_barrier_t option" where
  "pthread_barrier_destroy barrier =
     on_ptr barrier (\<lambda>b. if binitialized b = 0 then (EINVAL, b)
       else if bwaiting b > 0 then (EBUSY, b)
       else (0, b\<lparr>bcond := the (snd (pthread_cond_destroy (Some (bcond b)))),
                  bmutex := the (snd (pthread_mutex_destroy (Some (bmutex b)))), binitialized := 0\<rparr>))"

subsection \<open>The transition system\<close>

text \<open>The first parameter of a place is \<open>my_cycle\<close>; \<open>B_add\<close>, \<open>B_unlock\<close>, \<open>B_test\<close> and \<open>B_block\<close> also carry the values
  of \<open>signal_count\<close> and \<open>broadcast_seq\<close> captured on entry of \<open>pthread_cond_wait\<close>. \<open>B_leave True\<close> is the
  way out of the last thread of a round, which gets \<open>PTHREAD_BARRIER_SERIAL_THREAD\<close>.\<close>

datatype bpc =
    B_out | B_lock | B_arrive
  | B_capture u32 | B_add u32 u32 u32 | B_unlock u32 u32 u32 | B_test u32 u32 u32 | B_block u32 u32 u32
  | B_remove u32 | B_uncount u32 | B_relock u32 | B_recheck u32
  | B_bcast | B_drain | B_post tid | B_leave bool

record barrier_sys =
  bar :: pthread_barrier_t
  bholder :: tid
  bpend :: "tid \<Rightarrow> bool"
  bpc :: "tid \<Rightarrow> bpc"
  arrivals :: nat
  rounds :: nat
  round_of :: "tid \<Rightarrow> nat"

text \<open>\<open>arrivals\<close>, \<open>rounds\<close> and \<open>round_of\<close> record what happened and are not part of the program.\<close>

definition bgoto :: "tid \<Rightarrow> bpc \<Rightarrow> barrier_sys \<Rightarrow> barrier_sys" where
  "bgoto t p s = s\<lparr>bpc := (bpc s)(t := p)\<rparr>"

definition on_cond :: "(pthread_cond_t \<Rightarrow> pthread_cond_t) \<Rightarrow> barrier_sys \<Rightarrow> barrier_sys" where
  "on_cond f s = s\<lparr>bar := (bar s)\<lparr>bcond := f (bcond (bar s))\<rparr>\<rparr>"

definition barrier_arrive :: "tid \<Rightarrow> barrier_sys \<Rightarrow> barrier_sys" where
  "barrier_arrive t s =
     (let b = bar s;
          s = s\<lparr>arrivals := arrivals s + 1, round_of := (round_of s)(t := rounds s)\<rparr>
      in if bwaiting b + 1 = bcount b
         then bgoto t B_bcast (s\<lparr>bar := b\<lparr>bwaiting := 0, bcycle := bcycle b + 1\<rparr>, rounds := rounds s + 1\<rparr>)
         else bgoto t (B_capture (bcycle b)) (s\<lparr>bar := b\<lparr>bwaiting := bwaiting b + 1\<rparr>\<rparr>))"

text \<open>The steps inside \<open>pthread_cond_wait\<close>, then those of \<open>pthread_barrier_wait\<close> with the broadcast of the last thread;
  a thread that cannot go on stays where it is.\<close>

definition cond_wait_run :: "tid \<Rightarrow> barrier_sys \<Rightarrow> barrier_sys" where
  "cond_wait_run t s = (case bpc s t of
     B_capture y \<Rightarrow>
       let c = bcond (bar s)
       in bgoto t (B_add y (signal_count c) (broadcast_seq c)) (on_cond (wait_count_update (\<lambda>n. n + 1)) s)
   | B_add y i j \<Rightarrow> (case cond_waiter_add t (bcond (bar s)) of (r, c) \<Rightarrow>
       if r < 0 then s else bgoto t (B_unlock y i j) (on_cond (\<lambda>_. c) s))
   | B_unlock y i j \<Rightarrow> bgoto t (B_test y i j) (s\<lparr>bholder := 0\<rparr>)
   | B_test y i j \<Rightarrow>
       let c = bcond (bar s)
       in bgoto t (if signal_count c = i \<and> broadcast_seq c = j then B_block y i j else B_remove y) s
   | B_block y i j \<Rightarrow> if bpend s t then bgoto t (B_test y i j) (s\<lparr>bpend := (bpend s)(t := False)\<rparr>) else s
   | B_remove y \<Rightarrow> bgoto t (B_uncount y) (on_cond (cond_waiter_remove t) s)
   | B_uncount y \<Rightarrow> bgoto t (B_relock y) (on_cond (wait_count_update (\<lambda>n. n - 1)) s)
   | B_relock y \<Rightarrow> if bholder s = 0 then bgoto t (B_recheck y) (s\<lparr>bholder := t\<rparr>) else s
   | _ \<Rightarrow> s)"

definition barrier_run :: "tid \<Rightarrow> barrier_sys \<Rightarrow> barrier_sys" where
  "barrier_run t s = (case bpc s t of
     B_out \<Rightarrow> bgoto t B_lock s
   | B_lock \<Rightarrow> if bholder s = 0 then bgoto t B_arrive (s\<lparr>bholder := t\<rparr>) else s
   | B_arrive \<Rightarrow> barrier_arrive t s
   | B_recheck y \<Rightarrow> bgoto t (if y = bcycle (bar s) then B_capture y else B_leave False) s
   | B_bcast \<Rightarrow> bgoto t B_drain (on_cond (broadcast_seq_update (\<lambda>n. n + 1)) s)
   | B_drain \<Rightarrow> (case cond_waiter_pop (bcond (bar s)) of (w, c) \<Rightarrow>
       bgoto t (if w \<noteq> L4_nilthread then B_post w else B_leave True) (on_cond (\<lambda>_. c) s))
   | B_post w \<Rightarrow> bgoto t B_drain (s\<lparr>bpend := (bpend s)(w := True)\<rparr>)
   | B_leave serial \<Rightarrow> bgoto t B_out (s\<lparr>bholder := 0\<rparr>)
   | _ \<Rightarrow> cond_wait_run t s)"

definition barrier_start :: "u32 \<Rightarrow> barrier_sys" where
  "barrier_start n =
     \<lparr>bar = \<lparr>bcount = n, bwaiting = 0, bcycle = 0,
        bmutex = mtx (mutex_start 0),
        bcond = \<lparr>waiters_lock = 0, num_waiters = 0, waiters = replicate MAX_WAITERS 0, wait_count = 0, signal_count = 0,
          broadcast_seq = 0, cinitialized = 1\<rparr>,
        binitialized = 1\<rparr>,
      bholder = 0, bpend = (\<lambda>_. False), bpc = (\<lambda>_. B_out), arrivals = 0, rounds = 0, round_of = (\<lambda>_. 0)\<rparr>"

inductive barrier_steps :: "barrier_sys \<Rightarrow> barrier_sys \<Rightarrow> bool" where
  refl: "barrier_steps s s"
| step: "barrier_steps s s' \<Longrightarrow> t \<noteq> L4_nilthread \<Longrightarrow> barrier_steps s (barrier_run t s')"

fun barrier_runs :: "tid list \<Rightarrow> barrier_sys \<Rightarrow> barrier_sys" where
  "barrier_runs [] s = s"
| "barrier_runs (t # ts) s = barrier_runs ts (barrier_run t s)"

lemma barrier_runs_append: "barrier_runs (ts @ us) s = barrier_runs us (barrier_runs ts s)"
  by (induction ts arbitrary: s) simp_all

lemma barrier_runs_steps: "L4_nilthread \<notin> set ts \<Longrightarrow> barrier_steps s (barrier_runs ts s)"
  by (induction ts rule: rev_induct) (auto simp: barrier_runs_append intro: barrier_steps.intros)

subsection \<open>No thread passes before the round is complete\<close>

lemma bgoto_fields [simp]:
  "bar (bgoto t p s) = bar s" "bholder (bgoto t p s) = bholder s" "bpend (bgoto t p s) = bpend s"
  "bpc (bgoto t p s) = (bpc s)(t := p)" "arrivals (bgoto t p s) = arrivals s" "rounds (bgoto t p s) = rounds s"
  "round_of (bgoto t p s) = round_of s"
  "bholder (on_cond f s) = bholder s" "bpend (on_cond f s) = bpend s" "bpc (on_cond f s) = bpc s"
  "arrivals (on_cond f s) = arrivals s" "rounds (on_cond f s) = rounds s" "round_of (on_cond f s) = round_of s"
  "bcount (bar (on_cond f s)) = bcount (bar s)" "bwaiting (bar (on_cond f s)) = bwaiting (bar s)"
  "bcycle (bar (on_cond f s)) = bcycle (bar s)" "bcond (bar (on_cond f s)) = f (bcond (bar s))"
  by (simp_all add: bgoto_def on_cond_def)

fun cycle_of :: "bpc \<Rightarrow> u32 option" where
  "cycle_of (B_capture y) = Some y" | "cycle_of (B_add y i j) = Some y" | "cycle_of (B_unlock y i j) = Some y"
| "cycle_of (B_test y i j) = Some y" | "cycle_of (B_block y i j) = Some y" | "cycle_of (B_remove y) = Some y"
| "cycle_of (B_uncount y) = Some y" | "cycle_of (B_relock y) = Some y" | "cycle_of (B_recheck y) = Some y"
| "cycle_of _ = None"

fun passing :: "bpc \<Rightarrow> bool" where
  "passing (B_leave b) = True" | "passing B_bcast = True" | "passing B_drain = True" | "passing (B_post w) = True"
| "passing _ = False"

definition counted :: "nat \<Rightarrow> barrier_sys \<Rightarrow> bool" where
  "counted n s \<longleftrightarrow> unat (bcount (bar s)) = n \<and> unat (bwaiting (bar s)) < n \<and>
     arrivals s = n * rounds s + unat (bwaiting (bar s)) \<and> bcycle (bar s) = of_nat (rounds s) \<and>
     (\<forall>t y. cycle_of (bpc s t) = Some y \<longrightarrow> y = of_nat (round_of s t) \<and> round_of s t \<le> rounds s) \<and>
     (\<forall>t. passing (bpc s t) \<longrightarrow> round_of s t < rounds s)"

lemma counted_start: "n \<noteq> 0 \<Longrightarrow> counted (unat n) (barrier_start n)"
  by (simp add: counted_def barrier_start_def unat_gt_0)

lemma counted_arrive:
  assumes c: "counted n s" and pc: "bpc s t = B_arrive"
  shows "counted n (barrier_arrive t s)"
proof -
  let ?w = "bwaiting (bar s)"
  have n: "unat (bcount (bar s)) = n" "unat ?w < n" using c by (simp_all add: counted_def)
  then have w: "unat (?w + 1) = unat ?w + 1" using u32_unat_bound [of "bcount (bar s)"] by (simp add: unat_word_ariths)
  show ?thesis
  proof (cases "?w + 1 = bcount (bar s)")
    case True
    then have "unat ?w + 1 = n" using w n(1) by simp
    then have "arrivals s + 1 = n * rounds s + n" using c by (simp add: counted_def)
    then show ?thesis using c True n
      by (auto simp: counted_def barrier_arrive_def Let_def intro: less_SucI le_SucI)
  next
    case False
    then have "unat ?w + 1 \<noteq> n" using w n(1) by (metis word_unat_eq_iff)
    then show ?thesis using c False w n
      by (auto simp: counted_def barrier_arrive_def Let_def)
  qed
qed

text \<open>The other steps change neither the counters nor the round of a thread.\<close>

lemma counted_frame:
  assumes c: "counted n s" and pc: "bpc s' = (bpc s)(t := p)"
    and same: "bcount (bar s') = bcount (bar s)" "bwaiting (bar s') = bwaiting (bar s)" "bcycle (bar s') = bcycle (bar s)"
      "arrivals s' = arrivals s" "rounds s' = rounds s" "round_of s' = round_of s"
    and cy: "cycle_of p = None \<or> cycle_of p = cycle_of (bpc s t)"
    and pa: "passing p \<Longrightarrow> round_of s t < rounds s"
  shows "counted n s'"
  using c cy pa unfolding counted_def same pc by (auto split: if_splits)

lemma counted_recheck:
  assumes c: "counted n s" and pc: "bpc s t = B_recheck y" and y: "y \<noteq> bcycle (bar s)"
  shows "round_of s t < rounds s"
proof -
  have "y = of_nat (round_of s t)" "round_of s t \<le> rounds s" "bcycle (bar s) = of_nat (rounds s)"
    using c pc by (auto simp: counted_def)
  then show ?thesis using y by (metis le_neq_implies_less)
qed

lemma counted_run:
  assumes c: "counted n s"
  shows "counted n (barrier_run t s)"
proof (cases "bpc s t")
  case B_arrive
  then show ?thesis using counted_arrive [OF c B_arrive] by (simp add: barrier_run_def cond_wait_run_def)
next
  case (B_recheck y)
  then show ?thesis using counted_recheck [OF c B_recheck]
    by (auto simp: barrier_run_def cond_wait_run_def intro!: counted_frame [OF c])
qed (use c in \<open>auto simp: barrier_run_def cond_wait_run_def Let_def split_beta counted_def intro!: counted_frame [OF c]\<close>)

text \<open>C25. A thread that is on its way out of a barrier for \<open>n\<close> threads has seen all \<open>n\<close> arrivals of its round and
  of every round before: nobody passes early, and exactly \<open>n\<close> arrivals make a round.\<close>

theorem pthread_barrier_waits_for_all:
  assumes "barrier_steps (barrier_start n) s" "n \<noteq> 0" "bpc s t = B_leave serial"
  shows "unat n * (round_of s t + 1) \<le> arrivals s \<and> rounds s = arrivals s div unat n"
proof -
  have c: "counted (unat n) s" using assms(1)
  proof (induction "barrier_start n" s rule: barrier_steps.induct)
    case refl show ?case by (rule counted_start [OF assms(2)])
  qed (rule counted_run)
  have "round_of s t < rounds s" using c assms(3) by (auto simp: counted_def)
  then have "round_of s t + 1 \<le> rounds s" by simp
  then have "unat n * (round_of s t + 1) \<le> unat n * rounds s" by (rule mult_le_mono2)
  moreover have a: "arrivals s = unat n * rounds s + unat (bwaiting (bar s))" "unat (bwaiting (bar s)) < unat n"
    using c by (simp_all add: counted_def)
  ultimately show ?thesis by simp
qed

theorem pthread_barrier_waits_for_all_witness:
  "\<exists>s. barrier_steps (barrier_start 2) s \<and> bpc s 6 = B_leave True \<and> 2 \<le> arrivals s"
proof -
  define ts where "ts = [5, 5, 5, 5, 5, 5, 6, 6, 6, 6, 6, 6, 6 :: tid]"
  have "bpc (barrier_runs [5, 5, 5, 5, 5, 5, 6, 6, 6, 6, 6, 6, 6] (barrier_start 2)) 6 = B_leave True" by code_simp
  then have l: "bpc (barrier_runs ts (barrier_start 2)) 6 = B_leave True" by (simp only: ts_def)
  have r: "barrier_steps (barrier_start 2) (barrier_runs ts (barrier_start 2))"
    by (rule barrier_runs_steps) (simp add: ts_def)
  show ?thesis using pthread_barrier_waits_for_all [OF r _ l] r l by auto
qed

subsection \<open>Ten threads jam the barrier\<close>

text \<open>The waiter list is full and the thread that wants to register holds the mutex.\<close>

definition jammed :: "tid \<Rightarrow> barrier_sys \<Rightarrow> bool" where
  "jammed h s \<longleftrightarrow> h \<noteq> 0 \<and> bholder s = h \<and> (\<exists>y i j. bpc s h = B_add y i j) \<and>
     unat (num_waiters (bcond (bar s))) \<ge> MAX_WAITERS \<and>
     (\<forall>t. t \<noteq> h \<longrightarrow> bpc s t \<in> {B_out, B_lock} \<or> (\<exists>y i j. bpc s t = B_block y i j) \<and> \<not> bpend s t)"

lemma jammed_run:
  assumes "jammed h s"
  shows "jammed h (barrier_run t s) \<and> arrivals (barrier_run t s) = arrivals s"
proof (cases "t = h")
  case True
  then have "barrier_run t s = s"
    using assms by (auto simp: jammed_def barrier_run_def cond_wait_run_def cond_waiter_add_def waiter_add_def)
  then show ?thesis using assms by simp
next
  case False
  then consider "bpc s t = B_out" | "bpc s t = B_lock" | y i j where "bpc s t = B_block y i j" "\<not> bpend s t"
    using assms by (auto simp: jammed_def)
  then show ?thesis
    by cases (use assms False in \<open>auto simp: jammed_def barrier_run_def cond_wait_run_def\<close>)
qed

lemma jammed_steps: "barrier_steps s s' \<Longrightarrow> jammed h s \<Longrightarrow> jammed h s' \<and> arrivals s' = arrivals s"
  by (induction rule: barrier_steps.induct) (auto simp: jammed_run)

lemma barrier_run_others: "u \<noteq> t \<Longrightarrow> bpc (barrier_run t s) u = bpc s u"
  by (cases "bpc s t") (auto simp: barrier_run_def cond_wait_run_def barrier_arrive_def Let_def split_beta)

lemma barrier_runs_others: "u \<notin> set ts \<Longrightarrow> bpc (barrier_runs ts s) u = bpc s u"
  by (induction ts arbitrary: s) (auto simp: barrier_run_others)

text \<open>Threads 1 to 8 arrive and block one after the other; thread 9 arrives and finds the list full.\<close>

definition nine :: "tid list" where
  "nine = concat (map (replicate 7) [1, 2, 3, 4, 5, 6, 7, 8]) @ replicate 4 9"

text \<open>\<open>pthread_barrier_init\<close> accepts any number of threads, but the waiter list holds eight: the ninth waiting thread
  spins in \<open>pthread_cond_wait\<close> with the mutex in its hands. A barrier for ten threads then never completes:
  in every continuation, whoever else calls, no arrival is counted any more and the mutex stays taken.\<close>

theorem pthread_barrier_of_ten_jams:
  "\<exists>s. barrier_steps (barrier_start 10) s \<and> arrivals s = 9 \<and>
     (\<forall>s'. barrier_steps s s' \<longrightarrow> arrivals s' = 9 \<and> bholder s' = 9 \<and> (\<forall>t serial. bpc s' t \<noteq> B_leave serial))"
proof -
  define s where "s = barrier_runs nine (barrier_start 10)"
  have "let s = barrier_runs nine (barrier_start 10) in
    arrivals s = 9 \<and> bholder s = 9 \<and> bpc s 9 = B_add 0 0 0 \<and> num_waiters (bcond (bar s)) = 8 \<and>
    (\<forall>t \<in> set [1, 2, 3, 4, 5, 6, 7, 8]. bpc s t = B_block 0 0 0 \<and> \<not> bpend s t)" by code_simp
  then have e: "arrivals s = 9" "bholder s = 9" "bpc s 9 = B_add 0 0 0" "num_waiters (bcond (bar s)) = 8"
    "\<And>t. t \<in> {1, 2, 3, 4, 5, 6, 7, 8} \<Longrightarrow> bpc s t = B_block 0 0 0 \<and> \<not> bpend s t" by (auto simp: s_def Let_def)
  have set9: "set nine = {1, 2, 3, 4, 5, 6, 7, 8, 9}" by (auto simp: nine_def)
  have out: "bpc s t = B_out" if "t \<notin> set nine" for t
    using barrier_runs_others [OF that, of "barrier_start 10"] by (simp add: s_def barrier_start_def)
  have j: "jammed 9 s" unfolding jammed_def
  proof (intro conjI allI impI)
    fix t :: tid assume t: "t \<noteq> 9"
    show "bpc s t \<in> {B_out, B_lock} \<or> (\<exists>y i j. bpc s t = B_block y i j) \<and> \<not> bpend s t"
      using e(5) [of t] out [of t] t unfolding set9 by blast
  qed (use e in auto)
  have r: "barrier_steps (barrier_start 10) s" unfolding s_def by (rule barrier_runs_steps) (simp add: set9)
  have "arrivals s' = 9 \<and> bholder s' = 9 \<and> (\<forall>t serial. bpc s' t \<noteq> B_leave serial)" if "barrier_steps s s'" for s'
  proof -
    have j': "jammed 9 s'" and a: "arrivals s' = 9" using jammed_steps [OF that j] e(1) by auto
    have "bpc s' t \<noteq> B_leave serial" for t serial using j' unfolding jammed_def by (cases "t = 9") force+
    then show ?thesis using a j' by (auto simp: jammed_def)
  qed
  then show ?thesis using r e(1) by blast
qed

theorem pthread_barrier_of_ten_jams_witness:
  "\<exists>s. barrier_steps (barrier_start 10) s \<and> arrivals s = 9 \<and> arrivals (barrier_run 10 s) = 9 \<and> bholder (barrier_run 10 s) = 9"
proof -
  obtain s where s: "barrier_steps (barrier_start 10) s" "arrivals s = 9"
    and n: "\<And>s'. barrier_steps s s' \<Longrightarrow> arrivals s' = 9 \<and> bholder s' = 9"
    using pthread_barrier_of_ten_jams by blast
  have "barrier_steps s (barrier_run 10 s)" by (rule barrier_steps.step [OF barrier_steps.refl]) simp
  then show ?thesis using n [of "barrier_run 10 s"] s by blast
qed

end
