(* ===== verification/Posix_Rwlock.thy ===== *)
theory Posix_Rwlock
  imports Posix_Cond
begin

text \<open>
  Read-write locks and spinlocks, \<^verbatim>\<open>user/lib/posix/pthread.c\<close>. The two mutexes inside a read-write lock are words
  that name their holder (0: nobody), as theory \<open>Posix_Mutex\<close> justifies. Threads are well behaved: they ask for
  the lock when they do not have it and unlock it when they do.
\<close>

subsection \<open>Operations that do not block\<close>

record pthread_rwlock_t =
  rd_mutex :: pthread_mutex_t
  wr_mutex :: pthread_mutex_t
  readers :: u32
  writer :: tid
  rwinitialized :: u8

definition pthread_rwlockattr_init :: "posix_attr option \<Rightarrow> int \<times> posix_attr option" where
  "pthread_rwlockattr_init = attr_init"
definition pthread_rwlockattr_destroy :: "posix_attr option \<Rightarrow> int \<times> posix_attr option" where
  "pthread_rwlockattr_destroy = attr_destroy"

definition pthread_rwlock_init :: "posix_attr option \<Rightarrow> pthread_rwlock_t option \<Rightarrow> int \<times> pthread_rwlock_t option" where
  "pthread_rwlock_init attr rwlock =
     on_ptr rwlock (\<lambda>l. if attr_bad attr then (EINVAL, l)
       else case pthread_mutex_init None (Some (rd_mutex l)) of (r, rd) \<Rightarrow>
         if r \<noteq> 0 then (r, l)
         else case pthread_mutex_init None (Some (wr_mutex l)) of (r, w) \<Rightarrow>
           if r \<noteq> 0 then (r, l\<lparr>rd_mutex := the (snd (pthread_mutex_destroy rd))\<rparr>)
           else (0, l\<lparr>rd_mutex := the rd, wr_mutex := the w, readers := 0, writer := 0, rwinitialized := 1\<rparr>))"

definition pthread_rwlock_destroy :: "pthread_rwlock_t option \<Rightarrow> int \<times> pthread_rwlock_t option" where
  "pthread_rwlock_destroy rwlock =
     on_ptr rwlock (\<lambda>l. if rwinitialized l = 0 then (EINVAL, l)
       else if readers l > 0 \<or> writer l \<noteq> 0 then (EBUSY, l)
       else (0, l\<lparr>rd_mutex := the (snd (pthread_mutex_destroy (Some (rd_mutex l)))),
                  wr_mutex := the (snd (pthread_mutex_destroy (Some (wr_mutex l)))), rwinitialized := 0\<rparr>))"

record pthread_spinlock_t =
  splock :: u32
  sppshared :: u8
  spinitialized :: u8

definition pthread_spin_init :: "int \<Rightarrow> pthread_spinlock_t option \<Rightarrow> int \<times> pthread_spinlock_t option" where
  "pthread_spin_init pshared lock =
     on_ptr lock (\<lambda>l. if pshared \<noteq> 0 \<and> pshared \<noteq> 1 then (EINVAL, l)
       else (0, l\<lparr>splock := 0, sppshared := word_of_int pshared, spinitialized := 1\<rparr>))"

definition pthread_spin_destroy :: "pthread_spinlock_t option \<Rightarrow> int \<times> pthread_spinlock_t option" where
  "pthread_spin_destroy lock =
     on_ptr lock (\<lambda>l. if spinitialized l = 0 then (EINVAL, l)
       else if splock l \<noteq> 0 then (EBUSY, l) else (0, l\<lparr>spinitialized := 0\<rparr>))"

text \<open>One pass of the exclusive pair, whose store goes through if \<open>b\<close>.\<close>

definition pthread_spin_trylock :: "bool \<Rightarrow> pthread_spinlock_t option \<Rightarrow> int \<times> pthread_spinlock_t option" where
  "pthread_spin_trylock b lock =
     on_ptr lock (\<lambda>l. if spinitialized l = 0 then (EINVAL, l)
       else if splock l = 0 \<and> b then (0, l\<lparr>splock := 1\<rparr>) else (EBUSY, l))"

definition pthread_spin_unlock :: "pthread_spinlock_t option \<Rightarrow> int \<times> pthread_spinlock_t option" where
  "pthread_spin_unlock lock = on_ptr lock (\<lambda>l. if spinitialized l = 0 then (EINVAL, l) else (0, l\<lparr>splock := 0\<rparr>))"

subsection \<open>The transition system\<close>

text \<open>The flag tells the calls that do not wait (\<open>tryrdlock\<close>, \<open>trywrlock\<close>).\<close>

datatype rwpc =
    RW_out | Reading | Writing
  | R_wr bool | R_rd | R_inc | R_urd | R_uwr
  | W_wr bool | W_test bool | W_uwr bool | W_set
  | U_rd | U_dec | U_urd | UW_clear | UW_uwr

record rw_sys =
  nreaders :: u32
  rwriter :: tid
  rd_holder :: tid
  wr_holder :: tid
  rwpc :: "tid \<Rightarrow> rwpc"
  rwret :: "tid \<Rightarrow> int"

definition rgoto :: "tid \<Rightarrow> rwpc \<Rightarrow> rw_sys \<Rightarrow> rw_sys" where
  "rgoto t p s = s\<lparr>rwpc := (rwpc s)(t := p)\<rparr>"

definition rreturn :: "tid \<Rightarrow> int \<Rightarrow> rwpc \<Rightarrow> rw_sys \<Rightarrow> rw_sys" where
  "rreturn t r p s = rgoto t p (s\<lparr>rwret := (rwret s)(t := r)\<rparr>)"

definition rw_run :: "tid \<Rightarrow> rw_sys \<Rightarrow> rw_sys" where
  "rw_run t s = (case rwpc s t of
     RW_out \<Rightarrow> s | Reading \<Rightarrow> s | Writing \<Rightarrow> s
   | R_wr try \<Rightarrow> if wr_holder s = 0 then rgoto t R_rd (s\<lparr>wr_holder := t\<rparr>)
                 else if try then rreturn t EBUSY RW_out s else s
   | R_rd \<Rightarrow> if rd_holder s = 0 then rgoto t R_inc (s\<lparr>rd_holder := t\<rparr>) else s
   | R_inc \<Rightarrow> rgoto t R_urd (s\<lparr>nreaders := nreaders s + 1\<rparr>)
   | R_urd \<Rightarrow> rgoto t R_uwr (s\<lparr>rd_holder := 0\<rparr>)
   | R_uwr \<Rightarrow> rreturn t 0 Reading (s\<lparr>wr_holder := 0\<rparr>)
   | W_wr try \<Rightarrow> if wr_holder s = 0 then rgoto t (W_test try) (s\<lparr>wr_holder := t\<rparr>)
                 else if try then rreturn t EBUSY RW_out s else s
   | W_test try \<Rightarrow> rgoto t (if nreaders s > 0 then W_uwr try else W_set) s
   | W_uwr try \<Rightarrow> let s = s\<lparr>wr_holder := 0\<rparr> in if try then rreturn t EBUSY RW_out s else rgoto t (W_wr False) s
   | W_set \<Rightarrow> rreturn t 0 Writing (s\<lparr>rwriter := t\<rparr>)
   | U_rd \<Rightarrow> if rd_holder s = 0 then rgoto t U_dec (s\<lparr>rd_holder := t\<rparr>) else s
   | U_dec \<Rightarrow> rgoto t U_urd (if nreaders s > 0 then s\<lparr>nreaders := nreaders s - 1\<rparr> else s)
   | U_urd \<Rightarrow> rreturn t 0 RW_out (s\<lparr>rd_holder := 0\<rparr>)
   | UW_clear \<Rightarrow> rgoto t UW_uwr (s\<lparr>rwriter := 0\<rparr>)
   | UW_uwr \<Rightarrow> rreturn t 0 RW_out (s\<lparr>wr_holder := 0\<rparr>))"

datatype rwact = Rdlock bool tid | Wrlock bool tid | Rwunlock tid | Rw_run tid

text \<open>\<open>pthread_rwlock_unlock\<close> finds out by the field \<open>writer\<close> which kind of lock the caller has.\<close>

fun rw_act :: "rwact \<Rightarrow> rw_sys \<Rightarrow> rw_sys option" where
  "rw_act (Rdlock try t) s = (if t \<noteq> 0 \<and> rwpc s t = RW_out then Some (rgoto t (R_wr try) s) else None)"
| "rw_act (Wrlock try t) s = (if t \<noteq> 0 \<and> rwpc s t = RW_out then Some (rgoto t (W_wr try) s) else None)"
| "rw_act (Rwunlock t) s =
     (if t \<noteq> 0 \<and> (rwpc s t = Reading \<or> rwpc s t = Writing)
      then Some (rgoto t (if rwriter s = t then UW_clear else U_rd) s) else None)"
| "rw_act (Rw_run t) s = (if t \<noteq> 0 then Some (rw_run t s) else None)"

fun rw_acts :: "rwact list \<Rightarrow> rw_sys \<Rightarrow> rw_sys option" where
  "rw_acts [] s = Some s"
| "rw_acts (a # as) s = (case rw_act a s of Some s' \<Rightarrow> rw_acts as s' | None \<Rightarrow> None)"

definition rw_start :: rw_sys where
  "rw_start = \<lparr>nreaders = 0, rwriter = 0, rd_holder = 0, wr_holder = 0, rwpc = (\<lambda>_. RW_out), rwret = (\<lambda>_. 0)\<rparr>"

inductive rw_reach :: "rw_sys \<Rightarrow> bool" where
  start: "rw_reach rw_start"
| step: "rw_reach s \<Longrightarrow> rw_act a s = Some s' \<Longrightarrow> rw_reach s'"

lemma rw_acts_reach: "rw_acts as s = Some s' \<Longrightarrow> rw_reach s \<Longrightarrow> rw_reach s'"
  by (induction as arbitrary: s) (auto split: option.splits intro: rw_reach.step)

subsection \<open>Readers and writers exclude each other\<close>

lemma rgoto_fields [simp]:
  "nreaders (rgoto t p s) = nreaders s" "rwriter (rgoto t p s) = rwriter s" "rd_holder (rgoto t p s) = rd_holder s"
  "wr_holder (rgoto t p s) = wr_holder s" "rwpc (rgoto t p s) = (rwpc s)(t := p)"
  "nreaders (rreturn t r p s) = nreaders s" "rwriter (rreturn t r p s) = rwriter s" "rd_holder (rreturn t r p s) = rd_holder s"
  "wr_holder (rreturn t r p s) = wr_holder s" "rwpc (rreturn t r p s) = (rwpc s)(t := p)"
  by (simp_all add: rgoto_def rreturn_def)

text \<open>Which places hold a mutex, are counted as readers, and have found no readers.\<close>

fun has_wr :: "rwpc \<Rightarrow> bool" where
  "has_wr R_rd = True" | "has_wr R_inc = True" | "has_wr R_urd = True" | "has_wr R_uwr = True" | "has_wr (W_test b) = True"
| "has_wr (W_uwr b) = True" | "has_wr W_set = True" | "has_wr Writing = True" | "has_wr UW_clear = True"
| "has_wr UW_uwr = True" | "has_wr _ = False"

fun has_rd :: "rwpc \<Rightarrow> bool" where
  "has_rd R_inc = True" | "has_rd R_urd = True" | "has_rd U_dec = True" | "has_rd U_urd = True" | "has_rd _ = False"

fun is_reader :: "rwpc \<Rightarrow> bool" where
  "is_reader R_urd = True" | "is_reader R_uwr = True" | "is_reader Reading = True" | "is_reader U_rd = True"
| "is_reader U_dec = True" | "is_reader _ = False"

fun alone :: "rwpc \<Rightarrow> bool" where
  "alone W_set = True" | "alone Writing = True" | "alone UW_clear = True" | "alone UW_uwr = True" | "alone _ = False"

fun is_writer :: "rwpc \<Rightarrow> bool" where
  "is_writer Writing = True" | "is_writer UW_clear = True" | "is_writer _ = False"

definition reader_set :: "rw_sys \<Rightarrow> tid set" where
  "reader_set s = {t. is_reader (rwpc s t)}"

definition rw_inv :: "rw_sys \<Rightarrow> bool" where
  "rw_inv s \<longleftrightarrow> rwpc s 0 = RW_out \<and> (\<forall>t. t \<noteq> 0 \<longrightarrow> has_wr (rwpc s t) = (wr_holder s = t)) \<and>
     (\<forall>t. t \<noteq> 0 \<longrightarrow> has_rd (rwpc s t) = (rd_holder s = t)) \<and>
     (\<forall>t. t \<noteq> 0 \<longrightarrow> is_writer (rwpc s t) = (rwriter s = t)) \<and>
     unat (nreaders s) = card (reader_set s) \<and> (\<forall>t. alone (rwpc s t) \<longrightarrow> nreaders s = 0)"

lemma alone_has_wr: "alone p \<Longrightarrow> has_wr p" and writer_has_wr: "is_writer p \<Longrightarrow> has_wr p"
  by (cases p; simp)+

lemma reader_set_upd:
  "reader_set s' = (if is_reader p then insert t (reader_set s) else reader_set s - {t})"
  if "rwpc s' = (rwpc s)(t := p)"
  using that by (auto simp: reader_set_def)

lemma card_readers_bound:
  assumes "rwpc s 0 = RW_out"
  shows "card (reader_set s) < 2 ^ 32"
proof -
  have "reader_set s \<subseteq> UNIV - {0}" using assms by (auto simp: reader_set_def)
  then have "card (reader_set s) \<le> card (UNIV - {0 :: tid})" by (intro card_mono) auto
  also have "\<dots> < CARD(tid)" by (intro psubset_card_mono) auto
  finally show ?thesis by (simp add: card_word)
qed

text \<open>A step that neither enters nor leaves the reader count.\<close>

lemma rw_inv_frame:
  assumes i: "rw_inv s" and t: "t \<noteq> 0" and pc: "rwpc s' = (rwpc s)(t := p)"
    and w: "has_wr p = (wr_holder s' = t)" "wr_holder s' = wr_holder s \<or> {wr_holder s, wr_holder s'} \<subseteq> {0, t}"
    and d: "has_rd p = (rd_holder s' = t)" "rd_holder s' = rd_holder s \<or> {rd_holder s, rd_holder s'} \<subseteq> {0, t}"
    and x: "is_writer p = (rwriter s' = t)" "rwriter s' = rwriter s \<or> {rwriter s, rwriter s'} \<subseteq> {0, t}"
    and n: "nreaders s' = nreaders s" "is_reader p = is_reader (rwpc s t)" "alone p \<Longrightarrow> nreaders s = 0"
  shows "rw_inv s'"
proof -
  have "reader_set s' = reader_set s" unfolding reader_set_upd [OF pc] using n(2) by (auto simp: reader_set_def)
  moreover have "has_wr (rwpc s' u) = (wr_holder s' = u)" if "u \<noteq> 0" for u
    using i w that by (cases "u = t") (auto simp: pc rw_inv_def)
  moreover have "has_rd (rwpc s' u) = (rd_holder s' = u)" if "u \<noteq> 0" for u
    using i d that by (cases "u = t") (auto simp: pc rw_inv_def)
  moreover have "is_writer (rwpc s' u) = (rwriter s' = u)" if "u \<noteq> 0" for u
    using i x that by (cases "u = t") (auto simp: pc rw_inv_def)
  moreover have "nreaders s = 0" if "alone (rwpc s' u)" for u
    using i n(3) that by (cases "u = t") (auto simp: pc rw_inv_def)
  ultimately show ?thesis using i t n(1) by (auto simp: rw_inv_def pc)
qed

lemma rw_inv_inc:
  assumes i: "rw_inv s" and t: "t \<noteq> 0" and pc: "rwpc s t = R_inc"
  shows "rw_inv (rw_run t s)"
proof -
  have r: "rw_run t s = rgoto t R_urd (s\<lparr>nreaders := nreaders s + 1\<rparr>)" by (simp add: rw_run_def pc)
  have set: "reader_set (rw_run t s) = insert t (reader_set s)" unfolding r by (subst reader_set_upd [where p = R_urd]) simp_all
  have "t \<notin> reader_set s" using pc by (simp add: reader_set_def)
  then have c: "card (reader_set (rw_run t s)) = card (reader_set s) + 1" unfolding set by simp
  have z: "rwpc (rw_run t s) 0 = RW_out" using i t by (simp add: r rw_inv_def)
  have "unat (nreaders s) = card (reader_set s)" using i by (simp add: rw_inv_def)
  then have "unat (nreaders s + 1) = card (reader_set (rw_run t s))"
    using card_readers_bound [OF z] by (simp add: c unat_word_ariths)
  moreover have "\<not> alone (rwpc (rw_run t s) u)" for u
  proof
    assume a: "alone (rwpc (rw_run t s) u)"
    then have u: "u \<noteq> t" "alone (rwpc s u)" by (auto simp: r split: if_splits)
    then have "u \<noteq> 0" using i by (auto simp: rw_inv_def)
    then show False using i u alone_has_wr [OF u(2)] t pc by (auto simp: rw_inv_def)
  qed
  ultimately show ?thesis using i t z pc unfolding rw_inv_def
    by (auto simp: r split: if_splits)
qed

lemma rw_inv_dec:
  assumes i: "rw_inv s" and t: "t \<noteq> 0" and pc: "rwpc s t = U_dec"
  shows "rw_inv (rw_run t s)"
proof -
  have tr: "t \<in> reader_set s" using pc by (simp add: reader_set_def)
  have n: "unat (nreaders s) = card (reader_set s)" using i by (simp add: rw_inv_def)
  have "card (reader_set s) > 0" using tr by (simp add: card_gt_0_iff) blast
  then have pos: "nreaders s \<noteq> 0" using n by auto
  then have r: "rw_run t s = rgoto t U_urd (s\<lparr>nreaders := nreaders s - 1\<rparr>)" by (simp add: rw_run_def pc word_neq_0_conv)
  have set: "reader_set (rw_run t s) = reader_set s - {t}" unfolding r by (subst reader_set_upd [where p = U_urd]) simp_all
  have "unat (nreaders s - 1) = card (reader_set (rw_run t s))"
    using pos tr n by (simp add: set unat_minus_one)
  moreover have "\<not> alone (rwpc s u)" for u using i pos by (auto simp: rw_inv_def)
  ultimately show ?thesis using i t pc unfolding rw_inv_def by (auto simp: r split: if_splits)
qed

lemma rw_inv_run:
  assumes i: "rw_inv s" and t: "t \<noteq> 0"
  shows "rw_inv (rw_run t s)"
proof -
  have h: "has_wr (rwpc s t) = (wr_holder s = t)" "has_rd (rwpc s t) = (rd_holder s = t)"
    "is_writer (rwpc s t) = (rwriter s = t)" "alone (rwpc s t) \<Longrightarrow> nreaders s = 0" using i t by (auto simp: rw_inv_def)
  have ww: "rwriter s = 0 \<or> rwriter s = t" if "has_wr (rwpc s t)"
  proof (rule ccontr)
    assume n: "\<not> (rwriter s = 0 \<or> rwriter s = t)"
    then have "is_writer (rwpc s (rwriter s))" using i by (auto simp: rw_inv_def)
    then have "wr_holder s = rwriter s" using i n writer_has_wr by (auto simp: rw_inv_def)
    then show False using that h(1) n by simp
  qed
  show ?thesis
  proof (cases "rwpc s t")
    case R_inc then show ?thesis by (rule rw_inv_inc [OF i t])
  next
    case U_dec then show ?thesis by (rule rw_inv_dec [OF i t])
  next
    case (W_test b)
    then show ?thesis using h t by (auto simp: rw_run_def word_gt_0 intro!: rw_inv_frame [OF i t])
  next
    case W_set
    then show ?thesis using h t ww by (auto simp: rw_run_def intro!: rw_inv_frame [OF i t])
  qed (use h t i in \<open>auto simp: rw_run_def Let_def intro!: rw_inv_frame [OF i t]\<close>)
qed

lemma rw_inv_act:
  assumes i: "rw_inv s" and a: "rw_act a s = Some s'"
  shows "rw_inv s'"
proof (cases a)
  case (Rw_run t)
  then show ?thesis using a rw_inv_run [OF i] by (auto split: if_splits)
next
  case (Rwunlock t)
  then have t: "t \<noteq> 0" "rwpc s t = Reading \<or> rwpc s t = Writing"
    and s': "s' = rgoto t (if rwriter s = t then UW_clear else U_rd) s" using a by (auto split: if_splits)
  then have "has_wr (rwpc s t) = (wr_holder s = t)" "has_rd (rwpc s t) = (rd_holder s = t)"
    "is_writer (rwpc s t) = (rwriter s = t)" "alone (rwpc s t) \<Longrightarrow> nreaders s = 0" using i by (auto simp: rw_inv_def)
  then show ?thesis using t(2) unfolding s' by (auto intro!: rw_inv_frame [OF i t(1)])
next
  case (Rdlock b t)
  then have t: "t \<noteq> 0" "rwpc s t = RW_out" and s': "s' = rgoto t (R_wr b) s" using a by (auto split: if_splits)
  have "wr_holder s \<noteq> t" "rd_holder s \<noteq> t" "rwriter s \<noteq> t" using i t by (auto simp: rw_inv_def)
  then show ?thesis unfolding s' using t by (intro rw_inv_frame [OF i t(1), where p = "R_wr b"]) auto
next
  case (Wrlock b t)
  then have t: "t \<noteq> 0" "rwpc s t = RW_out" and s': "s' = rgoto t (W_wr b) s" using a by (auto split: if_splits)
  have "wr_holder s \<noteq> t" "rd_holder s \<noteq> t" "rwriter s \<noteq> t" using i t by (auto simp: rw_inv_def)
  then show ?thesis unfolding s' using t by (intro rw_inv_frame [OF i t(1), where p = "W_wr b"]) auto
qed

lemma rw_inv_reach: "rw_reach s \<Longrightarrow> rw_inv s"
proof (induction rule: rw_reach.induct)
  case start
  show ?case by (simp add: rw_inv_def rw_start_def reader_set_def)
qed (rule rw_inv_act)


text \<open>Thread 5 reads, thread 6 tries to write and gives way, thread 5 leaves, thread 6 writes.\<close>

definition rw_schedule :: "rwact list" where
  "rw_schedule = [Rdlock False 5, Rw_run 5, Rw_run 5, Rw_run 5, Wrlock False 6, Rw_run 6, Rw_run 5, Rw_run 5, Rw_run 6, Rw_run 6,
     Rw_run 6, Rwunlock 5, Rw_run 5, Rw_run 5, Rw_run 5, Rw_run 6, Rw_run 6, Rw_run 6, Rdlock True 5, Rw_run 5]"


end
