(* ===== verification/Posix_Thread.thy ===== *)
theory Posix_Thread
  imports Posix_Mutex
begin

text \<open>
  Threads of the POSIX library: attributes, scheduling parameters, the tables that connect a thread with its
  \<open>pthread_t\<close> and with its cancellation state, creation, exit and cancellation (\<^verbatim>\<open>user/lib/posix/pthread.c\<close>), and
  signals (\<^verbatim>\<open>user/lib/posix/signal.c\<close>). The tables are lists of fixed length; the spinlocks around each
  access make the accesses atomic. \<open>u\<close> is \<open>current_utcb\<close> of the calling thread. A \<open>pthread_t\<close> is named by its
  address; the objects are a store.
\<close>

text \<open>The loops over a table look for the first entry with a property.\<close>

definition find_slot :: "('a \<Rightarrow> bool) \<Rightarrow> 'a list \<Rightarrow> nat option" where
  "find_slot P xs = find (\<lambda>i. P (xs ! i)) [0..<length xs]"

lemma find_slot_Some: "find_slot P xs = Some i \<Longrightarrow> i < length xs \<and> P (xs ! i) \<and> (\<forall>j < i. \<not> P (xs ! j))"
  by (auto simp: find_slot_def find_Some_iff)

lemma find_slot_None: "find_slot P xs = None \<longleftrightarrow> (\<forall>x \<in> set xs. \<not> P x)"
  unfolding find_slot_def find_None_iff by (metis atLeastLessThan_iff in_set_conv_nth set_upt zero_le)

lemma find_slot_unique:
  assumes "i < length xs" "P (xs ! i)" "\<And>j. j < length xs \<Longrightarrow> P (xs ! j) \<Longrightarrow> j = i"
  shows "find_slot P xs = Some i"
proof (cases "find_slot P xs")
  case None
  then show ?thesis using assms(1,2) by (metis find_slot_None nth_mem)
next
  case (Some j)
  then show ?thesis using find_slot_Some [OF Some] assms(3) by blast
qed

text \<open>Writing the only entry with a key, and looking it up.\<close>

lemma find_slot_written:
  assumes "i < length xs" "P x" "\<And>y. y \<in> set xs \<Longrightarrow> \<not> P y"
  shows "find_slot P (xs[i := x]) = Some i"
  by (rule find_slot_unique) (use assms in \<open>auto simp: nth_list_update split: if_splits\<close>)

lemma find_slot_Some_ex: "x \<in> set xs \<Longrightarrow> P x \<Longrightarrow> \<exists>i. find_slot P xs = Some i \<and> i < length xs"
  by (cases "find_slot P xs") (auto simp: find_slot_None dest: find_slot_Some)

lemma find_slot_key: "k \<in> f ` set xs \<Longrightarrow> \<exists>i. find_slot (\<lambda>x. f x = k) xs = Some i \<and> i < length xs"
  by (metis (mono_tags, lifting) find_slot_Some_ex image_iff)

lemma key_not_written: "k \<notin> f ` set xs \<Longrightarrow> f x \<noteq> k \<Longrightarrow> k \<notin> f ` set (xs[i := x])"
  using set_update_subset_insert [of xs i x] by (metis (no_types, lifting) image_iff insert_iff subset_iff)

subsection \<open>Attributes and scheduling parameters\<close>

record pthread_attr_t =
  a_priority :: u32
  a_stack_size :: u32
  a_detachstate :: u32

abbreviation (input) PTHREAD_CREATE_JOINABLE :: u32 where "PTHREAD_CREATE_JOINABLE \<equiv> 0"
abbreviation (input) PTHREAD_CREATE_DETACHED :: u32 where "PTHREAD_CREATE_DETACHED \<equiv> 1"

definition pthread_attr_init :: "pthread_attr_t option \<Rightarrow> int \<times> pthread_attr_t option" where
  "pthread_attr_init attr =
     on_ptr attr (\<lambda>a. (0, a\<lparr>a_priority := 128, a_stack_size := 512, a_detachstate := PTHREAD_CREATE_JOINABLE\<rparr>))"

definition pthread_attr_destroy :: "pthread_attr_t option \<Rightarrow> int" where
  "pthread_attr_destroy attr = (if attr = None then EINVAL else 0)"

definition pthread_attr_setdetachstate :: "int \<Rightarrow> pthread_attr_t option \<Rightarrow> int \<times> pthread_attr_t option" where
  "pthread_attr_setdetachstate d attr =
     on_ptr attr (\<lambda>a. if d \<noteq> 1 \<and> d \<noteq> 0 then (EINVAL, a) else (0, a\<lparr>a_detachstate := word_of_int d\<rparr>))"

definition pthread_attr_getdetachstate :: "pthread_attr_t option \<Rightarrow> bool \<Rightarrow> int \<times> u32 option" where
  "pthread_attr_getdetachstate attr has = (case attr of
     Some a \<Rightarrow> if has then (0, Some (a_detachstate a)) else (EINVAL, None) | None \<Rightarrow> (EINVAL, None))"

definition pthread_attr_setstacksize :: "u32 \<Rightarrow> pthread_attr_t option \<Rightarrow> int \<times> pthread_attr_t option" where
  "pthread_attr_setstacksize n attr = on_ptr attr (\<lambda>a. if n < 256 then (EINVAL, a) else (0, a\<lparr>a_stack_size := n\<rparr>))"

definition pthread_attr_getstacksize :: "pthread_attr_t option \<Rightarrow> bool \<Rightarrow> int \<times> u32 option" where
  "pthread_attr_getstacksize attr has = (case attr of
     Some a \<Rightarrow> if has then (0, Some (a_stack_size a)) else (EINVAL, None) | None \<Rightarrow> (EINVAL, None))"

abbreviation (input) SCHED_OTHER :: int where "SCHED_OTHER \<equiv> 0"
abbreviation (input) SCHED_FIFO :: int where "SCHED_FIFO \<equiv> 1"
abbreviation (input) SCHED_RR :: int where "SCHED_RR \<equiv> 2"
abbreviation (input) SCHED_PRIORITY_MIN :: int where "SCHED_PRIORITY_MIN \<equiv> 1"
abbreviation (input) SCHED_PRIORITY_MAX :: int where "SCHED_PRIORITY_MAX \<equiv> 255"

definition sched_get_priority_max :: "int \<Rightarrow> int" where
  "sched_get_priority_max policy =
     (if policy = SCHED_FIFO \<or> policy = SCHED_RR then SCHED_PRIORITY_MAX else if policy = SCHED_OTHER then 0 else -1)"

definition sched_get_priority_min :: "int \<Rightarrow> int" where
  "sched_get_priority_min policy =
     (if policy = SCHED_FIFO \<or> policy = SCHED_RR then SCHED_PRIORITY_MIN else if policy = SCHED_OTHER then 0 else -1)"

definition sched_getscheduler :: "u32 \<Rightarrow> int" where
  "sched_getscheduler pid = SCHED_FIFO"

definition sched_setscheduler :: "u32 \<Rightarrow> int \<Rightarrow> int option \<Rightarrow> int" where
  "sched_setscheduler pid policy param = (if policy \<noteq> SCHED_FIFO \<and> policy \<noteq> SCHED_RR then EINVAL else 0)"

text \<open>A \<open>sched_param\<close> is its only field; \<open>None\<close> is a null pointer.\<close>

definition sched_getparam :: "u32 \<Rightarrow> int option \<Rightarrow> int \<times> int option" where
  "sched_getparam pid param = on_ptr param (\<lambda>_. (0, 128))"

definition prio_in_range :: "int \<Rightarrow> bool" where
  "prio_in_range p \<longleftrightarrow> \<not> (p < SCHED_PRIORITY_MIN \<or> p > SCHED_PRIORITY_MAX)"

definition sched_setparam :: "u32 \<Rightarrow> int option \<Rightarrow> int" where
  "sched_setparam pid param = (case param of None \<Rightarrow> EINVAL | Some p \<Rightarrow> if prio_in_range p then 0 else EINVAL)"

definition policy_known :: "int \<Rightarrow> bool" where
  "policy_known policy \<longleftrightarrow> policy = SCHED_OTHER \<or> policy = SCHED_FIFO \<or> policy = SCHED_RR"

definition pthread_attr_setschedpolicy :: "pthread_attr_t option \<Rightarrow> int \<Rightarrow> int" where
  "pthread_attr_setschedpolicy attr policy = (if attr = None then EINVAL else if policy_known policy then 0 else EINVAL)"

definition pthread_attr_getschedpolicy :: "pthread_attr_t option \<Rightarrow> bool \<Rightarrow> int \<times> int option" where
  "pthread_attr_getschedpolicy attr has = (if attr = None \<or> \<not> has then (EINVAL, None) else (0, Some SCHED_FIFO))"

definition pthread_attr_setschedparam :: "int option \<Rightarrow> pthread_attr_t option \<Rightarrow> int \<times> pthread_attr_t option" where
  "pthread_attr_setschedparam param attr =
     on_ptr attr (\<lambda>a. case param of
       None \<Rightarrow> (EINVAL, a)
     | Some p \<Rightarrow> if prio_in_range p then (0, a\<lparr>a_priority := word_of_int p\<rparr>) else (EINVAL, a))"

definition pthread_attr_getschedparam :: "pthread_attr_t option \<Rightarrow> int option \<Rightarrow> int \<times> int option" where
  "pthread_attr_getschedparam attr param = (case attr of
     None \<Rightarrow> (EINVAL, param) | Some a \<Rightarrow> on_ptr param (\<lambda>_. (0, sint (a_priority a))))"

definition pthread_attr_setinheritsched :: "pthread_attr_t option \<Rightarrow> int \<Rightarrow> int" where
  "pthread_attr_setinheritsched attr i = (if attr = None then EINVAL else if i \<noteq> 0 \<and> i \<noteq> 1 then EINVAL else 0)"

definition pthread_attr_getinheritsched :: "pthread_attr_t option \<Rightarrow> bool \<Rightarrow> int \<times> int option" where
  "pthread_attr_getinheritsched attr has = (if attr = None \<or> \<not> has then (EINVAL, None) else (0, Some 0))"

definition pthread_setschedparam :: "ptr \<Rightarrow> int \<Rightarrow> int option \<Rightarrow> int" where
  "pthread_setschedparam thread policy param = (case param of
     None \<Rightarrow> EINVAL
   | Some p \<Rightarrow> if thread = NULL \<or> \<not> policy_known policy \<or> \<not> prio_in_range p then EINVAL else 0)"

definition pthread_getschedparam :: "ptr \<Rightarrow> bool \<Rightarrow> int option \<Rightarrow> int \<times> int option \<times> int option" where
  "pthread_getschedparam thread has_policy param =
     (if thread = NULL \<or> \<not> has_policy \<or> param = None then (EINVAL, None, param) else (0, Some SCHED_FIFO, Some 128))"

definition pthread_setschedprio :: "ptr \<Rightarrow> int \<Rightarrow> int" where
  "pthread_setschedprio thread prio = (if thread = NULL \<or> \<not> prio_in_range prio then EINVAL else 0)"

subsection \<open>Thread objects and tables\<close>

record pthread_t =
  p_tid :: tid
  p_creator :: tid
  p_entry :: ptr
  p_arg :: u32
  p_retval :: u32
  p_detached :: u32
  p_joined :: u32
  p_state :: u32

abbreviation (input) PTHREAD_STATE_CREATED :: u32 where "PTHREAD_STATE_CREATED \<equiv> 0"
abbreviation (input) PTHREAD_STATE_RUNNING :: u32 where "PTHREAD_STATE_RUNNING \<equiv> 1"
abbreviation (input) PTHREAD_STATE_EXITED :: u32 where "PTHREAD_STATE_EXITED \<equiv> 2"
abbreviation (input) PTHREAD_CANCEL_ENABLE :: u8 where "PTHREAD_CANCEL_ENABLE \<equiv> 0"
abbreviation (input) PTHREAD_CANCEL_DISABLE :: u8 where "PTHREAD_CANCEL_DISABLE \<equiv> 1"
abbreviation (input) PTHREAD_CANCEL_DEFERRED :: u8 where "PTHREAD_CANCEL_DEFERRED \<equiv> 0"
abbreviation (input) PTHREAD_CANCELED :: u32 where "PTHREAD_CANCELED \<equiv> -1"

record thread_cancel_state =
  c_utcb :: ptr
  c_thread :: ptr
  cancel_state :: u8
  cancel_type :: u8
  cancel_pending :: u8

record thread_ptr_entry =
  e_utcb :: ptr
  e_thread :: ptr

record thread_signal_state =
  g_tid :: tid
  sigmask :: u32
  pending :: u32

record sigaction_t =
  sa_handler :: ptr
  sa_mask :: u32
  sa_flags :: u32

record posix_state =
  threads :: "ptr \<Rightarrow> pthread_t"
  pending_cancel :: "ptr list"
  thread_ptr_table :: "thread_ptr_entry list"
  cancel_table :: "thread_cancel_state list"
  thread_signals :: "thread_signal_state list"
  signal_handlers :: "nat \<Rightarrow> sigaction_t"

definition thr_upd :: "ptr \<Rightarrow> (pthread_t \<Rightarrow> pthread_t) \<Rightarrow> posix_state \<Rightarrow> posix_state" where
  "thr_upd p f s = s\<lparr>threads := (threads s)(p := f (threads s p))\<rparr>"

definition add_pending_cancel :: "ptr \<Rightarrow> posix_state \<Rightarrow> int \<times> posix_state" where
  "add_pending_cancel thread s = (case find_slot (\<lambda>p. p = NULL) (pending_cancel s) of
     Some i \<Rightarrow> (0, s\<lparr>pending_cancel := (pending_cancel s)[i := thread]\<rparr>) | None \<Rightarrow> (EAGAIN, s))"

definition consume_pending_cancel :: "ptr \<Rightarrow> posix_state \<Rightarrow> bool \<times> posix_state" where
  "consume_pending_cancel thread s = (case find_slot (\<lambda>p. p = thread) (pending_cancel s) of
     Some i \<Rightarrow> (True, s\<lparr>pending_cancel := (pending_cancel s)[i := NULL]\<rparr>) | None \<Rightarrow> (False, s))"

definition register_thread_ptr :: "ptr \<Rightarrow> ptr \<Rightarrow> posix_state \<Rightarrow> int \<times> posix_state" where
  "register_thread_ptr u thread s = (case find_slot (\<lambda>e. e_utcb e = NULL) (thread_ptr_table s) of
     Some i \<Rightarrow> (0, s\<lparr>thread_ptr_table := (thread_ptr_table s)[i := \<lparr>e_utcb = u, e_thread = thread\<rparr>]\<rparr>) | None \<Rightarrow> (-1, s))"

definition get_current_thread_ptr :: "ptr \<Rightarrow> posix_state \<Rightarrow> ptr" where
  "get_current_thread_ptr u s = (case find_slot (\<lambda>e. e_utcb e = u) (thread_ptr_table s) of
     Some i \<Rightarrow> e_thread (thread_ptr_table s ! i) | None \<Rightarrow> NULL)"

definition unregister_thread_ptr :: "ptr \<Rightarrow> posix_state \<Rightarrow> posix_state" where
  "unregister_thread_ptr u s = (case find_slot (\<lambda>e. e_utcb e = u) (thread_ptr_table s) of
     Some i \<Rightarrow> s\<lparr>thread_ptr_table := (thread_ptr_table s)[i := \<lparr>e_utcb = NULL, e_thread = NULL\<rparr>]\<rparr> | None \<Rightarrow> s)"

definition get_utcb_for_thread :: "ptr \<Rightarrow> posix_state \<Rightarrow> ptr" where
  "get_utcb_for_thread thread s = (case find_slot (\<lambda>e. e_thread e = thread) (thread_ptr_table s) of
     Some i \<Rightarrow> e_utcb (thread_ptr_table s ! i) | None \<Rightarrow> NULL)"

text \<open>The result is the index of the entry.\<close>

definition get_cancel_state :: "ptr \<Rightarrow> posix_state \<Rightarrow> nat option \<times> posix_state" where
  "get_cancel_state u s =
     (if u = NULL then (None, s)
      else case find_slot (\<lambda>c. c_utcb c = u) (cancel_table s) of
        Some i \<Rightarrow> (Some i, s)
      | None \<Rightarrow> (case find_slot (\<lambda>c. c_utcb c = NULL) (cancel_table s) of
          Some i \<Rightarrow> (Some i, s\<lparr>cancel_table := (cancel_table s)[i := \<lparr>c_utcb = u, c_thread = get_current_thread_ptr u s,
            cancel_state = PTHREAD_CANCEL_ENABLE, cancel_type = PTHREAD_CANCEL_DEFERRED, cancel_pending = 0\<rparr>]\<rparr>)
        | None \<Rightarrow> (None, s)))"

definition set_cancel_pending :: "ptr \<Rightarrow> posix_state \<Rightarrow> int \<times> posix_state" where
  "set_cancel_pending thread s =
     (let target = get_utcb_for_thread thread s in
      if target = NULL then (ESRCH, s)
      else case find_slot (\<lambda>c. c_utcb c = target) (cancel_table s) of
        Some i \<Rightarrow> (0, s\<lparr>cancel_table := (cancel_table s)[i := (cancel_table s ! i)\<lparr>cancel_pending := 1\<rparr>]\<rparr>)
      | None \<Rightarrow> (case find_slot (\<lambda>c. c_utcb c = NULL) (cancel_table s) of
          Some i \<Rightarrow> (0, s\<lparr>cancel_table := (cancel_table s)[i := \<lparr>c_utcb = target, c_thread = thread,
            cancel_state = PTHREAD_CANCEL_ENABLE, cancel_type = PTHREAD_CANCEL_DEFERRED, cancel_pending = 1\<rparr>]\<rparr>)
        | None \<Rightarrow> (EAGAIN, s)))"

definition cancel_thread_cleanup :: "ptr \<Rightarrow> posix_state \<Rightarrow> posix_state" where
  "cancel_thread_cleanup thread s =
     (let target = get_utcb_for_thread thread s in
      case find_slot (\<lambda>c. target \<noteq> NULL \<and> c_utcb c = target \<or> target = NULL \<and> c_thread c = thread) (cancel_table s) of
        Some i \<Rightarrow> s\<lparr>cancel_table := (cancel_table s)[i := \<lparr>c_utcb = NULL, c_thread = NULL, cancel_state = 0,
          cancel_type = 0, cancel_pending = 0\<rparr>]\<rparr>
      | None \<Rightarrow> s)"

definition pthread_cancel :: "ptr \<Rightarrow> posix_state \<Rightarrow> int \<times> posix_state" where
  "pthread_cancel thread s =
     (if thread = NULL then (EINVAL, s)
      else if p_joined (threads s thread) \<noteq> 0 \<or> p_state (threads s thread) = PTHREAD_STATE_EXITED then (ESRCH, s)
      else case set_cancel_pending thread s of (r, s) \<Rightarrow>
        if r = ESRCH
        then if p_state (threads s thread) = PTHREAD_STATE_CREATED then add_pending_cancel thread s else (ESRCH, s)
        else (r, s))"

text \<open>The old value is returned as the second component.\<close>

definition pthread_setcancelstate :: "ptr \<Rightarrow> int \<Rightarrow> posix_state \<Rightarrow> int \<times> u8 option \<times> posix_state" where
  "pthread_setcancelstate u st s =
     (if st \<noteq> 0 \<and> st \<noteq> 1 then (EINVAL, None, s)
      else case get_cancel_state u s of (None, s) \<Rightarrow> (EAGAIN, None, s)
      | (Some i, s) \<Rightarrow> (0, Some (cancel_state (cancel_table s ! i)),
          s\<lparr>cancel_table := (cancel_table s)[i := (cancel_table s ! i)\<lparr>cancel_state := word_of_int st\<rparr>]\<rparr>))"

definition pthread_setcanceltype :: "ptr \<Rightarrow> int \<Rightarrow> posix_state \<Rightarrow> int \<times> u8 option \<times> posix_state" where
  "pthread_setcanceltype u ty s =
     (if ty \<noteq> 0 then (if ty = 1 then ENOTSUP else EINVAL, None, s)
      else case get_cancel_state u s of (None, s) \<Rightarrow> (EAGAIN, None, s)
      | (Some i, s) \<Rightarrow> (0, Some (cancel_type (cancel_table s ! i)),
          s\<lparr>cancel_table := (cancel_table s)[i := (cancel_table s ! i)\<lparr>cancel_type := word_of_int ty\<rparr>]\<rparr>))"

subsection \<open>Signals\<close>

abbreviation (input) SIGKILL :: int where "SIGKILL \<equiv> 9"
abbreviation (input) SIGSTOP :: int where "SIGSTOP \<equiv> 19"

definition get_thread_signal_state :: "tid \<Rightarrow> posix_state \<Rightarrow> nat option \<times> posix_state" where
  "get_thread_signal_state self s = (case find_slot (\<lambda>g. g_tid g = self) (thread_signals s) of
     Some i \<Rightarrow> (Some i, s)
   | None \<Rightarrow> (case find_slot (\<lambda>g. g_tid g = 0) (thread_signals s) of
       Some i \<Rightarrow> (Some i, s\<lparr>thread_signals := (thread_signals s)[i := \<lparr>g_tid = self, sigmask = 0, pending = 0\<rparr>]\<rparr>)
     | None \<Rightarrow> (None, s)))"

definition sig_upd :: "nat \<Rightarrow> (thread_signal_state \<Rightarrow> thread_signal_state) \<Rightarrow> posix_state \<Rightarrow> posix_state" where
  "sig_upd i f s = s\<lparr>thread_signals := (thread_signals s)[i := f (thread_signals s ! i)]\<rparr>"

definition deliver_signal_locked :: "tid \<Rightarrow> nat \<Rightarrow> posix_state \<Rightarrow> int \<times> posix_state" where
  "deliver_signal_locked t sig s = (case find_slot (\<lambda>g. g_tid g = t) (thread_signals s) of
     Some i \<Rightarrow> (0, sig_upd i (\<lambda>g. g\<lparr>pending := pending g OR push_bit sig 1\<rparr>) s)
   | None \<Rightarrow> (case find_slot (\<lambda>g. g_tid g = 0) (thread_signals s) of
       Some i \<Rightarrow> (0, sig_upd i (\<lambda>_. \<lparr>g_tid = t, sigmask = 0, pending = push_bit sig 1\<rparr>) s)
     | None \<Rightarrow> (EAGAIN, s)))"

definition signal_thread_cleanup :: "tid \<Rightarrow> posix_state \<Rightarrow> posix_state" where
  "signal_thread_cleanup t s = (case find_slot (\<lambda>g. g_tid g = t) (thread_signals s) of
     Some i \<Rightarrow> sig_upd i (\<lambda>_. \<lparr>g_tid = 0, sigmask = 0, pending = 0\<rparr>) s | None \<Rightarrow> s)"

definition sigemptyset :: "u32 option \<Rightarrow> int \<times> u32 option" where
  "sigemptyset sset = on_ptr sset (\<lambda>_. (0, 0))"

definition sigfillset :: "u32 option \<Rightarrow> int \<times> u32 option" where
  "sigfillset sset = on_ptr sset (\<lambda>_. (0, NOT 0))"

definition sigaddset :: "int \<Rightarrow> u32 option \<Rightarrow> int \<times> u32 option" where
  "sigaddset signo sset =
     on_ptr sset (\<lambda>w. if signo < 1 \<or> signo > 31 then (EINVAL, w) else (0, w OR push_bit (nat signo) 1))"

definition sigdelset :: "int \<Rightarrow> u32 option \<Rightarrow> int \<times> u32 option" where
  "sigdelset signo sset =
     on_ptr sset (\<lambda>w. if signo < 1 \<or> signo > 31 then (EINVAL, w) else (0, w AND NOT (push_bit (nat signo) 1)))"

definition sigismember :: "int \<Rightarrow> u32 option \<Rightarrow> int" where
  "sigismember signo sset = (case sset of None \<Rightarrow> EINVAL
     | Some w \<Rightarrow> if signo < 1 \<or> signo > 31 then EINVAL else if w AND push_bit (nat signo) 1 \<noteq> 0 then 1 else 0)"

definition pthread_sigmask :: "tid \<Rightarrow> int \<Rightarrow> u32 option \<Rightarrow> posix_state \<Rightarrow> int \<times> u32 option \<times> posix_state" where
  "pthread_sigmask self how sset s = (case get_thread_signal_state self s of
     (None, s) \<Rightarrow> (EAGAIN, None, s)
   | (Some i, s) \<Rightarrow>
       let old = sigmask (thread_signals s ! i) in
       (case sset of
          None \<Rightarrow> (0, Some old, s)
        | Some w \<Rightarrow>
            if how = 0 then (0, Some old, sig_upd i (\<lambda>g. g\<lparr>sigmask := sigmask g OR w\<rparr>) s)
            else if how = 1 then (0, Some old, sig_upd i (\<lambda>g. g\<lparr>sigmask := sigmask g AND NOT w\<rparr>) s)
            else if how = 2 then (0, Some old, sig_upd i (\<lambda>g. g\<lparr>sigmask := w\<rparr>) s)
            else (EINVAL, Some old, s)))"

definition sigprocmask :: "tid \<Rightarrow> int \<Rightarrow> u32 option \<Rightarrow> posix_state \<Rightarrow> int \<times> u32 option \<times> posix_state" where
  "sigprocmask = pthread_sigmask"

definition sigaction :: "int \<Rightarrow> sigaction_t option \<Rightarrow> posix_state \<Rightarrow> int \<times> sigaction_t option \<times> posix_state" where
  "sigaction sig act s =
     (if sig < 1 \<or> sig > 31 then (EINVAL, None, s)
      else if sig = SIGKILL \<or> sig = SIGSTOP then (EINVAL, None, s)
      else (0, Some (signal_handlers s (nat sig)),
            case act of None \<Rightarrow> s | Some a \<Rightarrow> s\<lparr>signal_handlers := (signal_handlers s)(nat sig := a)\<rparr>))"

text \<open>One pass of the polling loop of \<open>sigwait\<close>: the signal found, with its pending bit cleared; \<open>None\<close> when the
  loop sleeps and looks again.\<close>

definition sigwait_poll :: "u32 \<Rightarrow> nat \<Rightarrow> posix_state \<Rightarrow> nat option \<times> posix_state" where
  "sigwait_poll sset i s =
     (case find (\<lambda>n. sset AND push_bit n 1 \<noteq> 0 \<and> pending (thread_signals s ! i) AND push_bit n 1 \<noteq> 0) [1..<32] of
        Some n \<Rightarrow> (Some n, sig_upd i (\<lambda>g. g\<lparr>pending := pending g AND NOT (push_bit n 1)\<rparr>) s)
      | None \<Rightarrow> (None, s))"

text \<open>\<open>sigwait\<close> up to its first pass: the code and, when it is 0, the result of the pass.\<close>

definition sigwait :: "tid \<Rightarrow> u32 option \<Rightarrow> posix_state \<Rightarrow> int \<times> nat option \<times> posix_state" where
  "sigwait self sset s = (case sset of
     None \<Rightarrow> (EINVAL, None, s)
   | Some w \<Rightarrow> (case get_thread_signal_state self s of
       (None, s) \<Rightarrow> (EAGAIN, None, s)
     | (Some i, s) \<Rightarrow> (0, sigwait_poll w i s)))"

definition sigpending :: "tid \<Rightarrow> u32 option \<Rightarrow> posix_state \<Rightarrow> int \<times> u32 option \<times> posix_state" where
  "sigpending self sset s = (case sset of
     None \<Rightarrow> (EINVAL, None, s)
   | Some _ \<Rightarrow> (case get_thread_signal_state self s of
       (None, s) \<Rightarrow> (EAGAIN, sset, s)
     | (Some i, s) \<Rightarrow> (0, Some (pending (thread_signals s ! i) AND sigmask (thread_signals s ! i)), s)))"

definition pthread_kill :: "ptr \<Rightarrow> int \<Rightarrow> posix_state \<Rightarrow> int \<times> posix_state" where
  "pthread_kill thread sig s =
     (if thread = NULL \<or> sig < 0 \<or> sig > 31 then (EINVAL, s)
      else if sig = 0 then (0, s)
      else deliver_signal_locked (p_tid (threads s thread)) (nat sig) s)"

definition raise :: "tid \<Rightarrow> int \<Rightarrow> posix_state \<Rightarrow> int \<times> posix_state" where
  "raise self sig s =
     (if sig < 1 \<or> sig > 31 then (EINVAL, s)
      else case get_thread_signal_state self s of
        (None, s) \<Rightarrow> (EAGAIN, s)
      | (Some i, s) \<Rightarrow> (0, sig_upd i (\<lambda>g. g\<lparr>pending := pending g OR push_bit (nat sig) 1\<rparr>) s))"

subsection \<open>Life cycle\<close>

text \<open>\<open>pthread_create\<close>: \<open>reply\<close> is the thread identifier that the pager returned (0: none). The pager then starts
  the thread in \<open>pthread_entry_wrapper\<close> with the address of the object.\<close>

definition pthread_create :: "tid \<Rightarrow> pthread_attr_t option \<Rightarrow> ptr \<Rightarrow> ptr \<Rightarrow> u32 \<Rightarrow> posix_state \<Rightarrow> int \<times> posix_state" where
  "pthread_create reply attr thread start_routine arg s =
     (if thread = NULL \<or> start_routine = NULL then (EINVAL, s)
      else if reply = 0 then (EAGAIN, s)
      else (0, thr_upd thread (\<lambda>_. \<lparr>p_tid = reply, p_creator = 0, p_entry = start_routine, p_arg = arg, p_retval = 0,
        p_detached = (case attr of Some a \<Rightarrow> a_detachstate a | None \<Rightarrow> PTHREAD_CREATE_JOINABLE), p_joined = 0,
        p_state = PTHREAD_STATE_CREATED\<rparr>) s))"

text \<open>\<open>pthread_entry_wrapper\<close> before and after the user function.\<close>

definition entry_prologue :: "ptr \<Rightarrow> ptr \<Rightarrow> posix_state \<Rightarrow> posix_state" where
  "entry_prologue u thread s =
     (let s = snd (register_thread_ptr u thread s);
          s = thr_upd thread (p_state_update (\<lambda>_. PTHREAD_STATE_RUNNING)) s
      in case consume_pending_cancel thread s of (found, s) \<Rightarrow>
         if found then snd (set_cancel_pending thread s) else s)"

definition entry_epilogue :: "ptr \<Rightarrow> ptr \<Rightarrow> posix_state \<Rightarrow> posix_state" where
  "entry_epilogue u thread s = unregister_thread_ptr u (cancel_thread_cleanup thread s)"

text \<open>\<open>pthread_exit\<close> up to the message to the pager.\<close>

definition pthread_exit :: "ptr \<Rightarrow> tid \<Rightarrow> posix_state \<Rightarrow> posix_state" where
  "pthread_exit u me s =
     (let self = get_current_thread_ptr u s;
          s = (if self \<noteq> NULL then thr_upd self (p_state_update (\<lambda>_. PTHREAD_STATE_EXITED)) s else s);
          s = signal_thread_cleanup me s;
          s = (if self \<noteq> NULL then cancel_thread_cleanup self s else s)
      in unregister_thread_ptr u s)"

text \<open>\<open>pthread_testcancel\<close>: does the thread exit, and with which state.\<close>

definition pthread_testcancel :: "ptr \<Rightarrow> tid \<Rightarrow> posix_state \<Rightarrow> bool \<times> posix_state" where
  "pthread_testcancel u me s = (case get_cancel_state u s of
     (None, s) \<Rightarrow> (False, s)
   | (Some i, s) \<Rightarrow>
       let c = cancel_table s ! i in
       if cancel_pending c \<noteq> 0 \<and> cancel_state c = PTHREAD_CANCEL_ENABLE
       then (True, pthread_exit u me (cancel_thread_cleanup (c_thread c) s)) else (False, s))"

text \<open>\<open>reply\<close> is the result of the pager.\<close>

definition pthread_join :: "int \<Rightarrow> ptr \<Rightarrow> posix_state \<Rightarrow> int \<times> posix_state" where
  "pthread_join reply thread s =
     (if thread = NULL then (EINVAL, s)
      else if p_detached (threads s thread) \<noteq> 0 then (EINVAL, s)
      else if p_joined (threads s thread) \<noteq> 0 then (EINVAL, s)
      else (reply, if reply = 0 then thr_upd thread (p_joined_update (\<lambda>_. 1)) s else s))"

definition pthread_detach :: "ptr \<Rightarrow> posix_state \<Rightarrow> int \<times> posix_state" where
  "pthread_detach thread s =
     (if thread = NULL then (EINVAL, s)
      else if p_detached (threads s thread) \<noteq> 0 then (EINVAL, s)
      else (0, thr_upd thread (p_detached_update (\<lambda>_. 1)) s))"

definition pthread_self :: "tid \<Rightarrow> pthread_t" where
  "pthread_self me = \<lparr>p_tid = me, p_creator = L4_nilthread, p_entry = NULL, p_arg = 0, p_retval = 0, p_detached = 0,
     p_joined = 0, p_state = PTHREAD_STATE_RUNNING\<rparr>"

definition pthread_equal :: "pthread_t \<Rightarrow> pthread_t \<Rightarrow> bool" where
  "pthread_equal t1 t2 \<longleftrightarrow> p_tid t1 = p_tid t2"

subsection \<open>Cancellation reaches a thread that has not started\<close>

lemma early_cancel_prologue:
  assumes t: "thread \<noteq> NULL" "u \<noteq> NULL"
    and tb: "\<And>e. e \<in> set (thread_ptr_table s) \<Longrightarrow> e_thread e \<noteq> thread" "\<And>e. e \<in> set (thread_ptr_table s) \<Longrightarrow> e_utcb e \<noteq> u"
      "find_slot (\<lambda>e. e_utcb e = NULL) (thread_ptr_table s) = Some j"
    and ct: "\<And>c. c \<in> set (cancel_table s) \<Longrightarrow> c_utcb c \<noteq> u" "find_slot (\<lambda>c. c_utcb c = NULL) (cancel_table s) = Some k"
    and pc: "thread \<in> set (pending_cancel s)"
  shows "\<exists>s'. entry_prologue u thread s = s' \<and>
    thread_ptr_table s' = (thread_ptr_table s)[j := \<lparr>e_utcb = u, e_thread = thread\<rparr>] \<and>
    cancel_table s' = (cancel_table s)[k := \<lparr>c_utcb = u, c_thread = thread, cancel_state = PTHREAD_CANCEL_ENABLE,
      cancel_type = PTHREAD_CANCEL_DEFERRED, cancel_pending = 1\<rparr>] \<and>
    p_state (threads s' thread) = PTHREAD_STATE_RUNNING"
proof -
  let ?tb = "(thread_ptr_table s)[j := \<lparr>e_utcb = u, e_thread = thread\<rparr>]"
  have j: "j < length (thread_ptr_table s)" using find_slot_Some [OF tb(3)] by simp
  have f: "find_slot (\<lambda>e. e_thread e = thread) ?tb = Some j" by (rule find_slot_written [OF j]) (use tb(1) in auto)
  obtain i where i: "find_slot (\<lambda>p. p = thread) (pending_cancel s) = Some i" using find_slot_Some_ex [OF pc, of "\<lambda>p. p = thread"] by auto
  have c: "find_slot (\<lambda>c. c_utcb c = u) (cancel_table s) = None" using ct(1) by (auto simp: find_slot_None)
  show ?thesis using t tb(3) f i c ct(2) j
    by (simp add: entry_prologue_def register_thread_ptr_def thr_upd_def consume_pending_cancel_def set_cancel_pending_def
        get_utcb_for_thread_def Let_def)
qed

lemma testcancel_exits:
  assumes t: "thread \<noteq> NULL" "u \<noteq> NULL" and j: "j < length tb" and k: "k < length ct"
    and tb: "\<And>e. e \<in> set tb \<Longrightarrow> e_thread e \<noteq> thread" "\<And>e. e \<in> set tb \<Longrightarrow> e_utcb e \<noteq> u"
    and ct: "\<And>c. c \<in> set ct \<Longrightarrow> c_utcb c \<noteq> u"
    and s: "thread_ptr_table s = tb[j := \<lparr>e_utcb = u, e_thread = thread\<rparr>]"
      "cancel_table s = ct[k := \<lparr>c_utcb = u, c_thread = thread, cancel_state = PTHREAD_CANCEL_ENABLE,
         cancel_type = PTHREAD_CANCEL_DEFERRED, cancel_pending = 1\<rparr>]"
  shows "\<exists>s'. pthread_testcancel u me s = (True, s') \<and> p_state (threads s' thread) = PTHREAD_STATE_EXITED \<and>
    u \<notin> e_utcb ` set (thread_ptr_table s') \<and> u \<notin> c_utcb ` set (cancel_table s')"
proof -
  let ?free = "\<lparr>c_utcb = NULL, c_thread = NULL, cancel_state = 0, cancel_type = 0, cancel_pending = 0\<rparr>"
  have f1: "find_slot (\<lambda>c. c_utcb c = u) (cancel_table s) = Some k" unfolding s(2) by (rule find_slot_written [OF k]) (use ct in auto)
  have f2: "find_slot (\<lambda>e. e_thread e = thread) (thread_ptr_table s) = Some j"
    unfolding s(1) by (rule find_slot_written [OF j]) (use tb(1) in auto)
  have f3: "find_slot (\<lambda>e. e_utcb e = u) (thread_ptr_table s) = Some j"
    unfolding s(1) by (rule find_slot_written [OF j]) (use tb(2) in auto)
  have n: "c_utcb c \<noteq> u" if "c \<in> set (ct[k := ?free])" for c
  proof -
    have "c = ?free \<or> c \<in> set ct" using set_update_subset_insert [of ct k ?free] that by blast
    then show ?thesis using ct t(2) by auto
  qed
  then have f4: "find_slot (\<lambda>c. c_utcb c = u) (ct[k := ?free]) = None" by (auto simp: find_slot_None)
  have u: "get_utcb_for_thread thread s = u" using f2 j by (simp add: get_utcb_for_thread_def s(1))
  define s1 where "s1 = s\<lparr>cancel_table := ct[k := ?free]\<rparr>"
  have cl: "cancel_thread_cleanup thread s = s1"
    using t(2) f1 by (simp add: cancel_thread_cleanup_def Let_def u s1_def) (simp add: s(2))
  have self: "get_current_thread_ptr u s1 = thread" using f3 j by (simp add: get_current_thread_ptr_def s1_def) (simp add: s(1))
  define s2 where "s2 = signal_thread_cleanup me (thr_upd thread (p_state_update (\<lambda>_. PTHREAD_STATE_EXITED)) s1)"
  have s2: "thread_ptr_table s2 = thread_ptr_table s" "cancel_table s2 = ct[k := ?free]" "p_state (threads s2 thread) = PTHREAD_STATE_EXITED"
    by (simp_all add: s2_def s1_def signal_thread_cleanup_def thr_upd_def sig_upd_def split: option.split)
  have cl2: "cancel_thread_cleanup thread s2 = s2"
    using t(2) f4 f2 j by (simp add: cancel_thread_cleanup_def get_utcb_for_thread_def Let_def s2) (simp add: s(1))
  have ex: "pthread_exit u me s1 = s2\<lparr>thread_ptr_table := (thread_ptr_table s)[j := \<lparr>e_utcb = NULL, e_thread = NULL\<rparr>]\<rparr>"
    using t(1) f3 by (simp add: pthread_exit_def Let_def self cl2 s2_def [symmetric]) (simp add: unregister_thread_ptr_def s2)
  have "u \<notin> e_utcb ` set ((thread_ptr_table s)[j := \<lparr>e_utcb = NULL, e_thread = NULL\<rparr>])"
    unfolding s(1) list_update_overwrite by (rule key_not_written) (use tb(2) t(2) in auto)
  moreover have "pthread_testcancel u me s = (True, pthread_exit u me s1)"
    using t(2) f1 k cl by (simp add: pthread_testcancel_def get_cancel_state_def Let_def) (simp add: s(2))
  ultimately show ?thesis using n s2 by (auto simp: ex)
qed


definition cancel_example :: posix_state where
  "cancel_example = \<lparr>threads = (\<lambda>_. (pthread_self 0)\<lparr>p_state := PTHREAD_STATE_CREATED\<rparr>), pending_cancel = replicate 8 0,
     thread_ptr_table = replicate 16 \<lparr>e_utcb = 0, e_thread = 0\<rparr>,
     cancel_table = replicate 16 \<lparr>c_utcb = 0, c_thread = 0, cancel_state = 0, cancel_type = 0, cancel_pending = 0\<rparr>,
     thread_signals = replicate 16 \<lparr>g_tid = 0, sigmask = 0, pending = 0\<rparr>,
     signal_handlers = (\<lambda>_. \<lparr>sa_handler = 0, sa_mask = 0, sa_flags = 0\<rparr>)\<rparr>"


subsection \<open>A signal sent is a signal received\<close>

lemma and_exp_neq_zero: "(w :: u32) AND push_bit n 1 \<noteq> 0 \<longleftrightarrow> n < 32 \<and> bit w n"
  by (auto simp: u32_eq_zero_iff bit_and_iff bit_exp_iff dest: u32_bit_bound)

lemma sigset_member:
  assumes "1 \<le> signo" "signo \<le> 31"
  shows "sigismember signo (Some w) = (if bit w (nat signo) then 1 else 0)"
proof -
  have "nat signo < 32" using assms by simp
  then show ?thesis using assms and_exp_neq_zero [of w "nat signo"] by (simp add: sigismember_def)
qed

text \<open>A signal sent with \<open>pthread_kill\<close> to a thread is received by its \<open>sigwait\<close>: the first pass of the polling
  loop returns the lowest pending signal of the set, clears it and no other; the table entries of other
  threads are not touched.\<close>

theorem pthread_kill_then_sigwait:
  assumes t: "thread \<noteq> NULL" "p_tid (threads s thread) \<noteq> 0" and sig: "1 \<le> sig" "sig \<le> 31"
    and g: "find_slot (\<lambda>g. g_tid g = p_tid (threads s thread)) (thread_signals s) = Some i" and w: "bit w (nat sig)"
  shows "\<exists>s1 n s2. pthread_kill thread sig s = (0, s1) \<and> sigwait (p_tid (threads s thread)) (Some w) s1 = (0, Some n, s2) \<and>
    n \<le> nat sig \<and> bit w n \<and> (n = nat sig \<or> bit (pending (thread_signals s ! i)) n) \<and>
    (\<forall>m. bit (pending (thread_signals s2 ! i)) m \<longleftrightarrow> m \<noteq> n \<and> (m = nat sig \<or> bit (pending (thread_signals s ! i)) m)) \<and>
    (\<forall>k. k \<noteq> i \<longrightarrow> thread_signals s2 ! k = thread_signals s ! k)"
proof -
  let ?me = "p_tid (threads s thread)" and ?p = "pending (thread_signals s ! i)"
  have i: "i < length (thread_signals s)" "g_tid (thread_signals s ! i) = ?me" "\<And>j. j < i \<Longrightarrow> g_tid (thread_signals s ! j) \<noteq> ?me"
    using find_slot_Some [OF g] by auto
  define s1 where "s1 = sig_upd i (\<lambda>g. g\<lparr>pending := pending g OR push_bit (nat sig) 1\<rparr>) s"
  have kill: "pthread_kill thread sig s = (0, s1)" using t sig g by (simp add: pthread_kill_def deliver_signal_locked_def s1_def)
  have p1: "pending (thread_signals s1 ! i) = ?p OR push_bit (nat sig) 1" "length (thread_signals s1) = length (thread_signals s)"
    "g_tid (thread_signals s1 ! k) = g_tid (thread_signals s ! k)" "k \<noteq> i \<Longrightarrow> thread_signals s1 ! k = thread_signals s ! k" for k
    using i by (simp_all add: s1_def sig_upd_def nth_list_update)
  have f: "find_slot (\<lambda>g. g_tid g = ?me) (thread_signals s1) = Some i"
    using g unfolding find_slot_def p1(2,3) by simp
  have b1: "bit (pending (thread_signals s1 ! i)) m \<longleftrightarrow> m = nat sig \<or> bit ?p m" for m
    using sig by (auto simp: p1(1) bit_or_iff bit_exp_iff)
  let ?P = "\<lambda>n. w AND push_bit n 1 \<noteq> 0 \<and> pending (thread_signals s1 ! i) AND push_bit n 1 \<noteq> 0"
  have P: "?P n \<longleftrightarrow> bit w n \<and> (n = nat sig \<or> bit ?p n)" for n
    unfolding and_exp_neq_zero b1 using u32_bit_bound by blast
  have "find ?P [1..<32] \<noteq> None" unfolding find_None_iff P using w sig by (auto intro!: bexI [of _ "nat sig"])
  then obtain n where n: "find ?P [1..<32] = Some n" by blast
  then obtain l where l: "l < 31" "n = 1 + l" "?P n" "\<forall>j < l. \<not> ?P (1 + j)" by (auto simp: find_Some_iff)
  have le: "n \<le> nat sig"
  proof (rule ccontr)
    assume "\<not> n \<le> nat sig"
    then have "nat sig - 1 < l" "1 + (nat sig - 1) = nat sig" using l(2) sig by auto
    then show False using l(4) w P [of "nat sig"] by metis
  qed
  have n32: "n < 32" using l by simp
  define s2 where "s2 = sig_upd i (\<lambda>g. g\<lparr>pending := pending g AND NOT (push_bit n 1)\<rparr>) s1"
  have wait: "sigwait ?me (Some w) s1 = (0, Some n, s2)"
    using f n by (simp add: sigwait_def get_thread_signal_state_def sigwait_poll_def s2_def)
  have "pending (thread_signals s2 ! i) = pending (thread_signals s1 ! i) AND NOT (push_bit n 1)"
    "k \<noteq> i \<Longrightarrow> thread_signals s2 ! k = thread_signals s ! k" for k
    using i(1) p1(2,4) by (simp_all add: s2_def sig_upd_def)
  moreover have "bit (pending (thread_signals s1 ! i) AND NOT (push_bit n 1)) m \<longleftrightarrow> m \<noteq> n \<and> (m = nat sig \<or> bit ?p m)" for m
    unfolding bit_and_iff b1 using n32 sig u32_bit_bound [of ?p m] by (auto simp: bit_not_iff bit_exp_iff)
  ultimately show ?thesis using kill wait le l(3) unfolding P by (intro exI [of _ s1] exI [of _ n] exI [of _ s2]) auto
qed

theorem pthread_kill_then_sigwait_witness:
  "\<exists>s1 n s2. pthread_kill 8 10 (cancel_example\<lparr>threads := (\<lambda>_. pthread_self 7), thread_signals := [\<lparr>g_tid = 7, sigmask = 0, pending = 0\<rparr>]\<rparr>)
       = (0, s1) \<and> sigwait 7 (Some 0x400) s1 = (0, Some n, s2)"
proof -
  let ?s = "cancel_example\<lparr>threads := (\<lambda>_. pthread_self 7), thread_signals := [\<lparr>g_tid = 7, sigmask = 0, pending = 0\<rparr>]\<rparr>"
  have "p_tid (threads ?s 8) = 7" by (simp add: pthread_self_def)
  moreover have "find_slot (\<lambda>g. g_tid g = 7) (thread_signals ?s) = Some 0" by (simp add: find_slot_def)
  moreover have "bit (0x400 :: u32) (nat 10)" by simp
  ultimately show ?thesis using pthread_kill_then_sigwait [of 8 ?s 10 0 "0x400"] by auto
qed

end
