(* ===== verification/Posix_Time.thy ===== *)
theory Posix_Time
  imports Posix_Cond L4_Types
begin

text \<open>
  Clocks, sleeping and timers, \<^verbatim>\<open>user/lib/posix/time.c\<close>, and the timed waits of \<^verbatim>\<open>user/lib/posix/pthread.c\<close>. What the kernel
  clock shows at each reading is an argument; \<open>nanosleep\<close> returns the periods it passes to \<open>L4_Sleep\<close>. The spinlock around the
  timer table makes a call one step.
\<close>

record timespec =
  tv_sec :: "64 word"
  tv_nsec :: "32 word"

abbreviation (input) CLOCK_REALTIME :: int where "CLOCK_REALTIME \<equiv> 0"
abbreviation (input) CLOCK_MONOTONIC :: int where "CLOCK_MONOTONIC \<equiv> 1"

definition clock_known :: "int \<Rightarrow> bool" where
  "clock_known clock_id \<longleftrightarrow> clock_id = CLOCK_REALTIME \<or> clock_id = CLOCK_MONOTONIC"

subsection \<open>Clocks\<close>

definition clock_getres :: "int \<Rightarrow> timespec option \<Rightarrow> int \<times> timespec option" where
  "clock_getres clock_id res =
     on_ptr res (\<lambda>ts. if clock_known clock_id then (0, \<lparr>tv_sec = 0, tv_nsec = 400 * 1000\<rparr>) else (EINVAL, ts))"

definition clock_gettime :: "u64 \<Rightarrow> int \<Rightarrow> timespec option \<Rightarrow> int \<times> timespec option" where
  "clock_gettime usec clock_id tp =
     on_ptr tp (\<lambda>ts. if clock_known clock_id
       then (0, \<lparr>tv_sec = usec div 1000000, tv_nsec = ucast ((usec mod 1000000) * 1000)\<rparr>) else (EINVAL, ts))"

definition clock_settime :: "int \<Rightarrow> timespec option \<Rightarrow> int" where
  "clock_settime clock_id tp = (case tp of None \<Rightarrow> EINVAL | Some ts \<Rightarrow> EPERM)"

subsection \<open>Deadlines\<close>

definition timespec_to_us :: "timespec option \<Rightarrow> u64" where
  "timespec_to_us ts = (case ts of
     None \<Rightarrow> 0
   | Some t \<Rightarrow>
       let secs = (if sint (tv_sec t) > 4000000 then 4000000 else ucast (tv_sec t)) :: u32;
           usec = ucast secs * 1000000 :: u64
       in usec + ucast (tv_nsec t div 1000))"

definition abstime_to_relative_ticks :: "u64 \<Rightarrow> timespec option \<Rightarrow> u32" where
  "abstime_to_relative_ticks now_us abstime = (case abstime of
     None \<Rightarrow> 0
   | Some t \<Rightarrow>
       let deadline_us = timespec_to_us (Some t) in
       if deadline_us \<le> now_us then 0
       else
         let relative_us = deadline_us - now_us;
             ticks = ucast (relative_us div 400) :: u32
         in if ticks = 0 \<and> relative_us > 0 then 1 else ticks)"

subsection \<open>Sleeping\<close>

text \<open>Signed division by 1000, rounding towards zero.\<close>

definition div1000 :: "32 word \<Rightarrow> int" where
  "div1000 n = (if sint n < 0 then - ((- sint n) div 1000) else sint n div 1000)"

lemma chunk_value:
  fixes u :: u64
  assumes "u > 0"
  defines "chunk \<equiv> (if u > 1000000 then 1000000 else ucast u) :: u32"
  shows "unat chunk = min (unat u) 1000000" "unat (u - ucast chunk) = unat u - unat chunk" "0 < unat chunk"
proof -
  show c: "unat chunk = min (unat u) 1000000"
  proof (cases "u > 1000000")
    case True
    then show ?thesis by (simp add: chunk_def word_less_nat_alt)
  next
    case False
    then have "unat u < 2 ^ 32" by (simp add: word_less_nat_alt)
    then show ?thesis using False by (simp add: chunk_def word_less_nat_alt unsigned_ucast_eq take_bit_nat_eq_self)
  qed
  then show "0 < unat chunk" using assms(1) by (simp add: word_less_nat_alt)
  have "unat (ucast chunk :: u64) = unat chunk" by (simp add: unsigned_ucast_eq take_bit_nat_eq_self c)
  then show "unat (u - ucast chunk) = unat u - unat chunk" using c by (subst unat_sub) (auto simp: word_le_nat_alt)
qed

function sleep_chunks :: "u64 \<Rightarrow> u32 list" where
  "sleep_chunks total_usec =
     (if total_usec > 0 then
        let chunk = (if total_usec > 1000000 then 1000000 else ucast total_usec) :: u32
        in chunk # sleep_chunks (total_usec - ucast chunk)
      else [])"
  by auto

termination
proof (relation "measure unat", goal_cases)
  case (2 u x)
  then show ?case using chunk_value [of u] by (auto simp: word_less_nat_alt)
qed simp

declare sleep_chunks.simps [simp del]

definition nanosleep :: "timespec option \<Rightarrow> timespec option \<Rightarrow> int \<times> u32 list \<times> timespec option" where
  "nanosleep rqtp rmtp = (case rqtp of
     None \<Rightarrow> (EINVAL, [], rmtp)
   | Some t \<Rightarrow>
       if sint (tv_nsec t) \<ge> 1000000000 then (EINVAL, [], rmtp)
       else (0, sleep_chunks (tv_sec t * 1000000 + word_of_int (div1000 (tv_nsec t))),
             map_option (\<lambda>_. \<lparr>tv_sec = 0, tv_nsec = 0\<rparr>) rmtp))"

subsection \<open>Timers\<close>

record itimerspec =
  it_interval :: timespec
  it_value :: timespec

record posix_timer =
  tm_active :: bool
  tm_clock_id :: int
  tm_value :: itimerspec

abbreviation (input) MAX_TIMERS :: nat where "MAX_TIMERS \<equiv> 4"

definition timespec0 :: timespec where "timespec0 = \<lparr>tv_sec = 0, tv_nsec = 0\<rparr>"

text \<open>A call that has no result pointer for the identifier is refused; the returned identifier is the second component.\<close>

definition timer_create :: "int \<Rightarrow> bool \<Rightarrow> posix_timer list \<Rightarrow> int \<times> int option \<times> posix_timer list" where
  "timer_create clock_id has_ptr tbl =
     (if \<not> has_ptr \<or> \<not> clock_known clock_id then (EINVAL, None, tbl)
      else case find (\<lambda>i. \<not> tm_active (tbl ! i)) [0..<MAX_TIMERS] of
        None \<Rightarrow> (EAGAIN, None, tbl)
      | Some i \<Rightarrow> (0, Some (int i), tbl[i := \<lparr>tm_active = True, tm_clock_id = clock_id,
                    tm_value = \<lparr>it_interval = timespec0, it_value = timespec0\<rparr>\<rparr>]))"

definition timer_bad :: "int \<Rightarrow> posix_timer list \<Rightarrow> bool" where
  "timer_bad idx tbl \<longleftrightarrow> idx < 0 \<or> idx \<ge> int MAX_TIMERS \<or> \<not> tm_active (tbl ! nat idx)"

definition timer_delete :: "int \<Rightarrow> posix_timer list \<Rightarrow> int \<times> posix_timer list" where
  "timer_delete idx tbl = (if timer_bad idx tbl then (EINVAL, tbl) else (0, tbl[nat idx := (tbl ! nat idx)\<lparr>tm_active := False\<rparr>]))"

definition timer_settime :: "int \<Rightarrow> itimerspec option \<Rightarrow> itimerspec option \<Rightarrow> posix_timer list \<Rightarrow> int \<times> itimerspec option \<times> posix_timer list" where
  "timer_settime idx val ovalue tbl =
     (if timer_bad idx tbl then (EINVAL, ovalue, tbl)
      else case val of
        None \<Rightarrow> (EINVAL, ovalue, tbl)
      | Some v \<Rightarrow> (0, map_option (\<lambda>_. tm_value (tbl ! nat idx)) ovalue, tbl[nat idx := (tbl ! nat idx)\<lparr>tm_value := v\<rparr>]))"

definition timer_gettime :: "int \<Rightarrow> itimerspec option \<Rightarrow> posix_timer list \<Rightarrow> int \<times> itimerspec option" where
  "timer_gettime idx val tbl =
     (if timer_bad idx tbl then (EINVAL, val) else on_ptr val (\<lambda>_. (0, tm_value (tbl ! nat idx))))"

definition timer_getoverrun :: "int \<Rightarrow> posix_timer list \<Rightarrow> int" where
  "timer_getoverrun idx tbl = (if timer_bad idx tbl then -1 else 0)"

subsection \<open>Timed wait on a condition variable\<close>

text \<open>The call up to the release of the mutex: an error, or the deadline and the two counters at this moment together with the condition
  variable that has the caller on its list. A full list makes the caller retry; \<open>None\<close> stands for that.\<close>

datatype timedwait = Refused int | Waits u64 u32 u32

definition cond_timedwait_enter ::
    "tid \<Rightarrow> u64 \<Rightarrow> tid \<Rightarrow> timespec option \<Rightarrow> pthread_cond_t \<Rightarrow> (timedwait \<times> pthread_cond_t) option" where
  "cond_timedwait_enter self now owner abstime c = (case abstime of
     None \<Rightarrow> Some (Refused EINVAL, c)
   | Some t \<Rightarrow>
       if owner \<noteq> self then Some (Refused EPERM, c)
       else
         let deadline_us = timespec_to_us (Some t) in
         if deadline_us \<le> now then Some (Refused ETIMEDOUT, c)
         else
           let r = Waits deadline_us (signal_count c) (broadcast_seq c);
               c = c\<lparr>wait_count := wait_count c + 1\<rparr>
           in case cond_waiter_add self c of (rc, c) \<Rightarrow> if rc < 0 then None else Some (r, c))"

text \<open>The polling loop. Each round sees the condition variable and then the clock, and sleeps for a millisecond when neither ends the
  wait; \<open>None\<close> when the observations end before the loop does.\<close>

fun timedwait_poll :: "u64 \<Rightarrow> u32 \<Rightarrow> u32 \<Rightarrow> (pthread_cond_t \<times> u64) list \<Rightarrow> int option" where
  "timedwait_poll deadline_us sc bs [] = None"
| "timedwait_poll deadline_us sc bs ((c, now) # obs) =
     (if signal_count c \<noteq> sc \<or> broadcast_seq c \<noteq> bs then Some 0
      else if now \<ge> deadline_us then Some ETIMEDOUT
      else timedwait_poll deadline_us sc bs obs)"

definition cond_timedwait_leave :: "tid \<Rightarrow> pthread_cond_t \<Rightarrow> pthread_cond_t" where
  "cond_timedwait_leave self c = (let c = cond_waiter_remove self c in c\<lparr>wait_count := wait_count c - 1\<rparr>)"

subsection \<open>Properties\<close>

lemma unat_div64: "unat (a div (b :: u64)) = unat a div unat b" "unat (a mod (b :: u64)) = unat a mod unat b"
  by (simp_all add: unat_div unat_mod)

lemma sint_small:
  fixes w :: "'a :: len word"
  assumes "unat w < 2 ^ (LENGTH('a) - 1)"
  shows "sint w = int (unat w)"
proof -
  have "int (unat w) < 2 ^ (LENGTH('a) - 1)" using assms by (metis of_nat_less_iff of_nat_numeral of_nat_power)
  then have u: "uint w < 2 ^ (LENGTH('a) - Suc 0)" by simp
  have "- (2 ^ (LENGTH('a) - Suc 0)) \<le> uint w" by (rule order_trans [of _ 0]) simp_all
  then have "sint w = uint w" unfolding sint_uint using u by (rule signed_take_bit_int_eq_self)
  then show ?thesis by simp
qed

text \<open>A deadline is understood as the time it was read as: converting what \<open>clock_gettime\<close> delivered gives back the kernel clock, up to the
  limit of 4000000 seconds.\<close>

theorem clock_gettime_is_deadline:
  assumes "unat usec < 4000001 * 1000000" and "clock_known clk"
  shows "\<exists>ts. clock_gettime usec clk (Some t0) = (0, Some ts) \<and> timespec_to_us (Some ts) = usec"
proof -
  let ?n = "ucast ((usec mod 1000000) * 1000) :: u32"
  have m: "unat usec mod 1000000 * 1000 < 2 ^ 32"
  proof -
    have "unat usec mod 1000000 * 1000 < 1000000 * 1000" by simp
    also have "\<dots> < 2 ^ 32" by simp
    finally show ?thesis .
  qed
  then have "unat ((usec mod 1000000) * 1000) = unat usec mod 1000000 * 1000" by (simp add: unat_word_ariths unat_div64)
  then have n: "unat ?n = unat usec mod 1000000 * 1000" using m by (simp add: unsigned_ucast_eq take_bit_nat_eq_self)
  have s: "unat (usec div 1000000) = unat usec div 1000000" by (simp add: unat_div64)
  have b: "unat usec div 1000000 \<le> 4000000" using assms(1) by (simp add: less_mult_imp_div_less less_Suc_eq_le [symmetric])
  have "sint (usec div 1000000) = int (unat usec div 1000000)"
    using sint_small [of "usec div 1000000"] b unfolding s by simp
  then have c: "\<not> sint (usec div 1000000) > 4000000" using b by auto
  define v where "v = (ucast (usec div 1000000) :: u32)"
  have "unat v = unat usec div 1000000" using b s by (simp add: v_def unsigned_ucast_eq take_bit_nat_eq_self)
  then have "unat (ucast v * 1000000 :: u64) = unat usec div 1000000 * 1000000"
    using b by (simp add: unat_word_ariths unsigned_ucast_eq take_bit_nat_eq_self)
  moreover have "unat (ucast (?n div 1000) :: u64) = unat usec mod 1000000"
    using n by (simp add: unsigned_ucast_eq take_bit_nat_eq_self unat_div)
  ultimately have "unat (ucast v * 1000000 + ucast (?n div 1000) :: u64) = unat usec"
    using unsigned_less [of usec, where ?'a = nat] by (simp add: unat_word_ariths)
  then have "timespec_to_us (Some \<lparr>tv_sec = usec div 1000000, tv_nsec = ?n\<rparr>) = usec"
    unfolding timespec_to_us_def option.case timespec.simps Let_def if_not_P [OF c] v_def [symmetric] word_unat_eq_iff .
  then show ?thesis using assms(2) by (simp add: clock_gettime_def on_ptr_def)
qed

text \<open>The sleeping periods add up to the requested time in microseconds, and none is longer than a second; what the kernel makes of them is
  never longer, because every period is rounded down to whole ticks.\<close>

lemma sleep_chunks_spec:
  "sum_list (map unat (sleep_chunks u)) = unat u \<and> (\<forall>c \<in> set (sleep_chunks u). 0 < unat c \<and> unat c \<le> 1000000)"
proof (induction u rule: sleep_chunks.induct)
  case (1 u)
  show ?case
  proof (cases "u = 0")
    case False
    then have True: "u > 0" by (simp add: word_gt_0)
    note c = chunk_value [OF True]
    have "sum_list (map unat (sleep_chunks u)) = unat u"
      using 1 [OF True refl] True c by (subst sleep_chunks.simps) (simp add: Let_def)
    moreover have "\<forall>c \<in> set (sleep_chunks u). 0 < unat c \<and> unat c \<le> 1000000"
      using 1 [OF True refl] True c by (subst sleep_chunks.simps) (simp add: Let_def)
    ultimately show ?thesis by blast
  next
    case True
    then show ?thesis by (simp add: sleep_chunks.simps)
  qed
qed

definition chunk_ticks :: "u32 \<Rightarrow> nat" where
  "chunk_ticks c = unat (timeout_ticks (ucast (L4_TimePeriod (ucast c))))"

theorem nanosleep_periods:
  assumes "unat (tv_nsec t) < 1000000000" and "unat (tv_sec t) < 2 ^ 40"
  shows "\<exists>cs. nanosleep (Some t) None = (0, cs, None) \<and>
    sum_list (map unat cs) = unat (tv_sec t) * 1000000 + unat (tv_nsec t) div 1000 \<and>
    390 * sum_list (map chunk_ticks cs) \<le> sum_list (map unat cs)"
proof -
  let ?u = "tv_sec t * 1000000 + word_of_int (div1000 (tv_nsec t)) :: u64"
  have n: "sint (tv_nsec t) = int (unat (tv_nsec t))"
    using sint_small [of "tv_nsec t"] assms(1) by simp
  have k: "unat (tv_nsec t) div 1000 < 1000000" using assms(1) by (simp add: less_mult_imp_div_less)
  have "unat (word_of_int (div1000 (tv_nsec t)) :: u64) = unat (tv_nsec t) div 1000"
  proof -
    have "div1000 (tv_nsec t) = int (unat (tv_nsec t) div 1000)" by (simp add: div1000_def n zdiv_int)
    then have "(word_of_int (div1000 (tv_nsec t)) :: u64) = of_nat (unat (tv_nsec t) div 1000)" by (simp only: of_int_of_nat_eq)
    then show ?thesis using k by (simp only: unsigned_of_nat of_nat_id) (simp add: take_bit_nat_eq_self)
  qed
  then have u: "unat ?u = unat (tv_sec t) * 1000000 + unat (tv_nsec t) div 1000"
    using assms(2) k by (simp add: unat_word_ariths)
  have "390 * sum_list (map chunk_ticks cs) \<le> sum_list (map unat cs)" if "\<forall>c \<in> set cs. unat c \<le> 1000000" for cs
    using that
  proof (induction cs)
    case (Cons c cs)
    have "unat (ucast c :: u64) = unat c"
      using u32_unat_bound [of c] unfolding unsigned_ucast_eq by (intro take_bit_nat_eq_self) simp
    then have "390 * chunk_ticks c \<le> unat c"
      using timeout_ticks_TimePeriod(1) [of "ucast c"] Cons.prems unfolding chunk_ticks_def by simp
    then show ?case using Cons by simp
  qed simp
  then have "390 * sum_list (map chunk_ticks (sleep_chunks ?u)) \<le> sum_list (map unat (sleep_chunks ?u))"
    using sleep_chunks_spec [of ?u] by blast
  moreover have "\<not> sint (tv_nsec t) \<ge> 1000000000"
  proof -
    have "int (unat (tv_nsec t)) < int 1000000000" using assms(1) by (simp only: of_nat_less_iff)
    then show ?thesis unfolding n by simp
  qed
  moreover have "sum_list (map unat (sleep_chunks ?u)) = unat (tv_sec t) * 1000000 + unat (tv_nsec t) div 1000"
    using sleep_chunks_spec [of ?u] u by simp
  ultimately show ?thesis by (simp add: nanosleep_def)
qed

text \<open>The timed wait ends with 0 exactly if a signal or broadcast is seen before the deadline, and once the clock has reached the
  deadline it ends.\<close>

theorem timedwait_poll_outcome:
  fixes sc bs :: u32
  defines "hit \<equiv> \<lambda>c. signal_count c \<noteq> sc \<or> broadcast_seq c \<noteq> bs"
  shows "(timedwait_poll d sc bs obs = Some 0 \<longleftrightarrow>
       (\<exists>before c now after. obs = before @ (c, now) # after \<and> hit c \<and> (\<forall>(c', now') \<in> set before. now' < d))) \<and>
    ((\<exists>(c, now) \<in> set obs. now \<ge> d) \<longrightarrow> timedwait_poll d sc bs obs \<noteq> None)"
proof (induction obs)
  case (Cons o1 obs)
  obtain c now where o1: "o1 = (c, now)" by (cases o1)
  consider "hit c" | "\<not> hit c" "now \<ge> d" | "\<not> hit c" "now < d" by (auto simp: not_le [symmetric])
  then show ?case
  proof cases
    case 1
    then have "\<exists>before c' now' after. o1 # obs = before @ (c', now') # after \<and> hit c' \<and> (\<forall>(c', now') \<in> set before. now' < d)"
      by (intro exI [of _ "[]"] exI [of _ c] exI [of _ now] exI [of _ obs]) (simp add: o1)
    moreover have "timedwait_poll d sc bs (o1 # obs) = Some 0" using 1 by (simp add: o1 hit_def)
    ultimately show ?thesis by simp
  next
    case 2
    then show ?thesis by (auto simp: o1 hit_def Cons_eq_append_conv)
  next
    case 3
    have "(\<exists>before c' now' after. o1 # obs = before @ (c', now') # after \<and> hit c' \<and> (\<forall>(c', now') \<in> set before. now' < d)) \<longleftrightarrow>
      (\<exists>before c' now' after. obs = before @ (c', now') # after \<and> hit c' \<and> (\<forall>(c', now') \<in> set before. now' < d))"
      (is "?l \<longleftrightarrow> ?r")
    proof
      assume ?l
      then obtain bf c' n' af where "o1 # obs = bf @ (c', n') # af" "hit c'" "\<forall>(c', now') \<in> set bf. now' < d" by blast
      then show ?r using 3 by (cases bf) (auto simp: o1)
    next
      assume ?r
      then obtain bf c' n' af where "obs = bf @ (c', n') # af" "hit c'" "\<forall>(c', now') \<in> set bf. now' < d" by blast
      then have "o1 # obs = (o1 # bf) @ (c', n') # af \<and> hit c' \<and> (\<forall>(c', now') \<in> set (o1 # bf). now' < d)" using 3 by (simp add: o1)
      then show ?l by blast
    qed
    moreover have "timedwait_poll d sc bs (o1 # obs) = timedwait_poll d sc bs obs" using 3 by (auto simp: o1 hit_def dest: leD)
    ultimately show ?thesis using Cons 3 by (auto simp: o1 not_le)
  qed
qed simp

theorem timedwait_poll_outcome_witness:
  "timedwait_poll 5 0 0 [(three_waiting, 3), (three_waiting\<lparr>signal_count := 1\<rparr>, 9)] = Some 0 \<and>
   timedwait_poll 5 0 0 [(three_waiting, 3), (three_waiting, 7)] \<noteq> None"
proof -
  have "(three_waiting, 7) \<in> set [(three_waiting, 3), (three_waiting, 7 :: u64)]" by simp
  then show ?thesis
    using timedwait_poll_outcome [of 5 0 0 "[(three_waiting, 3), (three_waiting, 7)]"] by (auto simp: three_waiting_def)
qed

text \<open>A timer that was created can be set, and then shows what it was set to; deleting it makes its identifier invalid and its slot free
  again. A call fails for lack of slots only when all four are in use.\<close>

theorem timer_lifecycle:
  assumes "length tbl = MAX_TIMERS" and "clock_known clk"
  shows "(timer_create clk True tbl = (EAGAIN, None, tbl) \<longleftrightarrow> (\<forall>i < MAX_TIMERS. tm_active (tbl ! i))) \<and>
    (\<forall>i < MAX_TIMERS. \<not> tm_active (tbl ! i) \<longrightarrow>
      (\<exists>idx tbl1 tbl2 tbl3. timer_create clk True tbl = (0, Some idx, tbl1) \<and> timer_bad idx tbl \<and>
        timer_settime idx (Some v) None tbl1 = (0, None, tbl2) \<and> timer_gettime idx (Some v0) tbl2 = (0, Some v) \<and>
        timer_delete idx tbl2 = (0, tbl3) \<and> timer_bad idx tbl3))"
proof (intro conjI allI impI)
  let ?f = "find (\<lambda>i. \<not> tm_active (tbl ! i)) [0..<MAX_TIMERS]"
  show "timer_create clk True tbl = (EAGAIN, None, tbl) \<longleftrightarrow> (\<forall>i < MAX_TIMERS. tm_active (tbl ! i))"
  proof (cases ?f)
    case None
    then have "\<forall>i < 4. tm_active (tbl ! i)" by (auto simp: find_None_iff)
    then show ?thesis using None assms(2) by (simp add: timer_create_def)
  next
    case (Some i)
    then have "\<not> tm_active (tbl ! i)" "i < 4" by (auto simp: find_Some_iff nth_append nth_Cons' split: if_splits)
    then show ?thesis using assms(2) Some by (auto simp: timer_create_def)
  qed
next
  let ?f = "find (\<lambda>i. \<not> tm_active (tbl ! i)) [0..<MAX_TIMERS]"
  fix i assume "i < MAX_TIMERS" "\<not> tm_active (tbl ! i)"
  then obtain j where j: "?f = Some j" by (cases ?f) (auto simp: find_None_iff)
  then have "\<not> tm_active (tbl ! j)" "j < 4" by (auto simp: find_Some_iff nth_append nth_Cons' split: if_splits)
  then show "\<exists>idx tbl1 tbl2 tbl3. timer_create clk True tbl = (0, Some idx, tbl1) \<and> timer_bad idx tbl \<and>
      timer_settime idx (Some v) None tbl1 = (0, None, tbl2) \<and> timer_gettime idx (Some v0) tbl2 = (0, Some v) \<and>
      timer_delete idx tbl2 = (0, tbl3) \<and> timer_bad idx tbl3"
    using assms j by (auto simp: timer_create_def timer_bad_def timer_settime_def timer_gettime_def timer_delete_def on_ptr_def)
qed

end
