(* ===== verification/Lib_Sort.thy ===== *)
theory Lib_Sort
  imports Prelude "HOL-Library.Multiset"
begin

text \<open>
  Sorting and searching in the kernel library, \<^verbatim>\<open>kernel/lib/sort.c\<close> and \<^verbatim>\<open>kernel/lib/bsearch.c\<close>, and their clients: the
  symbol table \<^verbatim>\<open>kernel/ksym.c\<close> and the profiler \<^verbatim>\<open>kernel/sampling.c\<close>. An array is a list of elements; the byte
  offsets of the C code are multiples of the element size, so positions are counted in elements. What a
  comparison function has to promise is the locale \<open>comparison\<close>; the sort and the search are proved correct
  inside it and used through its interpretations on the comparison functions of the clients.
\<close>

subsection \<open>Heap sort\<close>

definition vecswap :: "nat \<Rightarrow> nat \<Rightarrow> 'a list \<Rightarrow> 'a list" where
  "vecswap i j a = a[i := a ! j, j := a ! i]"

text \<open>The inner loop of both phases: the element at \<open>r\<close> sinks below its larger child.\<close>

definition larger_child :: "('a \<Rightarrow> 'a \<Rightarrow> int) \<Rightarrow> nat \<Rightarrow> nat \<Rightarrow> 'a list \<Rightarrow> nat" where
  "larger_child cmp_func n r a =
     (let c = r * 2 + 1 in if c < n - 1 \<and> cmp_func (a ! c) (a ! (c + 1)) < 0 then c + 1 else c)"

lemma larger_child_bounds: "r * 2 + 1 < n \<Longrightarrow> r < larger_child cmp n r a \<and> larger_child cmp n r a < n"
  by (auto simp: larger_child_def Let_def)

function sift :: "('a \<Rightarrow> 'a \<Rightarrow> int) \<Rightarrow> nat \<Rightarrow> nat \<Rightarrow> 'a list \<Rightarrow> 'a list" where
  "sift cmp_func n r a =
     (if r * 2 + 1 < n then
        let c = larger_child cmp_func n r a
        in if cmp_func (a ! r) (a ! c) \<ge> 0 then a else sift cmp_func n c (vecswap r c a)
      else a)"
  by auto
termination
proof (relation "measure (\<lambda>(cmp_func, n, r, a). n - r)", goal_cases)
  case (2 cmp_func n r a c)
  then show ?case using larger_child_bounds [of r n cmp_func a] by auto
qed simp

declare sift.simps [simp del]

definition heapify :: "('a \<Rightarrow> 'a \<Rightarrow> int) \<Rightarrow> nat \<Rightarrow> 'a list \<Rightarrow> 'a list" where
  "heapify cmp_func n a = fold (sift cmp_func n) (rev [0..<n div 2]) a"

definition sort_down :: "('a \<Rightarrow> 'a \<Rightarrow> int) \<Rightarrow> nat \<Rightarrow> 'a list \<Rightarrow> 'a list" where
  "sort_down cmp_func n a = fold (\<lambda>i a. sift cmp_func i 0 (vecswap 0 i a)) (rev [1..<n]) a"

definition ksort :: "('a \<Rightarrow> 'a \<Rightarrow> int) \<Rightarrow> nat \<Rightarrow> 'a list \<Rightarrow> 'a list" where
  "ksort cmp_func num base = sort_down cmp_func num (heapify cmp_func num base)"

subsection \<open>Binary search\<close>

text \<open>The result is the position of the element found.\<close>

function bsearch_loop :: "('k \<Rightarrow> nat \<Rightarrow> int) \<Rightarrow> 'k \<Rightarrow> nat \<Rightarrow> nat \<Rightarrow> nat option" where
  "bsearch_loop compar key base lim =
     (if lim = 0 then None
      else
        let p = base + lim div 2; cmp = compar key p
        in if cmp = 0 then Some p
           else if cmp > 0 then bsearch_loop compar key (p + 1) ((lim - 1) div 2)
           else bsearch_loop compar key base (lim div 2))"
  by auto
termination by (relation "measure (\<lambda>(compar, key, base, lim). lim)") auto

declare bsearch_loop.simps [simp del]

definition bsearch :: "('k \<Rightarrow> nat \<Rightarrow> int) \<Rightarrow> 'k \<Rightarrow> nat \<Rightarrow> nat \<Rightarrow> nat option" where
  "bsearch compar key base0 nmemb = bsearch_loop compar key base0 nmemb"

subsection \<open>The contract of a comparison\<close>

locale comparison =
  fixes cmp :: "'a \<Rightarrow> 'a \<Rightarrow> int" and dm :: "'a set"
  assumes flip: "x \<in> dm \<Longrightarrow> y \<in> dm \<Longrightarrow> cmp x y < 0 \<longleftrightarrow> 0 < cmp y x"
    and ge_trans: "x \<in> dm \<Longrightarrow> y \<in> dm \<Longrightarrow> z \<in> dm \<Longrightarrow> 0 \<le> cmp x y \<Longrightarrow> 0 \<le> cmp y z \<Longrightarrow> 0 \<le> cmp x z"
begin

lemma ge_total: "x \<in> dm \<Longrightarrow> y \<in> dm \<Longrightarrow> \<not> 0 \<le> cmp x y \<Longrightarrow> 0 \<le> cmp y x"
  using flip [of x y] by simp

lemma ge_refl: "x \<in> dm \<Longrightarrow> 0 \<le> cmp x x"
  using flip [of x x] by linarith

text \<open>Every parent from position \<open>k\<close> on, except \<open>h\<close>, is at least its children below \<open>n\<close>, and so is the parent of \<open>h\<close>
  compared with the children of \<open>h\<close>.\<close>

definition heap_but :: "nat \<Rightarrow> nat \<Rightarrow> nat \<Rightarrow> 'a list \<Rightarrow> bool" where
  "heap_but k n h a \<longleftrightarrow>
     (\<forall>c < n. 0 < c \<longrightarrow> k \<le> (c - 1) div 2 \<longrightarrow> (c - 1) div 2 \<noteq> h \<longrightarrow> 0 \<le> cmp (a ! ((c - 1) div 2)) (a ! c)) \<and>
     (\<forall>c < n. 0 < c \<longrightarrow> (c - 1) div 2 = h \<longrightarrow> 0 < h \<longrightarrow> k \<le> (h - 1) div 2 \<longrightarrow> 0 \<le> cmp (a ! ((h - 1) div 2)) (a ! c))"

definition heap_from :: "nat \<Rightarrow> nat \<Rightarrow> 'a list \<Rightarrow> bool" where
  "heap_from k n a \<longleftrightarrow> (\<forall>c < n. 0 < c \<longrightarrow> k \<le> (c - 1) div 2 \<longrightarrow> 0 \<le> cmp (a ! ((c - 1) div 2)) (a ! c))"

end

lemma vecswap_facts [simp]:
  "i < length a \<Longrightarrow> j < length a \<Longrightarrow> mset (vecswap i j a) = mset a"
  "length (vecswap i j a) = length a"
  by (simp_all add: vecswap_def mset_swap)

lemma vecswap_root [simp]: "m < length a \<Longrightarrow> mset (vecswap 0 m a) = mset a"
  by (rule vecswap_facts(1)) auto

lemma vecswap_nth:
  "i < length a \<Longrightarrow> j < length a \<Longrightarrow> vecswap i j a ! k = (if k = i then a ! j else if k = j then a ! i else a ! k)"
  by (auto simp: vecswap_def nth_list_update)

lemma vecswap_drop: "i < n \<Longrightarrow> j < n \<Longrightarrow> drop n (vecswap i j a) = drop n a"
  by (simp add: vecswap_def)

lemma sift_cases:
  obtains "sift cmp n r a = a" "r * 2 + 1 < n \<Longrightarrow> 0 \<le> cmp (a ! r) (a ! larger_child cmp n r a)"
  | c where "c = larger_child cmp n r a" "r * 2 + 1 < n" "\<not> 0 \<le> cmp (a ! r) (a ! c)" "sift cmp n r a = sift cmp n c (vecswap r c a)"
  by (cases "r * 2 + 1 < n \<and> \<not> 0 \<le> cmp (a ! r) (a ! larger_child cmp n r a)") (auto simp: sift.simps [of cmp n r] Let_def)

lemma sift_frame:
  assumes "n \<le> length a"
  shows "mset (sift cmp n r a) = mset a \<and> length (sift cmp n r a) = length a \<and> drop n (sift cmp n r a) = drop n a"
  using assms
proof (induction cmp n r a rule: sift.induct)
  case (1 cmp n r a)
  show ?case
  proof (rule sift_cases [of cmp n r a])
    fix c assume c: "c = larger_child cmp n r a" "r * 2 + 1 < n" "\<not> 0 \<le> cmp (a ! r) (a ! c)" "sift cmp n r a = sift cmp n c (vecswap r c a)"
    then have "c < n" "r < n" using larger_child_bounds [of r n cmp a] by auto
    then show ?thesis using 1(1) [OF c(2,1,3)] 1(2) by (simp add: c(4) vecswap_drop)
  qed simp
qed

context comparison
begin

lemma larger_child_max:
  assumes "set a \<subseteq> dm" "n \<le> length a" "r * 2 + 1 < n" "d < n" "0 < d" "(d - 1) div 2 = r"
  shows "0 \<le> cmp (a ! larger_child cmp n r a) (a ! d)"
proof -
  have m: "i < n \<Longrightarrow> a ! i \<in> dm" for i using assms(1,2) by (meson less_le_trans nth_mem subsetD)
  have "d = r * 2 + 1 \<or> d = r * 2 + 2" using assms(5,6) by auto
  then show ?thesis
  proof
    assume d: "d = r * 2 + 1"
    show ?thesis
    proof (cases "larger_child cmp n r a = d")
      case False
      then have "cmp (a ! d) (a ! (d + 1)) < 0" "larger_child cmp n r a = d + 1" "d + 1 < n"
        using d by (auto simp: larger_child_def Let_def split: if_splits)
      then show ?thesis using flip [OF m m, of d "d + 1"] assms(4) by simp
    qed (use ge_refl m assms(4) in simp)
  next
    assume d: "d = r * 2 + 2"
    show ?thesis
    proof (cases "larger_child cmp n r a = d")
      case False
      then have "\<not> cmp (a ! (r * 2 + 1)) (a ! d) < 0" "larger_child cmp n r a = r * 2 + 1"
        using d assms(4) by (auto simp: larger_child_def Let_def split: if_splits)
      then show ?thesis by simp
    qed (use ge_refl m assms(4) in simp)
  qed
qed

lemma larger_child_parent: "0 < larger_child cmp n r a" "(larger_child cmp n r a - 1) div 2 = r"
  by (auto simp: larger_child_def Let_def)

lemma heap_but_swap:
  assumes dm: "set a \<subseteq> dm" and n: "n \<le> length a" and H: "heap_but k n r a" and k: "k \<le> r"
    and c: "c = larger_child cmp n r a" "r * 2 + 1 < n" "\<not> 0 \<le> cmp (a ! r) (a ! c)"
  shows "heap_but k n c (vecswap r c a)"
proof -
  have m: "i < n \<Longrightarrow> a ! i \<in> dm" for i using dm n by (meson less_le_trans nth_mem subsetD)
  have b: "c < n" "r < c" "(c - 1) div 2 = r" "0 < c" using larger_child_bounds [OF c(2)] larger_child_parent c(1) by auto
  have v: "vecswap r c a ! i = (if i = r then a ! c else if i = c then a ! r else a ! i)" for i
    using b n by (intro vecswap_nth) auto
  have H1: "0 \<le> cmp (a ! ((d - 1) div 2)) (a ! d)" if "d < n" "0 < d" "k \<le> (d - 1) div 2" "(d - 1) div 2 \<noteq> r" for d
    using H that by (simp add: heap_but_def)
  have H2: "0 \<le> cmp (a ! ((r - 1) div 2)) (a ! c)" if "0 < r" "k \<le> (r - 1) div 2"
    using H that b by (simp add: heap_but_def)
  have up: "0 \<le> cmp (a ! c) (a ! r)" using ge_total [OF m m c(3)] b by simp
  have "0 \<le> cmp (vecswap r c a ! ((d - 1) div 2)) (vecswap r c a ! d)"
    if d: "d < n" "0 < d" "k \<le> (d - 1) div 2" "(d - 1) div 2 \<noteq> c" for d
  proof (cases "(d - 1) div 2 = r")
    case True
    then have "d \<noteq> r" using d(2) by auto
    then show ?thesis using up larger_child_max [OF dm n c(2) d(1,2) True, folded c(1)] unfolding v True by simp
  next
    case False
    then have "d \<noteq> c" using b by auto
    then show ?thesis using False d H1 [OF d(1-3) False] H2 by (auto simp: v)
  qed
  moreover have "0 \<le> cmp (vecswap r c a ! ((c - 1) div 2)) (vecswap r c a ! d)"
    if d: "d < n" "0 < d" "(d - 1) div 2 = c" for d
  proof -
    have "d \<noteq> r" "d \<noteq> c" using d b by auto
    then show ?thesis using H1 [of d] d b k by (simp add: v)
  qed
  ultimately show ?thesis unfolding heap_but_def by blast
qed

lemma sift_heap:
  assumes "set a \<subseteq> dm" "n \<le> length a" "heap_but k n r a" "k \<le> r"
  shows "heap_from k n (sift cmp n r a)"
  using assms
proof (induction "n - r" arbitrary: r a rule: less_induct)
  case less
  note dm = less.prems(1) and n = less.prems(2) and H = less.prems(3)
  show ?case
  proof (rule sift_cases [of cmp n r a])
    assume s: "sift cmp n r a = a" "r * 2 + 1 < n \<Longrightarrow> 0 \<le> cmp (a ! r) (a ! larger_child cmp n r a)"
    have m: "i < n \<Longrightarrow> a ! i \<in> dm" for i using dm n by (meson less_le_trans nth_mem subsetD)
    have "0 \<le> cmp (a ! ((d - 1) div 2)) (a ! d)" if d: "d < n" "0 < d" "k \<le> (d - 1) div 2" for d
    proof (cases "(d - 1) div 2 = r")
      case True
      then have r: "r * 2 + 1 < n" using d by auto
      have "0 \<le> cmp (a ! r) (a ! d)"
        using ge_trans [OF m m m s(2) [OF r] larger_child_max [OF dm n r d(1,2) True]] larger_child_bounds [OF r] d r by auto
      then show ?thesis unfolding True .
    qed (use H d in \<open>simp add: heap_but_def\<close>)
    then show ?thesis by (simp add: s(1) heap_from_def)
  next
    fix c assume c: "c = larger_child cmp n r a" "r * 2 + 1 < n" "\<not> 0 \<le> cmp (a ! r) (a ! c)" "sift cmp n r a = sift cmp n c (vecswap r c a)"
    have b: "c < n" "r < c" using larger_child_bounds [OF c(2)] c(1) by auto
    have "set (vecswap r c a) = set a" using b n by (intro mset_eq_setD) simp
    then show ?thesis unfolding c(4)
      using less.hyps [OF _ _ _ heap_but_swap [OF dm n H less.prems(4) c(1-3)]] b dm n less.prems(4) by simp
  qed
qed

lemma heapify_heap:
  assumes "set a \<subseteq> dm" "n \<le> length a" "heap_from m n a"
  shows "heap_from 0 n (fold (sift cmp n) (rev [0..<m]) a)"
  using assms
proof (induction m arbitrary: a)
  case (Suc m)
  have "heap_but m n m a" using Suc.prems(3) by (auto simp: heap_from_def heap_but_def)
  then have "heap_from m n (sift cmp n m a)" using sift_heap Suc.prems(1,2) by blast
  moreover have "set (sift cmp n m a) = set a" using sift_frame [OF Suc.prems(2), of cmp m] mset_eq_setD by blast
  ultimately show ?case using Suc.IH [of "sift cmp n m a"] Suc.prems sift_frame [OF Suc.prems(2), of cmp m] by simp
qed simp

lemma heap_root_max:
  assumes "set a \<subseteq> dm" "n \<le> length a" "heap_from 0 n a" "j < n"
  shows "0 \<le> cmp (a ! 0) (a ! j)"
  using assms(4)
proof (induction j rule: less_induct)
  case (less j)
  have m: "i < n \<Longrightarrow> a ! i \<in> dm" for i using assms(1,2) by (meson less_le_trans nth_mem subsetD)
  show ?case
  proof (cases "j = 0")
    case False
    then have p: "(j - 1) div 2 < j" by auto
    then have "0 \<le> cmp (a ! 0) (a ! ((j - 1) div 2))" using less by simp
    moreover have "0 \<le> cmp (a ! ((j - 1) div 2)) (a ! j)" using assms(3) less.prems False by (simp add: heap_from_def)
    ultimately show ?thesis using ge_trans m p less.prems by (meson less_trans le_less_trans zero_le)
  qed (use ge_refl m less.prems in simp)
qed

text \<open>The state of the second phase: a heap of \<open>m\<close> elements below a sorted rest of larger ones.\<close>

definition split_sorted :: "nat \<Rightarrow> 'a list \<Rightarrow> bool" where
  "split_sorted m a \<longleftrightarrow> heap_from 0 m a \<and> sorted_wrt (\<lambda>x y. 0 \<le> cmp y x) (drop m a) \<and>
     (\<forall>x \<in> set (take m a). \<forall>y \<in> set (drop m a). 0 \<le> cmp y x)"

lemma sort_step:
  assumes dm: "set a \<subseteq> dm" and m: "0 < m" "m < length a" and S: "split_sorted (Suc m) a"
  shows "split_sorted m (sift cmp m 0 (vecswap 0 m a))"
proof -
  let ?b = "vecswap 0 m a" and ?s = "sift cmp m 0 (vecswap 0 m a)"
  have n: "Suc m \<le> length a" "m \<le> length ?b" using m by auto
  have v: "?b ! i = (if i = 0 then a ! m else if i = m then a ! 0 else a ! i)" for i using m by (intro vecswap_nth) auto
  have sb: "set ?b \<subseteq> dm" using dm m mset_eq_setD [of ?b a] by simp
  have "heap_but 0 m 0 ?b"
    using S unfolding split_sorted_def heap_from_def heap_but_def by (auto simp: v)
  then have heap: "heap_from 0 m ?s" using sift_heap [OF sb n(2)] by simp
  have f: "mset ?s = mset a" "drop m ?s = drop m ?b" using sift_frame [OF n(2), of cmp 0] m by simp_all
  have "drop m ?b = ?b ! m # drop (Suc m) ?b" using m by (intro Cons_nth_drop_Suc [symmetric]) simp
  moreover have "drop (Suc m) ?b = drop (Suc m) a" using m by (intro vecswap_drop) auto
  ultimately have d: "drop m ?s = a ! 0 # drop (Suc m) a" using m f(2) by (simp add: v)
  have "mset (take m ?s) + mset (drop m ?s) = mset (take (Suc m) a) + mset (drop (Suc m) a)"
    unfolding mset_append [symmetric] append_take_drop_id by (rule f(1))
  then have "mset (take (Suc m) a) = add_mset (a ! 0) (mset (take m ?s))" using d by simp
  then have t: "set (take m ?s) \<subseteq> set (take (Suc m) a)" "a ! 0 \<in> set (take (Suc m) a)"
    by (metis set_mset_add_mset_insert set_mset_mset subset_insertI) (metis insertI1 \<open>mset (take (Suc m) a) = _\<close> set_mset_add_mset_insert set_mset_mset)
  have mx: "0 \<le> cmp (a ! 0) x" if "x \<in> set (take (Suc m) a)" for x
    using that heap_root_max [OF dm n(1)] S by (auto simp: split_sorted_def in_set_conv_nth)
  show ?thesis
    using S heap t mx unfolding split_sorted_def d by (auto simp: subset_iff)
qed

lemma sort_down_sorted:
  assumes "set a \<subseteq> dm" "n \<le> length a" "split_sorted n a" "0 < n"
  shows "split_sorted 1 (fold (\<lambda>i a. sift cmp i 0 (vecswap 0 i a)) (rev [1..<n]) a)"
  using assms
proof (induction n arbitrary: a)
  case (Suc n)
  show ?case
  proof (cases "n = 0")
    case False
    let ?a = "sift cmp n 0 (vecswap 0 n a)"
    have f: "mset ?a = mset a \<and> length ?a = length a"
      using sift_frame [of n "vecswap 0 n a" cmp 0] False Suc.prems(2) by simp
    have "split_sorted n ?a" using sort_step Suc.prems False by simp
    moreover have "set ?a = set a" using f mset_eq_setD by blast
    ultimately have "split_sorted 1 (fold (\<lambda>i a. sift cmp i 0 (vecswap 0 i a)) (rev [1..<n]) ?a)"
      using Suc.IH [of ?a] Suc.prems f False by simp
    then show ?thesis using False by simp
  qed (use Suc.prems in simp)
qed simp

lemma fold_frame:
  assumes "\<And>i a. i \<in> set is \<Longrightarrow> length a = n \<Longrightarrow> mset (f i a) = mset a" "length a = n"
  shows "mset (fold f is a) = mset a"
  using assms
proof (induction "is" arbitrary: a)
  case (Cons i "is")
  then have "mset (f i a) = mset a" by simp
  then show ?case using Cons mset_eq_length [of "f i a" a] by simp
qed simp

lemma ksort_correct:
  assumes "set a \<subseteq> dm"
  shows "mset (ksort cmp (length a) a) = mset a" "sorted_wrt (\<lambda>x y. 0 \<le> cmp y x) (ksort cmp (length a) a)"
proof -
  let ?n = "length a" and ?h = "heapify cmp (length a) a"
  have mh: "mset ?h = mset a" unfolding heapify_def by (intro fold_frame [of _ ?n]) (simp_all add: sift_frame)
  have ms: "mset (sort_down cmp ?n ?h) = mset ?h" unfolding sort_down_def
    using mset_eq_length [OF mh] by (intro fold_frame [of _ ?n]) (simp_all add: sift_frame)
  with mh show m: "mset (ksort cmp ?n a) = mset a" by (simp add: ksort_def)
  have sh: "set ?h \<subseteq> dm" "length ?h = ?n" using mset_eq_setD [OF mh] mset_eq_length [OF mh] assms by auto
  have "heap_from (?n div 2) ?n a" by (auto simp: heap_from_def)
  then have "heap_from 0 ?n ?h" using heapify_heap assms by (simp add: heapify_def)
  then have "split_sorted ?n ?h" using sh by (simp add: split_sorted_def)
  then have s: "split_sorted 1 (ksort cmp ?n a)" if "0 < ?n"
    using sort_down_sorted [OF sh(1)] sh(2) that by (simp add: ksort_def sort_down_def)
  show "sorted_wrt (\<lambda>x y. 0 \<le> cmp y x) (ksort cmp ?n a)"
  proof (cases "ksort cmp ?n a")
    case (Cons x xs)
    then have "0 < ?n" using mset_eq_length [OF m] by auto
    from s [OF this] show ?thesis unfolding Cons split_sorted_def by simp
  qed simp
qed

end

text \<open>Sorting the first elements of a longer array leaves the rest alone.\<close>

lemma vecswap_append: "i < length xs \<Longrightarrow> j < length xs \<Longrightarrow> vecswap i j (xs @ ys) = vecswap i j xs @ ys"
  by (simp add: vecswap_def list_update_append nth_append)

lemma vecswap_root_append: "m < length xs \<Longrightarrow> vecswap 0 m (xs @ ys) = vecswap 0 m xs @ ys"
  by (rule vecswap_append) auto

lemma larger_child_append: "n \<le> length xs \<Longrightarrow> r * 2 + 1 < n \<Longrightarrow> larger_child cmp n r (xs @ ys) = larger_child cmp n r xs"
  by (auto simp: larger_child_def Let_def nth_append)

lemma sift_append: "n \<le> length xs \<Longrightarrow> sift cmp n r (xs @ ys) = sift cmp n r xs @ ys"
proof (induction "n - r" arbitrary: r xs rule: less_induct)
  case less
  show ?case
  proof (cases "r * 2 + 1 < n")
    case True
    let ?c = "larger_child cmp n r xs"
    have b: "r < ?c" "?c < n" using larger_child_bounds [OF True] by auto
    then show ?thesis
      using less.hyps [of ?c "vecswap r ?c xs"] less.prems True
      by (simp add: sift.simps [of cmp n r] Let_def larger_child_append nth_append vecswap_append)
  qed (simp add: sift.simps [of cmp n r])
qed

lemma fold_append:
  assumes "\<And>i a. i \<in> set is \<Longrightarrow> length a = n \<Longrightarrow> f i (a @ ys) = f i a @ ys \<and> length (f i a) = n" "length a = n"
  shows "fold f is (a @ ys) = fold f is a @ ys \<and> length (fold f is a) = n"
  using assms by (induction "is" arbitrary: a) auto

lemma ksort_append: "ksort cmp (length xs) (xs @ ys) = ksort cmp (length xs) xs @ ys"
proof -
  let ?n = "length xs"
  have h: "heapify cmp ?n (xs @ ys) = heapify cmp ?n xs @ ys \<and> length (heapify cmp ?n xs) = ?n"
    unfolding heapify_def by (rule fold_append) (auto simp: sift_append sift_frame)
  have "sort_down cmp ?n (heapify cmp ?n xs @ ys) = sort_down cmp ?n (heapify cmp ?n xs) @ ys \<and>
      length (sort_down cmp ?n (heapify cmp ?n xs)) = ?n"
    unfolding sort_down_def using h by (intro fold_append) (auto simp: sift_append sift_frame vecswap_root_append)
  then show ?thesis using h by (simp add: ksort_def)
qed

subsection \<open>The search finds\<close>

lemma bsearch_finds:
  assumes "base \<le> j" "j < base + lim" "f key j = 0"
    and "\<And>p. base \<le> p \<Longrightarrow> p < j \<Longrightarrow> 0 < f key p" "\<And>p. j < p \<Longrightarrow> p < base + lim \<Longrightarrow> f key p \<le> 0"
  shows "\<exists>p. bsearch_loop f key base lim = Some p \<and> j \<le> p \<and> p < base + lim \<and> f key p = 0 \<and> (p \<le> j + 1 \<or> p + 1 < base + lim)"
  using assms
proof (induction f key base lim rule: bsearch_loop.induct)
  case (1 f key base lim)
  let ?p = "base + lim div 2"
  have lim: "lim \<noteq> 0" using 1(4,3) by auto
  show ?case
  proof (cases "f key ?p = 0")
    case True
    then have "j \<le> ?p" using 1(6) [of ?p] by (cases "?p < j") auto
    moreover have "?p \<le> j + 1 \<or> ?p + 1 < base + lim" using 1(3) by (cases "lim \<le> 2") auto
    ultimately show ?thesis using True lim by (simp add: bsearch_loop.simps [of f key base] Let_def)
  next
    case False
    show ?thesis
    proof (cases "0 < f key ?p")
      case True
      have pj: "?p < j" using 1(5) 1(7) [of ?p] False True lim by (cases "j < ?p"; cases "?p = j") auto
      have r: "bsearch_loop f key base lim = bsearch_loop f key (?p + 1) ((lim - 1) div 2)"
        using True lim by (simp add: bsearch_loop.simps [of f key base] Let_def)
      have e: "?p + 1 + (lim - 1) div 2 = base + lim" using lim by presburger
      obtain p where p: "bsearch_loop f key (?p + 1) ((lim - 1) div 2) = Some p" "j \<le> p" "p < ?p + 1 + (lim - 1) div 2"
          "f key p = 0" "p \<le> j + 1 \<or> p + 1 < ?p + 1 + (lim - 1) div 2"
        using 1(1) [OF lim refl refl False True _ _ 1(5), unfolded e] pj 1(4,6,7) unfolding e by auto
      then show ?thesis unfolding r e by auto
    next
      case neg: False
      then have jp: "j < ?p" using 1(5) 1(6) [of ?p] False by (cases "?p < j"; cases "?p = j") auto
      have r: "bsearch_loop f key base lim = bsearch_loop f key base (lim div 2)"
        using False neg lim by (simp add: bsearch_loop.simps [of f key base lim] Let_def)
      obtain p where p: "bsearch_loop f key base (lim div 2) = Some p" "j \<le> p" "p < base + lim div 2"
          "f key p = 0" "p \<le> j + 1 \<or> p + 1 < base + lim div 2"
        using 1(2) [OF lim refl refl False neg 1(3) jp 1(5)] 1(6,7) by auto
      then show ?thesis unfolding r by auto
    qed
  qed
qed

lemma bsearch_sound:
  "bsearch_loop f key base lim = Some p \<Longrightarrow> base \<le> p \<and> p < base + lim \<and> f key p = 0"
proof (induction f key base lim rule: bsearch_loop.induct)
  case (1 f key base lim)
  have lim: "lim \<noteq> 0" using 1(3) by (rule contrapos_pn) (simp add: bsearch_loop.simps [of f key base 0])
  show ?case
  proof (cases "f key (base + lim div 2) = 0")
    case True
    then show ?thesis using 1(3) lim by (auto simp: bsearch_loop.simps [of f key base] Let_def)
  next
    case nz: False
    show ?thesis
    proof (cases "0 < f key (base + lim div 2)")
      case True
      then show ?thesis using 1(1) [OF lim refl refl nz True] 1(3) lim by (auto simp: bsearch_loop.simps [of f key base] Let_def)
    next
      case False
      then show ?thesis using 1(2) [OF lim refl refl nz False] 1(3) lim nz
        by (auto simp: bsearch_loop.simps [of f key base lim] Let_def)
    qed
  qed
qed

end
