(* ===== verification/Ksym.thy ===== *)
theory Ksym
  imports Lib_Sort
begin

text \<open>
  The symbol table \<^verbatim>\<open>kernel/ksym.c\<close> and the sampling profiler \<^verbatim>\<open>kernel/sampling.c\<close>. The tables of the profiler are lists
  of the length of the C arrays (\<open>MAX_SAMPLING_COUNT\<close> samples and \<open>MAX_KSYM\<close> symbols); an access behind their end is
  a fault. The static variable \<open>prev_index\<close> of \<open>ksym_lookup\<close> is part of the state.
\<close>

subsection \<open>Symbols\<close>

record ksym_t =
  ksym_addr :: u32
  ksym_strid :: u32

record ksym_state =
  ksym_tbl :: "ksym_t list"
  prev_index :: nat

abbreviation (input) KSYM_MAGIC :: u32 where "KSYM_MAGIC \<equiv> 0xA2CB"

text \<open>The words at \<open>symtab_start\<close>: a magic number, the number of entries, then the entries.\<close>

definition ksym_init :: "u32 list \<Rightarrow> ksym_t list" where
  "ksym_init ws =
     (if ws ! 0 = KSYM_MAGIC
      then map (\<lambda>i. \<lparr>ksym_addr = ws ! (2 + 2 * i), ksym_strid = ws ! (3 + 2 * i)\<rparr>) [0..<unat (ws ! 1)]
      else [\<lparr>ksym_addr = 0, ksym_strid = 0\<rparr>])"

definition ksym_total :: "'z ksym_state_scheme \<Rightarrow> nat" where "ksym_total s = length (ksym_tbl s)"

definition cmp_key :: "ksym_t list \<Rightarrow> u32 \<Rightarrow> nat \<Rightarrow> int" where
  "cmp_key tbl addr i =
     (if i = length tbl - 1 then 0
      else if addr \<ge> ksym_addr (tbl ! i) \<and> addr < ksym_addr (tbl ! (i + 1)) then 0
      else sint (addr - ksym_addr (tbl ! i)))"

definition ksym_lookup :: "u32 \<Rightarrow> 'z ksym_state_scheme \<Rightarrow> int \<times> 'z ksym_state_scheme" where
  "ksym_lookup addr s =
     (let found = (if ksym_addr (ksym_tbl s ! prev_index s) < addr
                   then bsearch (cmp_key (ksym_tbl s)) addr (prev_index s) (length (ksym_tbl s) - prev_index s)
                   else bsearch (cmp_key (ksym_tbl s)) addr 0 (length (ksym_tbl s)))
      in case found of None \<Rightarrow> (-1, s) | Some p \<Rightarrow> (int p, s\<lparr>prev_index := p\<rparr>))"

definition ksym_id2addr :: "'z ksym_state_scheme \<Rightarrow> nat \<Rightarrow> u32" where "ksym_id2addr s symid = ksym_addr (ksym_tbl s ! symid)"

subsection \<open>Samples\<close>

record sampling_state = ksym_state +
  sampled_pc :: "u32 list"
  sampled_count :: nat
  sampling_enabled :: bool
  ksym_hitcount :: "int list"
  ksymid_sortedlist :: "nat list"

definition sampling_enable :: "sampling_state \<Rightarrow> sampling_state" where "sampling_enable s = s\<lparr>sampling_enabled := True\<rparr>"
definition sampling_disable :: "sampling_state \<Rightarrow> sampling_state" where "sampling_disable s = s\<lparr>sampling_enabled := False\<rparr>"

definition sampling_init :: "sampling_state \<Rightarrow> sampling_state" where
  "sampling_init s =
     (if ksym_total s > length (ksym_hitcount s) then s
      else s\<lparr>sampled_pc := map (\<lambda>_. 0) (sampled_pc s), sampled_count := 0\<rparr>)"

definition sampled_pcpush :: "u32 \<Rightarrow> sampling_state \<Rightarrow> sampling_state" where
  "sampled_pcpush pc s =
     (if \<not> sampling_enabled s then s
      else
        let s = (if sampled_count s = length (sampled_pc s) then s\<lparr>sampled_count := 0\<rparr> else s)
        in s\<lparr>sampled_pc := (sampled_pc s)[sampled_count s := pc], sampled_count := sampled_count s + 1\<rparr>)"

definition cmp_addr :: "u32 \<Rightarrow> u32 \<Rightarrow> int" where "cmp_addr p1 p2 = sint (p1 - p2)"
definition cmp_symhit :: "int list \<Rightarrow> nat \<Rightarrow> nat \<Rightarrow> int" where "cmp_symhit hits symid1 symid2 = hits ! symid2 - hits ! symid1"

definition count_hit :: "u32 \<Rightarrow> sampling_state \<Rightarrow> sampling_state result" where
  "count_hit pc s = (case ksym_lookup pc s of (symid, s) \<Rightarrow>
     if symid < 0 then Ok s
     else if nat symid < length (ksym_hitcount s)
     then Ok (s\<lparr>ksym_hitcount := (ksym_hitcount s)[nat symid := ksym_hitcount s ! nat symid + 1]\<rparr>)
     else Fault (Out_of_bounds ''ksym_hitcount''))"

definition sampling_stats :: "sampling_state \<Rightarrow> sampling_state result" where
  "sampling_stats s =
     (let s = s\<lparr>sampled_pc := ksort cmp_addr (length (sampled_pc s)) (sampled_pc s)\<rparr>;
          s = s\<lparr>ksym_hitcount := map (\<lambda>_. 0) (ksym_hitcount s), ksymid_sortedlist := [0..<length (ksym_hitcount s)]\<rparr>
      in rbind (rfold count_hit (sampled_pc s) s) (\<lambda>s.
         if ksym_total s \<le> length (ksymid_sortedlist s)
         then Ok (s\<lparr>ksymid_sortedlist := ksort (cmp_symhit (ksym_hitcount s)) (ksym_total s) (ksymid_sortedlist s)\<rparr>)
         else Fault (Out_of_bounds ''ksymid_sortedlist'')))"

subsection \<open>The comparison functions meet their contract\<close>

lemma sint_diff_low:
  fixes x y :: u32
  assumes "uint x < 2 ^ 31" "uint y < 2 ^ 31"
  shows "sint (x - y) = uint x - uint y"
proof -
  let ?d = "uint x - uint y"
  have "x - y = word_of_int ?d" by simp
  moreover have "sint (word_of_int ?d :: u32) = signed_take_bit 31 ?d" unfolding sint_sbintrunc' by simp
  ultimately have "sint (x - y) = signed_take_bit 31 ?d" by simp
  also have "\<dots> = uint x - uint y" using assms uint_ge_0 [of x] uint_ge_0 [of y] by (intro signed_take_bit_int_eq_self) linarith+
  finally show ?thesis .
qed

interpretation addr: comparison cmp_addr "{x. uint x < 2 ^ 31}"
  by unfold_locales (auto simp: cmp_addr_def sint_diff_low)

interpretation symhit: comparison "cmp_symhit hits" UNIV for hits
  by unfold_locales (auto simp: cmp_symhit_def)

lemma sort_addresses:
  assumes "\<forall>x \<in> set a. uint x < 2 ^ 31"
  shows "mset (ksort cmp_addr (length a) a) = mset a \<and> sorted (ksort cmp_addr (length a) a)"
proof -
  have dm: "set a \<subseteq> {x. uint x < 2 ^ 31}" using assms by auto
  note c = addr.ksort_correct [OF dm]
  have "sorted (ksort cmp_addr (length a) a)"
  proof (rule sorted_wrt_mono_rel [OF _ c(2)])
    fix x y assume "x \<in> set (ksort cmp_addr (length a) a)" "y \<in> set (ksort cmp_addr (length a) a)" "0 \<le> cmp_addr y x"
    then show "x \<le> y" using dm unfolding mset_eq_setD [OF c(1)] by (auto simp: cmp_addr_def sint_diff_low subset_iff word_le_def)
  qed
  with c(1) show ?thesis by simp
qed

text \<open>C36. Heap sort, with the comparison of the profiler: the result is in ascending order and has the same elements.\<close>

theorem sort_addresses_correct:
  assumes "\<forall>x \<in> set a. uint x < 2 ^ 31"
  shows "mset (ksort cmp_addr (length a) a) = mset a \<and> sorted (ksort cmp_addr (length a) a)"
  using assms by (rule sort_addresses)

theorem sort_addresses_correct_witness:
  "mset (ksort cmp_addr 4 [9, 3, 7, 3]) = {#9, 3, 7, 3#} \<and> sorted (ksort cmp_addr 4 [9, 3, 7, 3])"
proof -
  have "length [9, 3, 7, 3 :: u32] = 4" by simp
  then show ?thesis using sort_addresses_correct [of "[9, 3, 7, 3]"] by (auto simp only: list.set) simp_all
qed

subsection \<open>Looking up an address\<close>

text \<open>Entry \<open>j\<close> is the symbol of an address: the last one that does not start behind it.\<close>

definition symbol_of :: "ksym_t list \<Rightarrow> u32 \<Rightarrow> nat \<Rightarrow> bool" where
  "symbol_of tbl addr j \<longleftrightarrow> j < length tbl \<and> ksym_addr (tbl ! j) \<le> addr \<and>
     (j + 1 < length tbl \<longrightarrow> addr < ksym_addr (tbl ! (j + 1)))"

definition tbl_ok :: "ksym_t list \<Rightarrow> bool" where
  "tbl_ok tbl \<longleftrightarrow> sorted_wrt (<) (map ksym_addr tbl) \<and> (\<forall>k \<in> set tbl. uint (ksym_addr k) < 2 ^ 31)"

lemma tbl_less: "tbl_ok tbl \<Longrightarrow> i < k \<Longrightarrow> k < length tbl \<Longrightarrow> ksym_addr (tbl ! i) < ksym_addr (tbl ! k)"
  by (auto simp: tbl_ok_def sorted_wrt_iff_nth_less)

lemma cmp_key_signs:
  assumes ok: "tbl_ok tbl" and a: "uint addr < 2 ^ 31" and j: "symbol_of tbl addr j"
  shows "cmp_key tbl addr j = 0" "p < j \<Longrightarrow> 0 < cmp_key tbl addr p"
    "j < p \<Longrightarrow> p < length tbl \<Longrightarrow> cmp_key tbl addr p \<le> 0 \<and> (cmp_key tbl addr p = 0 \<longrightarrow> p = length tbl - 1)"
proof -
  have lo: "uint (ksym_addr (tbl ! i)) < 2 ^ 31" if "i < length tbl" for i using ok that by (auto simp: tbl_ok_def)
  show "cmp_key tbl addr j = 0" using j by (auto simp: cmp_key_def symbol_of_def)
  show "0 < cmp_key tbl addr p" if "p < j"
  proof -
    have l: "p < length tbl" "p \<noteq> length tbl - 1" "p + 1 < length tbl" using j that by (auto simp: symbol_of_def)
    have "ksym_addr (tbl ! (p + 1)) \<le> addr"
      using tbl_less [OF ok, of "p + 1" j] j that by (cases "p + 1 = j") (auto simp: symbol_of_def)
    moreover have "ksym_addr (tbl ! p) < ksym_addr (tbl ! (p + 1))" using tbl_less [OF ok _ l(3)] by simp
    ultimately show ?thesis using l sint_diff_low [OF a lo [OF l(1)]]
      by (simp add: cmp_key_def word_less_def word_le_def)
  qed
  show "cmp_key tbl addr p \<le> 0 \<and> (cmp_key tbl addr p = 0 \<longrightarrow> p = length tbl - 1)" if "j < p" "p < length tbl"
  proof (cases "p = length tbl - 1")
    case False
    have "addr < ksym_addr (tbl ! (j + 1))" using j that by (simp add: symbol_of_def)
    moreover have "ksym_addr (tbl ! (j + 1)) \<le> ksym_addr (tbl ! p)"
      using tbl_less [OF ok, of "j + 1" p] that by (cases "j + 1 = p") auto
    ultimately have "addr < ksym_addr (tbl ! p)" by simp
    then show ?thesis using False sint_diff_low [OF a lo [OF that(2)]]
      by (simp add: cmp_key_def word_less_def word_le_def)
  qed (simp add: cmp_key_def)
qed

lemma lookup_range:
  assumes ok: "tbl_ok tbl" and a: "uint addr < 2 ^ 31" and j: "symbol_of tbl addr j" and b: "b \<le> j"
  shows "\<exists>i. bsearch (cmp_key tbl) addr b (length tbl - b) = Some i \<and> (i = j \<or> i = j + 1 \<and> i = length tbl - 1)"
proof -
  note c = cmp_key_signs [OF ok a j]
  have e: "b + (length tbl - b) = length tbl" and jl: "j < b + (length tbl - b)" using j b by (auto simp: symbol_of_def)
  have le: "\<And>p. j < p \<Longrightarrow> p < b + (length tbl - b) \<Longrightarrow> cmp_key tbl addr p \<le> 0" using c(3) e by simp
  obtain p where p: "bsearch_loop (cmp_key tbl) addr b (length tbl - b) = Some p" "j \<le> p" "p < b + (length tbl - b)"
      "cmp_key tbl addr p = 0" "p \<le> j + 1 \<or> p + 1 < b + (length tbl - b)"
    using bsearch_finds [where f = "cmp_key tbl" and key = addr, OF b jl c(1,2) le] by auto
  then have "p = j \<or> p = j + 1 \<and> p = length tbl - 1" using c(3) [of p] e by (cases "p = j") auto
  then show ?thesis using p(1) by (simp add: bsearch_def)
qed

lemma lookup_finds:
  fixes s :: "'z ksym_state_scheme"
  assumes "tbl_ok (ksym_tbl s)" "uint addr < 2 ^ 31" "symbol_of (ksym_tbl s) addr j" "prev_index s < length (ksym_tbl s)"
  shows "\<exists>i. ksym_lookup addr s = (int i, s\<lparr>prev_index := i\<rparr>) \<and> (i = j \<or> i = j + 1 \<and> i = length (ksym_tbl s) - 1)"
proof (cases "ksym_addr (ksym_tbl s ! prev_index s) < addr")
  case True
  have "prev_index s \<le> j"
  proof (rule ccontr)
    assume "\<not> prev_index s \<le> j"
    then have "addr < ksym_addr (ksym_tbl s ! (j + 1))" "ksym_addr (ksym_tbl s ! (j + 1)) \<le> ksym_addr (ksym_tbl s ! prev_index s)"
      using assms tbl_less [OF assms(1), of "j + 1" "prev_index s"] by (auto simp: symbol_of_def) (cases "j + 1 = prev_index s"; simp)
    then show False using True by simp
  qed
  then obtain i where "bsearch (cmp_key (ksym_tbl s)) addr (prev_index s) (length (ksym_tbl s) - prev_index s) = Some i"
      "i = j \<or> i = j + 1 \<and> i = length (ksym_tbl s) - 1"
    using lookup_range [OF assms(1-3)] by blast
  then show ?thesis using True by (simp add: ksym_lookup_def)
next
  case False
  moreover obtain i where "bsearch (cmp_key (ksym_tbl s)) addr 0 (length (ksym_tbl s)) = Some i"
      "i = j \<or> i = j + 1 \<and> i = length (ksym_tbl s) - 1"
    using lookup_range [OF assms(1-3), of 0] by auto
  ultimately show ?thesis by (simp add: ksym_lookup_def)
qed

text \<open>The lookup returns the symbol of the address, wherever the search of the previous call ended, with one
  exception: for the second last symbol it may return the last one, because the comparison takes the
  last entry for a match whatever the address is.\<close>

theorem ksym_lookup_finds_symbol:
  fixes s :: "'z ksym_state_scheme"
  assumes "tbl_ok (ksym_tbl s)" "uint addr < 2 ^ 31" "symbol_of (ksym_tbl s) addr j" "prev_index s < length (ksym_tbl s)"
  shows "\<exists>i. ksym_lookup addr s = (int i, s\<lparr>prev_index := i\<rparr>) \<and> (i = j \<or> i = j + 1 \<and> i = length (ksym_tbl s) - 1)"
  using assms by (rule lookup_finds)

definition ksym_example :: ksym_state where
  "ksym_example = \<lparr>ksym_tbl = [\<lparr>ksym_addr = 0x100, ksym_strid = 0\<rparr>, \<lparr>ksym_addr = 0x200, ksym_strid = 5\<rparr>, \<lparr>ksym_addr = 0x300, ksym_strid = 9\<rparr>],
     prev_index = 1\<rparr>"

theorem ksym_lookup_finds_symbol_witness:
  "tbl_ok (ksym_tbl ksym_example) \<and> symbol_of (ksym_tbl ksym_example) 0x180 0 \<and>
   (\<exists>i. ksym_lookup 0x180 ksym_example = (int i, ksym_example\<lparr>prev_index := i\<rparr>) \<and> i = 0)"
proof -
  have t: "tbl_ok (ksym_tbl ksym_example)" "symbol_of (ksym_tbl ksym_example) 0x180 0"
    by (auto simp: tbl_ok_def symbol_of_def ksym_example_def)
  then show ?thesis using ksym_lookup_finds_symbol [OF t(1) _ t(2)] by (auto simp: ksym_example_def)
qed

text \<open>The exception is real: with two symbols every address belongs to the second.\<close>

lemma ksym_lookup_two_symbols:
  assumes "length (ksym_tbl s) = 2" "prev_index s = 0"
  shows "fst (ksym_lookup addr s) = 1"
  using assms by (simp add: ksym_lookup_def bsearch_def bsearch_loop.simps [of _ _ 0 2] cmp_key_def)

subsection \<open>The profile\<close>

lemma symbol_exists:
  assumes "tbl \<noteq> []" "ksym_addr (tbl ! 0) \<le> addr"
  shows "\<exists>j. symbol_of tbl addr j"
proof -
  let ?S = "{i. i < length tbl \<and> ksym_addr (tbl ! i) \<le> addr}"
  have S: "finite ?S" "0 \<in> ?S" using assms by auto
  have m: "Max ?S \<in> ?S" using Max_in [OF S(1)] S(2) by blast
  have "addr < ksym_addr (tbl ! (Max ?S + 1))" if "Max ?S + 1 < length tbl"
  proof (rule ccontr)
    assume "\<not> addr < ksym_addr (tbl ! (Max ?S + 1))"
    then have "Max ?S + 1 \<in> ?S" using that by simp
    then show False using Max_ge [OF S(1)] by fastforce
  qed
  then show ?thesis using m by (auto simp: symbol_of_def)
qed

lemma lookup_bounds:
  fixes s :: "'z ksym_state_scheme"
  assumes "prev_index s < length (ksym_tbl s)" "ksym_lookup addr s = (i, s')"
  shows "i < int (length (ksym_tbl s)) \<and> s' = s\<lparr>prev_index := prev_index s'\<rparr> \<and> prev_index s' < length (ksym_tbl s)"
  using assms by (auto simp: ksym_lookup_def bsearch_def Let_def split: if_splits option.splits dest!: bsearch_sound)

text \<open>Counting keeps the tables in range; when every sample lies behind the first symbol, it counts each of them.\<close>

definition counting :: "sampling_state \<Rightarrow> sampling_state \<Rightarrow> bool" where
  "counting s s' \<longleftrightarrow> ksym_tbl s' = ksym_tbl s \<and> prev_index s' < length (ksym_tbl s) \<and> length (ksym_hitcount s') = length (ksym_hitcount s) \<and>
     sampled_pc s' = sampled_pc s \<and> ksymid_sortedlist s' = ksymid_sortedlist s"

definition covered :: "sampling_state \<Rightarrow> u32 \<Rightarrow> bool" where
  "covered s pc \<longleftrightarrow> uint pc < 2 ^ 31 \<and> ksym_addr (ksym_tbl s ! 0) \<le> pc"

lemma sum_list_bump: "k < length xs \<Longrightarrow> sum_list (xs[k := xs ! k + 1]) = sum_list xs + (1 :: int)"
  by (induction xs arbitrary: k) (auto split: nat.split)

lemma count_hit_total:
  assumes p: "prev_index s < length (ksym_tbl s)" and l: "length (ksym_tbl s) \<le> length (ksym_hitcount s)"
  shows "\<exists>s'. count_hit pc s = Ok s' \<and> counting s s' \<and>
    (tbl_ok (ksym_tbl s) \<longrightarrow> covered s pc \<longrightarrow> sum_list (ksym_hitcount s') = sum_list (ksym_hitcount s) + 1)"
proof -
  obtain i s1 where k: "ksym_lookup pc s = (i, s1)" by fastforce
  note b = lookup_bounds [OF p k]
  have f: "tbl_ok (ksym_tbl s) \<Longrightarrow> covered s pc \<Longrightarrow> \<not> i < 0"
  proof -
    assume t: "tbl_ok (ksym_tbl s)" and c: "covered s pc"
    have ne: "ksym_tbl s \<noteq> []" using p by auto
    obtain j where "symbol_of (ksym_tbl s) pc j" using symbol_exists [OF ne] c by (auto simp: covered_def)
    then obtain i' where "ksym_lookup pc s = (int i', s\<lparr>prev_index := i'\<rparr>)"
      using lookup_finds [OF t _ _ p] c by (auto simp: covered_def)
    then show "\<not> i < 0" using k by simp
  qed
  obtain k' where e: "s1 = s\<lparr>prev_index := k'\<rparr>" using b by blast
  have s1: "ksym_tbl s1 = ksym_tbl s" "ksym_hitcount s1 = ksym_hitcount s" "sampled_pc s1 = sampled_pc s"
      "ksymid_sortedlist s1 = ksymid_sortedlist s" "prev_index s1 < length (ksym_tbl s)"
    using e b by simp_all
  show ?thesis
  proof (cases "i < 0")
    case True
    then have "count_hit pc s = Ok s1" by (simp add: count_hit_def k)
    then show ?thesis using s1 f True by (auto simp: counting_def)
  next
    case False
    then have n: "nat i < length (ksym_hitcount s)" using b l by linarith
    then have "count_hit pc s = Ok (s1\<lparr>ksym_hitcount := (ksym_hitcount s)[nat i := ksym_hitcount s ! nat i + 1]\<rparr>)"
      using False s1 by (simp add: count_hit_def k)
    then show ?thesis using s1 n by (auto simp: counting_def sum_list_bump)
  qed
qed

lemma rfold_count:
  assumes "prev_index s < length (ksym_tbl s)" "length (ksym_tbl s) \<le> length (ksym_hitcount s)"
  shows "\<exists>s'. rfold count_hit pcs s = Ok s' \<and> counting s s' \<and>
    (tbl_ok (ksym_tbl s) \<longrightarrow> list_all (covered s) pcs \<longrightarrow> sum_list (ksym_hitcount s') = sum_list (ksym_hitcount s) + int (length pcs))"
  using assms
proof (induction pcs arbitrary: s)
  case (Cons pc pcs)
  obtain s1 where s1: "count_hit pc s = Ok s1" "counting s s1"
      "tbl_ok (ksym_tbl s) \<Longrightarrow> covered s pc \<Longrightarrow> sum_list (ksym_hitcount s1) = sum_list (ksym_hitcount s) + 1"
    using count_hit_total [OF Cons.prems] by blast
  obtain s2 where s2: "rfold count_hit pcs s1 = Ok s2" "counting s1 s2"
      "tbl_ok (ksym_tbl s1) \<Longrightarrow> list_all (covered s1) pcs \<Longrightarrow> sum_list (ksym_hitcount s2) = sum_list (ksym_hitcount s1) + int (length pcs)"
    using Cons.IH [of s1] s1(2) Cons.prems(2) by (auto simp: counting_def)
  have c: "covered s1 = covered s" using s1(2) by (auto simp: counting_def covered_def fun_eq_iff)
  show ?case using s1 s2 unfolding c by (auto simp: counting_def)
qed (simp add: counting_def)


definition sampling_example :: sampling_state where
  "sampling_example = \<lparr>ksym_tbl = ksym_tbl ksym_example, prev_index = 0, sampled_pc = [0x250, 0x110, 0x120], sampled_count = 0,
     sampling_enabled = True, ksym_hitcount = [7, 7, 7, 7], ksymid_sortedlist = []\<rparr>"


end
