(* ===== verification/Elf_Loader.thy ===== *)
theory Elf_Loader
  imports Lib_Mem
begin

text \<open>
  The loader that puts the kernel image into memory: the access functions of \<^verbatim>\<open>loader/elf/elf32.c\<close> and the generic layer of
  \<^verbatim>\<open>loader/elf/elf.c\<close>. The file lies in memory at the address \<open>file\<close>; every access reads the memory of that moment, so that a
  segment copied over the headers would change what is read next. Section names are left out.
\<close>

subsection \<open>Headers\<close>

definition load16 :: "memory \<Rightarrow> nat \<Rightarrow> u16" where
  "load16 m a = ucast (m a) OR push_bit 8 (ucast (m (a + 1)))"

definition e_entry :: "u32 \<Rightarrow> memory \<Rightarrow> u32" where "e_entry file m = load32 m (unat file + 24)"
definition e_phoff :: "u32 \<Rightarrow> memory \<Rightarrow> u32" where "e_phoff file m = load32 m (unat file + 28)"
definition e_shoff :: "u32 \<Rightarrow> memory \<Rightarrow> u32" where "e_shoff file m = load32 m (unat file + 32)"
definition e_phnum :: "u32 \<Rightarrow> memory \<Rightarrow> u16" where "e_phnum file m = load16 m (unat file + 44)"
definition e_shnum :: "u32 \<Rightarrow> memory \<Rightarrow> u16" where "e_shnum file m = load16 m (unat file + 48)"
definition e_shstrndx :: "u32 \<Rightarrow> memory \<Rightarrow> u16" where "e_shstrndx file m = load16 m (unat file + 50)"

definition elf32_checkFile :: "u32 \<Rightarrow> memory \<Rightarrow> int" where
  "elf32_checkFile file m =
     (if m (unat file) \<noteq> 0x7F \<or> m (unat file + 1) \<noteq> 0x45 \<or> m (unat file + 2) \<noteq> 0x4C \<or> m (unat file + 3) \<noteq> 0x46 then -1
      else if m (unat file + 4) \<noteq> 1 then -2
      else 0)"

definition elf32_getNumProgramHeaders :: "u32 \<Rightarrow> memory \<Rightarrow> u16" where
  "elf32_getNumProgramHeaders file m = e_phnum file m"
definition elf32_getNumSections :: "u32 \<Rightarrow> memory \<Rightarrow> u32" where
  "elf32_getNumSections file m = ucast (e_shnum file m)"
definition elf32_getEntryPoint :: "u32 \<Rightarrow> memory \<Rightarrow> u32" where
  "elf32_getEntryPoint file m = e_entry file m"

text \<open>Word \<open>k\<close> of a program header (32 bytes) and of a section header (40 bytes).\<close>

definition elf32_getProgramHeaderTable :: "u32 \<Rightarrow> memory \<Rightarrow> u32" where
  "elf32_getProgramHeaderTable file m = file + e_phoff file m"
definition phdr_word :: "nat \<Rightarrow> u32 \<Rightarrow> nat \<Rightarrow> memory \<Rightarrow> u32" where
  "phdr_word k file ph m = load32 m (unat (elf32_getProgramHeaderTable file m) + 32 * ph + 4 * k)"

definition elf32_getProgramHeaderType :: "u32 \<Rightarrow> nat \<Rightarrow> memory \<Rightarrow> u32" where "elf32_getProgramHeaderType = phdr_word 0"
definition elf32_getProgramHeaderOffset :: "u32 \<Rightarrow> nat \<Rightarrow> memory \<Rightarrow> u32" where "elf32_getProgramHeaderOffset = phdr_word 1"
definition elf32_getProgramHeaderVaddr :: "u32 \<Rightarrow> nat \<Rightarrow> memory \<Rightarrow> u32" where "elf32_getProgramHeaderVaddr = phdr_word 2"
definition elf32_getProgramHeaderPaddr :: "u32 \<Rightarrow> nat \<Rightarrow> memory \<Rightarrow> u32" where "elf32_getProgramHeaderPaddr = phdr_word 3"
definition elf32_getProgramHeaderFileSize :: "u32 \<Rightarrow> nat \<Rightarrow> memory \<Rightarrow> u32" where "elf32_getProgramHeaderFileSize = phdr_word 4"
definition elf32_getProgramHeaderMemorySize :: "u32 \<Rightarrow> nat \<Rightarrow> memory \<Rightarrow> u32" where "elf32_getProgramHeaderMemorySize = phdr_word 5"
definition elf32_getProgramHeaderFlags :: "u32 \<Rightarrow> nat \<Rightarrow> memory \<Rightarrow> u32" where "elf32_getProgramHeaderFlags = phdr_word 6"

definition elf32_getSectionTable :: "u32 \<Rightarrow> memory \<Rightarrow> u32" where
  "elf32_getSectionTable file m = file + e_shoff file m"
definition shdr_word :: "nat \<Rightarrow> u32 \<Rightarrow> nat \<Rightarrow> memory \<Rightarrow> u32" where
  "shdr_word k file s m = load32 m (unat (elf32_getSectionTable file m) + 40 * s + 4 * k)"

definition elf32_getSectionType :: "u32 \<Rightarrow> nat \<Rightarrow> memory \<Rightarrow> u32" where "elf32_getSectionType = shdr_word 1"
definition elf32_getSectionFlags :: "u32 \<Rightarrow> nat \<Rightarrow> memory \<Rightarrow> u32" where "elf32_getSectionFlags = shdr_word 2"
definition elf32_getSectionAddr :: "u32 \<Rightarrow> nat \<Rightarrow> memory \<Rightarrow> u32" where "elf32_getSectionAddr = shdr_word 3"
definition elf32_getSectionSize :: "u32 \<Rightarrow> nat \<Rightarrow> memory \<Rightarrow> u32" where "elf32_getSectionSize = shdr_word 5"
definition elf32_getSection :: "u32 \<Rightarrow> nat \<Rightarrow> memory \<Rightarrow> u32" where "elf32_getSection file s m = file + shdr_word 4 file s m"

definition elf32_getStringTable :: "u32 \<Rightarrow> memory \<Rightarrow> u32" where
  "elf32_getStringTable file m = file + shdr_word 4 file (unat (e_shstrndx file m)) m"
definition elf32_getSegmentStringTable :: "u32 \<Rightarrow> memory \<Rightarrow> u32" where
  "elf32_getSegmentStringTable file m = (if e_shstrndx file m = 0 then NULL else elf32_getStringTable file m)"

subsection \<open>The generic layer\<close>

definition elf_getProgramHeaderInfo :: "u32 \<Rightarrow> nat \<Rightarrow> memory \<Rightarrow> u32 \<times> u32 \<times> u32 \<times> u32 \<times> u32" where
  "elf_getProgramHeaderInfo file ph m =
     (elf32_getProgramHeaderVaddr file ph m, elf32_getProgramHeaderPaddr file ph m, elf32_getProgramHeaderFileSize file ph m,
      elf32_getProgramHeaderOffset file ph m, elf32_getProgramHeaderMemorySize file ph m)"

definition bounds_step :: "bool \<Rightarrow> u32 \<Rightarrow> memory \<Rightarrow> nat \<Rightarrow> u32 \<times> u32 \<Rightarrow> u32 \<times> u32" where
  "bounds_step phys file m i mm =
     (if elf32_getProgramHeaderMemorySize file i m = 0 then mm
      else
        let sect_min = (if phys then elf32_getProgramHeaderPaddr file i m else elf32_getProgramHeaderVaddr file i m);
            sect_max = sect_min + elf32_getProgramHeaderMemorySize file i m
        in (if sect_min < fst mm then sect_min else fst mm, if sect_max > snd mm then sect_max else snd mm))"

definition elf_getMemoryBounds :: "bool \<Rightarrow> u32 \<Rightarrow> memory \<Rightarrow> (u32 \<times> u32) option" where
  "elf_getMemoryBounds phys file m =
     (if elf32_checkFile file m \<noteq> 0 then None
      else Some (fold (bounds_step phys file m) [0..<unat (elf32_getNumProgramHeaders file m)] (0xFFFFFFFF, 0)))"

definition elf_vaddrInProgramHeader :: "u32 \<Rightarrow> nat \<Rightarrow> u32 \<Rightarrow> memory \<Rightarrow> bool" where
  "elf_vaddrInProgramHeader file ph vaddr m \<longleftrightarrow>
     (let lo = elf32_getProgramHeaderVaddr file ph m; hi = lo + elf32_getProgramHeaderMemorySize file ph m in vaddr \<ge> lo \<and> vaddr < hi)"

definition elf_vtopProgramHeader :: "u32 \<Rightarrow> nat \<Rightarrow> u32 \<Rightarrow> memory \<Rightarrow> u32" where
  "elf_vtopProgramHeader file ph vaddr m = vaddr - elf32_getProgramHeaderVaddr file ph m + elf32_getProgramHeaderPaddr file ph m"

definition load_segment :: "u32 \<Rightarrow> nat \<Rightarrow> memory \<Rightarrow> memory" where
  "load_segment file i m =
     (let dest = elf32_getProgramHeaderPaddr file i m;
          len = elf32_getProgramHeaderFileSize file i m;
          src = file + elf32_getProgramHeaderOffset file i m
      in memcpy (unat dest) (unat src) (unat len) m)"

definition elf_loadFile :: "u32 \<Rightarrow> memory \<Rightarrow> u32 \<times> memory" where
  "elf_loadFile file m =
     (if elf32_checkFile file m \<noteq> 0 then (0, m)
      else
        let m = fold (load_segment file) [0..<unat (elf32_getNumProgramHeaders file m)] m
        in (elf32_getEntryPoint file m, m))"

subsection \<open>Loading\<close>

text \<open>A well-formed image of \<open>n\<close> bytes: headers and segments lie inside the file, the destinations outside of it and apart from each
  other, and nothing wraps around the end of the address space.\<close>

abbreviation (input) seg_dest :: "u32 \<Rightarrow> memory \<Rightarrow> nat \<Rightarrow> nat" where "seg_dest file m i \<equiv> unat (elf32_getProgramHeaderPaddr file i m)"
abbreviation (input) seg_off :: "u32 \<Rightarrow> memory \<Rightarrow> nat \<Rightarrow> nat" where "seg_off file m i \<equiv> unat (elf32_getProgramHeaderOffset file i m)"
abbreviation (input) seg_len :: "u32 \<Rightarrow> memory \<Rightarrow> nat \<Rightarrow> nat" where "seg_len file m i \<equiv> unat (elf32_getProgramHeaderFileSize file i m)"
abbreviation (input) seg_num :: "u32 \<Rightarrow> memory \<Rightarrow> nat" where "seg_num file m \<equiv> unat (elf32_getNumProgramHeaders file m)"

definition in_seg :: "u32 \<Rightarrow> memory \<Rightarrow> nat \<Rightarrow> nat \<Rightarrow> bool" where
  "in_seg file m i a \<longleftrightarrow> seg_dest file m i \<le> a \<and> a < seg_dest file m i + seg_len file m i"

definition elf_image :: "u32 \<Rightarrow> nat \<Rightarrow> memory \<Rightarrow> bool" where
  "elf_image file n m \<longleftrightarrow> 52 \<le> n \<and> unat file + n < 2 ^ 32 \<and> unat (e_phoff file m) + 32 * seg_num file m \<le> n \<and>
    (\<forall>i < seg_num file m. seg_off file m i + seg_len file m i \<le> n \<and> seg_dest file m i + seg_len file m i \<le> 2 ^ 32 \<and>
       (\<forall>a. in_seg file m i a \<longrightarrow> a < unat file \<or> unat file + n \<le> a)) \<and>
    (\<forall>i < seg_num file m. \<forall>j < seg_num file m. i \<noteq> j \<longrightarrow> (\<forall>a. \<not> (in_seg file m i a \<and> in_seg file m j a)))"

lemma elf_imageD:
  assumes "elf_image file n m" and "i < seg_num file m"
  shows "seg_off file m i + seg_len file m i \<le> n" "in_seg file m i a \<Longrightarrow> a < unat file \<or> unat file + n \<le> a"
    "j < seg_num file m \<Longrightarrow> i \<noteq> j \<Longrightarrow> in_seg file m i a \<Longrightarrow> \<not> in_seg file m j a"
  using assms unfolding elf_image_def by blast+

definition same_file :: "u32 \<Rightarrow> nat \<Rightarrow> memory \<Rightarrow> memory \<Rightarrow> bool" where
  "same_file file n m m' \<longleftrightarrow> (\<forall>a. unat file \<le> a \<and> a < unat file + n \<longrightarrow> m' a = m a)"

lemma same_file_load32: "same_file file n m m' \<Longrightarrow> k + 4 \<le> n \<Longrightarrow> load32 m' (unat file + k) = load32 m (unat file + k)"
  by (simp add: same_file_def load32_def)

lemma same_file_load16: "same_file file n m m' \<Longrightarrow> k + 2 \<le> n \<Longrightarrow> load16 m' (unat file + k) = load16 m (unat file + k)"
  by (simp add: same_file_def load16_def)

lemma same_file_phdr:
  assumes im: "elf_image file n m" and sf: "same_file file n m m'" and i: "i < seg_num file m" and k: "k < 8"
  shows "phdr_word k file i m' = phdr_word k file i m"
proof -
  have n: "52 \<le> n" "unat (e_phoff file m) + 32 * seg_num file m \<le> n" "unat file + n < 2 ^ 32" using im by (auto simp: elf_image_def)
  have p: "e_phoff file m' = e_phoff file m" using same_file_load32 [OF sf, of 28] n(1) by (simp add: e_phoff_def)
  have t: "unat (elf32_getProgramHeaderTable file m) = unat file + unat (e_phoff file m)"
    unfolding elf32_getProgramHeaderTable_def using n by (simp add: unat_word_ariths)
  have "32 * i + 32 \<le> 32 * seg_num file m" using i by simp
  then have "unat (e_phoff file m) + 32 * i + 4 * k + 4 \<le> n" using n(2) k by linarith
  then show ?thesis
    using same_file_load32 [OF sf, of "unat (e_phoff file m) + 32 * i + 4 * k"]
    unfolding phdr_word_def t by (simp add: elf32_getProgramHeaderTable_def p t [unfolded elf32_getProgramHeaderTable_def] add.assoc)
qed

text \<open>The first \<open>j\<close> segments are in place and nothing else has changed.\<close>

definition loaded :: "u32 \<Rightarrow> memory \<Rightarrow> nat \<Rightarrow> memory \<Rightarrow> bool" where
  "loaded file m j m' \<longleftrightarrow>
     (\<forall>i < j. \<forall>a. in_seg file m i a \<longrightarrow> m' a = m (unat file + seg_off file m i + (a - seg_dest file m i))) \<and>
     (\<forall>a. (\<forall>i < j. \<not> in_seg file m i a) \<longrightarrow> m' a = m a)"

lemma loaded_same_file: "elf_image file n m \<Longrightarrow> j \<le> seg_num file m \<Longrightarrow> loaded file m j m' \<Longrightarrow> same_file file n m m'"
  unfolding same_file_def
proof (intro allI impI)
  fix a assume im: "elf_image file n m" and j: "j \<le> seg_num file m" and l: "loaded file m j m'"
    and a: "unat file \<le> a \<and> a < unat file + n"
  have "\<not> in_seg file m i a" if "i < j" for i
  proof -
    have "i < seg_num file m" using j that by (rule less_le_trans [rotated])
    then show ?thesis using elf_imageD(2) [OF im, of i a] a by linarith
  qed
  then show "m' a = m a" using l by (simp add: loaded_def)
qed

lemma load_segment_loads:
  assumes im: "elf_image file n m" and j: "j < seg_num file m" and l: "loaded file m j m'"
  shows "loaded file m (Suc j) (load_segment file j m')"
proof -
  define d s k where v: "d = seg_dest file m j" "s = unat file + seg_off file m j" "k = seg_len file m j"
  have sf: "same_file file n m m'" using loaded_same_file [OF im _ l] j by simp
  have b: "seg_off file m j + k \<le> n" "unat file + n < 2 ^ 32"
    using elf_imageD(1) [OF im j] im unfolding v elf_image_def by blast+
  note o = elf_imageD(2) [OF im j]
  have dj: "\<not> in_seg file m j a" if "i < j" "in_seg file m i a" for i a
    using elf_imageD(3) [OF im j, of i a] that j by auto
  note w = same_file_phdr [OF im sf j]
  have "unat (file + elf32_getProgramHeaderOffset file j m') = s"
    using b w [of 1] by (simp add: unat_word_ariths v elf32_getProgramHeaderOffset_def)
  then have e: "load_segment file j m' = memcpy d s k m'"
    using w [of 3] w [of 4]
    by (simp add: load_segment_def Let_def v elf32_getProgramHeaderPaddr_def elf32_getProgramHeaderFileSize_def)
  have "apart_areas d s k"
  proof (rule ccontr)
    assume "\<not> apart_areas d s k"
    then have c: "d < s + k" "s < d + k" by (auto simp: apart_areas_def)
    have "in_seg file m j (max d s)" using c by (auto simp: in_seg_def v max_def)
    then show False using o [of "max d s"] c b by (auto simp: v max_def split: if_splits)
  qed
  then have cp: "load_segment file j m' a = (if in_seg file m j a then m' (s + (a - d)) else m' a)" for a
    unfolding e memcpy_copies [OF \<open>apart_areas d s k\<close>] by (simp add: in_seg_def v)
  have src: "m' (s + (a - d)) = m (s + (a - d))" if "in_seg file m j a" for a
  proof -
    have "a - d < k" using that by (auto simp: in_seg_def v)
    then have "s + (a - d) < unat file + n" "unat file \<le> s + (a - d)" using b(1) by (simp_all add: v)
    then show ?thesis using sf by (simp add: same_file_def)
  qed
  show ?thesis unfolding loaded_def
  proof (intro conjI allI impI)
    fix i a assume i: "i < Suc j" "in_seg file m i a"
    show "load_segment file j m' a = m (unat file + seg_off file m i + (a - seg_dest file m i))"
    proof (cases "i = j")
      case True
      then show ?thesis using i(2) cp src by (simp add: v)
    next
      case False
      then show ?thesis using i l dj [of i a] cp [of a] by (simp add: loaded_def less_Suc_eq)
    qed
  next
    fix a assume "\<forall>i < Suc j. \<not> in_seg file m i a"
    then show "load_segment file j m' a = m a" using l cp [of a] by (simp add: loaded_def less_Suc_eq)
  qed
qed

lemma load_segments:
  assumes im: "elf_image file n m"
  shows "j \<le> seg_num file m \<Longrightarrow> loaded file m j (fold (load_segment file) [0..<j] m)"
proof (induction j)
  case (Suc j)
  then show ?case using load_segment_loads [OF im, of j "fold (load_segment file) [0..<j] m"] by simp
qed (simp add: loaded_def)


text \<open>A file at 4096 with one segment of three bytes behind its header, loaded to 8192.\<close>

definition elf_demo :: memory where
  "elf_demo = (\<lambda>_. 0)(4096 := 0x7F, 4097 := 0x45, 4098 := 0x4C, 4099 := 0x46, 4100 := 1, 4096 + 25 := 0x20, 4096 + 28 := 52, 4096 + 44 := 1,
     4096 + 52 + 4 := 84, 4096 + 52 + 13 := 0x20, 4096 + 52 + 16 := 3, 4096 + 84 := 10, 4096 + 85 := 20, 4096 + 86 := 30)"

lemma elf_demo_fields:
  "elf32_checkFile 4096 elf_demo = 0" "e_entry 4096 elf_demo = 8192" "e_phoff 4096 elf_demo = 52" "seg_num 4096 elf_demo = 1"
  "seg_dest 4096 elf_demo 0 = 8192" "seg_off 4096 elf_demo 0 = 84" "seg_len 4096 elf_demo 0 = 3"
proof -
  show p: "e_phoff 4096 elf_demo = 52" by (simp add: e_phoff_def load32_def elf_demo_def)
  have t: "unat (elf32_getProgramHeaderTable 4096 elf_demo) = 4148" by (simp add: elf32_getProgramHeaderTable_def p)
  show "seg_dest 4096 elf_demo 0 = 8192" unfolding elf32_getProgramHeaderPaddr_def phdr_word_def t by (simp add: load32_def elf_demo_def)
  show "seg_off 4096 elf_demo 0 = 84" unfolding elf32_getProgramHeaderOffset_def phdr_word_def t by (simp add: load32_def elf_demo_def)
  show "seg_len 4096 elf_demo 0 = 3" unfolding elf32_getProgramHeaderFileSize_def phdr_word_def t by (simp add: load32_def elf_demo_def)
qed (simp_all add: elf32_checkFile_def e_entry_def e_phnum_def elf32_getNumProgramHeaders_def load32_def load16_def elf_demo_def)


subsection \<open>Memory bounds\<close>

lemma bounds_cover:
  "i \<in> set ps \<Longrightarrow> elf32_getProgramHeaderMemorySize file i m \<noteq> 0 \<Longrightarrow>
   fst (fold (bounds_step phys file m) ps mm) \<le> (if phys then elf32_getProgramHeaderPaddr file i m else elf32_getProgramHeaderVaddr file i m) \<and>
   (if phys then elf32_getProgramHeaderPaddr file i m else elf32_getProgramHeaderVaddr file i m) + elf32_getProgramHeaderMemorySize file i m
     \<le> snd (fold (bounds_step phys file m) ps mm)"
proof (induction ps arbitrary: mm)
  case (Cons j js)
  have grow: "fst (fold (bounds_step phys file m) js mm) \<le> fst mm \<and> snd mm \<le> snd (fold (bounds_step phys file m) js mm)" for mm
  proof (induction js arbitrary: mm)
    case (Cons k ks)
    have "fst (bounds_step phys file m k mm) \<le> fst mm \<and> snd mm \<le> snd (bounds_step phys file m k mm)"
      by (auto simp: bounds_step_def Let_def)
    then show ?case using Cons [of "bounds_step phys file m k mm"] by auto
  qed simp
  show ?case
  proof (cases "i = j")
    case True
    let ?lo = "if phys then elf32_getProgramHeaderPaddr file i m else elf32_getProgramHeaderVaddr file i m"
    have "fst (bounds_step phys file m j mm) \<le> ?lo \<and> ?lo + elf32_getProgramHeaderMemorySize file i m \<le> snd (bounds_step phys file m j mm)"
      using True Cons.prems(2) by (auto simp: bounds_step_def Let_def not_less)
    then show ?thesis using grow [of "bounds_step phys file m j mm"] by auto
  next
    case False
    then show ?thesis using Cons by simp
  qed
qed simp

text \<open>The reported bounds contain every segment that takes memory.\<close>

theorem elf_getMemoryBounds_covers:
  assumes "elf_getMemoryBounds True file m = Some (lo, hi)" and "i < seg_num file m" and "elf32_getProgramHeaderMemorySize file i m \<noteq> 0"
  shows "lo \<le> elf32_getProgramHeaderPaddr file i m \<and> elf32_getProgramHeaderPaddr file i m + elf32_getProgramHeaderMemorySize file i m \<le> hi"
  using bounds_cover [of i "[0..<seg_num file m]" "file" m True "(0xFFFFFFFF, 0)"] assms
  by (auto simp: elf_getMemoryBounds_def split: if_splits)

end
