(* ===== verification/Lib_Stdio.thy ===== *)
theory Lib_Stdio
  imports Prelude
begin

text \<open>
  Formatted output of the kernel, \<^verbatim>\<open>kernel/lib/stdio.c\<close>. What the functions print is their result, a string. The variable
  arguments are a list of typed values; reading one that is not there, or a string as a number, is a
  fault of the model.
\<close>

datatype va_arg = Word32 u32 | Word64 u64 | Str string

subsection \<open>Strings\<close>

definition NEWLINE :: char where "NEWLINE = char_of (10 :: nat)"
definition RETURN :: char where "RETURN = char_of (13 :: nat)"

definition l4_puts :: "string \<Rightarrow> string" where
  "l4_puts str = concat (map (\<lambda>c. if c = NEWLINE then [RETURN, c] else [c]) str)"

definition l4_puts_x :: "string \<Rightarrow> int \<Rightarrow> char \<Rightarrow> string" where
  "l4_puts_x str width pad = l4_puts str @ replicate (nat (width - int (length str))) pad"

subsection \<open>Hexadecimal numbers\<close>

definition hexchars :: "u32 \<Rightarrow> char" where
  "hexchars x = (if x < 10 then char_of (48 + unat x) else char_of (97 + unat (x - 10)))"

function hex_width :: "u32 \<Rightarrow> nat \<Rightarrow> nat" where
  "hex_width val nwidth = (if nwidth < 8 \<and> drop_bit (4 * nwidth) val \<noteq> 0 then hex_width val (nwidth + 1) else nwidth)"
  by auto
termination by (relation "measure (\<lambda>(val, nwidth). 8 - nwidth)") auto

declare hex_width.simps [simp del]

definition l4_put_hex :: "u32 \<Rightarrow> int \<Rightarrow> char \<Rightarrow> string" where
  "l4_put_hex val width pad =
     (let nwidth = hex_width val 0;
          nwidth = (if nwidth = 0 then 1 else nwidth);
          width = (if width = 0 \<and> width < int nwidth then int nwidth else width)
      in replicate (nat (width - int nwidth)) pad @ map (\<lambda>i. hexchars (drop_bit (4 * i) val AND 0xF)) (rev [0..<nwidth]))"

subsection \<open>Decimal numbers\<close>

lemma dec_scale_step:
  fixes val d :: u32
  assumes "10 \<le> val div d"
  shows "unat (d * 10) = unat d * 10" "unat val div (unat d * 10) < unat val div unat d" "0 < unat d"
proof -
  have q: "10 \<le> unat val div unat d" using assms by (simp add: word_le_nat_alt unat_div)
  then show "0 < unat d" by (cases "unat d") auto
  have "unat d * 10 \<le> unat val" using q by (metis div_times_less_eq_dividend le_trans mult.commute mult_le_mono1)
  moreover have "unat val < 2 ^ 32" using unsigned_less [of val] by simp
  ultimately have "unat d * 10 < 2 ^ 32" by linarith
  then show "unat (d * 10) = unat d * 10" by (simp add: unat_word_ariths)
  show "unat val div (unat d * 10) < unat val div unat d" using q by (simp add: div_mult2_eq)
qed

function dec_scale :: "u32 \<Rightarrow> u32 \<Rightarrow> nat \<Rightarrow> u32 \<times> nat" where
  "dec_scale val divisor digits = (if val div divisor \<ge> 10 then dec_scale val (divisor * 10) (digits + 1) else (divisor, digits))"
  by auto
termination
  by (relation "measure (\<lambda>(val, divisor, digits). unat val div unat divisor)") (simp_all add: dec_scale_step)

declare dec_scale.simps [simp del]

function dec_digits :: "u32 \<Rightarrow> u32 \<Rightarrow> string" where
  "dec_digits val divisor =
     char_of (unat ((val div divisor) mod 10) + 48) # (if divisor div 10 \<noteq> 0 then dec_digits val (divisor div 10) else [])"
  by auto
termination
proof (relation "measure (\<lambda>(val, divisor). unat divisor)", goal_cases)
  case (2 val divisor)
  then have "divisor \<noteq> 0" by (cases "divisor = 0") auto
  then show ?case by (simp add: unat_div unat_gt_0)
qed simp

declare dec_digits.simps [simp del]

definition l4_put_dec :: "u32 \<Rightarrow> int \<Rightarrow> char \<Rightarrow> string" where
  "l4_put_dec val width pad =
     (case dec_scale val 1 1 of (divisor, digits) \<Rightarrow> replicate (nat (width - int digits)) pad @ dec_digits val divisor)"

subsection \<open>Format strings\<close>

record fmt_state =
  p_mode :: bool
  p_width :: int
  p_pad :: char
  p_size :: nat
  p_args :: "va_arg list"
  p_out :: string

definition take_word :: "fmt_state \<Rightarrow> (u32 \<times> fmt_state) result" where
  "take_word p = (case p_args p of
     Word32 w # as \<Rightarrow> if p_size p = 64 then Fault (Out_of_bounds ''va_arg'') else Ok (w, p\<lparr>p_args := as\<rparr>)
   | Word64 w # as \<Rightarrow> if p_size p = 64 then Ok (ucast w, p\<lparr>p_args := as\<rparr>) else Fault (Out_of_bounds ''va_arg'')
   | _ \<Rightarrow> Fault (Out_of_bounds ''va_arg''))"

definition emit :: "string \<Rightarrow> fmt_state \<Rightarrow> fmt_state" where
  "emit str p = p\<lparr>p_out := p_out p @ str, p_mode := False\<rparr>"

text \<open>A character behind a percent sign: a conversion ends the specification, a length or a flag is recorded, and
  any other character is passed over.\<close>

definition vprintf_spec :: "char \<Rightarrow> fmt_state \<Rightarrow> fmt_state result" where
  "vprintf_spec c p =
     (if c = CHR ''c'' then
        rbind (take_word (p\<lparr>p_size := 32\<rparr>)) (\<lambda>(w, q). Ok (emit [char_of (unat w)] (q\<lparr>p_size := p_size p\<rparr>)))
      else if c = CHR ''s'' then
        (case p_args p of Str str # as \<Rightarrow> Ok (emit (l4_puts_x str (p_width p) (p_pad p)) (p\<lparr>p_args := as\<rparr>))
         | _ \<Rightarrow> Fault (Out_of_bounds ''va_arg''))
      else if c = CHR ''l'' \<or> c = CHR ''L'' then Ok (p\<lparr>p_size := 64\<rparr>)
      else if c = CHR ''d'' \<or> c = CHR ''D'' then
        rbind (take_word p) (\<lambda>(w, q). Ok (emit (l4_put_dec w (p_width p) (p_pad p)) q))
      else if c = CHR ''p'' \<or> c = CHR ''t'' then
        (let p = p\<lparr>p_size := 32, p_width := 8, p_pad := CHR ''0''\<rparr>
         in rbind (take_word p) (\<lambda>(w, q). Ok (emit (l4_put_hex w (p_width p) (p_pad p)) q)))
      else if c = CHR ''x'' \<or> c = CHR ''X'' then
        rbind (take_word p) (\<lambda>(w, q). Ok (emit (l4_put_hex w (p_width p) (p_pad p)) q))
      else if c = CHR ''%'' then Ok (emit ''%'' p)
      else if c = CHR ''0'' then Ok (if p_width p = 0 then p\<lparr>p_pad := CHR ''0''\<rparr> else p)
      else if c = CHR '' '' then Ok (p\<lparr>p_pad := CHR '' ''\<rparr>)
      else Ok p)"

definition vprintf_char :: "char \<Rightarrow> fmt_state \<Rightarrow> fmt_state result" where
  "vprintf_char c p =
     (if c = CHR ''%'' then Ok (p\<lparr>p_mode := True, p_pad := CHR '' '', p_width := 0, p_size := 32\<rparr>)
      else if \<not> p_mode p then Ok (p\<lparr>p_out := p_out p @ l4_puts [c]\<rparr>)
      else
        rbind (vprintf_spec c p) (\<lambda>p.
          Ok (if 48 \<le> (of_char c :: nat) \<and> (of_char c :: nat) \<le> 57
              then p\<lparr>p_width := p_width p * 10 + int (of_char c) - 48\<rparr> else p)))"

definition l4_vprintf :: "string \<Rightarrow> va_arg list \<Rightarrow> string result" where
  "l4_vprintf fmt va =
     rbind (rfold vprintf_char fmt \<lparr>p_mode = False, p_width = 0, p_pad = CHR '' '', p_size = 16, p_args = va, p_out = []\<rparr>)
       (\<lambda>p. Ok (p_out p))"

subsection \<open>What is printed reads back\<close>

text \<open>The digits of a number in a base, the most significant one first, and their value.\<close>

definition digits :: "nat \<Rightarrow> nat \<Rightarrow> nat \<Rightarrow> nat list" where
  "digits b n v = map (\<lambda>i. v div b ^ i mod b) (rev [0..<n])"

definition value_of :: "nat \<Rightarrow> nat list \<Rightarrow> nat" where
  "value_of b ds = foldl (\<lambda>a d. a * b + d) 0 ds"

lemma foldl_digits: "foldl (\<lambda>a d. a * b + d) x (digits b n v) = x * b ^ n + v mod b ^ n"
proof (induction n arbitrary: x)
  case (Suc n)
  have "v mod b ^ Suc n = b ^ n * (v div b ^ n mod b) + v mod b ^ n"
    using mod_mult2_eq [of v "b ^ n" b] by (simp add: mult.commute)
  then show ?case using Suc [of "x * b + v div b ^ n mod b"] by (simp add: digits_def algebra_simps)
qed (simp add: digits_def)

lemma value_of_digits: "v < b ^ n \<Longrightarrow> value_of b (digits b n v) = v"
  using foldl_digits [of b 0 n v] by (simp add: value_of_def)

lemma length_digits [simp]: "length (digits b n v) = n"
  by (simp add: digits_def)

lemma hd_digits: "0 < n \<Longrightarrow> v < b ^ n \<Longrightarrow> hd (digits b n v) = v div b ^ (n - 1)"
  by (cases n) (auto simp: digits_def less_mult_imp_div_less mult.commute)

lemma digits_below: "0 < b \<Longrightarrow> d \<in> set (digits b n v) \<Longrightarrow> d < b"
  by (auto simp: digits_def)

definition dec_char :: "nat \<Rightarrow> char" where "dec_char d = char_of (d + 48)"
definition hex_char :: "nat \<Rightarrow> char" where "hex_char d = char_of (if d < 10 then d + 48 else d + 87)"
definition char_digit :: "char \<Rightarrow> nat" where
  "char_digit c = (let n = of_char c :: nat in if n < 97 then n - 48 else n - 87)"

lemma char_digit_inverse: "d < 10 \<Longrightarrow> char_digit (dec_char d) = d" "d < 16 \<Longrightarrow> char_digit (hex_char d) = d"
  by (simp_all add: char_digit_def dec_char_def hex_char_def of_char_of Let_def)

lemma map_char_digit:
  "map char_digit (map dec_char (digits 10 n v)) = digits 10 n v" "map char_digit (map hex_char (digits 16 n v)) = digits 16 n v"
  using digits_below [of 10 _ n v] digits_below [of 16 _ n v] by (auto intro!: map_idI simp: char_digit_inverse)

subsubsection \<open>Decimal\<close>

lemma dec_scale_spec:
  "unat d = 10 ^ k \<Longrightarrow> \<exists>d' n. dec_scale val d (Suc k) = (d', Suc n) \<and> unat d' = 10 ^ n \<and> unat val < 10 ^ Suc n \<and> (n = k \<or> 10 ^ n \<le> unat val)"
proof (induction val d "Suc k" arbitrary: k rule: dec_scale.induct)
  case (1 val d)
  show ?case
  proof (cases "10 \<le> val div d")
    case True
    have "unat (d * 10) = 10 ^ Suc k" using dec_scale_step(1) [OF True] 1(2) by simp
    then obtain d' n where r: "dec_scale val (d * 10) (Suc (Suc k)) = (d', Suc n)" "unat d' = 10 ^ n" "unat val < 10 ^ Suc n"
        "n = Suc k \<or> 10 ^ n \<le> unat val" using 1(1) [OF True, of "Suc k"] by auto
    have "10 ^ Suc k \<le> unat val"
    proof -
      have "10 \<le> unat val div 10 ^ k" using True 1(2) by (simp add: word_le_nat_alt unat_div)
      then show ?thesis by (metis div_times_less_eq_dividend le_trans mult_le_mono1 power_Suc)
    qed
    then show ?thesis using r True by (auto simp: dec_scale.simps [of val d])
  next
    case False
    then have "unat val div 10 ^ k < 10" using 1(2) by (simp add: word_le_nat_alt unat_div)
    then have "unat val < 10 ^ Suc k" by (simp add: div_less_iff_less_mult)
    then show ?thesis using False 1(2) by (simp add: dec_scale.simps [of val d])
  qed
qed

lemma dec_digits_spec: "unat d = 10 ^ n \<Longrightarrow> dec_digits val d = map dec_char (digits 10 (Suc n) (unat val))"
proof (induction n arbitrary: d)
  case 0
  then have "d = 1" by (simp add: word_unat_eq_iff)
  then show ?case by (simp add: dec_digits.simps digits_def dec_char_def unat_mod)
next
  case (Suc n)
  then have "unat (d div 10) = 10 ^ n" "d div 10 \<noteq> 0" by (auto simp: unat_div word_unat_eq_iff)
  then show ?case using Suc.IH [of "d div 10"] Suc.prems
    by (simp add: dec_digits.simps [of val d] digits_def dec_char_def unat_mod unat_div)
qed

text \<open>C38. Decimal output: the padding, then digits that read back as the number, without leading zeros.\<close>

theorem put_dec_reads_back:
  "\<exists>ds. l4_put_dec val width pad = replicate (nat (width - int (length ds))) pad @ ds \<and>
    value_of 10 (map char_digit ds) = unat val \<and> set ds \<subseteq> set ''0123456789'' \<and> ds \<noteq> [] \<and> (hd ds = CHR ''0'' \<longleftrightarrow> val = 0)"
proof -
  obtain d n where d: "dec_scale val 1 1 = (d, Suc n)" "unat d = 10 ^ n" "unat val < 10 ^ Suc n" "n = 0 \<or> 10 ^ n \<le> unat val"
    using dec_scale_spec [of 1 0 val] by auto
  let ?ds = "map dec_char (digits 10 (Suc n) (unat val))"
  have "l4_put_dec val width pad = replicate (nat (width - int (length ?ds))) pad @ ?ds"
    using d(1) dec_digits_spec [OF d(2), of val] by (simp add: l4_put_dec_def)
  moreover have "value_of 10 (map char_digit ?ds) = unat val" unfolding map_char_digit using d(3) by (rule value_of_digits)
  moreover have "set ?ds \<subseteq> set ''0123456789''"
  proof -
    have "dec_char x \<in> set ''0123456789''" if "x < 10" for x
    proof -
      have "x \<in> {0, 1, 2, 3, 4, 5, 6, 7, 8, 9}" using that by auto
      then show ?thesis by (elim insertE) (auto simp: dec_char_def char_of_def bit_0)
    qed
    then show ?thesis using digits_below [of 10 _ "Suc n" "unat val"] by auto
  qed
  moreover have "hd ?ds = CHR ''0'' \<longleftrightarrow> val = 0"
  proof -
    have "digits 10 (Suc n) (unat val) \<noteq> []" by (simp add: digits_def)
    then have h: "hd ?ds = dec_char (unat val div 10 ^ n)" using hd_digits [of "Suc n" "unat val" 10] d(3) by (simp add: hd_map)
    have l: "unat val div 10 ^ n < 10" using d(3) by (simp add: less_mult_imp_div_less)
    have "dec_char 0 = CHR ''0''" by (simp add: dec_char_def char_of_def bit_0)
    then have "dec_char (unat val div 10 ^ n) = CHR ''0'' \<longleftrightarrow> unat val div 10 ^ n = 0"
      using char_digit_inverse(1) [OF l] char_digit_inverse(1) [of 0] by (metis zero_less_numeral)
    also have "\<dots> \<longleftrightarrow> unat val < 10 ^ n" by (simp add: div_eq_0_iff)
    also have "\<dots> \<longleftrightarrow> val = 0" using d(4) by (auto simp: word_unat_eq_iff)
    finally show ?thesis unfolding h .
  qed
  ultimately show ?thesis by (intro exI [of _ ?ds]) (auto simp: digits_def)
qed

subsubsection \<open>Hexadecimal\<close>

lemma pow16: "(16 :: nat) ^ n = 2 ^ (4 * n)"
  by (simp add: power_mult)

lemma drop_nibbles: "drop_bit (4 * n) (val :: u32) = 0 \<longleftrightarrow> unat val < 16 ^ n"
  unfolding word_unat_eq_iff unat_drop_bit_eq pow16 by (simp add: drop_bit_eq_div div_eq_0_iff)

lemma hex_width_spec:
  "k \<le> 8 \<Longrightarrow> k = 0 \<or> 16 ^ (k - 1) \<le> unat val \<Longrightarrow>
   hex_width val k \<le> 8 \<and> unat val < 16 ^ hex_width val k \<and> (hex_width val k = 0 \<or> 16 ^ (hex_width val k - 1) \<le> unat val)"
proof (induction val k rule: hex_width.induct)
  case (1 val k)
  show ?case
  proof (cases "k < 8 \<and> drop_bit (4 * k) val \<noteq> 0")
    case True
    then have "16 ^ k \<le> unat val" by (simp add: drop_nibbles)
    then show ?thesis using 1(1) [OF True] True by (simp add: hex_width.simps [of val k])
  next
    case False
    have "unat val < 16 ^ 8" using unsigned_less [of val] by simp
    then have "unat val < 16 ^ k" using False 1(2) drop_nibbles [of k val] by (cases "k = 8") auto
    then show ?thesis using False 1(2,3) unfolding hex_width.simps [of val k] by auto
  qed
qed

lemma hexchars_nibble: "hexchars (drop_bit (4 * i) val AND 0xF) = hex_char (unat val div 16 ^ i mod 16)"
proof -
  let ?x = "drop_bit (4 * i) val AND 0xF"
  have "?x = take_bit 4 (drop_bit (4 * i) val)" by (simp only: take_bit_eq_mask) (simp add: mask_eq_exp_minus_1)
  then have "unat ?x = take_bit 4 (drop_bit (4 * i) (unat val))" by (simp only: unsigned_take_bit_eq unat_drop_bit_eq)
  then have u: "unat ?x = unat val div 16 ^ i mod 16" unfolding pow16 take_bit_eq_mod drop_bit_eq_div by simp
  have "unat (?x - 10) = unat ?x - 10" if "\<not> ?x < 10" using that by (subst unat_sub) (auto simp: word_le_nat_alt word_less_nat_alt)
  then show ?thesis unfolding hexchars_def hex_char_def u [symmetric] by (auto simp: word_less_nat_alt add.commute [of _ 87])
qed

text \<open>Hexadecimal output in the same way.\<close>

theorem put_hex_reads_back:
  "\<exists>ds. l4_put_hex val width pad = replicate (nat (width - int (length ds))) pad @ ds \<and>
    value_of 16 (map char_digit ds) = unat val \<and> ds \<noteq> [] \<and> length ds \<le> 8"
proof -
  define n where "n = (if hex_width val 0 = 0 then 1 else hex_width val 0)"
  have n: "0 < n" "n \<le> 8" "unat val < 16 ^ n"
    using hex_width_spec [of 0 val] by (auto simp: n_def intro: less_le_trans)
  let ?ds = "map hex_char (digits 16 n (unat val))"
  have "l4_put_hex val width pad = replicate (nat (width - int (length ?ds))) pad @ ?ds"
    unfolding l4_put_hex_def Let_def n_def [symmetric] hexchars_nibble by (auto simp: digits_def)
  moreover have "value_of 16 (map char_digit ?ds) = unat val" unfolding map_char_digit using n(3) by (rule value_of_digits)
  ultimately show ?thesis using n by (intro exI [of _ ?ds]) (auto simp: digits_def)
qed

subsection \<open>Conversions in a format string\<close>

text \<open>Plain text is printed with a carriage return before every newline.\<close>

lemma vprintf_plain:
  assumes "CHR ''%'' \<notin> set fmt"
  shows "l4_vprintf fmt va = Ok (l4_puts fmt)"
proof -
  have "rfold vprintf_char fmt p = Ok (p\<lparr>p_out := p_out p @ l4_puts fmt\<rparr>)" if "\<not> p_mode p" for p
    using assms that by (induction fmt arbitrary: p) (auto simp: vprintf_char_def l4_puts_def)
  then show ?thesis by (simp add: l4_vprintf_def)
qed

lemma vprintf_number:
  "l4_vprintf ''%d'' [Word32 v] = Ok (l4_put_dec v 0 CHR '' '')"
  "l4_vprintf ''%x'' [Word32 v] = Ok (l4_put_hex v 0 CHR '' '')"
  "l4_vprintf ''%p'' [Word32 v] = Ok (l4_put_hex v 8 CHR ''0'')"
  by (simp_all add: l4_vprintf_def vprintf_char_def vprintf_spec_def take_word_def emit_def)

text \<open>The branch for a second percent sign is never reached: the first test of the loop takes it for the start of another
  conversion, so it prints nothing and eats the conversion character that follows.\<close>

lemma vprintf_percent_lost: "l4_vprintf ''5%%d'' [Word32 7] = Ok ''57''"
  by (simp add: l4_vprintf_def vprintf_char_def vprintf_spec_def take_word_def emit_def l4_puts_def NEWLINE_def l4_put_dec_def
      dec_scale.simps dec_digits.simps char_of_def bit_0)

end
