(* ===== verification/Console.thy ===== *)
theory Console
  imports Lib_Stdio
begin

text \<open>
  The debug console: the byte queue of \<^verbatim>\<open>kernel/lib/queue.c\<close>, the buffered serial port of \<^verbatim>\<open>platform/debug_uart.c\<close>,
  the input ring of \<^verbatim>\<open>platform/kdb_uart.c\<close>, the memory device of \<^verbatim>\<open>platform/debug_ram.c\<close>, the device table of
  \<^verbatim>\<open>platform/debug_device.c\<close> and the command dispatcher of \<^verbatim>\<open>kernel/kdb.c\<close>. The registers of the serial port are the
  bytes written to its data register and the enable bits of its two interrupts.
\<close>

subsection \<open>The byte queue\<close>

record queue_t =
  q_data :: "u8 list"
  q_top :: u32
  q_end :: u32
  q_size :: u32

definition QUEUE_OK :: u32 where "QUEUE_OK = 0"
definition QUEUE_OVERFLOW :: u32 where "QUEUE_OVERFLOW = 1"
definition QUEUE_EMPTY :: u32 where "QUEUE_EMPTY = 2"

definition queue_length :: "queue_t \<Rightarrow> u32" where
  "queue_length q = (if q_end q \<ge> q_top q then q_end q - q_top q else q_size q + q_top q - q_end q)"

definition queue_init :: "u8 list \<Rightarrow> u32 \<Rightarrow> queue_t" where
  "queue_init addr n = \<lparr>q_data = addr, q_top = 0, q_end = 0, q_size = n\<rparr>"

definition queue_push :: "queue_t \<Rightarrow> u8 \<Rightarrow> (u32 \<times> queue_t) result" where
  "queue_push q element =
     (if queue_length q = q_size q then Ok (QUEUE_OVERFLOW, q)
      else
        let e = q_end q + 1;
            e = (if e = q_size q - 1 then 0 else e)
        in if unat e < length (q_data q) then Ok (QUEUE_OK, q\<lparr>q_end := e, q_data := (q_data q)[unat e := element]\<rparr>)
           else Fault (Out_of_bounds ''queue_push''))"

definition queue_is_empty :: "queue_t \<Rightarrow> bool" where
  "queue_is_empty q \<longleftrightarrow> queue_length q = 0"

text \<open>The third component is what \<^verbatim>\<open>*element\<close> holds afterwards.\<close>

definition queue_pop :: "queue_t \<Rightarrow> u8 \<Rightarrow> (u32 \<times> queue_t \<times> u8) result" where
  "queue_pop q element =
     (if queue_length q = 0 then Ok (QUEUE_EMPTY, q, element)
      else
        let t = q_top q + 1;
            t = (if t = q_size q - 1 then 0 else t)
        in if unat t < length (q_data q) then Ok (QUEUE_OK, q\<lparr>q_top := t\<rparr>, q_data q ! unat t)
           else Fault (Out_of_bounds ''queue_pop''))"

subsection \<open>The serial port\<close>

datatype dbg_mode = DBG_ASYNC | DBG_PANIC

record dbg_uart =
  u_tx :: queue_t
  u_rx :: queue_t
  u_ready :: bool
  u_state :: dbg_mode
  u_wire :: "u8 list"          \<comment> \<open>bytes written to the data register\<close>
  u_txe :: bool                \<comment> \<open>transmit interrupt enabled\<close>
  u_rxne :: bool               \<comment> \<open>receive interrupt enabled\<close>
  u_kdb :: bool                \<comment> \<open>\<^verbatim>\<open>KDB_SOFTIRQ\<close> scheduled\<close>

definition SEND_BUFSIZE :: u32 where "SEND_BUFSIZE = 2048"
definition RECV_BUFSIZE :: u32 where "RECV_BUFSIZE = 32"

definition usart_putc :: "u8 \<Rightarrow> dbg_uart \<Rightarrow> dbg_uart" where
  "usart_putc c u = u\<lparr>u_wire := u_wire u @ [c]\<rparr>"

definition dbg_uart_recv :: "u8 \<Rightarrow> dbg_uart \<Rightarrow> dbg_uart result" where
  "dbg_uart_recv chr u = rbind (queue_push (u_rx u) chr) (\<lambda>(rc, q). Ok (u\<lparr>u_rx := q, u_kdb := True\<rparr>))"

definition dbg_uart_send :: "bool \<Rightarrow> dbg_uart \<Rightarrow> dbg_uart result" where
  "dbg_uart_send avail u =
     (if avail then
        if \<not> queue_is_empty (u_tx u) then
          rbind (queue_pop (u_tx u) 0) (\<lambda>(rc, q, chr). Ok ((usart_putc chr (u\<lparr>u_tx := q\<rparr>))\<lparr>u_ready := False, u_txe := True\<rparr>))
        else Ok (u\<lparr>u_ready := True, u_txe := False\<rparr>)
      else Ok u)"

text \<open>The interrupt handler; \<open>rx\<close> is the received byte when the receive status bit is set.\<close>

definition uart_irq_handler :: "u8 option \<Rightarrow> dbg_uart \<Rightarrow> dbg_uart result" where
  "uart_irq_handler rx u =
     rbind (case rx of Some chr \<Rightarrow> dbg_uart_recv chr u | None \<Rightarrow> Ok u)
       (\<lambda>u. if u_txe u then dbg_uart_send True u else Ok u)"

text \<open>Waiting for room in the queue ends only when an interrupt makes room; within the call it does not end.\<close>

definition dbg_async_putchar :: "u8 \<Rightarrow> dbg_uart \<Rightarrow> dbg_uart result" where
  "dbg_async_putchar chr u =
     (if \<not> u_ready u then
        rbind (queue_push (u_tx u) chr)
          (\<lambda>(rc, q). if rc \<noteq> QUEUE_OK then Fault (Diverges ''dbg_async_putchar'') else Ok (u\<lparr>u_tx := q\<rparr>))
      else Ok ((usart_putc chr u)\<lparr>u_ready := False, u_txe := True\<rparr>))"

definition dbg_sync_putchar :: "u8 \<Rightarrow> dbg_uart \<Rightarrow> dbg_uart" where
  "dbg_sync_putchar chr u = usart_putc chr (if chr = 10 then usart_putc 13 u else u)"

definition dbg_uart_getchar :: "dbg_uart \<Rightarrow> (u8 \<times> dbg_uart) result" where
  "dbg_uart_getchar u =
     rbind (queue_pop (u_rx u) 0) (\<lambda>(rc, q, chr). Ok (if rc = QUEUE_EMPTY then 0 else chr, u\<lparr>u_rx := q\<rparr>))"

definition dbg_uart_putchar :: "u8 \<Rightarrow> dbg_uart \<Rightarrow> dbg_uart result" where
  "dbg_uart_putchar chr u = (if u_state u \<noteq> DBG_PANIC then dbg_async_putchar chr u else Ok (dbg_sync_putchar chr u))"

text \<open>The loop that empties the queue, with as many rounds as the queue has bytes.\<close>

fun flush_loop :: "nat \<Rightarrow> dbg_uart \<Rightarrow> dbg_uart result" where
  "flush_loop 0 u = Fault (Diverges ''dbg_uart_start_panic'')"
| "flush_loop (Suc n) u =
     rbind (queue_pop (u_tx u) 0)
       (\<lambda>(rc, q, chr). if rc \<noteq> QUEUE_EMPTY then flush_loop n (dbg_sync_putchar chr (u\<lparr>u_tx := q\<rparr>)) else Ok (u\<lparr>u_tx := q\<rparr>))"

definition dbg_uart_start_panic :: "dbg_uart \<Rightarrow> dbg_uart result" where
  "dbg_uart_start_panic u = rbind (flush_loop (unat (q_size (u_tx u))) u) (\<lambda>u. Ok (u\<lparr>u_state := DBG_PANIC\<rparr>))"

text \<open>\<open>qemu\<close> is the configuration \<^verbatim>\<open>CONFIG_QEMU\<close>; the buffers are static and zero.\<close>

definition dbg_uart_init :: "bool \<Rightarrow> dbg_uart" where
  "dbg_uart_init qemu =
     \<lparr>u_tx = queue_init (replicate 2048 0) SEND_BUFSIZE, u_rx = queue_init (replicate 32 0) RECV_BUFSIZE, u_ready = True,
      u_state = (if qemu then DBG_PANIC else DBG_ASYNC), u_wire = [], u_txe = False, u_rxne = True, u_kdb = False\<rparr>"

subsection \<open>Input for the kernel debugger beside another output device\<close>

record kdb_rx =
  kr_buf :: "u8 list"
  kr_head :: u8
  kr_tail :: u8
  kr_softirq :: bool

definition kdb_uart_input_init :: "u8 list \<Rightarrow> bool \<Rightarrow> kdb_rx" where
  "kdb_uart_input_init buf pending = \<lparr>kr_buf = buf, kr_head = 0, kr_tail = 0, kr_softirq = pending\<rparr>"

definition kdb_uart_irq_handler :: "u8 option \<Rightarrow> kdb_rx \<Rightarrow> kdb_rx" where
  "kdb_uart_irq_handler rx k = (case rx of
     None \<Rightarrow> k
   | Some chr \<Rightarrow>
       let nxt = of_nat ((unat (kr_head k) + 1) mod 16) :: u8;
           k = (if nxt \<noteq> kr_tail k then k\<lparr>kr_buf := (kr_buf k)[unat (kr_head k) := chr], kr_head := nxt\<rparr> else k)
       in k\<lparr>kr_softirq := True\<rparr>)"

definition kdb_uart_getchar :: "kdb_rx \<Rightarrow> u8 \<times> kdb_rx" where
  "kdb_uart_getchar k =
     (if kr_head k = kr_tail k then (0, k)
      else (kr_buf k ! unat (kr_tail k), k\<lparr>kr_tail := of_nat ((unat (kr_tail k) + 1) mod 16)\<rparr>))"

subsection \<open>The memory device\<close>

record dbg_buf =
  db_idx :: u32
  db_data :: "u8 list"

definition DBG_RAM_BUFSIZE :: u32 where "DBG_RAM_BUFSIZE = 0x2000"

definition dbg_ram_init :: dbg_buf where
  "dbg_ram_init = \<lparr>db_idx = 0, db_data = replicate (unat DBG_RAM_BUFSIZE) 0\<rparr>"

definition dbg_ram_putchar :: "u8 \<Rightarrow> dbg_buf \<Rightarrow> dbg_buf result" where
  "dbg_ram_putchar chr b =
     (if unat (db_idx b) < length (db_data b) then
        let idx = db_idx b + 1
        in Ok (b\<lparr>db_data := (db_data b)[unat (db_idx b) := chr], db_idx := (if idx = DBG_RAM_BUFSIZE then 0 else idx)\<rparr>)
      else Fault (Out_of_bounds ''dbg_ram_putchar''))"

subsection \<open>The queue as a list\<close>

text \<open>The indices run over all but the last cell of the buffer; the stored bytes follow \<open>q_top\<close>.\<close>

definition queue_ok :: "queue_t \<Rightarrow> bool" where
  "queue_ok q \<longleftrightarrow> 2 \<le> unat (q_size q) \<and> unat (q_size q) < 2 ^ 31 \<and> unat (q_size q) \<le> length (q_data q) \<and>
    unat (q_top q) < unat (q_size q) - 1 \<and> unat (q_end q) < unat (q_size q) - 1"

definition ring_index :: "nat \<Rightarrow> nat \<Rightarrow> nat" where
  "ring_index n j = (if j < n then j else j - n)"

definition ring_count :: "nat \<Rightarrow> nat \<Rightarrow> nat \<Rightarrow> nat" where
  "ring_count n t e = (if t \<le> e then e - t else e + n - t)"

definition queue_list :: "queue_t \<Rightarrow> u8 list" where
  "queue_list q = (let n = unat (q_size q) - 1; t = unat (q_top q)
     in map (\<lambda>i. q_data q ! ring_index n (t + 1 + i)) [0..<ring_count n t (unat (q_end q))])"

definition ring_next :: "nat \<Rightarrow> nat \<Rightarrow> nat" where
  "ring_next n j = (if j + 1 = n then 0 else j + 1)"

lemma queue_list_eq:
  "unat (q_size q) - 1 = n \<Longrightarrow> unat (q_top q) = t \<Longrightarrow> unat (q_end q) = e \<Longrightarrow>
   queue_list q = map (\<lambda>i. q_data q ! ring_index n (t + 1 + i)) [0..<ring_count n t e]"
  by (auto simp: queue_list_def)

lemma length_queue_list: "length (queue_list q) = ring_count (unat (q_size q) - 1) (unat (q_top q)) (unat (q_end q))"
  by (simp add: queue_list_def Let_def)

lemma queue_list_bound: "queue_ok q \<Longrightarrow> length (queue_list q) < unat (q_size q) - 1"
  by (auto simp: length_queue_list ring_count_def queue_ok_def)

lemma advance_word:
  assumes "unat (w :: u32) < unat n - 1"
  shows "unat (if w + 1 = n - 1 then 0 else w + 1) = ring_next (unat n - 1) (unat w)"
proof -
  have "unat n < 2 ^ 32" by (rule u32_unat_bound)
  then have w: "unat (w + 1) = unat w + 1" using assms by (simp add: unat_word_ariths)
  have n: "unat (n - 1) = unat n - 1" using assms by (subst unat_sub) (auto simp: word_le_nat_alt)
  have "w + 1 = n - 1 \<longleftrightarrow> unat w + 1 = unat n - 1" unfolding word_unat_eq_iff w n ..
  then show ?thesis by (simp add: ring_next_def w)
qed

lemma queue_length_tests:
  assumes "queue_ok q"
  shows "queue_length q = 0 \<longleftrightarrow> queue_list q = []" "queue_length q \<noteq> q_size q"
proof -
  have b: "unat (q_end q) < unat (q_size q) - 1" "unat (q_top q) < unat (q_size q) - 1" "unat (q_size q) < 2 ^ 31"
    using assms by (auto simp: queue_ok_def)
  have l: "unat (queue_length q) =
      (if unat (q_top q) \<le> unat (q_end q) then unat (q_end q) - unat (q_top q) else unat (q_size q) + unat (q_top q) - unat (q_end q))"
  proof (cases "q_top q \<le> q_end q")
    case True
    then show ?thesis by (auto simp: queue_length_def unat_sub word_le_nat_alt)
  next
    case False
    have "unat (q_size q + q_top q) = unat (q_size q) + unat (q_top q)" using b by (simp add: unat_word_ariths)
    moreover from this have "q_end q \<le> q_size q + q_top q" using b by (simp add: word_le_nat_alt)
    ultimately show ?thesis using False by (auto simp: queue_length_def unat_sub word_le_nat_alt)
  qed
  show "queue_length q = 0 \<longleftrightarrow> queue_list q = []"
    unfolding length_0_conv [symmetric] length_queue_list ring_count_def word_unat_eq_iff l using b by auto
  show "queue_length q \<noteq> q_size q" unfolding word_unat_eq_iff l using b by auto
qed

lemma queue_init_list: "queue_list (queue_init addr n) = []" "2 \<le> unat n \<Longrightarrow> unat n \<le> length addr \<Longrightarrow> unat n < 2 ^ 31 \<Longrightarrow> queue_ok (queue_init addr n)"
  by (simp_all add: queue_list_def queue_init_def queue_ok_def ring_count_def Let_def)

text \<open>A push appends while less than two cells are left unused; the push that would use the last one makes the queue look empty
  instead. An overflow is never reported.\<close>

lemma queue_push_spec:
  assumes ok: "queue_ok q"
  shows "\<exists>q'. queue_push q c = Ok (QUEUE_OK, q') \<and> queue_ok q' \<and> q_size q' = q_size q \<and>
    queue_list q' = (if length (queue_list q) < unat (q_size q) - 2 then queue_list q @ [c] else [])"
proof -
  define n t e where d: "n = unat (q_size q) - 1" "t = unat (q_top q)" "e = unat (q_end q)"
  have b: "t < n" "e < n" "n < length (q_data q)" "0 < n" using ok by (auto simp: queue_ok_def d)
  define e' where "e' = (if q_end q + 1 = q_size q - 1 then 0 else q_end q + 1)"
  have e': "unat e' = ring_next n e" unfolding e'_def d by (rule advance_word) (use ok in \<open>simp add: queue_ok_def\<close>)
  have l: "unat e' < n" using b e' by (auto simp: ring_next_def)
  let ?q = "q\<lparr>q_end := e', q_data := (q_data q)[unat e' := c]\<rparr>"
  have "queue_push q c = Ok (QUEUE_OK, ?q)"
    unfolding queue_push_def Let_def e'_def [symmetric] using queue_length_tests(2) [OF ok] l b by simp
  moreover have "queue_ok ?q" using ok l by (simp add: queue_ok_def d)
  moreover have "queue_list ?q = (if length (queue_list q) < n - 1 then queue_list q @ [c] else [])"
  proof (cases "ring_count n t e < n - 1")
    case True
    have k: "ring_count n t (unat e') = Suc (ring_count n t e)" "ring_index n (t + 1 + ring_count n t e) = unat e'"
      using True b e' by (auto simp: ring_count_def ring_next_def ring_index_def split: if_splits)
    have "unat e' \<noteq> ring_index n (t + 1 + i)" if "i < ring_count n t e" for i
      using that True b e' by (auto simp: ring_count_def ring_next_def ring_index_def split: if_splits)
    then have "map (\<lambda>i. (q_data q)[unat e' := c] ! ring_index n (t + 1 + i)) [0..<ring_count n t e] = queue_list q"
      unfolding queue_list_eq [of q n t e, OF d [symmetric]] by (intro map_cong) (auto simp: nth_list_update_neq)
    moreover have "queue_list ?q = map (\<lambda>i. (q_data q)[unat e' := c] ! ring_index n (t + 1 + i)) [0..<ring_count n t (unat e')]"
      by (subst queue_list_eq [of ?q n t]) (simp_all add: d)
    moreover have "(q_data q)[unat e' := c] ! ring_index n (t + 1 + ring_count n t e) = c" unfolding k(2) using l b by simp
    ultimately have "queue_list ?q = queue_list q @ [c]" unfolding k(1) by simp
    then show ?thesis using True length_queue_list [of q] unfolding d by simp
  next
    case False
    then have "ring_count n t (unat e') = 0" using b e' by (auto simp: ring_count_def ring_next_def split: if_splits)
    then have "queue_list ?q = []" using queue_list_eq [of ?q n t "unat e'"] by (simp add: d)
    then show ?thesis using False length_queue_list [of q] unfolding d by simp
  qed
  ultimately show ?thesis by (auto simp: d numeral_2_eq_2)
qed

lemma queue_pop_spec:
  assumes ok: "queue_ok q"
  shows "queue_list q = [] \<Longrightarrow> queue_pop q c = Ok (QUEUE_EMPTY, q, c)"
    "queue_list q = x # xs \<Longrightarrow> \<exists>q'. queue_pop q c = Ok (QUEUE_OK, q', x) \<and> queue_ok q' \<and> q_size q' = q_size q \<and> queue_list q' = xs"
proof -
  show "queue_list q = [] \<Longrightarrow> queue_pop q c = Ok (QUEUE_EMPTY, q, c)"
    using queue_length_tests(1) [OF ok] by (simp add: queue_pop_def)
  assume x: "queue_list q = x # xs"
  define n t e where d: "n = unat (q_size q) - 1" "t = unat (q_top q)" "e = unat (q_end q)"
  have b: "t < n" "e < n" "n < length (q_data q)" "0 < n" using ok by (auto simp: queue_ok_def d)
  define t' where "t' = (if q_top q + 1 = q_size q - 1 then 0 else q_top q + 1)"
  have t': "unat t' = ring_next n t" unfolding t'_def d by (rule advance_word) (use ok in \<open>simp add: queue_ok_def\<close>)
  have l: "unat t' < n" using b t' by (auto simp: ring_next_def)
  have k: "0 < ring_count n t e" using x length_queue_list [of q] by (simp add: d)
  have q: "queue_list q = map (\<lambda>i. q_data q ! ring_index n (t + 1 + i)) [0..<ring_count n t e]" by (simp add: queue_list_def d Let_def)
  then have "queue_list q ! 0 = q_data q ! ring_index n (t + 1)" using k by simp
  moreover have "ring_index n (t + 1) = unat t'" using b t' by (auto simp: ring_index_def ring_next_def)
  ultimately have h: "x = q_data q ! unat t'" using x by simp
  have "queue_list (q\<lparr>q_top := t'\<rparr>) = xs"
  proof -
    have c: "ring_count n (unat t') e = ring_count n t e - 1"
      using k b t' by (auto simp: ring_count_def ring_next_def split: if_splits)
    have i: "ring_index n (unat t' + 1 + i) = ring_index n (t + 1 + Suc i)" if "i < ring_count n t e - 1" for i
      using that b t' by (auto simp: ring_count_def ring_next_def ring_index_def split: if_splits)
    have "xs = tl (queue_list q)" using x by simp
    also have "\<dots> = map (\<lambda>i. q_data q ! ring_index n (t + 1 + Suc i)) [0..<ring_count n t e - 1]"
      unfolding q map_tl [symmetric] by (rule nth_equalityI) (use k in \<open>auto simp: nth_tl\<close>)
    also have "\<dots> = map (\<lambda>i. q_data q ! ring_index n (unat t' + 1 + i)) [0..<ring_count n (unat t') e]"
      unfolding c by (rule map_cong [OF refl]) (simp only: i [symmetric] set_upt atLeastLessThan_iff)
    also have "\<dots> = queue_list (q\<lparr>q_top := t'\<rparr>)" by (subst queue_list_eq [of _ n "unat t'" e]) (simp_all add: d)
    finally show ?thesis ..
  qed
  moreover have "queue_pop q c = Ok (QUEUE_OK, q\<lparr>q_top := t'\<rparr>, x)"
    unfolding queue_pop_def Let_def t'_def [symmetric] using queue_length_tests(1) [OF ok] x l b h by simp
  ultimately show "\<exists>q'. queue_pop q c = Ok (QUEUE_OK, q', x) \<and> queue_ok q' \<and> q_size q' = q_size q \<and> queue_list q' = xs"
    using ok l by (intro exI [of _ "q\<lparr>q_top := t'\<rparr>"]) (simp add: queue_ok_def d)
qed

subsection \<open>Output leaves in the order it was written\<close>

text \<open>What happens on the console: output, interrupts, input taken by the kernel and the switch to panic mode.\<close>

datatype uart_event = Put u8 | Irq "u8 option" | Get | Panic_start

fun uart_step :: "uart_event \<Rightarrow> dbg_uart \<Rightarrow> dbg_uart result" where
  "uart_step (Put c) u = dbg_uart_putchar c u"
| "uart_step (Irq rx) u = uart_irq_handler rx u"
| "uart_step Get u = rbind (dbg_uart_getchar u) (\<lambda>(c, u). Ok u)"
| "uart_step Panic_start u = dbg_uart_start_panic u"

text \<open>The specification: the bytes sent, the bytes waiting, and whether the port is idle. A byte is sent at once on an idle port and
  waits otherwise; in panic mode it is sent at once with a carriage return before a newline.\<close>

record console =
  c_sent :: "u8 list"
  c_wait :: "u8 list"
  c_idle :: bool
  c_panic :: bool

definition crlf :: "u8 \<Rightarrow> u8 list" where
  "crlf c = (if c = 10 then [13, 10] else [c])"

fun console_step :: "uart_event \<Rightarrow> console \<Rightarrow> console" where
  "console_step (Put c) s =
     (if c_panic s then s\<lparr>c_sent := c_sent s @ crlf c\<rparr>
      else if c_idle s then s\<lparr>c_sent := c_sent s @ [c], c_idle := False\<rparr>
      else s\<lparr>c_wait := c_wait s @ [c]\<rparr>)"
| "console_step (Irq rx) s =
     (if c_idle s then s
      else case c_wait s of [] \<Rightarrow> s\<lparr>c_idle := True\<rparr> | c # cs \<Rightarrow> s\<lparr>c_sent := c_sent s @ [c], c_wait := cs\<rparr>)"
| "console_step Get s = s"
| "console_step Panic_start s = s\<lparr>c_sent := c_sent s @ concat (map crlf (c_wait s)), c_wait := [], c_panic := True\<rparr>"

definition console_of :: "dbg_uart \<Rightarrow> console" where
  "console_of u = \<lparr>c_sent = u_wire u, c_wait = queue_list (u_tx u), c_idle = u_ready u, c_panic = (u_state u = DBG_PANIC)\<rparr>"

text \<open>Whenever the port is busy its interrupt is enabled, and an idle port has nothing waiting.\<close>

definition uart_ok :: "dbg_uart \<Rightarrow> bool" where
  "uart_ok u \<longleftrightarrow> queue_ok (u_tx u) \<and> queue_ok (u_rx u) \<and> q_size (u_tx u) = SEND_BUFSIZE \<and> q_size (u_rx u) = RECV_BUFSIZE \<and>
    (u_txe u \<longleftrightarrow> \<not> u_ready u) \<and> (u_ready u \<longrightarrow> queue_list (u_tx u) = [])"

definition console_fits :: "uart_event \<Rightarrow> console \<Rightarrow> bool" where
  "console_fits ev s \<longleftrightarrow> (case ev of Put c \<Rightarrow> length (c_wait s) < 2046 | _ \<Rightarrow> True)"

lemma flush_spec:
  "queue_ok (u_tx u) \<Longrightarrow> length (queue_list (u_tx u)) < n \<Longrightarrow>
   \<exists>q. flush_loop n u = Ok (u\<lparr>u_tx := q, u_wire := u_wire u @ concat (map crlf (queue_list (u_tx u)))\<rparr>) \<and>
     queue_ok q \<and> q_size q = q_size (u_tx u) \<and> queue_list q = []"
proof (induction n arbitrary: u)
  case (Suc n)
  show ?case
  proof (cases "queue_list (u_tx u)")
    case Nil
    then show ?thesis using queue_pop_spec(1) [OF Suc.prems(1) Nil] Suc.prems
      by (intro exI [of _ "u_tx u"]) (simp add: QUEUE_EMPTY_def)
  next
    case (Cons x xs)
    from queue_pop_spec(2) [OF Suc.prems(1) Cons, of 0] obtain q where
      q: "queue_pop (u_tx u) 0 = Ok (QUEUE_OK, q, x)" "queue_ok q" "q_size q = q_size (u_tx u)" "queue_list q = xs" by auto
    let ?u = "dbg_sync_putchar x (u\<lparr>u_tx := q\<rparr>)"
    have u: "?u = u\<lparr>u_tx := q, u_wire := u_wire u @ crlf x\<rparr>" by (simp add: dbg_sync_putchar_def usart_putc_def crlf_def)
    have "queue_ok (u_tx ?u)" "length (queue_list (u_tx ?u)) < n" using q Cons Suc.prems(2) by (simp_all add: u)
    from Suc.IH [OF this] obtain q' where q': "flush_loop n ?u = Ok (?u\<lparr>u_tx := q', u_wire := u_wire ?u @ concat (map crlf (queue_list (u_tx ?u)))\<rparr>)"
      "queue_ok q'" "q_size q' = q_size (u_tx ?u)" "queue_list q' = []" by blast
    have "flush_loop (Suc n) u = flush_loop n ?u" using q(1) by (simp add: QUEUE_OK_def QUEUE_EMPTY_def)
    then show ?thesis unfolding q'(1) using q'(2-) q Cons by (intro exI [of _ q']) (simp add: u)
  qed
qed simp

lemma recv_keeps:
  assumes "uart_ok u"
  shows "\<exists>q b. (case rx of Some chr \<Rightarrow> dbg_uart_recv chr u | None \<Rightarrow> Ok u) = Ok (u\<lparr>u_rx := q, u_kdb := b\<rparr>) \<and> queue_ok q \<and> q_size q = RECV_BUFSIZE"
proof (cases rx)
  case None
  then show ?thesis using assms by (intro exI [of _ "u_rx u"] exI [of _ "u_kdb u"]) (simp add: uart_ok_def)
next
  case (Some c)
  then obtain q where "queue_push (u_rx u) c = Ok (QUEUE_OK, q)" "queue_ok q" "q_size q = RECV_BUFSIZE"
    using assms queue_push_spec [of "u_rx u" c] by (auto simp: uart_ok_def)
  then show ?thesis using Some by (intro exI [of _ q] exI [of _ True]) (simp add: dbg_uart_recv_def)
qed

lemma uart_step_refines:
  assumes ok: "uart_ok u" and fits: "console_fits ev (console_of u)"
  shows "\<exists>u'. uart_step ev u = Ok u' \<and> uart_ok u' \<and> console_of u' = console_step ev (console_of u)"
proof (cases ev)
  case (Put c)
  have b: "unat SEND_BUFSIZE = 2048" by (simp add: SEND_BUFSIZE_def)
  show ?thesis
  proof (cases "u_state u = DBG_PANIC \<or> u_ready u")
    case True
    then show ?thesis using ok Put
      by (auto simp: uart_ok_def console_of_def dbg_uart_putchar_def dbg_sync_putchar_def usart_putc_def dbg_async_putchar_def crlf_def)
  next
    case False
    then obtain q where "queue_push (u_tx u) c = Ok (QUEUE_OK, q)" "queue_ok q" "q_size q = SEND_BUFSIZE" "queue_list q = queue_list (u_tx u) @ [c]"
      using queue_push_spec [of "u_tx u" c] ok fits b Put by (auto simp: uart_ok_def console_fits_def console_of_def)
    then show ?thesis using False ok Put by (auto simp: uart_ok_def console_of_def dbg_uart_putchar_def dbg_async_putchar_def)
  qed
next
  case (Irq rx)
  obtain q b where r: "(case rx of Some chr \<Rightarrow> dbg_uart_recv chr u | None \<Rightarrow> Ok u) = Ok (u\<lparr>u_rx := q, u_kdb := b\<rparr>)"
    "queue_ok q" "q_size q = RECV_BUFSIZE" using recv_keeps [OF ok] by blast
  have tx: "queue_ok (u_tx u)" using ok by (simp add: uart_ok_def)
  show ?thesis
  proof (cases "queue_list (u_tx u)")
    case Nil
    then show ?thesis using ok Irq r queue_length_tests(1) [OF tx]
      by (auto simp: uart_ok_def console_of_def uart_irq_handler_def dbg_uart_send_def queue_is_empty_def)
  next
    case (Cons x xs)
    then show ?thesis using ok Irq r queue_length_tests(1) [OF tx] queue_pop_spec(2) [OF tx Cons, of 0]
      by (auto simp: uart_ok_def console_of_def uart_irq_handler_def dbg_uart_send_def queue_is_empty_def usart_putc_def)
  qed
next
  case Get
  have rx: "queue_ok (u_rx u)" using ok by (simp add: uart_ok_def)
  show ?thesis
  proof (cases "queue_list (u_rx u)")
    case Nil
    then show ?thesis using ok Get queue_pop_spec(1) [OF rx Nil] by (auto simp: uart_ok_def console_of_def dbg_uart_getchar_def)
  next
    case (Cons x xs)
    then show ?thesis using ok Get queue_pop_spec(2) [OF rx Cons, of 0] by (auto simp: uart_ok_def console_of_def dbg_uart_getchar_def)
  qed
next
  case Panic_start
  have tx: "queue_ok (u_tx u)" "length (queue_list (u_tx u)) < unat (q_size (u_tx u))"
    using ok queue_list_bound [of "u_tx u"] by (simp_all add: uart_ok_def)
  show ?thesis using flush_spec [OF tx] ok Panic_start by (auto simp: uart_ok_def console_of_def dbg_uart_start_panic_def)
qed

fun console_fits_run :: "uart_event list \<Rightarrow> console \<Rightarrow> bool" where
  "console_fits_run [] s \<longleftrightarrow> True"
| "console_fits_run (ev # evs) s \<longleftrightarrow> console_fits ev s \<and> console_fits_run evs (console_step ev s)"

fun written :: "uart_event list \<Rightarrow> u8 list" where
  "written [] = []"
| "written (Put c # evs) = c # written evs"
| "written (_ # evs) = written evs"

lemma uart_run_refines:
  "uart_ok u \<Longrightarrow> console_fits_run evs (console_of u) \<Longrightarrow>
   \<exists>u'. rfold uart_step evs u = Ok u' \<and> uart_ok u' \<and> console_of u' = fold console_step evs (console_of u)"
proof (induction evs arbitrary: u)
  case (Cons ev evs)
  then obtain u1 where "uart_step ev u = Ok u1" "uart_ok u1" "console_of u1 = console_step ev (console_of u)"
    using uart_step_refines [of u ev] by auto
  then show ?case using Cons.IH [of u1] Cons.prems by simp
qed simp

lemma console_order:
  "Panic_start \<notin> set evs \<Longrightarrow> \<not> c_panic s \<Longrightarrow> c_idle s \<longrightarrow> c_wait s = [] \<Longrightarrow>
   (let s' = fold console_step evs s in c_sent s' @ c_wait s' = c_sent s @ c_wait s @ written evs \<and> \<not> c_panic s')"
proof (induction evs arbitrary: s)
  case (Cons ev evs)
  let ?s = "console_step ev s"
  have "\<not> c_panic ?s" "c_idle ?s \<longrightarrow> c_wait ?s = []" "c_sent ?s @ c_wait ?s = c_sent s @ c_wait s @ written [ev]"
    using Cons.prems by (cases ev; auto split: list.splits)+
  moreover have "written (ev # evs) = written [ev] @ written evs" by (cases ev) auto
  ultimately show ?case using Cons.IH [of ?s] Cons.prems by (simp add: Let_def)
qed simp

lemma console_drain:
  "\<not> c_idle s \<Longrightarrow> length (c_wait s) = n \<Longrightarrow>
   fold console_step (replicate n (Irq None)) s = s\<lparr>c_sent := c_sent s @ c_wait s, c_wait := []\<rparr>"
proof (induction n arbitrary: s)
  case (Suc n)
  then obtain c cs where "c_wait s = c # cs" by (cases "c_wait s") auto
  then show ?case using Suc.IH [of "s\<lparr>c_sent := c_sent s @ [c], c_wait := cs\<rparr>"] Suc.prems by simp
qed simp

lemma fits_irqs: "console_fits_run (replicate n (Irq rx)) s"
  by (induction n arbitrary: s) (auto simp: console_fits_def)

lemma uart_init_ok: "uart_ok (dbg_uart_init qemu)"
  by (simp add: uart_ok_def dbg_uart_init_def queue_init_list SEND_BUFSIZE_def RECV_BUFSIZE_def) (simp add: queue_init_def)

lemma console_of_sel:
  "c_sent (console_of u) = u_wire u" "c_wait (console_of u) = queue_list (u_tx u)" "c_idle (console_of u) = u_ready u"
  "c_panic (console_of u) \<longleftrightarrow> u_state u = DBG_PANIC"
  by (simp_all add: console_of_def)

lemma console_init: "console_of (dbg_uart_init False) = \<lparr>c_sent = [], c_wait = [], c_idle = True, c_panic = False\<rparr>"
  by (simp add: console_of_def dbg_uart_init_def queue_init_list)



text \<open>With 2046 bytes waiting, the next one makes the queue look empty: no overflow is reported and all of them are lost.\<close>

theorem uart_backlog_lost:
  assumes "uart_ok u" and "\<not> u_ready u" and "u_state u = DBG_ASYNC" and "length (queue_list (u_tx u)) = 2046"
  shows "\<exists>u'. dbg_uart_putchar c u = Ok u' \<and> queue_list (u_tx u') = [] \<and> u_wire u' = u_wire u"
  using assms queue_push_spec [of "u_tx u" c]
  by (auto simp: uart_ok_def dbg_uart_putchar_def dbg_async_putchar_def SEND_BUFSIZE_def)

lemma fill_console:
  "\<not> c_idle s \<Longrightarrow> \<not> c_panic s \<Longrightarrow> length (c_wait s) + n \<le> 2046 \<Longrightarrow>
   console_fits_run (replicate n (Put c)) s \<and> fold console_step (replicate n (Put c)) s = s\<lparr>c_wait := c_wait s @ replicate n c\<rparr>"
proof (induction n arbitrary: s)
  case (Suc n)
  then show ?case using Suc.IH [of "s\<lparr>c_wait := c_wait s @ [c]\<rparr>"] by (simp add: console_fits_def)
qed simp

theorem uart_backlog_lost_witness:
  "\<exists>u u'. rfold uart_step (replicate 2047 (Put 65)) (dbg_uart_init False) = Ok u \<and> length (queue_list (u_tx u)) = 2046 \<and>
    dbg_uart_putchar 66 u = Ok u' \<and> queue_list (u_tx u') = [] \<and> u_wire u' = [65]"
proof -
  let ?s = "\<lparr>c_sent = [65], c_wait = [], c_idle = False, c_panic = False\<rparr>" and ?evs = "Put 65 # replicate 2046 (Put 65)"
  have f: "console_fits_run (replicate 2046 (Put 65)) ?s"
    "fold console_step (replicate 2046 (Put 65)) ?s = ?s\<lparr>c_wait := replicate 2046 65\<rparr>"
    using fill_console [of ?s 2046 65] by simp_all
  have "console_fits_run ?evs (console_of (dbg_uart_init False))" using f(1) by (simp add: console_init console_fits_def)
  from uart_run_refines [OF uart_init_ok this] obtain u where
    u: "rfold uart_step ?evs (dbg_uart_init False) = Ok u" "uart_ok u" "console_of u = ?s\<lparr>c_wait := replicate 2046 65\<rparr>"
    using f(2) by (auto simp: console_init)
  have s: "\<not> u_ready u" "u_state u = DBG_ASYNC" "queue_list (u_tx u) = replicate 2046 65" "u_wire u = [65]"
    using u(3) by (cases "u_state u"; simp add: console_of_def)+
  have "replicate 2047 (Put 65) = ?evs" using replicate_Suc [of 2046 "Put 65"] by simp
  then show ?thesis using u(1) uart_backlog_lost [OF u(2) s(1,2), of 66] s by auto
qed

subsection \<open>Input arrives in the order it was received\<close>

fun reads :: "('s \<Rightarrow> (u8 \<times> 's) result) \<Rightarrow> nat \<Rightarrow> 's \<Rightarrow> (u8 list \<times> 's) result" where
  "reads get 0 s = Ok ([], s)"
| "reads get (Suc n) s = rbind (get s) (\<lambda>(c, s). rbind (reads get n s) (\<lambda>(cs, s). Ok (c # cs, s)))"

text \<open>The contract of a byte buffer between an interrupt handler and its reader. While there is room, a byte put in comes out after those
  before it.\<close>

locale byte_fifo =
  fixes ok :: "'s \<Rightarrow> bool" and contents :: "'s \<Rightarrow> u8 list" and capacity :: nat
    and put :: "u8 \<Rightarrow> 's \<Rightarrow> 's result" and take_out :: "'s \<Rightarrow> (u8 \<times> 's) result"
  assumes put: "ok s \<Longrightarrow> length (contents s) < capacity \<Longrightarrow> \<exists>s'. put c s = Ok s' \<and> ok s' \<and> contents s' = contents s @ [c]"
    and take_out: "ok s \<Longrightarrow> contents s = c # cs \<Longrightarrow> \<exists>s'. take_out s = Ok (c, s') \<and> ok s' \<and> contents s' = cs"
    and take_none: "ok s \<Longrightarrow> contents s = [] \<Longrightarrow> \<exists>s'. take_out s = Ok (0, s') \<and> ok s' \<and> contents s' = []"
begin

lemma puts_append:
  "ok s \<Longrightarrow> length (contents s) + length cs \<le> capacity \<Longrightarrow> \<exists>s'. rfold put cs s = Ok s' \<and> ok s' \<and> contents s' = contents s @ cs"
proof (induction cs arbitrary: s)
  case (Cons c cs)
  then obtain s1 where "put c s = Ok s1" "ok s1" "contents s1 = contents s @ [c]" using put [of s c] by auto
  then show ?case using Cons.IH [of s1] Cons.prems by simp
qed simp

lemma reads_all:
  "ok s \<Longrightarrow> \<exists>s'. reads take_out (length (contents s)) s = Ok (contents s, s') \<and> ok s' \<and> contents s' = []"
proof (induction "contents s" arbitrary: s)
  case Nil
  then show ?case by (auto simp: Nil.hyps [symmetric])
next
  case (Cons c cs)
  then obtain s1 where "take_out s = Ok (c, s1)" "ok s1" "contents s1 = cs" using take_out [of s c cs] by auto
  then show ?case using Cons.hyps(1) [of s1] by (auto simp: Cons.hyps(2) [symmetric])
qed

lemma puts_then_reads:
  assumes "ok s" and "contents s = []" and "length cs \<le> capacity"
  shows "\<exists>s1 s2. rfold put cs s = Ok s1 \<and> reads take_out (length cs) s1 = Ok (cs, s2) \<and> ok s2 \<and> contents s2 = []"
proof -
  obtain s1 where "rfold put cs s = Ok s1" "ok s1" "contents s1 = cs" using puts_append [of s cs] assms by auto
  then show ?thesis using reads_all [of s1] by auto
qed

end

text \<open>The receive queue of the serial port.\<close>

interpretation uart_rx: byte_fifo uart_ok "\<lambda>u. queue_list (u_rx u)" 30 dbg_uart_recv dbg_uart_getchar
proof
  fix u c assume "uart_ok u" "length (queue_list (u_rx u)) < 30"
  then show "\<exists>u'. dbg_uart_recv c u = Ok u' \<and> uart_ok u' \<and> queue_list (u_rx u') = queue_list (u_rx u) @ [c]"
    using queue_push_spec [of "u_rx u" c] by (auto simp: uart_ok_def dbg_uart_recv_def RECV_BUFSIZE_def)
next
  fix u c cs assume "uart_ok u" "queue_list (u_rx u) = c # cs"
  then show "\<exists>u'. dbg_uart_getchar u = Ok (c, u') \<and> uart_ok u' \<and> queue_list (u_rx u') = cs"
    using queue_pop_spec(2) [of "u_rx u" c cs 0] by (auto simp: uart_ok_def dbg_uart_getchar_def QUEUE_OK_def QUEUE_EMPTY_def)
next
  fix u assume "uart_ok u" "queue_list (u_rx u) = []"
  then show "\<exists>u'. dbg_uart_getchar u = Ok (0, u') \<and> uart_ok u' \<and> queue_list (u_rx u') = []"
    using queue_pop_spec(1) [of "u_rx u" 0] by (auto simp: uart_ok_def dbg_uart_getchar_def)
qed

text \<open>The input ring of the debugger.\<close>

definition kdb_rx_ok :: "kdb_rx \<Rightarrow> bool" where
  "kdb_rx_ok k \<longleftrightarrow> length (kr_buf k) = 16 \<and> unat (kr_head k) < 16 \<and> unat (kr_tail k) < 16"

definition kdb_rx_list :: "kdb_rx \<Rightarrow> u8 list" where
  "kdb_rx_list k = (let t = unat (kr_tail k) in map (\<lambda>i. kr_buf k ! ring_index 16 (t + i)) [0..<ring_count 16 t (unat (kr_head k))])"

lemma kdb_next: "unat (w :: u8) < 16 \<Longrightarrow> unat (of_nat ((unat w + 1) mod 16) :: u8) = ring_next 16 (unat w)"
proof -
  assume w: "unat w < 16"
  then have e: "(unat w + 1) mod 16 = ring_next 16 (unat w)" by (cases "unat w = 15") (simp_all add: ring_next_def)
  have "ring_next 16 (unat w) < 2 ^ 8" using w by (simp add: ring_next_def)
  then show ?thesis unfolding e unsigned_of_nat of_nat_id by (simp add: take_bit_nat_eq_self)
qed

lemma kdb_rx_put:
  assumes ok: "kdb_rx_ok k" and room: "length (kdb_rx_list k) < 15"
  shows "kdb_rx_ok (kdb_uart_irq_handler (Some c) k) \<and> kdb_rx_list (kdb_uart_irq_handler (Some c) k) = kdb_rx_list k @ [c]"
proof -
  define h t where d: "h = unat (kr_head k)" "t = unat (kr_tail k)"
  define n :: u8 where "n = of_nat ((h + 1) mod 16)"
  have b: "h < 16" "t < 16" "length (kr_buf k) = 16" using ok by (simp_all add: kdb_rx_ok_def d)
  have n: "unat n = ring_next 16 h" unfolding n_def d by (rule kdb_next) (use b d in simp)
  have r: "ring_count 16 t h < 15" using room by (simp add: kdb_rx_list_def Let_def d)
  have "n \<noteq> kr_tail k" using r b n by (auto simp: word_unat_eq_iff d [symmetric] ring_next_def ring_count_def split: if_splits)
  then have e: "kdb_uart_irq_handler (Some c) k = k\<lparr>kr_buf := (kr_buf k)[h := c], kr_head := n, kr_softirq := True\<rparr>"
    by (simp add: kdb_uart_irq_handler_def Let_def n_def d)
  have k: "ring_count 16 t (unat n) = Suc (ring_count 16 t h)" "ring_index 16 (t + ring_count 16 t h) = h"
    using r b n by (auto simp: ring_count_def ring_next_def ring_index_def split: if_splits)
  have o: "h \<noteq> ring_index 16 (t + i)" if "i < ring_count 16 t h" for i
    using that r b by (auto simp: ring_count_def ring_index_def split: if_splits)
  have "map (\<lambda>i. (kr_buf k)[h := c] ! ring_index 16 (t + i)) [0..<ring_count 16 t h] = kdb_rx_list k"
    unfolding kdb_rx_list_def Let_def d [symmetric] using o by (intro map_cong) (auto simp: nth_list_update_neq)
  then have "kdb_rx_list (kdb_uart_irq_handler (Some c) k) = kdb_rx_list k @ [c]"
    using k b by (simp add: e kdb_rx_list_def [of "_\<lparr>kr_softirq := _\<rparr>"] Let_def d [symmetric])
  moreover have "unat n < 16" using n b by (auto simp: ring_next_def)
  ultimately show ?thesis using b by (simp add: e kdb_rx_ok_def d [symmetric])
qed

lemma kdb_rx_get:
  assumes ok: "kdb_rx_ok k" and x: "kdb_rx_list k = x # xs"
  shows "\<exists>k'. kdb_uart_getchar k = (x, k') \<and> kdb_rx_ok k' \<and> kdb_rx_list k' = xs"
proof -
  define h t where d: "h = unat (kr_head k)" "t = unat (kr_tail k)"
  define n :: u8 where "n = of_nat ((t + 1) mod 16)"
  have b: "h < 16" "t < 16" "length (kr_buf k) = 16" using ok by (simp_all add: kdb_rx_ok_def d)
  have n: "unat n = ring_next 16 t" unfolding n_def d by (rule kdb_next) (use b d in simp)
  have q: "kdb_rx_list k = map (\<lambda>i. kr_buf k ! ring_index 16 (t + i)) [0..<ring_count 16 t h]" by (simp add: kdb_rx_list_def Let_def d)
  have p: "0 < ring_count 16 t h" using x q by (cases "ring_count 16 t h") auto
  have "kdb_rx_list k ! 0 = kr_buf k ! t" unfolding q using p b by (simp add: ring_index_def)
  then have hd: "x = kr_buf k ! t" using x by simp
  have "kr_head k \<noteq> kr_tail k" using p by (auto simp: ring_count_def d)
  then have "kdb_uart_getchar k = (x, k\<lparr>kr_tail := n\<rparr>)" by (simp add: kdb_uart_getchar_def hd n_def d)
  moreover have "kdb_rx_list (k\<lparr>kr_tail := n\<rparr>) = xs"
  proof -
    have c: "ring_count 16 (unat n) h = ring_count 16 t h - 1" using p b n by (auto simp: ring_count_def ring_next_def split: if_splits)
    have i: "ring_index 16 (unat n + i) = ring_index 16 (t + Suc i)" if "i < ring_count 16 t h - 1" for i
      using that b n by (auto simp: ring_count_def ring_next_def ring_index_def split: if_splits)
    have "xs = tl (kdb_rx_list k)" using x by simp
    also have "\<dots> = map (\<lambda>i. kr_buf k ! ring_index 16 (t + Suc i)) [0..<ring_count 16 t h - 1]"
      unfolding q map_tl [symmetric] by (rule nth_equalityI) (use p in \<open>auto simp: nth_tl\<close>)
    also have "\<dots> = map (\<lambda>i. kr_buf k ! ring_index 16 (unat n + i)) [0..<ring_count 16 (unat n) h]"
      unfolding c by (rule map_cong [OF refl]) (simp only: i [symmetric] set_upt atLeastLessThan_iff)
    also have "\<dots> = kdb_rx_list (k\<lparr>kr_tail := n\<rparr>)" by (simp add: kdb_rx_list_def Let_def d)
    finally show ?thesis ..
  qed
  moreover have "unat n < 16" using n b by (auto simp: ring_next_def)
  ultimately show ?thesis using b by (simp add: kdb_rx_ok_def d [symmetric])
qed

interpretation kdb_input: byte_fifo kdb_rx_ok kdb_rx_list 15 "\<lambda>c k. Ok (kdb_uart_irq_handler (Some c) k)" "\<lambda>k. Ok (kdb_uart_getchar k)"
proof
  fix k assume "kdb_rx_ok k" "kdb_rx_list k = []"
  then have "kr_head k = kr_tail k" by (auto simp: kdb_rx_ok_def kdb_rx_list_def Let_def ring_count_def word_unat_eq_iff split: if_splits)
  then show "\<exists>k'. Ok (kdb_uart_getchar k) = Ok (0, k') \<and> kdb_rx_ok k' \<and> kdb_rx_list k' = []"
    using \<open>kdb_rx_ok k\<close> \<open>kdb_rx_list k = []\<close> by (simp add: kdb_uart_getchar_def)
qed (use kdb_rx_put kdb_rx_get in auto)

text \<open>Up to 30 bytes received by the serial port, and up to 15 received by the ring, are read in the order they came.\<close>

theorem debugger_input_in_order:
  "length cs \<le> 30 \<Longrightarrow> \<exists>u1 u2. rfold dbg_uart_recv cs (dbg_uart_init qemu) = Ok u1 \<and> reads dbg_uart_getchar (length cs) u1 = Ok (cs, u2)"
  "length ds \<le> 15 \<Longrightarrow> length buf = 16 \<Longrightarrow>
   \<exists>k1 k2. rfold (\<lambda>c k. Ok (kdb_uart_irq_handler (Some c) k)) ds (kdb_uart_input_init buf b) = Ok k1 \<and>
     reads (\<lambda>k. Ok (kdb_uart_getchar k)) (length ds) k1 = Ok (ds, k2)"
  using uart_rx.puts_then_reads [OF uart_init_ok, of qemu cs]
    kdb_input.puts_then_reads [of "kdb_uart_input_init buf b" ds]
  by (auto simp: dbg_uart_init_def queue_init_list kdb_uart_input_init_def kdb_rx_ok_def kdb_rx_list_def ring_count_def)

subsection \<open>The device table\<close>

text \<open>A device implements its three operations by functions of its driver; a null pointer is \<open>Null\<close>.\<close>

datatype dbg_fn = Null | Default_fn | Uart_fn | Semihosting_fn | Ram_fn | Kdb_uart_fn

record dbg_dev_t =
  dev_id :: nat
  dev_getchar :: dbg_fn
  dev_putchar :: dbg_fn
  dev_start_panic :: dbg_fn

record dbg_devices =
  dbg_dev :: "dbg_dev_t list"
  cur_dev :: nat

definition DBG_DEV_MAX :: "dbg_devices \<Rightarrow> nat" where "DBG_DEV_MAX t = length (dbg_dev t)"

text \<open>The errors are \<^verbatim>\<open>-EINVAL\<close> and \<^verbatim>\<open>-ENXIO\<close>.\<close>

datatype dev_rc = Dev_ok | Dev_EINVAL | Dev_ENXIO

definition dbg_register_device :: "dbg_dev_t option \<Rightarrow> dbg_devices \<Rightarrow> dev_rc \<times> dbg_devices" where
  "dbg_register_device device t = (case device of
     None \<Rightarrow> (Dev_EINVAL, t)
   | Some d \<Rightarrow> if dev_id d \<ge> DBG_DEV_MAX t then (Dev_EINVAL, t) else (Dev_ok, t\<lparr>dbg_dev := (dbg_dev t)[dev_id d := d]\<rparr>))"

definition dbg_change_device :: "nat \<Rightarrow> dbg_devices \<Rightarrow> dev_rc \<times> dbg_devices" where
  "dbg_change_device i t =
     (if i \<ge> DBG_DEV_MAX t then (Dev_EINVAL, t)
      else if dev_id (dbg_dev t ! i) = DBG_DEV_MAX t then (Dev_ENXIO, t)
      else (Dev_ok, t\<lparr>cur_dev := i\<rparr>))"

text \<open>The initial loop leaves out the last entry. \<open>devs\<close> are the devices of the configuration, which register themselves in the order
  of their identifiers.\<close>

definition default_dev :: "nat \<Rightarrow> dbg_dev_t" where
  "default_dev n = \<lparr>dev_id = n, dev_getchar = Default_fn, dev_putchar = Default_fn, dev_start_panic = Default_fn\<rparr>"

definition zero_dev :: dbg_dev_t where
  "zero_dev = \<lparr>dev_id = 0, dev_getchar = Null, dev_putchar = Null, dev_start_panic = Null\<rparr>"

definition dbg_device_init :: "nat \<Rightarrow> dbg_dev_t list \<Rightarrow> dbg_devices" where
  "dbg_device_init dev_max devs =
     fold (\<lambda>d t. snd (dbg_register_device (Some d) t)) devs
       \<lparr>dbg_dev = map (\<lambda>i. if i < dev_max - 1 then default_dev dev_max else zero_dev) [0..<dev_max], cur_dev = 0\<rparr>"

text \<open>The devices of the three drivers; the memory device has no other function than output.\<close>

definition dev_uart :: "nat \<Rightarrow> dbg_dev_t" where
  "dev_uart i = \<lparr>dev_id = i, dev_getchar = Uart_fn, dev_putchar = Uart_fn, dev_start_panic = Uart_fn\<rparr>"

definition dev_ram :: "nat \<Rightarrow> dbg_dev_t" where
  "dev_ram i = \<lparr>dev_id = i, dev_getchar = Null, dev_putchar = Ram_fn, dev_start_panic = Null\<rparr>"

lemma register_nth:
  "distinct (map dev_id devs) \<Longrightarrow> i < DBG_DEV_MAX t \<Longrightarrow>
   dbg_dev (fold (\<lambda>d t. snd (dbg_register_device (Some d) t)) devs t) ! i =
     (case find (\<lambda>d. dev_id d = i) devs of None \<Rightarrow> dbg_dev t ! i | Some d \<Rightarrow> d)"
proof (induction devs arbitrary: t)
  case (Cons d devs)
  let ?t = "snd (dbg_register_device (Some d) t)"
  have l: "DBG_DEV_MAX ?t = DBG_DEV_MAX t" by (simp add: dbg_register_device_def DBG_DEV_MAX_def)
  have "find (\<lambda>d. dev_id d = i) devs = None" if "dev_id d = i" using that Cons.prems(1)
    by (simp add: find_None_iff) (metis image_eqI)
  then show ?case using Cons.IH [of ?t] Cons.prems l
    by (auto simp: dbg_register_device_def DBG_DEV_MAX_def split: option.splits)
qed simp

text \<open>Once the devices of the configuration are registered, each can be selected; a device behind the last of them can too when it is
  the last entry of the table, and its operations are null pointers.\<close>

theorem debug_devices_selectable:
  assumes "distinct (map dev_id devs)" and "d \<in> set devs" and "dev_id d < dev_max"
  shows "dbg_change_device (dev_id d) (dbg_device_init dev_max devs) = (Dev_ok, (dbg_device_init dev_max devs)\<lparr>cur_dev := dev_id d\<rparr>)"
    and "dbg_dev (dbg_device_init dev_max devs) ! dev_id d = d"
proof -
  let ?start = "\<lparr>dbg_dev = map (\<lambda>i. if i < dev_max - 1 then default_dev dev_max else zero_dev) [0..<dev_max], cur_dev = 0\<rparr>"
  let ?t = "dbg_device_init dev_max devs"
  have "DBG_DEV_MAX (fold (\<lambda>d t. snd (dbg_register_device (Some d) t)) devs t) = DBG_DEV_MAX t" for t
    by (induction devs arbitrary: t) (auto simp: DBG_DEV_MAX_def dbg_register_device_def)
  then have l: "DBG_DEV_MAX ?t = dev_max" by (simp add: dbg_device_init_def DBG_DEV_MAX_def)
  have "find (\<lambda>x. dev_id x = dev_id d) devs = Some d" using assms(1,2)
    by (induction devs) (auto simp: image_iff)
  then show n: "dbg_dev ?t ! dev_id d = d"
    using register_nth [OF assms(1), of "dev_id d" ?start] assms(3) by (simp add: dbg_device_init_def DBG_DEV_MAX_def)
  show "dbg_change_device (dev_id d) ?t = (Dev_ok, ?t\<lparr>cur_dev := dev_id d\<rparr>)"
    using assms(3) n l by (simp add: dbg_change_device_def)
qed

lemma unregistered_last_device:
  "0 < dev_max \<Longrightarrow> dbg_change_device dev_max (dbg_device_init (Suc dev_max) []) = (Dev_ok, (dbg_device_init (Suc dev_max) [])\<lparr>cur_dev := dev_max\<rparr>) \<and>
   dbg_dev (dbg_device_init (Suc dev_max) []) ! dev_max = zero_dev"
  by (auto simp: dbg_change_device_def dbg_device_init_def DBG_DEV_MAX_def zero_dev_def nth_append)

subsection \<open>The kernel debugger\<close>

definition DL_EMERG :: u32 where "DL_EMERG = 0"
definition DL_KDB :: u32 where "DL_KDB = 0x4000"

text \<open>Output of a layer is printed when the layer is enabled; an emergency always.\<close>

definition dbg_vprintf :: "u32 \<Rightarrow> u32 \<Rightarrow> string \<Rightarrow> va_arg list \<Rightarrow> string result" where
  "dbg_vprintf dbg_layer layer fmt va = (if layer \<noteq> DL_EMERG \<and> dbg_layer AND layer = 0 then Ok [] else l4_vprintf fmt va)"

record kdb_t =
  kdb_option :: char
  kdb_name :: string
  kdb_menuentry :: string

definition kdb_entry :: "char \<Rightarrow> string \<Rightarrow> string \<Rightarrow> kdb_t" where
  "kdb_entry c n m = \<lparr>kdb_option = c, kdb_name = n, kdb_menuentry = m\<rparr>"

text \<open>The menu of a configuration with symbols and with the check of the tickless timer.\<close>

definition kdb_functions :: "bool \<Rightarrow> bool \<Rightarrow> kdb_t list" where
  "kdb_functions symmap tickless =
     [kdb_entry CHR ''K'' ''KTABLES'' ''print kernel tables'',
      kdb_entry CHR ''e'' ''KTIMER'' ''dump ktimer events'',
      kdb_entry CHR ''n'' ''NOW'' ''show timer (now)'',
      kdb_entry CHR ''s'' ''SOFTIRQ'' ''show softirqs'',
      kdb_entry CHR ''N'' ''NOTIFICATIONS'' ''show unified notifications'',
      kdb_entry CHR ''t'' ''THREADS'' ''dump threads'',
      kdb_entry CHR ''S'' ''STACKS'' ''dump stack usage'',
      kdb_entry CHR ''M'' ''MPU'' ''dump MPU status'',
      kdb_entry CHR ''m'' ''MEMPOOLS'' ''dump memory pools'',
      kdb_entry CHR ''a'' ''AS'' ''dump address spaces''] @
     (if symmap then [kdb_entry CHR ''p'' ''TOP'' ''show sampling''] else []) @
     (if tickless then [kdb_entry CHR ''v'' ''TICKLESS VERIFY'' ''show tickless scheduling stat''] else []) @
     [kdb_entry CHR ''L'' ''LATENCY'' ''show interrupt latency'',
      kdb_entry CHR ''r'' ''RESET LATENCY'' ''reset latency statistics'']"

definition kdb_print_menu :: "u32 \<Rightarrow> kdb_t list \<Rightarrow> string result" where
  "kdb_print_menu layers fns =
     rbind (dbg_vprintf layers DL_KDB (''commands: '' @ [NEWLINE]) [])
       (rfold (\<lambda>k out. rbind (dbg_vprintf layers DL_KDB (''%c: %s'' @ [NEWLINE]) [Word32 (of_char (kdb_option k)), Str (kdb_menuentry k)])
                (\<lambda>str. Ok (out @ str))) fns)"

text \<open>The handler of one key. \<open>run\<close> is what the function of an entry prints.\<close>

definition kdb_handler :: "u32 \<Rightarrow> kdb_t list \<Rightarrow> (kdb_t \<Rightarrow> string result) \<Rightarrow> char \<Rightarrow> (int \<times> string) result" where
  "kdb_handler layers fns run c =
     rbind (dbg_vprintf layers DL_KDB ([NEWLINE, NEWLINE] @ ''## KDB ##'' @ [NEWLINE]) []) (\<lambda>o1.
       let ok = (\<lambda>out. rbind (dbg_vprintf layers DL_KDB (''----------------'' @ [NEWLINE]) []) (\<lambda>o4. Ok (0, out @ o4))) in
       case find (\<lambda>k. c = kdb_option k) fns of
         Some k \<Rightarrow>
           rbind (dbg_vprintf layers DL_KDB (''-------%s------'' @ [NEWLINE]) [Str (kdb_name k)]) (\<lambda>o2.
             rbind (run k) (\<lambda>o3. ok (o1 @ o2 @ o3)))
       | None \<Rightarrow> if c = CHR ''?'' then rbind (kdb_print_menu layers fns) (\<lambda>o2. ok (o1 @ o2)) else Ok (1, o1))"

text \<open>No two commands share a key, so each key runs its own function and prints its banner around the output of it; any other key is
  answered by 1.\<close>

lemma kdb_options_distinct: "distinct (map kdb_option (kdb_functions symmap tickless))"
  by (simp add: kdb_functions_def kdb_entry_def)

lemma find_option:
  "distinct (map kdb_option fns) \<Longrightarrow> k \<in> set fns \<Longrightarrow> find (\<lambda>x. kdb_option k = kdb_option x) fns = Some k"
  by (induction fns) (auto simp: image_iff)

theorem kdb_key_runs_command:
  assumes "k \<in> set (kdb_functions symmap tickless)" and "run k = Ok out"
  shows "\<exists>before. kdb_handler DL_KDB (kdb_functions symmap tickless) run (kdb_option k) =
    Ok (0, before @ out @ l4_puts (''----------------'' @ [NEWLINE]))"
proof -
  have p: "dbg_vprintf DL_KDB DL_KDB fmt va = l4_vprintf fmt va" for fmt va by (simp add: dbg_vprintf_def DL_KDB_def DL_EMERG_def)
  have n: "CHR ''%'' \<noteq> NEWLINE" by (simp add: NEWLINE_def char_of_def bit_0)
  obtain b where b: "l4_vprintf (''-------%s------'' @ [NEWLINE]) [Str (kdb_name k)] = Ok b"
    using n by (auto simp: l4_vprintf_def vprintf_char_def vprintf_spec_def emit_def)
  show ?thesis
    unfolding kdb_handler_def p find_option [OF kdb_options_distinct assms(1)] using n assms(2)
    using b by (simp add: vprintf_plain)
qed

end
