(* ===== verification/Spec2Isabelle.thy ===== *)
theory Spec2Isabelle
  imports Boot Gpio Kprobes Latency Tickless User_Irq Kernel_Loop Posix_Sem Posix_Barrier Posix_Rwlock Posix_Thread Posix_Time Ksym Elf_Loader Console
begin

text \<open>
  \<^bold>\<open>The F9 microkernel\<close>. F9 is an L4-style microkernel for ARM Cortex-M with a user library (L4 interface, pager, POSIX threads) on
  top. This development models the C sources under \<^verbatim>\<open>src/\<close> by executable definitions, one per C function (or per loop of one), and
  proves what makes them correct; paths below are relative to \<^verbatim>\<open>src/\<close>.

  \<^bold>\<open>How the parts interact.\<close> User threads trap into the supervisor call handler, which either serves a message on the fast path or
  defers the call to the kernel thread as a soft interrupt. The kernel thread runs the handlers of the soft interrupts (system calls,
  expired timer events, asynchronous notifications), which work on threads, address spaces and messages and put threads into the
  ready queues; the scheduler picks the next thread and the dispatcher programs the memory protection unit for it. Device interrupts
  reach user threads as messages or notifications, memory faults bring pages into the protection unit. In user space the root thread
  lays out memory for the programs and starts them, the pager of a program creates and joins its threads by messages, and the POSIX
  library builds mutexes, condition variables, semaphores and barriers from notifications and exclusive stores.

  \<^bold>\<open>Conventions.\<close> A struct is a record, memory of one kind a function from addresses (\<^typ>\<open>ptr\<close>, 32-bit words) to records; records of
  later components extend those of earlier ones, and the operations are polymorphic in the extension. Integers keep their width. An
  operation that may panic, fail an assertion, follow a null pointer or run past an array returns a \<^typ>\<open>'a result\<close>; the error codes
  of the interface are values of the result. Interrupts are disabled around the kernel's critical sections, so a kernel operation is one
  step; the POSIX synchronisation objects are transition systems whose steps are single loads, stores and exclusive stores, with
  arbitrary interleaving and spurious failures.

  \<^bold>\<open>Kernel theories.\<close>
  \<^item> \<open>Prelude\<close>: results, words, bitmaps, the leading-zero count, circular doubly linked lists.
  \<^item> \<open>Tcb\<close> (\<^verbatim>\<open>include/thread.h\<close>), \<open>Sched\<close> (\<^verbatim>\<open>kernel/sched.c\<close>, inheritance of \<^verbatim>\<open>kernel/thread.c\<close>): the bitmap of 32 ready
    rings represents 32 lists (\<open>rq_rep\<close>); enqueue, dequeue, yield and selection refine the list operations. Locale \<open>ready_queues\<close>.
  \<^item> \<open>Ktable\<close> (\<^verbatim>\<open>kernel/lib/ktable.c\<close>, \<^verbatim>\<open>include/lib/bitmap.h\<close>): tables with a bitmap of used elements hand out each element once.
    Locale \<open>slot_pool\<close>, which the pager's thread pool also implements.
  \<^item> \<open>Mempool\<close>, \<open>Fpage\<close>, \<open>Fpage_Chain\<close>, \<open>Memory\<close> (\<^verbatim>\<open>kernel/memory.c\<close>, \<^verbatim>\<open>kernel/fpage.c\<close>, \<^verbatim>\<open>platform/stm32-common/mpu.c\<close>): memory
    pools, the tiling of an area by flexible pages, the lists of an address space, mapping, and the regions of the protection unit.
  \<^item> \<open>Thread\<close> (\<^verbatim>\<open>kernel/thread.c\<close>): creation, lookup in the sorted map (\<open>tm_rep\<close>), destruction, contexts, canaries and the switch.
    Locale \<open>directory\<close>.
  \<^item> \<open>Softirq\<close> (\<^verbatim>\<open>kernel/softirq.c\<close>, \<^verbatim>\<open>kernel/systhread.c\<close>), \<open>Notification\<close> (\<^verbatim>\<open>kernel/notification.c\<close>), \<open>Ktimer\<close>
    (\<^verbatim>\<open>kernel/ktimer.c\<close>): deferred work, notification bits, the queue of asynchronous events, the timer queue of relative times. Handlers
    called through pointers are names; locale \<open>event_callbacks\<close> states what the timer needs of them.
  \<^item> \<open>Message\<close>, \<open>Ipc\<close>, \<open>Fastpath\<close> (\<^verbatim>\<open>kernel/ipc.c\<close>, \<^verbatim>\<open>include/platform/ipc-fastpath.h\<close>), \<open>Interrupt\<close> (\<^verbatim>\<open>kernel/interrupt.c\<close>),
    \<open>Syscall\<close> (\<^verbatim>\<open>kernel/syscall.c\<close>): message registers, the slow path with typed items and time-outs, the fast path and its
    equivalence with the slow one, interrupts for user threads, the system calls and their dispatch.
  \<^item> \<open>Kernel_Loop\<close>: the memory fault handler and the rounds of the kernel and idle thread.
  \<^item> \<open>Lib_Sort\<close>, \<open>Ksym\<close> (\<^verbatim>\<open>kernel/lib/sort.c\<close>, \<^verbatim>\<open>kernel/lib/bsearch.c\<close>, \<^verbatim>\<open>kernel/ksym.c\<close>, \<^verbatim>\<open>kernel/sampling.c\<close>): heap sort and
    binary search over a comparison function (locale \<open>comparison\<close>), the symbol table and the profiler.
  \<^item> \<open>Lib_Mem\<close> (\<^verbatim>\<open>kernel/lib/memset.c\<close>, \<^verbatim>\<open>kernel/lib/memcpy.c\<close>, \<^verbatim>\<open>kernel/lib/strcmp.c\<close>) over a byte-addressed memory, and
    \<open>Elf_Loader\<close> (\<^verbatim>\<open>loader/elf/\<close>), which uses its copy.
  \<^item> \<open>Lib_Stdio\<close> (\<^verbatim>\<open>kernel/lib/stdio.c\<close>) and \<open>Console\<close> (\<^verbatim>\<open>kernel/lib/queue.c\<close>, \<^verbatim>\<open>platform/debug_uart.c\<close>,
    \<^verbatim>\<open>platform/debug_device.c\<close>, \<^verbatim>\<open>kernel/kdb.c\<close>): formatted output and the buffered serial port, a refinement of a console that sends
    bytes in order; locale \<open>byte_fifo\<close> for the two input buffers.
  \<^item> \<open>Kprobes\<close> (\<^verbatim>\<open>kernel/kprobes.c\<close>, \<^verbatim>\<open>platform/kprobes-arch.c\<close>, \<^verbatim>\<open>platform/breakpoint*.c\<close>): probes on kernel code; the list of
    probes and the comparators of the breakpoint unit agree after every history.
  \<^item> \<open>Latency\<close> (\<^verbatim>\<open>platform/irq-latency.c\<close>) and \<open>Tickless\<close> (\<^verbatim>\<open>kernel/tickless-verify.c\<close>): measurements of interrupts and of
    the timer. Samples recorded by handlers that preempt each other are all counted; the ring keeps the last measurements.
  \<^item> \<open>Boot\<close> (\<^verbatim>\<open>kernel/start.c\<close>, \<^verbatim>\<open>kernel/init.c\<close>): the sections are copied and cleared, and every initialisation hook runs once, in the
    order of the levels. \<open>Gpio\<close> (\<^verbatim>\<open>platform/stm32-common/gpio-f4.c\<close>, \<^verbatim>\<open>platform/stm32-common/nvic.c\<close>): configuring a pin changes that pin.

  \<^bold>\<open>User theories.\<close>
  \<^item> \<open>L4_Types\<close>, \<open>L4_Message\<close> (\<^verbatim>\<open>user/include/l4/\<close>): time periods and message objects of the library, and what the kernel makes of
    them when they pass through the system call.
  \<^item> \<open>Root_Thread\<close> (\<^verbatim>\<open>user/root_thread.c\<close>) and \<open>Pager\<close> (\<^verbatim>\<open>user/lib/l4/pager.c\<close>): the layout of the programs' memory, and the
    server that creates, starts and joins threads; system calls are the actions they return. \<open>User_Irq\<close>
    (\<^verbatim>\<open>user/lib/io/user_interrupt.c\<close>): requests for interrupts and the thread that handles them, followed into the kernel and back.
  \<^item> \<open>Waiters\<close> (locale \<open>wait_queue\<close>), \<open>Posix_Mutex\<close>, \<open>Posix_Sem\<close>, \<open>Posix_Cond\<close>, \<open>Posix_Barrier\<close>, \<open>Posix_Rwlock\<close>,
    \<open>Posix_Thread\<close>, \<open>Posix_Time\<close> (\<^verbatim>\<open>user/lib/posix/\<close>): mutual exclusion, wake-ups, conservation of units, barriers, threads,
    cancellation, signals, clocks and timed waits. Read-write locks and barriers take their inner mutexes as words that name the holder,
    which \<open>Posix_Mutex\<close> justifies.

  \<^bold>\<open>What the lemmas show.\<close> Representation invariants and refinements for the data structures (ready queues, tables, thread map,
  page lists, timer and event queues, message objects, byte queues); for each operation its effect on every branch, panics and error
  codes included; equivalence of optimised code with its specification (fast path, \<open>memcpy\<close>, \<open>memset\<close>, heap sort, time periods); round
  trips (messages, decimal numbers); safety and progress of the concurrent POSIX objects by invariants over all interleavings. Where the
  code does not do what it means to, the theorem states what it does.

  \<^bold>\<open>Bounds.\<close> A walk over a linked list takes fuel and ends in \<open>Diverges\<close> when it runs out. The fuel exceeds the number of elements that
  exist: \<open>WALK_FUEL\<close> = 257 for 256 flexible pages, \<open>KT_FUEL\<close> = 65 for 64 timer events, \<open>ASYNC_FUEL\<close> = 33 for 32 events,
  \<open>THREAD_FUEL\<close> = 33 for 32 threads, \<open>IRQ_FUEL\<close> = 83 for 82 interrupts, \<open>KP_FUEL\<close> = 257 for 256 probes; the theorems show that it suffices for well formed lists, so that
  the operations return. The retry loops of \<open>softirq_execute\<close> and of the latency snapshot take one unit per pass. All other loops are total functions with a
  termination proof.

  \<^bold>\<open>Not modelled.\<close> The assembly of exception entry and context switch (its effect on the saved context is in \<open>Thread\<close>), the vector
  tables and the clock set-up, the other device drivers and register definitions, the debugger's dump functions,
  the string items and control transfer items of messages, the accessors of the kernel interface page, and the test
  programs: they are register accesses and output without state of their own, or interfaces the kernel does not implement.
  \<open>CONFIG_KTIMER_DIRECT_NOTIFY\<close>, and in the soft interrupt table the debugger, are off.
\<close>

end
